(* ===== verification/C_Base.thy ===== *)
theory C_Base
  imports Main
begin

text \<open>
  The part of the C language and of its standard library that the programs of the
  repository use, as far as every component shares it: characters and C strings, arrays
  of characters written in place, the character classes of \<^verbatim>\<open>ctype.h\<close>, the conversions
  \<^verbatim>\<open>%d\<close>, \<^verbatim>\<open>%02x\<close> of \<^verbatim>\<open>printf\<close> and \<^verbatim>\<open>%d\<close> of \<^verbatim>\<open>sscanf\<close>, and the ways a C program leaves
  the defined language.  No entry of this theory models code of the repository; its lemmas
  are the ones the components share.
\<close>

section \<open>Automation\<close>

named_theorems cbuf_simps \<open>facts on arrays written in place\<close>
named_theorems cchar_simps \<open>facts on character classes\<close>

section \<open>Leaving the defined language\<close>

text \<open>
  A C operation that has undefined behaviour is a \<open>fault\<close>, never a made-up value: an
  access outside an array, a signed overflow, a \<^verbatim>\<open>scanf\<close> conversion whose value does not
  fit the object it is stored in, a \<^verbatim>\<open>printf\<close> conversion without an argument,
  the use of a variable that was not assigned, and an access through a null pointer.
\<close>

datatype fault = Overrun | SignedOverflow | ConversionRange | MissingArgument | Uninitialised | NullPointer

definition INT_MIN :: int where "INT_MIN = -2147483648"
definition INT_MAX :: int where "INT_MAX = 2147483647"

definition int_ok :: "int \<Rightarrow> bool" where
  "int_ok i \<longleftrightarrow> INT_MIN \<le> i \<and> i \<le> INT_MAX"

text \<open>Signed addition and subtraction of two \<^verbatim>\<open>int\<close> values.\<close>

definition c_add :: "int \<Rightarrow> int \<Rightarrow> fault + int" where
  "c_add a b = (if int_ok (a + b) then Inr (a + b) else Inl SignedOverflow)"

definition c_sub :: "int \<Rightarrow> int \<Rightarrow> fault + int" where
  "c_sub a b = (if int_ok (a - b) then Inr (a - b) else Inl SignedOverflow)"

section \<open>Characters\<close>

abbreviation nul :: char where "nul \<equiv> CHR 0x00"
abbreviation nl :: string where "nl \<equiv> [CHR 0x0A]"

definition isdigit :: "char \<Rightarrow> bool" where
  "isdigit c \<longleftrightarrow> 48 \<le> (of_char c :: nat) \<and> (of_char c :: nat) \<le> 57"

definition isspace :: "char \<Rightarrow> bool" where
  "isspace c \<longleftrightarrow> (of_char c :: nat) = 32 \<or> (9 \<le> (of_char c :: nat) \<and> (of_char c :: nat) \<le> 13)"

text \<open>\<^verbatim>\<open>isprint\<close> in the C locale: the codes from the space to the tilde.\<close>

definition isprint :: "char \<Rightarrow> bool" where
  "isprint c \<longleftrightarrow> 32 \<le> (of_char c :: nat) \<and> (of_char c :: nat) \<le> 126"

definition digit_val :: "char \<Rightarrow> nat" where
  "digit_val c = of_char c - 48"

definition digit_char :: "nat \<Rightarrow> char" where
  "digit_char n = char_of (48 + n)"

lemma digit_char_simps [cchar_simps]:
  assumes "n < 10"
  shows "isdigit (digit_char n)" "digit_val (digit_char n) = n"
    "\<not> isspace (digit_char n)" "digit_char n \<noteq> CHR ''-''" "digit_char n \<noteq> CHR ''+''"
    "digit_char n \<noteq> CHR ''=''" "digit_char n \<noteq> nul" "isprint (digit_char n)"
  using assms
  by (auto simp: isdigit_def digit_char_def digit_val_def isspace_def isprint_def
      dest: arg_cong [where f = "of_char :: char \<Rightarrow> nat"])

lemma isdigit_not_special [cchar_simps]:
  assumes "isdigit c"
  shows "\<not> isspace c" "c \<noteq> CHR ''-''" "c \<noteq> CHR ''+''" "c \<noteq> CHR ''=''" "c \<noteq> nul"
  using assms by (auto simp: isdigit_def isspace_def)

section \<open>Arrays of characters\<close>

text \<open>
  An array \<^verbatim>\<open>char buf[N]\<close> is a list of length \<open>N\<close>.  \<open>splice buf off d\<close> is the array after
  the characters \<open>d\<close> have been written from index \<open>off\<close> on; \<open>store\<close> is the same as a C
  library function does it (\<^verbatim>\<open>bcopy\<close>, \<^verbatim>\<open>strcpy\<close>, \<^verbatim>\<open>sprintf\<close>), which is undefined when the
  characters do not fit.
\<close>

definition splice :: "string \<Rightarrow> nat \<Rightarrow> string \<Rightarrow> string" where
  "splice buf off d = take off buf @ d @ drop (off + length d) buf"

definition store :: "string \<Rightarrow> nat \<Rightarrow> string \<Rightarrow> fault + string" where
  "store buf off d =
     (if off + length d \<le> length buf then Inr (splice buf off d) else Inl Overrun)"

text \<open>The C string that starts at the front of an array.\<close>

definition cstr :: "string \<Rightarrow> string" where
  "cstr buf = takeWhile (\<lambda>c. c \<noteq> nul) buf"

text \<open>\<^verbatim>\<open>strcpy\<close> and \<^verbatim>\<open>sprintf\<close> write the text and a terminating null character.\<close>

definition store_str :: "string \<Rightarrow> string \<Rightarrow> fault + string" where
  "store_str buf t = store buf 0 (t @ [nul])"

lemma length_splice [simp]:
  "off + length d \<le> length buf \<Longrightarrow> length (splice buf off d) = length buf"
  by (simp add: splice_def)

lemma splice_Nil [simp]: "splice buf off [] = buf"
  by (simp add: splice_def)

lemma take_splice_front [cbuf_simps]: "off \<le> length buf \<Longrightarrow> take off (splice buf off d) = take off buf"
  by (simp add: splice_def)

lemma take_splice_0 [cbuf_simps]: "take (length d) (splice buf 0 d) = d"
  by (simp add: splice_def)

lemma take_splice_end [cbuf_simps]:
  "off + length d \<le> length buf \<Longrightarrow> take (off + length d) (splice buf off d) = take off buf @ d"
  by (simp add: splice_def)

lemma splice_append [cbuf_simps]:
  assumes "off + length d + length e \<le> length buf"
  shows "splice (splice buf off d) (off + length d) e = splice buf off (d @ e)"
proof -
  have "take (off + length d) (splice buf off d) = take off buf @ d"
    using assms by (simp add: take_splice_end)
  moreover have "drop (off + length d + length e) (splice buf off d)
      = drop (off + length d + length e) buf"
    using assms by (simp add: splice_def add.commute add.left_commute)
  ultimately show ?thesis by (simp add: splice_def add.assoc)
qed

lemma store_Inr_iff [cbuf_simps]:
  "store buf off d = Inr b \<longleftrightarrow> off + length d \<le> length buf \<and> b = splice buf off d"
  by (auto simp: store_def)

lemma store_Inl_iff [cbuf_simps]:
  "store buf off d = Inl f \<longleftrightarrow> length buf < off + length d \<and> f = Overrun"
  by (auto simp: store_def)

lemma cstr_append_nul [cbuf_simps]: "nul \<notin> set t \<Longrightarrow> cstr (t @ nul # r) = t"
  unfolding cstr_def by (induction t) auto

lemma cstr_id: "nul \<notin> set s \<Longrightarrow> cstr s = s"
  by (auto simp: cstr_def)

lemma cstr_no_nul [simp]: "nul \<notin> set (cstr b)"
  unfolding cstr_def by (induction b) auto

lemma length_cstr_le: "length (cstr b) \<le> length b"
  by (simp add: cstr_def length_takeWhile_le)

lemma store_str_Inr_iff [cbuf_simps]:
  "store_str buf t = Inr b \<longleftrightarrow>
     length t < length buf \<and> b = t @ nul # drop (Suc (length t)) buf"
  by (auto simp: store_str_def store_def splice_def)

lemma take_length_take: "take (length (take k s)) s = take k s"
  by (cases "length s \<le> k") (auto simp: min_def)

lemma take_of_prefix:
  assumes "take m s = q @ r"
  shows "take (length q) s = q"
proof -
  have "s = (q @ r) @ drop m s" using append_take_drop_id [of m s] by (simp add: assms)
  then show ?thesis by (metis append.assoc append_eq_conv_conj)
qed

lemma takeWhile_stop:
  "\<forall>x \<in> set l. P x \<Longrightarrow> \<not> P c \<Longrightarrow> takeWhile P (l @ c # r) = l"
  by (induction l) auto

lemma dropWhile_stop:
  "\<forall>x \<in> set l. P x \<Longrightarrow> \<not> P c \<Longrightarrow> dropWhile P (l @ c # r) = c # r"
  by (induction l) auto

lemma first_stop:
  "x \<notin> set l \<Longrightarrow> takeWhile (\<lambda>c. c \<noteq> x) (l @ x # r) = l"
  "x \<notin> set l \<Longrightarrow> dropWhile (\<lambda>c. c \<noteq> x) (l @ x # r) = x # r"
  by (induction l) auto

section \<open>Printing numbers\<close>

fun show_nat :: "nat \<Rightarrow> string" where
  "show_nat n = (if n < 10 then [digit_char n] else show_nat (n div 10) @ [digit_char (n mod 10)])"

declare show_nat.simps [simp del]

text \<open>The digits one by one, for the evaluation of concrete texts.\<close>

lemma digit_chars [cchar_simps]:
  "digit_char 0 = CHR ''0''" "digit_char 1 = CHR ''1''" "digit_char (Suc 0) = CHR ''1''"
  "digit_char 2 = CHR ''2''"
  "digit_char 3 = CHR ''3''" "digit_char 4 = CHR ''4''" "digit_char 5 = CHR ''5''"
  "digit_char 6 = CHR ''6''" "digit_char 7 = CHR ''7''" "digit_char 8 = CHR ''8''"
  "digit_char 9 = CHR ''9''"
  by (simp_all add: digit_char_def char_of_def bit_Suc_0_iff)

text \<open>The conversion \<^verbatim>\<open>%d\<close>.\<close>

definition show_int :: "int \<Rightarrow> string" where
  "show_int i = (if i < 0 then CHR ''-'' # show_nat (nat (- i)) else show_nat (nat i))"

text \<open>The conversion \<^verbatim>\<open>%02x\<close> of an \<^verbatim>\<open>unsigned char\<close>.\<close>

definition hex_digit :: "nat \<Rightarrow> char" where
  "hex_digit n = (if n < 10 then char_of (48 + n) else char_of (87 + n))"

definition show_hex2 :: "char \<Rightarrow> string" where
  "show_hex2 c = [hex_digit (of_char c div 16), hex_digit (of_char c mod 16)]"

text \<open>The conversion \<^verbatim>\<open>%x\<close>.\<close>

fun show_hex :: "nat \<Rightarrow> string" where
  "show_hex n = (if n < 16 then [hex_digit n] else show_hex (n div 16) @ [hex_digit (n mod 16)])"

declare show_hex.simps [simp del]

lemma show_nat_digits: "c \<in> set (show_nat n) \<Longrightarrow> isdigit c"
proof (induction n rule: show_nat.induct)
  case (1 n)
  then show ?case
    by (cases "n < 10") (auto simp: show_nat.simps [of n] cchar_simps)
qed

lemma show_nat_ne_Nil [simp]: "show_nat n \<noteq> []"
  by (subst show_nat.simps) simp

lemma show_int_ne_Nil [simp]: "show_int i \<noteq> []"
  by (simp add: show_int_def)

lemma show_int_chars: "c \<in> set (show_int i) \<Longrightarrow> isdigit c \<or> c = CHR ''-''"
  by (auto simp: show_int_def dest: show_nat_digits split: if_splits)

lemma show_int_no_nul [simp]: "nul \<notin> set (show_int i)"
  using show_int_chars [of nul i] by (auto simp: isdigit_def)

lemma show_int_no_term [simp]: "CHR ''='' \<notin> set (show_int i)"
  using show_int_chars [of "CHR ''=''" i] by (auto simp: isdigit_def)

lemma length_show_nat_less:
  "n < 10 ^ k \<Longrightarrow> 0 < k \<Longrightarrow> length (show_nat n) \<le> k"
proof (induction n arbitrary: k rule: show_nat.induct)
  case (1 n)
  show ?case
  proof (cases "n < 10")
    case True
    with 1 show ?thesis by (simp add: show_nat.simps [of n])
  next
    case False
    with 1 obtain j where k: "k = Suc j" and "0 < j"
      by (cases k; cases "k = 1") (auto simp: power_Suc)
    from \<open>n < 10 ^ k\<close> k have "n div 10 < 10 ^ j" by (simp add: div_less_iff_less_mult)
    with 1 False \<open>0 < j\<close> have "length (show_nat (n div 10)) \<le> j" by simp
    with False k show ?thesis by (simp add: show_nat.simps [of n])
  qed
qed

lemma length_show_int: "int_ok i \<Longrightarrow> length (show_int i) \<le> 11"
proof -
  assume "int_ok i"
  then have "nat \<bar>i\<bar> < 10 ^ 10" by (auto simp: int_ok_def INT_MIN_def INT_MAX_def)
  then have "length (show_nat (nat \<bar>i\<bar>)) \<le> 10" by (rule length_show_nat_less) simp
  then show ?thesis by (auto simp: show_int_def abs_if split: if_splits)
qed

section \<open>Scanning numbers\<close>

text \<open>
  \<^verbatim>\<open>sscanf\<close> for the formats the programs use, built from the conversion \<^verbatim>\<open>%d\<close>, white
  space and ordinary characters.  The result is the list of values converted and stored
  before the first mismatch; the number \<^verbatim>\<open>sscanf\<close> returns is its length (the code only
  compares it with 2, so that \<^verbatim>\<open>EOF\<close> and 0 need not be told apart).  A value that is no
  \<^verbatim>\<open>int\<close> makes the call undefined (C99, 7.19.6.2).
\<close>

datatype conv = ConvD | Space | Lit char

fun skip_space :: "string \<Rightarrow> string" where
  "skip_space [] = []"
| "skip_space (c # cs) = (if isspace c then skip_space cs else c # cs)"

fun scan_digits :: "nat \<Rightarrow> string \<Rightarrow> nat \<times> string" where
  "scan_digits acc [] = (acc, [])"
| "scan_digits acc (c # cs) =
     (if isdigit c then scan_digits (10 * acc + digit_val c) cs else (acc, c # cs))"

definition scan_nat :: "string \<Rightarrow> (nat \<times> string) option" where
  "scan_nat s = (case s of [] \<Rightarrow> None | c # _ \<Rightarrow> if isdigit c then Some (scan_digits 0 s) else None)"

definition scan_int :: "string \<Rightarrow> (int \<times> string) option" where
  "scan_int s = (case s of
       [] \<Rightarrow> None
     | c # cs \<Rightarrow>
         if c = CHR ''-'' then map_option (\<lambda>(n, r). (- int n, r)) (scan_nat cs)
         else if c = CHR ''+'' then map_option (\<lambda>(n, r). (int n, r)) (scan_nat cs)
         else map_option (\<lambda>(n, r). (int n, r)) (scan_nat (c # cs)))"

fun sscanf :: "conv list \<Rightarrow> string \<Rightarrow> fault + int list" where
  "sscanf [] s = Inr []"
| "sscanf (Space # f) s = sscanf f (skip_space s)"
| "sscanf (Lit c # f) s =
     (case s of [] \<Rightarrow> Inr [] | x # xs \<Rightarrow> if x = c then sscanf f xs else Inr [])"
| "sscanf (ConvD # f) s =
     (case scan_int (skip_space s) of
        None \<Rightarrow> Inr []
      | Some (i, r) \<Rightarrow>
          if int_ok i then
            (case sscanf f r of Inl e \<Rightarrow> Inl e | Inr vs \<Rightarrow> Inr (i # vs))
          else Inl ConversionRange)"

lemma skip_space_id: "(\<forall>c cs. s = c # cs \<longrightarrow> \<not> isspace c) \<Longrightarrow> skip_space s = s"
  by (cases s) auto

lemma skip_space_append: "\<forall>c \<in> set w. isspace c \<Longrightarrow> skip_space (w @ s) = skip_space s"
  by (induction w) auto

text \<open>Reading the digits back: \<^verbatim>\<open>%d\<close> of \<^verbatim>\<open>sscanf\<close> inverts \<^verbatim>\<open>%d\<close> of \<^verbatim>\<open>printf\<close>.\<close>

definition no_digit_first :: "string \<Rightarrow> bool" where
  "no_digit_first r \<longleftrightarrow> (case r of [] \<Rightarrow> True | c # _ \<Rightarrow> \<not> isdigit c)"

lemma scan_digits_append:
  "scan_digits acc (show_nat n @ r)
     = scan_digits (acc * 10 ^ length (show_nat n) + n) r"
proof (induction n arbitrary: acc r rule: show_nat.induct)
  case (1 n)
  show ?case
  proof (cases "n < 10")
    case True
    then show ?thesis by (simp add: show_nat.simps [of n] cchar_simps mult.commute)
  next
    case False
    let ?k = "length (show_nat (n div 10))"
    have "scan_digits acc (show_nat n @ r)
        = scan_digits acc (show_nat (n div 10) @ digit_char (n mod 10) # r)"
      using False by (simp add: show_nat.simps [of n])
    also have "\<dots> = scan_digits (acc * 10 ^ ?k + n div 10) (digit_char (n mod 10) # r)"
      using 1 False by simp
    also have "\<dots> = scan_digits (10 * (acc * 10 ^ ?k + n div 10) + n mod 10) r"
      by (simp add: cchar_simps)
    also have "10 * (acc * 10 ^ ?k + n div 10) + n mod 10 = acc * 10 ^ Suc ?k + n"
      by (simp add: algebra_simps)
    finally show ?thesis using False by (simp add: show_nat.simps [of n])
  qed
qed

lemma scan_digits_stop: "no_digit_first r \<Longrightarrow> scan_digits acc r = (acc, r)"
  by (cases r) (auto simp: no_digit_first_def)

lemma scan_nat_show_nat:
  "no_digit_first r \<Longrightarrow> scan_nat (show_nat n @ r) = Some (n, r)"
proof -
  assume r: "no_digit_first r"
  obtain c cs where s: "show_nat n = c # cs" by (cases "show_nat n") auto
  then have "isdigit c" using show_nat_digits [of c n] by simp
  then show ?thesis
    using scan_digits_append [of 0 n r] scan_digits_stop [OF r]
    by (simp add: scan_nat_def s)
qed

lemma scan_int_show_int:
  "no_digit_first r \<Longrightarrow> scan_int (show_int i @ r) = Some (i, r)"
proof -
  assume r: "no_digit_first r"
  obtain c cs where s: "show_nat (nat i) = c # cs" by (cases "show_nat (nat i)") auto
  then have "isdigit c" using show_nat_digits [of c "nat i"] by simp
  then have "c \<noteq> CHR ''-''" "c \<noteq> CHR ''+''" by (simp_all add: cchar_simps)
  then show ?thesis
    using scan_nat_show_nat [OF r, of "nat i"] scan_nat_show_nat [OF r, of "nat (- i)"] s
    by (auto simp: scan_int_def show_int_def)
qed

lemma skip_space_show_int [simp]: "skip_space (show_int i @ r) = show_int i @ r"
proof (rule skip_space_id, intro allI impI)
  fix c cs assume "show_int i @ r = c # cs"
  then have "c \<in> set (show_int i)" by (cases "show_int i") auto
  then show "\<not> isspace c" using show_int_chars [of c i] by (auto simp: isdigit_def isspace_def)
qed

lemma sscanf_ConvD_show_int:
  assumes "no_digit_first r" and "int_ok i" and "\<forall>c \<in> set w. isspace c"
  shows "sscanf (ConvD # f) (w @ show_int i @ r)
    = (case sscanf f r of Inl e \<Rightarrow> Inl e | Inr vs \<Rightarrow> Inr (i # vs))"
  using assms by (simp add: skip_space_append scan_int_show_int)

section \<open>Runs of step relations\<close>

text \<open>A property that every step keeps holds in all states that can be reached.\<close>

lemma reach_inv:
  assumes "rtranclp step s t" and "good s" and "\<And>a b. good a \<Longrightarrow> step a b \<Longrightarrow> good b"
  shows "good t"
  using assms(1,2) by (induction rule: rtranclp_induct) (auto intro: assms(3))

end
