(* ===== verification/Posix_IO.thy ===== *)
theory Posix_IO
  imports C_Base
begin

text \<open>
  The system calls the programs make, as far as their results depend on the environment.
  What a descriptor will deliver is a script of read events, what the kernel will accept a
  script of write events; every schedule of segments, short writes, errors and closes that
  the other side and the kernel can produce is one such script, and the theorems of the
  components quantify over it.  Nothing here models code of the repository.
\<close>

section \<open>Errors and outcomes\<close>

datatype errno = EINTR | EAGAIN | ECONNRESET | ECONNABORTED | EPROTO | EPIPE | EBADF | EIO
  | ENOENT | EACCES | EFAULT | EINVAL | EINPROGRESS | ETIMEDOUT | ECONNREFUSED | EAFNOSUPPORT | ENOSPC | ENOMEM

text \<open>
  How a function leaves: it returns, it waits for ever for an event the script does not
  hold, the process exits with a status, or the program is outside the defined language.
\<close>

datatype stop = Returns | Blocks | Exits int | Undef fault

section \<open>Reading\<close>

text \<open>
  \<open>Seg s\<close>: the bytes \<open>s\<close> become readable together; \<open>RdErr e\<close>: the next read fails;
  \<open>Fin\<close>: end of file, which stays.  A read takes at most \<open>n\<close> bytes of the front segment,
  and what does not fit is left for the next read, as on a stream socket.  An empty script
  means that nothing will arrive: the read waits.
\<close>

datatype rd_event = Seg string | RdErr errno | Fin

datatype rd_result = Got string | Eof | RdFail errno | RdWait

fun sys_read :: "nat \<Rightarrow> rd_event list \<Rightarrow> rd_result \<times> rd_event list" where
  "sys_read n [] = (RdWait, [])"
| "sys_read n (Fin # es) = (Eof, Fin # es)"
| "sys_read n (RdErr e # es) = (RdFail e, es)"
| "sys_read n (Seg [] # es) = sys_read n es"
| "sys_read n (Seg (c # cs) # es) =
     (if length (c # cs) \<le> n then (Got (c # cs), es)
      else (Got (take n (c # cs)), Seg (drop n (c # cs)) # es))"

text \<open>The bytes that arrive before the first event of another kind, and what follows them.\<close>

fun payload :: "rd_event list \<Rightarrow> string" where
  "payload (Seg s # es) = s @ payload es"
| "payload _ = []"

fun after :: "rd_event list \<Rightarrow> rd_event list" where
  "after (Seg s # es) = after es"
| "after es = es"

text \<open>The measure every terminating read loop uses.\<close>

fun ev_size :: "rd_event list \<Rightarrow> nat" where
  "ev_size [] = 0"
| "ev_size (Seg s # es) = Suc (length s + ev_size es)"
| "ev_size (_ # es) = Suc (ev_size es)"

lemma after_Seg [simp]: "after es \<noteq> Seg s # es'"
  by (induction es rule: after.induct) auto

lemma payload_after [simp]: "payload (after es) = []" "after (after es) = after es"
  by (induction es rule: after.induct) auto

lemma sys_read_Got:
  assumes "sys_read n es = (Got s, es')"
  shows "payload es = s @ payload es'" "after es' = after es" "length s \<le> n"
    "0 < n \<Longrightarrow> s \<noteq> []"
  using assms
  by (induction n es rule: sys_read.induct)
    (auto split: if_splits simp flip: append_assoc append_Cons)

lemma sys_read_not_Got:
  assumes "sys_read n es = (r, es')" and "\<And>s. r \<noteq> Got s"
  shows "payload es = []" "es' = (case after es of RdErr e # es2 \<Rightarrow> es2 | es2 \<Rightarrow> es2)"
  using assms by (induction n es rule: sys_read.induct) (auto split: if_splits)

lemma sys_read_after:
  "payload es = [] \<Longrightarrow> sys_read n es = sys_read n (after es)"
  by (induction n es rule: sys_read.induct) auto

lemma sys_read_Got_ex:
  assumes "payload es \<noteq> []"
  obtains s es' where "sys_read n es = (Got s, es')"
  using assms
proof (induction n es arbitrary: thesis rule: sys_read.induct)
  case (5 n c cs es)
  then show ?case by (cases "length (c # cs) \<le> n") auto
qed auto

lemma sys_read_one:
  assumes "payload es = c # p"
  obtains es' where "sys_read 1 es = (Got [c], es')" "payload es' = p" "after es' = after es"
proof -
  obtain s es' where r: "sys_read 1 es = (Got s, es')"
    using assms sys_read_Got_ex [of es 1] by auto
  moreover have "s = [c]"
    using sys_read_Got [OF r] assms by (cases s) auto
  ultimately show thesis
    using that sys_read_Got [OF r] assms by auto
qed

lemma sys_read_size:
  "sys_read n es = (r, es') \<Longrightarrow> ev_size es' \<le> ev_size es"
  by (induction n es rule: sys_read.induct) (auto split: if_splits)

lemma sys_read_size_less:
  assumes "sys_read n es = (r, es')" and "0 < n" and "(\<exists>s. r = Got s) \<or> (\<exists>e. r = RdFail e)"
  shows "ev_size es' < ev_size es"
  using assms by (induction n es rule: sys_read.induct) (auto split: if_splits)

text \<open>A read never delivers more than one segment, and what is left of a segment is shorter.\<close>

lemma sys_read_Got_bound:
  "sys_read n es = (Got d, es') \<Longrightarrow> \<forall>s. Seg s \<in> set es \<longrightarrow> length s \<le> b \<Longrightarrow>
   length d \<le> b \<and> (\<forall>s'. Seg s' \<in> set es' \<longrightarrow> length s' \<le> b)"
proof (induction n es rule: sys_read.induct)
  case (5 n c cs es)
  then have "Suc (length cs) \<le> b" by (metis length_Cons list.set_intros(1))
  moreover from 5 have "\<forall>s. Seg s \<in> set es \<longrightarrow> length s \<le> b" by simp
  ultimately show ?case using 5(1) by (auto split: if_splits)
qed auto

lemma sys_read_Got_mem: "sys_read n es = (Got d, es') \<Longrightarrow> \<exists>s. Seg s \<in> set es"
  by (induction n es rule: sys_read.induct) auto

text \<open>A read of the whole front segment.\<close>

lemma sys_read_Seg: "s \<noteq> [] \<Longrightarrow> length s \<le> n \<Longrightarrow> sys_read n (Seg s # es) = (Got s, es)"
  by (cases s) auto

section \<open>Writing\<close>

text \<open>
  The kernel accepts the whole buffer (also when the script is used up), only its first \<open>k\<close>
  bytes, or fails.
\<close>

datatype wr_event = WrAll | WrShort nat | WrErr errno

datatype wr_result = Wrote nat | WrFail errno

text \<open>A connected descriptor: what it will deliver, what it will accept, what was sent.\<close>

record conn =
  rq :: "rd_event list"
  wq :: "wr_event list"
  sent :: string

definition conn_read :: "nat \<Rightarrow> conn \<Rightarrow> rd_result \<times> conn" where
  "conn_read n c = (case sys_read n (rq c) of (r, es) \<Rightarrow> (r, c\<lparr>rq := es\<rparr>))"

definition sys_write :: "string \<Rightarrow> conn \<Rightarrow> wr_result \<times> conn" where
  "sys_write d c = (case wq c of
       [] \<Rightarrow> (Wrote (length d), c\<lparr>sent := sent c @ d\<rparr>)
     | WrAll # q \<Rightarrow> (Wrote (length d), c\<lparr>wq := q, sent := sent c @ d\<rparr>)
     | WrShort k # q \<Rightarrow>
         (Wrote (min k (length d)), c\<lparr>wq := q, sent := sent c @ take k d\<rparr>)
     | WrErr e # q \<Rightarrow> (WrFail e, c\<lparr>wq := q\<rparr>))"

text \<open>A descriptor whose writes are never cut short.\<close>

definition all_writes :: "conn \<Rightarrow> bool" where
  "all_writes c \<longleftrightarrow> (\<forall>e \<in> set (wq c). e = WrAll)"

lemma sys_write_all:
  assumes "all_writes c"
  shows "\<exists>q. sys_write d c = (Wrote (length d), c\<lparr>wq := q, sent := sent c @ d\<rparr>)
    \<and> set q \<subseteq> set (wq c)"
proof (cases "wq c")
  case Nil
  then show ?thesis by (intro exI [of _ "wq c"]) (simp add: sys_write_def)
next
  case (Cons e q)
  with assms have "e = WrAll" by (simp add: all_writes_def)
  with Cons show ?thesis by (intro exI [of _ q]) (auto simp: sys_write_def)
qed

lemma sys_write_rq [simp]: "rq (snd (sys_write d c)) = rq c"
  by (auto simp: sys_write_def split: list.splits wr_event.splits)

lemma sys_write_keeps_rq: "sys_write d c = (r, c') \<Longrightarrow> rq c' = rq c"
  using sys_write_rq [of d c] by simp

text \<open>What was sent is never taken back, and a write adds a prefix of its data.\<close>

lemma sys_write_sent:
  "sys_write d c = (r, c') \<Longrightarrow> \<exists>k \<le> length d. sent c' = sent c @ take k d
    \<and> (\<forall>m. r = Wrote m \<longrightarrow> m = k) \<and> ((\<exists>e. r = WrFail e) \<longrightarrow> k = 0)"
  by (auto simp: sys_write_def min_def split: list.splits wr_event.splits)

section \<open>The standard streams\<close>

text \<open>
  \<open>inp\<close> holds the characters of the standard input up to end of file, \<open>out\<close> and \<open>err\<close>
  what was printed.
\<close>

record stdio =
  inp :: string
  out :: string
  err :: string

definition printf :: "string \<Rightarrow> 'a stdio_scheme \<Rightarrow> 'a stdio_scheme" where
  "printf t p = p\<lparr>out := out p @ t\<rparr>"

definition eprintf :: "string \<Rightarrow> 'a stdio_scheme \<Rightarrow> 'a stdio_scheme" where
  "eprintf t p = p\<lparr>err := err p @ t\<rparr>"

text \<open>
  \<^verbatim>\<open>fgets(buf, n, stdin)\<close>: the line it reads, newline included, at most \<open>n - 1\<close>
  characters; \<open>None\<close> at end of file.
\<close>

definition fgets_line :: "nat \<Rightarrow> string \<Rightarrow> string" where
  "fgets_line n s = (let l = take (n - 1) s; p = takeWhile (\<lambda>c. c \<noteq> CHR 0x0A) l
     in if p = l then l else p @ nl)"

definition fgets :: "nat \<Rightarrow> string \<Rightarrow> (string \<times> string) option" where
  "fgets n s = (if s = [] then None
     else Some (fgets_line n s, drop (length (fgets_line n s)) s))"

lemma fgets_line_take: "fgets_line n s = take (length (fgets_line n s)) s"
proof -
  let ?l = "take (n - 1) s"
  let ?p = "takeWhile (\<lambda>c. c \<noteq> CHR 0x0A) ?l"
  show ?thesis
  proof (cases "?p = ?l")
    case True
    then show ?thesis using take_length_take [of "n - 1" s] by (simp add: fgets_line_def Let_def)
  next
    case False
    then obtain c r where r: "dropWhile (\<lambda>c. c \<noteq> CHR 0x0A) ?l = c # r"
      by (metis dropWhile_eq_Nil_conv takeWhile_eq_all_conv neq_Nil_conv)
    then have "c = CHR 0x0A" using hd_dropWhile [of "\<lambda>c. c \<noteq> CHR 0x0A" ?l] by simp
    with r have l: "?l = (?p @ nl) @ r"
      by (metis append.assoc append_Cons append_Nil takeWhile_dropWhile_id)
    then have "take (length (?p @ nl)) s = ?p @ nl" by (rule take_of_prefix)
    then show ?thesis using False by (auto simp: fgets_line_def Let_def)
  qed
qed

lemma fgets_append: "fgets n s = Some (l, r) \<Longrightarrow> s = l @ r"
  using fgets_line_take [of n s] by (auto simp: fgets_def split: if_splits)
    (metis append_take_drop_id)

lemma length_fgets_line: "length (fgets_line n s) \<le> n - 1"
proof -
  let ?p = "takeWhile (\<lambda>c. c \<noteq> CHR 0x0A) (take (n - 1) s)"
  have "length ?p \<le> length (take (n - 1) s)" by (rule length_takeWhile_le)
  moreover have "?p \<noteq> take (n - 1) s \<Longrightarrow> length ?p \<noteq> length (take (n - 1) s)"
    by (metis takeWhile_eq_take take_all order_refl)
  ultimately show ?thesis by (auto simp: fgets_line_def Let_def)
qed

lemma fgets_line_ne_Nil: "s \<noteq> [] \<Longrightarrow> 1 < n \<Longrightarrow> fgets_line n s \<noteq> []"
  by (cases s) (auto simp: fgets_line_def Let_def)

lemma fgets_shorter:
  "fgets n s = Some (l, r) \<Longrightarrow> 1 < n \<Longrightarrow> length r < length s"
  using fgets_append [of n s l r] fgets_line_ne_Nil [of s n]
  by (auto simp: fgets_def split: if_splits)

text \<open>A line that fits is read whole.\<close>

lemma fgets_full_line:
  assumes "CHR 0x0A \<notin> set l" and "Suc (length l) < n"
  shows "fgets n (l @ nl @ r) = Some (l @ nl, r)"
proof -
  have t: "take (n - 1) (l @ nl @ r) = l @ CHR 0x0A # take (n - 2 - length l) r"
    using assms(2) by (auto simp: take_Cons' numeral_2_eq_2 diff_diff_left)
  have "takeWhile (\<lambda>c. c \<noteq> CHR 0x0A) (l @ CHR 0x0A # take (n - 2 - length l) r) = l"
    using assms(1) by (intro takeWhile_stop) auto
  then have "fgets_line n (l @ nl @ r) = l @ nl"
    by (simp only: fgets_line_def t Let_def) simp
  then show ?thesis by (simp add: fgets_def)
qed

end
