(* ===== verification/Netcalc_App.thy ===== *)
theory Netcalc_App
  imports Posix_IO
begin

text \<open>
  The application layer of the network calculator (\<^verbatim>\<open>SampleCode/netcalc\<close>): the message format
  of \<^verbatim>\<open>netcalc.h\<close>, \<^verbatim>\<open>doCalc\<close> of the server (\<^verbatim>\<open>netcalc_app_srv.c\<close>), \<^verbatim>\<open>buildReq\<close> and \<^verbatim>\<open>parseRes\<close> of
  the client (\<^verbatim>\<open>netcalc_app_clnt.c\<close>), an abstract protocol they are measured against, and the
  refinement of the one by the other.
\<close>

section \<open>netcalc.h\<close>

abbreviation OPCODE_QUESTION :: char where "OPCODE_QUESTION \<equiv> CHR ''Q''"
abbreviation OPCODE_ANSWER :: char where "OPCODE_ANSWER \<equiv> CHR ''A''"
abbreviation OPCODE_REJECT :: char where "OPCODE_REJECT \<equiv> CHR ''X''"
abbreviation MSG_TERMINATOR :: char where "MSG_TERMINATOR \<equiv> CHR ''=''"

definition BUF_SIZE :: nat where "BUF_SIZE = 2048"

text \<open>The length of the arrays \<^verbatim>\<open>ioBuf\<close>, \<^verbatim>\<open>msgBuf\<close>, \<^verbatim>\<open>reqBuf\<close> and \<^verbatim>\<open>resBuf\<close>.\<close>

definition ARRAY_SIZE :: nat where "ARRAY_SIZE = BUF_SIZE + 10"

definition SUCCESS :: int where "SUCCESS = 1"
definition NO_SUCCESS :: int where "NO_SUCCESS = 0"

lemmas size_defs = BUF_SIZE_def ARRAY_SIZE_def
lemmas rc_defs = SUCCESS_def NO_SUCCESS_def

lemma rc_distinct [simp]: "SUCCESS \<noteq> NO_SUCCESS" "NO_SUCCESS \<noteq> SUCCESS"
  by (simp_all add: rc_defs)

section \<open>The server: doCalc\<close>

text \<open>
  The formats \<^verbatim>\<open>"%d + %d"\<close> and \<^verbatim>\<open>"%d - %d"\<close>.
\<close>

definition add_format :: "conv list" where
  "add_format = [ConvD, Space, Lit (CHR ''+''), Space, ConvD]"

definition sub_format :: "conv list" where
  "sub_format = [ConvD, Space, Lit (CHR ''-''), Space, ConvD]"

text \<open>
  \<open>*aBufLen = sprintf(aBuf, ...)\<close> and \<^verbatim>\<open>return (SUCCESS)\<close>: the answer text is stored with its
  null character and its length reported.
\<close>

definition calc_answer ::
    "string \<Rightarrow> string \<Rightarrow> string \<Rightarrow> fault + (int \<times> string \<times> string \<times> nat)" where
  "calc_answer qBuf aBuf t =
     (case store_str aBuf t of
        Inl f \<Rightarrow> Inl f
      | Inr aBuf' \<Rightarrow> Inr (SUCCESS, qBuf, aBuf', length t))"

text \<open>
  \<open>doCalc qBuf qBufLen aBuf aBufLen\<close> gives the return code and the new contents of
  \<^verbatim>\<open>qBuf\<close>, \<^verbatim>\<open>aBuf\<close> and \<^verbatim>\<open>*aBufLen\<close>.  The callers pass a length that is not negative.  An
  access past the end of \<^verbatim>\<open>qBuf\<close> is the fault \<^verbatim>\<open>Overrun\<close>.
\<close>

definition doCalc ::
    "string \<Rightarrow> nat \<Rightarrow> string \<Rightarrow> nat \<Rightarrow> fault + (int \<times> string \<times> string \<times> nat)" where
  "doCalc qBuf qBufLen aBuf aBufLen =
     (if \<not> 1 < qBufLen then Inr (NO_SUCCESS, qBuf, aBuf, aBufLen)
      else if length qBuf < qBufLen then Inl Overrun
      else if qBuf ! 0 = OPCODE_QUESTION \<and> qBuf ! (qBufLen - 1) = MSG_TERMINATOR then
        (let q = qBuf[qBufLen - 1 := nul]; s = cstr (tl q) in
         case sscanf add_format s of
           Inl f \<Rightarrow> Inl f
         | Inr vs \<Rightarrow>
             if length vs = 2 then
               (case c_add (vs ! 0) (vs ! 1) of
                  Inl f \<Rightarrow> Inl f
                | Inr c \<Rightarrow> calc_answer q aBuf (OPCODE_ANSWER # show_int c @ [MSG_TERMINATOR]))
             else
               (case sscanf sub_format s of
                  Inl f \<Rightarrow> Inl f
                | Inr ws \<Rightarrow>
                    if length ws = 2 then
                      (case c_sub (ws ! 0) (ws ! 1) of
                         Inl f \<Rightarrow> Inl f
                       | Inr c \<Rightarrow> calc_answer q aBuf (OPCODE_ANSWER # show_int c @ [MSG_TERMINATOR]))
                    else calc_answer q aBuf [OPCODE_REJECT, MSG_TERMINATOR]))
      else Inr (NO_SUCCESS, qBuf, aBuf, aBufLen))"

section \<open>The client: buildReq and parseRes\<close>

definition buildReq ::
    "string \<Rightarrow> nat \<Rightarrow> string \<Rightarrow> nat \<Rightarrow> fault + (int \<times> string \<times> nat)" where
  "buildReq inBuf inBufLen outBuf outBufLen =
     (let n = int inBufLen - 1 in
      if 0 < n then
        (if length inBuf < nat n then Inl Overrun
         else case store outBuf 1 (take (nat n) inBuf) of
             Inl f \<Rightarrow> Inl f
           | Inr o1 \<Rightarrow>
               (case store (o1[0 := OPCODE_QUESTION]) (nat n + 1) [MSG_TERMINATOR] of
                  Inl f \<Rightarrow> Inl f
                | Inr o2 \<Rightarrow> Inr (SUCCESS, o2, nat n + 2)))
      else Inr (NO_SUCCESS, outBuf, outBufLen))"

text \<open>
  \<^verbatim>\<open>parseRes\<close> gives the return code and the new contents of \<^verbatim>\<open>inBuf\<close> and \<^verbatim>\<open>outBuf\<close>.
\<close>

definition parseRes :: "string \<Rightarrow> nat \<Rightarrow> string \<Rightarrow> fault + (int \<times> string \<times> string)" where
  "parseRes inBuf inBufLen outBuf =
     (if \<not> 2 \<le> inBufLen then Inr (NO_SUCCESS, inBuf, outBuf)
      else if length inBuf < inBufLen then Inl Overrun
      else if inBuf ! (inBufLen - 1) = MSG_TERMINATOR then
        (let opcode = inBuf ! 0 in
         if opcode = OPCODE_ANSWER then
           (let i = inBuf[inBufLen - 1 := nul] in
            case store_str outBuf (''Answer: '' @ cstr (tl i) @ nl) of
              Inl f \<Rightarrow> Inl f
            | Inr o1 \<Rightarrow> Inr (SUCCESS, i, o1))
         else if opcode = OPCODE_REJECT then
           (case store_str outBuf (''Question rejected'' @ nl) of
              Inl f \<Rightarrow> Inl f
            | Inr o1 \<Rightarrow> Inr (SUCCESS, inBuf, o1))
         else Inr (NO_SUCCESS, inBuf, outBuf))
      else Inr (NO_SUCCESS, inBuf, outBuf))"

section \<open>The protocol\<close>

text \<open>
  What a message means, without buffers: \<open>answer_to s\<close> is the value a question with the text
  \<open>s\<close> has, \<open>None\<close> for one that is rejected; \<open>reply m\<close> is what the server sends for the
  message \<open>m\<close>, \<open>None\<close> when it sends nothing.
\<close>

definition answer_to :: "string \<Rightarrow> fault + int option" where
  "answer_to s =
     (case sscanf add_format s of
        Inl f \<Rightarrow> Inl f
      | Inr vs \<Rightarrow>
          if length vs = 2 then map_sum id Some (c_add (vs ! 0) (vs ! 1))
          else (case sscanf sub_format s of
                  Inl f \<Rightarrow> Inl f
                | Inr ws \<Rightarrow>
                    if length ws = 2 then map_sum id Some (c_sub (ws ! 0) (ws ! 1))
                    else Inr None))"

definition answer_msg :: "int option \<Rightarrow> string" where
  "answer_msg a = (case a of
       Some c \<Rightarrow> OPCODE_ANSWER # show_int c @ [MSG_TERMINATOR]
     | None \<Rightarrow> [OPCODE_REJECT, MSG_TERMINATOR])"

definition well_formed :: "string \<Rightarrow> bool" where
  "well_formed m \<longleftrightarrow> 1 < length m \<and> hd m = OPCODE_QUESTION \<and> last m = MSG_TERMINATOR"

definition reply :: "string \<Rightarrow> fault + string option" where
  "reply m = (if well_formed m
     then map_sum id (\<lambda>a. Some (answer_msg a)) (answer_to (cstr (tl (butlast m))))
     else Inr None)"

text \<open>The question a user asks, as text with any white space and any rest that is no digit.\<close>

datatype question = Add int int | Sub int int

fun op_char :: "question \<Rightarrow> char" where
  "op_char (Add _ _) = CHR ''+''"
| "op_char (Sub _ _) = CHR ''-''"

fun operands :: "question \<Rightarrow> int \<times> int" where
  "operands (Add a b) = (a, b)"
| "operands (Sub a b) = (a, b)"

fun question_value :: "question \<Rightarrow> int" where
  "question_value (Add a b) = a + b"
| "question_value (Sub a b) = a - b"

definition question_text :: "string \<Rightarrow> string \<Rightarrow> string \<Rightarrow> string \<Rightarrow> question \<Rightarrow> string" where
  "question_text w1 w2 w3 g q =
     w1 @ show_int (fst (operands q)) @ w2 @ op_char q # w3 @ show_int (snd (operands q)) @ g"

definition blank :: "string \<Rightarrow> bool" where
  "blank w \<longleftrightarrow> (\<forall>c \<in> set w. isspace c)"

definition in_range :: "question \<Rightarrow> bool" where
  "in_range q \<longleftrightarrow> int_ok (fst (operands q)) \<and> int_ok (snd (operands q)) \<and> int_ok (question_value q)"

section \<open>doCalc implements the protocol\<close>

lemma answer_msg_simps [simp]:
  "answer_msg (Some c) = OPCODE_ANSWER # show_int c @ [MSG_TERMINATOR]"
  "answer_msg None = [OPCODE_REJECT, MSG_TERMINATOR]"
  by (simp_all add: answer_msg_def)

lemma cstr_terminated:
  assumes "n \<le> length b" and "1 < n"
  shows "cstr (tl (b[n - 1 := nul])) = cstr (tl (butlast (take n b)))"
proof -
  obtain k where n: "n = Suc (Suc k)" using assms(2) by (cases n; cases "n - 1") auto
  obtain c b' where b: "b = c # b'" using assms by (cases b) auto
  have k: "k < length b'" using assms n b by simp
  have "tl (b[n - 1 := nul]) = take k b' @ nul # drop (Suc k) b'"
    using k n b by (simp add: upd_conv_take_nth_drop)
  moreover have "tl (butlast (take n b)) = take k b'"
    using k n b by (simp add: butlast_take min_def take_Cons')
  moreover have "cstr (x @ nul # y) = cstr x" for x y
    unfolding cstr_def by (induction x) auto
  ultimately show ?thesis by simp
qed

lemma length_answer_msg:
  "(case a of Some c \<Rightarrow> int_ok c | None \<Rightarrow> True) \<Longrightarrow> length (answer_msg a) \<le> 13"
  using length_show_int by (cases a) auto

lemma c_add_ok: "c_add a b = Inr c \<Longrightarrow> c = a + b \<and> int_ok c"
  by (auto simp: c_add_def split: if_splits)

lemma c_sub_ok: "c_sub a b = Inr c \<Longrightarrow> c = a - b \<and> int_ok c"
  by (auto simp: c_sub_def split: if_splits)

lemma answer_to_ok: "answer_to s = Inr (Some c) \<Longrightarrow> int_ok c"
  by (auto simp: answer_to_def map_sum_def dest: c_add_ok c_sub_ok
      split: sum.splits if_splits)

lemma calc_answer_fits:
  "length t < length aBuf \<Longrightarrow>
   calc_answer q aBuf t = Inr (SUCCESS, q, t @ nul # drop (Suc (length t)) aBuf, length t)"
  by (simp add: calc_answer_def store_str_def store_def splice_def)


lemma well_formed_take:
  assumes "n \<le> length b"
  shows "well_formed (take n b) \<longleftrightarrow>
    1 < n \<and> b ! 0 = OPCODE_QUESTION \<and> b ! (n - 1) = MSG_TERMINATOR"
proof (cases "1 < n")
  case True
  with assms have ne: "take n b \<noteq> []" by auto
  then have "last (take n b) = b ! (n - 1)"
    using assms True by (simp add: last_conv_nth min_def)
  moreover have "hd (take n b) = b ! 0"
    using True assms ne by (simp add: hd_conv_nth)
  ultimately show ?thesis using True assms by (auto simp: well_formed_def)
qed (use assms in \<open>simp add: well_formed_def\<close>)

text \<open>The effect of \<^verbatim>\<open>doCalc\<close> on its buffers, from the reply of the protocol.\<close>

definition calc_effect ::
    "string \<Rightarrow> nat \<Rightarrow> string \<Rightarrow> nat \<Rightarrow> string option \<Rightarrow> int \<times> string \<times> string \<times> nat" where
  "calc_effect qBuf n aBuf l r = (case r of
       None \<Rightarrow> (NO_SUCCESS, qBuf, aBuf, l)
     | Some t \<Rightarrow> (SUCCESS, qBuf[n - 1 := nul], t @ nul # drop (Suc (length t)) aBuf, length t))"

lemma calc_effect_simps [simp]:
  "calc_effect qBuf n aBuf l None = (NO_SUCCESS, qBuf, aBuf, l)"
  "calc_effect qBuf n aBuf l (Some t)
     = (SUCCESS, qBuf[n - 1 := nul], t @ nul # drop (Suc (length t)) aBuf, length t)"
  by (simp_all add: calc_effect_def)

lemma doCalc_eq_reply:
  assumes n: "n \<le> length qBuf" and a: "13 < length aBuf"
  shows "doCalc qBuf n aBuf l = map_sum id (calc_effect qBuf n aBuf l) (reply (take n qBuf))"
proof (cases "well_formed (take n qBuf)")
  case False
  with n show ?thesis
    by (auto simp: doCalc_def reply_def well_formed_take)
next
  case True
  then have wf: "1 < n" "qBuf ! 0 = OPCODE_QUESTION" "qBuf ! (n - 1) = MSG_TERMINATOR"
    using n by (simp_all add: well_formed_take)
  let ?s = "cstr (tl (butlast (take n qBuf)))"
  have s: "cstr (tl (qBuf[n - 1 := nul])) = ?s"
    using n wf(1) by (rule cstr_terminated)
  have fits: "calc_answer q aBuf (answer_msg (Some c))
      = Inr (SUCCESS, q, answer_msg (Some c) @ nul # drop (Suc (length (answer_msg (Some c)))) aBuf,
             length (answer_msg (Some c)))" if "int_ok c" for q c
    using length_answer_msg [of "Some c"] that a by (intro calc_answer_fits) simp
  have rej: "calc_answer q aBuf (answer_msg None)
      = Inr (SUCCESS, q, answer_msg None @ nul # drop (Suc (length (answer_msg None))) aBuf,
             length (answer_msg None))" for q
    using a by (intro calc_answer_fits) simp
  show ?thesis
    using wf n True s rej fits
    by (auto simp: doCalc_def reply_def answer_to_def Let_def dest: c_add_ok c_sub_ok
        split: sum.splits)
qed

section \<open>The client functions on lines and messages\<close>

text \<open>
  A request is the line without its last character, between the question code and the
  terminator.
\<close>

definition request :: "string \<Rightarrow> string" where
  "request line = OPCODE_QUESTION # butlast line @ [MSG_TERMINATOR]"

lemma buildReq_eq:
  assumes "n \<le> length inBuf" and "Suc n \<le> length outBuf"
  shows "buildReq inBuf n outBuf l =
    (if 1 < n then Inr (SUCCESS, splice outBuf 0 (request (take n inBuf)), Suc n)
     else Inr (NO_SUCCESS, outBuf, l))"
proof (cases "1 < n")
  case True
  then obtain k where n: "n = Suc (Suc k)" by (cases n; cases "n - 1") auto
  obtain x y out' where o: "outBuf = x # y # out'"
    using assms(2) n by (cases outBuf; cases "tl outBuf") auto
  have "length (take (Suc k) inBuf) = Suc k" using assms(1) n by simp
  moreover have "butlast (take n inBuf) = take (Suc k) inBuf"
    using assms(1) n by (simp add: butlast_take)
  ultimately show ?thesis
    using assms n o
    by (simp add: buildReq_def Let_def store_def splice_def request_def nat_add_distrib)
qed (simp add: buildReq_def Let_def)

text \<open>What the user is shown for a response; \<open>None\<close> when it is not understood.\<close>

definition shown :: "string \<Rightarrow> string option" where
  "shown m =
     (if 2 \<le> length m \<and> last m = MSG_TERMINATOR then
        (if hd m = OPCODE_ANSWER then Some (''Answer: '' @ cstr (tl (butlast m)) @ nl)
         else if hd m = OPCODE_REJECT then Some (''Question rejected'' @ nl)
         else None)
      else None)"


definition res_effect :: "string \<Rightarrow> nat \<Rightarrow> string \<Rightarrow> string option \<Rightarrow> int \<times> string \<times> string" where
  "res_effect inBuf n outBuf r = (case r of
       None \<Rightarrow> (NO_SUCCESS, inBuf, outBuf)
     | Some t \<Rightarrow> (SUCCESS,
         (if inBuf ! 0 = OPCODE_ANSWER then inBuf[n - 1 := nul] else inBuf),
         t @ nul # drop (Suc (length t)) outBuf))"

lemma res_effect_simps [simp]:
  "res_effect inBuf n outBuf None = (NO_SUCCESS, inBuf, outBuf)"
  "res_effect inBuf n outBuf (Some t) = (SUCCESS,
     (if inBuf ! 0 = OPCODE_ANSWER then inBuf[n - 1 := nul] else inBuf),
     t @ nul # drop (Suc (length t)) outBuf)"
  by (simp_all add: res_effect_def)

lemma shown_take:
  assumes "n \<le> length b"
  shows "shown (take n b) =
    (if 2 \<le> n \<and> b ! (n - 1) = MSG_TERMINATOR then
       (if b ! 0 = OPCODE_ANSWER then Some (''Answer: '' @ cstr (tl (butlast (take n b))) @ nl)
        else if b ! 0 = OPCODE_REJECT then Some (''Question rejected'' @ nl)
        else None)
     else None)"
proof (cases "2 \<le> n")
  case True
  with assms have ne: "take n b \<noteq> []" by auto
  then have "last (take n b) = b ! (n - 1)" "hd (take n b) = b ! 0"
    using assms True by (simp_all add: last_conv_nth hd_conv_nth min_def)
  then show ?thesis using True assms by (simp add: shown_def)
qed (use assms in \<open>simp add: shown_def\<close>)

lemma length_shown: "shown m = Some t \<Longrightarrow> length t \<le> max (length m + 7) 18"
  using length_cstr_le [of "tl (butlast m)"]
  by (auto simp: shown_def split: if_splits)

lemma parseRes_eq:
  assumes n: "n \<le> length inBuf" and o: "n + 8 \<le> length outBuf" "19 \<le> length outBuf"
  shows "parseRes inBuf n outBuf = Inr (res_effect inBuf n outBuf (shown (take n inBuf)))"
proof (cases "2 \<le> n \<and> inBuf ! (n - 1) = MSG_TERMINATOR")
  case False
  with n show ?thesis by (auto simp: parseRes_def shown_take)
next
  case True
  let ?s = "cstr (tl (butlast (take n inBuf)))"
  have s: "cstr (tl (inBuf[n - 1 := nul])) = ?s"
    using n True by (intro cstr_terminated) auto
  have "length ?s \<le> n - 2"
    using length_cstr_le [of "tl (butlast (take n inBuf))"] n by simp
  then have "store_str outBuf (''Answer: '' @ ?s @ nl)
      = Inr ((''Answer: '' @ ?s @ nl) @ nul # drop (Suc (length (''Answer: '' @ ?s @ nl))) outBuf)"
    using o True by (intro store_str_Inr_iff [THEN iffD2]) auto
  moreover have "store_str outBuf (''Question rejected'' @ nl)
      = Inr ((''Question rejected'' @ nl) @ nul # drop (Suc (length (''Question rejected'' @ nl))) outBuf)"
    using o by (intro store_str_Inr_iff [THEN iffD2]) auto
  ultimately show ?thesis
    using True n s by (auto simp: parseRes_def Let_def shown_take)
qed

text \<open>A client array holds what the longest message of \<^verbatim>\<open>BUF_SIZE\<close> bytes can produce.\<close>

lemma parseRes_client:
  assumes "n \<le> BUF_SIZE" and "length inBuf = ARRAY_SIZE" and "length outBuf = ARRAY_SIZE"
  shows "parseRes inBuf n outBuf = Inr (res_effect inBuf n outBuf (shown (take n inBuf)))"
  using assms by (intro parseRes_eq) (simp_all add: size_defs)

section \<open>Questions and their values\<close>

lemma question_chars:
  "\<not> isspace (op_char q)" "\<not> isdigit (op_char q)"
  by (cases q; simp add: isspace_def isdigit_def)+

lemma no_digit_first_blank: "blank w \<Longrightarrow> \<not> isdigit c \<Longrightarrow> no_digit_first (w @ c # r)"
  by (cases w) (auto simp: no_digit_first_def blank_def isspace_def isdigit_def)

lemma skip_space_blank: "blank w \<Longrightarrow> \<not> isspace c \<Longrightarrow> skip_space (w @ c # r) = c # r"
  by (simp add: blank_def skip_space_append)

text \<open>One format applied to a question: all of it converts when the operator is the format's.\<close>

lemma sscanf_question:
  assumes "blank w1" "blank w2" "blank w3" "no_digit_first g" "in_range q"
  shows "sscanf [ConvD, Space, Lit c, Space, ConvD] (question_text w1 w2 w3 g q)
    = (if c = op_char q then Inr [fst (operands q), snd (operands q)]
       else Inr [fst (operands q)])"
proof -
  let ?b = "show_int (snd (operands q)) @ g"
  have "sscanf [ConvD, Space, Lit c, Space, ConvD] (question_text w1 w2 w3 g q)
      = (case sscanf [Space, Lit c, Space, ConvD] (w2 @ op_char q # w3 @ ?b) of
           Inl e \<Rightarrow> Inl e | Inr vs \<Rightarrow> Inr (fst (operands q) # vs))"
    unfolding question_text_def using assms
    by (intro sscanf_ConvD_show_int no_digit_first_blank question_chars)
      (auto simp: blank_def in_range_def)
  also have "sscanf [Space, Lit c, Space, ConvD] (w2 @ op_char q # w3 @ ?b)
      = (if c = op_char q then sscanf [ConvD] (w3 @ ?b) else Inr [])"
    using assms by (simp add: skip_space_blank question_chars) (simp add: skip_space_append blank_def)
  also have "sscanf [ConvD] (w3 @ ?b) = Inr [snd (operands q)]"
    using assms sscanf_ConvD_show_int [of g "snd (operands q)" w3 "[]"]
    by (simp add: blank_def in_range_def)
  finally show ?thesis by auto
qed

lemma answer_to_question:
  assumes "blank w1" "blank w2" "blank w3" "no_digit_first g" "in_range q"
  shows "answer_to (question_text w1 w2 w3 g q) = Inr (Some (question_value q))"
  using sscanf_question [OF assms] assms(5)
  by (cases q) (auto simp: answer_to_def add_format_def sub_format_def in_range_def c_add_def c_sub_def)

lemma question_text_no_nul:
  "nul \<notin> set g \<Longrightarrow> blank w1 \<Longrightarrow> blank w2 \<Longrightarrow> blank w3 \<Longrightarrow>
   nul \<notin> set (question_text w1 w2 w3 g q)"
  by (cases q) (auto simp: question_text_def blank_def isspace_def)

lemma reply_question:
  assumes "blank w1" "blank w2" "blank w3" "no_digit_first g" "in_range q" "nul \<notin> set g"
  shows "reply (OPCODE_QUESTION # question_text w1 w2 w3 g q @ [MSG_TERMINATOR])
    = Inr (Some (answer_msg (Some (question_value q))))"
  using assms
  by (simp add: reply_def well_formed_def butlast_append cstr_id question_text_no_nul answer_to_question
      del: answer_msg_simps)

lemma shown_answer: "shown (answer_msg (Some c)) = Some (''Answer: '' @ show_int c @ nl)"
  by (simp add: shown_def butlast_append cstr_id)

lemma shown_reject: "shown (answer_msg None) = Some (''Question rejected'' @ nl)"
  by (simp add: shown_def)

section \<open>Properties\<close>

text \<open>C1: \<^verbatim>\<open>doCalc\<close> implements the protocol: for every array and every message in it, its return
  code, the answer array with its null character, the answer length and the change it makes to the
  question array are those of the protocol's reply, and it has undefined behaviour exactly when the
  arithmetic of the question overflows or an operand is out of range.\<close>

theorem doCalc_implements_protocol:
  assumes "n \<le> length qBuf" and "13 < length aBuf"
  shows "doCalc qBuf n aBuf l = map_sum id (calc_effect qBuf n aBuf l) (reply (take n qBuf))"
  using assms by (rule doCalc_eq_reply)

theorem doCalc_implements_protocol_witness:
  "doCalc ''Q1+2=xx'' 5 (replicate 20 nul) 0
     = map_sum id (calc_effect ''Q1+2=xx'' 5 (replicate 20 nul) 0) (reply ''Q1+2='')"
  using doCalc_implements_protocol [of 5 "''Q1+2=xx''" "replicate 20 nul" 0] by simp

text \<open>A question is answered with its value: whatever white space stands around the operands
  and whatever follows the second operand, \<^verbatim>\<open>doCalc\<close> on a message that asks for a sum or a
  difference in range succeeds and leaves the text of the exact result in the answer array.\<close>

theorem doCalc_answers_question:
  assumes "blank w1" "blank w2" "blank w3" "no_digit_first g" "nul \<notin> set g" "in_range q"
    and "take n qBuf = OPCODE_QUESTION # question_text w1 w2 w3 g q @ [MSG_TERMINATOR]"
    and "n \<le> length qBuf" and "13 < length aBuf"
  shows "\<exists>q' a'. doCalc qBuf n aBuf l
       = Inr (SUCCESS, q', a', length (show_int (question_value q)) + 2)
     \<and> cstr a' = OPCODE_ANSWER # show_int (question_value q) @ [MSG_TERMINATOR]"
proof -
  have "reply (take n qBuf) = Inr (Some (answer_msg (Some (question_value q))))"
    unfolding assms(7) using assms(1-6) by (intro reply_question)
  then show ?thesis
    using doCalc_eq_reply [OF assms(8,9), of l]
      cstr_append_nul [of "answer_msg (Some (question_value q))"]
    by simp
qed

theorem doCalc_answers_question_witness:
  "\<exists>q' a'. doCalc (OPCODE_QUESTION # question_text [] ''  '' '' '' '' apples'' (Sub 7 9) @ [MSG_TERMINATOR])
       (length (OPCODE_QUESTION # question_text [] ''  '' '' '' '' apples'' (Sub 7 9) @ [MSG_TERMINATOR]))
       (replicate 20 nul) 0
     = Inr (SUCCESS, q', a', length (show_int (- 2)) + 2)
   \<and> cstr a' = OPCODE_ANSWER # show_int (- 2) @ [MSG_TERMINATOR]"
  using doCalc_answers_question [of "[]" "''  ''" "'' ''" "'' apples''" "Sub 7 9"
      "length (OPCODE_QUESTION # question_text [] ''  '' '' '' '' apples'' (Sub 7 9) @ [MSG_TERMINATOR])"
      "OPCODE_QUESTION # question_text [] ''  '' '' '' '' apples'' (Sub 7 9) @ [MSG_TERMINATOR]"
      "replicate 20 nul" 0]
  by (simp add: blank_def no_digit_first_def isdigit_def isspace_def in_range_def int_ok_def
      INT_MIN_def INT_MAX_def)

text \<open>\<^verbatim>\<open>buildReq\<close> turns a line of the input into a request for everything but its last
  character, whether that character is a newline or not: a last line without a newline loses its
  last digit.\<close>

theorem buildReq_drops_last_character:
  assumes "2 \<le> length line" and "length line \<le> length inBuf" "length line < length outBuf"
    and "take (length line) inBuf = line"
  shows "\<exists>out. buildReq inBuf (length line) outBuf l = Inr (SUCCESS, out, Suc (length line))
     \<and> take (Suc (length line)) out = OPCODE_QUESTION # butlast line @ [MSG_TERMINATOR]"
proof -
  have "length (request line) = Suc (length line)" using assms(1) by (cases line) (auto simp: request_def)
  then show ?thesis
    using buildReq_eq [of "length line" inBuf outBuf l] assms take_splice_0 [of "request line" outBuf]
    by (simp add: request_def)
qed

theorem buildReq_drops_last_character_witness:
  "\<exists>out. buildReq ''1+23'' (length ''1+23'') (replicate 9 nul) 0 = Inr (SUCCESS, out, Suc (length ''1+23''))
     \<and> take (Suc (length ''1+23'')) out = OPCODE_QUESTION # butlast ''1+23'' @ [MSG_TERMINATOR]"
  by (rule buildReq_drops_last_character) simp_all

text \<open>C38: \<^verbatim>\<open>parseRes\<close> never writes past the client's arrays for a message of at most
  \<^verbatim>\<open>BUF_SIZE\<close> bytes, and it shows exactly what the protocol says: the answer, the rejection, or
  nothing.\<close>

theorem parseRes_safe_and_correct:
  assumes "n \<le> BUF_SIZE" and "length inBuf = ARRAY_SIZE" and "length outBuf = ARRAY_SIZE"
  shows "parseRes inBuf n outBuf = Inr (res_effect inBuf n outBuf (shown (take n inBuf)))"
  using assms by (rule parseRes_client)

theorem parseRes_safe_and_correct_witness:
  "\<exists>o1. parseRes (''A5='' @ replicate (ARRAY_SIZE - 3) nul) 3 (replicate ARRAY_SIZE nul)
      = Inr (SUCCESS, ''A5'' @ replicate (ARRAY_SIZE - 2) nul, o1)
    \<and> cstr o1 = ''Answer: 5'' @ nl"
proof -
  let ?i = "''A5='' @ replicate (ARRAY_SIZE - 3) nul"
  have s: "shown ''A5='' = Some (''Answer: 5'' @ nl)"
    by (simp add: shown_def cstr_def)
  have "replicate (ARRAY_SIZE - 2) nul = nul # replicate (ARRAY_SIZE - 3) nul"
    by (simp add: size_defs flip: replicate_Suc)
  moreover have "nul \<notin> set (''Answer: 5'' @ nl)" by simp
  ultimately show ?thesis
    using parseRes_safe_and_correct [of 3 ?i "replicate ARRAY_SIZE nul"] cstr_append_nul [of "''Answer: 5'' @ nl"]
    by (simp add: s size_defs)
qed

end
