(* ===== verification/Unp_Error.thy ===== *)
theory Unp_Error
  imports Posix_IO
begin

text \<open>
  The error functions of the library the programs are linked with
  (\<^verbatim>\<open>SampleCode/unpv13e/lib/error.c\<close>): every fatal path of a program goes through
  \<^verbatim>\<open>err_quit\<close> or \<^verbatim>\<open>err_sys\<close>, which write one line and end the process with status 1.
\<close>

definition MAXLINE :: nat where "MAXLINE = 4096"

text \<open>
  The text \<^verbatim>\<open>strerror\<close> gives; the C library fixes no text, these are those of glibc.
\<close>

fun strerror :: "errno \<Rightarrow> string" where
  "strerror EINTR = ''Interrupted system call''"
| "strerror EAGAIN = ''Resource temporarily unavailable''"
| "strerror ECONNRESET = ''Connection reset by peer''"
| "strerror ECONNABORTED = ''Software caused connection abort''"
| "strerror EPROTO = ''Protocol error''"
| "strerror EPIPE = ''Broken pipe''"
| "strerror EBADF = ''Bad file descriptor''"
| "strerror EIO = ''Input/output error''"
| "strerror ENOENT = ''No such file or directory''"
| "strerror EACCES = ''Permission denied''"
| "strerror EFAULT = ''Bad address''"
| "strerror EINVAL = ''Invalid argument''"
| "strerror EINPROGRESS = ''Operation now in progress''"
| "strerror ETIMEDOUT = ''Connection timed out''"
| "strerror ECONNREFUSED = ''Connection refused''"
| "strerror EAFNOSUPPORT = ''Address family not supported by protocol''"
| "strerror ENOSPC = ''No space left on device''"
| "strerror ENOMEM = ''Cannot allocate memory''"

text \<open>
  The process state of a program of the library: the standard streams, the system log, the
  global \<^verbatim>\<open>daemon_proc\<close> and \<^verbatim>\<open>errno\<close>.
\<close>

record proc = stdio +
  daemon_proc :: bool
  slog :: string
  errnum :: errno

text \<open>
  \<^verbatim>\<open>err_doit\<close> builds the line in \<^verbatim>\<open>buf[MAXLINE + 1]\<close>: \<^verbatim>\<open>vsnprintf\<close> keeps \<^verbatim>\<open>MAXLINE - 1\<close>
  characters of the message, \<^verbatim>\<open>snprintf\<close> appends what still fits of the error text, and
  \<^verbatim>\<open>strcat\<close> adds the newline.  \<open>fmt\<close> is the message after formatting.  To the system log the line is
  appended as it is: that \<^verbatim>\<open>syslog\<close> takes it for a format, so that a percent sign in it is a
  directive without an argument, is outside the model.
\<close>

definition err_buf :: "bool \<Rightarrow> errno \<Rightarrow> string \<Rightarrow> string" where
  "err_buf errnoflag errno_save fmt =
     (let buf = take (MAXLINE - 1) fmt; n = length buf;
          buf2 = (if errnoflag
                  then buf @ take (MAXLINE - n - 1) ('': '' @ strerror errno_save) else buf)
      in buf2 @ nl)"

definition err_doit :: "bool \<Rightarrow> string \<Rightarrow> 'a proc_scheme \<Rightarrow> 'a proc_scheme" where
  "err_doit errnoflag fmt p =
     (let buf = err_buf errnoflag (errnum p) fmt in
      if daemon_proc p then p\<lparr>slog := slog p @ buf\<rparr> else p\<lparr>err := err p @ buf\<rparr>)"

definition err_ret :: "string \<Rightarrow> 'a proc_scheme \<Rightarrow> stop \<times> 'a proc_scheme" where
  "err_ret fmt p = (Returns, err_doit True fmt p)"

definition err_sys :: "string \<Rightarrow> 'a proc_scheme \<Rightarrow> stop \<times> 'a proc_scheme" where
  "err_sys fmt p = (Exits 1, err_doit True fmt p)"

text \<open>\<^verbatim>\<open>abort\<close> ends the process by a signal, which a shell reports as status 134.\<close>

definition err_dump :: "string \<Rightarrow> 'a proc_scheme \<Rightarrow> stop \<times> 'a proc_scheme" where
  "err_dump fmt p = (Exits 134, err_doit True fmt p)"

definition err_msg :: "string \<Rightarrow> 'a proc_scheme \<Rightarrow> stop \<times> 'a proc_scheme" where
  "err_msg fmt p = (Returns, err_doit False fmt p)"

definition err_quit :: "string \<Rightarrow> 'a proc_scheme \<Rightarrow> stop \<times> 'a proc_scheme" where
  "err_quit fmt p = (Exits 1, err_doit False fmt p)"

lemmas err_defs = err_ret_def err_sys_def err_dump_def err_msg_def err_quit_def

text \<open>The line and its null character fit \<^verbatim>\<open>buf[MAXLINE + 1]\<close>, whatever the message.\<close>

lemma length_err_buf: "length (err_buf flag e fmt) < MAXLINE + 1"
  by (auto simp: err_buf_def Let_def MAXLINE_def)

lemma err_doit_frame [simp]:
  "out (err_doit flag m p) = out p" "inp (err_doit flag m p) = inp p"
  "daemon_proc (err_doit flag m p) = daemon_proc p" "errnum (err_doit flag m p) = errnum p"
  by (simp_all add: err_doit_def Let_def)

lemma err_quit_line:
  "\<not> daemon_proc p \<Longrightarrow> length m < MAXLINE \<Longrightarrow>
   err_quit m p = (Exits 1, p\<lparr>err := err p @ m @ nl\<rparr>)"
  by (simp add: err_quit_def err_doit_def err_buf_def Let_def MAXLINE_def)

lemma err_sys_exits: "fst (err_sys m p) = Exits 1" "fst (err_quit m p) = Exits 1"
  by (simp_all add: err_sys_def err_quit_def)

section \<open>Properties\<close>

text \<open>The line that an error function builds always fits its array of \<^verbatim>\<open>MAXLINE + 1\<close> characters
  with the null character, ends with the only newline the function adds, and keeps the message up to
  \<^verbatim>\<open>MAXLINE - 1\<close> characters, whatever the message and the error are.\<close>

theorem err_doit_line_fits:
  "length (err_buf flag e fmt) < MAXLINE + 1 \<and> last (err_buf flag e fmt) = CHR 0x0A
   \<and> take (min (length fmt) (MAXLINE - 1)) (err_buf flag e fmt) = take (MAXLINE - 1) fmt"
  using length_err_buf by (simp add: err_buf_def Let_def min_def)

end
