(* ===== verification/Posix_Net.thy ===== *)
theory Posix_Net
  imports C_Base "HOL-Library.Word"
begin

text \<open>
  Internet addresses as the programs pass them around.  Nothing here models code of the
  repository.
\<close>

text \<open>
  A \<^verbatim>\<open>struct sockaddr_in\<close>: the four bytes of the address in network order and the port, in
  host order.  \<^verbatim>\<open>inet_ntoa\<close> prints the four bytes with dots.
\<close>

record sockaddr_in =
  sin_addr :: "8 word \<times> 8 word \<times> 8 word \<times> 8 word"
  sin_port :: "16 word"

definition inet_ntoa :: "8 word \<times> 8 word \<times> 8 word \<times> 8 word \<Rightarrow> string" where
  "inet_ntoa a = (case a of (b1, b2, b3, b4) \<Rightarrow>
     show_nat (unat b1) @ ''.'' @ show_nat (unat b2) @ ''.'' @ show_nat (unat b3) @ ''.''
     @ show_nat (unat b4))"

end
