(* ===== verification/Netcalc_Util.thy ===== *)
theory Netcalc_Util
  imports Netcalc_App Unp_Error Posix_Net
begin

text \<open>
  The utility functions of \<^verbatim>\<open>SampleCode/netcalc/netcalc_util_soc.c\<close>: the dump of a buffer and of
  addresses, and \<^verbatim>\<open>readAppMsg\<close>, which takes one message out of a stream.
\<close>

section \<open>Dumping a buffer\<close>

definition COL_IN_LINE :: nat where "COL_IN_LINE = 8"

text \<open>
  One byte as \<^verbatim>\<open>%02x(%c) \<close>, and the loop over the bytes that are left, at column \<open>col\<close>.
\<close>

definition dump_byte :: "char \<Rightarrow> string" where
  "dump_byte c = show_hex2 c @ ''('' @ (if isprint c then [c] else '' '') @ '') ''"

fun dump_loop :: "string \<Rightarrow> nat \<Rightarrow> string" where
  "dump_loop [] col = (if col \<noteq> 0 then nl else [])"
| "dump_loop (c # cs) col =
     (if col = 0 then ''**dumpBuf: data : '' else []) @ dump_byte c
     @ (if Suc col = COL_IN_LINE then nl @ dump_loop cs 0 else dump_loop cs (Suc col))"

definition dumpBuf :: "string \<Rightarrow> nat \<Rightarrow> fault + string" where
  "dumpBuf buf bufLen =
     (if length buf < bufLen then Inl Overrun
      else Inr (''**dumpBuf: len  : '' @ show_nat bufLen @ nl @ dump_loop (take bufLen buf) 0))"

text \<open>\<^verbatim>\<open>debugOn\<close> and \<^verbatim>\<open>debugOff\<close> set the global \<^verbatim>\<open>debugFlag\<close>, which is initially 1.\<close>

definition debugFlag_init :: int where "debugFlag_init = 1"
definition debugOn :: "int \<Rightarrow> int" where "debugOn flag = 1"
definition debugOff :: "int \<Rightarrow> int" where "debugOff flag = 0"

text \<open>The process state of a client or a server, with the global \<^verbatim>\<open>debugFlag\<close>.\<close>

record netcalc = proc +
  debugFlag :: int

text \<open>The macro \<^verbatim>\<open>DUMP_BUF\<close>.\<close>

definition DUMP_BUF :: "int \<Rightarrow> string \<Rightarrow> nat \<Rightarrow> fault + string" where
  "DUMP_BUF flag buf len = (if flag \<noteq> 0 then dumpBuf buf len else Inr [])"

section \<open>Dumping addresses\<close>

definition dumpAddr :: "string \<Rightarrow> string \<Rightarrow> sockaddr_in \<Rightarrow> string" where
  "dumpAddr header hostName addr =
     ''**dumpAddr: '' @ header @ '' = '' @ hostName @ '', '' @ inet_ntoa (sin_addr addr) @ '', ''
     @ show_nat (unat (sin_port addr)) @ nl"

text \<open>The name service \<^verbatim>\<open>gethostbyaddr\<close> is the parameter \<open>host_of\<close>.\<close>

definition dumpHostAndAddr ::
    "(8 word \<times> 8 word \<times> 8 word \<times> 8 word \<Rightarrow> string option) \<Rightarrow> string \<Rightarrow> sockaddr_in \<Rightarrow> string" where
  "dumpHostAndAddr host_of header addrPtr =
     (case host_of (sin_addr addrPtr) of
        None \<Rightarrow> dumpAddr header ''---'' addrPtr
      | Some h_name \<Rightarrow> dumpAddr header h_name addrPtr)"

text \<open>
  \<^verbatim>\<open>getsockname\<close>, \<^verbatim>\<open>gethostname\<close> and \<^verbatim>\<open>getpeername\<close> give a result or fail (\<open>None\<close>).
\<close>

definition dumpLocalSockAddr ::
    "sockaddr_in option \<Rightarrow> string option \<Rightarrow> 'a proc_scheme \<Rightarrow> stop \<times> 'a proc_scheme" where
  "dumpLocalSockAddr sockname hostname p =
     (case sockname of
        None \<Rightarrow> err_quit ''getsockname failed'' p
      | Some myAddr \<Rightarrow>
          (case hostname of
             None \<Rightarrow> err_quit ''gethostname failed'' p
           | Some hostName \<Rightarrow> (Returns, printf (dumpAddr ''Local'' hostName myAddr) p)))"

definition dumpPeerSockAddr ::
    "sockaddr_in option \<Rightarrow> (8 word \<times> 8 word \<times> 8 word \<times> 8 word \<Rightarrow> string option)
     \<Rightarrow> 'a proc_scheme \<Rightarrow> stop \<times> 'a proc_scheme" where
  "dumpPeerSockAddr peername host_of p =
     (case peername of
        None \<Rightarrow> err_quit ''getpeername failed'' p
      | Some peerAddr \<Rightarrow> (Returns, printf (dumpHostAndAddr host_of ''Peer'' peerAddr) p))"

section \<open>readAppMsg\<close>

text \<open>
  The result of a call: the number it returns, or a read that waits for ever, or a fault.
\<close>

datatype app_read = Len int | Waits | Faults fault

text \<open>
  The loop at the counter \<open>n\<close>, whose next character goes to \<^verbatim>\<open>bufPtr[n - 1]\<close>.
\<close>

function readAppMsg_loop ::
    "nat \<Rightarrow> nat \<Rightarrow> string \<Rightarrow> rd_event list \<Rightarrow> app_read \<times> string \<times> rd_event list" where
  "readAppMsg_loop bufLen n buf es =
     (if n < bufLen then
        (case sys_read 1 es of
           (Got s, es') \<Rightarrow>
             (case store buf (n - 1) s of
                Inl f \<Rightarrow> (Faults f, buf, es')
              | Inr buf' \<Rightarrow>
                  if hd s = MSG_TERMINATOR then (Len (int n), buf', es')
                  else readAppMsg_loop bufLen (Suc n) buf' es')
         | (Eof, es') \<Rightarrow> if n = 1 then (Len 0, buf, es') else (Len (int n), buf, es')
         | (RdFail _, es') \<Rightarrow> (Len (- 1), buf, es')
         | (RdWait, es') \<Rightarrow> (Waits, buf, es'))
      else (Len (int n), buf, es))"
  by pat_completeness auto
termination
  by (relation "measure (\<lambda>(bufLen, n, buf, es). bufLen - n)") auto

declare readAppMsg_loop.simps [simp del]

definition readAppMsg ::
    "nat \<Rightarrow> string \<Rightarrow> rd_event list \<Rightarrow> app_read \<times> string \<times> rd_event list" where
  "readAppMsg bufLen buf es = readAppMsg_loop bufLen 1 buf es"

text \<open>
  What the loop takes out of a stream of bytes: at most \<open>k\<close> bytes, up to and including the
  first terminator; whether it found one; and the bytes it leaves.
\<close>

fun scan_msg :: "nat \<Rightarrow> string \<Rightarrow> string \<times> bool \<times> string" where
  "scan_msg 0 p = ([], False, p)"
| "scan_msg (Suc k) [] = ([], False, [])"
| "scan_msg (Suc k) (c # p) =
     (if c = MSG_TERMINATOR then ([c], True, p)
      else (case scan_msg k p of (m, f, r) \<Rightarrow> (c # m, f, r)))"

lemma scan_msg_append: "scan_msg k p = (m, f, r) \<Longrightarrow> p = m @ r"
  by (induction k p arbitrary: m f r rule: scan_msg.induct) (auto split: prod.splits if_splits)

lemma scan_msg_length: "scan_msg k p = (m, f, r) \<Longrightarrow> length m \<le> k"
  by (induction k p arbitrary: m f r rule: scan_msg.induct) (auto split: prod.splits if_splits)

lemma scan_msg_found: "scan_msg k p = (m, True, r) \<Longrightarrow> m \<noteq> [] \<and> last m = MSG_TERMINATOR"
  by (induction k p arbitrary: m r rule: scan_msg.induct) (auto split: prod.splits if_splits)

lemma scan_msg_not_found:
  "scan_msg k p = (m, False, r) \<Longrightarrow> m = take k p \<and> MSG_TERMINATOR \<notin> set m"
  by (induction k p arbitrary: m r rule: scan_msg.induct) (auto split: prod.splits if_splits)

lemma scan_msg_first:
  "MSG_TERMINATOR \<notin> set b \<Longrightarrow> length b < k \<Longrightarrow>
   scan_msg k (b @ MSG_TERMINATOR # r) = (b @ [MSG_TERMINATOR], True, r)"
proof (induction b arbitrary: k)
  case Nil
  then show ?case by (cases k) auto
next
  case (Cons c b)
  then show ?case by (cases k) auto
qed

text \<open>
  How the loop ends when the bytes run out at the counter \<open>n\<close>.
\<close>

definition read_end :: "nat \<Rightarrow> rd_event list \<Rightarrow> app_read" where
  "read_end n es = (case after es of
       [] \<Rightarrow> Waits
     | Fin # _ \<Rightarrow> Len (if n = 1 then 0 else int n)
     | _ \<Rightarrow> Len (- 1))"

lemma sys_read_ended:
  assumes "payload es = []"
  shows "sys_read n es = (case after es of
      [] \<Rightarrow> (RdWait, [])
    | Fin # es2 \<Rightarrow> (Eof, Fin # es2)
    | RdErr e # es2 \<Rightarrow> (RdFail e, es2))"
  using assms by (induction n es rule: sys_read.induct) auto

text \<open>One turn of the loop: on a byte, and when there is none.\<close>

lemma readAppMsg_loop_byte:
  assumes "n < bufLen" "bufLen \<le> Suc (length buf)" "1 \<le> n"
    and "sys_read 1 es = (Got [c], es')"
  shows "readAppMsg_loop bufLen n buf es =
    (if c = MSG_TERMINATOR then (Len (int n), splice buf (n - 1) [c], es')
     else readAppMsg_loop bufLen (Suc n) (splice buf (n - 1) [c]) es')"
  using assms by (subst readAppMsg_loop.simps) (simp add: store_def)

lemma readAppMsg_loop_end:
  assumes "n < bufLen" and "payload es = []" and "1 \<le> n"
  shows "readAppMsg_loop bufLen n buf es =
    (read_end n es, buf, (case after es of RdErr e # es2 \<Rightarrow> es2 | es2 \<Rightarrow> es2))"
  using assms
  by (subst readAppMsg_loop.simps)
    (auto simp: sys_read_ended read_end_def split: list.split rd_event.split)

lemma readAppMsg_loop_full: "n \<ge> bufLen \<Longrightarrow> readAppMsg_loop bufLen n buf es = (Len (int n), buf, es)"
  by (subst readAppMsg_loop.simps) simp

definition loop_result ::
    "nat \<Rightarrow> nat \<Rightarrow> string \<Rightarrow> string \<times> bool \<times> string \<Rightarrow> rd_event list
     \<Rightarrow> app_read \<times> string \<times> rd_event list \<Rightarrow> bool" where
  "loop_result bufLen n buf sc es res \<longleftrightarrow>
     (case (sc, res) of ((m, f, r), (len, buf', es')) \<Rightarrow>
        len = (if f then Len (int (n + length m - 1))
               else if n + length m = bufLen then Len (int bufLen)
               else read_end (n + length m) es)
      \<and> buf' = splice buf (n - 1) m
      \<and> (if f \<or> n + length m = bufLen then payload es' = r \<and> after es' = after es
         else es' = (case after es of RdErr e # es2 \<Rightarrow> es2 | es2 \<Rightarrow> es2) \<and> r = []))"


lemma readAppMsg_loop_result:
  assumes "1 \<le> n" "n \<le> bufLen" "bufLen \<le> Suc (length buf)"
  shows "loop_result bufLen n buf (scan_msg (bufLen - n) (payload es)) es
    (readAppMsg_loop bufLen n buf es)"
  using assms
proof (induction "bufLen - n" arbitrary: n buf es)
  case 0
  then show ?case by (simp add: readAppMsg_loop_full loop_result_def)
next
  case (Suc k)
  then have n: "n < bufLen" and k: "bufLen - Suc n = k" by auto
  show ?case
  proof (cases "payload es")
    case Nil
    with n Suc.prems Suc.hyps(2) show ?thesis
      by (cases "bufLen - n") (auto simp: readAppMsg_loop_end loop_result_def)
  next
    case (Cons c p)
    then obtain es1 where r: "sys_read 1 es = (Got [c], es1)" and p: "payload es1 = p"
      and a: "after es1 = after es" by (rule sys_read_one)
    note step = readAppMsg_loop_byte [OF n Suc.prems(3,1) r]
    show ?thesis
    proof (cases "c = MSG_TERMINATOR")
      case True
      with Cons p a Suc.hyps(2) show ?thesis
        by (cases "bufLen - n") (auto simp: step loop_result_def)
    next
      case False
      let ?buf = "splice buf (n - 1) [c]"
      have len: "length ?buf = length buf" using n Suc.prems by simp
      have "loop_result bufLen (Suc n) ?buf (scan_msg k p) es1
          (readAppMsg_loop bufLen (Suc n) ?buf es1)"
        using Suc.hyps(1) [of "Suc n" ?buf es1] k p n Suc.prems(3) len by simp
      moreover obtain m f r' where sc: "scan_msg k p = (m, f, r')" by (cases "scan_msg k p") auto
      moreover have "splice ?buf n m = splice buf (n - 1) (c # m)"
        using splice_append [of "n - 1" "[c]" m buf] scan_msg_length [OF sc] n k Suc.prems(1,3)
        by simp
      ultimately show ?thesis
        using step False Cons Suc.hyps(2) a n Suc.prems(1)
        by (cases "bufLen - n") (auto simp: loop_result_def read_end_def split: prod.splits if_splits)
    qed
  qed
qed


section \<open>What a call of readAppMsg does\<close>

text \<open>A complete message that leaves room in the buffer is taken out of the stream exactly.\<close>

lemma readAppMsg_message:
  assumes "payload es = b @ MSG_TERMINATOR # r" and "MSG_TERMINATOR \<notin> set b"
    and "Suc (length b) < bufLen" and "bufLen \<le> Suc (length buf)"
  obtains es' where
    "readAppMsg bufLen buf es
       = (Len (int (Suc (length b))), splice buf 0 (b @ [MSG_TERMINATOR]), es')"
    "payload es' = r" "after es' = after es"
proof -
  have "scan_msg (bufLen - 1) (payload es) = (b @ [MSG_TERMINATOR], True, r)"
    unfolding assms(1) using assms(2,3) by (intro scan_msg_first) auto
  then show thesis
    using readAppMsg_loop_result [of 1 bufLen buf es] assms that
    by (cases "readAppMsg_loop bufLen 1 buf es") (auto simp: loop_result_def readAppMsg_def)
qed

text \<open>
  The stream ends inside a message: the number returned is one more than the number of bytes
  read, so the byte of the buffer after them counts as part of the message.
\<close>

lemma scan_msg_all:
  "MSG_TERMINATOR \<notin> set p \<Longrightarrow> length p \<le> k \<Longrightarrow> scan_msg k p = (p, False, [])"
proof (induction p arbitrary: k)
  case Nil
  then show ?case by (cases k) auto
next
  case (Cons c p)
  then show ?case by (cases k) auto
qed

lemma readAppMsg_truncated:
  assumes "MSG_TERMINATOR \<notin> set (payload es)" and "payload es \<noteq> []"
    and "after es = Fin # es2"
    and "Suc (length (payload es)) < bufLen" and "bufLen \<le> Suc (length buf)"
  shows "readAppMsg bufLen buf es
    = (Len (int (Suc (length (payload es)))), splice buf 0 (payload es), Fin # es2)"
proof -
  have "scan_msg (bufLen - 1) (payload es) = (payload es, False, [])"
    using assms by (intro scan_msg_all) auto
  then show ?thesis
    using readAppMsg_loop_result [of 1 bufLen buf es] assms
    by (cases "readAppMsg_loop bufLen 1 buf es")
      (auto simp: loop_result_def readAppMsg_def read_end_def)
qed

lemma readAppMsg_eof:
  assumes "payload es = []" and "after es = Fin # es2" and "1 < bufLen"
  shows "readAppMsg bufLen buf es = (Len 0, buf, Fin # es2)"
  using readAppMsg_loop_end [of 1 bufLen es buf] assms
  by (simp add: readAppMsg_def read_end_def)

lemma readAppMsg_wait:
  assumes "payload es = []" and "after es = []" and "1 < bufLen"
  shows "readAppMsg bufLen buf es = (Waits, buf, [])"
  using readAppMsg_loop_end [of 1 bufLen es buf] assms
  by (simp add: readAppMsg_def read_end_def)

text \<open>A message that does not fit: again one byte more is reported than was read.\<close>

lemma readAppMsg_too_long:
  assumes "MSG_TERMINATOR \<notin> set (take (bufLen - 1) (payload es))"
    and "bufLen \<le> Suc (length (payload es))" and "1 < bufLen" and "bufLen \<le> Suc (length buf)"
  obtains es' where
    "readAppMsg bufLen buf es
       = (Len (int bufLen), splice buf 0 (take (bufLen - 1) (payload es)), es')"
    "payload es' = drop (bufLen - 1) (payload es)" "after es' = after es"
proof -
  let ?p = "payload es" and ?k = "bufLen - 1"
  obtain m f r where sc: "scan_msg ?k ?p = (m, f, r)" by (cases "scan_msg ?k ?p") auto
  have m: "length m \<le> ?k" "?p = m @ r"
    using scan_msg_length [OF sc] scan_msg_append [OF sc] by auto
  have f: "\<not> f"
  proof
    assume f
    then have "m \<noteq> []" "last m = MSG_TERMINATOR" using scan_msg_found sc by auto
    then have "MSG_TERMINATOR \<in> set m" using last_in_set by metis
    moreover have "set m \<subseteq> set (take ?k ?p)" using m by auto
    ultimately show False using assms(1) by auto
  qed
  then have "m = take ?k ?p" using scan_msg_not_found sc by auto
  then show thesis
    using readAppMsg_loop_result [of 1 bufLen buf es] assms sc f m that
    by (cases "readAppMsg_loop bufLen 1 buf es")
      (auto simp: loop_result_def readAppMsg_def min_def split: if_splits)
qed

text \<open>Every call that returns a positive number has consumed something.\<close>

lemma readAppMsg_loop_size:
  "readAppMsg_loop bufLen n buf es = (r, buf', es') \<Longrightarrow> ev_size es' \<le> ev_size es"
proof (induction bufLen n buf es rule: readAppMsg_loop.induct)
  case (1 bufLen n buf es)
  obtain rr es1 where rd: "sys_read 1 es = (rr, es1)" by (cases "sys_read 1 es") auto
  then have le: "ev_size es1 \<le> ev_size es" by (rule sys_read_size)
  from 1(2) show ?case
    using 1(1) [OF _ rd [symmetric]] rd le
    by (subst (asm) readAppMsg_loop.simps)
      (fastforce split: if_splits rd_result.splits sum.splits)
qed

lemma readAppMsg_size:
  assumes "readAppMsg bufLen buf es = (Len i, buf', es')" and "1 < bufLen" and "0 < i"
  shows "ev_size es' < ev_size es"
proof -
  obtain rr es1 where rd: "sys_read 1 es = (rr, es1)" by (cases "sys_read 1 es") auto
  have le: "ev_size es1 < ev_size es" if "rr = Got s" for s
    using sys_read_size_less [OF rd] that by auto
  from assms show ?thesis
    using rd le readAppMsg_loop_size unfolding readAppMsg_def
    by (subst (asm) readAppMsg_loop.simps)
      (fastforce split: if_splits rd_result.splits sum.splits dest!: readAppMsg_loop_size)
qed

lemma readAppMsg_loop_length:
  "readAppMsg_loop bufLen n buf es = (r, buf', es') \<Longrightarrow> length buf' = length buf"
proof (induction bufLen n buf es rule: readAppMsg_loop.induct)
  case (1 bufLen n buf es)
  obtain rr es1 where rd: "sys_read 1 es = (rr, es1)" by (cases "sys_read 1 es") auto
  from 1(2) show ?case
    using 1(1) [OF _ rd [symmetric]] rd
    by (subst (asm) readAppMsg_loop.simps)
      (fastforce split: if_splits rd_result.splits sum.splits simp: store_Inr_iff)
qed

lemma readAppMsg_length:
  "readAppMsg bufLen buf es = (r, buf', es') \<Longrightarrow> length buf' = length buf"
  unfolding readAppMsg_def by (rule readAppMsg_loop_length)

text \<open>The number returned never exceeds the buffer, and no call overruns it.\<close>

lemma readAppMsg_bounds:
  assumes "readAppMsg bufLen buf es = (r, buf', es')" and "1 < bufLen" and "bufLen \<le> Suc (length buf)"
  shows "\<nexists>f. r = Faults f" "\<And>i. r = Len i \<Longrightarrow> -1 \<le> i \<and> i \<le> int bufLen"
proof -
  obtain m f s where sc: "scan_msg (bufLen - 1) (payload es) = (m, f, s)"
    by (cases "scan_msg (bufLen - 1) (payload es)") auto
  then have "length m \<le> bufLen - 1" by (rule scan_msg_length)
  then show "\<nexists>f. r = Faults f" "\<And>i. r = Len i \<Longrightarrow> -1 \<le> i \<and> i \<le> int bufLen"
    using readAppMsg_loop_result [of 1 bufLen buf es] assms sc
    by (auto simp: loop_result_def readAppMsg_def read_end_def
        split: if_splits list.splits rd_event.splits)
qed

section \<open>Sources of messages\<close>

text \<open>
  A complete message is any text that ends with its only terminator.
\<close>

definition is_msg :: "string \<Rightarrow> bool" where
  "is_msg m \<longleftrightarrow> m \<noteq> [] \<and> last m = MSG_TERMINATOR \<and> MSG_TERMINATOR \<notin> set (butlast m)"

lemma is_msgE:
  assumes "is_msg m"
  obtains b where "m = b @ [MSG_TERMINATOR]" "MSG_TERMINATOR \<notin> set b"
  using assms that [of "butlast m"] by (auto simp: is_msg_def) (metis append_butlast_last_id)

lemma is_msg_append [simp]: "MSG_TERMINATOR \<notin> set b \<Longrightarrow> is_msg (b @ [MSG_TERMINATOR])"
  by (simp add: is_msg_def)

text \<open>
  The messages of a stream of bytes and the incomplete rest; \<open>acc\<close> holds the bytes of the
  message that has begun.
\<close>

fun frames_from :: "string \<Rightarrow> string \<Rightarrow> string list \<times> string" where
  "frames_from acc [] = ([], acc)"
| "frames_from acc (c # p) =
     (if c = MSG_TERMINATOR
      then (case frames_from [] p of (ms, r) \<Rightarrow> ((acc @ [c]) # ms, r))
      else frames_from (acc @ [c]) p)"

definition frames :: "string \<Rightarrow> string list \<times> string" where
  "frames p = frames_from [] p"

lemma frames_from_sound:
  "frames_from acc p = (ms, r) \<Longrightarrow> MSG_TERMINATOR \<notin> set acc \<Longrightarrow>
   acc @ p = concat ms @ r \<and> (\<forall>m \<in> set ms. is_msg m) \<and> MSG_TERMINATOR \<notin> set r"
proof (induction acc p arbitrary: ms r rule: frames_from.induct)
  case (1 acc)
  then show ?case by auto
next
  case (2 acc c p)
  show ?case
  proof (cases "c = MSG_TERMINATOR")
    case True
    then obtain ms' where m: "frames_from [] p = (ms', r)" "ms = (acc @ [c]) # ms'"
      using "2.prems"(1) by (auto split: prod.splits)
    with "2.IH"(1) [OF True m(1)] True "2.prems"(2) show ?thesis by simp
  next
    case False
    with "2.IH"(2) [OF False, of ms r] "2.prems" show ?thesis by auto
  qed
qed

lemma frames_sound:
  "frames p = (ms, r) \<Longrightarrow> p = concat ms @ r"
  "frames p = (ms, r) \<Longrightarrow> \<forall>m \<in> set ms. is_msg m"
  "frames p = (ms, r) \<Longrightarrow> MSG_TERMINATOR \<notin> set r"
  using frames_from_sound [of "[]" p ms r] by (auto simp: frames_def)

lemma frames_from_skip:
  "MSG_TERMINATOR \<notin> set b \<Longrightarrow> frames_from acc (b @ p) = frames_from (acc @ b) p"
  by (induction b arbitrary: acc) auto

lemma frames_Cons:
  "is_msg m \<Longrightarrow> frames (m @ p) = (case frames p of (ms, r) \<Rightarrow> (m # ms, r))"
  by (auto simp: frames_def frames_from_skip elim!: is_msgE split: prod.splits)

lemma frames_rest: "MSG_TERMINATOR \<notin> set r \<Longrightarrow> frames r = ([], r)"
  using frames_from_skip [of r "[]" "[]"] by (simp add: frames_def)

text \<open>The messages of a stream are unique: any way to write it as messages and a rest is this one.\<close>

lemma frames_unique:
  assumes "\<forall>m \<in> set ms. is_msg m" and "MSG_TERMINATOR \<notin> set r"
  shows "frames (concat ms @ r) = (ms, r)"
  using assms by (induction ms) (simp_all add: frames_rest frames_Cons)

lemma frames_append:
  "frames p = (ms, r) \<Longrightarrow> frames (p @ q) = (case frames (r @ q) of (ns, r') \<Rightarrow> (ms @ ns, r'))"
proof -
  assume p: "frames p = (ms, r)"
  obtain ns r' where q: "frames (r @ q) = (ns, r')" by (cases "frames (r @ q)") auto
  have "p @ q = concat (ms @ ns) @ r'"
    using frames_sound(1) [OF p] frames_sound(1) [OF q] by simp
  moreover have "frames (concat (ms @ ns) @ r') = (ms @ ns, r')"
    using frames_sound [OF p] frames_sound [OF q] by (intro frames_unique) auto
  ultimately show ?thesis using q by simp
qed

text \<open>
  The contract between a component that takes messages one by one and what it takes them from:
  \<open>next s\<close> gives the first message of the bytes \<open>stream s\<close>, if it is shorter than \<open>cap\<close>, and
  leaves the rest.  \<^verbatim>\<open>readAppMsg\<close> on a socket and \<^verbatim>\<open>getAppMsg\<close> on the parse buffer both keep it.
\<close>

locale msg_source =
  fixes cap :: nat
    and stream :: "'s \<Rightarrow> string"
    and ok :: "'s \<Rightarrow> bool"
    and "next" :: "'s \<Rightarrow> (string \<times> 's) option"
  assumes next_msg: "ok s \<Longrightarrow> stream s = m @ r \<Longrightarrow> is_msg m \<Longrightarrow> length m < cap
      \<Longrightarrow> \<exists>s'. next s = Some (m, s') \<and> stream s' = r \<and> ok s'"
begin

fun take_msgs :: "nat \<Rightarrow> 's \<Rightarrow> (string list \<times> 's) option" where
  "take_msgs 0 s = Some ([], s)"
| "take_msgs (Suc k) s = (case next s of
     None \<Rightarrow> None
   | Some (m, s1) \<Rightarrow> map_option (\<lambda>(ms, s2). (m # ms, s2)) (take_msgs k s1))"

text \<open>A stream of complete messages is delivered message by message, and nothing else is taken.\<close>

lemma take_all:
  assumes "ok s" and "stream s = concat ms @ r" and "\<forall>m \<in> set ms. is_msg m \<and> length m < cap"
  shows "\<exists>s'. take_msgs (length ms) s = Some (ms, s') \<and> stream s' = r \<and> ok s'"
  using assms
proof (induction ms arbitrary: s)
  case Nil
  then show ?case by simp
next
  case (Cons m ms)
  then obtain s1 where "next s = Some (m, s1)" "stream s1 = concat ms @ r" "ok s1"
    using next_msg [of s m "concat ms @ r"] by auto
  with Cons show ?case by fastforce
qed

end

text \<open>A source that also says when no message is complete.\<close>

locale exact_source = msg_source cap stream ok "next"
  for cap :: nat
    and stream :: "'s \<Rightarrow> string"
    and ok :: "'s \<Rightarrow> bool"
    and "next" :: "'s \<Rightarrow> (string \<times> 's) option" +
  assumes next_none: "ok s \<Longrightarrow> MSG_TERMINATOR \<notin> set (stream s) \<Longrightarrow> next s = None"
begin

lemma take_frames:
  assumes "ok s" and "frames (stream s) = (ms, r)" and "\<forall>m \<in> set ms. length m < cap"
  shows "\<exists>s'. take_msgs (length ms) s = Some (ms, s') \<and> stream s' = r \<and> ok s' \<and> next s' = None"
proof -
  have "stream s = concat ms @ r" "\<forall>m \<in> set ms. is_msg m \<and> length m < cap"
    using frames_sound [OF assms(2)] assms(3) by simp_all
  from take_all [OF assms(1) this] obtain s' where
    "take_msgs (length ms) s = Some (ms, s')" "stream s' = r" "ok s'" by blast
  then show ?thesis using next_none frames_sound(3) [OF assms(2)] by blast
qed

end

text \<open>
  \<^verbatim>\<open>readAppMsg\<close> as a source: the state is the buffer and the socket.
\<close>

definition app_next :: "string \<times> rd_event list \<Rightarrow> (string \<times> (string \<times> rd_event list)) option" where
  "app_next s = (case readAppMsg BUF_SIZE (fst s) (snd s) of
       (Len n, buf, es) \<Rightarrow> if 0 < n then Some (take (nat n) buf, (buf, es)) else None
     | _ \<Rightarrow> None)"

definition app_stream :: "string \<times> rd_event list \<Rightarrow> string" where
  "app_stream s = payload (snd s)"

definition app_ok :: "string \<times> rd_event list \<Rightarrow> bool" where
  "app_ok s \<longleftrightarrow> length (fst s) = ARRAY_SIZE"

interpretation sock: msg_source BUF_SIZE app_stream app_ok app_next
proof
  fix s m r
  assume ok: "app_ok s" and st: "app_stream s = m @ r" and m: "is_msg m" and len: "length m < BUF_SIZE"
  obtain b where b: "m = b @ [MSG_TERMINATOR]" "MSG_TERMINATOR \<notin> set b"
    using m by (rule is_msgE)
  have "payload (snd s) = b @ MSG_TERMINATOR # r" "Suc (length b) < BUF_SIZE"
    "BUF_SIZE \<le> Suc (length (fst s))"
    using st b ok len by (simp_all add: app_stream_def app_ok_def ARRAY_SIZE_def)
  then obtain es' where
    "readAppMsg BUF_SIZE (fst s) (snd s)
       = (Len (int (Suc (length b))), splice (fst s) 0 m, es')"
    "payload es' = r"
    using b readAppMsg_message by metis
  moreover have "take (Suc (length b)) (splice (fst s) 0 m) = m"
    using take_splice_0 [of m "fst s"] b by simp
  ultimately show "\<exists>s'. app_next s = Some (m, s') \<and> app_stream s' = r \<and> app_ok s'"
    using ok len b
    by (auto simp: app_next_def app_stream_def app_ok_def ARRAY_SIZE_def nat_add_distrib)
qed

section \<open>A dump shows every byte\<close>

lemma hex_digit_inj: "hex_digit a = hex_digit b \<Longrightarrow> a < 16 \<Longrightarrow> b < 16 \<Longrightarrow> a = b"
  by (drule arg_cong [where f = "of_char :: char \<Rightarrow> nat"])
    (auto simp: hex_digit_def split: if_splits)

lemma show_hex2_inj: "show_hex2 c = show_hex2 d \<Longrightarrow> c = d"
proof -
  assume "show_hex2 c = show_hex2 d"
  moreover have "of_char c div 16 < (16::nat)" "of_char d div 16 < (16::nat)" for c d :: char
    by (simp_all add: div_less_iff_less_mult)
  ultimately have "of_char c div 16 = (of_char d div 16 :: nat)"
    "of_char c mod 16 = (of_char d mod 16 :: nat)"
    by (auto simp: show_hex2_def intro!: hex_digit_inj)
  then have "of_char c = (of_char d :: nat)" by (metis div_mult_mod_eq)
  then show ?thesis by (metis char_of_char)
qed

lemma length_dump_byte: "length (dump_byte c) = 6"
  by (simp add: dump_byte_def show_hex2_def)

lemma dump_byte_inj: "dump_byte c @ s = dump_byte d @ t \<Longrightarrow> c = d \<and> s = t"
  by (auto simp: dump_byte_def show_hex2_def intro!: show_hex2_inj split: if_splits)

lemma dump_loop_inj:
  "dump_loop xs col = dump_loop ys col \<Longrightarrow> col < COL_IN_LINE \<Longrightarrow> length xs = length ys \<Longrightarrow> xs = ys"
proof (induction xs arbitrary: ys col)
  case Nil
  then show ?case by simp
next
  case (Cons c xs)
  then obtain d ys' where ys: "ys = d # ys'" by (cases ys) auto
  define tl1 where "tl1 = (if Suc col = COL_IN_LINE then nl @ dump_loop xs 0 else dump_loop xs (Suc col))"
  define tl2 where "tl2 = (if Suc col = COL_IN_LINE then nl @ dump_loop ys' 0 else dump_loop ys' (Suc col))"
  have "dump_byte c @ tl1 = dump_byte d @ tl2"
    using Cons.prems(1) by (auto simp: ys tl1_def tl2_def)
  then have "c = d" "tl1 = tl2" using dump_byte_inj by blast+
  then show ?case
    using Cons.IH [of 0 ys'] Cons.IH [of "Suc col" ys'] Cons.prems(2,3)
    by (auto simp: ys tl1_def tl2_def COL_IN_LINE_def split: if_splits)
qed

section \<open>Properties\<close>

text \<open>C2: \<^verbatim>\<open>readAppMsg\<close> takes the first message out of the stream, exactly and nothing more,
  however the bytes are cut into segments and whatever the buffer held before, when the message is
  shorter than the length it is given, \<^verbatim>\<open>bufLen\<close>, and the array has room for that many bytes but one.\<close>

theorem readAppMsg_takes_first_message:
  assumes "is_msg m" and "length m < bufLen" and "bufLen \<le> Suc (length buf)"
    and "payload es = m @ rest"
  shows "\<exists>es'. readAppMsg bufLen buf es = (Len (int (length m)), splice buf 0 m, es')
     \<and> payload es' = rest \<and> after es' = after es"
proof -
  obtain b where b: "m = b @ [MSG_TERMINATOR]" "MSG_TERMINATOR \<notin> set b"
    using assms(1) by (rule is_msgE)
  have "payload es = b @ MSG_TERMINATOR # rest" "Suc (length b) < bufLen"
    using assms(2,4) b(1) by simp_all
  from readAppMsg_message [OF this(1) b(2) this(2) assms(3)] show ?thesis
    using b(1) by (metis length_append_singleton)
qed

theorem readAppMsg_takes_first_message_witness:
  "\<exists>es'. readAppMsg 10 (replicate 10 nul) [Seg ''Q1'', Seg ''+2=Q3'', Seg ''+4='', Fin]
       = (Len (int (length ''Q1+2='')), splice (replicate 10 nul) 0 ''Q1+2='', es')
     \<and> payload es' = ''Q3+4='' \<and> after es' = after [Seg ''Q1'', Seg ''+2=Q3'', Seg ''+4='', Fin]"
  by (rule readAppMsg_takes_first_message) (simp_all add: is_msg_def)

text \<open>When the stream ends inside a message, \<^verbatim>\<open>readAppMsg\<close> reports one byte more than it has
  read: the byte that the buffer held behind them counts as part of the message.\<close>

theorem readAppMsg_counts_stale_byte:
  assumes "MSG_TERMINATOR \<notin> set (payload es)" and "payload es \<noteq> []" and "after es = Fin # es2"
    and "Suc (length (payload es)) < bufLen" and "bufLen \<le> Suc (length buf)"
  shows "\<exists>buf'. readAppMsg bufLen buf es = (Len (int (Suc (length (payload es)))), buf', Fin # es2)
     \<and> take (Suc (length (payload es))) buf' = payload es @ [buf ! length (payload es)]"
  using readAppMsg_truncated [OF assms] assms(4,5)
  by (simp add: splice_def take_Suc_conv_app_nth flip: Cons_nth_drop_Suc)

theorem readAppMsg_counts_stale_byte_witness:
  "\<exists>buf'. readAppMsg 10 ''Z1+2======'' [Seg ''Q9+'', Seg ''9'', Fin]
       = (Len (int (Suc (length (payload [Seg ''Q9+'', Seg ''9'', Fin])))), buf', [Fin])
     \<and> take (Suc (length (payload [Seg ''Q9+'', Seg ''9'', Fin]))) buf'
       = payload [Seg ''Q9+'', Seg ''9'', Fin] @ [''Z1+2======'' ! length (payload [Seg ''Q9+'', Seg ''9'', Fin])]"
  by (rule readAppMsg_counts_stale_byte) simp_all

text \<open>A message of \<^verbatim>\<open>bufLen\<close> bytes or more is cut: the call reports \<^verbatim>\<open>bufLen\<close> bytes but has read
  one less, and leaves the rest of the message to be taken for the next one.  The client can send
  such a request: a line of \<^verbatim>\<open>BUF_SIZE - 2\<close> characters makes a request of \<^verbatim>\<open>BUF_SIZE\<close> bytes.\<close>

theorem readAppMsg_cuts_long_message:
  assumes "is_msg m" and "bufLen \<le> length m" and "payload es = m @ rest" and "1 < bufLen"
    and "bufLen \<le> Suc (length buf)"
  shows "\<exists>es'. readAppMsg bufLen buf es
       = (Len (int bufLen), splice buf 0 (take (bufLen - 1) m), es')
     \<and> payload es' = drop (bufLen - 1) m @ rest"
proof -
  obtain b where b: "m = b @ [MSG_TERMINATOR]" "MSG_TERMINATOR \<notin> set b"
    using assms(1) by (rule is_msgE)
  have tk: "take (bufLen - 1) (payload es) = take (bufLen - 1) m"
    "take (bufLen - 1) m = take (bufLen - 1) b"
    using assms(2,3) b(1) by auto
  have "MSG_TERMINATOR \<notin> set (take (bufLen - 1) (payload es))"
    using tk b(2) by (auto dest: in_set_takeD)
  moreover have "bufLen \<le> Suc (length (payload es))" using assms(2,3) by simp
  ultimately obtain es' where "readAppMsg bufLen buf es
       = (Len (int bufLen), splice buf 0 (take (bufLen - 1) (payload es)), es')"
    "payload es' = drop (bufLen - 1) (payload es)"
    using readAppMsg_too_long assms(4,5) by blast
  then show ?thesis using assms(2,3) tk by auto
qed

theorem readAppMsg_cuts_long_message_witness:
  "\<exists>es'. readAppMsg 4 (replicate 4 nul) [Seg ''Q10='', Fin]
       = (Len (int 4), splice (replicate 4 nul) 0 (take (4 - 1) ''Q10=''), es')
     \<and> payload es' = drop (4 - 1) ''Q10='' @ []"
  by (rule readAppMsg_cuts_long_message) (simp_all add: is_msg_def)

lemma show_nat_inj: "show_nat m = show_nat n \<Longrightarrow> m = n"
  using scan_nat_show_nat [of "[]" m] scan_nat_show_nat [of "[]" n]
  by (simp add: no_digit_first_def)

text \<open>A dump shows every byte: two arrays with the same dump have the same length and the same
  bytes.\<close>

theorem dumpBuf_shows_every_byte:
  assumes "dumpBuf b1 n1 = Inr t" and "dumpBuf b2 n2 = Inr t"
  shows "n1 = n2 \<and> take n1 b1 = take n2 b2"
proof -
  have l: "n1 \<le> length b1" "n2 \<le> length b2" using assms by (auto simp: dumpBuf_def split: if_splits)
  have t: "show_nat n1 @ nl @ dump_loop (take n1 b1) 0 = show_nat n2 @ nl @ dump_loop (take n2 b2) 0"
    using assms l by (auto simp: dumpBuf_def)
  have d: "takeWhile isdigit (show_nat n @ nl @ x) = show_nat n" for n x
    using takeWhile_stop [of "show_nat n" isdigit "CHR 0x0A" x] show_nat_digits
    by (auto simp: isdigit_def)
  have "show_nat n1 = show_nat n2" using arg_cong [OF t, of "takeWhile isdigit"] by (simp only: d)
  then have n: "n1 = n2" by (rule show_nat_inj)
  then have "dump_loop (take n1 b1) 0 = dump_loop (take n2 b2) 0" using t by simp
  then show ?thesis using dump_loop_inj n l by (simp add: COL_IN_LINE_def)
qed

theorem dumpBuf_shows_every_byte_witness:
  "take 2 ''abx'' = take 2 ''aby'' \<and> (2::nat) = 2"
  using dumpBuf_shows_every_byte [of "''abx''" 2 "projr (dumpBuf ''abx'' 2)" "''aby''" 2]
  by (simp add: dumpBuf_def)

end
