(* ===== verification/Unp_Wrap.thy ===== *)
theory Unp_Wrap
  imports Unp_Error
begin

text \<open>
  The wrapper functions of the library (\<^verbatim>\<open>SampleCode/unpv13e/lib/wrapsock.c\<close> and
  \<^verbatim>\<open>wrapunix.c\<close>) that the programs of the repository call: each makes one system call and
  ends the process through \<^verbatim>\<open>err_sys\<close> when it fails.  What the kernel answers is an argument:
  \<open>Inl e\<close> for a failure with \<^verbatim>\<open>errno\<close> \<open>e\<close>, \<open>Inr v\<close> for the value \<open>v\<close>.
\<close>

type_synonym ('a, 'p) wrapped = "(stop \<times> 'p) + ('a \<times> 'p)"

definition or_die ::
    "string \<Rightarrow> errno + 'a \<Rightarrow> 'p proc_scheme \<Rightarrow> ('a, 'p proc_scheme) wrapped" where
  "or_die msg r p = (case r of
       Inl e \<Rightarrow> Inl (err_sys msg (p\<lparr>errnum := e\<rparr>))
     | Inr v \<Rightarrow> Inr (v, p))"

section \<open>Sequencing\<close>

text \<open>
  \<open>proceed d w k\<close> goes on with the value of a wrapper, \<open>and_then d r k\<close> after a function without
  value; when the process has ended instead, the result is \<open>d\<close>, what had been produced so far.
\<close>

definition proceed ::
    "'r \<Rightarrow> ('a, 'p) wrapped \<Rightarrow> ('a \<Rightarrow> 'p \<Rightarrow> stop \<times> 'r \<times> 'p) \<Rightarrow> stop \<times> 'r \<times> 'p" where
  "proceed d w k = (case w of Inl (s, p) \<Rightarrow> (s, d, p) | Inr (v, p) \<Rightarrow> k v p)"

definition and_then ::
    "'r \<Rightarrow> stop \<times> 'p \<Rightarrow> ('p \<Rightarrow> stop \<times> 'r \<times> 'p) \<Rightarrow> stop \<times> 'r \<times> 'p" where
  "and_then d r k = (if fst r = Returns then k (snd r) else (fst r, d, snd r))"

lemma proceed_simps [simp]:
  "proceed d (Inr (v, p)) k = k v p" "proceed d (Inl (s, p)) k = (s, d, p)"
  by (simp_all add: proceed_def)

lemma and_then_simps [simp]:
  "and_then d (Returns, p) k = k p"
  "s \<noteq> Returns \<Longrightarrow> and_then d (s, p) k = (s, d, p)"
  by (simp_all add: and_then_def)

lemma proceed_cong [fundef_cong]:
  "d = d' \<Longrightarrow> w = w' \<Longrightarrow> (\<And>v p. w' = Inr (v, p) \<Longrightarrow> k v p = k' v p)
   \<Longrightarrow> proceed d w k = proceed d' w' k'"
  by (auto simp: proceed_def split: sum.split)

lemma and_then_cong [fundef_cong]:
  "d = d' \<Longrightarrow> r = r' \<Longrightarrow> (\<And>p. r' = (Returns, p) \<Longrightarrow> k p = k' p)
   \<Longrightarrow> and_then d r k = and_then d' r' k'"
  by (cases r') (auto simp: and_then_def)

section \<open>wrapsock.c\<close>

definition Socket :: "errno + int \<Rightarrow> 'p proc_scheme \<Rightarrow> (int, 'p proc_scheme) wrapped" where
  "Socket r p = or_die ''socket error'' r p"

definition Bind :: "errno + unit \<Rightarrow> 'p proc_scheme \<Rightarrow> (unit, 'p proc_scheme) wrapped" where
  "Bind r p = or_die ''bind error'' r p"

definition Connect :: "errno + unit \<Rightarrow> 'p proc_scheme \<Rightarrow> (unit, 'p proc_scheme) wrapped" where
  "Connect r p = or_die ''connect error'' r p"

text \<open>
  \<^verbatim>\<open>Listen\<close> lets the environment variable \<^verbatim>\<open>LISTENQ\<close> override the backlog; the kernel's answer
  depends on the backlog it is given.  \<^verbatim>\<open>atoi\<close> gives 0 for a text without digits and here the exact number otherwise; for a number
  that no \<^verbatim>\<open>int\<close> can hold C leaves the value open.
\<close>

definition atoi :: "string \<Rightarrow> int" where
  "atoi s = (case scan_int (skip_space s) of None \<Rightarrow> 0 | Some (i, _) \<Rightarrow> i)"

definition Listen ::
    "(int \<Rightarrow> errno + unit) \<Rightarrow> string option \<Rightarrow> int \<Rightarrow> 'p proc_scheme
     \<Rightarrow> (unit, 'p proc_scheme) wrapped" where
  "Listen listen env backlog p =
     (let backlog' = (case env of None \<Rightarrow> backlog | Some ptr \<Rightarrow> atoi ptr)
      in or_die ''listen error'' (listen backlog') p)"

text \<open>The value of \<^verbatim>\<open>Poll\<close> is the count with the \<^verbatim>\<open>revents\<close> fields the call sets.\<close>

definition Poll :: "errno + 'a \<Rightarrow> 'p proc_scheme \<Rightarrow> ('a, 'p proc_scheme) wrapped" where
  "Poll r p = or_die ''poll error'' r p"

definition Recvfrom :: "errno + 'a \<Rightarrow> 'p proc_scheme \<Rightarrow> ('a, 'p proc_scheme) wrapped" where
  "Recvfrom r p = or_die ''recvfrom error'' r p"

text \<open>\<^verbatim>\<open>Sendto\<close> also dies when the kernel took fewer bytes than it was given.\<close>

definition Sendto :: "string \<Rightarrow> errno + nat \<Rightarrow> 'p proc_scheme \<Rightarrow> (unit, 'p proc_scheme) wrapped" where
  "Sendto d r p = (case r of
       Inl e \<Rightarrow> Inl (err_sys ''sendto error'' (p\<lparr>errnum := e\<rparr>))
     | Inr k \<Rightarrow> if k \<noteq> length d then Inl (err_sys ''sendto error'' p) else Inr ((), p))"

definition Setsockopt :: "errno + unit \<Rightarrow> 'p proc_scheme \<Rightarrow> (unit, 'p proc_scheme) wrapped" where
  "Setsockopt r p = or_die ''setsockopt error'' r p"

definition Shutdown :: "errno + unit \<Rightarrow> 'p proc_scheme \<Rightarrow> (unit, 'p proc_scheme) wrapped" where
  "Shutdown r p = or_die ''shutdown error'' r p"

text \<open>
  \<^verbatim>\<open>Accept\<close> tries again after an aborted connection or a protocol error (Linux defines
  \<^verbatim>\<open>EPROTO\<close>), so it takes one or more answers of the kernel from its script; the rest of the
  script is left.  An empty script: no connection comes, the call waits.
\<close>

fun Accept ::
    "(errno + 'a) list \<Rightarrow> 'p proc_scheme
     \<Rightarrow> (('a \<times> (errno + 'a) list, 'p proc_scheme) wrapped)" where
  "Accept [] p = Inl (Blocks, p)"
| "Accept (Inr conn # rest) p = Inr ((conn, rest), p)"
| "Accept (Inl e # rest) p =
     (if e = EPROTO \<or> e = ECONNABORTED then Accept rest (p\<lparr>errnum := e\<rparr>)
      else Inl (err_sys ''accept error'' (p\<lparr>errnum := e\<rparr>)))"

section \<open>wraplib.c\<close>

text \<open>
  \<open>r\<close> is what \<^verbatim>\<open>inet_pton\<close> returns: negative for a failure (with \<^verbatim>\<open>errno\<close> set), 0 for a text
  that is no address.
\<close>

definition Inet_pton :: "int \<Rightarrow> string \<Rightarrow> 'p proc_scheme \<Rightarrow> (unit, 'p proc_scheme) wrapped" where
  "Inet_pton r strptr p =
     (if r < 0 then Inl (err_sys (''inet_pton error for '' @ strptr) p)
      else if r = 0 then Inl (err_quit (''inet_pton error for '' @ strptr) p)
      else Inr ((), p))"

text \<open>The program name in a usage message; \<^verbatim>\<open>argv[0]\<close> is a null pointer when there is none.\<close>

definition argv0 :: "string list \<Rightarrow> string" where
  "argv0 argv = (case argv of [] \<Rightarrow> ''(null)'' | a # _ \<Rightarrow> a)"

section \<open>wrapunix.c\<close>

definition Close :: "errno + unit \<Rightarrow> 'p proc_scheme \<Rightarrow> (unit, 'p proc_scheme) wrapped" where
  "Close r p = or_die ''close error'' r p"

definition Fork :: "errno + int \<Rightarrow> 'p proc_scheme \<Rightarrow> (int, 'p proc_scheme) wrapped" where
  "Fork r p = or_die ''fork error'' r p"

text \<open>\<^verbatim>\<open>Read\<close> and \<^verbatim>\<open>Write\<close> on a connected descriptor; \<^verbatim>\<open>None\<close> is a read that waits.\<close>

definition Read ::
    "nat \<Rightarrow> conn \<Rightarrow> 'p proc_scheme \<Rightarrow> ((string \<times> conn), 'p proc_scheme) wrapped" where
  "Read nbytes c p = (case conn_read nbytes c of
       (Got s, c') \<Rightarrow> Inr ((s, c'), p)
     | (Eof, c') \<Rightarrow> Inr (([], c'), p)
     | (RdFail e, c') \<Rightarrow> Inl (err_sys ''read error'' (p\<lparr>errnum := e\<rparr>))
     | (RdWait, c') \<Rightarrow> Inl (Blocks, p))"

definition Write :: "string \<Rightarrow> conn \<Rightarrow> 'p proc_scheme \<Rightarrow> stop \<times> conn \<times> 'p proc_scheme" where
  "Write d c p = (case sys_write d c of
       (Wrote k, c') \<Rightarrow>
         if k \<noteq> length d then (case err_sys ''write error'' p of (s, p') \<Rightarrow> (s, c', p'))
         else (Returns, c', p)
     | (WrFail e, c') \<Rightarrow>
         (case err_sys ''write error'' (p\<lparr>errnum := e\<rparr>) of (s, p') \<Rightarrow> (s, c', p')))"

lemma or_die_Inr [simp]: "or_die msg (Inr v) p = Inr (v, p)"
  by (simp add: or_die_def)

lemma Write_rq: "Write d c p = (s, c', p') \<Longrightarrow> rq c' = rq c"
  using sys_write_rq [of d c]
  by (cases "sys_write d c")
    (auto simp: Write_def split: wr_result.splits if_splits prod.splits)

lemma Write_all:
  assumes "all_writes c"
  shows "\<exists>q. Write d c p = (Returns, c\<lparr>wq := q, sent := sent c @ d\<rparr>, p) \<and> set q \<subseteq> set (wq c)"
  using sys_write_all [OF assms, of d] by (auto simp: Write_def)

text \<open>When \<^verbatim>\<open>Write\<close> returns at all, the whole buffer went out.\<close>

lemma Write_Returns:
  "Write d c p = (Returns, c', p') \<Longrightarrow> sent c' = sent c @ d \<and> p' = p"
  by (auto simp: Write_def err_sys_def dest: sys_write_sent
      split: wr_result.splits if_splits prod.splits)

lemma Accept_shorter: "Accept acc p = Inr ((i, rest), p') \<Longrightarrow> length rest < length acc"
  by (induction acc p rule: Accept.induct) (auto split: if_splits)

text \<open>\<^verbatim>\<open>Accept\<close> skips exactly the aborted connections.\<close>

lemma Accept_skips:
  assumes "\<forall>r \<in> set es. r = Inl EPROTO \<or> r = Inl ECONNABORTED"
  shows "\<exists>e. Accept (es @ Inr conn # rest) p = Inr ((conn, rest), p\<lparr>errnum := e\<rparr>)"
  using assms
proof (induction es arbitrary: p)
  case Nil
  show ?case by (intro exI [of _ "errnum p"]) simp
next
  case (Cons r es)
  from Cons.prems obtain e where r: "r = Inl e" "e = EPROTO \<or> e = ECONNABORTED" by auto
  from Cons.prems have "\<forall>r \<in> set es. r = Inl EPROTO \<or> r = Inl ECONNABORTED" by simp
  from Cons.IH [OF this, of "p\<lparr>errnum := e\<rparr>"] obtain e' where
    "Accept (es @ Inr conn # rest) (p\<lparr>errnum := e\<rparr>) = Inr ((conn, rest), p\<lparr>errnum := e'\<rparr>)"
    by auto
  with r show ?case by (intro exI [of _ e']) auto
qed

section \<open>Properties\<close>

text \<open>\<^verbatim>\<open>Accept\<close> returns the first connection behind any number of connections that were aborted
  before they were accepted, and leaves the rest; aborted connections never end the process.\<close>

theorem Accept_ignores_aborted:
  assumes "\<forall>r \<in> set es. r = Inl EPROTO \<or> r = Inl ECONNABORTED"
  shows "\<exists>e. Accept (es @ Inr conn # rest) p = Inr ((conn, rest), p\<lparr>errnum := e\<rparr>)"
  using assms by (rule Accept_skips)

theorem Accept_ignores_aborted_witness:
  "\<exists>e. Accept ([Inl ECONNABORTED, Inl EPROTO] @ Inr (7::nat) # [])
       \<lparr>inp = [], out = [], err = [], daemon_proc = False, slog = [], errnum = EIO\<rparr>
     = Inr ((7, []), \<lparr>inp = [], out = [], err = [], daemon_proc = False, slog = [], errnum = EIO\<rparr>\<lparr>errnum := e\<rparr>)"
  by (rule Accept_ignores_aborted) simp

text \<open>When \<^verbatim>\<open>Write\<close> returns, the whole buffer has been sent and nothing else; a short write or a
  failure ends the process with status 1, and never are bytes sent that are not a prefix of the buffer.\<close>

theorem Write_all_or_exit:
  "\<exists>s c' p' k. Write d c p = (s, c', p') \<and> sent c' = sent c @ take k d
     \<and> (s = Returns \<and> length d \<le> k \<or> s = Exits 1)"
proof -
  obtain r c' where w: "sys_write d c = (r, c')" by (cases "sys_write d c") auto
  obtain k where k: "k \<le> length d" "sent c' = sent c @ take k d" "\<forall>m. r = Wrote m \<longrightarrow> m = k"
    using sys_write_sent [OF w] by blast
  show ?thesis
  proof (cases r)
    case (Wrote m)
    then show ?thesis using w k
      by (cases "m = length d") (auto simp: Write_def err_sys_def intro!: exI [of _ k])
  next
    case (WrFail e)
    then show ?thesis using w k by (auto simp: Write_def err_sys_def)
  qed
qed

end
