(* ===== verification/Netcalc_Server.thy ===== *)
theory Netcalc_Server
  imports Netcalc_Util Unp_Wrap
begin

text \<open>
  The iterative servers: version 1 (\<^verbatim>\<open>netcalc_srv.c\<close>), which takes what one \<^verbatim>\<open>read\<close> gives for a
  message, and version 2 (\<^verbatim>\<open>netcalc_srv_v2.c\<close>), which takes messages out of the stream with
  \<^verbatim>\<open>readAppMsg\<close>.  The loop body is the same in every version of the server and is modelled once.
\<close>

section \<open>The state of a server\<close>

text \<open>The globals \<^verbatim>\<open>reqBuf\<close> and \<^verbatim>\<open>resBuf\<close>, and the local \<^verbatim>\<open>resultLen\<close>.\<close>

record server = netcalc +
  reqBuf :: string
  resBuf :: string
  resultLen :: nat

definition server_ok :: "'a server_scheme \<Rightarrow> bool" where
  "server_ok p \<longleftrightarrow> length (reqBuf p) = ARRAY_SIZE \<and> length (resBuf p) = ARRAY_SIZE"

definition init_server :: server where
  "init_server = \<lparr>inp = [], out = [], err = [], daemon_proc = False, slog = [], errnum = EIO,
     debugFlag = debugFlag_init, reqBuf = replicate ARRAY_SIZE nul,
     resBuf = replicate ARRAY_SIZE nul, resultLen = 0\<rparr>"

section \<open>Serving one message\<close>

text \<open>
  The body of the read loop: the dump, \<^verbatim>\<open>doCalc\<close>, and the answer or the complaint on the
  standard output.  \<open>fn\<close> is \<^verbatim>\<open>__FUNCTION__\<close>, \<open>n\<close> the length of the message in \<^verbatim>\<open>reqBuf\<close>.
\<close>

definition serve_msg ::
    "string \<Rightarrow> nat \<Rightarrow> conn \<Rightarrow> 'a server_scheme \<Rightarrow> stop \<times> conn \<times> 'a server_scheme" where
  "serve_msg fn n c p =
     (case DUMP_BUF (debugFlag p) (reqBuf p) n of
        Inl f \<Rightarrow> (Undef f, c, p)
      | Inr t \<Rightarrow>
          (let p1 = printf t p in
           case doCalc (reqBuf p1) n (resBuf p1) (resultLen p1) of
             Inl f \<Rightarrow> (Undef f, c, p1)
           | Inr (rc, q, a, l) \<Rightarrow>
               (let p2 = p1\<lparr>reqBuf := q, resBuf := a, resultLen := l\<rparr> in
                if rc = SUCCESS then Write (take l a) c p2
                else (Returns, c, printf (''!!'' @ fn @ '': doCalc failed'' @ nl) p2))))"

lemma serve_msg_rq: "serve_msg fn n c p = (s, c', p') \<Longrightarrow> rq c' = rq c"
  by (auto simp: serve_msg_def Let_def dest: Write_rq split: sum.splits if_splits prod.splits)

section \<open>Version 2: messages out of the stream\<close>

text \<open>\<^verbatim>\<open>servChild\<close>: serves one connection until the stream ends or fails.\<close>

function servChild :: "conn \<Rightarrow> 'a server_scheme \<Rightarrow> stop \<times> conn \<times> 'a server_scheme" where
  "servChild c p =
     (case readAppMsg BUF_SIZE (reqBuf p) (rq c) of
        (len, buf, es) \<Rightarrow>
          (let c1 = c\<lparr>rq := es\<rparr>; p1 = p\<lparr>reqBuf := buf\<rparr> in
           case len of
             Waits \<Rightarrow> (Blocks, c1, p1)
           | Faults f \<Rightarrow> (Undef f, c1, p1)
           | Len n \<Rightarrow>
               (if 0 < n then
                  (case serve_msg ''servChild'' (nat n) c1 p1 of
                     (Returns, c2, p2) \<Rightarrow> servChild c2 p2
                   | (s, c2, p2) \<Rightarrow> (s, c2, p2))
                else (Returns, c1, p1))))"
  by pat_completeness auto
termination
  by (relation "measure (\<lambda>(c, p). ev_size (rq c))")
    (auto simp: BUF_SIZE_def dest!: serve_msg_rq [OF sym] readAppMsg_size [OF sym])

declare servChild.simps [simp del]


section \<open>One message against the protocol\<close>

definition opt_text :: "string option \<Rightarrow> string" where
  "opt_text r = (case r of None \<Rightarrow> [] | Some t \<Rightarrow> t)"

lemma opt_text_simps [simp]: "opt_text None = []" "opt_text (Some t) = t"
  by (simp_all add: opt_text_def)

lemma reply_length: "reply m = Inr (Some t) \<Longrightarrow> length t \<le> 13"
proof -
  assume "reply m = Inr (Some t)"
  then obtain a where a: "answer_to (cstr (tl (butlast m))) = Inr a" "t = answer_msg a"
    by (auto simp: reply_def map_sum_def split: if_splits sum.splits)
  have "case a of Some c \<Rightarrow> int_ok c | None \<Rightarrow> True"
    using a(1) by (cases a) (auto dest: answer_to_ok)
  then show ?thesis using length_answer_msg a(2) by blast
qed

lemma DUMP_BUF_fits: "n \<le> length buf \<Longrightarrow> \<exists>t. DUMP_BUF flag buf n = Inr t"
  by (simp add: DUMP_BUF_def dumpBuf_def)

text \<open>
  The body sends exactly the reply of the protocol, whatever the rest of the buffers holds.
\<close>

lemma serve_msg_reply:
  assumes "server_ok p" and "n \<le> ARRAY_SIZE" and "all_writes c"
    and "reply (take n (reqBuf p)) = Inr r"
  obtains q p' where
    "serve_msg fn n c p = (Returns, c\<lparr>wq := q, sent := sent c @ opt_text r\<rparr>, p')"
    "set q \<subseteq> set (wq c)" "server_ok p'"
proof -
  obtain t where t: "DUMP_BUF (debugFlag p) (reqBuf p) n = Inr t"
    using assms DUMP_BUF_fits [of n "reqBuf p" "debugFlag p"] by (auto simp: server_ok_def)
  have d: "doCalc (reqBuf p) n (resBuf p) (resultLen p)
      = Inr (calc_effect (reqBuf p) n (resBuf p) (resultLen p) r)"
    using assms by (subst doCalc_eq_reply) (auto simp: server_ok_def size_defs)
  show thesis
  proof (cases r)
    case None
    with t d assms(1) show ?thesis
      by (intro that [of "wq c" "printf (''!!'' @ fn @ '': doCalc failed'' @ nl)
            (printf t p\<lparr>reqBuf := reqBuf p, resBuf := resBuf p, resultLen := resultLen p\<rparr>)"])
        (auto simp: serve_msg_def printf_def server_ok_def Let_def)
  next
    case (Some a)
    define p2 where "p2 = printf t p\<lparr>reqBuf := (reqBuf p)[n - 1 := nul],
      resBuf := a @ nul # drop (Suc (length a)) (resBuf p), resultLen := length a\<rparr>"
    obtain q where q: "Write a c p2 = (Returns, c\<lparr>wq := q, sent := sent c @ a\<rparr>, p2)"
      "set q \<subseteq> set (wq c)"
      using Write_all [OF assms(3)] by blast
    have "length a \<le> 13" using assms(4) Some reply_length by blast
    then have "server_ok p2"
      using assms(1) by (auto simp: server_ok_def p2_def printf_def size_defs)
    moreover have "serve_msg fn n c p = (Returns, c\<lparr>wq := q, sent := sent c @ a\<rparr>, p2)"
      using t d q(1) Some by (simp add: serve_msg_def p2_def printf_def Let_def)
    ultimately show ?thesis using q(2) Some by (intro that) auto
  qed
qed

text \<open>All replies to a list of messages, in order.\<close>

fun replies :: "string list \<Rightarrow> fault + string" where
  "replies [] = Inr []"
| "replies (m # ms) =
     (case reply m of
        Inl f \<Rightarrow> Inl f
      | Inr r \<Rightarrow> map_sum id (\<lambda>t. opt_text r @ t) (replies ms))"

lemma replies_Cons_Inr:
  "replies (m # ms) = Inr t \<longleftrightarrow>
     (\<exists>r u. reply m = Inr r \<and> replies ms = Inr u \<and> t = opt_text r @ u)"
  by (auto split: sum.splits simp: map_sum_def)

section \<open>Version 2 against the protocol\<close>

lemma servChild_step:
  assumes "server_ok p" and "all_writes c" and "payload (rq c) = m @ s" and "is_msg m"
    and "length m < BUF_SIZE" and "reply m = Inr r"
  obtains c' p' where "servChild c p = servChild c' p'" "payload (rq c') = s"
    "after (rq c') = after (rq c)" "sent c' = sent c @ opt_text r" "server_ok p'" "all_writes c'"
proof -
  obtain b where b: "m = b @ [MSG_TERMINATOR]" "MSG_TERMINATOR \<notin> set b"
    using assms(4) by (rule is_msgE)
  have pre: "payload (rq c) = b @ MSG_TERMINATOR # s" "Suc (length b) < BUF_SIZE"
    "BUF_SIZE \<le> Suc (length (reqBuf p))"
    using assms b by (simp_all add: server_ok_def ARRAY_SIZE_def)
  obtain es where rd: "readAppMsg BUF_SIZE (reqBuf p) (rq c)
      = (Len (int (Suc (length b))), splice (reqBuf p) 0 m, es)"
    and es: "payload es = s" "after es = after (rq c)"
    using readAppMsg_message [OF pre(1) b(2) pre(2,3)] b(1) by metis
  let ?c1 = "c\<lparr>rq := es\<rparr>" and ?p1 = "p\<lparr>reqBuf := splice (reqBuf p) 0 m\<rparr>"
  have "length m \<le> length (reqBuf p)"
    using assms(1,5) by (simp add: server_ok_def ARRAY_SIZE_def)
  then have ok: "server_ok ?p1" using assms(1) by (simp add: server_ok_def)
  have tk: "take (length m) (reqBuf ?p1) = m" using take_splice_0 by simp
  obtain q p' where st: "serve_msg ''servChild'' (length m) ?c1 ?p1
      = (Returns, ?c1\<lparr>wq := q, sent := sent c @ opt_text r\<rparr>, p')"
    and q: "set q \<subseteq> set (wq c)" "server_ok p'"
    using serve_msg_reply [OF ok, of "length m" ?c1 r "''servChild''"] tk assms
    by (auto simp: all_writes_def ARRAY_SIZE_def)
  have "servChild c p = servChild (?c1\<lparr>wq := q, sent := sent c @ opt_text r\<rparr>) p'"
    using rd st b by (subst servChild.simps) (simp add: Let_def nat_add_distrib)
  then show thesis
    using q es assms(2) by (intro that [of "?c1\<lparr>wq := q, sent := sent c @ opt_text r\<rparr>" p'])
      (auto simp: all_writes_def)
qed

lemma servChild_messages:
  assumes "server_ok p" and "all_writes c" and "payload (rq c) = concat ms @ s"
    and "\<forall>m \<in> set ms. is_msg m \<and> length m < BUF_SIZE" and "replies ms = Inr t"
  obtains c' p' where "servChild c p = servChild c' p'" "payload (rq c') = s"
    "after (rq c') = after (rq c)" "sent c' = sent c @ t" "server_ok p'" "all_writes c'"
  using assms
proof (induction ms arbitrary: c p t thesis)
  case Nil
  then show ?case by auto
next
  case (Cons m ms)
  then obtain r u where r: "reply m = Inr r" "replies ms = Inr u" "t = opt_text r @ u"
    by (auto simp: replies_Cons_Inr simp del: replies.simps)
  have pl: "payload (rq c) = m @ (concat ms @ s)" using Cons.prems(4) by simp
  obtain c1 p1 where one: "servChild c p = servChild c1 p1" "payload (rq c1) = concat ms @ s"
    "after (rq c1) = after (rq c)" "sent c1 = sent c @ opt_text r" "server_ok p1" "all_writes c1"
    using servChild_step [OF Cons.prems(2,3) pl _ _ r(1)] Cons.prems(5) by auto
  obtain c2 p2 where "servChild c1 p1 = servChild c2 p2" "payload (rq c2) = s"
    "after (rq c2) = after (rq c1)" "sent c2 = sent c1 @ u" "server_ok p2" "all_writes c2"
    using Cons.IH [OF _ one(5,6,2) _ r(2)] Cons.prems(5) by auto
  then show ?case using one r(3) by (intro Cons.prems(1)) auto
qed

lemma servChild_eof:
  assumes "payload (rq c) = []" and "after (rq c) = Fin # es2"
  shows "servChild c p = (Returns, c\<lparr>rq := Fin # es2\<rparr>, p)"
  using readAppMsg_eof [OF assms, of BUF_SIZE "reqBuf p"]
  by (subst servChild.simps) (simp add: BUF_SIZE_def)

lemma servChild_waits:
  assumes "payload (rq c) = []" and "after (rq c) = []"
  shows "servChild c p = (Blocks, c\<lparr>rq := []\<rparr>, p)"
  using readAppMsg_wait [OF assms, of BUF_SIZE "reqBuf p"]
  by (subst servChild.simps) (simp add: BUF_SIZE_def)


section \<open>Connections\<close>

text \<open>
  An accepted connection: the stream, what \<^verbatim>\<open>getpeername\<close> and \<^verbatim>\<open>getsockname\<close> give for it, and
  what \<^verbatim>\<open>close\<close> will answer.  \<open>netenv\<close> holds the answers of the name service and of
  \<^verbatim>\<open>gethostname\<close>.
\<close>

record incoming =
  link :: conn
  peer :: "sockaddr_in option"
  locl :: "sockaddr_in option"
  closes :: "errno + unit"

record netenv =
  host_of :: "8 word \<times> 8 word \<times> 8 word \<times> 8 word \<Rightarrow> string option"
  host_name :: "string option"

text \<open>
  \<^verbatim>\<open>doServer\<close> of version 2: the endless loop, over the script of the connections that come.
  The result holds the final state of every connection that was served, in order.
\<close>

function doServer_v2 ::
    "netenv \<Rightarrow> (errno + incoming) list \<Rightarrow> 'a server_scheme \<Rightarrow> stop \<times> conn list \<times> 'a server_scheme"
where
  "doServer_v2 env acc p =
     proceed [] (Accept acc p) (\<lambda>(i, rest) p1.
     and_then [] (dumpLocalSockAddr (locl i) (host_name env) p1) (\<lambda>p2.
     and_then [] (dumpPeerSockAddr (peer i) (host_of env) p2) (\<lambda>p3.
       (case servChild (link i) p3 of
          (s, c, p4) \<Rightarrow>
            and_then [c] (s, p4) (\<lambda>p4.
            proceed [c] (Close (closes i) p4) (\<lambda>_ p5.
              (case doServer_v2 env rest p5 of (s, cs, p6) \<Rightarrow> (s, c # cs, p6))))))))"
  by pat_completeness auto
termination
  by (relation "measure (\<lambda>(env, acc, p). length acc)") (auto dest: Accept_shorter)

declare doServer_v2.simps [simp del]

section \<open>Version 1: a read is a message\<close>

text \<open>
  The read loop of \<^verbatim>\<open>main\<close> of \<^verbatim>\<open>netcalc_srv.c\<close>.  It also ends when a read fails.
\<close>

function serve_v1 :: "conn \<Rightarrow> 'a server_scheme \<Rightarrow> stop \<times> conn \<times> 'a server_scheme" where
  "serve_v1 c p =
     (case sys_read BUF_SIZE (rq c) of
        (Got s, es) \<Rightarrow>
          (case store (reqBuf p) 0 s of
             Inl f \<Rightarrow> (Undef f, c\<lparr>rq := es\<rparr>, p)
           | Inr buf \<Rightarrow>
               (case serve_msg ''main'' (length s) (c\<lparr>rq := es\<rparr>) (p\<lparr>reqBuf := buf\<rparr>) of
                  (Returns, c2, p2) \<Rightarrow> serve_v1 c2 p2
                | (s, c2, p2) \<Rightarrow> (s, c2, p2)))
      | (RdWait, es) \<Rightarrow> (Blocks, c\<lparr>rq := es\<rparr>, p)
      | (_, es) \<Rightarrow> (Returns, c\<lparr>rq := es\<rparr>, p))"
  by pat_completeness auto
termination
  by (relation "measure (\<lambda>(c, p). ev_size (rq c))")
    (auto simp: BUF_SIZE_def dest!: serve_msg_rq [OF sym]
      dest: sys_read_size_less [OF sym])

declare serve_v1.simps [simp del]

function accept_v1 ::
    "(errno + incoming) list \<Rightarrow> 'a server_scheme \<Rightarrow> stop \<times> conn list \<times> 'a server_scheme" where
  "accept_v1 acc p =
     proceed [] (Accept acc p) (\<lambda>(i, rest) p1.
       (case serve_v1 (link i) p1 of
          (s, c, p2) \<Rightarrow>
            and_then [c] (s, p2) (\<lambda>p2.
            proceed [c] (Close (closes i) p2) (\<lambda>_ p3.
              (case accept_v1 rest p3 of (s, cs, p4) \<Rightarrow> (s, c # cs, p4))))))"
  by pat_completeness auto
termination
  by (relation "measure (\<lambda>(acc, p). length acc)") (auto dest: Accept_shorter)

declare accept_v1.simps [simp del]

section \<open>The main functions\<close>

text \<open>
  What the kernel answers while a server sets itself up.  \<^verbatim>\<open>err_quit("Usage: %s")\<close> has a
  conversion without an argument, which is undefined.
\<close>

definition LISTENQ :: int where "LISTENQ = 1024"

record kernel =
  k_socket :: "errno + int"
  k_bind :: "errno + unit"
  k_listen :: "int \<Rightarrow> errno + unit"
  k_listenq :: "string option"
  k_sockname :: "sockaddr_in option"
  k_close :: "errno + unit"

definition main_v1 ::
    "int \<Rightarrow> kernel \<Rightarrow> (errno + incoming) list \<Rightarrow> 'a server_scheme
     \<Rightarrow> stop \<times> conn list \<times> 'a server_scheme" where
  "main_v1 argc k acc p =
     (if argc \<noteq> 1 then (Undef MissingArgument, [], p)
      else proceed [] (Socket (k_socket k) p) (\<lambda>listenFd p1.
           proceed [] (Bind (k_bind k) p1) (\<lambda>_ p2.
           proceed [] (Listen (k_listen k) (k_listenq k) LISTENQ p2) (\<lambda>_ p3.
             accept_v1 acc p3))))"

text \<open>
  \<^verbatim>\<open>main\<close> of \<^verbatim>\<open>netcalc_srv_main.c\<close>, which versions 2 to 5 share; \<^verbatim>\<open>doServer\<close> is that of the
  version it is linked with and never returns, so the last \<^verbatim>\<open>Close\<close> is not reached.
\<close>

definition srv_main ::
    "int \<Rightarrow> kernel \<Rightarrow> netenv \<Rightarrow> ('p proc_scheme \<Rightarrow> stop \<times> 'r list \<times> 'p proc_scheme)
     \<Rightarrow> 'p proc_scheme \<Rightarrow> stop \<times> 'r list \<times> 'p proc_scheme" where
  "srv_main argc k env doServer p =
     (if argc \<noteq> 1 then (Undef MissingArgument, [], p)
      else proceed [] (Socket (k_socket k) p) (\<lambda>listenFd p1.
           proceed [] (Bind (k_bind k) p1) (\<lambda>_ p2.
           and_then [] (dumpLocalSockAddr (k_sockname k) (host_name env) p2) (\<lambda>p3.
           proceed [] (Listen (k_listen k) (k_listenq k) LISTENQ p3) (\<lambda>_ p4.
             (case doServer p4 of
                (s, r, p5) \<Rightarrow>
                  and_then r (s, p5) (\<lambda>p5.
                  proceed r (Close (k_close k) p5) (\<lambda>_ p6. (Returns, r, p6)))))))))"

section \<open>The iterative servers against the protocol\<close>

text \<open>
  A session that is served to its end: complete messages that fit, all with a defined reply,
  then end of file.
\<close>

definition session_ok :: "conn \<Rightarrow> string \<Rightarrow> bool" where
  "session_ok c t \<longleftrightarrow> all_writes c
     \<and> (case frames (payload (rq c)) of (ms, r) \<Rightarrow>
          r = [] \<and> (\<forall>m \<in> set ms. length m < BUF_SIZE) \<and> replies ms = Inr t)
     \<and> (case after (rq c) of Fin # _ \<Rightarrow> True | _ \<Rightarrow> False)"

lemma servChild_session:
  assumes "session_ok c t" and "server_ok p"
  obtains c' p' where "servChild c p = (Returns, c', p')" "sent c' = sent c @ t" "server_ok p'"
proof -
  obtain ms where ms: "frames (payload (rq c)) = (ms, [])" "\<forall>m \<in> set ms. length m < BUF_SIZE"
    "replies ms = Inr t" and w: "all_writes c"
    using assms(1) by (auto simp: session_ok_def split: prod.splits)
  obtain es2 where a: "after (rq c) = Fin # es2"
    using assms(1) by (auto simp: session_ok_def split: list.splits rd_event.splits prod.splits)
  have pl: "payload (rq c) = concat ms @ []" and m: "\<forall>m \<in> set ms. is_msg m \<and> length m < BUF_SIZE"
    using frames_sound [OF ms(1)] ms(2) by auto
  obtain c1 p1 where "servChild c p = servChild c1 p1" "payload (rq c1) = []"
    "after (rq c1) = after (rq c)" "sent c1 = sent c @ t" "server_ok p1"
    using servChild_messages [OF assms(2) w pl m ms(3)] by blast
  moreover from this a have "servChild c1 p1 = (Returns, c1\<lparr>rq := Fin # es2\<rparr>, p1)"
    by (intro servChild_eof) simp_all
  ultimately show thesis by (intro that [of "c1\<lparr>rq := Fin # es2\<rparr>" p1]) auto
qed

text \<open>The connections of an accept script, in order.\<close>

definition connections :: "(errno + incoming) list \<Rightarrow> incoming list" where
  "connections acc = concat (map (\<lambda>r. case r of Inl _ \<Rightarrow> [] | Inr i \<Rightarrow> [i]) acc)"

definition visit_ok :: "incoming \<Rightarrow> string \<Rightarrow> bool" where
  "visit_ok i t \<longleftrightarrow> session_ok (link i) t \<and> sent (link i) = [] \<and> peer i \<noteq> None \<and> locl i \<noteq> None
     \<and> closes i = Inr ()"

lemma server_ok_frame [simp]:
  "server_ok (p\<lparr>errnum := e\<rparr>) = server_ok p" "server_ok (printf t p) = server_ok p"
  by (simp_all add: server_ok_def printf_def)

lemma doServer_v2_visits:
  assumes "server_ok p" and "host_name env \<noteq> None"
    and "\<forall>e. Inl e \<in> set acc \<longrightarrow> e = EPROTO \<or> e = ECONNABORTED"
    and "list_all2 visit_ok (connections acc) ts"
  shows "\<exists>cs p'. doServer_v2 env acc p = (Blocks, cs, p') \<and> map sent cs = ts"
  using assms
proof (induction acc arbitrary: p ts)
  case Nil
  then show ?case by (subst doServer_v2.simps) (simp add: connections_def)
next
  case (Cons r acc)
  show ?case
  proof (cases r)
    case (Inl e)
    then have e: "e = EPROTO \<or> e = ECONNABORTED" using Cons.prems(3) by auto
    have "doServer_v2 env (r # acc) p = doServer_v2 env acc (p\<lparr>errnum := e\<rparr>)"
      using Inl e by (subst (1 2) doServer_v2.simps) simp
    then show ?thesis
      using Cons.IH [of "p\<lparr>errnum := e\<rparr>" ts] Cons.prems Inl by (simp add: connections_def)
  next
    case (Inr i)
    then obtain t ts' where ts: "ts = t # ts'" "visit_ok i t"
      "list_all2 visit_ok (connections acc) ts'"
      using Cons.prems(4) by (auto simp: connections_def list_all2_Cons1)
    then obtain a b h where i: "peer i = Some a" "locl i = Some b" "host_name env = Some h"
      "closes i = Inr ()" "session_ok (link i) t" "sent (link i) = []"
      using Cons.prems(2) by (auto simp: visit_ok_def)
    define p3 where "p3 = printf (dumpHostAndAddr (host_of env) ''Peer'' a)
      (printf (dumpAddr ''Local'' h b) p)"
    have "server_ok p3" using Cons.prems(1) by (simp add: p3_def)
    from servChild_session [OF i(5) this] obtain c p4 where
      s: "servChild (link i) p3 = (Returns, c, p4)" "sent c = t" "server_ok p4"
      using i(6) by auto
    obtain cs p' where rest: "doServer_v2 env acc p4 = (Blocks, cs, p')" "map sent cs = ts'"
      using Cons.IH [OF s(3) Cons.prems(2) _ ts(3)] Cons.prems(3) by auto
    have "doServer_v2 env (r # acc) p = (Blocks, c # cs, p')"
      using Inr i s(1) rest(1)
      by (subst doServer_v2.simps)
        (simp add: dumpLocalSockAddr_def dumpPeerSockAddr_def Close_def p3_def)
    then show ?thesis using rest(2) s(2) ts(1) by simp
  qed
qed

text \<open>Version 1 answers every segment as if it were a message.\<close>

lemma serve_v1_segments:
  assumes "server_ok p" and "all_writes c" and "rq c = map Seg ss @ [Fin]"
    and "\<forall>s \<in> set ss. s \<noteq> [] \<and> length s \<le> BUF_SIZE" and "replies ss = Inr t"
  shows "\<exists>c' p'. serve_v1 c p = (Returns, c', p') \<and> sent c' = sent c @ t \<and> server_ok p'"
  using assms
proof (induction ss arbitrary: c p t)
  case Nil
  then show ?case by (subst serve_v1.simps) simp
next
  case (Cons s ss)
  then obtain r u where r: "reply s = Inr r" "replies ss = Inr u" "t = opt_text r @ u"
    by (auto simp: replies_Cons_Inr simp del: replies.simps)
  let ?es = "map Seg ss @ [Fin]" and ?buf = "splice (reqBuf p) 0 s"
  let ?c1 = "c\<lparr>rq := ?es\<rparr>" and ?p1 = "p\<lparr>reqBuf := ?buf\<rparr>"
  have s: "s \<noteq> []" "length s \<le> BUF_SIZE" using Cons.prems(4) by auto
  have rd: "sys_read BUF_SIZE (rq c) = (Got s, ?es)"
    using Cons.prems(3) sys_read_Seg [OF s] by simp
  have fit: "length s \<le> length (reqBuf p)"
    using Cons.prems(1) s(2) by (simp add: server_ok_def ARRAY_SIZE_def)
  then have st: "store (reqBuf p) 0 s = Inr ?buf" by (simp add: store_def)
  have ok: "server_ok ?p1" using Cons.prems(1) fit by (simp add: server_ok_def)
  have tk: "take (length s) (reqBuf ?p1) = s" using take_splice_0 by simp
  obtain q p' where sv: "serve_msg ''main'' (length s) ?c1 ?p1
      = (Returns, ?c1\<lparr>wq := q, sent := sent c @ opt_text r\<rparr>, p')"
    and q: "set q \<subseteq> set (wq c)" "server_ok p'"
    using serve_msg_reply [OF ok, of "length s" ?c1 r "''main''"] tk Cons.prems(2) s(2) r(1)
    by (auto simp: all_writes_def ARRAY_SIZE_def)
  let ?c2 = "?c1\<lparr>wq := q, sent := sent c @ opt_text r\<rparr>"
  have w: "all_writes ?c2" using q(1) Cons.prems(2) by (auto simp: all_writes_def)
  have "serve_v1 c p = serve_v1 ?c2 p'"
    using rd st sv by (subst serve_v1.simps) simp
  moreover obtain c3 p3 where "serve_v1 ?c2 p' = (Returns, c3, p3)" "sent c3 = sent ?c2 @ u"
    "server_ok p3"
    using Cons.IH [OF q(2) w _ _ r(2)] Cons.prems(4) by auto
  ultimately show ?case using r(3) by simp
qed

text \<open>
  Version 2 when the stream ends inside a message: the last byte of what is served is whatever
  the buffer held there.
\<close>

lemma servChild_truncated:
  assumes "server_ok p" and "payload (rq c) = r" and "r \<noteq> []" and "MSG_TERMINATOR \<notin> set r"
    and "after (rq c) = Fin # es2" and "Suc (length r) < BUF_SIZE" and "all_writes c"
    and "reply (r @ [reqBuf p ! length r]) = Inr a"
  obtains c' p' where "servChild c p = (Returns, c', p')" "sent c' = sent c @ opt_text a"
proof -
  let ?buf = "splice (reqBuf p) 0 r"
  let ?c1 = "c\<lparr>rq := Fin # es2\<rparr>" and ?p1 = "p\<lparr>reqBuf := ?buf\<rparr>"
  have len: "Suc (length r) \<le> length (reqBuf p)"
    using assms(1,6) by (simp add: server_ok_def ARRAY_SIZE_def)
  have rd: "readAppMsg BUF_SIZE (reqBuf p) (rq c) = (Len (int (Suc (length r))), ?buf, Fin # es2)"
    using readAppMsg_truncated [of "rq c" es2 BUF_SIZE "reqBuf p"] assms len
    by (simp add: server_ok_def ARRAY_SIZE_def)
  have ok: "server_ok ?p1" using assms(1) len by (simp add: server_ok_def)
  have tk: "take (Suc (length r)) (reqBuf ?p1) = r @ [reqBuf p ! length r]"
    using len by (simp add: splice_def take_Suc_conv_app_nth flip: Cons_nth_drop_Suc)
  have pre: "Suc (length r) \<le> ARRAY_SIZE" "all_writes ?c1"
    "reply (take (Suc (length r)) (reqBuf ?p1)) = Inr a"
    using tk assms(6-8) by (simp_all add: all_writes_def ARRAY_SIZE_def)
  obtain q p2 where sv: "serve_msg ''servChild'' (Suc (length r)) ?c1 ?p1
      = (Returns, ?c1\<lparr>wq := q, sent := sent ?c1 @ opt_text a\<rparr>, p2)"
    using serve_msg_reply [OF ok pre, of "''servChild''"] by blast
  let ?c2 = "?c1\<lparr>wq := q, sent := sent c @ opt_text a\<rparr>"
  have "servChild c p = servChild ?c2 p2"
    using rd sv by (subst servChild.simps) (simp add: Let_def nat_add_distrib)
  also have "\<dots> = (Returns, ?c2\<lparr>rq := Fin # es2\<rparr>, p2)"
    by (rule servChild_eof) simp_all
  finally show thesis by (intro that) auto
qed

section \<open>Properties\<close>

text \<open>C5: \<^verbatim>\<open>servChild\<close> serves a session: for a stream of complete messages, however it is cut into
  segments, it sends exactly the replies of the protocol in order and returns at end of file,
  whatever an earlier client left in the buffers.\<close>

theorem servChild_serves_session:
  assumes "session_ok c t" and "server_ok p"
  shows "\<exists>c' p'. servChild c p = (Returns, c', p') \<and> sent c' = sent c @ t \<and> server_ok p'"
  using servChild_session [OF assms] by blast

theorem servChild_serves_session_witness:
  "\<exists>c' p'. servChild \<lparr>rq = [Seg ''Zx'', Seg ''=Q'', Seg ''='', Fin], wq = [], sent = []\<rparr> init_server = (Returns, c', p')
     \<and> sent c' = [] @ ''X='' \<and> server_ok p'"
proof -
  have "session_ok \<lparr>rq = [Seg ''Zx'', Seg ''=Q'', Seg ''='', Fin], wq = [], sent = []\<rparr> ''X=''"
    by (simp add: session_ok_def all_writes_def frames_def BUF_SIZE_def reply_def well_formed_def
        answer_to_def add_format_def sub_format_def cstr_def sscanf.simps scan_int_def scan_nat_def scan_digits.simps)
  then show ?thesis
    using servChild_serves_session [of _ "''X=''" init_server]
    by (fastforce simp: server_ok_def init_server_def)
qed

text \<open>C6: The server of version 2 serves every client completely: for any sequence of
  connections, with aborted ones among them, each client gets exactly the replies to its own
  messages, in order, and the server goes on to wait for the next connection.\<close>

theorem doServer_v2_serves_every_client:
  assumes "server_ok p" and "host_name env \<noteq> None"
    and "\<forall>e. Inl e \<in> set acc \<longrightarrow> e = EPROTO \<or> e = ECONNABORTED"
    and "list_all2 visit_ok (connections acc) ts"
  shows "\<exists>cs p'. doServer_v2 env acc p = (Blocks, cs, p') \<and> map sent cs = ts"
  using assms by (rule doServer_v2_visits)

theorem doServer_v2_serves_every_client_witness:
  "\<exists>cs p'. doServer_v2 \<lparr>host_of = (\<lambda>_. None), host_name = Some ''srv''\<rparr>
       [Inl ECONNABORTED,
        Inr \<lparr>link = \<lparr>rq = [Seg ''Z='', Fin], wq = [], sent = []\<rparr>,
             peer = Some \<lparr>sin_addr = (10, 0, 0, 1), sin_port = 99\<rparr>,
             locl = Some \<lparr>sin_addr = (10, 0, 0, 2), sin_port = 21597\<rparr>, closes = Inr ()\<rparr>]
       init_server = (Blocks, cs, p') \<and> map sent cs = [[]]"
  by (rule doServer_v2_serves_every_client)
    (auto simp: server_ok_def init_server_def connections_def visit_ok_def session_ok_def all_writes_def
      frames_def BUF_SIZE_def reply_def well_formed_def)

text \<open>Version 1 takes every segment for a message: what it sends is the reply to each segment by
  itself, so its answers depend on how the network cuts the stream.\<close>

theorem serve_v1_answers_segments:
  assumes "server_ok p" and "all_writes c" and "rq c = map Seg ss @ [Fin]"
    and "\<forall>s \<in> set ss. s \<noteq> [] \<and> length s \<le> BUF_SIZE" and "replies ss = Inr t"
  shows "\<exists>c' p'. serve_v1 c p = (Returns, c', p') \<and> sent c' = sent c @ t \<and> server_ok p'"
  using assms by (rule serve_v1_segments)

theorem serve_v1_answers_segments_witness:
  "\<exists>c' p'. serve_v1 \<lparr>rq = map Seg [''Qx'', ''=''] @ [Fin], wq = [], sent = []\<rparr> init_server = (Returns, c', p')
     \<and> sent c' = [] @ [] \<and> server_ok p'"
  using serve_v1_answers_segments [of init_server
      "\<lparr>rq = map Seg [''Qx'', ''=''] @ [Fin], wq = [], sent = []\<rparr>" "[''Qx'', ''='']" "[]"]
  by (simp add: server_ok_def init_server_def all_writes_def BUF_SIZE_def reply_def well_formed_def)

lemma reply_Q9plus9: "reply ''Q9+9='' = Inr (Some ''A18='')"
  using reply_question [of "[]" "[]" "[]" "[]" "Add 9 9"]
  by (simp add: blank_def no_digit_first_def in_range_def int_ok_def INT_MIN_def INT_MAX_def
      question_text_def show_int_def show_nat.simps digit_chars)

text \<open>A message that the client did not finish can be answered: after a rejected message the
  buffer still holds its terminator, and the byte that \<^verbatim>\<open>readAppMsg\<close> counts too many completes the
  truncated message.  Here \<^verbatim>\<open>Q9+9\<close> is answered with 18 although the client never sent the
  terminator.\<close>

theorem truncated_question_answered:
  "\<exists>c' p'. servChild \<lparr>rq = [Seg ''Z1+2=Q9+9'', Fin], wq = [], sent = []\<rparr> init_server = (Returns, c', p')
     \<and> sent c' = ''A18=''"
proof -
  let ?c = "\<lparr>rq = [Seg ''Z1+2=Q9+9'', Fin], wq = [], sent = []\<rparr>"
  obtain es where rd: "readAppMsg BUF_SIZE (reqBuf init_server) (rq ?c)
      = (Len 5, splice (reqBuf init_server) 0 ''Z1+2='', es)" "payload es = ''Q9+9''" "after es = [Fin]"
    using readAppMsg_message [of "rq ?c" "''Z1+2''" "''Q9+9''" BUF_SIZE "reqBuf init_server"]
    by (auto simp: BUF_SIZE_def init_server_def ARRAY_SIZE_def)
  define p1 where "p1 = init_server\<lparr>reqBuf := splice (reqBuf init_server) 0 ''Z1+2=''\<rparr>"
  define c1 where "c1 = ?c\<lparr>rq := es\<rparr>"
  have ok1: "server_ok p1"
    by (simp add: p1_def server_ok_def init_server_def ARRAY_SIZE_def BUF_SIZE_def)
  have b: "take 5 (reqBuf p1) = ''Z1+2=''" "reqBuf p1 ! 4 = CHR ''=''"
    by (simp_all add: p1_def splice_def)
  obtain t where t: "DUMP_BUF (debugFlag p1) (reqBuf p1) 5 = Inr t"
    using DUMP_BUF_fits [of 5 "reqBuf p1" "debugFlag p1"] ok1
    by (auto simp: server_ok_def ARRAY_SIZE_def BUF_SIZE_def)
  have dc: "doCalc (reqBuf p1) 5 (resBuf p1) (resultLen p1)
      = Inr (NO_SUCCESS, reqBuf p1, resBuf p1, resultLen p1)"
    using ok1 b(1) by (subst doCalc_eq_reply) (simp_all add: server_ok_def reply_def well_formed_def
        ARRAY_SIZE_def BUF_SIZE_def)
  define p2 where "p2 = printf (''!!servChild: doCalc failed'' @ nl) (printf t p1)"
  have "serve_msg ''servChild'' 5 c1 p1 = (Returns, c1, p2)"
    using t dc by (simp add: serve_msg_def p2_def printf_def Let_def)
  then have step: "servChild ?c init_server = servChild c1 p2"
    using rd(1) by (subst servChild.simps) (simp add: Let_def p1_def c1_def)
  have ok2: "server_ok p2" and b2: "reqBuf p2 ! 4 = CHR ''=''"
    using ok1 b(2) by (simp_all add: p2_def printf_def server_ok_def)
  have c: "payload (rq c1) = ''Q9+9''" "after (rq c1) = [Fin]" "all_writes c1" "sent c1 = []"
    using rd(2,3) by (simp_all add: c1_def all_writes_def)
  have "reply (''Q9+9'' @ [reqBuf p2 ! length ''Q9+9'']) = Inr (Some ''A18='')"
    using b2 reply_Q9plus9 by (simp add: eval_nat_numeral)
  from servChild_truncated [OF ok2 c(1) _ _ c(2) _ c(3) this] obtain c' p' where
    "servChild c1 p2 = (Returns, c', p')" "sent c' = sent c1 @ opt_text (Some ''A18='')"
    by (auto simp: BUF_SIZE_def)
  then show ?thesis using step c(4) by simp
qed

end
