(* ===== verification/Netcalc_Poll_Server.thy ===== *)
theory Netcalc_Poll_Server
  imports Netcalc_Server "HOL-Library.Multiset"
begin

unbundle bit_operations_syntax

text \<open>
  The server that multiplexes its clients (\<^verbatim>\<open>netcalc_srv_v4.c\<close>): the table of the descriptors
  given to \<^verbatim>\<open>poll\<close>, the two functions that maintain it, and the loop.
\<close>

section \<open>The client table\<close>

text \<open>
  \<^verbatim>\<open>struct pollfd\<close>, with \<^verbatim>\<open>short\<close> fields \<^verbatim>\<open>events\<close> and \<^verbatim>\<open>revents\<close>.
\<close>

record pollfd =
  pfd :: int
  events :: "16 word"
  revents :: "16 word"

definition POLLIN :: "16 word" where "POLLIN = 1"
definition POLLERR :: "16 word" where "POLLERR = 8"
definition OPEN_MAX :: nat where "OPEN_MAX = 8"

text \<open>
  The globals of the program.  \<open>fdtab\<close> is the descriptor table of the process as far as
  connections go, \<open>closed\<close> the connections it has closed; the two stand for the kernel's
  state and are changed by accepting, reading, writing and closing only.
\<close>

record server_v4 = server +
  clients :: "pollfd list"
  maxClient :: nat
  curClient :: int
  fdtab :: "int \<Rightarrow> conn option"
  closed :: "(int \<times> conn) list"

definition initClientInfo :: "int \<Rightarrow> 'a server_v4_scheme \<Rightarrow> 'a server_v4_scheme" where
  "initClientInfo sockFd p =
     (let cl0 = (clients p)[0 := (clients p ! 0)\<lparr>pfd := sockFd, events := POLLIN\<rparr>];
          cl1 = fold (\<lambda>i cl. cl[i := (cl ! i)\<lparr>pfd := - 1\<rparr>]) [1..<OPEN_MAX] cl0
      in p\<lparr>clients := cl1, maxClient := 0, curClient := 0\<rparr>)"

text \<open>The search for a free slot gives \<^verbatim>\<open>OPEN_MAX\<close> when there is none.\<close>

function free_slot :: "pollfd list \<Rightarrow> nat \<Rightarrow> nat" where
  "free_slot cl i =
     (if i < OPEN_MAX then (if pfd (cl ! i) < 0 then i else free_slot cl (Suc i)) else i)"
  by pat_completeness auto
termination
  by (relation "measure (\<lambda>(cl, i). OPEN_MAX - i)") auto

declare free_slot.simps [simp del]

text \<open>\<open>c\<close> is the connection behind the new descriptor.\<close>

definition addClient :: "int \<Rightarrow> conn \<Rightarrow> 'a server_v4_scheme \<Rightarrow> stop \<times> 'a server_v4_scheme" where
  "addClient sockFd c p =
     (let i = free_slot (clients p) 1 in
      if i = OPEN_MAX then err_quit ''Too many clients'' p
      else
        (let p1 = p\<lparr>clients := (clients p)[i := (clients p ! i)\<lparr>pfd := sockFd, events := POLLIN\<rparr>],
              maxClient := (if maxClient p < i then i else maxClient p),
              curClient := curClient p + 1, fdtab := (fdtab p)(sockFd \<mapsto> c)\<rparr>
         in (Returns,
             printf (''**addClient: sockFd '' @ show_int sockFd @ '' added to entry '' @ show_nat i
               @ '' (curClient '' @ show_int (curClient p1) @ '', maxClient '' @ show_nat (maxClient p1)
               @ '')'' @ nl) p1)))"

text \<open>\<open>cl\<close> is what the kernel answers to \<^verbatim>\<open>close\<close>, \<open>c\<close> the connection that is closed.\<close>

definition removeClient ::
    "errno + unit \<Rightarrow> int \<Rightarrow> conn \<Rightarrow> nat \<Rightarrow> 'a server_v4_scheme \<Rightarrow> stop \<times> 'a server_v4_scheme" where
  "removeClient cl sockFd c index p =
     (case Close cl p of
        Inl (s, p1) \<Rightarrow> (s, p1)
      | Inr (_, p1) \<Rightarrow>
          (let p2 = p1\<lparr>fdtab := (fdtab p1)(sockFd := None), closed := closed p1 @ [(sockFd, c)],
                clients := (clients p1)[index := (clients p1 ! index)\<lparr>pfd := - 1\<rparr>],
                curClient := curClient p1 - 1\<rparr>
           in (Returns,
               printf (''**removeClient: sockFd '' @ show_int sockFd @ '' removed from entry ''
                 @ show_nat index @ '' (curClient '' @ show_int (curClient p2) @ '', maxClient ''
                 @ show_nat (maxClient p2) @ '')'' @ nl) p2)))"

section \<open>The loop\<close>

text \<open>
  What is there at a descriptor: nothing, input or the end of the stream, an error.  \<^verbatim>\<open>poll\<close> reports input by
  the event it was asked for and an error by \<^verbatim>\<open>POLLERR\<close>, which it need not be asked for, in both cases
  perhaps with other bits; \<open>None\<close> stands for a report that comes later.
\<close>

datatype pending = Quiet | Input | Broken

fun pending_at :: "rd_event list \<Rightarrow> pending" where
  "pending_at [] = Quiet"
| "pending_at (Seg [] # es) = pending_at es"
| "pending_at (RdErr e # es) = Broken"
| "pending_at (e # es) = Input"

definition poll_word :: "16 word \<Rightarrow> pending \<Rightarrow> 16 word option \<Rightarrow> 16 word" where
  "poll_word ask d x = (case x of
       None \<Rightarrow> 0
     | Some b \<Rightarrow> (case d of Quiet \<Rightarrow> 0 | Input \<Rightarrow> ask OR b | Broken \<Rightarrow> POLLERR OR b))"

text \<open>A call that reports all there is.\<close>

definition full_report :: "(int \<Rightarrow> 16 word option) \<Rightarrow> bool" where
  "full_report w \<longleftrightarrow> (\<forall>f. w f \<noteq> None)"

definition v4_report ::
    "int \<Rightarrow> (int \<Rightarrow> 16 word option) \<Rightarrow> (errno + incoming) list \<Rightarrow> 'a server_v4_scheme \<Rightarrow> int \<Rightarrow> 16 word" where
  "v4_report listenFd w acc p f =
     poll_word POLLIN
       (if f = listenFd then (if acc = [] then Quiet else Input)
        else (case fdtab p f of None \<Rightarrow> Quiet | Some c \<Rightarrow> pending_at (rq c))) (w f)"

text \<open>
  What \<^verbatim>\<open>poll\<close> does with the first \<open>n\<close> entries: an entry without a descriptor gets no events,
  another what the kernel reports for the descriptor; the value is the number of entries with
  an event.
\<close>

definition poll_call :: "(int \<Rightarrow> 16 word) \<Rightarrow> nat \<Rightarrow> pollfd list \<Rightarrow> int \<times> pollfd list" where
  "poll_call ready n cl =
     (let front = map (\<lambda>e. e\<lparr>revents := (if pfd e < 0 then 0 else ready (pfd e))\<rparr>) (take n cl)
      in (int (length (filter (\<lambda>e. revents e \<noteq> 0) front)), front @ drop n cl))"

text \<open>The body for an entry whose descriptor has input.\<close>

definition v4_client ::
    "(int \<Rightarrow> errno + unit) \<Rightarrow> nat \<Rightarrow> int \<Rightarrow> 'a server_v4_scheme \<Rightarrow> stop \<times> 'a server_v4_scheme" where
  "v4_client cls i sockFd p =
     (case fdtab p sockFd of
        None \<Rightarrow> err_sys ''read error'' (p\<lparr>errnum := EBADF\<rparr>)
      | Some c \<Rightarrow>
          (case conn_read BUF_SIZE c of
             (RdFail e, c1) \<Rightarrow>
               (let p1 = p\<lparr>errnum := e, fdtab := (fdtab p)(sockFd \<mapsto> c1)\<rparr> in
                if e = ECONNRESET then removeClient (cls sockFd) sockFd c1 i p1
                else err_sys ''read error'' p1)
           | (RdWait, c1) \<Rightarrow> (Blocks, p)
           | (Eof, c1) \<Rightarrow> removeClient (cls sockFd) sockFd c1 i p
           | (Got d, c1) \<Rightarrow>
               (case store (reqBuf p) 0 d of
                  Inl f \<Rightarrow> (Undef f, p)
                | Inr buf \<Rightarrow>
                    (let p1 = printf (''**doServer: data from socket fd '' @ show_int sockFd @ nl)
                          (p\<lparr>reqBuf := buf\<rparr>)
                     in case serve_msg ''doServer'' (length d) c1 p1 of
                          (s, c2, p2) \<Rightarrow> (s, p2\<lparr>fdtab := (fdtab p2)(sockFd \<mapsto> c2)\<rparr>)))))"

lemma serve_msg_v4_frame:
  "serve_msg fn n c p = (s, c', p') \<Longrightarrow> clients p' = clients p \<and> maxClient p' = maxClient p
     \<and> curClient p' = curClient p \<and> fdtab p' = fdtab p \<and> closed p' = closed p"
  by (auto simp: serve_msg_def Let_def printf_def Write_def err_sys_def err_doit_def
      split: sum.splits if_splits prod.splits wr_result.splits)

lemma removeClient_maxClient:
  "removeClient cl fd c i p = (s, p') \<Longrightarrow> maxClient p' = maxClient p"
  by (auto simp: removeClient_def Close_def or_die_def err_sys_def err_doit_def printf_def Let_def
      split: sum.splits if_splits)

lemma v4_client_maxClient: "v4_client cls i fd p = (s, p') \<Longrightarrow> maxClient p' = maxClient p"
  by (auto simp: v4_client_def conn_read_def Let_def printf_def err_sys_def err_doit_def
      dest!: serve_msg_v4_frame removeClient_maxClient
      split: option.splits prod.splits rd_result.splits sum.splits if_splits)

text \<open>
  The loop over the entries, from the index \<open>i\<close> and with \<^verbatim>\<open>nready\<close> descriptors left.
\<close>

function v4_clients ::
    "(int \<Rightarrow> errno + unit) \<Rightarrow> nat \<Rightarrow> int \<Rightarrow> 'a server_v4_scheme \<Rightarrow> stop \<times> 'a server_v4_scheme" where
  "v4_clients cls i nready p =
     (if i \<le> maxClient p then
        (let sockFd = pfd (clients p ! i) in
         if sockFd < 0 then v4_clients cls (Suc i) nready p
         else if revents (clients p ! i) AND (POLLIN OR POLLERR) \<noteq> 0 then
           (case v4_client cls i sockFd p of
              (s, p1) \<Rightarrow>
                if s \<noteq> Returns then (s, p1)
                else if nready - 1 \<le> 0 then (Returns, p1)
                else v4_clients cls (Suc i) (nready - 1) p1)
         else v4_clients cls (Suc i) nready p)
      else (Returns, p))"
  by pat_completeness auto
termination
  by (relation "measure (\<lambda>(cls, i, nready, p). Suc (maxClient p) - i)")
    (auto dest!: v4_client_maxClient [OF sym])

declare v4_clients.simps [simp del]

text \<open>
  The number of the descriptor that \<^verbatim>\<open>accept\<close> gives: the lowest that is not in use.  Those up
  to the listening socket are in use: the standard streams and the socket itself.
\<close>

definition lowest_fd :: "int \<Rightarrow> (int \<Rightarrow> conn option) \<Rightarrow> int" where
  "lowest_fd listenFd tab =
     (case find (\<lambda>f. tab f = None) [listenFd + 1..listenFd + int OPEN_MAX] of
        Some f \<Rightarrow> f
      | None \<Rightarrow> listenFd + int OPEN_MAX + 1)"

text \<open>One round after \<^verbatim>\<open>Poll\<close>.\<close>

definition v4_round ::
    "netenv \<Rightarrow> (int \<Rightarrow> errno + unit) \<Rightarrow> int \<Rightarrow> int \<Rightarrow> (errno + incoming) list
     \<Rightarrow> 'a server_v4_scheme \<Rightarrow> stop \<times> (errno + incoming) list \<times> 'a server_v4_scheme" where
  "v4_round env cls listenFd nready acc p =
     (if revents (clients p ! 0) AND POLLIN \<noteq> 0 then
        proceed acc (Accept acc p) (\<lambda>(i, rest) p1.
          (let connFd = lowest_fd listenFd (fdtab p1) in
           and_then rest (dumpLocalSockAddr (locl i) (host_name env) p1) (\<lambda>p2.
           and_then rest (dumpPeerSockAddr (peer i) (host_of env) p2) (\<lambda>p3.
           and_then rest (addClient connFd (link i) p3) (\<lambda>p4.
             if nready - 1 \<le> 0 then (Returns, rest, p4)
             else (case v4_clients cls 1 (nready - 1) p4 of (s, p5) \<Rightarrow> (s, rest, p5)))))))
      else (case v4_clients cls 1 nready p of (s, p1) \<Rightarrow> (s, acc, p1)))"

text \<open>
  The endless loop, over the script of what the kernel reports in each call of \<^verbatim>\<open>poll\<close>.
\<close>

fun v4_loop ::
    "netenv \<Rightarrow> (int \<Rightarrow> errno + unit) \<Rightarrow> int \<Rightarrow> (errno + (int \<Rightarrow> 16 word option)) list
     \<Rightarrow> (errno + incoming) list \<Rightarrow> 'a server_v4_scheme
     \<Rightarrow> stop \<times> (errno + incoming) list \<times> 'a server_v4_scheme" where
  "v4_loop env cls listenFd [] acc p = (Blocks, acc, p)"
| "v4_loop env cls listenFd (ev # evs) acc p =
     proceed acc (Poll ev p) (\<lambda>w p0.
       (case poll_call (v4_report listenFd w acc p0) (maxClient p0 + 1) (clients p0) of
          (nready, cl) \<Rightarrow>
            (case v4_round env cls listenFd nready acc (p0\<lparr>clients := cl\<rparr>) of
               (s, acc1, p1) \<Rightarrow>
                 if s \<noteq> Returns then (s, acc1, p1) else v4_loop env cls listenFd evs acc1 p1)))"

definition doServer_v4 ::
    "netenv \<Rightarrow> (int \<Rightarrow> errno + unit) \<Rightarrow> (errno + (int \<Rightarrow> 16 word option)) list \<Rightarrow> (errno + incoming) list
     \<Rightarrow> int \<Rightarrow> 'a server_v4_scheme \<Rightarrow> stop \<times> (errno + incoming) list \<times> 'a server_v4_scheme" where
  "doServer_v4 env cls evs acc listenFd p =
     v4_loop env cls listenFd evs acc (initClientInfo listenFd p)"

section \<open>The table is consistent\<close>

text \<open>
  The slots in use, and the contract of the table: the slots in use lie below \<^verbatim>\<open>maxClient\<close>,
  \<^verbatim>\<open>curClient\<close> counts them, no descriptor is in two slots, and the open connections are
  exactly those in the table.
\<close>

definition active :: "int list \<Rightarrow> nat set" where
  "active fds = {i \<in> {1..<OPEN_MAX}. 0 \<le> fds ! i}"

definition slots_ok :: "int list \<Rightarrow> nat \<Rightarrow> int \<Rightarrow> (int \<Rightarrow> conn option) \<Rightarrow> bool" where
  "slots_ok fds mx cur tab \<longleftrightarrow> length fds = Suc OPEN_MAX \<and> mx < OPEN_MAX
     \<and> (\<forall>i \<in> active fds. i \<le> mx) \<and> cur = int (card (active fds))
     \<and> inj_on ((!) fds) (active fds) \<and> dom tab = (!) fds ` active fds"

lemma finite_active [simp]: "finite (active fds)"
  by (simp add: active_def)

lemma active_bound: "i \<in> active fds \<Longrightarrow> 1 \<le> i \<and> i < OPEN_MAX"
  by (simp add: active_def)

lemma slots_add:
  assumes "slots_ok fds mx cur tab" and "1 \<le> i" "i < OPEN_MAX" "i \<notin> active fds"
    and "0 \<le> fd" "fd \<notin> dom tab"
  shows "slots_ok (fds[i := fd]) (if mx < i then i else mx) (cur + 1) (tab(fd \<mapsto> c))"
proof -
  have len: "i < length fds" using assms by (simp add: slots_ok_def)
  have act: "active (fds[i := fd]) = insert i (active fds)"
    using assms(2,3,5) len by (auto simp: active_def nth_list_update)
  have same: "j \<in> active fds \<Longrightarrow> fds[i := fd] ! j = fds ! j" for j
    using assms(4) by (cases "j = i") simp_all
  have "inj_on ((!) (fds[i := fd])) (insert i (active fds))"
  proof (rule inj_on_insert [THEN iffD2], intro conjI)
    show "inj_on ((!) (fds[i := fd])) (active fds)"
      using assms(1) same by (simp add: slots_ok_def inj_on_def)
    show "fds[i := fd] ! i \<notin> (!) (fds[i := fd]) ` (active fds - {i})"
      using assms(1,6) same len by (auto simp: slots_ok_def)
  qed
  moreover have "(!) (fds[i := fd]) ` insert i (active fds) = insert fd ((!) fds ` active fds)"
    using same len by auto
  ultimately show ?thesis using assms act by (auto simp: slots_ok_def)
qed

lemma slots_remove:
  assumes "slots_ok fds mx cur tab" and "i \<in> active fds"
  shows "slots_ok (fds[i := - 1]) mx (cur - 1) (tab(fds ! i := None))"
proof -
  have len: "i < length fds" using assms active_bound [OF assms(2)] by (simp add: slots_ok_def)
  have act: "active (fds[i := - 1]) = active fds - {i}"
    using len by (auto simp: active_def nth_list_update)
  have same: "j \<in> active fds \<Longrightarrow> j \<noteq> i \<Longrightarrow> fds[i := - 1] ! j = fds ! j" for j by simp
  have inj: "inj_on ((!) fds) (active fds)" using assms(1) by (simp add: slots_ok_def)
  have "inj_on ((!) (fds[i := - 1])) (active fds - {i})"
    using inj same by (simp add: inj_on_def)
  moreover have "(!) (fds[i := - 1]) ` (active fds - {i}) = (!) fds ` active fds - {fds ! i}"
    using same inj_on_image_set_diff [OF inj, of "active fds" "{i}"] assms(2) by auto
  moreover have "card (active fds - {i}) = card (active fds) - 1" "0 < card (active fds)"
    using assms(2) by (auto simp: card_gt_0_iff)
  ultimately show ?thesis using assms act by (auto simp: slots_ok_def)
qed

lemma free_slot_spec:
  assumes "i \<le> OPEN_MAX"
  shows "i \<le> free_slot cl i \<and> free_slot cl i \<le> OPEN_MAX
    \<and> (free_slot cl i < OPEN_MAX \<longrightarrow> pfd (cl ! free_slot cl i) < 0)
    \<and> (\<forall>k. i \<le> k \<and> k < free_slot cl i \<longrightarrow> 0 \<le> pfd (cl ! k))"
  using assms
proof (induction cl i rule: free_slot.induct)
  case (1 cl i)
  show ?case
  proof (cases "i < OPEN_MAX \<and> \<not> pfd (cl ! i) < 0")
    case True
    then have e: "free_slot cl i = free_slot cl (Suc i)" by (subst free_slot.simps) simp
    have "0 \<le> pfd (cl ! k)" if "i \<le> k" "k < free_slot cl (Suc i)" for k
      using 1 True that by (cases "k = i") (auto simp: Suc_le_eq)
    with 1 True show ?thesis by (auto simp: e Suc_le_eq)
  next
    case False
    then have "free_slot cl i = i" by (subst free_slot.simps) auto
    with False 1(2) show ?thesis by auto
  qed
qed

lemma poll_call_pfd: "map pfd (snd (poll_call ready n cl)) = map pfd cl"
proof -
  have "map pfd (snd (poll_call ready n cl)) = map pfd (take n cl @ drop n cl)"
    by (simp only: poll_call_def Let_def snd_conv map_append) simp
  then show ?thesis by simp
qed

section \<open>The clients are served\<close>

text \<open>
  A connection of whole segments that then ends, is reset or stays open in silence: what the client is
  still owed, and what it will have been sent in the end.  \<open>None\<close> for any other connection.
\<close>

fun segs :: "rd_event list \<Rightarrow> string list option" where
  "segs [] = Some []"
| "segs [Fin] = Some []"
| "segs [RdErr e] = (if e = ECONNRESET then Some [] else None)"
| "segs (Seg s # es) =
     (if s \<noteq> [] \<and> length s \<le> BUF_SIZE then map_option ((#) s) (segs es) else None)"
| "segs _ = None"

definition promised :: "conn \<Rightarrow> string option" where
  "promised c = (case segs (rq c) of
       None \<Rightarrow> None
     | Some ss \<Rightarrow> (case replies ss of Inl _ \<Rightarrow> None | Inr u \<Rightarrow> Some (sent c @ u)))"

lemma segs_cases:
  assumes "segs es = Some ss"
  obtains "es = []" "ss = []"
  | "es = [Fin] \<or> es = [RdErr ECONNRESET]" "ss = []"
  | s es' ss' where "es = Seg s # es'" "ss = s # ss'" "segs es' = Some ss'" "s \<noteq> []"
      "length s \<le> BUF_SIZE"
  using assms by (cases es rule: segs.cases) (auto split: if_splits)

definition fds_of :: "'a server_v4_scheme \<Rightarrow> int list" where
  "fds_of p = map pfd (clients p)"

text \<open>
  The invariant of the loop.  \<open>promises\<close> collects what is promised to all clients so far, open
  and closed: serving never changes it, and a closed connection has got what it was promised.
\<close>

definition v4_inv :: "'a server_v4_scheme \<Rightarrow> bool" where
  "v4_inv p \<longleftrightarrow> server_ok p
     \<and> slots_ok (fds_of p) (maxClient p) (curClient p) (fdtab p)
     \<and> (\<forall>fd c. fdtab p fd = Some c \<longrightarrow> all_writes c \<and> promised c \<noteq> None)
     \<and> (\<forall>(fd, c) \<in> set (closed p). promised c = Some (sent c))"

definition promises :: "'a server_v4_scheme \<Rightarrow> string option multiset" where
  "promises p = image_mset (\<lambda>fd. promised (the (fdtab p fd))) (mset_set (dom (fdtab p)))
     + mset (map (promised \<circ> snd) (closed p))"

lemma fds_of_nth: "i < length (clients p) \<Longrightarrow> fds_of p ! i = pfd (clients p ! i)"
  by (simp add: fds_of_def)

lemma v4_inv_slots: "v4_inv p \<Longrightarrow> slots_ok (fds_of p) (maxClient p) (curClient p) (fdtab p)"
  by (simp add: v4_inv_def)

lemma v4_inv_length: "v4_inv p \<Longrightarrow> length (clients p) = Suc OPEN_MAX"
  by (simp add: v4_inv_def slots_ok_def fds_of_def)

lemma slots_ok_finite: "slots_ok fds mx cur tab \<Longrightarrow> finite (dom tab)"
  by (simp add: slots_ok_def)

lemma v4_inv_finite: "v4_inv p \<Longrightarrow> finite (dom (fdtab p))"
  by (blast dest: v4_inv_slots slots_ok_finite)

text \<open>Fields the invariant does not read.\<close>

lemma v4_inv_frame [simp]:
  "v4_inv (printf t p) = v4_inv p" "v4_inv (p\<lparr>errnum := e\<rparr>) = v4_inv p"
  "promises (printf t p) = promises p" "promises (p\<lparr>errnum := e\<rparr>) = promises p"
  by (simp_all add: v4_inv_def promises_def fds_of_def server_ok_def printf_def)

lemma promises_cong:
  "fdtab p' = fdtab p \<Longrightarrow> closed p' = closed p \<Longrightarrow> promises p' = promises p"
  by (simp add: promises_def)

lemma promises_insert:
  assumes "finite (dom tab)" and "fd \<notin> dom tab"
  shows "image_mset (\<lambda>f. promised (the ((tab(fd \<mapsto> c)) f))) (mset_set (dom (tab(fd \<mapsto> c))))
    = add_mset (promised c) (image_mset (\<lambda>f. promised (the (tab f))) (mset_set (dom tab)))"
proof -
  have "image_mset (\<lambda>f. promised (the ((tab(fd \<mapsto> c)) f))) (mset_set (dom tab))
      = image_mset (\<lambda>f. promised (the (tab f))) (mset_set (dom tab))"
    using assms by (intro image_mset_cong) auto
  then show ?thesis using assms by simp
qed

text \<open>A connection taken out of the table and put back, or not.\<close>

lemma promises_split:
  assumes "finite (dom tab)" and "tab fd = Some c"
  shows "image_mset (\<lambda>f. promised (the (tab f))) (mset_set (dom tab))
    = add_mset (promised c)
        (image_mset (\<lambda>f. promised (the ((tab(fd := None)) f))) (mset_set (dom (tab(fd := None)))))"
proof -
  have "tab = (tab(fd := None))(fd \<mapsto> c)" using assms(2) by auto
  moreover have "finite (dom (tab(fd := None)))" "fd \<notin> dom (tab(fd := None))"
    using assms(1) by auto
  ultimately show ?thesis using promises_insert by metis
qed

lemma promises_update:
  assumes "finite (dom tab)" and "tab fd = Some c" and "promised c' = promised c"
  shows "image_mset (\<lambda>f. promised (the ((tab(fd \<mapsto> c')) f))) (mset_set (dom (tab(fd \<mapsto> c'))))
    = image_mset (\<lambda>f. promised (the (tab f))) (mset_set (dom tab))"
  using promises_split [OF assms(1,2)] promises_split [of "tab(fd \<mapsto> c')" fd c'] assms by simp

text \<open>What is still to be read from the open connections.\<close>

definition v4_work :: "'a server_v4_scheme \<Rightarrow> nat" where
  "v4_work p = (\<Sum>fd \<in> dom (fdtab p). length (rq (the (fdtab p fd))))"

lemma v4_work_cong: "fdtab p' = fdtab p \<Longrightarrow> v4_work p' = v4_work p"
  by (simp add: v4_work_def)

lemma work_split:
  assumes "finite (dom tab)" and "tab fd = Some c"
  shows "(\<Sum>f \<in> dom tab. length (rq (the (tab f))))
    = length (rq c) + (\<Sum>f \<in> dom tab - {fd}. length (rq (the (tab f))))"
  using assms sum.remove [of "dom tab" fd "\<lambda>f. length (rq (the (tab f)))"] by auto

lemma v4_work_less:
  assumes "finite (dom (fdtab p))" and "fdtab p fd = Some c"
    and "fdtab p' = (fdtab p)(fd := x)" and "case x of None \<Rightarrow> rq c \<noteq> [] | Some d \<Rightarrow> length (rq d) < length (rq c)"
  shows "v4_work p' < v4_work p"
proof -
  have same: "(\<Sum>f \<in> dom (fdtab p) - {fd}. length (rq (the (fdtab p' f)))) = (\<Sum>f \<in> dom (fdtab p) - {fd}. length (rq (the (fdtab p f))))"
    using assms(3) by (intro sum.cong) auto
  show ?thesis
  proof (cases x)
    case None
    then have "dom (fdtab p') = dom (fdtab p) - {fd}" using assms(3) by auto
    then show ?thesis using work_split [OF assms(1,2)] assms(4) None same by (simp add: v4_work_def)
  next
    case (Some d)
    have "dom (fdtab p') = dom (fdtab p)" using assms(2,3) Some by auto
    moreover have "fdtab p' fd = Some d" using assms(3) Some by simp
    ultimately show ?thesis
      using work_split [OF assms(1,2)] work_split [of "fdtab p'" fd d] assms(1,4) Some same by (simp add: v4_work_def)
  qed
qed

section \<open>Serving keeps the invariant and the promises\<close>

text \<open>What serving the entry \<open>i\<close> leaves alone, and that it gets something done.\<close>

definition v4_served :: "nat \<Rightarrow> int \<Rightarrow> 'a server_v4_scheme \<Rightarrow> 'a server_v4_scheme \<Rightarrow> bool" where
  "v4_served i fd p p' \<longleftrightarrow> v4_inv p' \<and> promises p' = promises p \<and> maxClient p' = maxClient p
     \<and> (\<forall>j. j \<noteq> i \<longrightarrow> clients p' ! j = clients p ! j) \<and> (\<forall>f. f \<noteq> fd \<longrightarrow> fdtab p' f = fdtab p f)
     \<and> dom (fdtab p') \<subseteq> dom (fdtab p) \<and> v4_work p' < v4_work p"

lemma v4_served_printf [simp]: "v4_served i fd p (printf t p') = v4_served i fd p p'"
  by (simp add: v4_served_def printf_def v4_work_def v4_inv_def promises_def fds_of_def server_ok_def)

lemma removeClient_served:
  assumes "v4_inv p" and "i \<in> active (fds_of p)" and "fds_of p ! i = fd"
    and "fdtab p fd = Some c0" and "rq c0 \<noteq> []" and "promised c = promised c0" and "promised c = Some (sent c)"
  obtains p' where "removeClient (Inr ()) fd c i p = (Returns, p')" "v4_served i fd p p'"
proof -
  let ?p2 = "p\<lparr>fdtab := (fdtab p)(fd := None), closed := closed p @ [(fd, c)],
    clients := (clients p)[i := (clients p ! i)\<lparr>pfd := - 1\<rparr>], curClient := curClient p - 1\<rparr>"
  have "fds_of ?p2 = (fds_of p)[i := - 1]" by (simp add: fds_of_def map_update)
  then have "v4_inv ?p2"
    using assms slots_remove [OF v4_inv_slots [OF assms(1)] assms(2)]
    by (auto simp: v4_inv_def server_ok_def)
  moreover have "promises ?p2 = promises p"
    using promises_split [OF v4_inv_finite [OF assms(1)] assms(4)] assms(6)
    by (simp add: promises_def)
  moreover have "v4_work ?p2 < v4_work p"
    by (rule v4_work_less [OF v4_inv_finite [OF assms(1)] assms(4), where x = None]) (use assms(5) in simp_all)
  ultimately have "v4_served i fd p ?p2" by (auto simp: v4_served_def)
  then show thesis
    using that by (simp add: removeClient_def Close_def Let_def)
qed

lemma v4_client_serves:
  assumes inv: "v4_inv p" and i: "i \<in> active (fds_of p)" "fds_of p ! i = fd"
    and cls: "cls fd = Inr ()" and c: "fdtab p fd = Some c" "rq c \<noteq> []"
  shows "\<exists>p'. v4_client cls i fd p = (Returns, p') \<and> v4_served i fd p p'"
proof -
  note sl = v4_inv_slots [OF inv]
  have ok: "server_ok p" using inv by (simp add: v4_inv_def)
  have w: "all_writes c" and pr: "promised c \<noteq> None"
    using inv c by (auto simp: v4_inv_def)
  from pr obtain ss u where ss: "segs (rq c) = Some ss" "replies ss = Inr u"
    by (auto simp: promised_def split: option.splits sum.splits)
  from ss(1) show ?thesis
  proof (cases rule: segs_cases)
    case 1
    with c show ?thesis by simp
  next
    case 2
    from 2(1) show ?thesis
    proof
      assume r: "rq c = [Fin]"
      then have "conn_read BUF_SIZE c = (Eof, c)" by (simp add: conn_read_def)
      moreover have "promised c = Some (sent c)" using ss 2 by (simp add: promised_def)
      then obtain p' where "removeClient (Inr ()) fd c i p = (Returns, p')" "v4_served i fd p p'"
        using removeClient_served [OF inv i c refl] by blast
      ultimately show ?thesis using c cls by (simp add: v4_client_def)
    next
      assume r: "rq c = [RdErr ECONNRESET]"
      let ?c1 = "c\<lparr>rq := []\<rparr>"
      let ?p1 = "p\<lparr>errnum := ECONNRESET, fdtab := (fdtab p)(fd \<mapsto> ?c1)\<rparr>"
      have rd: "conn_read BUF_SIZE c = (RdFail ECONNRESET, ?c1)" using r by (simp add: conn_read_def)
      have pc: "promised ?c1 = promised c" "promised ?c1 = Some (sent ?c1)" using ss 2 by (simp_all add: promised_def)
      let ?p2 = "p\<lparr>errnum := ECONNRESET\<rparr>"
      have "v4_inv ?p2" "fds_of ?p2 = fds_of p" using inv by (simp_all add: v4_inv_def fds_of_def server_ok_def)
      then obtain p' where "removeClient (Inr ()) fd ?c1 i ?p2 = (Returns, p')" "v4_served i fd ?p2 p'"
        using removeClient_served [of ?p2 i fd c ?c1] i c pc by auto
      moreover have "removeClient (Inr ()) fd ?c1 i ?p1 = removeClient (Inr ()) fd ?c1 i ?p2"
        by (simp add: removeClient_def Close_def Let_def)
      moreover have "v4_served i fd ?p2 p' = v4_served i fd p p'"
        by (simp add: v4_served_def promises_def v4_work_def)
      ultimately show ?thesis using c cls rd by (simp add: v4_client_def Let_def)
    qed
  next
    case (3 s es' ss')
    then have rd: "conn_read BUF_SIZE c = (Got s, c\<lparr>rq := es'\<rparr>)"
      using sys_read_Seg [of s BUF_SIZE es'] by (simp add: conn_read_def)
    have fit: "length s \<le> length (reqBuf p)"
      using ok 3(5) by (simp add: server_ok_def ARRAY_SIZE_def)
    obtain r u' where r: "reply s = Inr r" "replies ss' = Inr u'" "u = opt_text r @ u'"
      using ss(2) 3(2) by (auto simp: replies_Cons_Inr simp del: replies.simps)
    let ?c1 = "c\<lparr>rq := es'\<rparr>"
    let ?p1 = "printf (''**doServer: data from socket fd '' @ show_int fd @ nl)
      (p\<lparr>reqBuf := splice (reqBuf p) 0 s\<rparr>)"
    have ok1: "server_ok ?p1" using ok fit by (simp add: server_ok_def printf_def)
    have pre: "length s \<le> ARRAY_SIZE" "all_writes ?c1"
      "reply (take (length s) (reqBuf ?p1)) = Inr r"
      using 3(5) w r(1) take_splice_0 [of s "reqBuf p"]
      by (simp_all add: ARRAY_SIZE_def all_writes_def printf_def)
    obtain q p' where sv: "serve_msg ''doServer'' (length s) ?c1 ?p1
        = (Returns, ?c1\<lparr>wq := q, sent := sent ?c1 @ opt_text r\<rparr>, p')"
      "set q \<subseteq> set (wq ?c1)" "server_ok p'"
      using serve_msg_reply [OF ok1 pre, of "''doServer''"] by blast
    let ?c2 = "?c1\<lparr>wq := q, sent := sent ?c1 @ opt_text r\<rparr>"
    let ?p2 = "p'\<lparr>fdtab := (fdtab p')(fd \<mapsto> ?c2)\<rparr>"
    have fr: "clients p' = clients p" "maxClient p' = maxClient p" "curClient p' = curClient p"
      "fdtab p' = fdtab p" "closed p' = closed p"
      using serve_msg_v4_frame [OF sv(1)] by (simp_all add: printf_def)
    have pc: "promised ?c2 = promised c" "promised ?c2 \<noteq> None"
      using 3 r ss by (simp_all add: promised_def)
    have "all_writes ?c2" using sv(2) w by (auto simp: all_writes_def)
    moreover have "slots_ok (fds_of ?p2) (maxClient ?p2) (curClient ?p2) (fdtab ?p2)"
      using sl c fr by (auto simp: slots_ok_def fds_of_def insert_absorb dom_def)
    ultimately have "v4_inv ?p2"
      using inv sv(3) fr pc(2) by (auto simp: v4_inv_def server_ok_def)
    moreover have "promises ?p2 = promises p"
      using promises_update [OF v4_inv_finite [OF inv] c(1) pc(1)] fr by (simp add: promises_def)
    moreover have "v4_work ?p2 < v4_work p"
      by (rule v4_work_less [OF v4_inv_finite [OF inv] c(1), where x = "Some ?c2"]) (use fr 3(1) in simp_all)
    ultimately have "v4_served i fd p ?p2" using fr c(1) by (auto simp: v4_served_def)
    moreover have "store (reqBuf p) 0 s = Inr (splice (reqBuf p) 0 s)"
      using fit by (simp add: store_def)
    ultimately show ?thesis
      using c rd sv(1) by (simp add: v4_client_def Let_def)
  qed
qed

text \<open>The entries from \<open>i\<close> on that the loop would serve, and those of them whose client is heard.\<close>

definition v4_hits :: "'a server_v4_scheme \<Rightarrow> nat \<Rightarrow> nat list" where
  "v4_hits p i = filter (\<lambda>j. 0 \<le> pfd (clients p ! j) \<and> revents (clients p ! j) AND (POLLIN OR POLLERR) \<noteq> 0)
     [i..<Suc (maxClient p)]"

definition v4_heard :: "'a server_v4_scheme \<Rightarrow> nat \<Rightarrow> bool" where
  "v4_heard p j \<longleftrightarrow> (\<exists>c. fdtab p (pfd (clients p ! j)) = Some c \<and> rq c \<noteq> [])"

lemma v4_hits_step:
  "i \<le> maxClient p \<Longrightarrow> v4_hits p i = (if 0 \<le> pfd (clients p ! i) \<and> revents (clients p ! i) AND (POLLIN OR POLLERR) \<noteq> 0
     then i # v4_hits p (Suc i) else v4_hits p (Suc i))"
  by (simp add: v4_hits_def upt_conv_Cons del: upt_Suc)

lemma v4_served_others:
  assumes inv: "v4_inv p" and i: "i \<in> active (fds_of p)" and s: "v4_served i (fds_of p ! i) p p'"
  shows "v4_hits p' (Suc i) = v4_hits p (Suc i)" and "\<forall>j \<in> set (v4_hits p (Suc i)). v4_heard p' j \<longleftrightarrow> v4_heard p j"
proof -
  show "v4_hits p' (Suc i) = v4_hits p (Suc i)"
    unfolding v4_hits_def using s by (intro filter_cong) (auto simp: v4_served_def)
  have "pfd (clients p ! j) \<noteq> fds_of p ! i" if "j \<in> set (v4_hits p (Suc i))" for j
  proof -
    have j: "Suc i \<le> j" "j \<le> maxClient p" "0 \<le> pfd (clients p ! j)" using that by (auto simp: v4_hits_def)
    then have "j < OPEN_MAX" using v4_inv_slots [OF inv] by (simp add: slots_ok_def)
    then have "j \<in> active (fds_of p)" "pfd (clients p ! j) = fds_of p ! j"
      using j v4_inv_length [OF inv] by (auto simp: active_def fds_of_nth)
    then show ?thesis using v4_inv_slots [OF inv] i j(1) by (auto simp: slots_ok_def dest: inj_onD)
  qed
  then show "\<forall>j \<in> set (v4_hits p (Suc i)). v4_heard p' j \<longleftrightarrow> v4_heard p j"
    using s by (auto simp: v4_heard_def v4_served_def v4_hits_def)
qed

lemma v4_clients_serve:
  assumes "v4_inv p" and "1 \<le> i" and "\<forall>fd. cls fd = Inr ()"
    and "\<forall>j \<in> set (take (max 1 (nat nready)) (v4_hits p i)). v4_heard p j"
  shows "\<exists>p'. v4_clients cls i nready p = (Returns, p') \<and> v4_inv p' \<and> promises p' = promises p
    \<and> v4_work p' \<le> v4_work p \<and> (v4_hits p i \<noteq> [] \<longrightarrow> v4_work p' < v4_work p)
    \<and> clients p' ! 0 = clients p ! 0 \<and> dom (fdtab p') \<subseteq> dom (fdtab p)"
  using assms
proof (induction cls i nready p rule: v4_clients.induct)
  case (1 cls i nready p)
  let ?fd = "pfd (clients p ! i)"
  let ?hit = "revents (clients p ! i) AND (POLLIN OR POLLERR) \<noteq> 0"
  show ?case
  proof (cases "i \<le> maxClient p")
    case False
    then show ?thesis using 1(4) by (subst v4_clients.simps) (simp add: v4_hits_def)
  next
    case True
    then have len: "i < length (clients p)" "i < OPEN_MAX"
      using 1(4) v4_inv_length [OF 1(4)] by (auto simp: v4_inv_def slots_ok_def)
    note step = v4_hits_step [OF True]
    consider "?fd < 0" | "0 \<le> ?fd" "\<not> ?hit" | "0 \<le> ?fd" ?hit by linarith
    then show ?thesis
    proof cases
      case 1
      have "\<exists>p'. v4_clients cls (Suc i) nready p = (Returns, p') \<and> v4_inv p' \<and> promises p' = promises p
          \<and> v4_work p' \<le> v4_work p \<and> (v4_hits p (Suc i) \<noteq> [] \<longrightarrow> v4_work p' < v4_work p)
          \<and> clients p' ! 0 = clients p ! 0 \<and> dom (fdtab p') \<subseteq> dom (fdtab p)"
        by (rule "1.IH"(1) [OF True refl 1 "1.prems"(1) _ "1.prems"(3)]) (use 1 "1.prems"(4) step in simp_all)
      with True 1 step show ?thesis by (subst v4_clients.simps) (simp add: Let_def)
    next
      case 2
      then have "\<not> ?fd < 0" by simp
      then have "\<exists>p'. v4_clients cls (Suc i) nready p = (Returns, p') \<and> v4_inv p' \<and> promises p' = promises p
          \<and> v4_work p' \<le> v4_work p \<and> (v4_hits p (Suc i) \<noteq> [] \<longrightarrow> v4_work p' < v4_work p)
          \<and> clients p' ! 0 = clients p ! 0 \<and> dom (fdtab p') \<subseteq> dom (fdtab p)"
        by (rule "1.IH"(3) [OF True refl _ 2(2) "1.prems"(1) _ "1.prems"(3)]) (use 2 "1.prems"(4) step in simp_all)
      with True 2 step show ?thesis by (subst v4_clients.simps) (simp add: Let_def)
    next
      case 3
      then have act: "i \<in> active (fds_of p)" and fd: "fds_of p ! i = ?fd"
        using "1.prems"(2) len by (simp_all add: active_def fds_of_nth)
      have hs: "v4_hits p i = i # v4_hits p (Suc i)" using 3 step by simp
      then have "v4_heard p i" using "1.prems"(4) by (cases "max 1 (nat nready)") auto
      then obtain c where c: "fdtab p ?fd = Some c" "rq c \<noteq> []" by (auto simp: v4_heard_def)
      have "cls ?fd = Inr ()" using "1.prems"(3) by simp
      from v4_client_serves [of p i ?fd cls, OF "1.prems"(1) act fd this c] obtain p1 where
        p1: "v4_client cls i ?fd p = (Returns, p1)" "v4_served i ?fd p p1" by blast
      then have s: "v4_inv p1" "promises p1 = promises p" "v4_work p1 < v4_work p" "clients p1 ! 0 = clients p ! 0"
        "dom (fdtab p1) \<subseteq> dom (fdtab p)" using "1.prems"(2) by (auto simp: v4_served_def)
      show ?thesis
      proof (cases "nready - 1 \<le> 0")
        case True
        then show ?thesis using \<open>i \<le> maxClient p\<close> 3 p1 s
          by (subst v4_clients.simps) (simp add: Let_def)
      next
        case False
        have n: "\<not> ?fd < 0" "\<not> Returns \<noteq> Returns" using 3 by simp_all
        note o = v4_served_others [OF "1.prems"(1) act, unfolded fd, OF p1(2)]
        have "nat nready = Suc (nat (nready - 1))" "1 \<le> nat (nready - 1)" using False by auto
        then have heard: "\<forall>j \<in> set (take (max 1 (nat (nready - 1))) (v4_hits p1 (Suc i))). v4_heard p1 j"
          using "1.prems"(4) hs o by (auto dest: in_set_takeD)
        have "\<exists>p'. v4_clients cls (Suc i) (nready - 1) p1 = (Returns, p') \<and> v4_inv p'
            \<and> promises p' = promises p1 \<and> v4_work p' \<le> v4_work p1 \<and> (v4_hits p1 (Suc i) \<noteq> [] \<longrightarrow> v4_work p' < v4_work p1)
            \<and> clients p' ! 0 = clients p1 ! 0 \<and> dom (fdtab p') \<subseteq> dom (fdtab p1)"
          by (rule "1.IH"(2) [OF \<open>i \<le> maxClient p\<close> refl n(1) 3(2) p1(1) [symmetric] n(2) False s(1) _ "1.prems"(3) heard]) simp
        then show ?thesis using \<open>i \<le> maxClient p\<close> 3 p1 False s
          by (subst v4_clients.simps) (auto simp: Let_def)
      qed
    qed
  qed
qed

section \<open>Accepting\<close>

lemma card_active: "card (active fds) < OPEN_MAX"
proof -
  have "card (active fds) \<le> card {1..<OPEN_MAX}"
    by (rule card_mono) (auto simp: active_def)
  then show ?thesis by (simp add: OPEN_MAX_def)
qed

lemma lowest_fd_fresh:
  assumes "slots_ok fds mx cur tab"
  shows "lowest_fd l tab \<notin> dom tab" "l < lowest_fd l tab"
proof -
  have fin: "finite (dom tab)" and card: "card (dom tab) < OPEN_MAX"
    using assms card_active [of fds] by (simp_all add: slots_ok_def card_image)
  show "lowest_fd l tab \<notin> dom tab"
  proof (cases "find (\<lambda>f. tab f = None) [l + 1..l + int OPEN_MAX]")
    case None
    then have "{l + 1..l + int OPEN_MAX} \<subseteq> dom tab" by (auto simp: find_None_iff)
    then have "card {l + 1..l + int OPEN_MAX} \<le> card (dom tab)" by (rule card_mono [OF fin])
    with card show ?thesis by simp
  next
    case (Some f)
    then have "tab f = None" by (auto simp: find_Some_iff)
    with Some show ?thesis by (simp add: lowest_fd_def domIff)
  qed
  show "l < lowest_fd l tab"
    by (auto simp: lowest_fd_def find_Some_iff split: option.split)
qed

lemma v4_inv_err [simp]:
  "v4_inv (err_doit b m p) = v4_inv p" "promises (err_doit b m p) = promises p"
  "curClient (err_doit b m p) = curClient p"
  by (simp_all add: v4_inv_def promises_def fds_of_def server_ok_def err_doit_def Let_def)

lemma free_slot_near:
  assumes "v4_inv p"
  shows "free_slot (clients p) 1 \<le> Suc (maxClient p)"
proof (rule ccontr)
  let ?i = "free_slot (clients p) 1"
  assume "\<not> ?i \<le> Suc (maxClient p)"
  then have i: "Suc (maxClient p) < ?i" by simp
  have fs: "?i \<le> OPEN_MAX" "\<forall>k. 1 \<le> k \<and> k < ?i \<longrightarrow> 0 \<le> pfd (clients p ! k)"
    using free_slot_spec [of 1 "clients p"] by (auto simp: OPEN_MAX_def)
  with i v4_inv_length [OF assms] have "Suc (maxClient p) \<in> active (fds_of p)" by (auto simp: active_def fds_of_nth)
  with v4_inv_slots [OF assms] show False by (auto simp: slots_ok_def)
qed

lemma addClient_inv:
  assumes inv: "v4_inv p" and fd: "fd \<notin> dom (fdtab p)" "0 \<le> fd"
    and c: "all_writes c" "promised c \<noteq> None"
  shows "(\<exists>p' i. addClient fd c p = (Returns, p') \<and> v4_inv p' \<and> promises p' = add_mset (promised c) (promises p)
      \<and> 1 \<le> i \<and> i \<le> Suc (maxClient p) \<and> i < length (clients p) \<and> pfd (clients p ! i) < 0
      \<and> clients p' = (clients p)[i := (clients p ! i)\<lparr>pfd := fd, events := POLLIN\<rparr>]
      \<and> maxClient p' = max (maxClient p) i \<and> fdtab p' = (fdtab p)(fd \<mapsto> c))
    \<or> (addClient fd c p = err_quit ''Too many clients'' p \<and> curClient p = 7)"
proof -
  let ?i = "free_slot (clients p) 1"
  note sl = v4_inv_slots [OF inv]
  have fs: "1 \<le> ?i" "?i \<le> OPEN_MAX" "?i < OPEN_MAX \<longrightarrow> pfd (clients p ! ?i) < 0"
    "\<forall>k. 1 \<le> k \<and> k < ?i \<longrightarrow> 0 \<le> pfd (clients p ! k)"
    using free_slot_spec [of 1 "clients p"] by (auto simp: OPEN_MAX_def)
  note len = v4_inv_length [OF inv]
  show ?thesis
  proof (cases "?i = OPEN_MAX")
    case True
    then have "active (fds_of p) = {1..<OPEN_MAX}"
      using fs(4) len by (auto simp: active_def fds_of_nth)
    then have "curClient p = 7" using sl by (simp add: slots_ok_def OPEN_MAX_def)
    with True show ?thesis by (simp add: addClient_def)
  next
    case False
    then have i: "?i < OPEN_MAX" "?i \<notin> active (fds_of p)"
      using fs len by (auto simp: active_def fds_of_nth)
    define p1 where "p1 = p\<lparr>clients := (clients p)[?i := (clients p ! ?i)\<lparr>pfd := fd, events := POLLIN\<rparr>],
      maxClient := (if maxClient p < ?i then ?i else maxClient p),
      curClient := curClient p + 1, fdtab := (fdtab p)(fd \<mapsto> c)\<rparr>"
    have "fds_of p1 = (fds_of p)[?i := fd]" by (simp add: fds_of_def map_update p1_def)
    then have "v4_inv p1"
      using inv slots_add [OF sl fs(1) i fd(2,1), of c] c
      by (auto simp: v4_inv_def server_ok_def p1_def)
    moreover have "promises p1 = add_mset (promised c) (promises p)"
      using promises_insert [OF v4_inv_finite [OF inv] fd(1), of c] by (simp add: promises_def p1_def)
    moreover have "\<exists>t. addClient fd c p = (Returns, printf t p1)"
      unfolding addClient_def Let_def p1_def by (simp only: False if_False) blast
    then obtain t where "addClient fd c p = (Returns, printf t p1)" ..
    moreover have "clients (printf t p1) = (clients p)[?i := (clients p ! ?i)\<lparr>pfd := fd, events := POLLIN\<rparr>]"
      "maxClient (printf t p1) = max (maxClient p) ?i" "fdtab (printf t p1) = (fdtab p)(fd \<mapsto> c)"
      by (auto simp: p1_def printf_def max_def)
    moreover have "?i < length (clients p)" using i(1) len by simp
    ultimately show ?thesis using fs(1,3) i(1) free_slot_near [OF inv]
      by (intro disjI1 exI [of _ "printf t p1"] exI [of _ ?i]) simp
  qed
qed

text \<open>The script of \<^verbatim>\<open>accept\<close>: aborted connections are skipped.\<close>

definition arrivals_ok :: "(errno + incoming) list \<Rightarrow> bool" where
  "arrivals_ok acc \<longleftrightarrow> (\<forall>r \<in> set acc. case r of
       Inl e \<Rightarrow> e = EPROTO \<or> e = ECONNABORTED
     | Inr i \<Rightarrow> all_writes (link i) \<and> promised (link i) \<noteq> None \<and> peer i \<noteq> None \<and> locl i \<noteq> None)"

lemma connections_simps [simp]:
  "connections [] = []" "connections (Inl e # acc) = connections acc"
  "connections (Inr i # acc) = i # connections acc"
  by (simp_all add: connections_def)

lemma Accept_arrival:
  assumes "arrivals_ok acc"
  obtains e where "Accept acc p = Inl (Blocks, p\<lparr>errnum := e\<rparr>)" "connections acc = []"
  | e i rest where "Accept acc p = Inr ((i, rest), p\<lparr>errnum := e\<rparr>)"
      "connections acc = i # connections rest" "arrivals_ok rest"
      "all_writes (link i)" "promised (link i) \<noteq> None" "peer i \<noteq> None" "locl i \<noteq> None"
  using assms
proof (induction acc arbitrary: p thesis)
  case Nil
  then show ?case using Nil.prems(1) [of "errnum p"] by simp
next
  case (Cons r acc)
  show ?case
  proof (cases r)
    case (Inr i)
    with Cons.prems(3) Cons.prems(2) [of i acc "errnum p"] show ?thesis by (simp add: arrivals_ok_def)
  next
    case (Inl e)
    then have e: "e = EPROTO \<or> e = ECONNABORTED" and ok: "arrivals_ok acc"
      using Cons.prems(3) by (simp_all add: arrivals_ok_def)
    then have a: "Accept (r # acc) p = Accept acc (p\<lparr>errnum := e\<rparr>)" using Inl by simp
    show ?thesis
      by (rule Cons.IH [of "p\<lparr>errnum := e\<rparr>"])
        (use Cons.prems(1,2) a Inl ok in \<open>simp_all\<close>)
  qed
qed

lemma Accept_rest: "Accept acc p = Inr ((i, rest), p') \<Longrightarrow> set rest \<subseteq> set acc"
proof (induction acc arbitrary: p)
  case (Cons r acc)
  then show ?case by (cases r) (fastforce split: if_splits)+
qed simp

section \<open>What poll reports\<close>

text \<open>What is reported is there, and in the form the loop looks for.\<close>

lemma poll_word_cases:
  "poll_word ask d x = 0 \<or> x \<noteq> None \<and> (d = Input \<and> poll_word ask d x AND ask = ask \<or> d = Broken \<and> poll_word ask d x AND POLLERR = POLLERR)"
  by (cases d; cases x) (auto simp: poll_word_def bit.conj_disj_distrib2 intro!: bit_word_eqI simp: bit_simps)

lemma poll_word_pos:
  assumes "ask \<noteq> 0"
  shows "poll_word ask d x \<noteq> 0 \<longleftrightarrow> d \<noteq> Quiet \<and> x \<noteq> None"
  using assms by (cases d; cases x) (auto simp: poll_word_def or_eq_0_iff POLLERR_def)

lemma poll_word_seen:
  assumes "poll_word ask d x \<noteq> 0" and "ask \<noteq> 0"
  shows "poll_word ask d x AND (ask OR POLLERR) \<noteq> 0" and "d = Input \<Longrightarrow> poll_word ask d x AND ask \<noteq> 0"
proof -
  have pe: "POLLERR \<noteq> 0" by (simp add: POLLERR_def)
  from poll_word_cases [of ask d x] assms show "poll_word ask d x AND (ask OR POLLERR) \<noteq> 0"
    by (auto simp: bit.conj_disj_distrib or_eq_0_iff pe)
  from poll_word_cases [of ask d x] assms show "poll_word ask d x AND ask \<noteq> 0" if "d = Input"
    using that by auto
qed

lemma poll_call_eq:
  assumes "poll_call R n cl = (nr, cl')" and "n \<le> length cl"
  shows "length cl' = length cl" "pfd (cl' ! i) = pfd (cl ! i)"
    "i < n \<Longrightarrow> revents (cl' ! i) = (if pfd (cl ! i) < 0 then 0 else R (pfd (cl ! i)))"
    "nr = int (length (filter (\<lambda>i. revents (cl' ! i) \<noteq> 0) [0..<n]))"
proof -
  let ?f = "\<lambda>e. e\<lparr>revents := (if pfd e < 0 then 0 else R (pfd e))\<rparr>"
  have cl': "cl' = map ?f (take n cl) @ drop n cl" "nr = int (length (filter (\<lambda>e. revents e \<noteq> 0) (map ?f (take n cl))))"
    using assms(1) by (simp_all add: poll_call_def Let_def)
  show "length cl' = length cl" using cl'(1) assms(2) by simp
  show "pfd (cl' ! i) = pfd (cl ! i)" using cl'(1) assms(2) by (simp add: nth_append min_def)
  show "revents (cl' ! i) = (if pfd (cl ! i) < 0 then 0 else R (pfd (cl ! i)))" if "i < n"
    using cl'(1) assms(2) that by (simp add: nth_append)
  have "take n cl' = map ((!) cl') [0..<n]" using cl'(1) assms(2) by (intro nth_equalityI) (simp_all add: nth_append)
  then have "map ?f (take n cl) = map ((!) cl') [0..<n]" using cl'(1) assms(2) by simp
  then show "nr = int (length (filter (\<lambda>i. revents (cl' ! i) \<noteq> 0) [0..<n]))"
    unfolding cl'(2) by (simp add: filter_map comp_def)
qed

lemma segs_pending: "segs es = Some ss \<Longrightarrow> pending_at es = Quiet \<longleftrightarrow> es = []"
  by (cases es rule: pending_at.cases) auto

text \<open>The listening socket has the first entry, and a descriptor below those of the connections.\<close>

definition v4_listens :: "int \<Rightarrow> 'a server_v4_scheme \<Rightarrow> bool" where
  "v4_listens l p \<longleftrightarrow> 0 \<le> l \<and> pfd (clients p ! 0) = l \<and> l \<notin> dom (fdtab p)"

lemma POLLIN_pos [simp]: "POLLIN \<noteq> 0"
  by (simp add: POLLIN_def)

lemma polled:
  assumes inv: "v4_inv p" and l: "v4_listens l p"
    and r: "poll_call (v4_report l w acc p) (maxClient p + 1) (clients p) = (n, cl)"
  defines "p0 \<equiv> p\<lparr>clients := cl\<rparr>"
  shows "v4_inv p0" "v4_listens l p0" "promises p0 = promises p" "v4_work p0 = v4_work p"
    "n = (if acc = [] \<or> w l = None then 0 else 1) + int (length (v4_hits p0 1))"
    "revents (cl ! 0) AND POLLIN \<noteq> 0 \<longleftrightarrow> acc \<noteq> [] \<and> w l \<noteq> None"
    "\<forall>j \<in> set (v4_hits p0 1). v4_heard p0 j"
    "\<And>f c. fdtab p f = Some c \<Longrightarrow> rq c \<noteq> [] \<Longrightarrow> w f \<noteq> None \<Longrightarrow> v4_hits p0 1 \<noteq> []"
    "\<And>i. i \<le> maxClient p \<Longrightarrow> pfd (cl ! i) < 0 \<Longrightarrow> revents (cl ! i) = 0"
proof -
  have len: "maxClient p + 1 \<le> length (clients p)" using v4_inv_length [OF inv] v4_inv_slots [OF inv] by (simp add: slots_ok_def)
  note c = poll_call_eq [OF r len]
  have fds: "fds_of p0 = fds_of p" using c(1,2) by (auto simp: fds_of_def p0_def intro!: nth_equalityI)
  then show "v4_inv p0" using inv by (simp add: v4_inv_def server_ok_def p0_def fds_of_def)
  show "v4_listens l p0" using l c(2) by (simp add: v4_listens_def p0_def)
  show "promises p0 = promises p" "v4_work p0 = v4_work p" by (simp_all add: p0_def promises_def v4_work_def)
  have r0: "revents (cl ! 0) = v4_report l w acc p l" using c(3) [of 0] l by (simp add: v4_listens_def)
  have at_l: "v4_report l w acc p l \<noteq> 0 \<longleftrightarrow> acc \<noteq> [] \<and> w l \<noteq> None"
    by (simp add: v4_report_def poll_word_pos)
  then show "revents (cl ! 0) AND POLLIN \<noteq> 0 \<longleftrightarrow> acc \<noteq> [] \<and> w l \<noteq> None"
    using poll_word_seen(2) [of POLLIN Input "w l"] by (auto simp: r0 v4_report_def)
  have conns: "v4_report l w acc p f \<noteq> 0 \<longleftrightarrow> (\<exists>c. fdtab p f = Some c \<and> rq c \<noteq> []) \<and> w f \<noteq> None" if "f \<noteq> l" for f
  proof (cases "fdtab p f")
    case (Some c)
    then have "promised c \<noteq> None" using inv by (auto simp: v4_inv_def)
    then obtain ss where "segs (rq c) = Some ss" by (auto simp: promised_def split: option.splits)
    from segs_pending [OF this] Some that show ?thesis by (simp add: v4_report_def poll_word_pos)
  qed (use that in \<open>simp add: v4_report_def poll_word_pos\<close>)
  have hit: "0 \<le> pfd (cl ! i) \<and> revents (cl ! i) AND (POLLIN OR POLLERR) \<noteq> 0 \<longleftrightarrow> revents (cl ! i) \<noteq> 0" if "i < maxClient p + 1" for i
  proof (cases "pfd (clients p ! i) < 0")
    case False
    then have "revents (cl ! i) = v4_report l w acc p (pfd (clients p ! i))" using c(3) [OF that] by simp
    then show ?thesis using False c(2) poll_word_seen(1) [of POLLIN]
      by (auto simp: v4_report_def)
  qed (use c(2,3) [of i] that in simp)
  have hs: "v4_hits p0 1 = filter (\<lambda>i. revents (cl ! i) \<noteq> 0) [1..<maxClient p + 1]"
  proof -
    have "x \<in> set [1..<Suc (maxClient p)] \<Longrightarrow> x < maxClient p + 1" for x by auto
    then show ?thesis unfolding v4_hits_def p0_def using hit by (intro filter_cong) simp_all
  qed
  have "[0..<maxClient p + 1] = 0 # [1..<maxClient p + 1]" by (simp add: upt_conv_Cons del: upt_Suc)
  then show "n = (if acc = [] \<or> w l = None then 0 else 1) + int (length (v4_hits p0 1))"
    using c(4) r0 at_l hs by (auto simp del: upt_Suc)
  have not_l: "pfd (clients p ! i) \<noteq> l" if "1 \<le> i" "i \<le> maxClient p" "0 \<le> pfd (clients p ! i)" for i
  proof -
    have "i \<in> active (fds_of p)" using that v4_inv_slots [OF inv] v4_inv_length [OF inv] by (auto simp: active_def slots_ok_def fds_of_nth)
    then have "pfd (clients p ! i) \<in> dom (fdtab p)"
      using v4_inv_slots [OF inv] that v4_inv_length [OF inv] fds_of_nth [of i p] by (force simp: slots_ok_def)
    then show ?thesis using l by (auto simp: v4_listens_def)
  qed
  show "\<forall>j \<in> set (v4_hits p0 1). v4_heard p0 j"
  proof
    fix j assume j: "j \<in> set (v4_hits p0 1)"
    then have "revents (cl ! j) \<noteq> 0" "1 \<le> j" "j \<le> maxClient p" unfolding hs by auto
    moreover from this c(3) [of j] have "0 \<le> pfd (clients p ! j)" "revents (cl ! j) = v4_report l w acc p (pfd (clients p ! j))"
      by (auto split: if_splits)
    ultimately show "v4_heard p0 j" using conns [OF not_l [of j]] c(2) by (auto simp: v4_heard_def p0_def)
  qed
  show "v4_hits p0 1 \<noteq> []" if f: "fdtab p f = Some d" "rq d \<noteq> []" "w f \<noteq> None" for f d
  proof -
    have "f \<in> (!) (fds_of p) ` active (fds_of p)" using f(1) v4_inv_slots [OF inv] by (auto simp: slots_ok_def)
    then obtain i where i: "i \<in> active (fds_of p)" "fds_of p ! i = f" by auto
    then have i': "1 \<le> i" "i \<le> maxClient p" "pfd (clients p ! i) = f" "0 \<le> f"
      using v4_inv_slots [OF inv] v4_inv_length [OF inv] fds_of_nth [of i p] by (auto simp: active_def slots_ok_def)
    have "f \<noteq> l" using f(1) l by (auto simp: v4_listens_def)
    then have "revents (cl ! i) \<noteq> 0" using conns [of f] f c(3) [of i] i' by simp
    then have "i \<in> set (v4_hits p0 1)" using i' unfolding hs by (auto simp del: upt_Suc)
    then show ?thesis by auto
  qed
  show "revents (cl ! i) = 0" if "i \<le> maxClient p" "pfd (cl ! i) < 0" for i
    using c(2) c(3) [of i] that by simp
qed

section \<open>The loop keeps the invariant and gets on\<close>

text \<open>What is left to do: connections to accept and bytes to read.\<close>

definition v4_total :: "(errno + incoming) list \<Rightarrow> 'a server_v4_scheme \<Rightarrow> nat" where
  "v4_total acc p = sum_list (map (\<lambda>i. Suc (length (rq (link i)))) (connections acc)) + v4_work p"

text \<open>
  What a stretch of the run does: the connections it takes in, the one it may turn away by
  exiting, and the promises.  It waits elsewhere than in \<^verbatim>\<open>poll\<close> only after a connection was aborted.
\<close>

definition v4_outcome ::
    "int \<Rightarrow> (errno + incoming) list \<Rightarrow> 'a server_v4_scheme \<Rightarrow> stop \<Rightarrow> (errno + incoming) list
     \<Rightarrow> 'a server_v4_scheme \<Rightarrow> bool" where
  "v4_outcome l acc p s acc' p' \<longleftrightarrow> s \<in> {Returns, Blocks, Exits 1} \<and> v4_inv p' \<and> arrivals_ok acc'
     \<and> set acc' \<subseteq> set acc \<and> (s \<noteq> Exits 1 \<longrightarrow> v4_listens l p' \<and> v4_total acc' p' \<le> v4_total acc p)
     \<and> (\<exists>new lost. connections acc = new @ lost @ connections acc'
          \<and> promises p' = mset (map (promised \<circ> link) new) + promises p
          \<and> (if s = Exits 1 then length lost = 1 \<and> curClient p' = 7 else lost = []))"

lemma v4_outcome_trans:
  assumes "v4_outcome l acc p Returns acc1 p1" and "v4_outcome l acc1 p1 s acc' p'"
  shows "v4_outcome l acc p s acc' p'"
proof -
  obtain n1 where a: "connections acc = n1 @ connections acc1"
    "promises p1 = mset (map (promised \<circ> link) n1) + promises p"
    using assms(1) by (auto simp: v4_outcome_def)
  obtain n2 lost where b: "connections acc1 = n2 @ lost @ connections acc'"
    "promises p' = mset (map (promised \<circ> link) n2) + promises p1"
    "if s = Exits 1 then length lost = 1 \<and> curClient p' = 7 else lost = []"
    using assms(2) by (auto simp: v4_outcome_def)
  have "\<exists>new lost. connections acc = new @ lost @ connections acc'
      \<and> promises p' = mset (map (promised \<circ> link) new) + promises p
      \<and> (if s = Exits 1 then length lost = 1 \<and> curClient p' = 7 else lost = [])"
    using a b by (intro exI [of _ "n1 @ n2"] exI [of _ lost]) simp
  then show ?thesis using assms unfolding v4_outcome_def by auto
qed

lemma v4_clients_outcome:
  assumes "v4_inv p" and "v4_listens l p" and "arrivals_ok acc" and "\<forall>fd. cls fd = Inr ()"
    and "\<forall>j \<in> set (take (max 1 (nat n)) (v4_hits p 1)). v4_heard p j"
  shows "\<exists>p'. v4_clients cls 1 n p = (Returns, p') \<and> v4_outcome l acc p Returns acc p'
    \<and> (v4_hits p 1 \<noteq> [] \<longrightarrow> v4_total acc p' < v4_total acc p)"
proof -
  from v4_clients_serve [where cls = cls and i = 1, OF assms(1) _ assms(4,5)] obtain p' where
    p': "v4_clients cls 1 n p = (Returns, p')" "v4_inv p'" "promises p' = promises p" "v4_work p' \<le> v4_work p"
      "v4_hits p 1 \<noteq> [] \<longrightarrow> v4_work p' < v4_work p" "clients p' ! 0 = clients p ! 0" "dom (fdtab p') \<subseteq> dom (fdtab p)"
    by auto
  moreover have "v4_listens l p'" using assms(2) p'(6,7) by (auto simp: v4_listens_def)
  ultimately show ?thesis using assms(3) by (intro exI [of _ p']) (simp add: v4_outcome_def v4_total_def)
qed

text \<open>
  The entries after a new client got the slot \<open>i\<close>: those \<^verbatim>\<open>poll\<close> has filled in are as before; a slot behind
  them comes last.
\<close>

lemma v4_hits_added:
  assumes "1 \<le> i" and "i \<le> Suc (maxClient p)" and "i < length (clients p)"
    and "i \<le> maxClient p \<Longrightarrow> pfd (clients p ! i) < 0 \<and> revents (clients p ! i) = 0"
    and "clients p' = (clients p)[i := (clients p ! i)\<lparr>pfd := fd, events := POLLIN\<rparr>]" and "maxClient p' = max (maxClient p) i"
  shows "\<exists>ys. v4_hits p' 1 = v4_hits p 1 @ ys" and "i \<notin> set (v4_hits p 1)"
proof -
  show not: "i \<notin> set (v4_hits p 1)" using assms(4) by (auto simp: v4_hits_def)
  let ?P = "\<lambda>q j. 0 \<le> pfd (clients q ! j) \<and> revents (clients q ! j) AND (POLLIN OR POLLERR) \<noteq> 0"
  have "?P p' j = ?P p j" if "j \<in> set [1..<Suc (maxClient p)]" for j
    using assms(3-5) that by (cases "j = i") auto
  then have same: "filter (?P p') [1..<Suc (maxClient p)] = v4_hits p 1"
    unfolding v4_hits_def by (intro filter_cong refl)
  show "\<exists>ys. v4_hits p' 1 = v4_hits p 1 @ ys"
  proof (cases "i \<le> maxClient p")
    case True
    then show ?thesis using same assms(6) by (intro exI [of _ "[]"]) (simp add: v4_hits_def max_def)
  next
    case False
    then have i: "i = Suc (maxClient p)" "maxClient p' = i" using assms(2,6) by auto
    have "[1..<Suc i] = [1..<i] @ [i]" using assms(1) by simp
    then have "v4_hits p' 1 = filter (?P p') [1..<i] @ filter (?P p') [i]"
      using i(2) unfolding v4_hits_def by (simp del: upt_Suc)
    then show ?thesis using same i(1) by (intro exI [of _ "filter (?P p') [i]"]) (simp del: upt_Suc)
  qed
qed

lemma v4_work_added:
  assumes "finite (dom (fdtab p))" and "fd \<notin> dom (fdtab p)" and "fdtab p' = (fdtab p)(fd \<mapsto> c)"
  shows "v4_work p' = v4_work p + length (rq c)"
proof -
  have "(\<Sum>f \<in> dom (fdtab p). length (rq (the (fdtab p' f)))) = v4_work p"
    unfolding v4_work_def using assms(2,3) by (intro sum.cong) auto
  then show ?thesis using assms by (simp add: v4_work_def)
qed

lemma v4_round_outcome:
  assumes inv: "v4_inv p" and lis: "v4_listens l p" and acc: "arrivals_ok acc" and env: "host_name env \<noteq> None"
    and cls: "\<forall>fd. cls fd = Inr ()"
    and r: "poll_call (v4_report l w acc p) (maxClient p + 1) (clients p) = (n, cl)"
  shows "\<exists>s acc' p'. v4_round env cls l n acc (p\<lparr>clients := cl\<rparr>) = (s, acc', p') \<and> v4_outcome l acc p s acc' p'
    \<and> (s = Blocks \<longrightarrow> (\<exists>e. Inl e \<in> set acc))
    \<and> (s = Returns \<and> full_report w \<and> 0 < v4_total acc p \<longrightarrow> v4_total acc' p' < v4_total acc p)"
proof -
  let ?p0 = "p\<lparr>clients := cl\<rparr>"
  note pl = polled [OF inv lis r]
  have start: "v4_outcome l acc p Returns acc ?p0"
    using pl(1-4) acc by (simp add: v4_outcome_def v4_total_def)
  show ?thesis
  proof (cases "acc \<noteq> [] \<and> w l \<noteq> None")
    case False
    have heard: "\<forall>j \<in> set (take (max 1 (nat n)) (v4_hits ?p0 1)). v4_heard ?p0 j"
      using pl(7) by (auto dest: in_set_takeD)
    obtain p' where p': "v4_clients cls 1 n ?p0 = (Returns, p')" "v4_outcome l acc ?p0 Returns acc p'"
      "v4_hits ?p0 1 \<noteq> [] \<longrightarrow> v4_total acc p' < v4_total acc ?p0"
      using v4_clients_outcome [OF pl(1,2) acc cls heard] by blast
    have "v4_total acc p' < v4_total acc p" if full: "full_report w" "0 < v4_total acc p"
    proof -
      have "acc = []" using False full(1) unfolding full_report_def by blast
      then have "0 < v4_work p" using full(2) by (simp add: v4_total_def)
      then obtain f where f: "f \<in> dom (fdtab p)" "rq (the (fdtab p f)) \<noteq> []"
        unfolding v4_work_def by (metis (no_types, lifting) length_greater_0_conv less_irrefl not_gr_zero sum.neutral)
      then have "v4_hits ?p0 1 \<noteq> []" using pl(8) [of f "the (fdtab p f)"] full(1) by (auto simp: full_report_def)
      with p'(3) pl(4) show ?thesis by (simp add: v4_total_def)
    qed
    moreover have "revents (cl ! 0) AND POLLIN = 0" using False pl(6) by blast
    then have "v4_round env cls l n acc ?p0 = (Returns, acc, p')"
      using p'(1) by (simp add: v4_round_def)
    ultimately show ?thesis using v4_outcome_trans [OF start p'(2)] by auto
  next
    case True
    then have bit: "revents (cl ! 0) AND POLLIN \<noteq> 0" using pl(6) by simp
    obtain h where h: "host_name env = Some h" using env by auto
    from acc show ?thesis
    proof (cases rule: Accept_arrival [where p = ?p0])
      case (1 e)
      have "\<exists>e. Inl e \<in> set acc"
      proof (rule ccontr)
        assume "\<nexists>e. Inl e \<in> set acc"
        then obtain i as where "acc = Inr i # as" using True by (cases acc; cases "hd acc") auto
        with 1(2) show False by simp
      qed
      moreover have "v4_round env cls l n acc ?p0 = (Blocks, acc, ?p0\<lparr>errnum := e\<rparr>)" using bit 1(1) by (simp add: v4_round_def)
      moreover have "v4_outcome l acc p Blocks acc (?p0\<lparr>errnum := e\<rparr>)"
        using start by (simp add: v4_outcome_def v4_listens_def v4_total_def v4_work_def)
      ultimately show ?thesis by auto
    next
      case (2 e i rest)
      then obtain a b where ab: "peer i = Some a" "locl i = Some b" by auto
      define p3 where "p3 = printf (dumpHostAndAddr (host_of env) ''Peer'' a)
        (printf (dumpAddr ''Local'' h b) (?p0\<lparr>errnum := e\<rparr>))"
      have i3: "v4_inv p3" "promises p3 = promises p" "fdtab p3 = fdtab p" "clients p3 = cl" "maxClient p3 = maxClient p"
        "v4_work p3 = v4_work p"
        using pl(1) by (simp_all add: p3_def printf_def v4_inv_def promises_def fds_of_def server_ok_def v4_work_def)
      let ?fd = "lowest_fd l (fdtab p)"
      have fd: "?fd \<notin> dom (fdtab p3)" "0 \<le> ?fd" "?fd \<noteq> l"
        using lowest_fd_fresh [OF v4_inv_slots [OF inv], of l] lis i3(3) by (simp_all add: v4_listens_def)
      have rest: "set rest \<subseteq> set acc" using Accept_rest [OF 2(1)] .
      have round: "v4_round env cls l n acc ?p0
        = and_then rest (addClient ?fd (link i) p3) (\<lambda>p4.
            if n - 1 \<le> 0 then (Returns, rest, p4)
            else (case v4_clients cls 1 (n - 1) p4 of (s, p5) \<Rightarrow> (s, rest, p5)))"
        using bit 2 ab h
        by (simp add: v4_round_def dumpLocalSockAddr_def dumpPeerSockAddr_def p3_def Let_def)
      from addClient_inv [OF i3(1) fd(1,2) 2(4,5)] show ?thesis
      proof
        assume "\<exists>p' k. addClient ?fd (link i) p3 = (Returns, p') \<and> v4_inv p' \<and> promises p' = add_mset (promised (link i)) (promises p3)
          \<and> 1 \<le> k \<and> k \<le> Suc (maxClient p3) \<and> k < length (clients p3) \<and> pfd (clients p3 ! k) < 0
          \<and> clients p' = (clients p3)[k := (clients p3 ! k)\<lparr>pfd := ?fd, events := POLLIN\<rparr>]
          \<and> maxClient p' = max (maxClient p3) k \<and> fdtab p' = (fdtab p3)(?fd \<mapsto> link i)"
        then obtain p4 k where p4: "addClient ?fd (link i) p3 = (Returns, p4)" "v4_inv p4"
          "promises p4 = add_mset (promised (link i)) (promises p)"
          and k: "1 \<le> k" "k \<le> Suc (maxClient ?p0)" "k < length (clients ?p0)" "pfd (clients ?p0 ! k) < 0"
          "clients p4 = (clients ?p0)[k := (clients ?p0 ! k)\<lparr>pfd := ?fd, events := POLLIN\<rparr>]"
          "maxClient p4 = max (maxClient ?p0) k" "fdtab p4 = (fdtab p)(?fd \<mapsto> link i)"
          using i3(2-5) by auto
        have tot: "v4_total acc p = Suc (v4_total rest p4)"
          using v4_work_added [OF v4_inv_finite [OF inv] _ k(7)] fd(1) i3(3) 2(2) by (simp add: v4_total_def)
        have "v4_listens l p4" using pl(2) k(1,5,7) fd(3) by (auto simp: v4_listens_def)
        then have one: "v4_outcome l acc p Returns rest p4"
          using p4 2 tot rest by (auto simp: v4_outcome_def intro!: exI [of _ "[i]"])
        show ?thesis
        proof (cases "n - 1 \<le> 0")
          case True
          then show ?thesis using round p4(1) one tot by auto
        next
          case neg: False
          have "revents (clients ?p0 ! k) = 0" if "k \<le> maxClient ?p0" using pl(9) [of k] that k(4) by simp
          note ad = v4_hits_added [OF k(1-3) _ k(5,6)]
          have add: "\<exists>ys. v4_hits p4 1 = v4_hits ?p0 1 @ ys" "k \<notin> set (v4_hits ?p0 1)"
            using ad k(4) \<open>k \<le> maxClient ?p0 \<Longrightarrow> _\<close> by blast+
          have "n - 1 = int (length (v4_hits ?p0 1))" using pl(5) True by simp
          then have "max 1 (nat (n - 1)) = length (v4_hits ?p0 1)" using neg by linarith
          then have tk: "set (take (max 1 (nat (n - 1))) (v4_hits p4 1)) = set (v4_hits ?p0 1)" using add(1) by auto
          have "v4_heard p4 j" if "j \<in> set (v4_hits ?p0 1)" for j
          proof -
            have "j \<noteq> k" using that add(2) by auto
            then have "pfd (clients p4 ! j) = pfd (clients ?p0 ! j)" using k(5) by simp
            moreover have "v4_heard ?p0 j" using pl(7) that by blast
            moreover have "fdtab p ?fd = None" using fd(1) i3(3) by auto
            ultimately show ?thesis using k(7) by (auto simp: v4_heard_def)
          qed
          then have heard: "\<forall>j \<in> set (take (max 1 (nat (n - 1))) (v4_hits p4 1)). v4_heard p4 j" unfolding tk by blast
          obtain p5 where p5: "v4_clients cls 1 (n - 1) p4 = (Returns, p5)" "v4_outcome l rest p4 Returns rest p5"
            using v4_clients_outcome [OF p4(2) \<open>v4_listens l p4\<close> 2(3) cls heard] by blast
          moreover have "v4_total rest p5 < v4_total acc p" using p5(2) tot by (simp add: v4_outcome_def)
          ultimately show ?thesis using round p4(1) neg v4_outcome_trans [OF one] by auto
        qed
      next
        assume "addClient ?fd (link i) p3 = err_quit ''Too many clients'' p3 \<and> curClient p3 = 7"
        then show ?thesis
          using round 2 i3 rest
          by (auto simp: err_quit_def v4_outcome_def intro!: exI [of _ "[]"] exI [of _ "[i]"])
      qed
    qed
  qed
qed

lemma v4_loop_outcome:
  assumes "v4_inv p" and "v4_listens l p" and "arrivals_ok acc" and "host_name env \<noteq> None" and "\<forall>fd. cls fd = Inr ()"
  shows "\<exists>s acc' p'. v4_loop env cls l (map Inr ws) acc p = (s, acc', p')
    \<and> s \<noteq> Returns \<and> v4_outcome l acc p s acc' p'
    \<and> ((\<forall>e. Inl e \<notin> set acc) \<and> s = Blocks \<longrightarrow>
         (\<forall>evs. v4_loop env cls l (map Inr ws @ evs) acc p = v4_loop env cls l evs acc' p')
       \<and> (v4_total acc p \<le> length (filter full_report ws) \<longrightarrow> v4_total acc' p' = 0))"
  using assms
proof (induction ws arbitrary: acc p)
  case Nil
  then show ?case by (auto simp: v4_outcome_def)
next
  case (Cons w ws)
  obtain n cl where pc: "poll_call (v4_report l w acc p) (maxClient p + 1) (clients p) = (n, cl)"
    by (cases "poll_call (v4_report l w acc p) (maxClient p + 1) (clients p)") auto
  from v4_round_outcome [OF Cons.prems pc] obtain s acc1 p1 where
    r: "v4_round env cls l n acc (p\<lparr>clients := cl\<rparr>) = (s, acc1, p1)" "v4_outcome l acc p s acc1 p1"
      "s = Blocks \<longrightarrow> (\<exists>e. Inl e \<in> set acc)"
      "s = Returns \<and> full_report w \<and> 0 < v4_total acc p \<longrightarrow> v4_total acc1 p1 < v4_total acc p" by blast
  have turn: "v4_loop env cls l (Inr w # evs) acc p = (if s \<noteq> Returns then (s, acc1, p1) else v4_loop env cls l evs acc1 p1)" for evs
    using pc r(1) by (simp add: Poll_def)
  show ?case
  proof (cases "s = Returns")
    case False
    then show ?thesis using turn r(2,3) by auto
  next
    case True
    have o: "v4_inv p1" "v4_listens l p1" "arrivals_ok acc1" "set acc1 \<subseteq> set acc" "v4_total acc1 p1 \<le> v4_total acc p"
      using r(2) True by (simp_all add: v4_outcome_def)
    from Cons.IH [OF o(1-3) Cons.prems(4,5)] obtain s' acc' p' where
      t: "v4_loop env cls l (map Inr ws) acc1 p1 = (s', acc', p')" "s' \<noteq> Returns" "v4_outcome l acc1 p1 s' acc' p'"
      "(\<forall>e. Inl e \<notin> set acc1) \<and> s' = Blocks \<longrightarrow>
         (\<forall>evs. v4_loop env cls l (map Inr ws @ evs) acc1 p1 = v4_loop env cls l evs acc' p')
       \<and> (v4_total acc1 p1 \<le> length (filter full_report ws) \<longrightarrow> v4_total acc' p' = 0)" by blast
    have "v4_total acc1 p1 \<le> length (filter full_report ws)"
      if "v4_total acc p \<le> length (filter full_report (w # ws))"
      using that r(4) True o(5) by (cases "full_report w"; cases "v4_total acc p = 0") auto
    with t o(4) turn True v4_outcome_trans [OF r(2) [unfolded True] t(3)] show ?thesis
      by (intro exI [of _ s'] exI [of _ acc'] exI [of _ p']) auto
  qed
qed

section \<open>The table at the start\<close>

lemma fold_free:
  "j < length cl \<Longrightarrow>
   length (fold (\<lambda>i cl. cl[i := (cl ! i)\<lparr>pfd := - 1\<rparr>]) ks cl) = length cl
   \<and> pfd (fold (\<lambda>i cl. cl[i := (cl ! i)\<lparr>pfd := - 1\<rparr>]) ks cl ! j)
       = (if j \<in> set ks then - 1 else pfd (cl ! j))"
  by (induction ks arbitrary: cl) (auto simp: nth_list_update)

text \<open>The globals as the program starts: all null, no connection.\<close>

definition v4_fresh :: "'a server_v4_scheme \<Rightarrow> bool" where
  "v4_fresh p \<longleftrightarrow> server_ok p \<and> length (clients p) = Suc OPEN_MAX \<and> (\<forall>fd. fdtab p fd = None)
     \<and> closed p = []"

lemma initClientInfo_inv:
  assumes "v4_fresh p"
  shows "v4_inv (initClientInfo fd p)" "promises (initClientInfo fd p) = {#}"
    "0 \<le> fd \<Longrightarrow> v4_listens fd (initClientInfo fd p)" "v4_work (initClientInfo fd p) = 0"
proof -
  let ?init = "(clients p)[0 := (clients p ! 0)\<lparr>pfd := fd, events := POLLIN\<rparr>]"
  let ?cl = "fold (\<lambda>i cl. cl[i := (cl ! i)\<lparr>pfd := - 1\<rparr>]) [1..<OPEN_MAX] ?init"
  have "0 < length ?init" using assms by (simp add: v4_fresh_def)
  then have len: "length ?cl = Suc OPEN_MAX"
    using assms fold_free [where j = 0 and cl = ?init and ks = "[1..<OPEN_MAX]"] by (simp add: v4_fresh_def)
  have "pfd (?cl ! i) = - 1" if "1 \<le> i" "i < OPEN_MAX" for i
    using assms that fold_free [where j = i and cl = ?init and ks = "[1..<OPEN_MAX]"] by (simp add: v4_fresh_def)
  then have act: "active (fds_of (initClientInfo fd p)) = {}"
    using len by (auto simp: active_def fds_of_def initClientInfo_def Let_def)
  have tab: "fdtab p = Map.empty" using assms by (auto simp: v4_fresh_def)
  have "slots_ok (fds_of (initClientInfo fd p)) 0 0 Map.empty"
    using act len by (simp add: slots_ok_def fds_of_def initClientInfo_def Let_def OPEN_MAX_def)
  then show "v4_inv (initClientInfo fd p)"
    using assms tab by (simp add: v4_inv_def v4_fresh_def server_ok_def initClientInfo_def Let_def fds_of_def)
  show "promises (initClientInfo fd p) = {#}"
    using assms tab by (simp add: promises_def v4_fresh_def initClientInfo_def Let_def)
  have "pfd (?cl ! 0) = fd"
    using assms fold_free [where j = 0 and cl = ?init and ks = "[1..<OPEN_MAX]"] by (simp add: v4_fresh_def)
  then show "v4_listens fd (initClientInfo fd p)" if "0 \<le> fd"
    using that tab by (simp add: v4_listens_def initClientInfo_def Let_def)
  show "v4_work (initClientInfo fd p) = 0" using tab by (simp add: v4_work_def initClientInfo_def Let_def)
qed

section \<open>Properties\<close>

lemma v4_idle:
  assumes "v4_inv p" and "v4_total acc p = 0"
  shows "connections acc = []" and "\<forall>c \<in> ran (fdtab p). promised c = Some (sent c)"
proof -
  show "connections acc = []" using assms(2) by (cases "connections acc") (auto simp: v4_total_def)
  have "rq c = [] \<and> promised c \<noteq> None" if c: "c \<in> ran (fdtab p)" for c
  proof -
    obtain f where f: "fdtab p f = Some c" using c unfolding ran_def by blast
    have "\<forall>x \<in> dom (fdtab p). rq (the (fdtab p x)) = []"
      using assms(2) v4_inv_finite [OF assms(1)] by (simp add: v4_total_def v4_work_def)
    then have "rq c = []" using f by force
    then show ?thesis using f assms(1) by (auto simp: v4_inv_def)
  qed
  then show "\<forall>c \<in> ran (fdtab p). promised c = Some (sent c)" by (auto simp: promised_def)
qed

text \<open>Seven clients at once take eight connections to turn one away.\<close>

lemma v4_full_count:
  assumes "v4_inv p" and "promises p = mset (map f new)" and "curClient p = 7"
  shows "7 \<le> length new"
proof -
  have "card (dom (fdtab p)) = 7"
    using v4_inv_slots [OF assms(1)] assms(3) by (simp add: slots_ok_def card_image)
  moreover have "size (promises p) = card (dom (fdtab p)) + length (closed p)" by (simp add: promises_def)
  ultimately show ?thesis using assms(2) by simp
qed

text \<open>C4: The multiplexing server keeps its table and serves everybody, also when other clients stay connected
  in silence.  For every sequence of connections and schedule of \<^verbatim>\<open>poll\<close> results, which tell only what is
  there and may tell it late: the loop never faults; when no connection is aborted before it is accepted it
  waits in \<^verbatim>\<open>poll\<close> only, never in the read of a client, so that it goes on with what \<^verbatim>\<open>poll\<close> reports next;
  the slots, \<^verbatim>\<open>maxClient\<close>, \<^verbatim>\<open>curClient\<close> and the open descriptors agree; a closed connection has got the
  replies to its segments, in order; the promises to all clients taken in are those of the protocol.  It
  exits only when a client comes while seven are served, and only that client is lost.  When fewer than
  eight clients come and \<^verbatim>\<open>poll\<close> reports all there is often enough, every client has been taken in and has
  got the replies to all it sent.  A segment is what one read takes: at most \<^verbatim>\<open>BUF_SIZE\<close> bytes, with a
  reply of the protocol.\<close>

theorem doServer_v4_serves_all:
  assumes "v4_fresh p" and "arrivals_ok acc" and "host_name env \<noteq> None"
    and "\<forall>fd. cls fd = Inr ()" and "0 \<le> listenFd"
  shows "\<exists>s acc' p' new lost. doServer_v4 env cls (map Inr ws) acc listenFd p = (s, acc', p')
     \<and> s \<in> {Blocks, Exits 1}
     \<and> slots_ok (fds_of p') (maxClient p') (curClient p') (fdtab p')
     \<and> (\<forall>(fd, c) \<in> set (closed p'). promised c = Some (sent c))
     \<and> connections acc = new @ lost @ connections acc'
     \<and> promises p' = mset (map (promised \<circ> link) new)
     \<and> (if s = Exits 1 then length lost = 1 \<and> curClient p' = 7 else lost = [])
     \<and> ((\<forall>e. Inl e \<notin> set acc) \<and> s = Blocks \<longrightarrow>
          (\<forall>evs. doServer_v4 env cls (map Inr ws @ evs) acc listenFd p = v4_loop env cls listenFd evs acc' p'))
     \<and> ((\<forall>e. Inl e \<notin> set acc) \<and> length acc < OPEN_MAX
          \<and> sum_list (map (\<lambda>i. Suc (length (rq (link i)))) (connections acc)) \<le> length (filter full_report ws) \<longrightarrow>
          s = Blocks \<and> acc' = [] \<and> (\<forall>c \<in> ran (fdtab p'). promised c = Some (sent c)))"
proof -
  let ?p = "initClientInfo listenFd p"
  note init = initClientInfo_inv [OF assms(1), of listenFd]
  from v4_loop_outcome [OF init(1) init(3) [OF assms(5)] assms(2-4)] obtain s acc' p' where
    r: "v4_loop env cls listenFd (map Inr ws) acc ?p = (s, acc', p')" "s \<noteq> Returns" "v4_outcome listenFd acc ?p s acc' p'"
      "(\<forall>e. Inl e \<notin> set acc) \<and> s = Blocks \<longrightarrow>
         (\<forall>evs. v4_loop env cls listenFd (map Inr ws @ evs) acc ?p = v4_loop env cls listenFd evs acc' p')
       \<and> (v4_total acc ?p \<le> length (filter full_report ws) \<longrightarrow> v4_total acc' p' = 0)" by blast
  obtain new lost where n: "connections acc = new @ lost @ connections acc'"
    "promises p' = mset (map (promised \<circ> link) new)"
    "if s = Exits 1 then length lost = 1 \<and> curClient p' = 7 else lost = []"
    using r(3) init(2) unfolding v4_outcome_def by auto
  have inv: "v4_inv p'" and s: "s \<in> {Blocks, Exits 1}" and sub: "set acc' \<subseteq> set acc" using r(2,3) by (auto simp: v4_outcome_def)
  have "s = Blocks \<and> acc' = [] \<and> (\<forall>c \<in> ran (fdtab p'). promised c = Some (sent c))"
    if h: "\<forall>e. Inl e \<notin> set acc" "length acc < OPEN_MAX"
      "sum_list (map (\<lambda>i. Suc (length (rq (link i)))) (connections acc)) \<le> length (filter full_report ws)"
  proof -
    have "length (connections xs) \<le> length xs" for xs by (induction xs) (auto simp: connections_def split: sum.splits)
    from this [of acc] have "s = Blocks"
      using s n v4_full_count [OF inv n(2)] h(2) by (auto simp: OPEN_MAX_def split: if_splits)
    moreover from this have z: "v4_total acc' p' = 0" using r(4) h(1,3) init(4) by (auto simp: v4_total_def)
    moreover have "acc' = []" using v4_idle(1) [OF inv z] sub h(1) by (cases acc'; cases "hd acc'") auto
    ultimately show ?thesis using v4_idle(2) [OF inv z] by blast
  qed
  with r(1,4) n s inv show ?thesis
    by (intro exI [of _ s] exI [of _ acc'] exI [of _ p'] exI [of _ new] exI [of _ lost])
      (auto simp: doServer_v4_def v4_inv_def)
qed

definition init_v4 :: server_v4 where
  "init_v4 = server.extend init_server
     \<lparr>clients = replicate (Suc OPEN_MAX) \<lparr>pfd = 0, events = 0, revents = 0\<rparr>, maxClient = 0,
      curClient = 0, fdtab = (\<lambda>_. None), closed = []\<rparr>"

text \<open>Two clients for the examples: one asks and stays, the other asks and leaves.\<close>

definition v4_caller :: "rd_event list \<Rightarrow> incoming" where
  "v4_caller es = \<lparr>link = \<lparr>rq = es, wq = [], sent = []\<rparr>, peer = Some \<lparr>sin_addr = (10, 0, 0, 1), sin_port = 99\<rparr>,
     locl = Some \<lparr>sin_addr = (10, 0, 0, 2), sin_port = 21597\<rparr>, closes = Inr ()\<rparr>"

theorem doServer_v4_serves_all_witness:
  "\<exists>p'. doServer_v4 \<lparr>host_of = (\<lambda>_. None), host_name = Some ''srv''\<rparr> (\<lambda>_. Inr ()) (map Inr (replicate 5 (\<lambda>_. Some 0)))
       [Inr (v4_caller [Seg ''Qx='']), Inr (v4_caller [Seg ''Q9+9='', Fin])] 3 init_v4 = (Blocks, [], p')
     \<and> (\<forall>c \<in> ran (fdtab p'). promised c = Some (sent c)) \<and> promises p' = {#Some ''X='', Some ''A18=''#}"
proof -
  let ?acc = "[Inr (v4_caller [Seg ''Qx='']), Inr (v4_caller [Seg ''Q9+9='', Fin])] :: (errno + incoming) list"
  have x: "reply ''Qx='' = Inr (Some ''X='')"
    by (simp add: reply_def well_formed_def answer_to_def add_format_def sub_format_def cstr_def sscanf.simps
        scan_int_def scan_nat_def scan_digits.simps answer_msg_def isdigit_def)
  have pr: "promised (link (v4_caller [Seg ''Qx=''])) = Some ''X=''"
    "promised (link (v4_caller [Seg ''Q9+9='', Fin])) = Some ''A18=''"
    by (simp_all add: v4_caller_def promised_def x reply_Q9plus9 BUF_SIZE_def)
  let ?e = "\<lparr>host_of = (\<lambda>_. None), host_name = Some ''srv''\<rparr>" and ?cls = "\<lambda>_ :: int. Inr () :: errno + unit"
  let ?ws = "replicate 5 (\<lambda>_ :: int. Some (0 :: 16 word))"
  have acc: "arrivals_ok ?acc" by (simp add: arrivals_ok_def pr) (simp add: v4_caller_def all_writes_def)
  have fresh: "v4_fresh init_v4" by (simp add: v4_fresh_def init_v4_def server.defs init_server_def server_ok_def)
  have env: "host_name ?e \<noteq> None" and cls: "\<forall>fd. ?cls fd = Inr ()" and l: "(0 :: int) \<le> 3" by simp_all
  from doServer_v4_serves_all [where ws = ?ws and cls = ?cls, OF fresh acc env cls l] obtain s acc' p' new lost where
    r: "doServer_v4 ?e ?cls (map Inr ?ws) ?acc 3 init_v4 = (s, acc', p')"
      "connections ?acc = new @ lost @ connections acc'" "promises p' = mset (map (promised \<circ> link) new)"
      "if s = Exits 1 then length lost = 1 \<and> curClient p' = 7 else lost = []"
      "(\<forall>e. Inl e \<notin> set ?acc) \<and> length ?acc < OPEN_MAX
        \<and> sum_list (map (\<lambda>i. Suc (length (rq (link i)))) (connections ?acc)) \<le> length (filter full_report ?ws) \<longrightarrow>
        s = Blocks \<and> acc' = [] \<and> (\<forall>c \<in> ran (fdtab p'). promised c = Some (sent c))"
    by blast
  have "s = Blocks \<and> acc' = [] \<and> (\<forall>c \<in> ran (fdtab p'). promised c = Some (sent c))"
    using r(5) by (simp add: OPEN_MAX_def full_report_def v4_caller_def)
  with r pr show ?thesis by auto
qed

end
