(* ===== verification/Netcalc_Client.thy ===== *)
theory Netcalc_Client
  imports Netcalc_Util Unp_Wrap
begin

text \<open>
  The clients that wait for the answer to each question before they read the next: version 1
  (\<^verbatim>\<open>netcalc_clnt.c\<close>), for which one \<^verbatim>\<open>Read\<close> is one answer, and version 2
  (\<^verbatim>\<open>netcalc_clnt_v2.c\<close>), which reads with \<^verbatim>\<open>readAppMsg\<close>; their main functions; and what all
  clients share.
\<close>

section \<open>The state of a client\<close>

text \<open>The globals (in version 4: locals) \<^verbatim>\<open>ioBuf\<close> and \<^verbatim>\<open>msgBuf\<close>.\<close>

record client = netcalc +
  ioBuf :: string
  msgBuf :: string

definition client_ok :: "'a client_scheme \<Rightarrow> bool" where
  "client_ok p \<longleftrightarrow> length (ioBuf p) = ARRAY_SIZE \<and> length (msgBuf p) = ARRAY_SIZE"

section \<open>The shared steps\<close>

text \<open>
  \<^verbatim>\<open>fgets(ioBuf, BUF_SIZE, stdin)\<close> and \<^verbatim>\<open>buildReq(ioBuf, strlen(ioBuf), msgBuf, &msgLen)\<close>.
  On success the request is in \<^verbatim>\<open>msgBuf\<close> and its length is the result; otherwise the client
  complains and dumps the line, which is the same in every version but for the function name.
\<close>

datatype req = NoInput | Request nat | BadLine | ReqFault fault

definition complain ::
    "string \<Rightarrow> string \<Rightarrow> string \<Rightarrow> nat \<Rightarrow> 'a client_scheme \<Rightarrow> stop \<times> 'a client_scheme" where
  "complain fn what buf n p =
     (let p1 = printf (''!!'' @ fn @ '': '' @ what @ nl) p in
      case DUMP_BUF (debugFlag p) buf n of
        Inl f \<Rightarrow> (Undef f, p1)
      | Inr t \<Rightarrow> (Returns, printf t p1))"

definition next_request :: "'a client_scheme \<Rightarrow> req \<times> 'a client_scheme" where
  "next_request p =
     (case fgets BUF_SIZE (inp p) of
        None \<Rightarrow> (NoInput, p)
      | Some (line, rest) \<Rightarrow>
          (case store_str (ioBuf p) line of
             Inl f \<Rightarrow> (ReqFault f, p\<lparr>inp := rest\<rparr>)
           | Inr io \<Rightarrow>
               (let p1 = p\<lparr>inp := rest, ioBuf := io\<rparr> in
                case buildReq io (length (cstr io)) (msgBuf p1) 0 of
                  Inl f \<Rightarrow> (ReqFault f, p1)
                | Inr (rc, mb, ml) \<Rightarrow>
                    (if rc = SUCCESS then Request ml else BadLine, p1\<lparr>msgBuf := mb\<rparr>))))"

text \<open>
  \<^verbatim>\<open>parseRes(msgBuf, n, ioBuf)\<close> and either \<^verbatim>\<open>fputs(ioBuf, stdout)\<close> or the complaint with a dump
  of the message.
\<close>

definition show_response :: "string \<Rightarrow> nat \<Rightarrow> 'a client_scheme \<Rightarrow> stop \<times> 'a client_scheme" where
  "show_response fn n p =
     (case parseRes (msgBuf p) n (ioBuf p) of
        Inl f \<Rightarrow> (Undef f, p)
      | Inr (rc, mb, io) \<Rightarrow>
          (let p1 = p\<lparr>msgBuf := mb, ioBuf := io\<rparr> in
           if rc = SUCCESS then (Returns, printf (cstr io) p1)
           else complain fn ''parseRes failed'' (msgBuf p1) n p1))"

lemma fgets_BUF_SIZE: "fgets BUF_SIZE s = Some (l, r) \<Longrightarrow> length r < length s"
  using fgets_shorter [of BUF_SIZE s l r] unfolding BUF_SIZE_def by simp

lemma next_request_shorter:
  "next_request p = (r, p1) \<Longrightarrow> r \<noteq> NoInput \<Longrightarrow> length (inp p1) < length (inp p)"
proof (cases "fgets BUF_SIZE (inp p)")
  case (Some lr)
  then obtain l rest where "lr = (l, rest)" "length rest < length (inp p)"
    using fgets_BUF_SIZE by (cases lr) blast
  with Some show "next_request p = (r, p1) \<Longrightarrow> length (inp p1) < length (inp p)"
    by (auto simp: next_request_def Let_def split: sum.splits)
qed (auto simp: next_request_def)

lemma complain_frame:
  "complain fn what buf n p = (s, p1) \<Longrightarrow>
   inp p1 = inp p \<and> msgBuf p1 = msgBuf p \<and> ioBuf p1 = ioBuf p \<and> debugFlag p1 = debugFlag p"
  by (auto simp: complain_def printf_def Let_def split: sum.splits)

lemma show_response_inp: "show_response fn n p = (s, p1) \<Longrightarrow> inp p1 = inp p"
  by (auto simp: show_response_def Let_def printf_def dest: complain_frame
      split: sum.splits if_splits prod.splits)

lemma Write_inp: "Write d c p = (s, c', p') \<Longrightarrow> inp p' = inp p"
  by (auto simp: Write_def err_sys_def split: wr_result.splits if_splits prod.splits)

section \<open>Version 2\<close>

function doClient_v2 :: "conn \<Rightarrow> 'a client_scheme \<Rightarrow> stop \<times> conn \<times> 'a client_scheme" where
  "doClient_v2 c p =
     (case next_request p of
        (NoInput, p1) \<Rightarrow> (Returns, c, p1)
      | (ReqFault f, p1) \<Rightarrow> (Undef f, c, p1)
      | (BadLine, p1) \<Rightarrow>
          (case complain ''doClient'' ''buildReq failed'' (ioBuf p1) (length (cstr (ioBuf p1))) p1 of
             (s, p2) \<Rightarrow> if s = Returns then doClient_v2 c p2 else (s, c, p2))
      | (Request msgLen, p1) \<Rightarrow>
          (case Write (take msgLen (msgBuf p1)) c p1 of
             (s, c1, p2) \<Rightarrow>
               if s \<noteq> Returns then (s, c1, p2)
               else
                 (case readAppMsg BUF_SIZE (msgBuf p2) (rq c1) of
                    (len, mb, es) \<Rightarrow>
                      (let c2 = c1\<lparr>rq := es\<rparr>; p3 = p2\<lparr>msgBuf := mb\<rparr> in
                       case len of
                         Waits \<Rightarrow> (Blocks, c2, p3)
                       | Faults f \<Rightarrow> (Undef f, c2, p3)
                       | Len n \<Rightarrow>
                           if n \<le> 0 then (Returns, c2, p3)
                           else (case show_response ''doClient'' (nat n) p3 of
                               (s, p4) \<Rightarrow> if s = Returns then doClient_v2 c2 p4 else (s, c2, p4))))))"
  by pat_completeness auto
termination
  by (relation "measure (\<lambda>(c, p). length (inp p))")
    (auto dest!: next_request_shorter [OF sym] complain_frame [OF sym] show_response_inp [OF sym]
      Write_inp [OF sym])


declare doClient_v2.simps [simp del]

section \<open>Version 1\<close>

text \<open>The loop of \<^verbatim>\<open>main\<close> in \<^verbatim>\<open>netcalc_clnt.c\<close>: a response is what one \<^verbatim>\<open>Read\<close> gives.\<close>

function client_loop_v1 :: "conn \<Rightarrow> 'a client_scheme \<Rightarrow> stop \<times> conn \<times> 'a client_scheme" where
  "client_loop_v1 c p =
     (case next_request p of
        (NoInput, p1) \<Rightarrow> (Returns, c, p1)
      | (ReqFault f, p1) \<Rightarrow> (Undef f, c, p1)
      | (BadLine, p1) \<Rightarrow>
          (case complain ''main'' ''buildReq failed'' (ioBuf p1) (length (cstr (ioBuf p1))) p1 of
             (s, p2) \<Rightarrow> if s = Returns then client_loop_v1 c p2 else (s, c, p2))
      | (Request msgLen, p1) \<Rightarrow>
          (case Write (take msgLen (msgBuf p1)) c p1 of
             (s, c1, p2) \<Rightarrow>
               if s \<noteq> Returns then (s, c1, p2)
               else
                 (case Read BUF_SIZE c1 p2 of
                    Inl (s, p3) \<Rightarrow> (s, c1, p3)
                  | Inr ((d, c2), p3) \<Rightarrow>
                      if length d = 0 then (Returns, c2, p3)
                      else
                        (case store (msgBuf p3) 0 d of
                           Inl f \<Rightarrow> (Undef f, c2, p3)
                         | Inr mb \<Rightarrow>
                             (case show_response ''main'' (length d) (p3\<lparr>msgBuf := mb\<rparr>) of
                                (s, p4) \<Rightarrow>
                                  if s = Returns then client_loop_v1 c2 p4 else (s, c2, p4))))))"
  by pat_completeness auto
termination
  by (relation "measure (\<lambda>(c, p). length (inp p))")
    (auto simp: Read_def split: prod.splits rd_result.splits
      dest!: next_request_shorter [OF sym] complain_frame [OF sym] show_response_inp [OF sym]
      Write_inp [OF sym])

declare client_loop_v1.simps [simp del]


section \<open>The main functions\<close>

text \<open>What the kernel and the name service answer while a client sets itself up.\<close>

record ckernel =
  c_socket :: "errno + int"
  c_pton :: "string \<Rightarrow> int"
  c_host :: "string \<Rightarrow> (string \<times> (8 word \<times> 8 word \<times> 8 word \<times> 8 word)) option"
  c_connect :: "errno + unit"
  c_sockname :: "sockaddr_in option"
  c_hostname :: "string option"
  c_close :: "errno + unit"

definition NETCALC_SERV_PORT :: "16 word" where "NETCALC_SERV_PORT = 21597"

text \<open>\<^verbatim>\<open>main\<close> of \<^verbatim>\<open>netcalc_clnt.c\<close>; it leaves by \<^verbatim>\<open>exit(0)\<close>.\<close>

definition main_clnt_v1 ::
    "string list \<Rightarrow> ckernel \<Rightarrow> conn \<Rightarrow> 'a client_scheme \<Rightarrow> stop \<times> conn \<times> 'a client_scheme" where
  "main_clnt_v1 argv k c p =
     (if length argv \<noteq> 2
      then (case err_quit (''Usage: '' @ argv0 argv @ '' <IPaddress>'') p of (s, p1) \<Rightarrow> (s, c, p1))
      else proceed c (Socket (c_socket k) p) (\<lambda>sockFd p1.
           proceed c (Inet_pton (c_pton k (argv ! 1)) (argv ! 1) p1) (\<lambda>_ p2.
           proceed c (Connect (c_connect k) p2) (\<lambda>_ p3.
             (case client_loop_v1 c p3 of
                (s, c1, p4) \<Rightarrow>
                  and_then c1 (s, p4) (\<lambda>p4.
                  proceed c1 (Close (c_close k) p4) (\<lambda>_ p5. (Exits 0, c1, p5))))))))"

text \<open>\<^verbatim>\<open>main\<close> of \<^verbatim>\<open>netcalc_clnt_main.c\<close>, for the \<^verbatim>\<open>doClient\<close> it is linked with.\<close>

definition clnt_main ::
    "string list \<Rightarrow> ckernel \<Rightarrow> (conn \<Rightarrow> 'p proc_scheme \<Rightarrow> stop \<times> conn \<times> 'p proc_scheme)
     \<Rightarrow> conn \<Rightarrow> 'p proc_scheme \<Rightarrow> stop \<times> conn \<times> 'p proc_scheme" where
  "clnt_main argv k doClient c p =
     (if length argv \<noteq> 2
      then (case err_quit (''Usage: '' @ argv0 argv @ '' <hostname>'') p of (s, p1) \<Rightarrow> (s, c, p1))
      else proceed c (Socket (c_socket k) p) (\<lambda>sockFd p1.
        (case c_host k (argv ! 1) of
           None \<Rightarrow>
             (case err_quit (''gethostbyname failed for host '' @ argv ! 1) p1 of
                (s, p2) \<Rightarrow> (s, c, p2))
         | Some (h_name, h_addr) \<Rightarrow>
             (let servAddr = \<lparr>sin_addr = h_addr, sin_port = NETCALC_SERV_PORT\<rparr> in
              proceed c (Connect (c_connect k) p1) (\<lambda>_ p2.
              and_then c (dumpLocalSockAddr (c_sockname k) (c_hostname k)
                  (printf (dumpAddr ''Peer'' h_name servAddr) p2)) (\<lambda>p3.
                (case doClient c p3 of
                   (s, c1, p4) \<Rightarrow>
                     and_then c1 (s, p4) (\<lambda>p4.
                     proceed c1 (Close (c_close k) p4) (\<lambda>_ p5. (Exits 0, c1, p5)))))))))) "

section \<open>What the steps do\<close>

text \<open>
  A line the user types: characters that are neither newline nor null, at least one, and few
  enough for \<^verbatim>\<open>fgets\<close>.
\<close>

definition input_line :: "string \<Rightarrow> bool" where
  "input_line l \<longleftrightarrow> l \<noteq> [] \<and> CHR 0x0A \<notin> set l \<and> nul \<notin> set l \<and> Suc (length l) < BUF_SIZE"

lemma request_line: "request (l @ nl) = OPCODE_QUESTION # l @ [MSG_TERMINATOR]"
  by (simp add: request_def butlast_append)

lemma next_request_eq:
  assumes "input_line l" and "inp p = l @ nl @ rest" and "client_ok p"
  obtains iob mb where
    "next_request p = (Request (length l + 2), p\<lparr>inp := rest, ioBuf := iob, msgBuf := mb\<rparr>)"
    "take (length l + 2) mb = request (l @ nl)"
    "length iob = ARRAY_SIZE" "length mb = ARRAY_SIZE"
proof -
  have l: "CHR 0x0A \<notin> set l" "nul \<notin> set l" "Suc (length l) < BUF_SIZE" "l \<noteq> []"
    using assms(1) by (simp_all add: input_line_def)
  have io: "length (ioBuf p) = ARRAY_SIZE" "length (msgBuf p) = ARRAY_SIZE"
    using assms(3) by (simp_all add: client_ok_def)
  have f: "fgets BUF_SIZE (inp p) = Some (l @ nl, rest)"
    unfolding assms(2) using l(1,3) by (rule fgets_full_line)
  define iob where "iob = (l @ nl) @ nul # drop (Suc (length (l @ nl))) (ioBuf p)"
  have st: "store_str (ioBuf p) (l @ nl) = Inr iob"
    using l(3) io by (simp add: store_str_Inr_iff iob_def ARRAY_SIZE_def)
  have c: "cstr iob = l @ nl"
    unfolding iob_def using l(2) by (intro cstr_append_nul) auto
  have liob: "length iob = ARRAY_SIZE" using l(3) io by (simp add: iob_def ARRAY_SIZE_def)
  have n: "length (l @ nl) \<le> length iob" "Suc (length (l @ nl)) \<le> length (msgBuf p)"
    using l(3) io liob by (simp_all add: ARRAY_SIZE_def)
  have tk: "take (length (l @ nl)) iob = l @ nl" by (simp add: iob_def)
  define mb where "mb = splice (msgBuf p) 0 (request (l @ nl))"
  have b: "buildReq iob (length (cstr iob)) (msgBuf p) 0 = Inr (SUCCESS, mb, length l + 2)"
    using buildReq_eq [OF n, of 0] tk l(4) by (simp add: c mb_def)
  have lr: "length (request (l @ nl)) = length l + 2" by (simp add: request_line)
  show thesis
  proof (rule that)
    show "next_request p = (Request (length l + 2), p\<lparr>inp := rest, ioBuf := iob, msgBuf := mb\<rparr>)"
      by (simp add: next_request_def f st b Let_def)
    show "take (length l + 2) mb = request (l @ nl)"
      using take_splice_0 [of "request (l @ nl)" "msgBuf p"] by (simp add: mb_def lr)
    show "length iob = ARRAY_SIZE" by (rule liob)
    show "length mb = ARRAY_SIZE" using io n lr by (simp add: mb_def)
  qed
qed

lemma next_request_line:
  assumes "input_line l" and "inp p = l @ nl @ rest" and "client_ok p"
  obtains p1 where "next_request p = (Request (length l + 2), p1)"
    "take (length l + 2) (msgBuf p1) = request (l @ nl)" "inp p1 = rest" "out p1 = out p"
    "client_ok p1"
proof -
  obtain iob mb where e:
    "next_request p = (Request (length l + 2), p\<lparr>inp := rest, ioBuf := iob, msgBuf := mb\<rparr>)"
    "take (length l + 2) mb = request (l @ nl)"
    "length iob = ARRAY_SIZE" "length mb = ARRAY_SIZE"
    using assms by (rule next_request_eq)
  then show thesis
    by (intro that [of "p\<lparr>inp := rest, ioBuf := iob, msgBuf := mb\<rparr>"]) (simp_all add: client_ok_def)
qed

lemma shown_no_nul: "shown m = Some t \<Longrightarrow> nul \<notin> set t"
  by (auto simp: shown_def split: if_splits)

lemma show_response_shown:
  assumes "client_ok p" and "n \<le> BUF_SIZE" and "shown (take n (msgBuf p)) = Some t"
  obtains p1 where "show_response fn n p = (Returns, p1)" "out p1 = out p @ t"
    "inp p1 = inp p" "client_ok p1"
proof -
  define mb where "mb = (if msgBuf p ! 0 = OPCODE_ANSWER then (msgBuf p)[n - 1 := nul] else msgBuf p)"
  define io where "io = t @ nul # drop (Suc (length t)) (ioBuf p)"
  have len: "length (ioBuf p) = ARRAY_SIZE" "length (msgBuf p) = ARRAY_SIZE"
    using assms(1) by (simp_all add: client_ok_def)
  have "parseRes (msgBuf p) n (ioBuf p) = Inr (SUCCESS, mb, io)"
    using parseRes_client [OF assms(2) len(2,1)] assms(3) by (simp add: mb_def io_def)
  moreover have "cstr io = t"
    unfolding io_def using shown_no_nul [OF assms(3)] by (rule cstr_append_nul)
  moreover have "length t \<le> BUF_SIZE + 7"
    using length_shown [OF assms(3)] assms(2) by (auto simp: BUF_SIZE_def)
  then have "client_ok (p\<lparr>msgBuf := mb, ioBuf := io\<rparr>)"
    using len by (simp add: client_ok_def mb_def io_def ARRAY_SIZE_def)
  ultimately show thesis
    using that [of "printf t (p\<lparr>msgBuf := mb, ioBuf := io\<rparr>)"]
    by (simp add: show_response_def printf_def client_ok_def Let_def)
qed

section \<open>Version 2 in a dialogue\<close>

lemma doClient_v2_turn:
  assumes "client_ok p" "all_writes c" "input_line l" "inp p = l @ nl @ rest"
    and "payload (rq c) = m @ s" "is_msg m" "length m < BUF_SIZE" "shown m = Some t"
  obtains c' p' where "doClient_v2 c p = doClient_v2 c' p'" "client_ok p'" "all_writes c'"
    "inp p' = rest" "payload (rq c') = s" "after (rq c') = after (rq c)"
    "sent c' = sent c @ request (l @ nl)" "out p' = out p @ t"
proof -
  obtain p1 where p1: "next_request p = (Request (length l + 2), p1)"
    "take (length l + 2) (msgBuf p1) = request (l @ nl)" "inp p1 = rest" "out p1 = out p"
    "client_ok p1" using assms(3,4,1) by (rule next_request_line)
  obtain q where q: "Write (request (l @ nl)) c p1
      = (Returns, c\<lparr>wq := q, sent := sent c @ request (l @ nl)\<rparr>, p1)" "set q \<subseteq> set (wq c)"
    using Write_all [OF assms(2)] by blast
  let ?c1 = "c\<lparr>wq := q, sent := sent c @ request (l @ nl)\<rparr>"
  obtain b where b: "m = b @ [MSG_TERMINATOR]" "MSG_TERMINATOR \<notin> set b"
    using assms(6) by (rule is_msgE)
  have mpos: "m \<noteq> []" using b(1) by simp
  have mbl: "length (msgBuf p1) = ARRAY_SIZE" using p1(5) by (simp add: client_ok_def)
  have pre: "payload (rq ?c1) = b @ MSG_TERMINATOR # s" "Suc (length b) < BUF_SIZE"
    "BUF_SIZE \<le> Suc (length (msgBuf p1))"
    using assms(5,7) b(1) mbl by (simp_all add: ARRAY_SIZE_def)
  obtain es where es: "readAppMsg BUF_SIZE (msgBuf p1) (rq ?c1)
      = (Len (int (length m)), splice (msgBuf p1) 0 m, es)"
    "payload es = s" "after es = after (rq c)"
    using readAppMsg_message [OF pre(1) b(2) pre(2,3)] b(1) by auto
  let ?p2 = "p1\<lparr>msgBuf := splice (msgBuf p1) 0 m\<rparr>"
  have "client_ok ?p2" using p1(5) mbl assms(7) by (simp add: client_ok_def ARRAY_SIZE_def)
  moreover have "shown (take (length m) (msgBuf ?p2)) = Some t"
    using take_splice_0 [of m "msgBuf p1"] assms(8) by simp
  ultimately obtain p3 where p3: "show_response ''doClient'' (length m) ?p2 = (Returns, p3)"
    "out p3 = out ?p2 @ t" "inp p3 = inp ?p2" "client_ok p3"
    using show_response_shown [of ?p2 "length m" t "''doClient''"] assms(7) by auto
  have "doClient_v2 c p = doClient_v2 (?c1\<lparr>rq := es\<rparr>) p3"
    using p1(1,2) q(1) es(1) p3(1) mpos
    by (subst doClient_v2.simps) (simp add: Let_def)
  then show thesis
    using p1 q(2) es p3 assms(2)
    by (intro that [of "?c1\<lparr>rq := es\<rparr>" p3]) (auto simp: all_writes_def)
qed

lemma doClient_v2_end: "inp p = [] \<Longrightarrow> doClient_v2 c p = (Returns, c, p)"
  by (subst doClient_v2.simps) (simp add: next_request_def fgets_def)

text \<open>
  A dialogue: one line of input and one response that is understood for every turn.  The
  client sends the requests in order and shows the responses in order, however the responses
  are cut into segments.
\<close>

record turn =
  t_line :: string
  t_msg :: string
  t_shown :: string

definition turn_ok :: "turn \<Rightarrow> bool" where
  "turn_ok t \<longleftrightarrow> input_line (t_line t) \<and> is_msg (t_msg t) \<and> length (t_msg t) < BUF_SIZE
     \<and> shown (t_msg t) = Some (t_shown t)"

lemma doClient_v2_dialogue:
  assumes "client_ok p" "all_writes c" "\<forall>t \<in> set ts. turn_ok t"
    and "inp p = concat (map (\<lambda>t. t_line t @ nl) ts)"
    and "payload (rq c) = concat (map t_msg ts) @ s"
  obtains c' p' where "doClient_v2 c p = (Returns, c', p')"
    "sent c' = sent c @ concat (map (\<lambda>t. request (t_line t @ nl)) ts)"
    "out p' = out p @ concat (map t_shown ts)" "payload (rq c') = s"
  using assms
proof (induction ts arbitrary: c p thesis)
  case Nil
  then show ?case using doClient_v2_end [of p c] by auto
next
  case (Cons t ts)
  have t: "input_line (t_line t)" "is_msg (t_msg t)" "length (t_msg t) < BUF_SIZE"
    "shown (t_msg t) = Some (t_shown t)" using Cons.prems(4) by (simp_all add: turn_ok_def)
  have i: "inp p = t_line t @ nl @ concat (map (\<lambda>t. t_line t @ nl) ts)"
    and pl: "payload (rq c) = t_msg t @ (concat (map t_msg ts) @ s)"
    using Cons.prems(5,6) by simp_all
  obtain c1 p1 where one: "doClient_v2 c p = doClient_v2 c1 p1" "client_ok p1" "all_writes c1"
    "inp p1 = concat (map (\<lambda>t. t_line t @ nl) ts)" "payload (rq c1) = concat (map t_msg ts) @ s"
    "sent c1 = sent c @ request (t_line t @ nl)" "out p1 = out p @ t_shown t"
    using doClient_v2_turn [OF Cons.prems(2,3) t(1) i pl t(2-4)] by blast
  obtain c2 p2 where "doClient_v2 c1 p1 = (Returns, c2, p2)"
    "sent c2 = sent c1 @ concat (map (\<lambda>t. request (t_line t @ nl)) ts)"
    "out p2 = out p1 @ concat (map t_shown ts)" "payload (rq c2) = s"
    using Cons.IH [OF _ one(2,3) _ one(4,5)] Cons.prems(4) by auto
  then show ?case using one by (intro Cons.prems(1)) auto
qed

end
