(* ===== verification/Netcalc_Parse_Buf.thy ===== *)
theory Netcalc_Parse_Buf
  imports Netcalc_Client
begin

text \<open>
  The client that multiplexes its input and the socket (\<^verbatim>\<open>netcalc_clnt_v3.c\<close>): the parse buffer
  that collects what arrives until messages are complete, and the loop over \<^verbatim>\<open>Poll\<close>.  The
  buffer is proved to deliver exactly the messages of the stream, and the loop to show every
  response and to send every request whatever the schedule of the two descriptors.
\<close>

section \<open>The parse buffer\<close>

text \<open>\<^verbatim>\<open>struct parseBuf_t\<close>, whose array holds \<^verbatim>\<open>BUF_SIZE*2\<close> characters.\<close>

record parseBuf =
  curSize :: nat
  pbuf :: string

definition PARSE_SIZE :: nat where "PARSE_SIZE = BUF_SIZE * 2"

text \<open>
  The state of the client: the global \<^verbatim>\<open>psBuf\<close>, and of the locals of \<^verbatim>\<open>doClient\<close>
  \<^verbatim>\<open>fdArray[0].fd\<close>, as whether it is still polled, and \<^verbatim>\<open>writeShut\<close>.
\<close>

record client_v3 = client +
  psBuf :: parseBuf
  inPolled :: bool
  writeShut :: int

definition initParseBuf :: "'a client_v3_scheme \<Rightarrow> 'a client_v3_scheme" where
  "initParseBuf p = p\<lparr>psBuf := (psBuf p)\<lparr>curSize := 0\<rparr>\<rparr>"

definition appendParseBuf ::
    "string \<Rightarrow> nat \<Rightarrow> 'a client_v3_scheme \<Rightarrow> stop \<times> 'a client_v3_scheme" where
  "appendParseBuf buf len p =
     (if BUF_SIZE < len + curSize (psBuf p) then err_quit ''parseBuf overflow'' p
      else if length buf < len then (Undef Overrun, p)
      else
        (case store (pbuf (psBuf p)) (curSize (psBuf p)) (take len buf) of
           Inl f \<Rightarrow> (Undef f, p)
         | Inr b \<Rightarrow>
             (let p1 = p\<lparr>psBuf := \<lparr>curSize = curSize (psBuf p) + len, pbuf = b\<rparr>\<rparr> in
              case DUMP_BUF (debugFlag p1) (pbuf (psBuf p1)) (curSize (psBuf p1)) of
                Inl f \<Rightarrow> (Undef f, p1)
              | Inr t \<Rightarrow> (Returns, printf t p1))))"

text \<open>The search loop of \<^verbatim>\<open>getAppMsg\<close>: \<open>left\<close> counts the bytes from \<open>ptr\<close> to the end of the data.\<close>

fun find_end :: "string \<Rightarrow> nat \<Rightarrow> nat" where
  "find_end ptr 0 = 0"
| "find_end [] (Suc left) = Suc left"
| "find_end (c # ptr) (Suc left) = (if c = MSG_TERMINATOR then 0 else Suc (find_end ptr left))"

text \<open>
  \<^verbatim>\<open>getAppMsg\<close> gives the number it returns, the parse buffer and the user buffer.  The move of
  what is left is \<^verbatim>\<open>bcopy\<close>, which allows the two areas to overlap.
\<close>

definition getAppMsg :: "parseBuf \<Rightarrow> string \<Rightarrow> fault + (nat \<times> parseBuf \<times> string)" where
  "getAppMsg ps buf =
     (if curSize ps = 0 then Inr (0, ps, buf)
      else if length (pbuf ps) < curSize ps then Inl Overrun
      else
        (let i = find_end (pbuf ps) (curSize ps) in
         if i = curSize ps then Inr (0, ps, buf)
         else
           (let i = Suc i in
            case store buf 0 (take i (pbuf ps)) of
              Inl f \<Rightarrow> Inl f
            | Inr buf1 \<Rightarrow>
                (case store (pbuf ps) 0 (take (curSize ps - i) (drop i (pbuf ps))) of
                   Inl f \<Rightarrow> Inl f
                 | Inr pb1 \<Rightarrow> Inr (i, \<lparr>curSize = curSize ps - i, pbuf = pb1\<rparr>, buf1)))))"

section \<open>The buffer holds a string\<close>

text \<open>The abstraction: the bytes that wait for their terminator.\<close>

definition pending :: "parseBuf \<Rightarrow> string" where
  "pending ps = take (curSize ps) (pbuf ps)"

definition parseBuf_ok :: "parseBuf \<Rightarrow> bool" where
  "parseBuf_ok ps \<longleftrightarrow> length (pbuf ps) = PARSE_SIZE \<and> curSize ps \<le> BUF_SIZE"

lemma length_pending: "parseBuf_ok ps \<Longrightarrow> length (pending ps) = curSize ps"
  by (simp add: parseBuf_ok_def pending_def PARSE_SIZE_def)

lemma find_end_none:
  "left \<le> length s \<Longrightarrow> find_end s left = left \<longleftrightarrow> MSG_TERMINATOR \<notin> set (take left s)"
  by (induction s left rule: find_end.induct) auto

lemma find_end_first:
  "MSG_TERMINATOR \<notin> set b \<Longrightarrow> length b < left \<Longrightarrow>
   find_end (b @ MSG_TERMINATOR # r) left = length b"
proof (induction b arbitrary: left)
  case Nil
  then show ?case by (cases left) auto
next
  case (Cons c b)
  then show ?case by (cases left) auto
qed

lemma getAppMsg_none:
  assumes "parseBuf_ok ps" and "MSG_TERMINATOR \<notin> set (pending ps)"
  shows "getAppMsg ps buf = Inr (0, ps, buf)"
  using assms find_end_none [of "curSize ps" "pbuf ps"]
  by (auto simp: getAppMsg_def pending_def parseBuf_ok_def PARSE_SIZE_def)

lemma getAppMsg_some:
  assumes ok: "parseBuf_ok ps" and pend: "pending ps = m @ r" and m: "is_msg m"
    and fits: "length m \<le> length buf"
  obtains ps' where "getAppMsg ps buf = Inr (length m, ps', splice buf 0 m)"
    "pending ps' = r" "parseBuf_ok ps'"
proof -
  obtain b where b: "m = b @ [MSG_TERMINATOR]" "MSG_TERMINATOR \<notin> set b"
    using m by (rule is_msgE)
  have len: "length (pbuf ps) = PARSE_SIZE" "curSize ps \<le> BUF_SIZE"
    "curSize ps = length m + length r"
    using ok length_pending [OF ok] pend by (simp_all add: parseBuf_ok_def)
  have pb: "pbuf ps = m @ r @ drop (curSize ps) (pbuf ps)"
    using pend append_take_drop_id [of "curSize ps" "pbuf ps"] by (simp add: pending_def)
  have fe: "find_end (pbuf ps) (curSize ps) = length b"
  proof -
    have e: "pbuf ps = b @ MSG_TERMINATOR # (r @ drop (curSize ps) (pbuf ps))"
      using pb b(1) by simp
    show ?thesis
      by (subst e, rule find_end_first [OF b(2)]) (simp add: len(3) b(1))
  qed
  have t1: "take (length m) (pbuf ps) = m" by (subst pb) simp
  have t2: "take (curSize ps - length m) (drop (length m) (pbuf ps)) = r"
    using len(3) by (subst pb) simp
  let ?ps = "\<lparr>curSize = length r, pbuf = splice (pbuf ps) 0 r\<rparr>"
  have "length r \<le> length (pbuf ps)" using len by (simp add: PARSE_SIZE_def)
  then have "getAppMsg ps buf = Inr (length m, ?ps, splice buf 0 m)"
    using fe b len t1 t2 fits by (simp add: getAppMsg_def store_def Let_def PARSE_SIZE_def)
  moreover have "pending ?ps = r" by (simp add: pending_def take_splice_0)
  moreover have "parseBuf_ok ?ps" using len by (simp add: parseBuf_ok_def PARSE_SIZE_def)
  ultimately show thesis by (rule that)
qed

text \<open>The buffer is a source of messages: the state is the parse buffer and the user buffer.\<close>

definition ps_next :: "parseBuf \<times> string \<Rightarrow> (string \<times> (parseBuf \<times> string)) option" where
  "ps_next s = (case getAppMsg (fst s) (snd s) of
       Inl f \<Rightarrow> None
     | Inr (n, ps, buf) \<Rightarrow> if n = 0 then None else Some (take n buf, (ps, buf)))"

definition ps_stream :: "parseBuf \<times> string \<Rightarrow> string" where
  "ps_stream s = pending (fst s)"

definition ps_ok :: "parseBuf \<times> string \<Rightarrow> bool" where
  "ps_ok s \<longleftrightarrow> parseBuf_ok (fst s) \<and> length (snd s) = ARRAY_SIZE"

interpretation parsed: exact_source ARRAY_SIZE ps_stream ps_ok ps_next
proof
  fix s m r
  assume ok: "ps_ok s" and st: "ps_stream s = m @ r" and m: "is_msg m" and len: "length m < ARRAY_SIZE"
  have "m \<noteq> []" using m by (simp add: is_msg_def)
  have fits: "length m \<le> length (snd s)" and pb: "parseBuf_ok (fst s)"
    using ok len by (simp_all add: ps_ok_def)
  obtain ps' where ps': "getAppMsg (fst s) (snd s) = Inr (length m, ps', splice (snd s) 0 m)"
    "pending ps' = r" "parseBuf_ok ps'"
    using getAppMsg_some [OF pb st [unfolded ps_stream_def] m fits] by blast
  have "ps_next s = Some (m, (ps', splice (snd s) 0 m))"
    using ps'(1) \<open>m \<noteq> []\<close> by (simp add: ps_next_def take_splice_0)
  moreover have "ps_ok (ps', splice (snd s) 0 m)"
    using ps'(3) ok fits by (simp add: ps_ok_def)
  ultimately show "\<exists>s'. ps_next s = Some (m, s') \<and> ps_stream s' = r \<and> ps_ok s'"
    using ps'(2) by (auto simp: ps_stream_def)
next
  fix s
  assume "ps_ok s" and "MSG_TERMINATOR \<notin> set (ps_stream s)"
  then show "ps_next s = None"
    using getAppMsg_none [of "fst s" "snd s"]
    by (simp add: ps_next_def ps_stream_def ps_ok_def)
qed

text \<open>Taking messages while there are any gives all of them, and leaves the incomplete rest.\<close>

lemma pending_frames:
  assumes "ps_ok s" and "frames (ps_stream s) = (ms, r)"
  shows "\<exists>s'. parsed.take_msgs (length ms) s = Some (ms, s') \<and> ps_stream s' = r \<and> ps_ok s'
    \<and> ps_next s' = None"
proof (rule parsed.take_frames [OF assms])
  have "length (concat ms @ r) \<le> BUF_SIZE"
    using frames_sound(1) [OF assms(2)] assms(1) length_pending [of "fst s"]
    by (simp add: ps_ok_def ps_stream_def parseBuf_ok_def)
  then show "\<forall>m \<in> set ms. length m < ARRAY_SIZE"
    by (auto simp: ARRAY_SIZE_def dest!: split_list)
qed

section \<open>Properties\<close>

text \<open>The parse buffer delivers exactly the complete messages of the bytes it holds, in order, and
  keeps the incomplete rest; then \<^verbatim>\<open>getAppMsg\<close> returns 0.\<close>

theorem getAppMsg_delivers_frames:
  assumes "ps_ok (ps, buf)" and "frames (pending ps) = (ms, r)"
  shows "\<exists>s'. parsed.take_msgs (length ms) (ps, buf) = Some (ms, s') \<and> pending (fst s') = r
     \<and> ps_ok s' \<and> getAppMsg (fst s') (snd s') = Inr (0, fst s', snd s')"
proof -
  obtain s' where s': "parsed.take_msgs (length ms) (ps, buf) = Some (ms, s')" "ps_stream s' = r" "ps_ok s'"
    using pending_frames [of "(ps, buf)"] assms by (auto simp: ps_stream_def)
  then have "getAppMsg (fst s') (snd s') = Inr (0, fst s', snd s')"
    using frames_sound(3) [OF assms(2)] by (intro getAppMsg_none) (auto simp: ps_ok_def ps_stream_def)
  then show ?thesis using s' by (auto simp: ps_stream_def)
qed

theorem getAppMsg_delivers_frames_witness:
  "\<exists>s'. parsed.take_msgs (length [''A1='', ''X='']) (\<lparr>curSize = 7, pbuf = ''A1=X=A2'' @ replicate 4089 nul\<rparr>,
         replicate ARRAY_SIZE nul) = Some ([''A1='', ''X=''], s') \<and> pending (fst s') = ''A2''
     \<and> ps_ok s' \<and> getAppMsg (fst s') (snd s') = Inr (0, fst s', snd s')"
  by (rule getAppMsg_delivers_frames)
    (simp_all add: ps_ok_def parseBuf_ok_def PARSE_SIZE_def BUF_SIZE_def pending_def frames_def)

end
