(* ===== verification/Netcalc_Client_V3.thy ===== *)
theory Netcalc_Client_V3
  imports Netcalc_Parse_Buf
begin

text \<open>
  The loop of the client that multiplexes its input and the socket (\<^verbatim>\<open>doClient\<close> in
  \<^verbatim>\<open>netcalc_clnt_v3.c\<close>).  The schedule is a script of the results of \<^verbatim>\<open>Poll\<close>: for each call
  whether \<^verbatim>\<open>POLLIN | POLLERR\<close> is set for the standard input and for the socket.
\<close>

section \<open>One turn of the loop\<close>

text \<open>
  The standard input is ready: a line becomes a request, or the end of the input shuts the
  socket down for writing.  \<open>sh\<close> is what the kernel answers to \<^verbatim>\<open>shutdown\<close>.
\<close>

definition v3_input ::
    "errno + unit \<Rightarrow> conn \<Rightarrow> 'a client_v3_scheme \<Rightarrow> stop \<times> conn \<times> 'a client_v3_scheme" where
  "v3_input sh c p =
     (case next_request p of
        (NoInput, p1) \<Rightarrow>
          proceed c (Shutdown sh p1) (\<lambda>_ p2. (Returns, c, p2\<lparr>writeShut := 1, inPolled := False\<rparr>))
      | (ReqFault f, p1) \<Rightarrow> (Undef f, c, p1)
      | (BadLine, p1) \<Rightarrow>
          (case complain ''doClient'' ''buildReq failed'' (ioBuf p1) (length (cstr (ioBuf p1))) p1 of
             (s, p2) \<Rightarrow> (s, c, p2))
      | (Request msgLen, p1) \<Rightarrow> Write (take msgLen (msgBuf p1)) c p1)"

text \<open>The inner loop: the messages that are complete in the parse buffer.\<close>

lemma getAppMsg_less:
  "getAppMsg ps buf = Inr (n, ps', buf') \<Longrightarrow> 0 < n \<Longrightarrow> curSize ps' < curSize ps"
  by (auto simp: getAppMsg_def Let_def split: if_splits sum.splits)

lemma show_response_psBuf: "show_response fn n p = (s, p1) \<Longrightarrow> psBuf p1 = psBuf p"
  by (auto simp: show_response_def complain_def printf_def Let_def split: sum.splits if_splits)

function v3_show :: "'a client_v3_scheme \<Rightarrow> stop \<times> 'a client_v3_scheme" where
  "v3_show p =
     (case getAppMsg (psBuf p) (msgBuf p) of
        Inl f \<Rightarrow> (Undef f, p)
      | Inr (n, ps, mb) \<Rightarrow>
          (let p1 = p\<lparr>psBuf := ps, msgBuf := mb\<rparr> in
           if n = 0 then (Returns, p1)
           else (case show_response ''doClient'' n p1 of
               (s, p2) \<Rightarrow> if s = Returns then v3_show p2 else (s, p2))))"
  by pat_completeness auto
termination
  by (relation "measure (\<lambda>p. curSize (psBuf p))")
    (auto dest!: show_response_psBuf [OF sym] getAppMsg_less)

declare v3_show.simps [simp del]

text \<open>The socket is ready.  The second component tells whether the loop ends by \<^verbatim>\<open>break\<close>.\<close>

definition v3_socket ::
    "conn \<Rightarrow> 'a client_v3_scheme \<Rightarrow> (stop \<times> bool) \<times> conn \<times> 'a client_v3_scheme" where
  "v3_socket c p =
     (case conn_read BUF_SIZE c of
        (RdFail e, c1) \<Rightarrow>
          (case err_quit ''read error'' (p\<lparr>errnum := e\<rparr>) of (s, p1) \<Rightarrow> ((s, False), c1, p1))
      | (RdWait, c1) \<Rightarrow> ((Blocks, False), c1, p)
      | (Eof, c1) \<Rightarrow>
          if writeShut p = 1 then ((Returns, True), c1, p)
          else (case err_quit ''read error'' p of (s, p1) \<Rightarrow> ((s, False), c1, p1))
      | (Got d, c1) \<Rightarrow>
          (case store (msgBuf p) 0 d of
             Inl f \<Rightarrow> ((Undef f, False), c1, p)
           | Inr mb \<Rightarrow>
               (case appendParseBuf mb (length d) (p\<lparr>msgBuf := mb\<rparr>) of
                  (s, p1) \<Rightarrow>
                    if s \<noteq> Returns then ((s, False), c1, p1)
                    else (case v3_show p1 of (s, p2) \<Rightarrow> ((s, False), c1, p2)))))"

fun v3_loop ::
    "errno + unit \<Rightarrow> (errno + bool \<times> bool) list \<Rightarrow> conn \<Rightarrow> 'a client_v3_scheme
     \<Rightarrow> stop \<times> conn \<times> 'a client_v3_scheme" where
  "v3_loop sh [] c p = (Blocks, c, p)"
| "v3_loop sh (ev # evs) c p =
     proceed c (Poll ev p) (\<lambda>(inReady, sockReady) p1.
       (case (if inReady \<and> inPolled p1 then v3_input sh c p1 else (Returns, c, p1)) of
          (s, c2, p2) \<Rightarrow>
            if s \<noteq> Returns then (s, c2, p2)
            else if sockReady then
              (case v3_socket c2 p2 of
                 ((s, brk), c3, p3) \<Rightarrow>
                   if s \<noteq> Returns \<or> brk then (s, c3, p3) else v3_loop sh evs c3 p3)
            else v3_loop sh evs c2 p2))"

definition doClient_v3 ::
    "errno + unit \<Rightarrow> (errno + bool \<times> bool) list \<Rightarrow> conn \<Rightarrow> 'a client_v3_scheme
     \<Rightarrow> stop \<times> conn \<times> 'a client_v3_scheme" where
  "doClient_v3 sh evs c p = v3_loop sh evs c (initParseBuf (p\<lparr>inPolled := True, writeShut := 0\<rparr>))"

section \<open>What is printed for the bytes that arrive\<close>

definition dump_text :: "int \<Rightarrow> string \<Rightarrow> string" where
  "dump_text flag m = (case DUMP_BUF flag m (length m) of Inl _ \<Rightarrow> [] | Inr t \<Rightarrow> t)"

lemma DUMP_BUF_take: "n \<le> length buf \<Longrightarrow> DUMP_BUF flag buf n = Inr (dump_text flag (take n buf))"
  by (simp add: DUMP_BUF_def dumpBuf_def dump_text_def)

text \<open>A message on the screen: its text, or the complaint about it.\<close>

definition display :: "string \<Rightarrow> int \<Rightarrow> string \<Rightarrow> string" where
  "display fn flag m = (case shown m of
       Some t \<Rightarrow> t
     | None \<Rightarrow> (''!!'' @ fn @ '': parseRes failed'' @ nl) @ dump_text flag m)"

text \<open>
  The output for the chunks that the reads deliver, when the bytes \<open>pend\<close> have been waiting:
  the dump of the parse buffer, then the messages that are complete.
\<close>

fun chunks_out :: "string \<Rightarrow> int \<Rightarrow> string \<Rightarrow> string list \<Rightarrow> string" where
  "chunks_out fn flag pend [] = []"
| "chunks_out fn flag pend (ch # chs) =
     dump_text flag (pend @ ch) @ concat (map (display fn flag) (fst (frames (pend @ ch))))
     @ chunks_out fn flag (snd (frames (pend @ ch))) chs"

text \<open>With the dumps off only the messages of the whole stream show, however it was cut.\<close>

lemma chunks_out_quiet:
  "MSG_TERMINATOR \<notin> set pend \<Longrightarrow>
   chunks_out fn 0 pend chs = concat (map (display fn 0) (fst (frames (pend @ concat chs))))"
proof (induction chs arbitrary: pend)
  case Nil
  then show ?case by (simp add: frames_rest)
next
  case (Cons ch chs)
  obtain ms r where f: "frames (pend @ ch) = (ms, r)" by (cases "frames (pend @ ch)") auto
  have "MSG_TERMINATOR \<notin> set r" using f by (rule frames_sound(3))
  with Cons.IH [of r] f frames_append [OF f, of "concat chs"] show ?case
    by (simp add: dump_text_def DUMP_BUF_def split: prod.splits)
qed

lemma show_response_display:
  assumes "client_ok p" and "n \<le> BUF_SIZE"
  obtains mb io where
    "show_response fn n p = (Returns, p\<lparr>msgBuf := mb, ioBuf := io,
       out := out p @ display fn (debugFlag p) (take n (msgBuf p))\<rparr>)"
    "length mb = ARRAY_SIZE" "length io = ARRAY_SIZE"
proof -
  have len: "length (ioBuf p) = ARRAY_SIZE" "length (msgBuf p) = ARRAY_SIZE"
    using assms(1) by (simp_all add: client_ok_def)
  note pr = parseRes_client [OF assms(2) len(2,1)]
  have d: "DUMP_BUF (debugFlag p) (msgBuf p) n = Inr (dump_text (debugFlag p) (take n (msgBuf p)))"
    using assms(2) len by (intro DUMP_BUF_take) (simp add: ARRAY_SIZE_def)
  show thesis
  proof (cases "shown (take n (msgBuf p))")
    case None
    then show ?thesis
      using pr d len that [where mb = "msgBuf p" and io = "ioBuf p"]
      by (simp add: show_response_def complain_def display_def printf_def)
  next
    case (Some t)
    define mb where "mb = (if msgBuf p ! 0 = OPCODE_ANSWER then (msgBuf p)[n - 1 := nul] else msgBuf p)"
    define io where "io = t @ nul # drop (Suc (length t)) (ioBuf p)"
    have "length t \<le> BUF_SIZE + 7"
      using length_shown [OF Some] assms(2) by (auto simp: BUF_SIZE_def)
    then have "length mb = ARRAY_SIZE" "length io = ARRAY_SIZE"
      using len by (simp_all add: mb_def io_def ARRAY_SIZE_def)
    moreover have "cstr io = t"
      unfolding io_def using shown_no_nul [OF Some] by (rule cstr_append_nul)
    moreover have "parseRes (msgBuf p) n (ioBuf p) = Inr (SUCCESS, mb, io)"
      using pr Some by (simp add: mb_def io_def)
    ultimately show ?thesis
      using Some that [where mb = mb and io = io] by (simp add: show_response_def display_def printf_def Let_def)
  qed
qed

section \<open>The turns against the protocol\<close>

definition v3_ok :: "'a client_v3_scheme \<Rightarrow> bool" where
  "v3_ok p \<longleftrightarrow> client_ok p \<and> parseBuf_ok (psBuf p)"

lemma v3_show_frames:
  assumes "v3_ok p" and "frames (pending (psBuf p)) = (ms, r)"
  shows "\<exists>mb io ps. v3_show p = (Returns, p\<lparr>msgBuf := mb, ioBuf := io, psBuf := ps,
      out := out p @ concat (map (display ''doClient'' (debugFlag p)) ms)\<rparr>)
    \<and> length mb = ARRAY_SIZE \<and> length io = ARRAY_SIZE \<and> parseBuf_ok ps \<and> pending ps = r"
  using assms
proof (induction ms arbitrary: p)
  case Nil
  have "pending (psBuf p) = r" using frames_sound(1) [OF Nil.prems(2)] by simp
  moreover have "MSG_TERMINATOR \<notin> set r" using Nil.prems(2) by (rule frames_sound(3))
  ultimately have "v3_show p = (Returns, p)"
    using getAppMsg_none [of "psBuf p" "msgBuf p"] Nil.prems(1)
    by (subst v3_show.simps) (simp add: v3_ok_def)
  moreover have "p = p\<lparr>msgBuf := msgBuf p, ioBuf := ioBuf p, psBuf := psBuf p, out := out p\<rparr>"
    by simp
  ultimately show ?case
    using Nil.prems(1) \<open>pending (psBuf p) = r\<close>
    by (intro exI [of _ "msgBuf p"] exI [of _ "ioBuf p"] exI [of _ "psBuf p"])
      (simp add: v3_ok_def client_ok_def)
next
  case (Cons m ms)
  have pend: "pending (psBuf p) = m @ (concat ms @ r)" and m: "\<forall>m' \<in> set (m # ms). is_msg m'"
    using frames_sound(1,2) [OF Cons.prems(2)] by simp_all
  have ok: "parseBuf_ok (psBuf p)" "client_ok p" using Cons.prems(1) by (simp_all add: v3_ok_def)
  have len: "length m \<le> BUF_SIZE"
    using length_pending [OF ok(1)] ok(1) pend by (simp add: parseBuf_ok_def)
  then have fits: "length m \<le> length (msgBuf p)"
    using ok(2) by (simp add: client_ok_def ARRAY_SIZE_def)
  have "is_msg m" using m by simp
  from getAppMsg_some [OF ok(1) pend this fits] obtain ps where
    ps: "getAppMsg (psBuf p) (msgBuf p) = Inr (length m, ps, splice (msgBuf p) 0 m)"
    "pending ps = concat ms @ r" "parseBuf_ok ps" by blast
  let ?p1 = "p\<lparr>psBuf := ps, msgBuf := splice (msgBuf p) 0 m\<rparr>"
  have c1: "client_ok ?p1" using ok(2) fits by (simp add: client_ok_def)
  have tk: "take (length m) (msgBuf ?p1) = m" using take_splice_0 by simp
  obtain mb io where "show_response ''doClient'' (length m) ?p1 = (Returns, ?p1\<lparr>msgBuf := mb,
      ioBuf := io, out := out ?p1 @ display ''doClient'' (debugFlag ?p1) (take (length m) (msgBuf ?p1))\<rparr>)"
    and lens: "length mb = ARRAY_SIZE" "length io = ARRAY_SIZE"
    using show_response_display [OF c1 len, of "''doClient''"] by blast
  then have s: "show_response ''doClient'' (length m) ?p1 = (Returns, ?p1\<lparr>msgBuf := mb,
      ioBuf := io, out := out p @ display ''doClient'' (debugFlag p) m\<rparr>)"
    using tk by simp
  let ?p2 = "?p1\<lparr>msgBuf := mb, ioBuf := io, out := out p @ display ''doClient'' (debugFlag p) m\<rparr>"
  have "v3_ok ?p2" using lens ps(3) by (simp add: v3_ok_def client_ok_def)
  moreover have "frames (pending (psBuf ?p2)) = (ms, r)"
    using ps(2) m frames_sound(3) [OF Cons.prems(2)] by (simp add: frames_unique)
  ultimately obtain mb' io' ps' where rest: "v3_show ?p2 = (Returns, ?p2\<lparr>msgBuf := mb', ioBuf := io',
      psBuf := ps', out := out ?p2 @ concat (map (display ''doClient'' (debugFlag ?p2)) ms)\<rparr>)"
    "length mb' = ARRAY_SIZE" "length io' = ARRAY_SIZE" "parseBuf_ok ps'" "pending ps' = r"
    using Cons.IH [of ?p2] by blast
  have "m \<noteq> []" using m by (simp add: is_msg_def)
  then have "v3_show p = v3_show ?p2"
    using ps(1) s(1) by (subst v3_show.simps) (simp add: Let_def)
  with rest show ?case by (intro exI [of _ mb'] exI [of _ io'] exI [of _ ps']) simp
qed

lemma appendParseBuf_fits:
  assumes "v3_ok p" and "length d + length (pending (psBuf p)) \<le> BUF_SIZE"
    and "take (length d) buf = d" and "length d \<le> length buf"
  obtains ps where "appendParseBuf buf (length d) p = (Returns, p\<lparr>psBuf := ps,
      out := out p @ dump_text (debugFlag p) (pending (psBuf p) @ d)\<rparr>)"
    "parseBuf_ok ps" "pending ps = pending (psBuf p) @ d"
proof -
  let ?ps = "psBuf p"
  have ok: "parseBuf_ok ?ps" using assms(1) by (simp add: v3_ok_def)
  then have l: "length (pbuf ?ps) = PARSE_SIZE" "length (pending ?ps) = curSize ?ps"
    by (simp_all add: length_pending) (simp add: parseBuf_ok_def)
  let ?b = "splice (pbuf ?ps) (curSize ?ps) d"
  have fit: "curSize ?ps + length d \<le> length (pbuf ?ps)"
    using assms(2) l by (simp add: PARSE_SIZE_def)
  let ?new = "\<lparr>curSize = curSize ?ps + length d, pbuf = ?b\<rparr>"
  have pend: "pending ?new = pending ?ps @ d"
    using take_splice_end [OF fit] by (simp add: pending_def)
  have "parseBuf_ok ?new" using fit l assms(2) by (simp add: parseBuf_ok_def)
  moreover have "DUMP_BUF (debugFlag p) ?b (curSize ?ps + length d)
      = Inr (dump_text (debugFlag p) (pending ?ps @ d))"
    using DUMP_BUF_take [of "curSize ?ps + length d" ?b "debugFlag p"] pend fit
    by (simp add: pending_def)
  ultimately show thesis
    using that [of ?new] pend fit assms l
    by (simp add: appendParseBuf_def store_def printf_def Let_def)
qed

lemma v3_socket_chunk:
  assumes "v3_ok p" and "conn_read BUF_SIZE c = (Got d, c1)"
    and "length d + length (pending (psBuf p)) \<le> BUF_SIZE"
    and "frames (pending (psBuf p) @ d) = (ms, r)"
  shows "\<exists>mb io ps. v3_socket c p = ((Returns, False), c1, p\<lparr>msgBuf := mb, ioBuf := io,
      psBuf := ps, out := out p @ dump_text (debugFlag p) (pending (psBuf p) @ d)
        @ concat (map (display ''doClient'' (debugFlag p)) ms)\<rparr>)
    \<and> length mb = ARRAY_SIZE \<and> length io = ARRAY_SIZE \<and> parseBuf_ok ps \<and> pending ps = r"
proof -
  let ?mb = "splice (msgBuf p) 0 d"
  have len: "length d \<le> length (msgBuf p)" "length (msgBuf p) = ARRAY_SIZE"
    using assms(1,3) by (simp_all add: v3_ok_def client_ok_def ARRAY_SIZE_def)
  let ?p1 = "p\<lparr>msgBuf := ?mb\<rparr>"
  have ok1: "v3_ok ?p1" using assms(1) len by (simp add: v3_ok_def client_ok_def)
  have st: "store (msgBuf p) 0 d = Inr ?mb" using len by (simp add: store_def)
  obtain ps where ps: "appendParseBuf ?mb (length d) ?p1 = (Returns, ?p1\<lparr>psBuf := ps,
      out := out p @ dump_text (debugFlag p) (pending (psBuf p) @ d)\<rparr>)"
    "parseBuf_ok ps" "pending ps = pending (psBuf p) @ d"
    using appendParseBuf_fits [OF ok1, of d ?mb] assms(3) len take_splice_0 [of d "msgBuf p"] by auto
  let ?p2 = "?p1\<lparr>psBuf := ps, out := out p @ dump_text (debugFlag p) (pending (psBuf p) @ d)\<rparr>"
  have ok2: "v3_ok ?p2" using ok1 ps(2) by (simp add: v3_ok_def client_ok_def)
  have "frames (pending (psBuf ?p2)) = (ms, r)" using ps(3) assms(4) by simp
  from v3_show_frames [OF ok2 this] obtain mb io ps' where
    "v3_show ?p2 = (Returns, ?p2\<lparr>msgBuf := mb, ioBuf := io, psBuf := ps',
       out := out ?p2 @ concat (map (display ''doClient'' (debugFlag ?p2)) ms)\<rparr>)"
    "length mb = ARRAY_SIZE" "length io = ARRAY_SIZE" "parseBuf_ok ps'" "pending ps' = r" by blast
  then show ?thesis
    using assms(2) st ps(1)
    by (intro exI [of _ mb] exI [of _ io] exI [of _ ps']) (simp add: v3_socket_def)
qed

section \<open>The loop against the protocol\<close>

text \<open>
  The lines that are still to be typed, and what the two locals of the loop say about them.
\<close>

definition v3_typed :: "string list \<Rightarrow> 'a client_v3_scheme \<Rightarrow> bool" where
  "v3_typed ls p \<longleftrightarrow>
     (if inPolled p
      then inp p = concat (map (\<lambda>l. l @ nl) ls) \<and> (\<forall>l \<in> set ls. input_line l) \<and> writeShut p = 0
      else ls = [] \<and> writeShut p = 1)"

lemma v3_input_end:
  assumes "v3_typed [] p" and "inPolled p"
  shows "v3_input (Inr ()) c p = (Returns, c, p\<lparr>writeShut := 1, inPolled := False\<rparr>)"
  using assms by (simp add: v3_typed_def v3_input_def next_request_def fgets_def Shutdown_def)

lemma v3_input_line:
  assumes "v3_typed (l # ls) p" and "v3_ok p" and "all_writes c"
  obtains q iob mb where "v3_input sh c p = (Returns,
      c\<lparr>wq := q, sent := sent c @ request (l @ nl)\<rparr>,
      p\<lparr>inp := concat (map (\<lambda>l. l @ nl) ls), ioBuf := iob, msgBuf := mb\<rparr>)"
    "set q \<subseteq> set (wq c)" "length iob = ARRAY_SIZE" "length mb = ARRAY_SIZE"
proof -
  let ?rest = "concat (map (\<lambda>l. l @ nl) ls)"
  have pre: "input_line l" "inp p = l @ nl @ ?rest" "client_ok p"
    using assms(1,2) by (simp_all add: v3_typed_def v3_ok_def split: if_splits)
  obtain iob mb where e:
    "next_request p = (Request (length l + 2), p\<lparr>inp := ?rest, ioBuf := iob, msgBuf := mb\<rparr>)"
    "take (length l + 2) mb = request (l @ nl)"
    "length iob = ARRAY_SIZE" "length mb = ARRAY_SIZE"
    using pre by (rule next_request_eq)
  obtain q where "Write (request (l @ nl)) c (p\<lparr>inp := ?rest, ioBuf := iob, msgBuf := mb\<rparr>)
      = (Returns, c\<lparr>wq := q, sent := sent c @ request (l @ nl)\<rparr>,
         p\<lparr>inp := ?rest, ioBuf := iob, msgBuf := mb\<rparr>)" "set q \<subseteq> set (wq c)"
    using Write_all [OF assms(3)] by blast
  with e show thesis by (intro that [where q = q and iob = iob and mb = mb]) (simp_all add: v3_input_def)
qed

text \<open>
  Responses that the parse buffer can take: no message, and no rest, is longer than \<open>k\<close>, and
  every segment leaves \<open>k\<close> bytes of \<^verbatim>\<open>BUF_SIZE\<close> free.
\<close>

definition gentle :: "nat \<Rightarrow> string \<Rightarrow> rd_event list \<Rightarrow> bool" where
  "gentle k pend es \<longleftrightarrow> MSG_TERMINATOR \<notin> set pend
     \<and> (case frames (pend @ payload es) of (ms, r) \<Rightarrow> \<forall>m \<in> set (r # ms). length m \<le> k)
     \<and> (\<forall>e \<in> set es. case e of Seg s \<Rightarrow> length s + k \<le> BUF_SIZE | _ \<Rightarrow> True)"

lemma frames_first:
  assumes "frames (b @ p) = (ms, r)" and "MSG_TERMINATOR \<notin> set b"
  shows "\<exists>m \<in> set (r # ms). length b \<le> length m"
proof (cases ms)
  case Nil
  then show ?thesis using frames_sound(1) [OF assms(1)] by (auto dest: arg_cong [where f = length])
next
  case (Cons m ms')
  then obtain a where a: "m = a @ [MSG_TERMINATOR]"
    using frames_sound(2) [OF assms(1)] by (auto elim!: is_msgE)
  have "b @ p = a @ MSG_TERMINATOR # (concat ms' @ r)"
    using frames_sound(1) [OF assms(1)] Cons a by simp
  then have "length b \<le> length a"
    using assms(2) by (auto simp: append_eq_append_conv2 append_eq_Cons_conv Cons_eq_append_conv)
  then show ?thesis using Cons a by auto
qed

lemma gentle_read:
  assumes "gentle k pend es" and "sys_read n es = (Got d, es')" and "frames (pend @ d) = (ms, r)"
  shows "length d + length pend \<le> BUF_SIZE" "gentle k r es'"
proof -
  have pl: "payload es = d @ payload es'" using sys_read_Got [OF assms(2)] by simp
  obtain ms2 r2 where f2: "frames (r @ payload es') = (ms2, r2)" by (cases "frames (r @ payload es')") auto
  have f: "frames (pend @ payload es) = (ms @ ms2, r2)"
    using frames_append [OF assms(3), of "payload es'"] f2 pl by simp
  then have b: "\<forall>m \<in> set (r2 # ms @ ms2). length m \<le> k"
    using assms(1) by (auto simp: gentle_def)
  have pk: "length pend \<le> k"
    using frames_first [OF f] assms(1) b by (fastforce simp: gentle_def)
  have sg: "\<forall>s. Seg s \<in> set es \<longrightarrow> length s \<le> BUF_SIZE - k" "k \<le> BUF_SIZE"
    using assms(1) sys_read_Got_mem [OF assms(2)] by (force simp: gentle_def)+
  note bd = sys_read_Got_bound [OF assms(2) sg(1)]
  show "length d + length pend \<le> BUF_SIZE" using conjunct1 [OF bd] pk sg(2) by linarith
  have "length s + k \<le> BUF_SIZE" if "Seg s \<in> set es'" for s
    using bd that sg(2) by fastforce
  then show "gentle k r es'"
    using f2 b frames_sound(3) [OF assms(3)] by (auto simp: gentle_def split: rd_event.split)
qed

text \<open>The first half of a turn sends at most one request.\<close>

lemma v3_input_turn:
  assumes "v3_typed ls p" and "v3_ok p" and "all_writes c"
  obtains c2 p2 ls2 n where
    "(if i \<and> inPolled p then v3_input (Inr ()) c p else (Returns, c, p)) = (Returns, c2, p2)"
    "v3_ok p2" "all_writes c2" "v3_typed ls2 p2" "rq c2 = rq c" "psBuf p2 = psBuf p"
    "out p2 = out p" "debugFlag p2 = debugFlag p" "ls2 = drop n ls" "n \<le> length ls"
    "sent c2 = sent c @ concat (map (\<lambda>l. request (l @ nl)) (take n ls))"
proof (cases "i \<and> inPolled p")
  case False
  then show thesis using assms by (intro that [of c p ls 0]) auto
next
  case True
  show thesis
  proof (cases ls)
    case Nil
    with True assms v3_input_end [of p c] show thesis
      by (intro that [of c "p\<lparr>writeShut := 1, inPolled := False\<rparr>" "[]" 0])
        (auto simp: v3_ok_def client_ok_def v3_typed_def)
  next
    case (Cons l ls')
    note typed = assms(1) [unfolded Cons]
    obtain q iob mb where v: "v3_input (Inr ()) c p = (Returns,
        c\<lparr>wq := q, sent := sent c @ request (l @ nl)\<rparr>,
        p\<lparr>inp := concat (map (\<lambda>l. l @ nl) ls'), ioBuf := iob, msgBuf := mb\<rparr>)"
      "set q \<subseteq> set (wq c)" "length iob = ARRAY_SIZE" "length mb = ARRAY_SIZE"
      by (rule v3_input_line [OF typed assms(2,3), of "Inr ()"])
    let ?c2 = "c\<lparr>wq := q, sent := sent c @ request (l @ nl)\<rparr>"
    let ?p2 = "p\<lparr>inp := concat (map (\<lambda>l. l @ nl) ls'), ioBuf := iob, msgBuf := mb\<rparr>"
    have "all_writes ?c2" using v(2) assms(3) by (auto simp: all_writes_def)
    moreover have "v3_ok ?p2" using assms(2) v(3,4) by (simp add: v3_ok_def client_ok_def)
    moreover have "v3_typed ls' ?p2" using typed True by (simp add: v3_typed_def)
    ultimately show thesis using v(1) True Cons by (intro that [of ?c2 ?p2 ls' 1]) simp_all
  qed
qed

text \<open>
  The loop, for every schedule: what has been read is shown and the lines that have been read
  are sent; when it ends by itself both are complete.
\<close>

lemma v3_loop_run:
  assumes "v3_ok p" and "all_writes c" and "v3_typed ls p"
    and "gentle k (pending (psBuf p)) (rq c)"
  shows "\<exists>s c' p' chs n rest. v3_loop (Inr ()) (map Inr evs) c p = (s, c', p')
    \<and> payload (rq c) = concat chs @ rest
    \<and> out p' = out p @ chunks_out ''doClient'' (debugFlag p) (pending (psBuf p)) chs
    \<and> sent c' = sent c @ concat (map (\<lambda>l. request (l @ nl)) (take n ls))
    \<and> s \<in> {Returns, Blocks, Exits 1}
    \<and> (s = Returns \<longrightarrow> length ls \<le> n \<and> rest = [])"
  using assms
proof (induction evs arbitrary: c p ls)
  case Nil
  show ?case
    by (intro exI [of _ Blocks] exI [of _ c] exI [of _ p] exI [of _ "[]"] exI [of _ 0] exI [of _ "payload (rq c)"]) simp
next
  case (Cons ev evs)
  obtain i w where ev: "ev = (i, w)" by (cases ev)
  obtain c2 p2 ls2 n where turn:
    "(if i \<and> inPolled p then v3_input (Inr ()) c p else (Returns, c, p)) = (Returns, c2, p2)"
    "v3_ok p2" "all_writes c2" "v3_typed ls2 p2" "rq c2 = rq c" "psBuf p2 = psBuf p"
    "out p2 = out p" "debugFlag p2 = debugFlag p" "ls2 = drop n ls" "n \<le> length ls"
    "sent c2 = sent c @ concat (map (\<lambda>l. request (l @ nl)) (take n ls))"
    using v3_input_turn [OF Cons.prems(3,1,2)] by blast
  note IH = Cons.IH
  show ?case
  proof (cases w)
    case False
    have "gentle k (pending (psBuf p2)) (rq c2)" using Cons.prems(4) turn(5,6) by simp
    from IH [OF turn(2-4) this] obtain s c' p' chs m rest where r:
      "v3_loop (Inr ()) (map Inr evs) c2 p2 = (s, c', p')"
      "payload (rq c2) = concat chs @ rest"
      "out p' = out p2 @ chunks_out ''doClient'' (debugFlag p2) (pending (psBuf p2)) chs"
      "sent c' = sent c2 @ concat (map (\<lambda>l. request (l @ nl)) (take m ls2))"
      "s \<in> {Returns, Blocks, Exits 1}" "s = Returns \<longrightarrow> length ls2 \<le> m \<and> rest = []"
      by blast
    have "v3_loop (Inr ()) (map Inr (ev # evs)) c p = (s, c', p')"
      using False ev turn(1) r(1) by (simp add: Poll_def split: if_splits)
    then show ?thesis
      using r turn by (intro exI [of _ s] exI [of _ c'] exI [of _ p'] exI [of _ chs] exI [of _ "n + m"] exI [of _ rest])
        (auto simp: take_add)
  next
    case True
    have loop: "v3_loop (Inr ()) (map Inr (ev # evs)) c p
        = (case v3_socket c2 p2 of ((s, brk), c3, p3) \<Rightarrow>
            if s \<noteq> Returns \<or> brk then (s, c3, p3) else v3_loop (Inr ()) (map Inr evs) c3 p3)"
      using True ev turn(1) by (simp add: Poll_def split: if_splits)
    obtain rr es' where rd: "sys_read BUF_SIZE (rq c2) = (rr, es')" by (cases "sys_read BUF_SIZE (rq c2)") auto
    then have cr: "conn_read BUF_SIZE c2 = (rr, c2\<lparr>rq := es'\<rparr>)" by (simp add: conn_read_def)
    show ?thesis
    proof (cases "\<exists>d. rr = Got d")
      case False
      then have e: "payload (rq c2) = []" using sys_read_not_Got(1) [OF rd] by blast
      obtain s brk p3 where s: "v3_socket c2 p2 = ((s, brk), c2\<lparr>rq := es'\<rparr>, p3)" "out p3 = out p2"
        "s \<in> {Returns, Blocks, Exits 1}" "s \<noteq> Returns \<or> brk" "s = Returns \<longrightarrow> ls2 = []"
        using False cr turn(4)
        by (cases rr)
          (auto simp: v3_socket_def err_quit_def v3_typed_def split: if_splits)
      then show ?thesis
        using loop e turn
        by (intro exI [of _ s] exI [of _ "c2\<lparr>rq := es'\<rparr>"] exI [of _ p3] exI [of _ "[]"] exI [of _ n] exI [of _ "[]"])
          auto
    next
      case True
      then obtain d where d: "rr = Got d" by blast
      obtain ms r where f: "frames (pending (psBuf p2) @ d) = (ms, r)"
        by (cases "frames (pending (psBuf p2) @ d)") auto
      have g: "gentle k (pending (psBuf p2)) (rq c2)" using Cons.prems(4) turn(5,6) by simp
      have g2: "length d + length (pending (psBuf p2)) \<le> BUF_SIZE" "gentle k r es'"
        using gentle_read [OF g rd [unfolded d] f] by simp_all
      obtain mb io ps where sk: "v3_socket c2 p2 = ((Returns, False), c2\<lparr>rq := es'\<rparr>, p2\<lparr>msgBuf := mb,
          ioBuf := io, psBuf := ps, out := out p2 @ dump_text (debugFlag p2) (pending (psBuf p2) @ d)
          @ concat (map (display ''doClient'' (debugFlag p2)) ms)\<rparr>)"
        "length mb = ARRAY_SIZE" "length io = ARRAY_SIZE" "parseBuf_ok ps" "pending ps = r"
        using v3_socket_chunk [OF turn(2) cr [unfolded d] g2(1) f] by blast
      let ?c3 = "c2\<lparr>rq := es'\<rparr>"
      let ?p3 = "p2\<lparr>msgBuf := mb, ioBuf := io, psBuf := ps,
        out := out p2 @ dump_text (debugFlag p2) (pending (psBuf p2) @ d)
          @ concat (map (display ''doClient'' (debugFlag p2)) ms)\<rparr>"
      have "v3_ok ?p3" using sk(2-4) by (simp add: v3_ok_def client_ok_def)
      moreover have "all_writes ?c3" using turn(3) by (simp add: all_writes_def)
      moreover have "v3_typed ls2 ?p3" using turn(4) by (simp add: v3_typed_def)
      moreover have "gentle k (pending (psBuf ?p3)) (rq ?c3)" using g2(2) sk(5) by simp
      ultimately obtain s c' p' chs m rest where r':
        "v3_loop (Inr ()) (map Inr evs) ?c3 ?p3 = (s, c', p')"
        "payload (rq ?c3) = concat chs @ rest"
        "out p' = out ?p3 @ chunks_out ''doClient'' (debugFlag ?p3) (pending (psBuf ?p3)) chs"
        "sent c' = sent ?c3 @ concat (map (\<lambda>l. request (l @ nl)) (take m ls2))"
        "s \<in> {Returns, Blocks, Exits 1}" "s = Returns \<longrightarrow> length ls2 \<le> m \<and> rest = []"
        using IH by blast
      have "payload (rq c2) = d @ payload es'" using sys_read_Got [OF rd [unfolded d]] by simp
      with r' loop sk f turn show ?thesis
        by (intro exI [of _ s] exI [of _ c'] exI [of _ p'] exI [of _ "d # chs"] exI [of _ "n + m"] exI [of _ rest])
          (auto simp: take_add)
    qed
  qed
qed

section \<open>Properties\<close>

text \<open>C7: The multiplexing client is correct for every schedule of its two descriptors: as long as
  no response is longer than \<open>k\<close> and no segment leaves less than \<open>k\<close> bytes of the limit free, it never
  has undefined behaviour; what it prints is, for the chunks that its reads delivered, the dump of
  the parse buffer and each message once, when it is complete; it sends the requests of the lines it
  has read, in order; and when it returns it has sent them all and shown everything it received.\<close>

theorem doClient_v3_any_schedule:
  assumes "client_ok p" and "length (pbuf (psBuf p)) = PARSE_SIZE" and "all_writes c"
    and "inp p = concat (map (\<lambda>l. l @ nl) ls)" and "\<forall>l \<in> set ls. input_line l"
    and "gentle k [] (rq c)"
  shows "\<exists>s c' p' chs n rest. doClient_v3 (Inr ()) (map Inr evs) c p = (s, c', p')
     \<and> payload (rq c) = concat chs @ rest
     \<and> out p' = out p @ chunks_out ''doClient'' (debugFlag p) [] chs
     \<and> sent c' = sent c @ concat (map (\<lambda>l. request (l @ nl)) (take n ls))
     \<and> s \<in> {Returns, Blocks, Exits 1}
     \<and> (s = Returns \<longrightarrow> length ls \<le> n \<and> rest = [])"
proof -
  let ?p = "initParseBuf (p\<lparr>inPolled := True, writeShut := 0\<rparr>)"
  have pend: "pending (psBuf ?p) = []" by (simp add: initParseBuf_def pending_def)
  have "v3_ok ?p" "v3_typed ls ?p" "gentle k (pending (psBuf ?p)) (rq c)"
    using assms pend
    by (simp_all add: v3_ok_def client_ok_def initParseBuf_def parseBuf_ok_def v3_typed_def)
  moreover have "out ?p = out p" "debugFlag ?p = debugFlag p" by (simp_all add: initParseBuf_def)
  ultimately show ?thesis
    using v3_loop_run [of ?p c ls k evs] assms(3) pend by (simp only: doClient_v3_def)
qed

definition init_client :: client where
  "init_client = \<lparr>inp = [], out = [], err = [], daemon_proc = False, slog = [], errnum = EIO,
     debugFlag = debugFlag_init, ioBuf = replicate ARRAY_SIZE nul, msgBuf = replicate ARRAY_SIZE nul\<rparr>"

definition init_client_v3 :: client_v3 where
  "init_client_v3 = client.extend init_client
     \<lparr>psBuf = \<lparr>curSize = 0, pbuf = replicate PARSE_SIZE nul\<rparr>, inPolled = False, writeShut = 0\<rparr>"

lemma init_client_v3_ok [simp]: "client_ok init_client_v3"
  unfolding client_ok_def by (simp add: init_client_v3_def init_client_def client.defs)

lemma init_client_v3_simps [simp]:
  "inp init_client_v3 = []" "out init_client_v3 = []"
  "length (pbuf (psBuf init_client_v3)) = PARSE_SIZE" "client_ok init_client"
  "debugFlag init_client_v3 = 1"
  by (simp_all add: init_client_v3_def init_client_def client.defs client_ok_def debugFlag_init_def)

theorem doClient_v3_any_schedule_witness:
  "\<exists>s c' p' chs n rest. doClient_v3 (Inr ()) (map Inr [(True, True), (True, True)])
       \<lparr>rq = [Seg ''A'', Seg ''3='', Fin], wq = [], sent = []\<rparr> (init_client_v3\<lparr>inp := concat (map (\<lambda>l. l @ nl) [''1+2''])\<rparr>)
       = (s, c', p')
     \<and> payload (rq \<lparr>rq = [Seg ''A'', Seg ''3='', Fin], wq = [], sent = []\<rparr>) = concat chs @ rest
     \<and> out p' = out (init_client_v3\<lparr>inp := concat (map (\<lambda>l. l @ nl) [''1+2''])\<rparr>)
         @ chunks_out ''doClient'' (debugFlag (init_client_v3\<lparr>inp := concat (map (\<lambda>l. l @ nl) [''1+2''])\<rparr>)) [] chs
     \<and> sent c' = sent \<lparr>rq = [Seg ''A'', Seg ''3='', Fin], wq = [], sent = []\<rparr>
         @ concat (map (\<lambda>l. request (l @ nl)) (take n [''1+2'']))
     \<and> s \<in> {Returns, Blocks, Exits 1}
     \<and> (s = Returns \<longrightarrow> length [''1+2''] \<le> n \<and> rest = [])"
proof (rule doClient_v3_any_schedule [where k = 13])
  show "client_ok (init_client_v3\<lparr>inp := concat (map (\<lambda>l. l @ nl) [''1+2''])\<rparr>)"
    using init_client_v3_ok by (simp add: client_ok_def)
qed (simp_all add: all_writes_def input_line_def BUF_SIZE_def gentle_def frames_def)

text \<open>Valid responses can make the client give up: when an incomplete response waits in the
  parse buffer and the next read delivers \<^verbatim>\<open>BUF_SIZE\<close> bytes, the client exits with
  \<^verbatim>\<open>parseBuf overflow\<close> although its array has room for twice as many.\<close>

theorem parse_buffer_overflow_exits:
  assumes "client_ok p" and "length (pbuf (psBuf p)) = PARSE_SIZE" and "\<not> daemon_proc p"
    and "rq c = Seg s1 # Seg s2 # es" and "s1 \<noteq> []" and "MSG_TERMINATOR \<notin> set s1"
    and "length s1 \<le> BUF_SIZE" and "length s2 = BUF_SIZE"
  shows "\<exists>c' p'. doClient_v3 sh [Inr (False, True), Inr (False, True)] c p = (Exits 1, c', p')
     \<and> err p' = err p @ ''parseBuf overflow'' @ nl"
proof -
  let ?p = "initParseBuf (p\<lparr>inPolled := True, writeShut := 0\<rparr>)"
  have ok: "v3_ok ?p" and pend: "pending (psBuf ?p) = []"
    using assms(1,2) by (simp_all add: v3_ok_def client_ok_def initParseBuf_def parseBuf_ok_def pending_def)
  let ?c1 = "c\<lparr>rq := Seg s2 # es\<rparr>" and ?c2 = "c\<lparr>rq := es\<rparr>"
  have r1: "conn_read BUF_SIZE c = (Got s1, ?c1)"
    using assms(4) sys_read_Seg [OF assms(5,7)] by (simp add: conn_read_def)
  have "frames (pending (psBuf ?p) @ s1) = ([], s1)" using pend assms(6) by (simp add: frames_rest)
  from v3_socket_chunk [OF ok r1 _ this] pend assms(7) obtain mb io ps t where
    s: "v3_socket c ?p = ((Returns, False), ?c1, ?p\<lparr>msgBuf := mb, ioBuf := io, psBuf := ps, out := t\<rparr>)"
    "length mb = ARRAY_SIZE" "parseBuf_ok ps" "pending ps = s1" by fastforce
  let ?p1 = "?p\<lparr>msgBuf := mb, ioBuf := io, psBuf := ps, out := t\<rparr>"
  have "s2 \<noteq> []" using assms(8) by (auto simp: BUF_SIZE_def)
  then have r2: "conn_read BUF_SIZE ?c1 = (Got s2, ?c2)"
    using sys_read_Seg [of s2 BUF_SIZE es] assms(8) by (simp add: conn_read_def)
  have cur: "curSize ps = length s1" using length_pending [OF s(3)] s(4) by simp
  have st: "store mb 0 s2 = Inr (splice mb 0 s2)"
    using s(2) assms(8) by (simp add: store_def ARRAY_SIZE_def)
  let ?p2 = "?p1\<lparr>msgBuf := splice mb 0 s2\<rparr>"
  have ap: "appendParseBuf (splice mb 0 s2) (length s2) ?p2
      = (Exits 1, ?p2\<lparr>err := err p @ ''parseBuf overflow'' @ nl\<rparr>)"
    using cur assms(3,5,8) err_quit_line [of ?p2 "''parseBuf overflow''"]
    by (simp add: appendParseBuf_def initParseBuf_def MAXLINE_def)
  have "v3_socket ?c1 ?p1 = ((Exits 1, False), ?c2, ?p2\<lparr>err := err p @ ''parseBuf overflow'' @ nl\<rparr>)"
    using r2 st ap by (simp add: v3_socket_def)
  then show ?thesis using s(1) by (simp add: doClient_v3_def Poll_def)
qed

theorem parse_buffer_overflow_exits_witness:
  "\<exists>c' p'. doClient_v3 (Inr ()) [Inr (False, True), Inr (False, True)]
       \<lparr>rq = Seg ''A'' # Seg (''1='' @ concat (replicate 682 ''A1='')) # [], wq = [], sent = []\<rparr> init_client_v3
       = (Exits 1, c', p') \<and> err p' = err init_client_v3 @ ''parseBuf overflow'' @ nl"
  by (rule parse_buffer_overflow_exits [where ?s1.0 = "''A''" and ?s2.0 = "''1='' @ concat (replicate 682 ''A1='')" and es = "[]"])
    (simp_all add: length_concat sum_list_replicate BUF_SIZE_def init_client_v3_def init_client_def client.defs
      client_ok_def)

end
