(* ===== verification/Netcalc_Udp.thy ===== *)
theory Netcalc_Udp
  imports Netcalc_Server Netcalc_Client
begin

text \<open>
  The calculator over UDP: one datagram of the combined server (\<^verbatim>\<open>doUdpServer\<close> in
  \<^verbatim>\<open>netcalc_srv_v6.c\<close>) and the client \<^verbatim>\<open>netcalc_clnt_udp.c\<close>.  A datagram is a message, so
  there is nothing to reassemble; what is hard is the size of what arrives.
\<close>

section \<open>Datagrams\<close>

text \<open>
  A datagram with the address it comes from; \<^verbatim>\<open>recvfrom\<close> with a limit of \<open>n\<close> bytes keeps the
  first \<open>n\<close> and drops the rest.
\<close>

type_synonym dgram = "string \<times> sockaddr_in"

definition recv_dgram :: "nat \<Rightarrow> errno + dgram \<Rightarrow> errno + dgram" where
  "recv_dgram n r = map_sum id (\<lambda>(d, a). (take n d, a)) r"

section \<open>The server\<close>

text \<open>
  \<open>r\<close> is what \<^verbatim>\<open>recvfrom\<close> receives, \<open>sendto\<close> what \<^verbatim>\<open>sendto\<close> answers for the data it is given; the
  result holds the datagrams that were sent.
\<close>

definition doUdpServer ::
    "netenv \<Rightarrow> sockaddr_in option \<Rightarrow> errno + dgram \<Rightarrow> (string \<Rightarrow> errno + nat) \<Rightarrow> 'a server_scheme
     \<Rightarrow> stop \<times> dgram list \<times> 'a server_scheme" where
  "doUdpServer env sockname r sendto p =
     proceed [] (Recvfrom (recv_dgram (BUF_SIZE + 10) r) p) (\<lambda>(d, clientAddr) p1.
       (case store (reqBuf p1) 0 d of
          Inl f \<Rightarrow> (Undef f, [], p1)
        | Inr buf \<Rightarrow>
            (let n = length d; p2 = p1\<lparr>reqBuf := buf\<rparr> in
             and_then [] (dumpLocalSockAddr sockname (host_name env) p2) (\<lambda>p3.
               (let p4 = printf (dumpHostAndAddr (host_of env) ''Peer'' clientAddr) p3 in
                case DUMP_BUF (debugFlag p4) (reqBuf p4) n of
                  Inl f \<Rightarrow> (Undef f, [], p4)
                | Inr t \<Rightarrow>
                    (let p5 = printf t p4 in
                     case doCalc (reqBuf p5) n (resBuf p5) (resultLen p5) of
                       Inl f \<Rightarrow> (Undef f, [], p5)
                     | Inr (rc, q, a, l) \<Rightarrow>
                         (let p6 = p5\<lparr>reqBuf := q, resBuf := a, resultLen := l\<rparr> in
                          if rc = SUCCESS then
                            proceed [] (Sendto (take l a) (sendto (take l a)) p6) (\<lambda>_ p7.
                              (Returns, [(take l a, clientAddr)], p7))
                          else (Returns, [],
                            printf (''!!doUdpServer: doCalc failed'' @ nl) p6))))))))"

section \<open>The client\<close>

text \<open>
  One datagram is received: it is shown or complained about.  \<^verbatim>\<open>Recvfrom\<close> may fill the whole
  array.
\<close>

definition udp_response ::
    "netenv \<Rightarrow> (errno + dgram) list \<Rightarrow> 'a client_scheme
     \<Rightarrow> stop \<times> (errno + dgram) list \<times> 'a client_scheme" where
  "udp_response env rcvs p =
     (case rcvs of
        [] \<Rightarrow> (Blocks, [], p)
      | r # rest \<Rightarrow>
          proceed rest (Recvfrom (recv_dgram (BUF_SIZE + 10) r) p) (\<lambda>(d, realServAddr) p1.
            (case store (msgBuf p1) 0 d of
               Inl f \<Rightarrow> (Undef f, rest, p1)
             | Inr mb \<Rightarrow>
                 (let p2 = printf (dumpHostAndAddr (host_of env) ''Peer'' realServAddr)
                        (p1\<lparr>msgBuf := mb\<rparr>)
                  in case show_response ''doUdpClient'' (length d) p2 of
                       (s, p3) \<Rightarrow> (s, rest, p3)))))"

text \<open>
  A line is turned into a datagram to the server; the Boolean tells that the input has ended.
\<close>

definition udp_request ::
    "netenv \<Rightarrow> sockaddr_in option \<Rightarrow> sockaddr_in \<Rightarrow> (string \<Rightarrow> errno + nat) \<Rightarrow> 'a client_scheme
     \<Rightarrow> stop \<times> (bool \<times> dgram list) \<times> 'a client_scheme" where
  "udp_request env sockname servAddr sendto p =
     (case next_request p of
        (NoInput, p1) \<Rightarrow> (Returns, (True, []), p1)
      | (ReqFault f, p1) \<Rightarrow> (Undef f, (False, []), p1)
      | (BadLine, p1) \<Rightarrow>
          (case complain ''doUdpClient'' ''buildReq failed'' (ioBuf p1) (length (cstr (ioBuf p1))) p1 of
             (s, p2) \<Rightarrow> (s, (False, []), p2))
      | (Request n, p1) \<Rightarrow>
          (let m = take n (msgBuf p1) in
           proceed (False, []) (Sendto m (sendto m) p1) (\<lambda>_ p2.
           and_then (False, [(m, servAddr)]) (dumpLocalSockAddr sockname (host_name env) p2) (\<lambda>p3.
             (Returns, (False, [(m, servAddr)]), p3)))))"

text \<open>The loop over the results of \<^verbatim>\<open>Poll\<close>; the result holds the datagrams sent.\<close>

fun doUdpClient ::
    "netenv \<Rightarrow> sockaddr_in option \<Rightarrow> sockaddr_in \<Rightarrow> (string \<Rightarrow> errno + nat)
     \<Rightarrow> (errno + bool \<times> bool) list \<Rightarrow> (errno + dgram) list \<Rightarrow> 'a client_scheme
     \<Rightarrow> stop \<times> dgram list \<times> 'a client_scheme" where
  "doUdpClient env sockname servAddr sendto [] rcvs p = (Blocks, [], p)"
| "doUdpClient env sockname servAddr sendto (ev # evs) rcvs p =
     proceed [] (Poll ev p) (\<lambda>(inReady, sockReady) p1.
       (case (if inReady then udp_request env sockname servAddr sendto p1
              else (Returns, (False, []), p1)) of
          (s, (over, ds), p2) \<Rightarrow>
            if s \<noteq> Returns \<or> over then (s, ds, p2)
            else
              (case (if sockReady then udp_response env rcvs p2 else (Returns, rcvs, p2)) of
                 (s, rest, p3) \<Rightarrow>
                   if s \<noteq> Returns then (s, ds, p3)
                   else
                     (case doUdpClient env sockname servAddr sendto evs rest p3 of
                        (s, ds', p4) \<Rightarrow> (s, ds @ ds', p4)))))"

text \<open>\<^verbatim>\<open>main\<close> of \<^verbatim>\<open>netcalc_clnt_udp.c\<close>.\<close>

record ukernel = ckernel +
  u_setsockopt :: "errno + unit"
  u_sendto :: "string \<Rightarrow> errno + nat"

definition main_clnt_udp ::
    "string list \<Rightarrow> ukernel \<Rightarrow> netenv \<Rightarrow> (errno + bool \<times> bool) list \<Rightarrow> (errno + dgram) list
     \<Rightarrow> 'a client_scheme \<Rightarrow> stop \<times> dgram list \<times> 'a client_scheme" where
  "main_clnt_udp argv k env evs rcvs p =
     (case (if length argv = 2 then Some (False, argv ! 1)
            else if length argv = 3 \<and> argv ! 1 = ''-b'' then Some (True, argv ! 2)
            else None) of
        None \<Rightarrow>
          (case err_quit (''Usage: '' @ argv0 argv @ '' -b <hostname>'') p of (s, p1) \<Rightarrow> (s, [], p1))
      | Some (setBcastOpt, dest) \<Rightarrow>
          proceed [] (Socket (c_socket k) p) (\<lambda>sockFd p1.
            (case c_host k dest of
               None \<Rightarrow>
                 (case err_quit (''gethostbyname failed for host '' @ dest) p1 of
                    (s, p2) \<Rightarrow> (s, [], p2))
             | Some (h_name, h_addr) \<Rightarrow>
                 (let servAddr = \<lparr>sin_addr = h_addr, sin_port = NETCALC_SERV_PORT\<rparr>;
                      p2 = printf (dumpAddr ''Peer'' h_name servAddr) p1
                  in proceed [] (if setBcastOpt then Setsockopt (u_setsockopt k) p2 else Inr ((), p2))
                       (\<lambda>_ p3.
                       (case doUdpClient env (c_sockname k) servAddr (u_sendto k) evs rcvs p3 of
                          (s, ds, p4) \<Rightarrow>
                            and_then ds (s, p4) (\<lambda>p4.
                            proceed ds (Close (c_close k) p4) (\<lambda>_ p5. (Exits 0, ds, p5)))))))))"

section \<open>The server answers a datagram as the protocol says\<close>

lemma doUdpServer_reply:
  assumes "server_ok p" and "host_name env \<noteq> None" and "sockname \<noteq> None"
    and "\<forall>d. sendto d = Inr (length d)" and "reply (take (BUF_SIZE + 10) d) = Inr r"
  shows "\<exists>p'. doUdpServer env sockname (Inr (d, a)) sendto p
      = (Returns, (case r of None \<Rightarrow> [] | Some t \<Rightarrow> [(t, a)]), p') \<and> server_ok p'"
proof -
  let ?d = "take (BUF_SIZE + 10) d"
  obtain h b where hb: "host_name env = Some h" "sockname = Some b" using assms(2,3) by auto
  have len: "length (reqBuf p) = ARRAY_SIZE" "length (resBuf p) = ARRAY_SIZE"
    using assms(1) by (simp_all add: server_ok_def)
  have fit: "length ?d \<le> ARRAY_SIZE" by (simp add: ARRAY_SIZE_def)
  let ?buf = "splice (reqBuf p) 0 ?d"
  have st: "store (reqBuf p) 0 ?d = Inr ?buf" using fit len by (simp add: store_def)
  have lb: "length ?buf = ARRAY_SIZE" using fit len by simp
  obtain t where t: "DUMP_BUF (debugFlag p) ?buf (length ?d) = Inr t"
    using fit lb DUMP_BUF_fits [of "length ?d" ?buf "debugFlag p"] by auto
  define l where "l = resultLen p"
  have dc: "doCalc ?buf (length ?d) (resBuf p) l
      = Inr (calc_effect ?buf (length ?d) (resBuf p) l r)"
    using assms(5) fit lb len take_splice_0 [of ?d "reqBuf p"]
    by (subst doCalc_eq_reply) (auto simp: size_defs)
  show ?thesis
  proof (cases r)
    case None
    with st t dc hb len lb show ?thesis
      by (simp add: doUdpServer_def Recvfrom_def recv_dgram_def dumpLocalSockAddr_def printf_def
          Let_def server_ok_def l_def)
  next
    case (Some u)
    then have "length u \<le> 13" using assms(5) reply_length by blast
    with Some st t dc hb len lb assms(4) show ?thesis
      by (simp add: doUdpServer_def Recvfrom_def recv_dgram_def dumpLocalSockAddr_def printf_def
          Let_def server_ok_def l_def Sendto_def ARRAY_SIZE_def BUF_SIZE_def)
  qed
qed

section \<open>The client and the size of a response\<close>

text \<open>
  An answer of more than 2050 bytes does not fit the output array together with the text that is
  put around it; up to that size every response is shown.
\<close>

lemma parseRes_overrun:
  assumes "length inBuf = ARRAY_SIZE" and "length outBuf = ARRAY_SIZE" and "n \<le> ARRAY_SIZE"
    and "take n inBuf = OPCODE_ANSWER # b @ [MSG_TERMINATOR]" and "nul \<notin> set b"
  shows "(\<exists>f. parseRes inBuf n outBuf = Inl f) \<longleftrightarrow> BUF_SIZE + 2 < n"
proof -
  have n: "n = length b + 2" using assms(1,3) arg_cong [OF assms(4), of length] by simp
  have ne: "take n inBuf \<noteq> []" using assms(4) by simp
  have i0: "inBuf ! 0 = OPCODE_ANSWER"
    using arg_cong [OF assms(4), of "\<lambda>x. x ! 0"] n by simp
  have it: "inBuf ! (n - 1) = MSG_TERMINATOR"
    using arg_cong [OF assms(4), of "\<lambda>x. x ! (n - 1)"] n by (simp add: nth_append)
  have s: "cstr (tl (inBuf[n - 1 := nul])) = b"
    using cstr_terminated [of n inBuf] assms n by (simp add: butlast_append cstr_id)
  have "length b + 9 < length outBuf \<longleftrightarrow> \<not> BUF_SIZE + 2 < n"
    using n assms(2) by (auto simp: size_defs)
  then show ?thesis
    using assms(1,3) n i0 it s
    by (auto simp: parseRes_def Let_def store_str_def store_def split: sum.splits)
qed

section \<open>Properties\<close>

text \<open>A datagram is enough to make the UDP client write past its output array: for an answer
  message that fills the receive buffer, \<^verbatim>\<open>parseRes\<close> overruns exactly when the message is longer than
  \<^verbatim>\<open>BUF_SIZE + 2\<close> bytes, and \<^verbatim>\<open>Recvfrom\<close> lets up to \<^verbatim>\<open>BUF_SIZE + 10\<close> bytes in.\<close>

theorem udp_client_overrun:
  assumes "client_ok p" and "b = replicate (BUF_SIZE + 8) CHR ''1''"
  shows "\<exists>p'. udp_response env [Inr (OPCODE_ANSWER # b @ [MSG_TERMINATOR], a)] p = (Undef Overrun, [], p')"
proof -
  let ?m = "OPCODE_ANSWER # b @ [MSG_TERMINATOR]"
  have len: "length ?m = ARRAY_SIZE" using assms(2) by (simp add: ARRAY_SIZE_def)
  have c: "length (msgBuf p) = ARRAY_SIZE" "length (ioBuf p) = ARRAY_SIZE"
    using assms(1) by (simp_all add: client_ok_def)
  have st: "store (msgBuf p) 0 ?m = Inr ?m"
    using len c by (simp add: store_def splice_def)
  have "\<exists>f. parseRes ?m (length ?m) (ioBuf p) = Inl f"
    using parseRes_overrun [of ?m "ioBuf p" "length ?m" b] len c assms(2)
    by (simp add: ARRAY_SIZE_def)
  moreover have "parseRes ?m (length ?m) (ioBuf p) = Inl f \<Longrightarrow> f = Overrun" for f
    by (auto simp: parseRes_def Let_def store_str_def store_def split: sum.splits if_splits)
  ultimately have pr: "parseRes ?m (length ?m) (ioBuf p) = Inl Overrun" by blast
  have "take (BUF_SIZE + 10) ?m = ?m" using len by (intro take_all) (simp add: ARRAY_SIZE_def)
  then show ?thesis
    using st pr by (simp add: udp_response_def Recvfrom_def recv_dgram_def show_response_def printf_def)
qed

definition init_udp_client :: client where
  "init_udp_client = \<lparr>inp = [], out = [], err = [], daemon_proc = False, slog = [], errnum = EIO,
     debugFlag = debugFlag_init, ioBuf = replicate ARRAY_SIZE nul, msgBuf = replicate ARRAY_SIZE nul\<rparr>"

theorem udp_client_overrun_witness:
  "\<exists>p'. udp_response \<lparr>host_of = (\<lambda>_. None), host_name = None\<rparr>
       [Inr (OPCODE_ANSWER # replicate (BUF_SIZE + 8) CHR ''1'' @ [MSG_TERMINATOR],
             \<lparr>sin_addr = (10, 0, 0, 1), sin_port = 9\<rparr>)] init_udp_client = (Undef Overrun, [], p')"
  by (rule udp_client_overrun) (simp_all add: init_udp_client_def client_ok_def)

text \<open>The UDP server answers each datagram by the protocol and is safe for datagrams of every
  size: it never faults, sends at most one datagram, to the sender, with exactly the reply to the
  first \<^verbatim>\<open>BUF_SIZE + 10\<close> bytes.\<close>

theorem doUdpServer_answers:
  assumes "server_ok p" and "host_name env \<noteq> None" and "sockname \<noteq> None"
    and "\<forall>d. sendto d = Inr (length d)" and "reply (take (BUF_SIZE + 10) d) = Inr r"
  shows "\<exists>p'. doUdpServer env sockname (Inr (d, a)) sendto p
      = (Returns, (case r of None \<Rightarrow> [] | Some t \<Rightarrow> [(t, a)]), p') \<and> server_ok p'"
  using assms by (rule doUdpServer_reply)

theorem doUdpServer_answers_witness:
  "\<exists>p'. doUdpServer \<lparr>host_of = (\<lambda>_. None), host_name = Some ''srv''\<rparr>
       (Some \<lparr>sin_addr = (0, 0, 0, 0), sin_port = 21597\<rparr>)
       (Inr (''Q9+9='', \<lparr>sin_addr = (10, 0, 0, 1), sin_port = 9\<rparr>)) (\<lambda>d. Inr (length d)) init_server
     = (Returns, (case Some ''A18='' of None \<Rightarrow> [] | Some t \<Rightarrow> [(t, \<lparr>sin_addr = (10, 0, 0, 1), sin_port = 9\<rparr>)]), p')
     \<and> server_ok p'"
  by (rule doUdpServer_answers)
    (use reply_Q9plus9 in \<open>simp_all add: init_server_def server_ok_def BUF_SIZE_def\<close>)

end
