(* ===== verification/Netcalc_Fork_Server.thy ===== *)
theory Netcalc_Fork_Server
  imports Netcalc_Server
begin

text \<open>
  The server that forks a child for each connection (\<^verbatim>\<open>netcalc_srv_v3.c\<close>), as a step relation
  between states of the parent and of its children: the parent's loop, the children, and the
  handler of \<^verbatim>\<open>SIGCHLD\<close>, which runs between any two steps of the parent.
\<close>

section \<open>The pieces of code\<close>

record fork_server = server +
  childCount :: int

text \<open>
  \<^verbatim>\<open>sigChildHandler\<close> reaps the children that have ended, given by their process numbers;
  \<^verbatim>\<open>childCount\<close> is the global \<^verbatim>\<open>curClient\<close>.
\<close>

fun sigChildHandler :: "int list \<Rightarrow> 'a fork_server_scheme \<Rightarrow> 'a fork_server_scheme" where
  "sigChildHandler [] p = p"
| "sigChildHandler (pid # pids) p =
     (let p1 = p\<lparr>childCount := childCount p - 1\<rparr> in
      sigChildHandler pids
        (printf (''**sigChildHandler: child '' @ show_int pid @ '' terminated (total ''
           @ show_int (childCount p1) @ '')'' @ nl) p1))"

text \<open>The child context of \<^verbatim>\<open>doServer\<close>; \<open>lc\<close> is what closing the listening socket answers.\<close>

definition fork_child ::
    "netenv \<Rightarrow> errno + unit \<Rightarrow> incoming \<Rightarrow> 'a server_scheme \<Rightarrow> stop \<times> conn \<times> 'a server_scheme" where
  "fork_child env lc i p =
     proceed (link i) (Close lc p) (\<lambda>_ p1.
     and_then (link i) (dumpLocalSockAddr (locl i) (host_name env) p1) (\<lambda>p2.
     and_then (link i) (dumpPeerSockAddr (peer i) (host_of env) p2) (\<lambda>p3.
       (case servChild (link i) p3 of
          (s, c, p4) \<Rightarrow>
            and_then c (s, p4) (\<lambda>p4.
            proceed c (Close (closes i) p4) (\<lambda>_ p5. (Exits 0, c, p5)))))))"

text \<open>
  The parent context after \<^verbatim>\<open>curClient++\<close>, whose result is \<open>p\<close>: the report and the close.
\<close>

definition fork_report ::
    "string \<Rightarrow> int \<Rightarrow> incoming \<Rightarrow> 'a fork_server_scheme \<Rightarrow> stop \<times> unit \<times> 'a fork_server_scheme" where
  "fork_report fn pid i p =
     (let p1 = printf (''**'' @ fn @ '': Created child '' @ show_int pid @ '' (total ''
            @ show_int (childCount p) @ '')'' @ nl) p
      in proceed () (Close (closes i) p1) (\<lambda>_ p2. (Returns, (), p2)))"

section \<open>The processes\<close>

text \<open>
  Where the parent is in the body of the loop.  \<^verbatim>\<open>curClient++\<close> is a read and a write of an
  object that is neither atomic nor \<^verbatim>\<open>volatile\<close>: \<open>Storing pid v i\<close> is the point between them,
  with the value \<open>v\<close> read.  \<open>Ended\<close> is the end of the parent.
\<close>

datatype parent_pc =
    Accepting
  | Forking incoming
  | Counting int incoming
  | Storing int int incoming
  | Reporting int incoming
  | Ended stop

text \<open>
  The parent's memory; the answers of \<^verbatim>\<open>accept\<close> to come; the children that run, each with the
  copy of the memory it got; those that have ended and wait to be reaped; and the
  connections as the children left them.
\<close>

record processes =
  mem :: fork_server
  ppc :: parent_pc
  arriving :: "(errno + incoming) list"
  running :: "(int \<times> incoming \<times> fork_server) list"
  zombies :: "int list"
  served :: "(incoming \<times> conn) list"

text \<open>
  One step.  With \<open>torn\<close> the handler may run between the read and the write of \<^verbatim>\<open>curClient++\<close>.
  A child runs by itself on its own memory and connection, so its run is one step.
\<close>

inductive fork_step :: "netenv \<Rightarrow> bool \<Rightarrow> processes \<Rightarrow> processes \<Rightarrow> bool"
  for env :: netenv and torn :: bool
where
  step_accept: "ppc w = Accepting \<Longrightarrow> arriving w = Inr i # rest \<Longrightarrow>
     fork_step env torn w (w\<lparr>ppc := Forking i, arriving := rest\<rparr>)"
| step_again: "ppc w = Accepting \<Longrightarrow> arriving w = Inl EINTR # rest \<Longrightarrow>
     fork_step env torn w (w\<lparr>arriving := rest\<rparr>)"
| step_accept_fails: "ppc w = Accepting \<Longrightarrow> arriving w = Inl e # rest \<Longrightarrow> e \<noteq> EINTR \<Longrightarrow>
     err_sys ''accept failed'' ((mem w)\<lparr>errnum := e\<rparr>) = (s, m) \<Longrightarrow>
     fork_step env torn w (w\<lparr>ppc := Ended s, mem := m, arriving := rest\<rparr>)"
| step_fork_fails: "ppc w = Forking i \<Longrightarrow> Fork (Inl e) (mem w) = Inl (s, m) \<Longrightarrow>
     fork_step env torn w (w\<lparr>ppc := Ended s, mem := m\<rparr>)"
| step_fork: "ppc w = Forking i \<Longrightarrow> 0 < pid \<Longrightarrow> pid \<notin> fst ` set (running w) \<union> set (zombies w) \<Longrightarrow>
     fork_step env torn w (w\<lparr>ppc := Counting pid i, running := (pid, i, mem w) # running w\<rparr>)"
| step_load: "ppc w = Counting pid i \<Longrightarrow>
     fork_step env torn w (w\<lparr>ppc := Storing pid (childCount (mem w)) i\<rparr>)"
| step_store: "ppc w = Storing pid v i \<Longrightarrow>
     fork_step env torn w (w\<lparr>ppc := Reporting pid i, mem := (mem w)\<lparr>childCount := v + 1\<rparr>\<rparr>)"
| step_report: "ppc w = Reporting pid i \<Longrightarrow>
     fork_report ''doServer'' pid i (mem w) = (s, (), m) \<Longrightarrow>
     fork_step env torn w (w\<lparr>ppc := (if s = Returns then Accepting else Ended s), mem := m\<rparr>)"
| step_child: "running w = as @ (pid, i, p) # bs \<Longrightarrow> fork_child env (Inr ()) i p = (s, c, p') \<Longrightarrow>
     s \<noteq> Blocks \<Longrightarrow>
     fork_step env torn w (w\<lparr>running := as @ bs, zombies := zombies w @ [pid],
       served := served w @ [(i, c)]\<rparr>)"
| step_signal: "\<forall>s. ppc w \<noteq> Ended s \<Longrightarrow> torn \<or> (\<forall>pid v i. ppc w \<noteq> Storing pid v i) \<Longrightarrow>
     fork_step env torn w (w\<lparr>mem := sigChildHandler (zombies w) (mem w), zombies := []\<rparr>)"

text \<open>The program at the start of \<^verbatim>\<open>doServer\<close>.\<close>

definition processes_start :: "fork_server \<Rightarrow> (errno + incoming) list \<Rightarrow> processes" where
  "processes_start p acc =
     \<lparr>mem = p\<lparr>childCount := 0\<rparr>, ppc = Accepting, arriving = acc, running = [], zombies = [],
      served = []\<rparr>"

section \<open>The count of the children\<close>

lemma sigChildHandler_count [simp]:
  "childCount (sigChildHandler pids p) = childCount p - int (length pids)"
  by (induction pids p rule: sigChildHandler.induct) (simp_all add: Let_def printf_def)

lemma sigChildHandler_bufs [simp]:
  "reqBuf (sigChildHandler pids p) = reqBuf p" "resBuf (sigChildHandler pids p) = resBuf p"
  by (induction pids p rule: sigChildHandler.induct) (simp_all add: Let_def printf_def)

lemma fork_report_frame:
  "fork_report fn pid i p = (s, u, p') \<Longrightarrow>
   childCount p' = childCount p \<and> reqBuf p' = reqBuf p \<and> resBuf p' = resBuf p"
  by (auto simp: fork_report_def Close_def or_die_def err_sys_def err_doit_def printf_def
      Let_def proceed_def split: sum.splits prod.splits if_splits)

text \<open>The fatal ends of the parent leave its count and its arrays alone.\<close>

lemma err_sys_frame:
  fixes p :: "'a fork_server_scheme"
  assumes "err_sys m p = (s, p')"
  shows "childCount p' = childCount p" "reqBuf p' = reqBuf p" "resBuf p' = resBuf p"
  using assms by (auto simp: err_sys_def err_doit_def Let_def split: if_splits)

lemma Fork_frame:
  fixes p :: "'a fork_server_scheme"
  assumes "Fork (Inl e) p = Inl (s, p')"
  shows "childCount p' = childCount p" "reqBuf p' = reqBuf p" "resBuf p' = resBuf p"
  using assms by (auto simp: Fork_def or_die_def dest: err_sys_frame)

lemmas fork_fatal = err_sys_frame Fork_frame

text \<open>
  The count is the number of children that have not been reaped, less the one that the parent has
  forked and not counted yet.
\<close>

definition count_ok :: "processes \<Rightarrow> bool" where
  "count_ok w \<longleftrightarrow>
     childCount (mem w) + (case ppc w of Counting _ _ \<Rightarrow> 1 | Storing _ _ _ \<Rightarrow> 1 | _ \<Rightarrow> 0)
       = int (length (running w) + length (zombies w))
     \<and> (case ppc w of Storing _ v _ \<Rightarrow> v = childCount (mem w) | _ \<Rightarrow> True)"

lemma count_ok_step:
  assumes "fork_step env False w w'" and "count_ok w"
  shows "count_ok w'"
  using assms
proof (cases rule: fork_step.cases)
  case (step_report pid i s m)
  then show ?thesis using fork_report_frame [OF step_report(3)] assms(2) by (simp add: count_ok_def)
next
  case step_signal
  then show ?thesis using assms(2) by (simp add: count_ok_def split: parent_pc.splits)
qed (auto simp: count_ok_def dest: fork_fatal split: parent_pc.splits)

lemma count_ok_reach:
  "rtranclp (fork_step env False) (processes_start p acc) w \<Longrightarrow> count_ok w"
  by (erule reach_inv) (simp add: processes_start_def count_ok_def, rule count_ok_step)

section \<open>Every child serves its client\<close>

definition fork_inv :: "processes \<Rightarrow> bool" where
  "fork_inv w \<longleftrightarrow> server_ok (mem w) \<and> (\<forall>(pid, i, p) \<in> set (running w). server_ok p)"

lemma fork_child_serves:
  assumes "visit_ok i t" and "server_ok p" and "host_name env \<noteq> None"
  obtains c p' where "fork_child env (Inr ()) i p = (Exits 0, c, p')" "sent c = t"
proof -
  obtain a b h where i: "peer i = Some a" "locl i = Some b" "host_name env = Some h"
    "closes i = Inr ()" "session_ok (link i) t" "sent (link i) = []"
    using assms(1,3) by (auto simp: visit_ok_def)
  have "server_ok (printf (dumpHostAndAddr (host_of env) ''Peer'' a)
      (printf (dumpAddr ''Local'' h b) p))" using assms(2) by simp
  from servChild_session [OF i(5) this] obtain c p4 where
    "servChild (link i) (printf (dumpHostAndAddr (host_of env) ''Peer'' a)
      (printf (dumpAddr ''Local'' h b) p)) = (Returns, c, p4)" "sent c = sent (link i) @ t" by blast
  then show thesis
    using i that
    by (simp add: fork_child_def Close_def dumpLocalSockAddr_def dumpPeerSockAddr_def)
qed

lemma fork_inv_step:
  assumes "fork_step env torn w w'" and "fork_inv w"
  shows "fork_inv w'"
  using assms
proof (cases rule: fork_step.cases)
  case (step_report pid i s m)
  then show ?thesis using fork_report_frame [OF step_report(3)] assms(2)
    by (simp add: fork_inv_def server_ok_def)
qed (auto simp: fork_inv_def server_ok_def dest: fork_fatal)

text \<open>
  The connections that were served have got the replies of the protocol, whatever the schedule.
\<close>

definition served_ok :: "processes \<Rightarrow> bool" where
  "served_ok w \<longleftrightarrow> (\<forall>(i, c) \<in> set (served w). \<forall>t. visit_ok i t \<longrightarrow> sent c = t)"

lemma served_ok_step:
  assumes "fork_step env torn w w'" and "host_name env \<noteq> None" and "fork_inv w" and "served_ok w"
  shows "served_ok w'"
  using assms(1)
proof (cases rule: fork_step.cases)
  case (step_child as pid i p bs s c p')
  have "server_ok p" using assms(3) step_child by (auto simp: fork_inv_def)
  then have "sent c = t" if "visit_ok i t" for t
    using fork_child_serves [OF that _ assms(2)] step_child(3) by (metis prod.inject)
  then show ?thesis using assms(4) step_child(1) by (auto simp: served_ok_def)
qed (use assms(4) in \<open>auto simp: served_ok_def\<close>)

lemma served_ok_reach:
  assumes "rtranclp (fork_step env torn) (processes_start p acc) w" and "server_ok p"
    and "host_name env \<noteq> None"
  shows "served_ok w"
proof -
  have "fork_inv w \<and> served_ok w"
    using assms(1)
  proof (rule reach_inv)
    show "fork_inv (processes_start p acc) \<and> served_ok (processes_start p acc)"
      using assms(2) by (simp add: fork_inv_def served_ok_def processes_start_def server_ok_def)
  qed (use fork_inv_step served_ok_step assms(3) in blast)
  then show ?thesis by simp
qed

section \<open>Races with the handler\<close>

text \<open>
  A child that ends at once, between the two halves of \<^verbatim>\<open>curClient++\<close>: the parent overwrites what
  the handler subtracted.
\<close>

lemma one_child_started:
  assumes "server_ok p"
  obtains w where "rtranclp (fork_step env torn) (processes_start p [Inr i]) w"
    "ppc w = Counting 1 i" "childCount (mem w) = 0" "arriving w = []"
    "running w = [(1, i, mem w)]" "zombies w = []" "server_ok (mem w)"
proof -
  let ?w = "processes_start p [Inr i]"
  let ?w1 = "?w\<lparr>ppc := Forking i, arriving := []\<rparr>"
  let ?w2 = "?w1\<lparr>ppc := Counting 1 i, running := (1, i, mem ?w1) # running ?w1\<rparr>"
  have "fork_step env torn ?w ?w1" by (rule step_accept) (simp_all add: processes_start_def)
  then have "rtranclp (fork_step env torn) ?w ?w1" by (rule r_into_rtranclp)
  moreover have "fork_step env torn ?w1 ?w2" by (rule step_fork) (simp_all add: processes_start_def)
  ultimately have "rtranclp (fork_step env torn) ?w ?w2" by (rule rtranclp.rtrancl_into_rtrancl)
  then show thesis
    by (rule that) (use assms in \<open>simp_all add: processes_start_def server_ok_def\<close>)
qed

lemma child_ends:
  assumes "running w = [(pid, i, p)]" and "visit_ok i t" and "server_ok p" and "host_name env \<noteq> None"
  obtains c where "fork_step env torn w (w\<lparr>running := [], zombies := zombies w @ [pid],
    served := served w @ [(i, c)]\<rparr>)"
proof -
  obtain c p' where f: "fork_child env (Inr ()) i p = (Exits 0, c, p')"
    using assms(2-4) by (rule fork_child_serves)
  have "fork_step env torn w (w\<lparr>running := [] @ [], zombies := zombies w @ [pid],
      served := served w @ [(i, c)]\<rparr>)"
    by (rule step_child [OF _ f]) (simp_all add: assms(1))
  then show thesis using that by simp
qed

lemma fork_report_ok:
  assumes "visit_ok i t"
  obtains m where "fork_report fn pid i p = (Returns, (), m)" "childCount m = childCount p"
  using assms that
  by (auto simp: visit_ok_def fork_report_def Close_def printf_def Let_def)

lemma step_reported:
  "ppc w = Reporting pid i \<Longrightarrow> fork_report ''doServer'' pid i (mem w) = (Returns, (), m) \<Longrightarrow>
   fork_step env torn w (w\<lparr>ppc := Accepting, mem := m\<rparr>)"
  using step_report [of w pid i Returns m env torn] by simp

lemma lost_update:
  assumes "server_ok p" and "visit_ok i t" and "host_name env \<noteq> None"
  shows "\<exists>w. rtranclp (fork_step env True) (processes_start p [Inr i]) w \<and> ppc w = Accepting
    \<and> running w = [] \<and> zombies w = [] \<and> arriving w = [] \<and> childCount (mem w) = 1"
proof -
  obtain w where r: "rtranclp (fork_step env True) (processes_start p [Inr i]) w"
    and w: "ppc w = Counting 1 i" "childCount (mem w) = 0" "arriving w = []"
    "running w = [(1, i, mem w)]" "zombies w = []" "server_ok (mem w)"
    using assms(1) by (rule one_child_started)
  let ?w1 = "w\<lparr>ppc := Storing 1 (childCount (mem w)) i\<rparr>"
  have "fork_step env True w ?w1" using w(1) by (rule step_load)
  with r have r1: "rtranclp (fork_step env True) (processes_start p [Inr i]) ?w1" by (rule rtranclp.rtrancl_into_rtrancl)
  have run1: "running ?w1 = [(1, i, mem w)]" using w(4) by simp
  obtain c where "fork_step env True ?w1 (?w1\<lparr>running := [], zombies := zombies ?w1 @ [1],
      served := served ?w1 @ [(i, c)]\<rparr>)" (is "fork_step _ _ _ ?w2")
    using run1 assms(2) w(6) assms(3) by (rule child_ends)
  with r1 have r2: "rtranclp (fork_step env True) (processes_start p [Inr i]) ?w2"
    by (rule rtranclp.rtrancl_into_rtrancl)
  let ?w3 = "?w2\<lparr>mem := sigChildHandler (zombies ?w2) (mem ?w2), zombies := []\<rparr>"
  have "fork_step env True ?w2 ?w3" by (rule step_signal) simp_all
  with r2 have r3: "rtranclp (fork_step env True) (processes_start p [Inr i]) ?w3"
    by (rule rtranclp.rtrancl_into_rtrancl)
  let ?w4 = "?w3\<lparr>ppc := Reporting 1 i, mem := (mem ?w3)\<lparr>childCount := childCount (mem w) + 1\<rparr>\<rparr>"
  have "fork_step env True ?w3 ?w4" by (rule step_store) simp
  with r3 have r4: "rtranclp (fork_step env True) (processes_start p [Inr i]) ?w4"
    by (rule rtranclp.rtrancl_into_rtrancl)
  obtain m where m: "fork_report ''doServer'' 1 i (mem ?w4) = (Returns, (), m)"
    "childCount m = childCount (mem ?w4)" using assms(2) by (rule fork_report_ok)
  let ?w5 = "?w4\<lparr>ppc := Accepting, mem := m\<rparr>"
  have "fork_step env True ?w4 ?w5" by (rule step_reported [OF _ m(1)]) simp
  with r4 have "rtranclp (fork_step env True) (processes_start p [Inr i]) ?w5"
    by (rule rtranclp.rtrancl_into_rtrancl)
  then show ?thesis using w m(2) by (intro exI [of _ ?w5]) (simp del: sigChildHandler.simps)
qed

text \<open>
  Also without that race: a child that ends before it is counted makes the handler report a total
  of minus one.
\<close>

lemma negative_total:
  assumes "server_ok p" and "visit_ok i t" and "host_name env \<noteq> None"
  shows "\<exists>w. rtranclp (fork_step env False) (processes_start p [Inr i]) w \<and> running w = []
    \<and> zombies w = [] \<and> childCount (mem w) = - 1"
proof -
  obtain w where r: "rtranclp (fork_step env False) (processes_start p [Inr i]) w"
    and w: "ppc w = Counting 1 i" "childCount (mem w) = 0" "arriving w = []"
    "running w = [(1, i, mem w)]" "zombies w = []" "server_ok (mem w)"
    using assms(1) by (rule one_child_started)
  obtain c where "fork_step env False w (w\<lparr>running := [], zombies := zombies w @ [1],
      served := served w @ [(i, c)]\<rparr>)" (is "fork_step _ _ _ ?w1")
    using w(4) assms(2) w(6) assms(3) by (rule child_ends)
  with r have r1: "rtranclp (fork_step env False) (processes_start p [Inr i]) ?w1"
    by (rule rtranclp.rtrancl_into_rtrancl)
  let ?w2 = "?w1\<lparr>mem := sigChildHandler (zombies ?w1) (mem ?w1), zombies := []\<rparr>"
  have "fork_step env False ?w1 ?w2" by (rule step_signal) (simp_all add: w(1))
  with r1 have "rtranclp (fork_step env False) (processes_start p [Inr i]) ?w2"
    by (rule rtranclp.rtrancl_into_rtrancl)
  then show ?thesis using w by (intro exI [of _ ?w2]) (simp del: sigChildHandler.simps)
qed

section \<open>Properties\<close>

definition init_fork :: fork_server where
  "init_fork = server.extend init_server \<lparr>childCount = 0\<rparr>"

lemma init_fork_ok [simp]: "server_ok init_fork"
  unfolding server_ok_def by (simp add: init_fork_def init_server_def server.defs)

definition quiet_client :: incoming where
  "quiet_client = \<lparr>link = \<lparr>rq = [Fin], wq = [], sent = []\<rparr>,
     peer = Some \<lparr>sin_addr = (10, 0, 0, 1), sin_port = 99\<rparr>,
     locl = Some \<lparr>sin_addr = (10, 0, 0, 2), sin_port = 21597\<rparr>, closes = Inr ()\<rparr>"

definition demo_env :: netenv where
  "demo_env = \<lparr>host_of = (\<lambda>_. None), host_name = Some ''srv''\<rparr>"

lemma quiet_client_ok [simp]: "visit_ok quiet_client []"
  by (simp add: quiet_client_def visit_ok_def session_ok_def all_writes_def frames_def)

text \<open>C22: As long as the handler does not strike in the middle of \<^verbatim>\<open>curClient++\<close>, the count is right in
  every reachable state: when the parent waits for a connection it is the number of children that have
  not been reaped, and it is never below minus one.\<close>

theorem fork_server_counts_children:
  assumes "rtranclp (fork_step env False) (processes_start p acc) w"
  shows "- 1 \<le> childCount (mem w)
     \<and> (ppc w = Accepting \<longrightarrow> childCount (mem w) = int (length (running w) + length (zombies w)))"
  using count_ok_reach [OF assms] by (auto simp: count_ok_def split: parent_pc.splits)

theorem fork_server_counts_children_witness:
  "\<exists>w. rtranclp (fork_step demo_env False) (processes_start init_fork [Inr quiet_client]) w
    \<and> ppc w = Accepting \<and> length (running w) = 1 \<and> zombies w = [] \<and> childCount (mem w) = 1"
proof -
  obtain w where r: "rtranclp (fork_step demo_env False) (processes_start init_fork [Inr quiet_client]) w"
    "ppc w = Counting 1 quiet_client" "length (running w) = 1" "zombies w = []"
    using one_child_started [of init_fork demo_env False quiet_client] init_fork_ok by (metis length_Cons list.size(3) One_nat_def)
  let ?w1 = "w\<lparr>ppc := Storing 1 (childCount (mem w)) quiet_client\<rparr>"
  let ?w2 = "?w1\<lparr>ppc := Reporting 1 quiet_client, mem := (mem ?w1)\<lparr>childCount := childCount (mem w) + 1\<rparr>\<rparr>"
  have "fork_step demo_env False w ?w1" by (rule step_load [OF r(2)])
  with r(1) have r1: "rtranclp (fork_step demo_env False) (processes_start init_fork [Inr quiet_client]) ?w1"
    by (rule rtranclp.rtrancl_into_rtrancl)
  have "fork_step demo_env False ?w1 ?w2" by (rule step_store) simp
  with r1 have r2: "rtranclp (fork_step demo_env False) (processes_start init_fork [Inr quiet_client]) ?w2"
    by (rule rtranclp.rtrancl_into_rtrancl)
  obtain m where m: "fork_report ''doServer'' 1 quiet_client (mem ?w2) = (Returns, (), m)"
    using fork_report_ok [OF quiet_client_ok] by metis
  let ?w3 = "?w2\<lparr>ppc := Accepting, mem := m\<rparr>"
  have "fork_step demo_env False ?w2 ?w3" by (rule step_reported [OF _ m]) simp
  with r2 have r3: "rtranclp (fork_step demo_env False) (processes_start init_fork [Inr quiet_client]) ?w3"
    by (rule rtranclp.rtrancl_into_rtrancl)
  with fork_server_counts_children [OF r3] r(3,4) show ?thesis by (intro exI [of _ ?w3]) simp
qed

text \<open>C21: Every client of the forking server that is served to the end has got exactly the replies of
  the protocol, in every reachable state, whatever the children, the parent and the handler do in which
  order.\<close>

theorem fork_server_serves:
  assumes "rtranclp (fork_step env torn) (processes_start p acc) w" and "server_ok p"
    and "host_name env \<noteq> None" and "(i, c) \<in> set (served w)" and "visit_ok i t"
  shows "sent c = t"
  using served_ok_reach [OF assms(1-3)] assms(4,5) by (auto simp: served_ok_def)

text \<open>A client that asks one question, in two pieces, which is rejected.\<close>

definition asking_client :: incoming where
  "asking_client = quiet_client\<lparr>link := \<lparr>rq = [Seg ''Qx'', Seg ''='', Fin], wq = [], sent = []\<rparr>\<rparr>"

lemma asking_client_ok: "visit_ok asking_client ''X=''"
  by (simp add: asking_client_def quiet_client_def visit_ok_def session_ok_def all_writes_def frames_def BUF_SIZE_def
      reply_def well_formed_def answer_to_def add_format_def sub_format_def cstr_def sscanf.simps scan_int_def scan_nat_def
      scan_digits.simps answer_msg_def isdigit_def)

theorem fork_server_serves_witness:
  "\<exists>w c. rtranclp (fork_step demo_env False) (processes_start init_fork [Inr asking_client]) w
    \<and> (asking_client, c) \<in> set (served w) \<and> sent c = ''X=''"
proof -
  obtain w where w: "rtranclp (fork_step demo_env False) (processes_start init_fork [Inr asking_client]) w"
    "running w = [(1, asking_client, mem w)]" "server_ok (mem w)"
    using one_child_started [of init_fork demo_env False asking_client] by (metis init_fork_ok)
  have e: "host_name demo_env \<noteq> None" by (simp add: demo_env_def)
  obtain c where s: "fork_step demo_env False w (w\<lparr>running := [], zombies := zombies w @ [1],
      served := served w @ [(asking_client, c)]\<rparr>)" (is "fork_step _ _ _ ?w")
    by (rule child_ends [OF w(2) asking_client_ok w(3) e])
  from w(1) s have r: "rtranclp (fork_step demo_env False) (processes_start init_fork [Inr asking_client]) ?w"
    by (rule rtranclp.rtrancl_into_rtrancl)
  have "(asking_client, c) \<in> set (served ?w)" by simp
  with r fork_server_serves [OF r init_fork_ok e this asking_client_ok] show ?thesis by blast
qed

text \<open>The handler can destroy the count: a child that ends between the read and the write of
  \<^verbatim>\<open>curClient++\<close> leaves the server waiting for a connection with no child at all and a count of
  one, for ever.\<close>

theorem fork_server_loses_update:
  assumes "server_ok p" and "visit_ok i t" and "host_name env \<noteq> None"
  shows "\<exists>w. rtranclp (fork_step env True) (processes_start p [Inr i]) w \<and> ppc w = Accepting
    \<and> running w = [] \<and> zombies w = [] \<and> arriving w = [] \<and> childCount (mem w) = 1"
  using assms by (rule lost_update)

theorem fork_server_loses_update_witness:
  "\<exists>w. rtranclp (fork_step demo_env True) (processes_start init_fork [Inr quiet_client]) w
    \<and> ppc w = Accepting \<and> running w = [] \<and> zombies w = [] \<and> arriving w = [] \<and> childCount (mem w) = 1"
  by (rule fork_server_loses_update [OF init_fork_ok quiet_client_ok]) (simp add: demo_env_def)

end
