(* ===== verification/Netcalc_Combined.thy ===== *)
theory Netcalc_Combined
  imports Netcalc_Udp Netcalc_Fork_Server
begin

text \<open>
  The TCP and UDP server of version 6 (\<^verbatim>\<open>netcalc_srv_v6.c\<close>): \<^verbatim>\<open>doTcpServer\<close>, the loop over \<^verbatim>\<open>poll\<close> and the
  main function.  The handler and the report of the parent are in \<open>Netcalc_Fork_Server\<close>, \<^verbatim>\<open>doUdpServer\<close> in
  \<open>Netcalc_Udp\<close>; the child it forks is \<^verbatim>\<open>fork_child\<close>.
\<close>

section \<open>The handler\<close>

text \<open>
  \<^verbatim>\<open>SIGCHLD\<close> is not blocked, so the handler can run at any point of the parent.  It changes \<^verbatim>\<open>curClient\<close>, the
  output and \<^verbatim>\<open>errno\<close>, so the points that matter are those around the uses of the first and the last: while
  \<^verbatim>\<open>poll\<close> waits (or before the next use), between a call that fails and the test of \<^verbatim>\<open>errno\<close>, before, in the
  middle of and after \<^verbatim>\<open>curClient++\<close>, and after the TCP part.  A run in the UDP part, which uses neither, is
  one before the next \<^verbatim>\<open>poll\<close>.  A run is given by the children it reaps, and the \<^verbatim>\<open>errno\<close> that \<^verbatim>\<open>waitpid\<close>
  leaves when it fails in the end.
\<close>

datatype v6_point = In_poll | After_poll | After_accept | Before_count | In_count | After_count | After_tcp

type_synonym strikes = "v6_point \<Rightarrow> int list \<times> errno option"

definition struck :: "strikes \<Rightarrow> v6_point \<Rightarrow> 'a fork_server_scheme \<Rightarrow> 'a fork_server_scheme" where
  "struck sg pt p =
     (let p1 = sigChildHandler (fst (sg pt)) p in
      case snd (sg pt) of None \<Rightarrow> p1 | Some e \<Rightarrow> p1\<lparr>errnum := e\<rparr>)"

section \<open>doTcpServer\<close>

text \<open>
  The body of the loop of version 3 with \<^verbatim>\<open>return\<close> for \<^verbatim>\<open>continue\<close>; in the parent \<open>fk\<close> is the process
  number of the child.  \<^verbatim>\<open>curClient++\<close> is a read and a write.  The result holds the connection the child was
  given.
\<close>

definition doTcpServer ::
    "strikes \<Rightarrow> errno + incoming \<Rightarrow> errno + int \<Rightarrow> 'a fork_server_scheme
     \<Rightarrow> stop \<times> (int \<times> incoming) list \<times> 'a fork_server_scheme" where
  "doTcpServer sg acc fk p =
     (case acc of
        Inl e \<Rightarrow>
          (let p1 = struck sg After_accept (p\<lparr>errnum := e\<rparr>) in
           if errnum p1 = EINTR then (Returns, [], p1)
           else (case err_sys ''accept failed'' p1 of (s, p2) \<Rightarrow> (s, [], p2)))
      | Inr i \<Rightarrow>
          proceed [] (Fork fk p) (\<lambda>childPid p1.
            (let p2 = struck sg Before_count p1; v = childCount p2;
                 p3 = struck sg In_count p2;
                 p4 = struck sg After_count (p3\<lparr>childCount := v + 1\<rparr>) in
             case fork_report ''doTcpServer'' childPid i p4 of
               (s, _, p5) \<Rightarrow> (s, [(childPid, i)], p5))))"

section \<open>The loop\<close>

text \<open>
  What happens in one iteration: the runs of the handler, the result of \<^verbatim>\<open>poll\<close> as the events of the two
  descriptors, and what the calls made for them are answered.
\<close>

record v6_turn =
  t_strikes :: strikes
  t_poll :: "errno + bool \<times> bool"
  t_accept :: "errno + incoming"
  t_fork :: "errno + int"
  t_dgram :: "errno + dgram"

fun v6_loop ::
    "netenv \<Rightarrow> sockaddr_in option \<Rightarrow> (string \<Rightarrow> errno + nat) \<Rightarrow> v6_turn list
     \<Rightarrow> 'a fork_server_scheme
     \<Rightarrow> stop \<times> ((int \<times> incoming) list \<times> dgram list) \<times> 'a fork_server_scheme" where
  "v6_loop env sockname sendto [] p = (Blocks, ([], []), p)"
| "v6_loop env sockname sendto (t # ts) p =
     (let sg = t_strikes t; p0 = struck sg In_poll p in
      case t_poll t of
        Inl e \<Rightarrow>
          (let p1 = struck sg After_poll (p0\<lparr>errnum := e\<rparr>) in
           if errnum p1 = EINTR then v6_loop env sockname sendto ts p1
           else (case err_sys ''poll failed'' p1 of (s, p2) \<Rightarrow> (s, ([], []), p2)))
      | Inr (tcp, udp) \<Rightarrow>
          (case (if tcp then doTcpServer sg (t_accept t) (t_fork t) p0 else (Returns, [], p0)) of
             (s, ch, p1) \<Rightarrow>
               if s \<noteq> Returns then (s, (ch, []), p1)
               else
                 (let p2 = struck sg After_tcp p1 in
                  case (if udp then doUdpServer env sockname (t_dgram t) sendto p2
                        else (Returns, [], p2)) of
                    (s, ds, p3) \<Rightarrow>
                      if s \<noteq> Returns then (s, (ch, ds), p3)
                      else
                        (case v6_loop env sockname sendto ts p3 of
                           (s, (ch', ds'), p4) \<Rightarrow> (s, (ch @ ch', ds @ ds'), p4)))))"

text \<open>\<open>sa\<close> is what \<^verbatim>\<open>sigaction\<close> answers.\<close>

definition doTcpUdpServer ::
    "netenv \<Rightarrow> errno + unit \<Rightarrow> sockaddr_in option \<Rightarrow> (string \<Rightarrow> errno + nat) \<Rightarrow> v6_turn list
     \<Rightarrow> 'a fork_server_scheme
     \<Rightarrow> stop \<times> ((int \<times> incoming) list \<times> dgram list) \<times> 'a fork_server_scheme" where
  "doTcpUdpServer env sa sockname sendto ts p =
     (case sa of
        Inl e \<Rightarrow>
          (case err_sys (''sigaction failed'' @ nl) (p\<lparr>errnum := e\<rparr>) of (s, p1) \<Rightarrow> (s, ([], []), p1))
      | Inr _ \<Rightarrow> v6_loop env sockname sendto ts p)"

text \<open>\<^verbatim>\<open>main\<close>; the second socket and its binding have answers of their own.\<close>

record kernel6 = kernel +
  k_socket2 :: "errno + int"
  k_bind2 :: "errno + unit"
  k_sockname2 :: "sockaddr_in option"
  k_close2 :: "errno + unit"
  k_sigaction :: "errno + unit"
  k_sendto :: "string \<Rightarrow> errno + nat"

definition main_v6 ::
    "int \<Rightarrow> kernel6 \<Rightarrow> netenv \<Rightarrow> v6_turn list \<Rightarrow> 'a fork_server_scheme
     \<Rightarrow> stop \<times> ((int \<times> incoming) list \<times> dgram list) \<times> 'a fork_server_scheme" where
  "main_v6 argc k env ts p =
     (if argc \<noteq> 1 then (Undef MissingArgument, ([], []), p)
      else proceed ([], []) (Socket (k_socket k) p) (\<lambda>listenFd p1.
           proceed ([], []) (Bind (k_bind k) p1) (\<lambda>_ p2.
           proceed ([], []) (Socket (k_socket2 k) p2) (\<lambda>udpFd p3.
           proceed ([], []) (Bind (k_bind2 k) p3) (\<lambda>_ p4.
           and_then ([], []) (dumpLocalSockAddr (k_sockname k) (host_name env) p4) (\<lambda>p5.
           and_then ([], []) (dumpLocalSockAddr (k_sockname2 k) (host_name env) p5) (\<lambda>p6.
           proceed ([], []) (Listen (k_listen k) (k_listenq k) LISTENQ p6) (\<lambda>_ p7.
             (case doTcpUdpServer env (k_sigaction k) (k_sockname2 k) (k_sendto k) ts p7 of
                (s, r, p8) \<Rightarrow>
                  and_then r (s, p8) (\<lambda>p8.
                  proceed r (Close (k_close k) p8) (\<lambda>_ p9.
                  proceed r (Close (k_close2 k) p9) (\<lambda>_ p10. (Returns, r, p10)))))))))))))"

section \<open>Both services\<close>

text \<open>
  A turn in which no call fails, but for interruptions that are seen as such: the handler does not change
  \<^verbatim>\<open>errno\<close> before it is tested.
\<close>

definition seen_EINTR :: "errno \<Rightarrow> errno option \<Rightarrow> bool" where
  "seen_EINTR e left \<longleftrightarrow> e = EINTR \<and> left \<in> {None, Some EINTR}"

definition v6_turn_ok :: "v6_turn \<Rightarrow> bool" where
  "v6_turn_ok t \<longleftrightarrow> (case t_poll t of
       Inl e \<Rightarrow> seen_EINTR e (snd (t_strikes t After_poll))
     | Inr (tcp, udp) \<Rightarrow>
         (tcp \<longrightarrow> (case t_accept t of
              Inl e \<Rightarrow> seen_EINTR e (snd (t_strikes t After_accept))
            | Inr i \<Rightarrow> closes i = Inr () \<and> (case t_fork t of Inl _ \<Rightarrow> False | Inr _ \<Rightarrow> True)))
         \<and> (udp \<longrightarrow> (case t_dgram t of
              Inl _ \<Rightarrow> False
            | Inr (d, a) \<Rightarrow> (case reply (take (BUF_SIZE + 10) d) of Inl _ \<Rightarrow> False | Inr _ \<Rightarrow> True))))"

text \<open>What a turn sends, the child it forks, the children the handler reaps in it, and those of them that it
  takes off the count in vain.\<close>

definition v6_turn_sends :: "v6_turn \<Rightarrow> dgram list" where
  "v6_turn_sends t = (case (t_poll t, t_dgram t) of
       (Inr (tcp, True), Inr (d, a)) \<Rightarrow>
         (case reply (take (BUF_SIZE + 10) d) of Inr (Some u) \<Rightarrow> [(u, a)] | _ \<Rightarrow> [])
     | _ \<Rightarrow> [])"

definition v6_turn_forks :: "v6_turn \<Rightarrow> (int \<times> incoming) list" where
  "v6_turn_forks t = (case (t_poll t, t_accept t, t_fork t) of
       (Inr (True, udp), Inr i, Inr pid) \<Rightarrow> [(pid, i)]
     | _ \<Rightarrow> [])"

definition v6_reached :: "v6_turn \<Rightarrow> v6_point list" where
  "v6_reached t = In_poll # (case t_poll t of
       Inl _ \<Rightarrow> [After_poll]
     | Inr (tcp, udp) \<Rightarrow>
         (if \<not> tcp then [] else case t_accept t of Inl _ \<Rightarrow> [After_accept] | Inr _ \<Rightarrow> [Before_count, In_count, After_count])
         @ [After_tcp])"

definition v6_turn_reaps :: "v6_turn \<Rightarrow> int list" where
  "v6_turn_reaps t = concat (map (\<lambda>pt. fst (t_strikes t pt)) (v6_reached t))"

definition v6_turn_loses :: "v6_turn \<Rightarrow> int list" where
  "v6_turn_loses t = (if In_count \<in> set (v6_reached t) then fst (t_strikes t In_count) else [])"

lemma struck_frame [simp]:
  "childCount (struck sg pt p) = childCount p - int (length (fst (sg pt)))"
  "reqBuf (struck sg pt p) = reqBuf p" "resBuf (struck sg pt p) = resBuf p"
  "server_ok (struck sg pt p) = server_ok p"
  by (simp_all add: struck_def Let_def server_ok_def split: option.split)

lemma struck_errno: "seen_EINTR e (snd (sg pt)) \<Longrightarrow> errnum (struck sg pt (p\<lparr>errnum := e\<rparr>)) = EINTR"
proof -
  have "errnum (sigChildHandler pids q) = errnum q" for pids and q :: "'a fork_server_scheme"
    by (induction pids q rule: sigChildHandler.induct) (simp_all add: Let_def printf_def)
  then show "seen_EINTR e (snd (sg pt)) \<Longrightarrow> errnum (struck sg pt (p\<lparr>errnum := e\<rparr>)) = EINTR"
    by (auto simp: struck_def Let_def seen_EINTR_def)
qed

lemma doUdpServer_count:
  "doUdpServer env sockname r sendto p = (s, ds, p') \<Longrightarrow> childCount p' = childCount p"
  by (auto simp: doUdpServer_def Recvfrom_def or_die_def proceed_def and_then_def Let_def printf_def
      dumpLocalSockAddr_def Sendto_def err_sys_def err_quit_def err_doit_def
      split: sum.splits prod.splits if_splits option.splits)

lemma doTcpServer_turn:
  assumes "server_ok p" and "case acc of Inl e \<Rightarrow> seen_EINTR e (snd (sg After_accept)) | Inr i \<Rightarrow> closes i = Inr ()"
    and "\<forall>i. acc = Inr i \<longrightarrow> fk = Inr pid"
  obtains p' where "doTcpServer sg acc fk p
      = (Returns, (case acc of Inl _ \<Rightarrow> [] | Inr i \<Rightarrow> [(pid, i)]), p')" "server_ok p'"
    "childCount p' = childCount p + (case acc of
        Inl _ \<Rightarrow> - int (length (fst (sg After_accept)))
      | Inr i \<Rightarrow> 1 - int (length (fst (sg Before_count))) - int (length (fst (sg After_count))))"
proof (cases acc)
  case (Inl e)
  with assms(2) have "errnum (struck sg After_accept (p\<lparr>errnum := e\<rparr>)) = EINTR" by (simp add: struck_errno)
  with Inl show ?thesis using that assms(1) by (simp add: doTcpServer_def Let_def)
next
  case (Inr i)
  with assms show ?thesis using that
    by (auto simp: doTcpServer_def fork_report_def Fork_def Close_def Let_def printf_def server_ok_def)
qed

lemma v6_loop_services:
  assumes "server_ok p" and "host_name env \<noteq> None" and "sockname \<noteq> None"
    and "\<forall>d. sendto d = Inr (length d)" and "\<forall>t \<in> set ts. v6_turn_ok t"
  shows "\<exists>p'. v6_loop env sockname sendto ts p
      = (Blocks, (concat (map v6_turn_forks ts), concat (map v6_turn_sends ts)), p')
    \<and> childCount p' = childCount p + int (length (concat (map v6_turn_forks ts)))
        - int (length (concat (map v6_turn_reaps ts))) + int (length (concat (map v6_turn_loses ts)))"
  using assms
proof (induction ts arbitrary: p)
  case Nil
  then show ?case by simp
next
  case (Cons t ts)
  let ?sg = "t_strikes t"
  let ?p0 = "struck ?sg In_poll p"
  have p0: "server_ok ?p0" using Cons.prems(1) by simp
  note IH = Cons.IH [OF _ Cons.prems(2-4)]
  have tsok: "\<forall>t \<in> set ts. v6_turn_ok t" and tok: "v6_turn_ok t" using Cons.prems(5) by simp_all
  show ?case
  proof (cases "t_poll t")
    case (Inl e)
    then have e: "seen_EINTR e (snd (?sg After_poll))" using tok by (simp add: v6_turn_ok_def)
    let ?p1 = "struck ?sg After_poll (?p0\<lparr>errnum := e\<rparr>)"
    have "server_ok ?p1" "errnum ?p1 = EINTR" using p0 struck_errno [where sg = ?sg and pt = After_poll, OF e] by simp_all
    with IH [OF this(1) tsok] Inl show ?thesis
      by (auto simp: v6_turn_forks_def v6_turn_sends_def v6_turn_reaps_def v6_turn_loses_def v6_reached_def Let_def)
  next
    case (Inr tu)
    obtain tcp udp where tu: "tu = (tcp, udp)" by (cases tu)
    obtain p1 where p1: "(if tcp then doTcpServer ?sg (t_accept t) (t_fork t) ?p0 else (Returns, [], ?p0))
        = (Returns, v6_turn_forks t, p1)" "server_ok p1"
      "childCount p1 - int (length (fst (?sg After_tcp)))
        = childCount p + int (length (v6_turn_forks t)) - int (length (v6_turn_reaps t)) + int (length (v6_turn_loses t))"
    proof (cases tcp)
      case False
      then show thesis using that p0 Inr tu
        by (simp add: v6_turn_forks_def v6_turn_reaps_def v6_turn_loses_def v6_reached_def)
    next
      case True
      obtain pid where "\<forall>i. t_accept t = Inr i \<longrightarrow> t_fork t = Inr pid"
        using tok True Inr tu by (auto simp: v6_turn_ok_def split: sum.splits)
      moreover have "case t_accept t of Inl e \<Rightarrow> seen_EINTR e (snd (?sg After_accept)) | Inr i \<Rightarrow> closes i = Inr ()"
        using tok True Inr tu by (auto simp: v6_turn_ok_def split: sum.splits)
      ultimately obtain p' where "doTcpServer ?sg (t_accept t) (t_fork t) ?p0
          = (Returns, (case t_accept t of Inl _ \<Rightarrow> [] | Inr i \<Rightarrow> [(pid, i)]), p')" "server_ok p'"
        "childCount p' = childCount ?p0 + (case t_accept t of
            Inl _ \<Rightarrow> - int (length (fst (?sg After_accept)))
          | Inr i \<Rightarrow> 1 - int (length (fst (?sg Before_count))) - int (length (fst (?sg After_count))))"
        "\<forall>i. t_accept t = Inr i \<longrightarrow> t_fork t = Inr pid"
        using doTcpServer_turn [OF p0] by metis
      then show thesis using that True Inr tu
        by (auto simp: v6_turn_forks_def v6_turn_reaps_def v6_turn_loses_def v6_reached_def split: sum.splits)
    qed
    let ?p1 = "struck ?sg After_tcp p1"
    have ok1: "server_ok ?p1" using p1(2) by simp
    obtain p2 where p2: "(if udp then doUdpServer env sockname (t_dgram t) sendto ?p1 else (Returns, [], ?p1))
        = (Returns, v6_turn_sends t, p2)" "server_ok p2" "childCount p2 = childCount ?p1"
    proof (cases udp)
      case False
      then show thesis using that ok1 Inr tu by (simp add: v6_turn_sends_def)
    next
      case True
      then obtain d a r where d: "t_dgram t = Inr (d, a)" "reply (take (BUF_SIZE + 10) d) = Inr r"
        using tok Inr tu by (auto simp: v6_turn_ok_def split: sum.splits prod.splits)
      obtain p' where "doUdpServer env sockname (Inr (d, a)) sendto ?p1
          = (Returns, (case r of None \<Rightarrow> [] | Some u \<Rightarrow> [(u, a)]), p')" "server_ok p'"
        using doUdpServer_reply [OF ok1 Cons.prems(2-4) d(2)] by blast
      moreover from this(1) have "childCount p' = childCount ?p1" by (rule doUdpServer_count)
      ultimately show thesis using that True Inr tu d
        by (auto simp: v6_turn_sends_def split: option.splits)
    qed
    obtain p3 where "v6_loop env sockname sendto ts p2
        = (Blocks, (concat (map v6_turn_forks ts), concat (map v6_turn_sends ts)), p3)"
      "childCount p3 = childCount p2 + int (length (concat (map v6_turn_forks ts)))
        - int (length (concat (map v6_turn_reaps ts))) + int (length (concat (map v6_turn_loses ts)))"
      using IH [OF p2(2) tsok] by blast
    then show ?thesis using Inr tu p1 p2 by (simp add: Let_def)
  qed
qed

section \<open>Properties\<close>


text \<open>Two turns for the examples: a connection and a datagram, then an interrupted \<^verbatim>\<open>poll\<close>.  The child ends
  before it is counted in the one case, in the middle of it in the other.\<close>

definition v6_example :: "v6_point \<Rightarrow> v6_turn list" where
  "v6_example pt =
     [\<lparr>t_strikes = (\<lambda>x. if x = pt then ([7], None) else ([], None)), t_poll = Inr (True, True), t_accept = Inr quiet_client,
        t_fork = Inr 7, t_dgram = Inr (''Qx='', \<lparr>sin_addr = (10, 0, 0, 1), sin_port = 9\<rparr>)\<rparr>,
      \<lparr>t_strikes = (\<lambda>_. ([], None)), t_poll = Inl EINTR, t_accept = Inl EIO, t_fork = Inl EIO, t_dgram = Inl EIO\<rparr>]"


end
