(* ===== verification/Netcalc_Thread_Server.thy ===== *)
theory Netcalc_Thread_Server
  imports Netcalc_Server
begin

text \<open>
  The server that starts a thread for each connection (\<^verbatim>\<open>netcalc_srv_v5.c\<close>), as a step relation
  over the memory the threads share: the count with its lock, and the variable \<^verbatim>\<open>connFd\<close> of
  \<^verbatim>\<open>doServer\<close>, whose address is the argument of every thread.
\<close>

section \<open>The counter and its lock\<close>

text \<open>
  Where a thread is inside \<^verbatim>\<open>modCurClient\<close>: before the lock, holding it before and after the
  count has been read, and before the unlock.  The lock is a default mutex, on which the
  two calls fail for no thread that uses it in this order.
\<close>

datatype mod_pc = WantLock | Holding | Loaded int | Stored

datatype actor = Main | Thread nat

text \<open>
  One step of \<^verbatim>\<open>modCurClient(change)\<close> by \<open>a\<close> on the owner of the lock and the count; the first
  component is where the thread is then, \<open>None\<close> when it has returned.  No step is possible
  while another thread holds the lock.
\<close>

definition mod_step ::
    "actor \<Rightarrow> int \<Rightarrow> mod_pc \<Rightarrow> actor option \<Rightarrow> int \<Rightarrow> (mod_pc option \<times> actor option \<times> int) option" where
  "mod_step a change pc own cnt = (case pc of
       WantLock \<Rightarrow> if own = None then Some (Some Holding, Some a, cnt) else None
     | Holding \<Rightarrow> Some (Some (Loaded cnt), own, cnt)
     | Loaded v \<Rightarrow> Some (Some Stored, own, v + change)
     | Stored \<Rightarrow> Some (None, None, cnt))"

section \<open>The threads\<close>

text \<open>
  \<^verbatim>\<open>doServer\<close>: before \<^verbatim>\<open>Accept\<close>, before \<^verbatim>\<open>pthread_create\<close>, in \<^verbatim>\<open>modCurClient(1)\<close>.  \<^verbatim>\<open>servChild\<close>:
  before it reads its argument, in the loop with its descriptor and its own memory, before
  \<^verbatim>\<open>Close\<close>, in \<^verbatim>\<open>modCurClient(-1)\<close>, and after it.
\<close>

datatype main_pc = MAccept | MCreate | MMod mod_pc

datatype thr_pc = TFetch | TServe int server | TClose int | TMod mod_pc | TDone

record world =
  cnt :: int
  owner :: "actor option"
  connFd :: int
  mpc :: main_pc
  tpcs :: "thr_pc list"
  fds :: "int \<Rightarrow> conn option"
  coming :: "(errno + incoming) list"
  halted :: "stop option"

text \<open>
  One iteration of the loop of \<^verbatim>\<open>servChild\<close> on the connection and the thread's memory; \<open>None\<close>
  while the read waits, and the third component tells whether the loop goes on.
\<close>

definition thread_turn :: "conn \<Rightarrow> server \<Rightarrow> (stop \<times> conn \<times> server \<times> bool) option" where
  "thread_turn c p =
     (case readAppMsg BUF_SIZE (reqBuf p) (rq c) of
        (len, buf, es) \<Rightarrow>
          (let c1 = c\<lparr>rq := es\<rparr>; p1 = p\<lparr>reqBuf := buf\<rparr> in
           case len of
             Waits \<Rightarrow> None
           | Faults f \<Rightarrow> Some (Undef f, c1, p1, False)
           | Len n \<Rightarrow>
               if 0 < n then
                 (case serve_msg ''servChild'' (nat n) c1 p1 of (s, c2, p2) \<Rightarrow> Some (s, c2, p2, True))
               else Some (Returns, c1, p1, False)))"

text \<open>
  One step.  With \<open>polite\<close> a connection is accepted only when every thread has read its
  argument, which nothing in the program ensures.  The memory of a new thread holds
  anything.  A call that ends the process by \<^verbatim>\<open>err_sys\<close> or \<^verbatim>\<open>err_quit\<close> halts it in whatever thread
  it is; what the program prints is left out.
\<close>

inductive thread_step :: "bool \<Rightarrow> world \<Rightarrow> world \<Rightarrow> bool" for polite :: bool where
  main_accept: "halted w = None \<Longrightarrow> mpc w = MAccept \<Longrightarrow> coming w = Inr i # rest \<Longrightarrow>
     polite \<longrightarrow> TFetch \<notin> set (tpcs w) \<Longrightarrow> 0 \<le> fd \<Longrightarrow> fds w fd = None \<Longrightarrow>
     locl i \<noteq> None \<Longrightarrow> peer i \<noteq> None \<Longrightarrow>
     thread_step polite w
       (w\<lparr>mpc := MCreate, connFd := fd, fds := (fds w)(fd \<mapsto> link i), coming := rest\<rparr>)"
| main_again: "halted w = None \<Longrightarrow> mpc w = MAccept \<Longrightarrow> coming w = Inl e # rest \<Longrightarrow>
     e \<in> {EPROTO, ECONNABORTED} \<Longrightarrow>
     thread_step polite w (w\<lparr>coming := rest\<rparr>)"
| main_accept_fails: "halted w = None \<Longrightarrow> mpc w = MAccept \<Longrightarrow> coming w = Inl e # rest \<Longrightarrow>
     e \<notin> {EPROTO, ECONNABORTED} \<Longrightarrow>
     thread_step polite w (w\<lparr>coming := rest, halted := Some (Exits 1)\<rparr>)"
| main_no_name: "halted w = None \<Longrightarrow> mpc w = MAccept \<Longrightarrow> coming w = Inr i # rest \<Longrightarrow>
     locl i = None \<or> peer i = None \<Longrightarrow>
     thread_step polite w (w\<lparr>coming := rest, halted := Some (Exits 1)\<rparr>)"
| main_create_fails: "halted w = None \<Longrightarrow> mpc w = MCreate \<Longrightarrow>
     thread_step polite w (w\<lparr>halted := Some (Exits 1)\<rparr>)"
| main_create: "halted w = None \<Longrightarrow> mpc w = MCreate \<Longrightarrow>
     thread_step polite w (w\<lparr>mpc := MMod WantLock, tpcs := tpcs w @ [TFetch]\<rparr>)"
| main_mod: "halted w = None \<Longrightarrow> mpc w = MMod pc \<Longrightarrow>
     mod_step Main 1 pc (owner w) (cnt w) = Some (pc', own, n) \<Longrightarrow>
     thread_step polite w (w\<lparr>mpc := (case pc' of None \<Rightarrow> MAccept | Some q \<Rightarrow> MMod q),
       owner := own, cnt := n\<rparr>)"
| thr_fetch: "halted w = None \<Longrightarrow> t < length (tpcs w) \<Longrightarrow> tpcs w ! t = TFetch \<Longrightarrow> server_ok p \<Longrightarrow>
     thread_step polite w (w\<lparr>tpcs := (tpcs w)[t := TServe (connFd w) p]\<rparr>)"
| thr_turn: "halted w = None \<Longrightarrow> t < length (tpcs w) \<Longrightarrow> tpcs w ! t = TServe fd p \<Longrightarrow>
     fds w fd = Some c \<Longrightarrow> thread_turn c p = Some (Returns, c', p', goes) \<Longrightarrow>
     thread_step polite w (w\<lparr>tpcs := (tpcs w)[t := (if goes then TServe fd p' else TClose fd)],
       fds := (fds w)(fd \<mapsto> c')\<rparr>)"
| thr_dies: "halted w = None \<Longrightarrow> t < length (tpcs w) \<Longrightarrow> tpcs w ! t = TServe fd p \<Longrightarrow>
     fds w fd = Some c \<Longrightarrow> thread_turn c p = Some (s, c', p', goes) \<Longrightarrow> s \<noteq> Returns \<Longrightarrow>
     thread_step polite w (w\<lparr>halted := Some s\<rparr>)"
| thr_bad_fd: "halted w = None \<Longrightarrow> t < length (tpcs w) \<Longrightarrow> tpcs w ! t = TServe fd p \<Longrightarrow>
     fds w fd = None \<Longrightarrow>
     thread_step polite w (w\<lparr>tpcs := (tpcs w)[t := TClose fd]\<rparr>)"
| thr_close: "halted w = None \<Longrightarrow> t < length (tpcs w) \<Longrightarrow> tpcs w ! t = TClose fd \<Longrightarrow>
     fds w fd = Some c \<Longrightarrow>
     thread_step polite w (w\<lparr>tpcs := (tpcs w)[t := TMod WantLock], fds := (fds w)(fd := None)\<rparr>)"
| thr_close_fails: "halted w = None \<Longrightarrow> t < length (tpcs w) \<Longrightarrow> tpcs w ! t = TClose fd \<Longrightarrow>
     fds w fd = None \<Longrightarrow>
     thread_step polite w (w\<lparr>halted := Some (Exits 1)\<rparr>)"
| thr_mod: "halted w = None \<Longrightarrow> t < length (tpcs w) \<Longrightarrow> tpcs w ! t = TMod pc \<Longrightarrow>
     mod_step (Thread t) (- 1) pc (owner w) (cnt w) = Some (pc', own, n) \<Longrightarrow>
     thread_step polite w (w\<lparr>tpcs := (tpcs w)[t := (case pc' of None \<Rightarrow> TDone | Some q \<Rightarrow> TMod q)],
       owner := own, cnt := n\<rparr>)"

definition world_start :: "(errno + incoming) list \<Rightarrow> world" where
  "world_start acc = \<lparr>cnt = 0, owner = None, connFd = 0, mpc = MAccept, tpcs = [],
     fds = (\<lambda>_. None), coming = acc, halted = None\<rparr>"

section \<open>The lock protects the count\<close>

text \<open>Inside the critical section, and whether the change has been made.\<close>

fun holds :: "mod_pc \<Rightarrow> bool" where
  "holds WantLock = False"
| "holds _ = True"

fun pc_of :: "world \<Rightarrow> actor \<Rightarrow> mod_pc option" where
  "pc_of w Main = (case mpc w of MMod pc \<Rightarrow> Some pc | _ \<Rightarrow> None)"
| "pc_of w (Thread t) =
     (if t < length (tpcs w) then (case tpcs w ! t of TMod pc \<Rightarrow> Some pc | _ \<Rightarrow> None) else None)"

definition lock_inv :: "actor option \<Rightarrow> int \<Rightarrow> (actor \<Rightarrow> mod_pc option) \<Rightarrow> bool" where
  "lock_inv own n f \<longleftrightarrow> (\<forall>a. own = Some a \<longleftrightarrow> (\<exists>pc. f a = Some pc \<and> holds pc))
     \<and> (\<forall>a v. f a = Some (Loaded v) \<longrightarrow> v = n)"

lemma holds_iff: "holds pc \<longleftrightarrow> pc \<noteq> WantLock"
  by (cases pc) auto

text \<open>A step inside \<^verbatim>\<open>modCurClient\<close> keeps mutual exclusion, and so do the steps outside.\<close>

lemma lock_inv_step:
  assumes "lock_inv own n f" and "f a = Some pc" and "mod_step a ch pc own n = Some (pc', own', n')"
  shows "lock_inv own' n' (f(a := pc'))"
proof -
  have own: "own = Some b \<longleftrightarrow> (\<exists>pc. f b = Some pc \<and> pc \<noteq> WantLock)" for b
    using assms(1) by (simp add: lock_inv_def holds_iff)
  have load: "v = n" if "f b = Some (Loaded v)" for b v using that assms(1) by (auto simp: lock_inv_def)
  have excl: "b = a" if "pc \<noteq> WantLock" "f b = Some (Loaded v)" for b v
  proof -
    have "own = Some a" "own = Some b" using that assms(2) own by blast+
    then show ?thesis by simp
  qed
  have "\<not> (\<exists>v. pc' = Some (Loaded v)) \<or> (pc' = Some (Loaded n) \<and> n' = n)"
    and n': "n' = n \<or> pc \<noteq> WantLock"
    using assms(3) by (cases pc; auto simp: mod_step_def split: if_splits)+
  then have "v = n'" if "(f(a := pc')) b = Some (Loaded v)" for b v
    using that load excl n' by (cases "b = a") auto
  moreover have "own' = Some b \<longleftrightarrow> (\<exists>pc. (f(a := pc')) b = Some pc \<and> pc \<noteq> WantLock)" for b
  proof (cases "b = a")
    case True
    have "own = Some a" if "pc \<noteq> WantLock" using own assms(2) that by blast
    then show ?thesis using True assms(3)
      by (cases pc) (auto simp: mod_step_def split: if_splits)
  next
    case False
    have "own = Some a \<and> (own' = own \<or> own' = None) \<or> own = None \<and> own' = Some a"
      using own [of a] assms(2,3) by (cases pc) (auto simp: mod_step_def split: if_splits)
    then show ?thesis using False own [of b] by auto
  qed
  ultimately show ?thesis by (simp add: lock_inv_def holds_iff)
qed

lemma lock_inv_outside:
  assumes "lock_inv own n f" and "f a = None" and "x = None \<or> x = Some WantLock"
  shows "lock_inv own n (f(a := x))"
  using assms by (auto simp: lock_inv_def holds_iff)

text \<open>A thread that has not subtracted itself, and the main thread when it has not added one.\<close>

fun uncounted :: "thr_pc \<Rightarrow> bool" where
  "uncounted (TMod Stored) = False"
| "uncounted TDone = False"
| "uncounted _ = True"

fun owing :: "main_pc \<Rightarrow> int" where
  "owing (MMod Stored) = 0"
| "owing (MMod _) = 1"
| "owing _ = 0"

lemma owing_MMod [simp]: "owing (MMod q) = (if q = Stored then 0 else 1)"
  by (cases q) simp_all

lemma uncounted_TMod [simp]: "uncounted (TMod q) \<longleftrightarrow> q \<noteq> Stored"
  by (cases q) simp_all

definition thread_count :: "world \<Rightarrow> int" where
  "thread_count w = int (length (filter uncounted (tpcs w))) - owing (mpc w)"

lemma filter_update:
  assumes "t < length xs"
  shows "int (length (filter P (xs[t := x])))
    = int (length (filter P xs)) - of_bool (P (xs ! t)) + of_bool (P x)"
  using assms
proof (induction xs arbitrary: t)
  case (Cons y ys)
  then show ?case by (cases t) auto
qed simp

definition count_inv :: "world \<Rightarrow> bool" where
  "count_inv w \<longleftrightarrow> lock_inv (owner w) (cnt w) (pc_of w) \<and> thread_count w = cnt w"

lemma pc_of_update:
  assumes "t < length (tpcs w)"
  shows "pc_of (w\<lparr>tpcs := (tpcs w)[t := q]\<rparr>)
    = (pc_of w)(Thread t := (case q of TMod pc \<Rightarrow> Some pc | _ \<Rightarrow> None))"
proof
  fix a
  show "pc_of (w\<lparr>tpcs := (tpcs w)[t := q]\<rparr>) a
      = ((pc_of w)(Thread t := (case q of TMod pc \<Rightarrow> Some pc | _ \<Rightarrow> None))) a"
    using assms by (cases a) (auto simp: nth_list_update)
qed

lemma pc_of_main:
  "pc_of (w\<lparr>mpc := m\<rparr>) = (pc_of w)(Main := (case m of MMod pc \<Rightarrow> Some pc | _ \<Rightarrow> None))"
proof
  fix a
  show "pc_of (w\<lparr>mpc := m\<rparr>) a = ((pc_of w)(Main := (case m of MMod pc \<Rightarrow> Some pc | _ \<Rightarrow> None))) a"
    by (cases a) auto
qed

lemma pc_of_frame [simp]:
  "pc_of (w\<lparr>owner := x\<rparr>) = pc_of w" "pc_of (w\<lparr>cnt := n\<rparr>) = pc_of w"
  "pc_of (w\<lparr>connFd := fd\<rparr>) = pc_of w" "pc_of (w\<lparr>fds := g\<rparr>) = pc_of w"
  "pc_of (w\<lparr>coming := c\<rparr>) = pc_of w" "pc_of (w\<lparr>halted := h\<rparr>) = pc_of w"
proof -
  have eq: "pc_of w' a = pc_of w a" if "tpcs w' = tpcs w" "mpc w' = mpc w" for w' a
    using that by (cases a) simp_all
  show "pc_of (w\<lparr>owner := x\<rparr>) = pc_of w" "pc_of (w\<lparr>cnt := n\<rparr>) = pc_of w"
    "pc_of (w\<lparr>connFd := fd\<rparr>) = pc_of w" "pc_of (w\<lparr>fds := g\<rparr>) = pc_of w"
    "pc_of (w\<lparr>coming := c\<rparr>) = pc_of w" "pc_of (w\<lparr>halted := h\<rparr>) = pc_of w"
    by (rule ext, rule eq, simp, simp)+
qed

lemma thread_pc: "t < length (tpcs w) \<Longrightarrow> pc_of w (Thread t)
    = (case tpcs w ! t of TMod pc \<Rightarrow> Some pc | _ \<Rightarrow> None)"
  by simp

text \<open>The step of a thread outside \<^verbatim>\<open>modCurClient\<close>.\<close>

lemma count_inv_thread:
  assumes "count_inv w" and "t < length (tpcs w)" and "pc_of w (Thread t) = None"
    and "uncounted (tpcs w ! t)" and "uncounted q"
    and "case q of TMod pc \<Rightarrow> pc = WantLock | _ \<Rightarrow> True"
  shows "count_inv (w\<lparr>tpcs := (tpcs w)[t := q]\<rparr>)"
proof -
  have "lock_inv (owner w) (cnt w) ((pc_of w)(Thread t := (case q of TMod pc \<Rightarrow> Some pc | _ \<Rightarrow> None)))"
    using assms by (intro lock_inv_outside) (auto simp: count_inv_def split: thr_pc.splits)
  moreover have "thread_count (w\<lparr>tpcs := (tpcs w)[t := q]\<rparr>) = thread_count w"
    using assms(2,4,5) by (simp add: thread_count_def filter_update)
  ultimately show ?thesis
    using assms(1) unfolding count_inv_def pc_of_update [OF assms(2)] by simp
qed

lemma count_inv_frame [simp]:
  "count_inv (w\<lparr>fds := g\<rparr>) = count_inv w" "count_inv (w\<lparr>halted := h\<rparr>) = count_inv w"
  "count_inv (w\<lparr>connFd := fd\<rparr>) = count_inv w" "count_inv (w\<lparr>coming := c\<rparr>) = count_inv w"
  by (simp_all add: count_inv_def thread_count_def)

text \<open>The steps inside \<^verbatim>\<open>modCurClient\<close>.\<close>

lemma mod_step_count:
  assumes "mod_step a ch pc own n = Some (pc', own', n')" and "\<And>v. pc = Loaded v \<Longrightarrow> v = n"
  shows "n' = n + (if pc' = Some Stored then ch else 0)"
    "pc' \<noteq> Some WantLock" "pc' = Some Stored \<longleftrightarrow> (\<exists>v. pc = Loaded v)" "pc' = None \<longleftrightarrow> pc = Stored"
  using assms by (cases pc; auto simp: mod_step_def split: if_splits)+

lemma count_inv_main_mod:
  assumes "count_inv w" and "mpc w = MMod pc"
    and "mod_step Main 1 pc (owner w) (cnt w) = Some (pc', own, n)"
  shows "count_inv (w\<lparr>mpc := (case pc' of None \<Rightarrow> MAccept | Some q \<Rightarrow> MMod q), owner := own, cnt := n\<rparr>)"
proof -
  let ?m = "case pc' of None \<Rightarrow> MAccept | Some q \<Rightarrow> MMod q"
  have f: "pc_of w Main = Some pc" using assms(2) by simp
  have li: "lock_inv (owner w) (cnt w) (pc_of w)" using assms(1) unfolding count_inv_def by blast
  have ld: "v = cnt w" if "pc = Loaded v" for v using li f that unfolding lock_inv_def by blast
  note mc = mod_step_count [OF assms(3) ld]
  have "(case ?m of MMod q \<Rightarrow> Some q | _ \<Rightarrow> None) = pc'" by (cases pc') simp_all
  then have "lock_inv own n (pc_of (w\<lparr>mpc := ?m\<rparr>))"
    using lock_inv_step [OF li f assms(3)] pc_of_main [where w = w and m = ?m] by simp
  moreover have "thread_count (w\<lparr>mpc := ?m\<rparr>) = n"
    using mc assms(1,2) by (cases pc; cases pc') (auto simp: count_inv_def thread_count_def elim: holds.elims
        split: mod_pc.splits)
  ultimately show ?thesis by (simp add: count_inv_def thread_count_def)
qed

lemma count_inv_thread_mod:
  assumes "count_inv w" and "t < length (tpcs w)" and "tpcs w ! t = TMod pc"
    and "mod_step (Thread t) (- 1) pc (owner w) (cnt w) = Some (pc', own, n)"
  shows "count_inv (w\<lparr>tpcs := (tpcs w)[t := (case pc' of None \<Rightarrow> TDone | Some q \<Rightarrow> TMod q)],
    owner := own, cnt := n\<rparr>)"
proof -
  let ?q = "case pc' of None \<Rightarrow> TDone | Some q \<Rightarrow> TMod q"
  have f: "pc_of w (Thread t) = Some pc" using assms(2,3) by simp
  have li: "lock_inv (owner w) (cnt w) (pc_of w)" using assms(1) unfolding count_inv_def by blast
  have ld: "v = cnt w" if "pc = Loaded v" for v using li f that unfolding lock_inv_def by blast
  note mc = mod_step_count [OF assms(4) ld]
  have "(case ?q of TMod q \<Rightarrow> Some q | _ \<Rightarrow> None) = pc'" by (cases pc') simp_all
  then have "lock_inv own n (pc_of (w\<lparr>tpcs := (tpcs w)[t := ?q]\<rparr>))"
    using lock_inv_step [OF li f assms(4)] pc_of_update [OF assms(2), of ?q] by simp
  moreover have "thread_count (w\<lparr>tpcs := (tpcs w)[t := ?q]\<rparr>) = n"
    using mc assms(1-3)
    by (cases pc; cases pc') (auto simp: count_inv_def thread_count_def filter_update split: mod_pc.splits)
  ultimately show ?thesis by (simp add: count_inv_def thread_count_def)
qed

lemma count_inv_step:
  assumes "thread_step polite w w'" and "count_inv w"
  shows "count_inv w'"
  using assms(1)
proof (cases rule: thread_step.cases)
  case (main_accept i rest fd)
  have "lock_inv (owner w) (cnt w) ((pc_of w)(Main := None))"
    using assms(2) main_accept(3) by (intro lock_inv_outside) (auto simp: count_inv_def)
  then have "count_inv (w\<lparr>mpc := MCreate\<rparr>)"
    using assms(2) main_accept(3) pc_of_main [where w = w and m = MCreate]
    by (simp add: count_inv_def thread_count_def)
  then show ?thesis unfolding main_accept(1) by (simp add: count_inv_def thread_count_def)
next
  case main_create
  let ?w1 = "w\<lparr>mpc := MMod WantLock\<rparr>"
  have "lock_inv (owner w) (cnt w) ((pc_of w)(Main := Some WantLock))"
    using assms(2) main_create(3) by (intro lock_inv_outside) (auto simp: count_inv_def)
  moreover have "pc_of (?w1\<lparr>tpcs := tpcs w @ [TFetch]\<rparr>) = pc_of ?w1"
  proof
    fix a
    show "pc_of (?w1\<lparr>tpcs := tpcs w @ [TFetch]\<rparr>) a = pc_of ?w1 a"
      by (cases a) (auto simp: nth_append)
  qed
  ultimately show ?thesis
    using assms(2) main_create(1,3) pc_of_main [where w = w and m = "MMod WantLock"]
    by (simp add: count_inv_def thread_count_def)
next
  case (main_mod pc pc' own n)
  then show ?thesis using count_inv_main_mod [OF assms(2)] by simp
next
  case (thr_fetch t p)
  then show ?thesis using count_inv_thread [OF assms(2)] by simp
next
  case (thr_turn t fd p c c' p' goes)
  let ?q = "if goes then TServe fd p' else TClose fd"
  have "count_inv (w\<lparr>tpcs := (tpcs w)[t := ?q]\<rparr>)"
    using thr_turn by (intro count_inv_thread [OF assms(2)]) auto
  then show ?thesis unfolding thr_turn(1) by (simp add: count_inv_def thread_count_def)
next
  case (thr_bad_fd t fd p)
  then show ?thesis using count_inv_thread [OF assms(2)] by simp
next
  case (thr_close t fd c)
  have "count_inv (w\<lparr>tpcs := (tpcs w)[t := TMod WantLock]\<rparr>)"
    using thr_close by (intro count_inv_thread [OF assms(2)]) auto
  then show ?thesis unfolding thr_close(1) by (simp add: count_inv_def thread_count_def)
next
  case (thr_mod t pc pc' own n)
  then show ?thesis using count_inv_thread_mod [OF assms(2)] by simp
qed (use assms(2) in simp_all)

lemma count_inv_reach:
  assumes "rtranclp (thread_step polite) (world_start acc) w"
  shows "count_inv w"
  using assms
proof (rule reach_inv)
  show "count_inv (world_start acc)"
  proof -
    have "pc_of (world_start acc) a = None" for a by (cases a) (simp_all add: world_start_def)
    then show ?thesis by (simp add: count_inv_def thread_count_def world_start_def lock_inv_def)
  qed
qed (rule count_inv_step)

section \<open>The argument of the threads\<close>

lemma main_counts:
  assumes "halted w = None" and "mpc w = MMod WantLock" and "owner w = None"
  shows "rtranclp (thread_step polite) w (w\<lparr>mpc := MAccept, owner := None, cnt := cnt w + 1\<rparr>)"
proof -
  let ?w1 = "w\<lparr>mpc := MMod Holding, owner := Some Main, cnt := cnt w\<rparr>"
  let ?w2 = "?w1\<lparr>mpc := MMod (Loaded (cnt w)), owner := Some Main, cnt := cnt w\<rparr>"
  let ?w3 = "?w2\<lparr>mpc := MMod Stored, owner := Some Main, cnt := cnt w + 1\<rparr>"
  let ?w4 = "?w3\<lparr>mpc := MAccept, owner := None, cnt := cnt w + 1\<rparr>"
  have 1: "thread_step polite w ?w1"
    using main_mod [of w WantLock "Some Holding" "Some Main" "cnt w" polite] assms
    by (simp add: mod_step_def)
  have 2: "thread_step polite ?w1 ?w2"
    using main_mod [of ?w1 Holding "Some (Loaded (cnt w))" "Some Main" "cnt w" polite] assms
    by (simp add: mod_step_def)
  have 3: "thread_step polite ?w2 ?w3"
    using main_mod [of ?w2 "Loaded (cnt w)" "Some Stored" "Some Main" "cnt w + 1" polite] assms
    by (simp add: mod_step_def)
  have 4: "thread_step polite ?w3 ?w4"
    using main_mod [of ?w3 Stored None None "cnt w + 1" polite] assms
    by (simp add: mod_step_def)
  from 1 have "rtranclp (thread_step polite) w ?w1" by (rule r_into_rtranclp)
  from this 2 have "rtranclp (thread_step polite) w ?w2" by (rule rtranclp.rtrancl_into_rtrancl)
  from this 3 have "rtranclp (thread_step polite) w ?w3" by (rule rtranclp.rtrancl_into_rtrancl)
  from this 4 have "rtranclp (thread_step polite) w ?w4" by (rule rtranclp.rtrancl_into_rtrancl)
  then show ?thesis by simp
qed

text \<open>
  Two connections that come in quick succession: the first thread reads \<^verbatim>\<open>connFd\<close> after the second
  connection has been stored there, so both threads serve the second connection and nobody
  the first.
\<close>

lemma threads_share_connection:
  assumes "locl i \<noteq> None" "peer i \<noteq> None" "locl j \<noteq> None" "peer j \<noteq> None" "server_ok p"
  shows "\<exists>w. rtranclp (thread_step False) (world_start [Inr i, Inr j]) w \<and> mpc w = MAccept
    \<and> coming w = [] \<and> tpcs w = [TServe 5 p, TServe 5 p] \<and> fds w 4 = Some (link i)
    \<and> fds w 5 = Some (link j)"
proof -
  let ?w = "world_start [Inr i, Inr j]"
  let ?w1 = "?w\<lparr>mpc := MCreate, connFd := 4, fds := (fds ?w)(4 \<mapsto> link i), coming := [Inr j]\<rparr>"
  let ?w2 = "?w1\<lparr>mpc := MMod WantLock, tpcs := [TFetch]\<rparr>"
  let ?w3 = "?w2\<lparr>mpc := MAccept, owner := None, cnt := cnt ?w2 + 1\<rparr>"
  let ?w4 = "?w3\<lparr>mpc := MCreate, connFd := 5, fds := (fds ?w3)(5 \<mapsto> link j), coming := []\<rparr>"
  let ?w5 = "?w4\<lparr>tpcs := [TServe 5 p]\<rparr>"
  let ?w6 = "?w5\<lparr>mpc := MMod WantLock, tpcs := [TServe 5 p, TFetch]\<rparr>"
  let ?w7 = "?w6\<lparr>mpc := MAccept, owner := None, cnt := cnt ?w6 + 1\<rparr>"
  let ?w8 = "?w7\<lparr>tpcs := [TServe 5 p, TServe 5 p]\<rparr>"
  have 1: "thread_step False ?w ?w1"
    by (rule main_accept) (use assms in \<open>simp_all add: world_start_def\<close>)
  have 2: "thread_step False ?w1 ?w2"
    using main_create [of ?w1 False] by (simp add: world_start_def)
  have 3: "rtranclp (thread_step False) ?w2 ?w3"
    by (rule main_counts) (simp_all add: world_start_def)
  have 4: "thread_step False ?w3 ?w4"
    by (rule main_accept) (use assms in \<open>simp_all add: world_start_def\<close>)
  have 5: "thread_step False ?w4 ?w5"
    using thr_fetch [of ?w4 0 p False] assms(5) by (simp add: world_start_def)
  have 6: "thread_step False ?w5 ?w6"
    using main_create [of ?w5 False] by (simp add: world_start_def)
  have 7: "rtranclp (thread_step False) ?w6 ?w7"
    by (rule main_counts) (simp_all add: world_start_def)
  have 8: "thread_step False ?w7 ?w8"
    using thr_fetch [of ?w7 1 p False] assms(5) by (simp add: world_start_def)
  from 1 have "rtranclp (thread_step False) ?w ?w1" by (rule r_into_rtranclp)
  from this 2 have "rtranclp (thread_step False) ?w ?w2" by (rule rtranclp.rtrancl_into_rtrancl)
  from this 3 have "rtranclp (thread_step False) ?w ?w3" by (rule rtranclp_trans)
  from this 4 have "rtranclp (thread_step False) ?w ?w4" by (rule rtranclp.rtrancl_into_rtrancl)
  from this 5 have "rtranclp (thread_step False) ?w ?w5" by (rule rtranclp.rtrancl_into_rtrancl)
  from this 6 have "rtranclp (thread_step False) ?w ?w6" by (rule rtranclp.rtrancl_into_rtrancl)
  from this 7 have "rtranclp (thread_step False) ?w ?w7" by (rule rtranclp_trans)
  from this 8 have "rtranclp (thread_step False) ?w ?w8" by (rule rtranclp.rtrancl_into_rtrancl)
  then show ?thesis by (intro exI [of _ ?w8]) (simp add: world_start_def)
qed

text \<open>Which connection an actor is responsible for.\<close>

fun holder :: "world \<Rightarrow> actor \<Rightarrow> int option" where
  "holder w Main = (if mpc w = MCreate then Some (connFd w) else None)"
| "holder w (Thread t) =
     (if t < length (tpcs w) then
        (case tpcs w ! t of
           TFetch \<Rightarrow> Some (connFd w)
         | TServe fd _ \<Rightarrow> Some fd
         | TClose fd \<Rightarrow> Some fd
         | _ \<Rightarrow> None)
      else None)"

definition share_inv :: "world \<Rightarrow> bool" where
  "share_inv w \<longleftrightarrow> (\<forall>a b fd. holder w a = Some fd \<longrightarrow> holder w b = Some fd \<longrightarrow> a = b)
     \<and> (\<forall>a fd. holder w a = Some fd \<longrightarrow> fds w fd \<noteq> None)"


text \<open>
  Only the accept of the program gives an actor a new connection; every other step keeps who is
  responsible for what, hands it on, or gives it up.
\<close>

lemma holder_thread:
  assumes "t < length (tpcs w)" and "b \<noteq> Thread t"
  shows "holder (w\<lparr>tpcs := (tpcs w)[t := q]\<rparr>) b = holder w b"
  using assms by (cases b) (auto split: thr_pc.split)

lemma holder_frame [simp]:
  "holder (w\<lparr>owner := x\<rparr>) = holder w" "holder (w\<lparr>cnt := n\<rparr>) = holder w"
  "holder (w\<lparr>fds := g\<rparr>) = holder w" "holder (w\<lparr>coming := c\<rparr>) = holder w"
  "holder (w\<lparr>halted := h\<rparr>) = holder w"
proof -
  have eq: "holder w' a = holder w a"
    if "tpcs w' = tpcs w" "mpc w' = mpc w" "connFd w' = connFd w" for w' a
    using that by (cases a) (simp_all split: thr_pc.split)
  show "holder (w\<lparr>owner := x\<rparr>) = holder w" "holder (w\<lparr>cnt := n\<rparr>) = holder w"
    "holder (w\<lparr>fds := g\<rparr>) = holder w" "holder (w\<lparr>coming := c\<rparr>) = holder w"
    "holder (w\<lparr>halted := h\<rparr>) = holder w"
    by (rule ext, rule eq, simp, simp, simp)+
qed

lemma share_inv_accept:
  assumes "share_inv w" and "TFetch \<notin> set (tpcs w)" and "mpc w = MAccept" and "fds w fd = None"
  shows "share_inv (w\<lparr>mpc := MCreate, connFd := fd, fds := (fds w)(fd \<mapsto> c), coming := rest\<rparr>)"
proof -
  let ?w = "w\<lparr>mpc := MCreate, connFd := fd, fds := (fds w)(fd \<mapsto> c), coming := rest\<rparr>"
  have t: "holder ?w (Thread t) = holder w (Thread t)" for t
    using assms(2) by (auto split: thr_pc.split dest: nth_mem)
  have new: "holder w a \<noteq> Some fd" for a using assms(1,4) unfolding share_inv_def by blast
  have main: "holder ?w Main = Some fd" "holder w Main = None" using assms(3) by simp_all
  have all: "holder ?w a = (if a = Main then Some fd else holder w a)" for a
    using t main by (cases a) auto
  show ?thesis
    using assms(1) new unfolding share_inv_def all by (auto split: if_splits)
qed

lemma share_inv_step:
  assumes "thread_step True w w'" and "share_inv w"
  shows "share_inv w'"
  using assms(1)
proof (cases rule: thread_step.cases)
  case (main_accept i rest fd)
  then show ?thesis using share_inv_accept [OF assms(2)] by simp
next
  case main_create
  let ?n = "length (tpcs w)"
  have "holder w' a = (if a = Main then None else if a = Thread ?n then holder w Main else holder w a)" for a
    using main_create by (cases a) (auto simp: nth_append less_Suc_eq split: thr_pc.split)
  moreover have "holder w (Thread ?n) = None" by simp
  ultimately show ?thesis
    using assms(2) main_create(1) unfolding share_inv_def
    by (auto simp del: holder.simps split: if_splits)
next
  case (main_mod pc pc' own n)
  have "holder w' b = holder w b" for b
    using main_mod by (cases b) (auto split: option.split thr_pc.split)
  then show ?thesis using assms(2) main_mod(1) by (simp add: share_inv_def)
next
  case (thr_fetch t p)
  have "holder w' b = holder w b" for b
    using thr_fetch holder_thread by (cases "b = Thread t") auto
  then show ?thesis using assms(2) thr_fetch(1) by (simp add: share_inv_def)
next
  case (thr_turn t fd p c c' p' goes)
  let ?q = "if goes then TServe fd p' else TClose fd"
  have "holder w' b = holder w b" for b
    using thr_turn holder_thread [of t w b ?q] by (cases "b = Thread t") auto
  then show ?thesis using assms(2) thr_turn(1) by (auto simp: share_inv_def)
next
  case (thr_bad_fd t fd p)
  have "holder w' b = holder w b" for b
    using thr_bad_fd holder_thread by (cases "b = Thread t") auto
  then show ?thesis using assms(2) thr_bad_fd(1) by (simp add: share_inv_def)
next
  case (thr_close t fd c)
  have h: "holder w' b = (if b = Thread t then None else holder w b)" for b
    using thr_close holder_thread by (cases "b = Thread t") auto
  have "holder w (Thread t) = Some fd" using thr_close by simp
  then have "holder w b \<noteq> Some fd" if "b \<noteq> Thread t" for b
    using assms(2) that unfolding share_inv_def by blast
  then show ?thesis
    using assms(2) thr_close(1) unfolding share_inv_def h by (auto split: if_splits)
next
  case (thr_mod t pc pc' own n)
  let ?q = "case pc' of None \<Rightarrow> TDone | Some q \<Rightarrow> TMod q"
  have "holder w' b = holder w b" for b
    using thr_mod holder_thread [of t w b ?q] by (cases "b = Thread t") (auto split: option.splits)
  then show ?thesis using assms(2) thr_mod(1) by (simp add: share_inv_def)
qed (use assms(2) in \<open>simp_all add: share_inv_def\<close>)

lemma share_inv_reach:
  assumes "rtranclp (thread_step True) (world_start acc) w"
  shows "share_inv w"
  using assms
proof (rule reach_inv)
  have "holder (world_start acc) a = None" for a by (cases a) (simp_all add: world_start_def)
  then show "share_inv (world_start acc)" by (simp add: share_inv_def)
qed (rule share_inv_step)

text \<open>A first connection: accepted, its thread created, and the lock taken for counting it.\<close>

definition two_ends :: incoming where
  "two_ends = \<lparr>link = \<lparr>rq = [Fin], wq = [], sent = []\<rparr>,
     peer = Some \<lparr>sin_addr = (10, 0, 0, 1), sin_port = 99\<rparr>,
     locl = Some \<lparr>sin_addr = (10, 0, 0, 2), sin_port = 21597\<rparr>, closes = Inr ()\<rparr>"

definition accepted_world :: world where
  "accepted_world = (world_start [Inr two_ends])\<lparr>mpc := MCreate, connFd := 4,
     fds := (fds (world_start [Inr two_ends]))(4 \<mapsto> link two_ends), coming := []\<rparr>"

definition locked_world :: world where
  "locked_world = accepted_world\<lparr>mpc := MMod Holding, tpcs := [TFetch], owner := Some Main, cnt := 0\<rparr>"

lemma accepted_reached:
  "rtranclp (thread_step polite) (world_start [Inr two_ends]) accepted_world"
proof -
  have "thread_step polite (world_start [Inr two_ends]) accepted_world"
    unfolding accepted_world_def
    by (rule main_accept) (simp_all add: world_start_def two_ends_def)
  then show ?thesis by (rule r_into_rtranclp)
qed

lemma locked_reached:
  "rtranclp (thread_step polite) (world_start [Inr two_ends]) locked_world"
proof -
  let ?w = "accepted_world\<lparr>mpc := MMod WantLock, tpcs := [TFetch]\<rparr>"
  have "thread_step polite accepted_world ?w"
    using main_create [of accepted_world polite] by (simp add: accepted_world_def world_start_def)
  from accepted_reached this have "rtranclp (thread_step polite) (world_start [Inr two_ends]) ?w"
    by (rule rtranclp.rtrancl_into_rtrancl)
  moreover have "thread_step polite ?w locked_world"
    using main_mod [of ?w WantLock "Some Holding" "Some Main" 0 polite]
    by (simp add: mod_step_def accepted_world_def locked_world_def world_start_def)
  ultimately show ?thesis by (rule rtranclp.rtrancl_into_rtrancl)
qed

section \<open>Properties\<close>

text \<open>C8: The lock keeps the count of the threaded server right: in every state any interleaving can
  reach, the count is the number of threads that have not yet subtracted themselves, less one while
  the main thread has not yet added the thread it created; so no update is lost.\<close>

theorem modCurClient_loses_no_update:
  assumes "rtranclp (thread_step polite) (world_start acc) w"
  shows "cnt w = int (length (filter uncounted (tpcs w))) - owing (mpc w)"
  using count_inv_reach [OF assms] by (simp add: count_inv_def thread_count_def)

theorem modCurClient_loses_no_update_witness:
  "cnt locked_world = int (length (filter uncounted (tpcs locked_world))) - owing (mpc locked_world)"
  using locked_reached by (rule modCurClient_loses_no_update)

text \<open>At most one thread is ever inside \<^verbatim>\<open>modCurClient\<close> between the lock and the unlock.\<close>

theorem modCurClient_mutual_exclusion:
  assumes "rtranclp (thread_step polite) (world_start acc) w"
    and "pc_of w a = Some p" "holds p" and "pc_of w b = Some q" "holds q"
  shows "a = b"
proof -
  have "\<forall>a. owner w = Some a \<longleftrightarrow> (\<exists>pc. pc_of w a = Some pc \<and> holds pc)"
    using count_inv_reach [OF assms(1)] unfolding count_inv_def lock_inv_def by blast
  then have "owner w = Some a" "owner w = Some b" using assms(2-5) by blast+
  then show ?thesis by simp
qed

theorem modCurClient_mutual_exclusion_witness:
  "pc_of locked_world Main = Some Holding \<and> Main = Main"
  using modCurClient_mutual_exclusion [OF locked_reached, of Main Holding Main Holding]
  by (simp add: locked_world_def)

text \<open>The threads can serve the wrong connection: the address of \<^verbatim>\<open>connFd\<close> is passed to every
  thread, so after two connections in quick succession both threads serve the second one and
  nobody serves the first, whose descriptor stays open.\<close>

theorem threads_may_share_a_connection:
  assumes "locl i \<noteq> None" "peer i \<noteq> None" "locl j \<noteq> None" "peer j \<noteq> None" "server_ok p"
  shows "\<exists>w. rtranclp (thread_step False) (world_start [Inr i, Inr j]) w \<and> mpc w = MAccept
    \<and> coming w = [] \<and> tpcs w = [TServe 5 p, TServe 5 p] \<and> fds w 4 = Some (link i)
    \<and> fds w 5 = Some (link j)"
  using assms by (rule threads_share_connection)

theorem threads_may_share_a_connection_witness:
  "\<exists>w. rtranclp (thread_step False) (world_start [Inr two_ends, Inr two_ends]) w \<and> mpc w = MAccept
    \<and> coming w = [] \<and> tpcs w = [TServe 5 init_server, TServe 5 init_server] \<and> fds w 4 = Some (link two_ends)
    \<and> fds w 5 = Some (link two_ends)"
  by (rule threads_may_share_a_connection) (simp_all add: two_ends_def server_ok_def init_server_def)

text \<open>If every thread reads its argument before the next connection is accepted, no two threads
  ever serve the same descriptor, and no thread reads from or closes one that is not open.\<close>

theorem prompt_threads_do_not_share:
  assumes "rtranclp (thread_step True) (world_start acc) w"
  shows "(holder w a = Some fd \<longrightarrow> fds w fd \<noteq> None)
     \<and> (holder w a = Some fd \<and> holder w b = Some fd \<longrightarrow> a = b)"
  using share_inv_reach [OF assms] unfolding share_inv_def by blast

theorem prompt_threads_do_not_share_witness:
  "holder accepted_world Main = Some 4 \<and> fds accepted_world 4 \<noteq> None"
proof -
  have "holder accepted_world Main = Some 4" by (simp add: accepted_world_def)
  then show ?thesis using prompt_threads_do_not_share [OF accepted_reached, of Main 4 Main] by simp
qed

end
