(* ===== verification/Netcalc_System.thy ===== *)
theory Netcalc_System
  imports Netcalc_Client_V3 Netcalc_Fork_Server
begin

text \<open>
  Client and server together: what a user sees of a calculation over the network.  The contract
  of a server that serves a session is a locale; the client's view is proved once in it, and
  it is interpreted by the servers that read messages out of the stream.
\<close>

section \<open>Questions as a user types them\<close>

record asked =
  a_lead :: string
  a_left :: string
  a_right :: string
  a_tail :: string
  a_question :: question

definition asked_text :: "asked \<Rightarrow> string" where
  "asked_text a = question_text (a_lead a) (a_left a) (a_right a) (a_tail a) (a_question a)"

text \<open>
  White space before the operands and the operator, a rest that does not continue the second
  operand, values in range, a line of one message, and room for it in the buffers.
\<close>

definition asked_ok :: "asked \<Rightarrow> bool" where
  "asked_ok a \<longleftrightarrow> blank (a_lead a) \<and> blank (a_left a) \<and> blank (a_right a)
     \<and> no_digit_first (a_tail a) \<and> in_range (a_question a)
     \<and> input_line (asked_text a) \<and> MSG_TERMINATOR \<notin> set (asked_text a)
     \<and> length (asked_text a) + 2 < BUF_SIZE"

definition asked_request :: "asked \<Rightarrow> string" where
  "asked_request a = request (asked_text a @ nl)"

definition asked_answer :: "asked \<Rightarrow> string" where
  "asked_answer a = answer_msg (Some (question_value (a_question a)))"

definition asked_shown :: "asked \<Rightarrow> string" where
  "asked_shown a = ''Answer: '' @ show_int (question_value (a_question a)) @ nl"

lemma asked_request_eq: "asked_request a = OPCODE_QUESTION # asked_text a @ [MSG_TERMINATOR]"
  by (simp add: asked_request_def request_line)

lemma asked_request_msg:
  "asked_ok a \<Longrightarrow> is_msg (asked_request a) \<and> length (asked_request a) < BUF_SIZE"
  using is_msg_append [of "OPCODE_QUESTION # asked_text a"]
  by (simp add: asked_request_eq asked_ok_def)

lemma asked_reply: "asked_ok a \<Longrightarrow> reply (asked_request a) = Inr (Some (asked_answer a))"
proof -
  assume a: "asked_ok a"
  then have "nul \<notin> set (a_tail a)"
    by (auto simp: asked_ok_def input_line_def asked_text_def question_text_def)
  with a show ?thesis
    unfolding asked_request_eq asked_text_def asked_answer_def
    by (intro reply_question) (simp_all add: asked_ok_def)
qed

lemma replies_asked: "\<forall>a \<in> set as. asked_ok a \<Longrightarrow>
    replies (map asked_request as) = Inr (concat (map asked_answer as))"
  by (induction "as") (simp_all add: asked_reply)

lemma asked_turn:
  assumes "asked_ok a"
  shows "turn_ok \<lparr>t_line = asked_text a, t_msg = asked_answer a, t_shown = asked_shown a\<rparr>"
proof -
  have "int_ok (question_value (a_question a))" using assms by (simp add: asked_ok_def in_range_def)
  then have "length (asked_answer a) \<le> 13"
    unfolding asked_answer_def using length_answer_msg [of "Some _"] by simp
  moreover have "is_msg (asked_answer a)"
    using is_msg_append [of "OPCODE_ANSWER # show_int (question_value (a_question a))"]
      by (simp add: asked_answer_def)
  ultimately show ?thesis
    using assms shown_answer
    by (simp add: turn_ok_def asked_ok_def asked_answer_def asked_shown_def BUF_SIZE_def)
qed

section \<open>A server of sessions\<close>

locale session_service =
  fixes run :: "conn \<Rightarrow> 'p \<Rightarrow> stop \<times> conn \<times> 'p"
    and good :: "'p \<Rightarrow> bool"
  assumes serves: "session_ok c t \<Longrightarrow> good p \<Longrightarrow> \<exists>s c' p'. run c p = (s, c', p') \<and> sent c' = sent c @ t"
begin

text \<open>The service answers every question of a session, however its requests are cut.\<close>

lemma answers:
  assumes "\<forall>a \<in> set as. asked_ok a" and "all_writes c" and "good p"
    and "payload (rq c) = concat (map asked_request as)" and "after (rq c) = [Fin]"
  shows "\<exists>s c' p'. run c p = (s, c', p') \<and> sent c' = sent c @ concat (map asked_answer as)"
proof -
  have "frames (payload (rq c)) = (map asked_request as, [])"
    using frames_unique [of "map asked_request as" "[]"] assms(1,4) asked_request_msg by auto
  then have "session_ok c (concat (map asked_answer as))"
    using assms asked_request_msg replies_asked by (auto simp: session_ok_def)
  then show ?thesis using serves assms(3) by blast
qed

text \<open>The user of the client of version 2 sees the value of every question, in order.\<close>

lemma dialogue:
  assumes asked: "\<forall>a \<in> set as. asked_ok a"
    and server: "all_writes c" "good p" "payload (rq c) = concat (map asked_request as)"
      "after (rq c) = [Fin]" "sent c = []"
    and client: "client_ok q" "all_writes d" "inp q = concat (map (\<lambda>a. asked_text a @ nl) as)"
      "payload (rq d) = sent (fst (snd (run c p)))"
  shows "\<exists>d' q'. doClient_v2 d q = (Returns, d', q')
    \<and> sent d' = sent d @ payload (rq c) \<and> out q' = out q @ concat (map asked_shown as)"
proof -
  let ?ts = "map (\<lambda>a. \<lparr>t_line = asked_text a, t_msg = asked_answer a, t_shown = asked_shown a\<rparr>) as"
  have r: "sent (fst (snd (run c p))) = concat (map asked_answer as)"
    using answers [OF asked server(1-4)] server(5) by auto
  have ok: "\<forall>t \<in> set ?ts. turn_ok t" using asked asked_turn by auto
  have i: "inp q = concat (map (\<lambda>t. t_line t @ nl) ?ts)" using client(3) by (simp add: comp_def)
  have pl: "payload (rq d) = concat (map t_msg ?ts) @ []" using client(4) r by (simp add: comp_def)
  obtain d' q' where "doClient_v2 d q = (Returns, d', q')"
    "sent d' = sent d @ concat (map (\<lambda>t. request (t_line t @ nl)) ?ts)"
    "out q' = out q @ concat (map t_shown ?ts)"
    using doClient_v2_dialogue [OF client(1,2) ok i pl] by blast
  moreover have "map (\<lambda>a. request (asked_text a @ nl)) as = map asked_request as"
    by (simp add: asked_request_def)
  ultimately show ?thesis using server(3) by (simp add: comp_def)
qed

end

interpretation v2: session_service servChild server_ok
  by unfold_locales (metis servChild_session)

text \<open>The child of version 3, in an environment, on a connection whose addresses are known.\<close>

definition v3_child ::
    "conn \<Rightarrow> netenv \<times> sockaddr_in \<times> sockaddr_in \<times> server
     \<Rightarrow> stop \<times> conn \<times> (netenv \<times> sockaddr_in \<times> sockaddr_in \<times> server)" where
  "v3_child c q = (case q of (env, pa, la, p) \<Rightarrow>
     (case fork_child env (Inr ()) \<lparr>link = c, peer = Some pa, locl = Some la, closes = Inr ()\<rparr> p of
        (s, c', p') \<Rightarrow> (s, c', (env, pa, la, p'))))"

definition v3_good :: "netenv \<times> sockaddr_in \<times> sockaddr_in \<times> server \<Rightarrow> bool" where
  "v3_good q = (case q of (env, pa, la, p) \<Rightarrow> host_name env \<noteq> None \<and> server_ok p)"

interpretation v3: session_service v3_child v3_good
proof
  fix c t and q :: "netenv \<times> sockaddr_in \<times> sockaddr_in \<times> server"
  assume c: "session_ok c t" and g: "v3_good q"
  obtain env pa la p h where q: "q = (env, pa, la, p)" "host_name env = Some h" "server_ok p"
    using g by (cases q) (auto simp: v3_good_def)
  let ?p3 = "printf (dumpHostAndAddr (host_of env) ''Peer'' pa) (printf (dumpAddr ''Local'' h la) p)"
  have "server_ok ?p3" using q(3) by simp
  from servChild_session [OF c this] obtain c' p4 where
    "servChild c ?p3 = (Returns, c', p4)" "sent c' = sent c @ t" by blast
  then show "\<exists>s c' q'. v3_child c q = (s, c', q') \<and> sent c' = sent c @ t"
    using q(1,2)
    by (simp add: v3_child_def fork_child_def Close_def dumpLocalSockAddr_def dumpPeerSockAddr_def)
qed

section \<open>Properties\<close>

text \<open>C3: A calculation over the network is right: a user who types questions in range to the client of
  version 2, connected to the server of version 2, sees the value of every question, in order, and
  nothing else; the client sends exactly the requests the server reads, and this holds however the
  network cuts the requests and the answers into segments and whatever the server's buffers held.\<close>

theorem netcalc_dialogue:
  assumes "\<forall>a \<in> set as. asked_ok a"
    and "all_writes c" "server_ok p" "payload (rq c) = concat (map asked_request as)"
      "after (rq c) = [Fin]" "sent c = []"
    and "client_ok q" "all_writes d" "inp q = concat (map (\<lambda>a. asked_text a @ nl) as)"
      "payload (rq d) = sent (fst (snd (servChild c p)))"
  shows "\<exists>d' q'. doClient_v2 d q = (Returns, d', q')
    \<and> sent d' = sent d @ payload (rq c) \<and> out q' = out q @ concat (map asked_shown as)"
  using assms by (rule v2.dialogue)

definition demo_asked :: asked where
  "demo_asked = \<lparr>a_lead = [], a_left = [], a_right = [], a_tail = [], a_question = Add 9 9\<rparr>"

definition demo_conn :: conn where
  "demo_conn = \<lparr>rq = [Seg (asked_request demo_asked), Fin], wq = [], sent = []\<rparr>"

lemma demo_asked_ok: "asked_ok demo_asked"
  by (simp add: demo_asked_def asked_ok_def blank_def no_digit_first_def in_range_def int_ok_def
      INT_MIN_def INT_MAX_def input_line_def asked_text_def question_text_def BUF_SIZE_def
      show_int_def show_nat.simps digit_chars)

theorem netcalc_dialogue_witness:
  "\<exists>d' q'. doClient_v2 \<lparr>rq = [Seg (sent (fst (snd (servChild demo_conn init_server))))], wq = [], sent = []\<rparr>
        (init_client\<lparr>inp := concat (map (\<lambda>a. asked_text a @ nl) [demo_asked])\<rparr>) = (Returns, d', q')
    \<and> sent d' = sent \<lparr>rq = [Seg (sent (fst (snd (servChild demo_conn init_server))))], wq = [], sent = []\<rparr>
        @ payload (rq demo_conn)
    \<and> out q' = out (init_client\<lparr>inp := concat (map (\<lambda>a. asked_text a @ nl) [demo_asked])\<rparr>)
        @ concat (map asked_shown [demo_asked])"
  by (rule netcalc_dialogue [where c = demo_conn and p = init_server])
    (use demo_asked_ok in \<open>simp_all add: demo_conn_def all_writes_def server_ok_def init_server_def
      client_ok_def init_client_def\<close>)

text \<open>The child of version 3 gives the same service: the same user, connected to a child of the
  forking server, sees the value of every question.\<close>

theorem netcalc_dialogue_fork:
  assumes "\<forall>a \<in> set as. asked_ok a"
    and "all_writes c" "v3_good e" "payload (rq c) = concat (map asked_request as)"
      "after (rq c) = [Fin]" "sent c = []"
    and "client_ok q" "all_writes d" "inp q = concat (map (\<lambda>a. asked_text a @ nl) as)"
      "payload (rq d) = sent (fst (snd (v3_child c e)))"
  shows "\<exists>d' q'. doClient_v2 d q = (Returns, d', q')
    \<and> sent d' = sent d @ payload (rq c) \<and> out q' = out q @ concat (map asked_shown as)"
  using assms by (rule v3.dialogue)

definition demo_child :: "netenv \<times> sockaddr_in \<times> sockaddr_in \<times> server" where
  "demo_child = (demo_env, \<lparr>sin_addr = (10, 0, 0, 1), sin_port = 99\<rparr>,
     \<lparr>sin_addr = (10, 0, 0, 2), sin_port = 21597\<rparr>, init_server)"

theorem netcalc_dialogue_fork_witness:
  "\<exists>d' q'. doClient_v2 \<lparr>rq = [Seg (sent (fst (snd (v3_child demo_conn demo_child))))], wq = [], sent = []\<rparr>
        (init_client\<lparr>inp := concat (map (\<lambda>a. asked_text a @ nl) [demo_asked])\<rparr>) = (Returns, d', q')
    \<and> sent d' = sent \<lparr>rq = [Seg (sent (fst (snd (v3_child demo_conn demo_child))))], wq = [], sent = []\<rparr>
        @ payload (rq demo_conn)
    \<and> out q' = out (init_client\<lparr>inp := concat (map (\<lambda>a. asked_text a @ nl) [demo_asked])\<rparr>)
        @ concat (map asked_shown [demo_asked])"
  by (rule netcalc_dialogue_fork [where c = demo_conn and e = demo_child])
    (use demo_asked_ok in \<open>simp_all add: demo_conn_def all_writes_def server_ok_def init_server_def
      client_ok_def init_client_def demo_child_def v3_good_def demo_env_def\<close>)

end
