(* ===== verification/Netcalc_Test.thy ===== *)
theory Netcalc_Test
  imports Netcalc_System
begin

text \<open>
  The test client (\<^verbatim>\<open>netcalc_test.c\<close>), which sends a question in two pieces, or nine questions
  in one, and what the servers make of it.
\<close>

section \<open>The program\<close>

definition test1_data1 :: string where "test1_data1 = ''Q9957+''"
definition test1_data2 :: string where "test1_data2 = ''3=''"

definition test3_data :: string where
  "test3_data = ''Q1000+1='' @ ''Q1000+2='' @ ''Q1000+3='' @ ''Q1000+4='' @ ''Q1000+5=''
     @ ''Q1000+6='' @ ''Q1000+7='' @ ''Q1000+8='' @ ''Q1000+9=''"

record tester = proc +
  testBuf :: string

text \<open>\<^verbatim>\<open>write\<close> with only a failure checked.\<close>

definition test_write :: "string \<Rightarrow> conn \<Rightarrow> 'a proc_scheme \<Rightarrow> stop \<times> conn \<times> 'a proc_scheme" where
  "test_write d c p = (case sys_write d c of
       (Wrote k, c1) \<Rightarrow> (Returns, c1, p)
     | (WrFail e, c1) \<Rightarrow> (case err_sys ''write error'' (p\<lparr>errnum := e\<rparr>) of (s, p1) \<Rightarrow> (s, c1, p1)))"

text \<open>The tests; the pause of test 2 leaves the peer time to read the first piece by itself.\<close>

definition send_test :: "int \<Rightarrow> conn \<Rightarrow> 'a proc_scheme \<Rightarrow> stop \<times> conn \<times> 'a proc_scheme" where
  "send_test testNum c p =
     (if testNum = 1 \<or> testNum = 2 then
        (case test_write test1_data1 c p of
           (s, c1, p1) \<Rightarrow> if s \<noteq> Returns then (s, c1, p1) else test_write test1_data2 c1 p1)
      else if testNum = 3 then test_write test3_data c p
      else (Returns, c, printf (''unknown test number'' @ nl) p))"

text \<open>The loop that waits for responses, over the results of \<^verbatim>\<open>poll\<close>.\<close>

fun test_loop ::
    "(errno + nat) list \<Rightarrow> conn \<Rightarrow> 'a tester_scheme \<Rightarrow> stop \<times> conn \<times> 'a tester_scheme" where
  "test_loop [] c p = (Blocks, c, p)"
| "test_loop (Inl e # evs) c p =
     (case err_sys ''poll error'' (p\<lparr>errnum := e\<rparr>) of (s, p1) \<Rightarrow> (s, c, p1))"
| "test_loop (Inr nReady # evs) c p =
     (if nReady = 0 then (Returns, c, printf (''No response from the server'' @ nl) p)
      else
        (case conn_read BUF_SIZE c of
           (RdWait, c1) \<Rightarrow> (Blocks, c1, p)
         | (Eof, c1) \<Rightarrow> test_loop evs c1 (printf (''No data from the server'' @ nl) p)
         | (RdFail e, c1) \<Rightarrow> test_loop evs c1 (printf (''No data from the server'' @ nl) (p\<lparr>errnum := e\<rparr>))
         | (Got d, c1) \<Rightarrow>
             (case store (testBuf p) 0 (d @ nl @ [nul]) of
                Inl f \<Rightarrow> (Undef f, c1, p)
              | Inr b \<Rightarrow> test_loop evs c1 (printf (cstr b) (p\<lparr>testBuf := b\<rparr>)))))"

definition main_test ::
    "string list \<Rightarrow> errno + int \<Rightarrow> errno + unit \<Rightarrow> (errno + nat) list \<Rightarrow> conn \<Rightarrow> 'a tester_scheme
     \<Rightarrow> stop \<times> conn \<times> 'a tester_scheme" where
  "main_test argv so co evs c p =
     (if length argv \<noteq> 3
      then (case err_quit (''Usage: '' @ argv0 argv @ '' <IPaddress> <test-number>'') p of
              (s, p1) \<Rightarrow> (s, c, p1))
      else proceed c (or_die ''socket error'' so p) (\<lambda>sockFd p1.
           proceed c (or_die ''connect error'' co p1) (\<lambda>_ p2.
             (case send_test (atoi (argv ! 2)) c p2 of
                (s, c1, p3) \<Rightarrow>
                  and_then c1 (s, p3) (\<lambda>p3.
                    (case test_loop evs c1 p3 of
                       (s, c2, p4) \<Rightarrow> and_then c2 (s, p4) (\<lambda>p4. (Exits 0, c2, p4))))))))"

section \<open>What the protocol says\<close>

lemma reply_plain:
  assumes "in_range q" and "no_digit_first g" and "nul \<notin> set g"
    and "m = OPCODE_QUESTION # question_text [] [] [] g q @ [MSG_TERMINATOR]"
    and "t = OPCODE_ANSWER # show_int (question_value q) @ [MSG_TERMINATOR]"
  shows "reply m = Inr (Some t)"
  using reply_question [of "[]" "[]" "[]" g q] assms by (simp add: blank_def)

lemmas show_number = show_int_def show_nat.simps digit_chars

lemma no_digit_first_eq: "no_digit_first (CHR ''='' # g)" "no_digit_first []"
  by (simp_all add: no_digit_first_def isdigit_def)

lemma reply_pieces: "reply test1_data1 = Inr None" "reply test1_data2 = Inr None"
  by (simp_all add: reply_def well_formed_def test1_data1_def test1_data2_def)

lemma reply_whole: "reply (test1_data1 @ test1_data2) = Inr (Some ''A9960='')"
  by (rule reply_plain [of "Add 9957 3" "[]"])
    (simp_all add: test1_data1_def test1_data2_def question_text_def no_digit_first_eq in_range_def
      int_ok_def INT_MIN_def INT_MAX_def show_number)

text \<open>The nine questions of test 3 as one message: the rest after the first is not looked at.\<close>

lemma reply_nine_in_one: "reply test3_data = Inr (Some ''A1001='')"
  by (rule reply_plain [of "Add 1000 1" "''=Q1000+2=Q1000+3=Q1000+4=Q1000+5=Q1000+6=Q1000+7=Q1000+8=Q1000+9''"])
    (simp_all add: test3_data_def question_text_def no_digit_first_eq in_range_def
      int_ok_def INT_MIN_def INT_MAX_def show_number)

definition test3_questions :: "string list" where
  "test3_questions = map (\<lambda>i. OPCODE_QUESTION # question_text [] [] [] [] (Add 1000 i) @ [MSG_TERMINATOR]) [1..9]"

definition test3_answers :: "string list" where
  "test3_answers = map (\<lambda>i. OPCODE_ANSWER # show_int (1000 + i) @ [MSG_TERMINATOR]) [1..9]"

lemma test3_data_questions: "test3_data = concat test3_questions"
  by (simp add: test3_data_def test3_questions_def question_text_def show_number upto.simps)

lemma test3_messages: "\<forall>m \<in> set test3_questions. is_msg m \<and> length m < BUF_SIZE"
  by (auto simp: test3_questions_def question_text_def show_number upto.simps is_msg_def BUF_SIZE_def)

lemma replies_map:
  "(\<And>i. i \<in> set is \<Longrightarrow> reply (f i) = Inr (Some (g i))) \<Longrightarrow>
   replies (map f is) = Inr (concat (map g is))"
  by (induction "is") simp_all

lemma replies_nine: "replies test3_questions = Inr (concat test3_answers)"
  unfolding test3_questions_def test3_answers_def
proof (rule replies_map)
  fix i :: int
  assume "i \<in> set [1..9]"
  then have "in_range (Add 1000 i)"
    by (simp add: in_range_def int_ok_def INT_MIN_def INT_MAX_def)
  then show "reply (OPCODE_QUESTION # question_text [] [] [] [] (Add 1000 i) @ [MSG_TERMINATOR])
      = Inr (Some (OPCODE_ANSWER # show_int (1000 + i) @ [MSG_TERMINATOR]))"
    by (intro reply_plain [of "Add 1000 i" "[]"]) (simp_all add: no_digit_first_eq)
qed

section \<open>Properties\<close>

text \<open>The server of version 2 passes the tests of \<^verbatim>\<open>netcalc_test.c\<close> however the network cuts the
  data: the question of tests 1 and 2 is answered, and so are all nine questions of test 3.\<close>

theorem v2_passes_tests:
  assumes "server_ok p" and "all_writes c" and "after (rq c) = [Fin]"
    and "payload (rq c) = test1_data1 @ test1_data2 \<and> t = ''A9960=''
      \<or> payload (rq c) = test3_data \<and> t = concat test3_answers"
  shows "\<exists>c' p'. servChild c p = (Returns, c', p') \<and> sent c' = sent c @ t"
proof -
  have "\<exists>ms. frames (payload (rq c)) = (ms, []) \<and> (\<forall>m \<in> set ms. length m < BUF_SIZE) \<and> replies ms = Inr t"
    using assms(4)
  proof
    assume a: "payload (rq c) = test1_data1 @ test1_data2 \<and> t = ''A9960=''"
    have "frames (concat [test1_data1 @ test1_data2] @ []) = ([test1_data1 @ test1_data2], [])"
      by (rule frames_unique) (simp_all add: test1_data1_def test1_data2_def is_msg_def)
    then show ?thesis
      using a reply_whole
      by (intro exI [of _ "[test1_data1 @ test1_data2]"])
        (simp add: test1_data1_def test1_data2_def BUF_SIZE_def)
  next
    assume a: "payload (rq c) = test3_data \<and> t = concat test3_answers"
    have "frames (concat test3_questions @ []) = (test3_questions, [])"
      using test3_messages by (intro frames_unique) auto
    then show ?thesis
      using a test3_messages replies_nine by (simp add: test3_data_questions)
  qed
  then have "session_ok c t" using assms(2,3) by (auto simp: session_ok_def)
  then show ?thesis using assms(1) servChild_session by metis
qed

theorem v2_passes_tests_witness:
  "\<exists>c' p'. servChild \<lparr>rq = [Seg test1_data1, Seg test1_data2, Fin], wq = [], sent = []\<rparr> init_server
       = (Returns, c', p') \<and> sent c' = [] @ ''A9960=''"
  using v2_passes_tests [of init_server "\<lparr>rq = [Seg test1_data1, Seg test1_data2, Fin], wq = [], sent = []\<rparr>"
      "''A9960=''"]
  by (simp add: init_server_def server_ok_def all_writes_def)

text \<open>Version 1, and with it version 4, which reads in the same way, fails them: when the two pieces of
  test 2 are read by themselves nothing is answered, and of the nine questions of test 3 read
  together only the first is.\<close>

theorem v1_fails_tests:
  assumes "server_ok p" and "all_writes c"
    and "rq c = [Seg test1_data1, Seg test1_data2, Fin] \<and> t = []
      \<or> rq c = [Seg test3_data, Fin] \<and> t = ''A1001=''"
  shows "\<exists>c' p'. serve_v1 c p = (Returns, c', p') \<and> sent c' = sent c @ t"
proof -
  have "\<exists>ss. rq c = map Seg ss @ [Fin] \<and> (\<forall>s \<in> set ss. s \<noteq> [] \<and> length s \<le> BUF_SIZE) \<and> replies ss = Inr t"
    using assms(3)
  proof
    assume "rq c = [Seg test1_data1, Seg test1_data2, Fin] \<and> t = []"
    then show ?thesis using reply_pieces
      by (intro exI [of _ "[test1_data1, test1_data2]"])
        (simp add: test1_data1_def test1_data2_def BUF_SIZE_def)
  next
    assume "rq c = [Seg test3_data, Fin] \<and> t = ''A1001=''"
    then show ?thesis using reply_nine_in_one
      by (intro exI [of _ "[test3_data]"]) (simp add: test3_data_def BUF_SIZE_def)
  qed
  then obtain ss where "rq c = map Seg ss @ [Fin]" "\<forall>s \<in> set ss. s \<noteq> [] \<and> length s \<le> BUF_SIZE"
    "replies ss = Inr t" by blast
  from serve_v1_segments [OF assms(1,2) this] show ?thesis by blast
qed

theorem v1_fails_tests_witness:
  "\<exists>c' p'. serve_v1 \<lparr>rq = [Seg test3_data, Fin], wq = [], sent = []\<rparr> init_server = (Returns, c', p')
     \<and> sent c' = [] @ ''A1001=''"
  using v1_fails_tests [of init_server "\<lparr>rq = [Seg test3_data, Fin], wq = [], sent = []\<rparr>" "''A1001=''"]
  by (simp add: init_server_def server_ok_def all_writes_def)

end
