(* ===== verification/Netcalc_Client_V4.thy ===== *)
theory Netcalc_Client_V4
  imports Netcalc_Client
begin

text \<open>
  The client with a thread for the requests and one for the responses (\<^verbatim>\<open>netcalc_clnt_v4.c\<close>), as
  a step relation: the two threads share the socket and the flag \<^verbatim>\<open>writeShut\<close>, and the server
  may answer and close between any two of their steps.
\<close>

section \<open>The bodies of the two loops\<close>

text \<open>
  One iteration of \<^verbatim>\<open>doRequest\<close>; the Boolean tells whether the loop goes on.
\<close>

definition doRequest_turn :: "conn \<Rightarrow> client \<Rightarrow> stop \<times> bool \<times> conn \<times> client" where
  "doRequest_turn c p =
     (case next_request p of
        (NoInput, p1) \<Rightarrow> (Returns, False, c, p1)
      | (ReqFault f, p1) \<Rightarrow> (Undef f, False, c, p1)
      | (BadLine, p1) \<Rightarrow>
          (case complain ''doRequest'' ''buildReq failed'' (ioBuf p1) (length (cstr (ioBuf p1))) p1 of
             (s, p2) \<Rightarrow> (s, True, c, p2))
      | (Request n, p1) \<Rightarrow>
          (case Write (take n (msgBuf p1)) c p1 of (s, c1, p2) \<Rightarrow> (s, True, c1, p2)))"

text \<open>One iteration of the loop of \<^verbatim>\<open>doClient\<close>; \<open>None\<close> while the read waits.\<close>

definition response_turn :: "conn \<Rightarrow> client \<Rightarrow> (stop \<times> bool \<times> conn \<times> client) option" where
  "response_turn c p =
     (case readAppMsg BUF_SIZE (msgBuf p) (rq c) of
        (len, mb, es) \<Rightarrow>
          (let c1 = c\<lparr>rq := es\<rparr>; p1 = p\<lparr>msgBuf := mb\<rparr> in
           case len of
             Waits \<Rightarrow> None
           | Faults f \<Rightarrow> Some (Undef f, False, c1, p1)
           | Len n \<Rightarrow>
               if 0 < n then
                 (case show_response ''doClient'' (nat n) p1 of (s, p2) \<Rightarrow> Some (s, True, c1, p2))
               else Some (Returns, False, c1, p1)))"

section \<open>The threads\<close>

text \<open>
  The request thread: in its loop, before \<^verbatim>\<open>Shutdown\<close>, before \<^verbatim>\<open>writeShut = 1\<close>, ended.  The main
  thread: in its loop, before it looks at \<^verbatim>\<open>writeShut\<close>, returned from \<^verbatim>\<open>doClient\<close>.
\<close>

datatype req_pc = Requesting | Shutting | Flagging | Ended
datatype res_pc = Responding | Checking | Returned

text \<open>Each thread has arrays of its own; \<open>finSent\<close> tells that the socket was shut down for writing.\<close>

record threaded_client =
  req_mem :: client
  res_mem :: client
  sock :: conn
  rpc :: req_pc
  spc :: res_pc
  flag :: int
  finSent :: bool
  exited :: "stop option"

text \<open>
  The last three steps are the peer's: a server that answers as it likes but closes only after the
  client has shut down its side, unless \<open>rude\<close>.
\<close>

inductive v4_step :: "bool \<Rightarrow> threaded_client \<Rightarrow> threaded_client \<Rightarrow> bool" for rude :: bool where
  req_turn: "exited w = None \<Longrightarrow> rpc w = Requesting \<Longrightarrow>
     doRequest_turn (sock w) (req_mem w) = (Returns, goes, c, p) \<Longrightarrow>
     v4_step rude w (w\<lparr>sock := c, req_mem := p, rpc := (if goes then Requesting else Shutting)\<rparr>)"
| req_dies: "exited w = None \<Longrightarrow> rpc w = Requesting \<Longrightarrow>
     doRequest_turn (sock w) (req_mem w) = (s, goes, c, p) \<Longrightarrow> s \<noteq> Returns \<Longrightarrow>
     v4_step rude w (w\<lparr>exited := Some s\<rparr>)"
| req_shutdown: "exited w = None \<Longrightarrow> rpc w = Shutting \<Longrightarrow>
     v4_step rude w (w\<lparr>rpc := Flagging, finSent := True\<rparr>)"
| req_shutdown_fails: "exited w = None \<Longrightarrow> rpc w = Shutting \<Longrightarrow>
     v4_step rude w (w\<lparr>exited := Some (Exits 1)\<rparr>)"
| req_flag: "exited w = None \<Longrightarrow> rpc w = Flagging \<Longrightarrow>
     v4_step rude w (w\<lparr>rpc := Ended, flag := 1\<rparr>)"
| res_turn: "exited w = None \<Longrightarrow> spc w = Responding \<Longrightarrow>
     response_turn (sock w) (res_mem w) = Some (Returns, goes, c, p) \<Longrightarrow>
     v4_step rude w (w\<lparr>sock := c, res_mem := p, spc := (if goes then Responding else Checking)\<rparr>)"
| res_dies: "exited w = None \<Longrightarrow> spc w = Responding \<Longrightarrow>
     response_turn (sock w) (res_mem w) = Some (s, goes, c, p) \<Longrightarrow> s \<noteq> Returns \<Longrightarrow>
     v4_step rude w (w\<lparr>exited := Some s\<rparr>)"
| res_check: "exited w = None \<Longrightarrow> spc w = Checking \<Longrightarrow> flag w \<noteq> 0 \<Longrightarrow>
     v4_step rude w (w\<lparr>spc := Returned\<rparr>)"
| res_quit: "exited w = None \<Longrightarrow> spc w = Checking \<Longrightarrow> flag w = 0 \<Longrightarrow>
     v4_step rude w (w\<lparr>exited := Some (Exits 1),
       res_mem := snd (err_quit ''server terminated prematurely'' (res_mem w))\<rparr>)"
| net_data: "Fin \<notin> set (rq (sock w)) \<Longrightarrow>
     v4_step rude w (w\<lparr>sock := (sock w)\<lparr>rq := rq (sock w) @ [Seg s]\<rparr>\<rparr>)"
| net_close: "Fin \<notin> set (rq (sock w)) \<Longrightarrow> finSent w \<or> rude \<Longrightarrow>
     v4_step rude w (w\<lparr>sock := (sock w)\<lparr>rq := rq (sock w) @ [Fin]\<rparr>\<rparr>)"

definition v4_start :: "client \<Rightarrow> conn \<Rightarrow> threaded_client" where
  "v4_start p c = \<lparr>req_mem = p, res_mem = p, sock = c, rpc = Requesting, spc = Responding,
     flag = 0, finSent = False, exited = None\<rparr>"

section \<open>All requests are sent before doClient returns\<close>

definition requests_inv :: "string list \<Rightarrow> threaded_client \<Rightarrow> bool" where
  "requests_inv ls w \<longleftrightarrow> client_ok (req_mem w) \<and> all_writes (sock w)
     \<and> (\<forall>l \<in> set ls. input_line l)
     \<and> (\<exists>n \<le> length ls. inp (req_mem w) = concat (map (\<lambda>l. l @ nl) (drop n ls))
          \<and> sent (sock w) = concat (map (\<lambda>l. request (l @ nl)) (take n ls))
          \<and> (rpc w \<noteq> Requesting \<longrightarrow> n = length ls))
     \<and> (flag w \<noteq> 0 \<longrightarrow> rpc w = Ended) \<and> (spc w = Returned \<longrightarrow> flag w \<noteq> 0)"

lemma doRequest_turn_end:
  "inp p = [] \<Longrightarrow> doRequest_turn c p = (Returns, False, c, p)"
  by (simp add: doRequest_turn_def next_request_def fgets_def)

lemma doRequest_turn_line:
  assumes "input_line l" and "inp p = l @ nl @ rest" and "client_ok p" and "all_writes c"
  obtains q p1 where
    "doRequest_turn c p = (Returns, True, c\<lparr>wq := q, sent := sent c @ request (l @ nl)\<rparr>, p1)"
    "set q \<subseteq> set (wq c)" "inp p1 = rest" "client_ok p1"
proof -
  obtain p1 where p1: "next_request p = (Request (length l + 2), p1)"
    "take (length l + 2) (msgBuf p1) = request (l @ nl)" "inp p1 = rest" "out p1 = out p"
    "client_ok p1" using assms(1-3) by (rule next_request_line)
  obtain q where "Write (request (l @ nl)) c p1
      = (Returns, c\<lparr>wq := q, sent := sent c @ request (l @ nl)\<rparr>, p1)" "set q \<subseteq> set (wq c)"
    using Write_all [OF assms(4)] by blast
  with p1 show thesis by (intro that [of q p1]) (simp_all add: doRequest_turn_def)
qed

lemma requests_inv_turn:
  assumes "requests_inv ls w" and "rpc w = Requesting"
    and "doRequest_turn (sock w) (req_mem w) = (Returns, goes, c, p)"
  shows "requests_inv ls (w\<lparr>sock := c, req_mem := p, rpc := (if goes then Requesting else Shutting)\<rparr>)"
proof -
  obtain n where n: "n \<le> length ls" "inp (req_mem w) = concat (map (\<lambda>l. l @ nl) (drop n ls))"
    "sent (sock w) = concat (map (\<lambda>l. request (l @ nl)) (take n ls))"
    using assms(1) unfolding requests_inv_def by blast
  have ok: "client_ok (req_mem w)" "all_writes (sock w)" "\<forall>l \<in> set ls. input_line l"
    "flag w = 0" "spc w \<noteq> Returned"
    using assms(1,2) by (auto simp: requests_inv_def)
  show ?thesis
  proof (cases "n = length ls")
    case True
    then have "doRequest_turn (sock w) (req_mem w) = (Returns, False, sock w, req_mem w)"
      using n(2) by (intro doRequest_turn_end) simp
    with assms(3) have "goes = False" "c = sock w" "p = req_mem w" by simp_all
    with ok n True show ?thesis by (simp add: requests_inv_def)
  next
    case False
    then have lt: "n < length ls" using n(1) by simp
    let ?l = "ls ! n"
    have "drop n ls = ?l # drop (Suc n) ls" using lt by (simp add: Cons_nth_drop_Suc)
    then have i: "inp (req_mem w) = ?l @ nl @ concat (map (\<lambda>l. l @ nl) (drop (Suc n) ls))"
      using n(2) by simp
    have l: "input_line ?l" using ok(3) lt by simp
    obtain q p1 where t: "doRequest_turn (sock w) (req_mem w)
        = (Returns, True, (sock w)\<lparr>wq := q, sent := sent (sock w) @ request (?l @ nl)\<rparr>, p1)"
      "set q \<subseteq> set (wq (sock w))" "inp p1 = concat (map (\<lambda>l. l @ nl) (drop (Suc n) ls))" "client_ok p1"
      using doRequest_turn_line [OF l i ok(1,2)] by blast
    have eq: "goes = True" "p = p1"
      "c = (sock w)\<lparr>wq := q, sent := sent (sock w) @ request (?l @ nl)\<rparr>"
      using assms(3) t(1) by simp_all
    have "all_writes c" using eq(3) t(2) ok(2) by (auto simp: all_writes_def)
    moreover have "sent c = concat (map (\<lambda>l. request (l @ nl)) (take (Suc n) ls))"
      using eq(3) n(3) lt by (simp add: take_Suc_conv_app_nth)
    ultimately show ?thesis
      using ok(3-5) t(3,4) eq(1,2) lt assms(2) unfolding requests_inv_def
      by (auto intro!: exI [of _ "Suc n"])
  qed
qed

lemma requests_inv_frame:
  assumes "requests_inv ls w" and "all_writes c" and "sent c = sent (sock w)"
  shows "requests_inv ls (w\<lparr>sock := c\<rparr>)"
  using assms by (simp add: requests_inv_def)

lemma response_turn_frame:
  "response_turn c p = Some (s, goes, c', p') \<Longrightarrow> wq c' = wq c \<and> sent c' = sent c"
  by (auto simp: response_turn_def Let_def split: prod.splits app_read.splits if_splits)

lemma requests_inv_step:
  assumes "v4_step rude w w'" and "requests_inv ls w"
  shows "requests_inv ls w'"
  using assms(1)
proof (cases rule: v4_step.cases)
  case (req_turn goes c p)
  then show ?thesis using requests_inv_turn [OF assms(2)] by simp
next
  case (res_turn goes c p)
  have "wq c = wq (sock w)" "sent c = sent (sock w)" using response_turn_frame [OF res_turn(4)] by simp_all
  then have "requests_inv ls (w\<lparr>sock := c\<rparr>)"
    using assms(2) by (intro requests_inv_frame) (simp_all add: requests_inv_def all_writes_def)
  moreover have "spc w \<noteq> Returned" using res_turn(3) by simp
  ultimately show ?thesis unfolding res_turn(1) by (simp add: requests_inv_def)
next
  case (net_data s)
  then show ?thesis using assms(2)
    by (simp add: requests_inv_frame requests_inv_def all_writes_def)
next
  case net_close
  then show ?thesis using assms(2)
    by (simp add: requests_inv_frame requests_inv_def all_writes_def)
qed (use assms(2) in \<open>auto simp: requests_inv_def\<close>)

lemma requests_inv_reach:
  assumes "rtranclp (v4_step rude) (v4_start p c) w" and "client_ok p" and "all_writes c"
    and "sent c = []" and "inp p = concat (map (\<lambda>l. l @ nl) ls)" and "\<forall>l \<in> set ls. input_line l"
  shows "requests_inv ls w"
  using assms(1)
proof (rule reach_inv)
  show "requests_inv ls (v4_start p c)"
    using assms by (auto simp: requests_inv_def v4_start_def intro!: exI [of _ 0])
qed (rule requests_inv_step)

section \<open>The flag is set too late\<close>

text \<open>
  The server closes after the client has shut down its side, but before the request thread has
  set the flag: the client exits and blames the server, although all was in order.
\<close>

lemma false_alarm:
  assumes "inp p = []" and "rq c = []" and "length (msgBuf p) = ARRAY_SIZE"
  shows "\<exists>w. rtranclp (v4_step False) (v4_start p c) w \<and> exited w = Some (Exits 1)
    \<and> finSent w \<and> res_mem w = snd (err_quit ''server terminated prematurely'' p)"
proof -
  let ?w = "v4_start p c"
  let ?w1 = "?w\<lparr>rpc := Shutting\<rparr>"
  let ?w2 = "?w1\<lparr>rpc := Flagging, finSent := True\<rparr>"
  let ?w3 = "?w2\<lparr>sock := c\<lparr>rq := [Fin]\<rparr>\<rparr>"
  let ?w4 = "?w3\<lparr>spc := Checking\<rparr>"
  let ?w5 = "?w4\<lparr>exited := Some (Exits 1),
    res_mem := snd (err_quit ''server terminated prematurely'' p)\<rparr>"
  have 1: "v4_step False ?w ?w1"
    using req_turn [of ?w False c p False] assms(1)
    by (simp add: v4_start_def doRequest_turn_end)
  have 2: "v4_step False ?w1 ?w2" by (rule req_shutdown) (simp_all add: v4_start_def)
  have 3: "v4_step False ?w2 ?w3"
    using net_close [of ?w2 False] assms(2) by (simp add: v4_start_def)
  have "response_turn (c\<lparr>rq := [Fin]\<rparr>) p = Some (Returns, False, c\<lparr>rq := [Fin]\<rparr>, p)"
    using readAppMsg_eof [of "[Fin]" "[]" BUF_SIZE "msgBuf p"]
    by (simp add: response_turn_def BUF_SIZE_def)
  then have 4: "v4_step False ?w3 ?w4"
    using res_turn [of ?w3 False "c\<lparr>rq := [Fin]\<rparr>" p False] by (simp add: v4_start_def)
  have 5: "v4_step False ?w4 ?w5"
    using res_quit [of ?w4 False] by (simp add: v4_start_def)
  from 1 have "rtranclp (v4_step False) ?w ?w1" by (rule r_into_rtranclp)
  from this 2 have "rtranclp (v4_step False) ?w ?w2" by (rule rtranclp.rtrancl_into_rtrancl)
  from this 3 have "rtranclp (v4_step False) ?w ?w3" by (rule rtranclp.rtrancl_into_rtrancl)
  from this 4 have "rtranclp (v4_step False) ?w ?w4" by (rule rtranclp.rtrancl_into_rtrancl)
  from this 5 have "rtranclp (v4_step False) ?w ?w5" by (rule rtranclp.rtrancl_into_rtrancl)
  then show ?thesis by (intro exI [of _ ?w5]) (simp add: v4_start_def)
qed

section \<open>Properties\<close>

text \<open>When \<^verbatim>\<open>doClient\<close> of the threaded client returns, the request of every line of the input has
  been sent, in order, whatever the interleaving of the two threads with the peer.\<close>

theorem doClient_v4_sends_all:
  assumes "rtranclp (v4_step rude) (v4_start p c) w" and "client_ok p" and "all_writes c"
    and "sent c = []" and "inp p = concat (map (\<lambda>l. l @ nl) ls)" and "\<forall>l \<in> set ls. input_line l"
    and "spc w = Returned"
  shows "sent (sock w) = concat (map (\<lambda>l. request (l @ nl)) ls) \<and> inp (req_mem w) = []"
  using requests_inv_reach [OF assms(1-6)] assms(7) by (auto simp: requests_inv_def)

definition init_client_v4 :: client where
  "init_client_v4 = \<lparr>inp = [], out = [], err = [], daemon_proc = False, slog = [], errnum = EIO,
     debugFlag = debugFlag_init, ioBuf = replicate ARRAY_SIZE nul, msgBuf = replicate ARRAY_SIZE nul\<rparr>"

definition idle_conn :: conn where "idle_conn = \<lparr>rq = [], wq = [], sent = []\<rparr>"

lemma idle_client_returns:
  "\<exists>w. rtranclp (v4_step False) (v4_start init_client_v4 idle_conn) w \<and> spc w = Returned"
proof -
  let ?c = "idle_conn\<lparr>rq := [Fin]\<rparr>"
  let ?w = "v4_start init_client_v4 idle_conn"
  let ?w1 = "?w\<lparr>rpc := Shutting\<rparr>"
  let ?w2 = "?w1\<lparr>rpc := Flagging, finSent := True\<rparr>"
  let ?w3 = "?w2\<lparr>rpc := Ended, flag := 1\<rparr>"
  let ?w4 = "?w3\<lparr>sock := ?c\<rparr>"
  let ?w5 = "?w4\<lparr>spc := Checking\<rparr>"
  let ?w6 = "?w5\<lparr>spc := Returned\<rparr>"
  have "response_turn ?c init_client_v4 = Some (Returns, False, ?c, init_client_v4)"
    using readAppMsg_eof [of "[Fin]" "[]" BUF_SIZE "msgBuf init_client_v4"]
    by (simp add: response_turn_def BUF_SIZE_def)
  then have 5: "v4_step False ?w4 ?w5"
    using res_turn [of ?w4 False ?c init_client_v4 False] by (simp add: v4_start_def)
  have 1: "v4_step False ?w ?w1"
    using req_turn [of ?w False idle_conn init_client_v4 False]
    by (simp add: v4_start_def doRequest_turn_end init_client_v4_def)
  have 2: "v4_step False ?w1 ?w2" by (rule req_shutdown) (simp_all add: v4_start_def)
  have 3: "v4_step False ?w2 ?w3" by (rule req_flag) (simp_all add: v4_start_def)
  have 4: "v4_step False ?w3 ?w4"
    using net_close [of ?w3 False] by (simp add: v4_start_def idle_conn_def)
  have 6: "v4_step False ?w5 ?w6" by (rule res_check) (simp_all add: v4_start_def)
  from 1 have "rtranclp (v4_step False) ?w ?w1" by (rule r_into_rtranclp)
  from this 2 have "rtranclp (v4_step False) ?w ?w2" by (rule rtranclp.rtrancl_into_rtrancl)
  from this 3 have "rtranclp (v4_step False) ?w ?w3" by (rule rtranclp.rtrancl_into_rtrancl)
  from this 4 have "rtranclp (v4_step False) ?w ?w4" by (rule rtranclp.rtrancl_into_rtrancl)
  from this 5 have "rtranclp (v4_step False) ?w ?w5" by (rule rtranclp.rtrancl_into_rtrancl)
  from this 6 have "rtranclp (v4_step False) ?w ?w6" by (rule rtranclp.rtrancl_into_rtrancl)
  then show ?thesis by (intro exI [of _ ?w6]) simp
qed

theorem doClient_v4_sends_all_witness:
  "\<exists>w :: threaded_client. sent (sock w) = concat (map (\<lambda>l. request (l @ nl)) []) \<and> inp (req_mem w) = []"
proof -
  obtain w where w: "rtranclp (v4_step False) (v4_start init_client_v4 idle_conn) w" "spc w = Returned"
    using idle_client_returns by blast
  have "sent (sock w) = concat (map (\<lambda>l. request (l @ nl)) []) \<and> inp (req_mem w) = []"
    by (rule doClient_v4_sends_all [OF w(1) _ _ _ _ _ w(2)])
      (simp_all add: init_client_v4_def idle_conn_def client_ok_def all_writes_def)
  then show ?thesis by blast
qed

text \<open>The threaded client can blame a server that did everything right: the server closes after
  the client has shut its side down, but before the request thread has set \<^verbatim>\<open>writeShut\<close>, and the
  client exits with \<^verbatim>\<open>server terminated prematurely\<close>.\<close>

theorem doClient_v4_false_alarm:
  assumes "inp p = []" and "rq c = []" and "length (msgBuf p) = ARRAY_SIZE"
  shows "\<exists>w. rtranclp (v4_step False) (v4_start p c) w \<and> exited w = Some (Exits 1)
    \<and> finSent w \<and> res_mem w = snd (err_quit ''server terminated prematurely'' p)"
  using assms by (rule false_alarm)

theorem doClient_v4_false_alarm_witness:
  "\<exists>w. rtranclp (v4_step False) (v4_start init_client_v4 idle_conn) w \<and> exited w = Some (Exits 1)
    \<and> finSent w \<and> res_mem w = snd (err_quit ''server terminated prematurely'' init_client_v4)"
  by (rule doClient_v4_false_alarm) (simp_all add: init_client_v4_def idle_conn_def)

end
