(* ===== verification/Posix_Files.thy ===== *)
theory Posix_Files
  imports Unp_Error
begin

text \<open>
  Files, as the programs that copy them see them: a disk of named contents, descriptors that
  deliver and accept bytes by the scripts of \<open>Posix_IO\<close>, and \<^verbatim>\<open>perror\<close>.  Nothing here
  models code of the repository.
\<close>

section \<open>perror\<close>

definition perror :: "string \<Rightarrow> 'a proc_scheme \<Rightarrow> 'a proc_scheme" where
  "perror m p = eprintf (m @ '': '' @ strerror (errnum p) @ nl) p"

lemma perror_frame [simp]:
  "out (perror m p) = out p" "inp (perror m p) = inp p" "errnum (perror m p) = errnum p"
  by (simp_all add: perror_def eprintf_def)

text \<open>The fatal ends \<^verbatim>\<open>perror(m); exit(status)\<close> and \<^verbatim>\<open>printf(m); exit(status)\<close>.\<close>

definition perror_exit :: "int \<Rightarrow> string \<Rightarrow> errno \<Rightarrow> 'a proc_scheme \<Rightarrow> stop \<times> 'a proc_scheme" where
  "perror_exit status m e p = (Exits status, perror m (p\<lparr>errnum := e\<rparr>))"

definition printf_exit :: "int \<Rightarrow> string \<Rightarrow> 'a proc_scheme \<Rightarrow> stop \<times> 'a proc_scheme" where
  "printf_exit status m p = (Exits status, printf m p)"

section \<open>The disk\<close>

record fproc = proc +
  disk :: "string \<Rightarrow> string option"

definition contents :: "'a fproc_scheme \<Rightarrow> string \<Rightarrow> string" where
  "contents p path = (case disk p path of None \<Rightarrow> [] | Some s \<Rightarrow> s)"

text \<open>
  What the kernel adds to the contents of the disk: which opens fail (the second argument tells
  opening for writing), how a file delivers its contents and how it accepts writes.
\<close>

record fenv =
  open_err :: "string \<Rightarrow> bool \<Rightarrow> errno option"
  reads :: "string \<Rightarrow> string \<Rightarrow> rd_event list"
  writes :: "string \<Rightarrow> wr_event list"

text \<open>A disk of regular files without failures.\<close>

definition plain_env :: fenv where
  "plain_env = \<lparr>open_err = (\<lambda>_ _. None), reads = (\<lambda>_ s. [Seg s, Fin]), writes = (\<lambda>_. [])\<rparr>"

definition open_rd :: "fenv \<Rightarrow> string \<Rightarrow> 'a fproc_scheme \<Rightarrow> errno + rd_event list" where
  "open_rd env path p =
     (case (disk p path, open_err env path False) of
        (None, _) \<Rightarrow> Inl ENOENT
      | (Some s, Some e) \<Rightarrow> Inl e
      | (Some s, None) \<Rightarrow> Inr (reads env path s))"

text \<open>
  \<^verbatim>\<open>open(path, O_WRONLY | O_CREAT)\<close> keeps the contents a file has; it gives these and a descriptor
  at the start of the file, and \<open>put_file\<close> is the file when \<open>fd\<close> has written to it.
\<close>

definition open_wr :: "fenv \<Rightarrow> string \<Rightarrow> 'a fproc_scheme \<Rightarrow> errno + (string \<times> conn)" where
  "open_wr env path p =
     (case open_err env path True of
        Some e \<Rightarrow> Inl e
      | None \<Rightarrow> Inr (contents p path, \<lparr>rq = [], wq = writes env path, sent = []\<rparr>))"

definition overlay :: "string \<Rightarrow> string \<Rightarrow> string" where
  "overlay old new = new @ drop (length new) old"

definition put_file :: "string \<Rightarrow> string \<Rightarrow> conn \<Rightarrow> 'a fproc_scheme \<Rightarrow> 'a fproc_scheme" where
  "put_file path old fd p = p\<lparr>disk := (disk p)(path \<mapsto> overlay old (sent fd))\<rparr>"

lemma overlay_short [simp]: "length old \<le> length new \<Longrightarrow> overlay old new = new"
  by (simp add: overlay_def)

lemma overlay_longer:
  "length new < length old \<Longrightarrow> overlay old new \<noteq> new \<and> length (overlay old new) = length old"
  by (simp add: overlay_def)

lemma open_plain [simp]:
  "disk p path = Some s \<Longrightarrow> open_rd plain_env path p = Inr [Seg s, Fin]"
  "open_wr plain_env path p = Inr (contents p path, \<lparr>rq = [], wq = [], sent = []\<rparr>)"
  by (simp_all add: open_rd_def open_wr_def plain_env_def)

lemma open_missing: "disk p path = None \<Longrightarrow> open_rd env path p = Inl ENOENT"
  by (simp add: open_rd_def)

text \<open>\<^verbatim>\<open>fprintf\<close> and \<^verbatim>\<open>fclose\<close> on a file opened with \<^verbatim>\<open>fopen(path, "a")\<close>.\<close>

definition append_to :: "string \<Rightarrow> string \<Rightarrow> 'a fproc_scheme \<Rightarrow> 'a fproc_scheme" where
  "append_to path t p = p\<lparr>disk := (disk p)(path \<mapsto> contents p path @ t)\<rparr>"

section \<open>Time\<close>

text \<open>What \<^verbatim>\<open>ctime\<close> gives: 24 characters and a newline.\<close>

definition ctime_text :: "string \<Rightarrow> bool" where
  "ctime_text t \<longleftrightarrow> length t = 25 \<and> last t = CHR 0x0A \<and> nul \<notin> set t"

end
