(* ===== verification/Srcp.thy ===== *)
theory Srcp
  imports Posix_Files Posix_Net
begin

text \<open>
  The file copy program of \<^verbatim>\<open>Project/CS515_HW2_Var1.1\<close>: the transfer of a file in records over a
  stream (\<^verbatim>\<open>srcp_util.c\<close>), the server (\<^verbatim>\<open>srcp_srv.c\<close>) and the client (\<^verbatim>\<open>srcp_clnt.c\<close>).
\<close>

section \<open>srcp.h\<close>

definition SRCP_SERV_PORT :: "16 word" where "SRCP_SERV_PORT = 51513"

abbreviation OPCODE_UPLOAD_TO_SERVER :: char where "OPCODE_UPLOAD_TO_SERVER \<equiv> CHR ''U''"
abbreviation OPCODE_DOWNLOAD_TO_CLIENT :: char where "OPCODE_DOWNLOAD_TO_CLIENT \<equiv> CHR ''D''"
abbreviation REQ_TERMINATOR :: char where "REQ_TERMINATOR \<equiv> CHR ''T''"
abbreviation REQ_DEFAULT :: char where "REQ_DEFAULT \<equiv> CHR ''D''"

definition SRCP_BUF_SIZE :: nat where "SRCP_BUF_SIZE = 512"

text \<open>The declared length of the arrays, \<^verbatim>\<open>BUF_SIZE + 10\<close>.\<close>

definition SRCP_ARRAY_SIZE :: nat where "SRCP_ARRAY_SIZE = SRCP_BUF_SIZE + 10"

lemmas srcp_size_defs = SRCP_BUF_SIZE_def SRCP_ARRAY_SIZE_def

section \<open>srcp_util.c: the two directions of a copy\<close>

text \<open>
  The last record, for the \<^verbatim>\<open>rd_count\<close> of the read before it, which is negative when the read
  failed; then the null character takes the place of the flag and nothing is sent.  The result
  of this \<^verbatim>\<open>write\<close> is not looked at.
\<close>

definition last_record :: "int \<Rightarrow> string \<Rightarrow> conn \<Rightarrow> 'a proc_scheme \<Rightarrow> stop \<times> conn \<times> 'a proc_scheme" where
  "last_record rd_count buffer c p =
     (case store (buffer[0 := REQ_TERMINATOR]) (nat (rd_count + 1)) [nul] of
        Inl f \<Rightarrow> (Undef f, c, p)
      | Inr b \<Rightarrow>
          (case sys_write (take (nat (rd_count + 1)) b) c of
             (WrFail e, c1) \<Rightarrow> (Returns, c1, p\<lparr>errnum := e\<rparr>)
           | (Wrote _, c1) \<Rightarrow> (Returns, c1, p)))"

text \<open>The loop of \<^verbatim>\<open>doTransfer\<close> over what the file delivers.\<close>

function transfer_loop ::
    "rd_event list \<Rightarrow> string \<Rightarrow> conn \<Rightarrow> 'a proc_scheme \<Rightarrow> stop \<times> conn \<times> 'a proc_scheme" where
  "transfer_loop es buffer c p =
     (case sys_read (SRCP_BUF_SIZE - 1) es of
        (Got d, es') \<Rightarrow>
          (case store buffer 1 d of
             Inl f \<Rightarrow> (Undef f, c, p)
           | Inr b \<Rightarrow>
               (let b1 = b[0 := REQ_DEFAULT] in
                if length d < SRCP_BUF_SIZE - 1 then last_record (int (length d)) b1 c p
                else (case sys_write (take SRCP_BUF_SIZE b1) c of
                        (WrFail e, c1) \<Rightarrow>
                          (case perror_exit 1 (''write failed'' @ nl) e p of (s, p1) \<Rightarrow> (s, c1, p1))
                      | (Wrote _, c1) \<Rightarrow> transfer_loop es' b1 c1 p)))
      | (Eof, es') \<Rightarrow> last_record 0 (buffer[0 := REQ_DEFAULT]) c p
      | (RdFail e, es') \<Rightarrow> last_record (- 1) (buffer[0 := REQ_DEFAULT]) c (p\<lparr>errnum := e\<rparr>)
      | (RdWait, es') \<Rightarrow> (Blocks, c, p))"
  by pat_completeness auto
termination
  by (relation "measure (\<lambda>(es, _). ev_size es)")
    (auto simp: SRCP_BUF_SIZE_def intro!: sys_read_size_less [OF sym])

declare transfer_loop.simps [simp del]

text \<open>
  \<^verbatim>\<open>doTransfer\<close>; its array has any contents at the start.  It always returns \<^verbatim>\<open>SUCCESS\<close>, which no
  caller looks at.
\<close>

definition doTransfer ::
    "fenv \<Rightarrow> string \<Rightarrow> string \<Rightarrow> conn \<Rightarrow> 'a fproc_scheme \<Rightarrow> stop \<times> conn \<times> 'a fproc_scheme" where
  "doTransfer env buffer filePath c p =
     (case open_rd env filePath p of
        Inl e \<Rightarrow>
          (case printf_exit 1 (''open input file failed: '' @ filePath @ nl) (p\<lparr>errnum := e\<rparr>) of
             (s, p1) \<Rightarrow> (s, c, p1))
      | Inr es \<Rightarrow> transfer_loop es buffer c p)"

text \<open>
  A read that gives nothing: the count \<open>- 1\<close> or \<open>- 2\<close> becomes a huge \<^verbatim>\<open>size_t\<close>, with which
  \<^verbatim>\<open>write\<close> fails, and the flag is what an earlier record left in the array.
\<close>

definition receive_nothing ::
    "string \<Rightarrow> conn \<Rightarrow> conn \<Rightarrow> 'a proc_scheme \<Rightarrow> stop \<times> conn \<times> conn \<times> 'a proc_scheme" where
  "receive_nothing buffer c fd p =
     (if buffer ! 0 = REQ_TERMINATOR then (Returns, c, fd, p\<lparr>errnum := EFAULT\<rparr>)
      else (case perror_exit 1 (''write failed'' @ nl) EFAULT p of (s, p1) \<Rightarrow> (s, c, fd, p1)))"

function receive_loop ::
    "string \<Rightarrow> conn \<Rightarrow> conn \<Rightarrow> 'a proc_scheme \<Rightarrow> stop \<times> conn \<times> conn \<times> 'a proc_scheme" where
  "receive_loop buffer c fd p =
     (case conn_read SRCP_BUF_SIZE c of
        (Got d, c1) \<Rightarrow>
          (case store buffer 0 d of
             Inl f \<Rightarrow> (Undef f, c1, fd, p)
           | Inr b \<Rightarrow>
               (case sys_write (take (length d - 1) (tl b)) fd of
                  (r, fd1) \<Rightarrow>
                    if b ! 0 = REQ_TERMINATOR
                    then (Returns, c1, fd1, case r of WrFail e \<Rightarrow> p\<lparr>errnum := e\<rparr> | Wrote _ \<Rightarrow> p)
                    else (case r of
                            WrFail e \<Rightarrow>
                              (case perror_exit 1 (''write failed'' @ nl) e p of
                                 (s, p1) \<Rightarrow> (s, c1, fd1, p1))
                          | Wrote _ \<Rightarrow> receive_loop b c1 fd1 p)))
      | (Eof, c1) \<Rightarrow> receive_nothing buffer c1 fd p
      | (RdFail e, c1) \<Rightarrow> receive_nothing buffer c1 fd p
      | (RdWait, c1) \<Rightarrow> (Blocks, c1, fd, p))"
  by pat_completeness auto
termination
  by (relation "measure (\<lambda>(_, c, _). ev_size (rq c))")
    (auto simp: SRCP_BUF_SIZE_def conn_read_def intro: sys_read_size_less split: prod.splits)

declare receive_loop.simps [simp del]

definition doReceive ::
    "fenv \<Rightarrow> string \<Rightarrow> string \<Rightarrow> conn \<Rightarrow> 'a fproc_scheme \<Rightarrow> stop \<times> conn \<times> 'a fproc_scheme" where
  "doReceive env buffer filePath c p =
     (case open_wr env filePath p of
        Inl e \<Rightarrow>
          (case printf_exit 1 (''open output file failed: '' @ filePath @ nl) (p\<lparr>errnum := e\<rparr>) of
             (s, p1) \<Rightarrow> (s, c, p1))
      | Inr (old, fd) \<Rightarrow>
          (case receive_loop buffer c fd p of
             (s, c1, fd1, p1) \<Rightarrow> (s, c1, put_file filePath old fd1 p1)))"

section \<open>srcp_srv.c\<close>

record srcp_server = fproc +
  str :: string
  filePathBuff :: string

text \<open>\<^verbatim>\<open>ct\<close> is the text \<^verbatim>\<open>ctime\<close> gives; the last character is cut off.\<close>

definition get_time_str :: "string \<Rightarrow> string \<Rightarrow> fault + string" where
  "get_time_str ct buf =
     (case store_str buf (nl @ ct) of
        Inl f \<Rightarrow> Inl f
      | Inr s \<Rightarrow> Inr (s[length (nl @ ct) - 1 := nul]))"

text \<open>
  The loop that replaces what is not printable; a newline is not printable either, so the inner
  test never holds.
\<close>

fun clean_loop :: "nat \<Rightarrow> string \<Rightarrow> string" where
  "clean_loop 0 b = b"
| "clean_loop (Suc k) [] = []"
| "clean_loop (Suc k) (c # b) =
     (if isprint c then (if c = CHR 0x0A then CHR ''-'' else c) else CHR ''-'') # clean_loop k b"

definition srcp_process_client_data ::
    "string \<Rightarrow> nat \<Rightarrow> 'a proc_scheme \<Rightarrow> fault + (char \<times> string \<times> 'a proc_scheme)" where
  "srcp_process_client_data buffer msg_size p =
     (let n = (if SRCP_BUF_SIZE - 2 < msg_size then SRCP_BUF_SIZE - 2 else msg_size) in
      if length buffer \<le> n then Inl Overrun
      else
        (let b = (clean_loop n buffer)[n := nul] in
         Inr (b ! 0, b, printf (''message from client: '' @ cstr b @ nl) p)))"

text \<open>The two \<^verbatim>\<open>switch\<close> statements of \<^verbatim>\<open>srcp_process_client\<close>.\<close>

definition confirm_msg :: "char \<Rightarrow> string" where
  "confirm_msg opc =
     (if opc = OPCODE_DOWNLOAD_TO_CLIENT then ''Download''
      else if opc = OPCODE_UPLOAD_TO_SERVER then ''Upload'' else ''Reject'')"

definition copy_for_client ::
    "fenv \<Rightarrow> string \<Rightarrow> conn \<Rightarrow> 'a srcp_server_scheme \<Rightarrow> stop \<times> conn \<times> 'a srcp_server_scheme" where
  "copy_for_client env buffer c p =
     (if filePathBuff p ! 0 = OPCODE_DOWNLOAD_TO_CLIENT
      then doTransfer env buffer (cstr (tl (filePathBuff p))) c p
      else if filePathBuff p ! 0 = OPCODE_UPLOAD_TO_SERVER
      then doReceive env buffer (cstr (tl (filePathBuff p))) c p
      else (Returns, c, p))"

definition answer_client ::
    "fenv \<Rightarrow> string \<Rightarrow> string \<Rightarrow> nat \<Rightarrow> conn \<Rightarrow> 'a srcp_server_scheme
     \<Rightarrow> stop \<times> conn \<times> 'a srcp_server_scheme" where
  "answer_client env buffer path n c p =
     (case srcp_process_client_data path n p of
        Inl f \<Rightarrow> (Undef f, c, p)
      | Inr (opc, b, p1) \<Rightarrow>
          (let p2 = p1\<lparr>filePathBuff := b\<rparr> in
           case sys_write (confirm_msg opc) c of
             (WrFail e, c1) \<Rightarrow>
               (case perror_exit 1 (''socket write failed'' @ nl) e p2 of (s, p3) \<Rightarrow> (s, c1, p3))
           | (Wrote _, c1) \<Rightarrow> copy_for_client env buffer c1 p2))"

definition srcp_process_client ::
    "fenv \<Rightarrow> string \<Rightarrow> conn \<Rightarrow> 'a srcp_server_scheme \<Rightarrow> stop \<times> conn \<times> 'a srcp_server_scheme" where
  "srcp_process_client env buffer c p =
     (case conn_read SRCP_BUF_SIZE c of
        (Got d, c1) \<Rightarrow>
          (case store (filePathBuff p) 0 d of
             Inl f \<Rightarrow> (Undef f, c1, p)
           | Inr path \<Rightarrow> answer_client env buffer path (length d) c1 p)
      | (Eof, c1) \<Rightarrow> answer_client env buffer (filePathBuff p) 0 c1 p
      | (RdFail e, c1) \<Rightarrow>
          (case perror_exit 1 (''socket read failed'' @ nl) e p of (s, p1) \<Rightarrow> (s, c1, p1))
      | (RdWait, c1) \<Rightarrow> (Blocks, c1, p))"

text \<open>A connection that \<^verbatim>\<open>accept\<close> gives, with the time it arrives.\<close>

record arrival =
  came_from :: sockaddr_in
  socket :: conn
  at_time :: string

text \<open>
  The loop of \<^verbatim>\<open>srcp_server\<close>, with the connections it has served: none of them is ever closed.
\<close>

fun srcp_server_loop ::
    "fenv \<Rightarrow> string \<Rightarrow> (errno + arrival) list \<Rightarrow> conn list \<Rightarrow> 'a srcp_server_scheme
     \<Rightarrow> stop \<times> conn list \<times> 'a srcp_server_scheme" where
  "srcp_server_loop env buffer [] opened p = (Blocks, opened, p)"
| "srcp_server_loop env buffer (Inl e # acc) opened p =
     (case perror_exit 1 ''accept error'' e p of (s, p1) \<Rightarrow> (s, opened, p1))"
| "srcp_server_loop env buffer (Inr a # acc) opened p =
     (case get_time_str (at_time a) (str p) of
        Inl f \<Rightarrow> (Undef f, opened, p)
      | Inr t \<Rightarrow>
          (let p1 = printf (cstr t @ '' -- '' @ inet_ntoa (sin_addr (came_from a)) @ ''.''
                 @ show_nat (unat (sin_port (came_from a))) @ nl) (p\<lparr>str := t\<rparr>)
           in case srcp_process_client env buffer (socket a) p1 of
                (s, c, p2) \<Rightarrow>
                  if s = Returns then srcp_server_loop env buffer acc (opened @ [c]) p2
                  else (s, opened @ [c], p2)))"

text \<open>What the kernel answers while the server sets itself up.\<close>

record skernel =
  s_socket :: "errno + int"
  s_option :: "errno + unit"
  s_bind :: "errno + unit"
  s_listen :: "errno + unit"

definition or_perror ::
    "errno + 'b \<Rightarrow> string \<Rightarrow> 'r \<Rightarrow> 'a proc_scheme \<Rightarrow> ('a proc_scheme \<Rightarrow> stop \<times> 'r \<times> 'a proc_scheme)
     \<Rightarrow> stop \<times> 'r \<times> 'a proc_scheme" where
  "or_perror r m d p k =
     (case r of Inl e \<Rightarrow> (case perror_exit 1 m e p of (s, p1) \<Rightarrow> (s, d, p1)) | Inr _ \<Rightarrow> k p)"

definition main_srcp_srv ::
    "string list \<Rightarrow> skernel \<Rightarrow> fenv \<Rightarrow> string \<Rightarrow> (errno + arrival) list \<Rightarrow> 'a srcp_server_scheme
     \<Rightarrow> stop \<times> conn list \<times> 'a srcp_server_scheme" where
  "main_srcp_srv argv k env buffer acc p =
     (if length argv \<noteq> 1
      then (case printf_exit 1 (''Usage: '' @ argv ! 0 @ nl) p of (s, p1) \<Rightarrow> (s, [], p1))
      else or_perror (s_socket k) (''socket error'' @ nl) [] p (\<lambda>p.
        (case s_option k of
           Inl e \<Rightarrow>
             (case printf_exit (- 1) (''failed to set socket option'' @ nl) (p\<lparr>errnum := e\<rparr>) of
                (s, p1) \<Rightarrow> (s, [], p1))
         | Inr _ \<Rightarrow>
             or_perror (s_bind k) ''bind error'' [] p (\<lambda>p.
             or_perror (s_listen k) (''listen error'' @ nl) [] p (\<lambda>p.
               srcp_server_loop env buffer acc [] p)))))"

section \<open>srcp_clnt.c\<close>

record srcp_client = fproc +
  ipBuff :: string
  serverFilePathBuff :: string
  clientFilePathBuff :: string
  opCode :: char

definition DATA_BUF_SIZE :: nat where "DATA_BUF_SIZE = 128"

text \<open>\<^verbatim>\<open>strchr(s, ':')\<close>: the text in front of the first colon and the text behind it.\<close>

definition split_colon :: "string \<Rightarrow> (string \<times> string) option" where
  "split_colon s =
     (if CHR '':'' \<in> set s
      then Some (takeWhile (\<lambda>c. c \<noteq> CHR '':'') s, tl (dropWhile (\<lambda>c. c \<noteq> CHR '':'') s))
      else None)"

text \<open>The branches of \<^verbatim>\<open>parsePath\<close>, with the operation and what goes into the three arrays.\<close>

definition set_paths ::
    "char \<Rightarrow> string \<Rightarrow> string \<Rightarrow> string \<Rightarrow> 'a srcp_client_scheme \<Rightarrow> stop \<times> 'a srcp_client_scheme" where
  "set_paths opc serverPath clientPath host p =
     (case store ((serverFilePathBuff p)[0 := opc]) 1 (serverPath @ [nul]) of
        Inl f \<Rightarrow> (Undef f, p)
      | Inr sb \<Rightarrow>
          (case store_str (clientFilePathBuff p) clientPath of
             Inl f \<Rightarrow> (Undef f, p)
           | Inr cb \<Rightarrow>
               (case store_str (ipBuff p) host of
                  Inl f \<Rightarrow> (Undef f, p)
                | Inr ib \<Rightarrow>
                    (Returns, p\<lparr>opCode := opc, serverFilePathBuff := sb, clientFilePathBuff := cb,
                       ipBuff := ib\<rparr>))))"

definition parsePath ::
    "string \<Rightarrow> string \<Rightarrow> 'a srcp_client_scheme \<Rightarrow> stop \<times> 'a srcp_client_scheme" where
  "parsePath source destination p =
     (case (split_colon source, split_colon destination) of
        (Some (host, path), None) \<Rightarrow>
          set_paths OPCODE_DOWNLOAD_TO_CLIENT path destination host p
      | (None, Some (host, path)) \<Rightarrow>
          set_paths OPCODE_UPLOAD_TO_SERVER source path host p
      | _ \<Rightarrow> printf_exit 1 (''invalid file path'' @ nl) p)"

text \<open>From the confirmation on: \<^verbatim>\<open>n\<close> bytes of it have been read into \<^verbatim>\<open>buffer\<close>.\<close>

definition start_copy ::
    "fenv \<Rightarrow> string \<Rightarrow> string \<Rightarrow> nat \<Rightarrow> conn \<Rightarrow> 'a srcp_client_scheme
     \<Rightarrow> stop \<times> conn \<times> 'a srcp_client_scheme" where
  "start_copy env junk buffer n c p =
     (if length buffer \<le> n then (Undef Overrun, c, p)
      else
        (let b = buffer[n := nul] in
         if opCode p \<noteq> b ! 0
         then (case printf_exit 1 (''operation confirm failed'' @ nl) p of (s, p1) \<Rightarrow> (s, c, p1))
         else
           (case (if opCode p = OPCODE_DOWNLOAD_TO_CLIENT
                  then doReceive env junk (cstr (clientFilePathBuff p)) c p
                  else if opCode p = OPCODE_UPLOAD_TO_SERVER
                  then doTransfer env junk (cstr (clientFilePathBuff p)) c p
                  else (Returns, c, p)) of
              (s, c1, p1) \<Rightarrow> (if s = Returns then Exits 0 else s, c1, p1))))"

text \<open>
  \<^verbatim>\<open>main\<close> of the client; \<open>so\<close> and \<open>co\<close> are what \<^verbatim>\<open>socket\<close> and \<^verbatim>\<open>connect\<close> answer.  The result of
  \<^verbatim>\<open>inet_pton\<close> is not looked at.
\<close>

definition main_srcp_clnt ::
    "string list \<Rightarrow> errno + int \<Rightarrow> errno + unit \<Rightarrow> fenv \<Rightarrow> string \<Rightarrow> string \<Rightarrow> conn
     \<Rightarrow> 'a srcp_client_scheme \<Rightarrow> stop \<times> conn \<times> 'a srcp_client_scheme" where
  "main_srcp_clnt argv so co env buffer junk c p =
     (if length argv \<noteq> 3
      then (case printf_exit 1 (argv ! 0 @ '' sourceFilePath destinationfilePath'' @ nl) p of
              (s, p1) \<Rightarrow> (s, c, p1))
      else
        (case parsePath (argv ! 1) (argv ! 2) p of
           (s, p1) \<Rightarrow>
             if s \<noteq> Returns then (s, c, p1)
             else or_perror so (''socket error'' @ nl) c p1 (\<lambda>p2.
                  or_perror co ''connect error'' c p2 (\<lambda>p3.
                    (case sys_write (cstr (serverFilePathBuff p3)) c of
                       (WrFail e, c1) \<Rightarrow>
                         (case perror_exit 1 (''socket write failed'' @ nl) e p3 of
                            (s, p4) \<Rightarrow> (s, c1, p4))
                     | (Wrote _, c1) \<Rightarrow>
                         (case conn_read DATA_BUF_SIZE c1 of
                            (Got d, c2) \<Rightarrow>
                              (case store buffer 0 d of
                                 Inl f \<Rightarrow> (Undef f, c2, p3)
                               | Inr b \<Rightarrow> start_copy env junk b (length d) c2 p3)
                          | (Eof, c2) \<Rightarrow> start_copy env junk buffer 0 c2 p3
                          | (RdFail e, c2) \<Rightarrow>
                              (case perror_exit 1 (''socket read failed'' @ nl) e p3 of
                                 (s, p4) \<Rightarrow> (s, c2, p4))
                          | (RdWait, c2) \<Rightarrow> (Blocks, c2, p3)))))))"

section \<open>The records of a file\<close>

text \<open>
  What the protocol sends for a file: records of 511 bytes with the flag \<^verbatim>\<open>D\<close>, and a last one with
  the flag \<^verbatim>\<open>T\<close>, which is shorter.
\<close>

function blocks :: "string \<Rightarrow> string list" where
  "blocks f =
     (if length f < SRCP_BUF_SIZE - 1 then [REQ_TERMINATOR # f]
      else (REQ_DEFAULT # take (SRCP_BUF_SIZE - 1) f) # blocks (drop (SRCP_BUF_SIZE - 1) f))"
  by pat_completeness auto
termination
  by (relation "measure length") (auto simp: SRCP_BUF_SIZE_def)

declare blocks.simps [simp del]

lemma blocks_bound: "r \<in> set (blocks f) \<Longrightarrow> 0 < length r \<and> length r \<le> SRCP_BUF_SIZE"
  by (induction f rule: blocks.induct, subst (asm) (2) blocks.simps)
    (auto simp: SRCP_BUF_SIZE_def split: if_splits)

text \<open>The data of the records is the file.\<close>

lemma concat_blocks: "concat (map tl (blocks f)) = f"
  by (induction f rule: blocks.induct, subst blocks.simps) (auto simp: append_take_drop_id)

lemma take_list_update_0: "b \<noteq> [] \<Longrightarrow> take (Suc n) (b[0 := x]) = x # take n (tl b)"
  by (cases b) auto

lemma record_front:
  "length d < length b \<Longrightarrow> take (Suc (length d)) ((splice b 1 d)[0 := x]) = x # d"
  by (cases b) (auto simp: splice_def)

lemma last_record_sends:
  assumes "length d + 1 < length b" and "all_writes c"
  obtains c' where "last_record (int (length d)) ((splice b 1 d)[0 := y]) c p = (Returns, c', p)"
    "sent c' = sent c @ REQ_TERMINATOR # d" "rq c' = rq c"
proof -
  obtain q where w: "sys_write (REQ_TERMINATOR # d) c
      = (Wrote (Suc (length d)), c\<lparr>wq := q, sent := sent c @ REQ_TERMINATOR # d\<rparr>)"
    using sys_write_all [OF assms(2), of "REQ_TERMINATOR # d"] by auto
  let ?b = "(splice b 1 d)[0 := REQ_TERMINATOR]"
  have "take (Suc (length d)) (splice ?b (Suc (length d)) [nul]) = REQ_TERMINATOR # d"
    using assms(1) record_front [of d b] by (simp add: take_splice_front)
  moreover have "nat (int (length d) + 1) = Suc (length d)" by simp
  ultimately show thesis
    using that w assms(1) by (simp add: last_record_def store_def)
qed

lemma sys_read_file:
  "sys_read n [Seg s, Fin] = (if s = [] then (Eof, [Fin])
     else if length s \<le> n then (Got s, [Fin]) else (Got (take n s), [Seg (drop n s), Fin]))"
  by (cases s) auto

lemma transfer_loop_sends:
  assumes "length buffer = SRCP_ARRAY_SIZE" and "all_writes c"
    and "es = [Seg f, Fin] \<or> f = [] \<and> es = [Fin]"
  shows "\<exists>c'. transfer_loop es buffer c p = (Returns, c', p)
     \<and> sent c' = sent c @ concat (blocks f) \<and> rq c' = rq c"
  using assms
proof (induction f arbitrary: es buffer c rule: blocks.induct)
  case (1 f)
  show ?case
  proof (cases "length f < SRCP_BUF_SIZE - 1")
    case True
    obtain c' where c': "last_record (int (length f)) ((splice buffer 1 f)[0 := REQ_DEFAULT]) c p
        = (Returns, c', p)" "sent c' = sent c @ REQ_TERMINATOR # f" "rq c' = rq c"
      using last_record_sends [of f buffer c REQ_DEFAULT p] True "1.prems" by (auto simp: srcp_size_defs)
    have b: "blocks f = [REQ_TERMINATOR # f]" using True by (simp add: blocks.simps)
    show ?thesis
    proof (cases "f = []")
      case True
      then show ?thesis using c' b "1.prems"
        by (intro exI [of _ c'], subst transfer_loop.simps) auto
    next
      case False
      then show ?thesis using c' b True "1.prems"
        by (intro exI [of _ c'], subst transfer_loop.simps)
          (auto simp: sys_read_file store_def srcp_size_defs)
    qed
  next
    case False
    let ?d = "take (SRCP_BUF_SIZE - 1) f" and ?r = "drop (SRCP_BUF_SIZE - 1) f"
    let ?b = "(splice buffer 1 ?d)[0 := REQ_DEFAULT]"
    have l: "length ?d = SRCP_BUF_SIZE - 1" using False by simp
    have es: "es = [Seg f, Fin]" "f \<noteq> []" using False "1.prems"(3) by (auto simp: srcp_size_defs)
    obtain es' where rd: "sys_read (SRCP_BUF_SIZE - 1) es = (Got ?d, es')"
      "es' = [Seg ?r, Fin] \<or> ?r = [] \<and> es' = [Fin]"
      using False es by (cases "length f = SRCP_BUF_SIZE - 1") (auto simp: sys_read_file srcp_size_defs)
    have "take (Suc (SRCP_BUF_SIZE - 1)) ?b = REQ_DEFAULT # ?d"
      using record_front [of ?d buffer REQ_DEFAULT] l "1.prems"(1) by (simp add: srcp_size_defs)
    then have b: "take SRCP_BUF_SIZE ?b = REQ_DEFAULT # ?d" by (simp add: SRCP_BUF_SIZE_def)
    obtain q where w: "sys_write (REQ_DEFAULT # ?d) c
        = (Wrote (Suc (length ?d)), c\<lparr>wq := q, sent := sent c @ REQ_DEFAULT # ?d\<rparr>)"
      and q: "set q \<subseteq> set (wq c)"
      using sys_write_all [OF "1.prems"(2), of "REQ_DEFAULT # ?d"] by auto
    let ?c = "c\<lparr>wq := q, sent := sent c @ REQ_DEFAULT # ?d\<rparr>"
    have step: "transfer_loop es buffer c p = transfer_loop es' ?b ?c p"
      using rd(1) l b w "1.prems"(1)
      by (subst transfer_loop.simps) (simp add: store_def srcp_size_defs Let_def)
    have "\<exists>c'. transfer_loop es' ?b ?c p = (Returns, c', p)
        \<and> sent c' = sent ?c @ concat (blocks ?r) \<and> rq c' = rq ?c"
    proof (rule "1.IH" [OF False])
      show "length ?b = SRCP_ARRAY_SIZE" using l "1.prems"(1) by (simp add: srcp_size_defs)
      show "all_writes ?c" using q "1.prems"(2) by (auto simp: all_writes_def)
    qed (rule rd(2))
    moreover have "blocks f = (REQ_DEFAULT # ?d) # blocks ?r" using False by (subst blocks.simps) simp
    ultimately show ?thesis using step by auto
  qed
qed

end
