(* ===== verification/Srcp_Copy.thy ===== *)
theory Srcp_Copy
  imports Srcp
begin

text \<open>
  What the copy program achieves: a file arrives when every read of the receiver returns one record,
  and what happens when a read does not; the request of the client and the answer of the server; the
  two programs together.
\<close>

section \<open>Receiving records\<close>

lemma conn_read_record:
  "rq c = Seg r # es \<Longrightarrow> r \<noteq> [] \<Longrightarrow> length r \<le> n \<Longrightarrow> conn_read n c = (Got r, c\<lparr>rq := es\<rparr>)"
  by (simp add: conn_read_def sys_read_Seg)

text \<open>One record in the array, with its data written to the file.\<close>

lemma receive_record:
  assumes "rq c = Seg (x # d) # es" and "length d < SRCP_BUF_SIZE" and "length b = SRCP_ARRAY_SIZE"
    and "all_writes fd"
  obtains b' fd' where "length b' = SRCP_ARRAY_SIZE" "all_writes fd'" "sent fd' = sent fd @ d"
    "receive_loop b c fd p =
      (if x = REQ_TERMINATOR then (Returns, c\<lparr>rq := es\<rparr>, fd', p)
       else receive_loop b' (c\<lparr>rq := es\<rparr>) fd' p)"
proof -
  let ?b = "splice b 0 (x # d)"
  obtain q where w: "sys_write d fd = (Wrote (length d), fd\<lparr>wq := q, sent := sent fd @ d\<rparr>)"
    and q: "set q \<subseteq> set (wq fd)"
    using sys_write_all [OF assms(4), of d] by auto
  have rd: "conn_read SRCP_BUF_SIZE c = (Got (x # d), c\<lparr>rq := es\<rparr>)"
    using assms(1,2) by (intro conn_read_record) auto
  have b: "store b 0 (x # d) = Inr ?b" using assms(2,3) by (simp add: store_def srcp_size_defs)
  have h: "?b ! 0 = x" "take (length d) (tl ?b) = d" by (simp_all add: splice_def)
  show thesis
  proof (rule that [of ?b "fd\<lparr>wq := q, sent := sent fd @ d\<rparr>"])
    show "length ?b = SRCP_ARRAY_SIZE" using assms(2,3) by (simp add: srcp_size_defs)
    show "all_writes (fd\<lparr>wq := q, sent := sent fd @ d\<rparr>)"
      using q assms(4) by (auto simp: all_writes_def)
    show "receive_loop b c fd p =
      (if x = REQ_TERMINATOR then (Returns, c\<lparr>rq := es\<rparr>, fd\<lparr>wq := q, sent := sent fd @ d\<rparr>, p)
       else receive_loop ?b (c\<lparr>rq := es\<rparr>) (fd\<lparr>wq := q, sent := sent fd @ d\<rparr>) p)"
      using w h by (subst receive_loop.simps) (simp add: rd b)
  qed simp
qed

lemma receive_loop_blocks:
  assumes "rq c = map Seg (blocks f) @ es" and "length b = SRCP_ARRAY_SIZE" and "all_writes fd"
  shows "\<exists>fd'. receive_loop b c fd p = (Returns, c\<lparr>rq := es\<rparr>, fd', p) \<and> sent fd' = sent fd @ f"
  using assms
proof (induction f arbitrary: c b fd rule: blocks.induct)
  case (1 f)
  show ?case
  proof (cases "length f < SRCP_BUF_SIZE - 1")
    case True
    then have "rq c = Seg (REQ_TERMINATOR # f) # es" using "1.prems"(1) by (simp add: blocks.simps)
    with True "1.prems"(2,3) show ?thesis
      by (elim receive_record [of c REQ_TERMINATOR f es b fd p]) (auto simp: srcp_size_defs)
  next
    case False
    let ?d = "take (SRCP_BUF_SIZE - 1) f" and ?r = "drop (SRCP_BUF_SIZE - 1) f"
    let ?es = "map Seg (blocks ?r) @ es"
    have "rq c = Seg (REQ_DEFAULT # ?d) # ?es"
      using False "1.prems"(1) by (subst (asm) blocks.simps) simp
    moreover have "length ?d < SRCP_BUF_SIZE" by (simp add: srcp_size_defs)
    ultimately obtain b' fd' where s: "length b' = SRCP_ARRAY_SIZE" "all_writes fd'"
      "sent fd' = sent fd @ ?d" "receive_loop b c fd p = receive_loop b' (c\<lparr>rq := ?es\<rparr>) fd' p"
      using "1.prems"(2,3) by (elim receive_record [of c REQ_DEFAULT ?d ?es b fd p]) auto
    with "1.IH" [OF False, of "c\<lparr>rq := ?es\<rparr>" b' fd'] show ?thesis
      by auto
  qed
qed

section \<open>Both directions on a disk\<close>

lemma doTransfer_sends:
  assumes "disk p path = Some f" and "length b = SRCP_ARRAY_SIZE" and "all_writes c"
  obtains c' where "doTransfer plain_env b path c p = (Returns, c', p)"
    "sent c' = sent c @ concat (blocks f)" "rq c' = rq c"
  using transfer_loop_sends [OF assms(2,3), of "[Seg f, Fin]" f p] assms(1) that
  by (auto simp: doTransfer_def)

lemma doReceive_stores:
  assumes "rq c = map Seg (blocks f) @ es" and "length b = SRCP_ARRAY_SIZE"
  shows "doReceive plain_env b path c p
    = (Returns, c\<lparr>rq := es\<rparr>, p\<lparr>disk := (disk p)(path \<mapsto> overlay (contents p path) f)\<rparr>)"
  using receive_loop_blocks [OF assms, of "\<lparr>rq = [], wq = [], sent = []\<rparr>" p]
  by (auto simp: doReceive_def put_file_def contents_def all_writes_def)

section \<open>The request\<close>

lemma length_clean_loop [simp]: "length (clean_loop n b) = length b"
  by (induction n b rule: clean_loop.induct) auto

lemma clean_loop_prints:
  "c \<in> set (take n (clean_loop n b)) \<Longrightarrow> isprint c \<and> c \<noteq> CHR 0x0A"
  by (induction n b rule: clean_loop.induct) (auto simp: isprint_def split: if_splits)

lemma clean_loop_id:
  "\<forall>c \<in> set (take n b). isprint c \<Longrightarrow> clean_loop n b = b"
  by (induction n b rule: clean_loop.induct) (auto simp: isprint_def)

lemma isprint_not_nul [simp]: "\<not> isprint nul"
  by (simp add: isprint_def)

text \<open>A request of printable characters goes through unchanged, as a C string.\<close>

lemma process_client_data_plain:
  assumes "\<forall>c \<in> set t. isprint c" and "length t \<le> SRCP_BUF_SIZE - 2" and "t \<noteq> []"
    and "length b = SRCP_ARRAY_SIZE"
  shows "srcp_process_client_data (splice b 0 t) (length t) p
    = Inr (hd t, (splice b 0 t)[length t := nul], printf (''message from client: '' @ t @ nl) p)"
    and "cstr ((splice b 0 t)[length t := nul]) = t"
proof -
  have n: "nul \<notin> set t" using assms(1) isprint_not_nul by blast
  have u: "(splice b 0 t)[length t := nul] = t @ nul # drop (Suc (length t)) b"
    using assms(2,4) by (simp add: splice_def list_update_append drop_eq_Nil srcp_size_defs
        Cons_nth_drop_Suc [symmetric])
  show c: "cstr ((splice b 0 t)[length t := nul]) = t" using n by (simp add: u cstr_append_nul)
  have "clean_loop (length t) (splice b 0 t) = splice b 0 t"
    using assms(1) by (intro clean_loop_id) (simp add: splice_def)
  then show "srcp_process_client_data (splice b 0 t) (length t) p
    = Inr (hd t, (splice b 0 t)[length t := nul], printf (''message from client: '' @ t @ nl) p)"
    using assms c by (simp add: srcp_process_client_data_def Let_def srcp_size_defs hd_conv_nth u nth_append)
qed

section \<open>The server answers a request for a file\<close>

lemma request_arrives:
  assumes "\<forall>c \<in> set t. isprint c" and "length t \<le> SRCP_BUF_SIZE - 2" and "t \<noteq> []"
    and "length (filePathBuff p) = SRCP_ARRAY_SIZE" and "rq c = Seg t # es" and "all_writes c"
  obtains c' p' where "srcp_process_client env b c p = copy_for_client env b c' p'"
    "cstr (filePathBuff p') = t" "disk p' = disk p" "rq c' = es" "all_writes c'"
    "sent c' = sent c @ confirm_msg (hd t)"
proof -
  let ?c = "c\<lparr>rq := es\<rparr>" and ?b = "(splice (filePathBuff p) 0 t)[length t := nul]"
  let ?p = "printf (''message from client: '' @ t @ nl) p"
  obtain q where w: "sys_write (confirm_msg (hd t)) ?c
      = (Wrote (length (confirm_msg (hd t))), ?c\<lparr>wq := q, sent := sent ?c @ confirm_msg (hd t)\<rparr>)"
    and q: "set q \<subseteq> set (wq ?c)"
    using sys_write_all [of ?c, where d = "confirm_msg (hd t)"] assms(6) by (auto simp: all_writes_def)
  have "conn_read SRCP_BUF_SIZE c = (Got t, ?c)"
    using assms(2,3,5) by (intro conn_read_record) auto
  then have "srcp_process_client env b c p
      = copy_for_client env b (?c\<lparr>wq := q, sent := sent ?c @ confirm_msg (hd t)\<rparr>) (?p\<lparr>filePathBuff := ?b\<rparr>)"
    using process_client_data_plain(1) [OF assms(1-4), of p] w assms(2,4)
    by (simp add: srcp_process_client_def answer_client_def store_def Let_def srcp_size_defs)
  then show thesis
    using that [of "?c\<lparr>wq := q, sent := sent ?c @ confirm_msg (hd t)\<rparr>" "?p\<lparr>filePathBuff := ?b\<rparr>"]
      process_client_data_plain [OF assms(1-4)] q assms(6)
    by (auto simp: all_writes_def printf_def)
qed

lemma cstr_Cons: "cstr b = x # t \<Longrightarrow> b ! 0 = x \<and> cstr (tl b) = t"
  by (cases b) (auto simp: cstr_def split: if_splits)

lemma server_sends_file:
  assumes "\<forall>c \<in> set path. isprint c" and "length path < SRCP_BUF_SIZE - 2"
    and "length (filePathBuff p) = SRCP_ARRAY_SIZE" and "length b = SRCP_ARRAY_SIZE"
    and "disk p path = Some f"
  obtains c' p' where
    "srcp_process_client plain_env b \<lparr>rq = [Seg (OPCODE_DOWNLOAD_TO_CLIENT # path)], wq = [], sent = []\<rparr> p
      = (Returns, c', p')"
    "sent c' = ''Download'' @ concat (blocks f)" "disk p' = disk p"
proof -
  let ?t = "OPCODE_DOWNLOAD_TO_CLIENT # path"
  let ?c = "\<lparr>rq = [Seg ?t], wq = [], sent = []\<rparr>"
  have t: "\<forall>c \<in> set ?t. isprint c" "length ?t \<le> SRCP_BUF_SIZE - 2" "?t \<noteq> []"
    using assms(1,2) by (auto simp: isprint_def)
  obtain c1 p1 where s: "srcp_process_client plain_env b ?c p = copy_for_client plain_env b c1 p1"
    "cstr (filePathBuff p1) = ?t" "disk p1 = disk p" "rq c1 = []" "all_writes c1"
    "sent c1 = sent ?c @ confirm_msg (hd ?t)"
    by (rule request_arrives [OF t assms(3), of ?c "[]" plain_env b]) (auto simp: all_writes_def)
  obtain c2 where "doTransfer plain_env b path c1 p1 = (Returns, c2, p1)"
    "sent c2 = sent c1 @ concat (blocks f)"
    using doTransfer_sends [of p1 path f b c1] s assms(4,5) by auto
  then show thesis
    using that s cstr_Cons [OF s(2)] by (simp add: copy_for_client_def confirm_msg_def)
qed

section \<open>The client asks for a file\<close>

definition plain_path :: "string \<Rightarrow> bool" where
  "plain_path s \<longleftrightarrow> (\<forall>c \<in> set s. isprint c \<and> c \<noteq> CHR '':'') \<and> length s < SRCP_BUF_SIZE - 2"

definition srcp_client_ok :: "'a srcp_client_scheme \<Rightarrow> bool" where
  "srcp_client_ok p \<longleftrightarrow> length (ipBuff p) = SRCP_ARRAY_SIZE
     \<and> length (serverFilePathBuff p) = SRCP_ARRAY_SIZE
     \<and> length (clientFilePathBuff p) = SRCP_ARRAY_SIZE"

lemma split_colon_simps:
  "CHR '':'' \<notin> set h \<Longrightarrow> split_colon (h @ CHR '':'' # t) = Some (h, t)"
  "CHR '':'' \<notin> set s \<Longrightarrow> split_colon s = None"
  by (simp_all add: split_colon_def first_stop)

lemma set_paths_fits:
  assumes "srcp_client_ok p" and "plain_path sp" and "plain_path cp" and "plain_path host"
  obtains p' where "set_paths opc sp cp host p = (Returns, p')" "opCode p' = opc"
    "cstr (tl (serverFilePathBuff p')) = sp" "serverFilePathBuff p' ! 0 = opc"
    "cstr (clientFilePathBuff p') = cp" "cstr (ipBuff p') = host" "disk p' = disk p" "out p' = out p"
    "opc \<noteq> nul \<Longrightarrow> cstr (serverFilePathBuff p') = opc # sp"
proof -
  have n: "nul \<notin> set sp" "nul \<notin> set cp" "nul \<notin> set host"
    using assms(2-4) isprint_not_nul unfolding plain_path_def by blast+
  have l: "length sp < 510" "length cp < 510" "length host < 510"
    using assms(2-4) by (simp_all add: plain_path_def srcp_size_defs)
  obtain x sb where sb: "serverFilePathBuff p = x # sb"
    using assms(1) by (cases "serverFilePathBuff p") (auto simp: srcp_client_ok_def srcp_size_defs)
  have "store ((serverFilePathBuff p)[0 := opc]) 1 (sp @ [nul])
      = Inr (opc # sp @ nul # drop (Suc (length sp)) sb)"
    using assms(1) l(1) by (simp add: sb store_def splice_def srcp_client_ok_def srcp_size_defs)
  then show thesis
    using that n l assms(1)
    by (simp add: set_paths_def store_str_def store_def splice_def cstr_append_nul srcp_client_ok_def
        srcp_size_defs cstr_append_nul [of "opc # sp", simplified])
qed

lemma client_starts:
  assumes "parsePath src dst p = (Returns, p1)" and "cstr (serverFilePathBuff p1) = t"
    and "length buffer = SRCP_BUF_SIZE" and "r \<noteq> []" and "length r \<le> DATA_BUF_SIZE"
  shows "main_srcp_clnt [prog, src, dst] (Inr s) (Inr ()) env buffer junk
      \<lparr>rq = Seg r # es, wq = [], sent = []\<rparr> p
    = start_copy env junk (splice buffer 0 r) (length r) \<lparr>rq = es, wq = [], sent = t\<rparr> p1"
  using assms
  by (simp add: main_srcp_clnt_def or_perror_def sys_write_def conn_read_def sys_read_Seg store_def
      srcp_size_defs DATA_BUF_SIZE_def)

lemma client_receives:
  assumes "srcp_client_ok p" and "plain_path path" and "plain_path host" and "plain_path dst"
    and "length buffer = SRCP_BUF_SIZE" and "length junk = SRCP_ARRAY_SIZE"
  shows "\<exists>c' p'. main_srcp_clnt [prog, host @ CHR '':'' # path, dst] (Inr s) (Inr ()) plain_env buffer junk
      \<lparr>rq = Seg ''Download'' # map Seg (blocks f), wq = [], sent = []\<rparr> p = (Exits 0, c', p')
    \<and> sent c' = OPCODE_DOWNLOAD_TO_CLIENT # path
    \<and> disk p' = (disk p)(dst \<mapsto> overlay (contents p dst) f)"
proof -
  have "CHR '':'' \<notin> set host" "CHR '':'' \<notin> set dst" using assms(3,4) by (auto simp: plain_path_def)
  then have pp: "parsePath (host @ CHR '':'' # path) dst p
      = set_paths OPCODE_DOWNLOAD_TO_CLIENT path dst host p"
    by (simp add: parsePath_def split_colon_simps)
  obtain p1 where p1: "parsePath (host @ CHR '':'' # path) dst p = (Returns, p1)"
    "opCode p1 = OPCODE_DOWNLOAD_TO_CLIENT" "cstr (clientFilePathBuff p1) = dst" "disk p1 = disk p"
    "cstr (serverFilePathBuff p1) = OPCODE_DOWNLOAD_TO_CLIENT # path"
    using set_paths_fits [OF assms(1,2,4,3), of OPCODE_DOWNLOAD_TO_CLIENT] pp by auto
  have "splice buffer 0 ''Download'' = ''Download'' @ drop (length ''Download'') buffer" by (simp add: splice_def)
  then show ?thesis
    using client_starts [OF p1(1,5) assms(5), of "''Download''" prog s plain_env junk
        "map Seg (blocks f)"] p1(2-4) assms(5,6)
      doReceive_stores [of "\<lparr>rq = map Seg (blocks f), wq = [], sent = OPCODE_DOWNLOAD_TO_CLIENT # path\<rparr>"
        f "[]" junk dst p1]
    by (simp add: start_copy_def DATA_BUF_SIZE_def Let_def contents_def srcp_size_defs)
qed

section \<open>An upload\<close>

text \<open>\<^verbatim>\<open>parsePath\<close> hands the server the local path and keeps the remote one for itself.\<close>

lemma client_uploads:
  assumes "srcp_client_ok p" and "plain_path src" and "plain_path host" and "plain_path path"
    and "length buffer = SRCP_BUF_SIZE" and "disk p path = None"
  shows "\<exists>c' p'. main_srcp_clnt [prog, src, host @ CHR '':'' # path] (Inr s) (Inr ()) plain_env buffer junk
      \<lparr>rq = [Seg ''Upload''], wq = [], sent = []\<rparr> p = (Exits 1, c', p')
    \<and> sent c' = OPCODE_UPLOAD_TO_SERVER # src
    \<and> out p' = out p @ ''open input file failed: '' @ path @ nl"
proof -
  have "CHR '':'' \<notin> set host" "CHR '':'' \<notin> set src" using assms(2,3) by (auto simp: plain_path_def)
  then have pp: "parsePath src (host @ CHR '':'' # path) p
      = set_paths OPCODE_UPLOAD_TO_SERVER src path host p"
    by (simp add: parsePath_def split_colon_simps)
  obtain p1 where p1: "parsePath src (host @ CHR '':'' # path) p = (Returns, p1)"
    "opCode p1 = OPCODE_UPLOAD_TO_SERVER" "cstr (clientFilePathBuff p1) = path" "disk p1 = disk p"
    "cstr (serverFilePathBuff p1) = OPCODE_UPLOAD_TO_SERVER # src" "out p1 = out p"
    using set_paths_fits [OF assms(1,2,4,3), of OPCODE_UPLOAD_TO_SERVER] pp by auto
  have "splice buffer 0 ''Upload'' = ''Upload'' @ drop (length ''Upload'') buffer"
    by (simp add: splice_def)
  then show ?thesis
    using client_starts [OF p1(1,5) assms(5), of "''Upload''" prog s plain_env junk "[]"]
      p1(2-4,6) assms(5,6)
    by (simp add: start_copy_def DATA_BUF_SIZE_def Let_def srcp_size_defs doTransfer_def
        open_missing printf_exit_def printf_def)
qed

section \<open>Properties\<close>

text \<open>C40: A download copies the file: the server that gets the request of the client sends its
  confirmation and the records of the file, and the client that reads each of them in one piece leaves
  the file's bytes at the destination and ends with status 0; what a longer old file at the
  destination held behind them stays there, because it is not truncated.  The path, the host and the
  destination are names of fewer than 510 printable characters without a colon.\<close>

theorem srcp_download_copies_file:
  assumes "plain_path path" and "plain_path host" and "plain_path dst"
    and "length (filePathBuff ps) = SRCP_ARRAY_SIZE" and "length b = SRCP_ARRAY_SIZE"
    and "disk ps path = Some f"
    and "srcp_client_ok pc" and "length buffer = SRCP_BUF_SIZE" and "length junk = SRCP_ARRAY_SIZE"
  shows "\<exists>cs ps' cc pc'.
     main_srcp_clnt [prog, host @ CHR '':'' # path, dst] (Inr s) (Inr ()) plain_env buffer junk
       \<lparr>rq = Seg ''Download'' # map Seg (blocks f), wq = [], sent = []\<rparr> pc = (Exits 0, cc, pc')
   \<and> disk pc' = (disk pc)(dst \<mapsto> overlay (contents pc dst) f)
   \<and> srcp_process_client plain_env b \<lparr>rq = [Seg (sent cc)], wq = [], sent = []\<rparr> ps = (Returns, cs, ps')
   \<and> sent cs = ''Download'' @ concat (blocks f)"
proof -
  have p: "\<forall>c \<in> set path. isprint c" "length path < SRCP_BUF_SIZE - 2"
    using assms(1) by (auto simp: plain_path_def)
  show ?thesis
    using client_receives [OF assms(7,1,2,3,8,9), of prog s f]
      server_sends_file [OF p assms(4,5,6)] by metis
qed

definition demo_srv :: srcp_server where
  "demo_srv = \<lparr>inp = [], out = [], err = [], daemon_proc = False, slog = [], errnum = EIO,
     disk = [''a'' \<mapsto> ''hello''], str = replicate 80 nul, filePathBuff = replicate SRCP_ARRAY_SIZE nul\<rparr>"

definition demo_clnt :: srcp_client where
  "demo_clnt = \<lparr>inp = [], out = [], err = [], daemon_proc = False, slog = [], errnum = EIO,
     disk = Map.empty, ipBuff = replicate SRCP_ARRAY_SIZE nul,
     serverFilePathBuff = replicate SRCP_ARRAY_SIZE nul,
     clientFilePathBuff = replicate SRCP_ARRAY_SIZE nul, opCode = nul\<rparr>"

theorem srcp_download_copies_file_witness:
  "\<exists>cs ps' cc pc'.
     main_srcp_clnt [''srcp'', ''10.0.0.1'' @ CHR '':'' # ''a'', ''b''] (Inr 3) (Inr ()) plain_env
       (replicate SRCP_BUF_SIZE nul) (replicate SRCP_ARRAY_SIZE nul)
       \<lparr>rq = Seg ''Download'' # map Seg (blocks ''hello''), wq = [], sent = []\<rparr> demo_clnt = (Exits 0, cc, pc')
   \<and> disk pc' = (disk demo_clnt)(''b'' \<mapsto> ''hello'')
   \<and> srcp_process_client plain_env (replicate SRCP_ARRAY_SIZE nul)
       \<lparr>rq = [Seg (sent cc)], wq = [], sent = []\<rparr> demo_srv = (Returns, cs, ps')
   \<and> sent cs = ''Download'' @ concat (blocks ''hello'')"
  using srcp_download_copies_file [of "''a''" "''10.0.0.1''" "''b''" demo_srv
      "replicate SRCP_ARRAY_SIZE nul" "''hello''" demo_clnt "replicate SRCP_BUF_SIZE nul"
      "replicate SRCP_ARRAY_SIZE nul" "''srcp''" 3]
  by (simp add: plain_path_def isprint_def demo_srv_def demo_clnt_def srcp_client_ok_def contents_def
      srcp_size_defs)

text \<open>A read that returns only a part of the last record truncates the copy without notice: the
  receiver looks for the flag at the start of what a read returns, so it stops behind the part, reports
  success and never sees the rest, although the bytes on the wire are those of the whole file.\<close>

theorem srcp_short_read_truncates:
  assumes "0 < k" "k \<le> length f" "length f < SRCP_BUF_SIZE - 1" "length b = SRCP_ARRAY_SIZE"
  shows "[REQ_TERMINATOR] @ take (k - 1) f @ drop (k - 1) f = concat (blocks f)
     \<and> doReceive plain_env b path
         \<lparr>rq = [Seg (REQ_TERMINATOR # take (k - 1) f), Seg (drop (k - 1) f)], wq = [], sent = []\<rparr> p
       = (Returns, \<lparr>rq = [Seg (drop (k - 1) f)], wq = [], sent = []\<rparr>,
          p\<lparr>disk := (disk p)(path \<mapsto> overlay (contents p path) (take (k - 1) f))\<rparr>)
     \<and> take (k - 1) f \<noteq> f"
proof -
  have "length (take (k - 1) f) < SRCP_BUF_SIZE - 1" using assms by auto
  then have "blocks (take (k - 1) f) = [REQ_TERMINATOR # take (k - 1) f]" by (simp add: blocks.simps)
  then have "doReceive plain_env b path
         \<lparr>rq = [Seg (REQ_TERMINATOR # take (k - 1) f), Seg (drop (k - 1) f)], wq = [], sent = []\<rparr> p
       = (Returns, \<lparr>rq = [Seg (drop (k - 1) f)], wq = [], sent = []\<rparr>,
          p\<lparr>disk := (disk p)(path \<mapsto> overlay (contents p path) (take (k - 1) f))\<rparr>)"
    using doReceive_stores [of "\<lparr>rq = [Seg (REQ_TERMINATOR # take (k - 1) f), Seg (drop (k - 1) f)],
        wq = [], sent = []\<rparr>" "take (k - 1) f" "[Seg (drop (k - 1) f)]" b path p] assms(4) by simp
  moreover have "length (take (k - 1) f) < length f" using assms(1,2) by auto
  ultimately show ?thesis using assms(3) by (auto simp: blocks.simps)
qed

theorem srcp_short_read_truncates_witness:
  "doReceive plain_env (replicate SRCP_ARRAY_SIZE nul) ''b''
     \<lparr>rq = [Seg ''The'', Seg ''llo''], wq = [], sent = []\<rparr> demo_clnt
   = (Returns, \<lparr>rq = [Seg ''llo''], wq = [], sent = []\<rparr>,
      demo_clnt\<lparr>disk := (disk demo_clnt)(''b'' \<mapsto> ''he'')\<rparr>)"
  using srcp_short_read_truncates [of 3 "''hello''" "replicate SRCP_ARRAY_SIZE nul" "''b''" demo_clnt]
  by (simp add: srcp_size_defs contents_def demo_clnt_def)

text \<open>An upload uses the two paths the wrong way round: asked to copy the local file \<open>src\<close> to
  \<open>host:path\<close>, the client sends \<open>src\<close> as the path on the server and then opens \<open>path\<close> on its own side;
  where no such file exists it fails, whatever \<open>src\<close> holds.\<close>

theorem srcp_upload_swaps_paths:
  assumes "srcp_client_ok p" and "plain_path src" and "plain_path host" and "plain_path path"
    and "length buffer = SRCP_BUF_SIZE" and "disk p src = Some f" and "disk p path = None"
  shows "\<exists>c' p'. main_srcp_clnt [prog, src, host @ CHR '':'' # path] (Inr s) (Inr ()) plain_env buffer junk
      \<lparr>rq = [Seg ''Upload''], wq = [], sent = []\<rparr> p = (Exits 1, c', p')
    \<and> sent c' = OPCODE_UPLOAD_TO_SERVER # src
    \<and> out p' = out p @ ''open input file failed: '' @ path @ nl"
  using assms(1-5,7) by (rule client_uploads)

theorem srcp_upload_swaps_paths_witness:
  "\<exists>c' p'. main_srcp_clnt [''srcp'', ''a'', ''10.0.0.1'' @ CHR '':'' # ''b''] (Inr 3) (Inr ()) plain_env
      (replicate SRCP_BUF_SIZE nul) [] \<lparr>rq = [Seg ''Upload''], wq = [], sent = []\<rparr>
      (demo_clnt\<lparr>disk := [''a'' \<mapsto> ''x'']\<rparr>) = (Exits 1, c', p')
    \<and> sent c' = ''Ua'' \<and> out p' = ''open input file failed: b'' @ nl"
  using srcp_upload_swaps_paths [of "demo_clnt\<lparr>disk := [''a'' \<mapsto> ''x'']\<rparr>" "''a''" "''10.0.0.1''" "''b''"
      "replicate SRCP_BUF_SIZE nul" "''x''" "''srcp''" 3 "[]"]
  by (simp add: plain_path_def isprint_def demo_clnt_def srcp_client_ok_def srcp_size_defs)

text \<open>Whatever a client sends, the server's array then holds a C string of at most 510 printable
  characters without a newline, and nothing is written past the array.\<close>

theorem srcp_request_is_cleaned:
  assumes "length buffer = SRCP_ARRAY_SIZE"
  shows "\<exists>b. srcp_process_client_data buffer n p
       = Inr (b ! 0, b, printf (''message from client: '' @ cstr b @ nl) p)
     \<and> length b = SRCP_ARRAY_SIZE \<and> length (cstr b) = min n (SRCP_BUF_SIZE - 2)
     \<and> (\<forall>c \<in> set (cstr b). isprint c \<and> c \<noteq> CHR 0x0A)"
proof -
  let ?n = "min n (SRCP_BUF_SIZE - 2)"
  let ?l = "clean_loop ?n buffer"
  have n: "?n < length buffer" using assms by (simp add: srcp_size_defs)
  have pr: "\<forall>c \<in> set (take ?n ?l). isprint c \<and> c \<noteq> CHR 0x0A" using clean_loop_prints by blast
  then have z: "nul \<notin> set (take ?n ?l)" using isprint_not_nul by blast
  have u: "?l[?n := nul] = take ?n ?l @ nul # drop (Suc ?n) ?l"
    using n by (simp add: upd_conv_take_nth_drop)
  have c: "cstr (?l[?n := nul]) = take ?n ?l" using z by (simp add: u cstr_append_nul)
  have m: "(if SRCP_BUF_SIZE - 2 < n then SRCP_BUF_SIZE - 2 else n) = ?n" by simp
  have d: "srcp_process_client_data buffer n p = Inr (?l[?n := nul] ! 0, ?l[?n := nul],
      printf (''message from client: '' @ cstr (?l[?n := nul]) @ nl) p)"
    unfolding srcp_process_client_data_def m Let_def using n by (simp only: not_le [symmetric] if_False)
  have "length (cstr (?l[?n := nul])) = ?n" unfolding c using n by simp
  with d c pr assms show ?thesis by (intro exI [of _ "?l[?n := nul]"]) simp
qed

theorem srcp_request_is_cleaned_witness:
  "\<exists>b. srcp_process_client_data (''U'' @ replicate 521 nul) 600 demo_srv
       = Inr (b ! 0, b, printf (''message from client: '' @ cstr b @ nl) demo_srv)
     \<and> length b = SRCP_ARRAY_SIZE \<and> length (cstr b) = 510"
proof -
  have "length (''U'' @ replicate 521 nul) = SRCP_ARRAY_SIZE" by (simp add: srcp_size_defs)
  from srcp_request_is_cleaned [OF this, of 600 demo_srv] obtain b where
    "srcp_process_client_data (''U'' @ replicate 521 nul) 600 demo_srv
       = Inr (b ! 0, b, printf (''message from client: '' @ cstr b @ nl) demo_srv)"
    "length b = SRCP_ARRAY_SIZE" "length (cstr b) = min 600 (SRCP_BUF_SIZE - 2)" by blast
  then show ?thesis by (intro exI [of _ b] conjI) (simp_all add: SRCP_BUF_SIZE_def)
qed

end
