(* ===== verification/Sreg.thy ===== *)
theory Sreg
  imports Srcp
begin

text \<open>
  The registration program of \<^verbatim>\<open>SampleCode/simple_reg\<close>: a server that checks and logs one message of
  each client and answers OK or NOK, and its client.
\<close>

section \<open>The server: sreg_srv.c\<close>

definition SREG_PORT :: "16 word" where "SREG_PORT = 20515"
definition SREG_BUF_SIZE :: nat where "SREG_BUF_SIZE = 512"
definition log_file_name :: string where "log_file_name = ''sreg_log''"

record sreg_server = fproc +
  time_str :: string

text \<open>\<^verbatim>\<open>get_time_str\<close>, which is that of the copy program.\<close>

definition sreg_get_time_str :: "string \<Rightarrow> string \<Rightarrow> fault + string" where
  "sreg_get_time_str ct buf =
     (case store_str buf (nl @ ct) of
        Inl f \<Rightarrow> Inl f
      | Inr s \<Rightarrow> Inr (s[length (nl @ ct) - 1 := nul]))"

text \<open>\<^verbatim>\<open>strstr(s, pat)\<close> finds something.\<close>

fun contains :: "string \<Rightarrow> string \<Rightarrow> bool" where
  "contains pat [] = (pat = [])"
| "contains pat (c # s) = (take (length pat) (c # s) = pat \<or> contains pat s)"

text \<open>
  The cleaning loop is that of the copy program (there with the replacement character written out).
  The result tells whether the message is valid.
\<close>

definition sreg_process_reg_data ::
    "fenv \<Rightarrow> string \<Rightarrow> nat \<Rightarrow> 'a fproc_scheme \<Rightarrow> (stop \<times> 'a fproc_scheme) + (bool \<times> 'a fproc_scheme)" where
  "sreg_process_reg_data env buf msg_size p =
     (let n = (if SREG_BUF_SIZE - 2 < msg_size then SREG_BUF_SIZE - 2 else msg_size) in
      if length buf \<le> n + 1 then Inl (Undef Overrun, p)
      else
        (let b = (clean_loop n buf)[n + 1 := nul];
             result = (contains ''name'' (cstr b) \<and> contains ''id'' (cstr b))
         in case open_err env log_file_name True of
              Some e \<Rightarrow> Inl (perror_exit 1 (''failed to open log file'' @ nl) e p)
            | None \<Rightarrow> Inr (result, append_to log_file_name (''Received msg -- '' @ cstr b @ nl) p)))"

definition sreg_answer ::
    "fenv \<Rightarrow> string \<Rightarrow> nat \<Rightarrow> conn \<Rightarrow> 'a fproc_scheme \<Rightarrow> stop \<times> conn \<times> 'a fproc_scheme" where
  "sreg_answer env buf n c p =
     (case sreg_process_reg_data env buf n p of
        Inl (s, p1) \<Rightarrow> (s, c, p1)
      | Inr (result, p1) \<Rightarrow>
          (case sys_write (if result then ''OK'' else ''NOK'') c of
             (WrFail e, c1) \<Rightarrow>
               (case perror_exit 1 (''socket write failed'' @ nl) e p1 of (s, p2) \<Rightarrow> (s, c1, p2))
           | (Wrote _, c1) \<Rightarrow> (Returns, c1, p1)))"

text \<open>The array of \<^verbatim>\<open>sreg_process_client\<close> holds what the stack held before, \<open>buf\<close>.\<close>

definition sreg_process_client ::
    "fenv \<Rightarrow> string \<Rightarrow> conn \<Rightarrow> 'a fproc_scheme \<Rightarrow> stop \<times> conn \<times> 'a fproc_scheme" where
  "sreg_process_client env buf c p =
     (case conn_read SREG_BUF_SIZE c of
        (Got d, c1) \<Rightarrow>
          (case store buf 0 d of
             Inl f \<Rightarrow> (Undef f, c1, p)
           | Inr b \<Rightarrow> sreg_answer env b (length d) c1 p)
      | (Eof, c1) \<Rightarrow> sreg_answer env buf 0 c1 p
      | (RdFail e, c1) \<Rightarrow>
          (case perror_exit 1 (''socket read failed'' @ nl) e p of (s, p1) \<Rightarrow> (s, c1, p1))
      | (RdWait, c1) \<Rightarrow> (Blocks, c1, p))"

text \<open>Each connection comes with what the stack holds where the array will be.\<close>

fun sreg_server_loop ::
    "fenv \<Rightarrow> (errno + (arrival \<times> string)) list \<Rightarrow> conn list \<Rightarrow> 'a sreg_server_scheme
     \<Rightarrow> stop \<times> conn list \<times> 'a sreg_server_scheme" where
  "sreg_server_loop env [] opened p = (Blocks, opened, p)"
| "sreg_server_loop env (Inl e # acc) opened p =
     (case perror_exit (- 1) (''accept errro'' @ nl) e p of (s, p1) \<Rightarrow> (s, opened, p1))"
| "sreg_server_loop env (Inr (a, buf) # acc) opened p =
     (case open_err env log_file_name True of
        Some e \<Rightarrow>
          (case perror_exit 1 (''failed to open log file'' @ nl) e p of (s, p1) \<Rightarrow> (s, opened, p1))
      | None \<Rightarrow>
          (case sreg_get_time_str (at_time a) (time_str p) of
             Inl f \<Rightarrow> (Undef f, opened, p)
           | Inr t \<Rightarrow>
               (let p1 = append_to log_file_name (cstr t @ '' -- '' @ inet_ntoa (sin_addr (came_from a))
                     @ ''.'' @ show_nat (unat (sin_port (came_from a))) @ nl) (p\<lparr>time_str := t\<rparr>)
                in case sreg_process_client env buf (socket a) p1 of
                     (s, c, p2) \<Rightarrow>
                       if s = Returns then sreg_server_loop env acc (opened @ [c]) p2
                       else (s, opened @ [c], p2))))"

definition main_sreg_srv ::
    "string list \<Rightarrow> skernel \<Rightarrow> fenv \<Rightarrow> (errno + (arrival \<times> string)) list \<Rightarrow> 'a sreg_server_scheme
     \<Rightarrow> stop \<times> conn list \<times> 'a sreg_server_scheme" where
  "main_sreg_srv argv k env acc p =
     (if length argv \<noteq> 1
      then (case printf_exit 1 (''Usage: '' @ argv ! 0 @ nl) p of (s, p1) \<Rightarrow> (s, [], p1))
      else or_perror (s_socket k) (''socket error'' @ nl) [] p (\<lambda>p.
        (case s_option k of
           Inl e \<Rightarrow>
             (case printf_exit (- 1) (''failed to set socket options'' @ nl) (p\<lparr>errnum := e\<rparr>) of
                (s, p1) \<Rightarrow> (s, [], p1))
         | Inr _ \<Rightarrow>
             or_perror (s_bind k) (''bind error'' @ nl) [] p (\<lambda>p.
             (case s_listen k of
                Inl e \<Rightarrow> (case perror_exit (- 1) (''listen errro'' @ nl) e p of (s, p1) \<Rightarrow> (s, [], p1))
              | Inr _ \<Rightarrow> sreg_server_loop env acc [] p)))))"

section \<open>The client: sreg_clnt.c\<close>

definition reg_msg :: string where "reg_msg = ''name = John Smith; id = 12345js''"
definition SREG_DATA_BUF_SIZE :: nat where "SREG_DATA_BUF_SIZE = 128"

text \<open>The end of \<^verbatim>\<open>main\<close>, with \<^verbatim>\<open>n\<close> bytes of the answer in the array.\<close>

definition show_answer :: "string \<Rightarrow> nat \<Rightarrow> 'a proc_scheme \<Rightarrow> stop \<times> 'a proc_scheme" where
  "show_answer buf n p =
     (if length buf \<le> n then (Undef Overrun, p)
      else (Exits 0, printf (''Received answer from the server: '' @ cstr (buf[n := nul]) @ nl) p))"

definition main_sreg_clnt ::
    "string list \<Rightarrow> errno + int \<Rightarrow> errno + unit \<Rightarrow> string \<Rightarrow> conn \<Rightarrow> 'a proc_scheme
     \<Rightarrow> stop \<times> conn \<times> 'a proc_scheme" where
  "main_sreg_clnt argv so co buf c p =
     (if length argv \<noteq> 2
      then (case printf_exit 1 (argv ! 0 @ '' [server_ip]'' @ nl) p of (s, p1) \<Rightarrow> (s, c, p1))
      else or_perror so (''socket error'' @ nl) c p (\<lambda>p.
           or_perror co (''connect error'' @ nl) c p (\<lambda>p.
             (case sys_write reg_msg c of
                (WrFail e, c1) \<Rightarrow>
                  (case perror_exit 1 (''socket write failed'' @ nl) e p of (s, p1) \<Rightarrow> (s, c1, p1))
              | (Wrote _, c1) \<Rightarrow>
                  (case conn_read SREG_DATA_BUF_SIZE c1 of
                     (Got d, c2) \<Rightarrow>
                       (case store buf 0 d of
                          Inl f \<Rightarrow> (Undef f, c2, p)
                        | Inr b \<Rightarrow> (case show_answer b (length d) p of (s, p1) \<Rightarrow> (s, c2, p1)))
                   | (Eof, c2) \<Rightarrow> (case show_answer buf 0 p of (s, p1) \<Rightarrow> (s, c2, p1))
                   | (RdFail e, c2) \<Rightarrow>
                       (case perror_exit 1 (''socket read failed'' @ nl) e p of
                          (s, p1) \<Rightarrow> (s, c2, p1))
                   | (RdWait, c2) \<Rightarrow> (Blocks, c2, p))))))"

section \<open>What a message does\<close>

text \<open>What the cleaning loop makes of a character.\<close>

definition clean :: "char \<Rightarrow> char" where
  "clean c = (if isprint c then c else CHR ''-'')"

lemma clean_loop_map: "n \<le> length b \<Longrightarrow> clean_loop n b = map clean (take n b) @ drop n b"
  by (induction n b rule: clean_loop.induct) (auto simp: clean_def isprint_def)

lemma clean_not_nul: "clean c \<noteq> nul"
  by (auto simp: clean_def isprint_def)

text \<open>
  The C string that is checked and logged: the cleaned message, and behind it the byte that was in
  the array already, unless that is a null character.
\<close>

definition stale :: "char \<Rightarrow> string" where
  "stale c = (if c = nul then [] else [c])"

lemma cleaned_string:
  assumes "n + 1 < length b"
  shows "cstr ((clean_loop n b)[n + 1 := nul]) = map clean (take n b) @ stale (b ! n)"
proof -
  have "drop n b = b ! n # b ! (n + 1) # drop (n + 2) b"
    using assms by (metis Cons_nth_drop_Suc Suc_eq_plus1 Suc_lessD add_2_eq_Suc')
  then have "(clean_loop n b)[n + 1 := nul] = map clean (take n b) @ b ! n # nul # drop (n + 2) b"
    using assms by (simp add: clean_loop_map list_update_append)
  moreover have "nul \<notin> set (map clean (take n b))" using clean_not_nul by (auto simp: eq_commute)
  ultimately show ?thesis
    using cstr_append_nul [of "map clean (take n b)" "nul # drop (n + 2) b"]
      cstr_append_nul [of "map clean (take n b) @ [b ! n]" "drop (n + 2) b"]
    by (auto simp: stale_def)
qed

lemma contains_front: "take (length pat) s = pat \<Longrightarrow> contains pat s"
  by (cases s) auto

lemma contains_mid: "contains pat (a @ pat @ z)"
  by (induction a) (auto intro: contains_front)

declare contains.simps [simp del]

lemma process_reg_data_eq:
  assumes "length buf = SREG_BUF_SIZE" and "open_err env log_file_name True = None"
    and k_def: "k = min n (SREG_BUF_SIZE - 2)"
    and t_def: "t = map clean (take k buf) @ stale (buf ! k)"
  shows "sreg_process_reg_data env buf n p
    = Inr (contains ''name'' t \<and> contains ''id'' t,
           append_to log_file_name (''Received msg -- '' @ t @ nl) p)"
proof -
  have m: "(if SREG_BUF_SIZE - 2 < n then SREG_BUF_SIZE - 2 else n) = k" by (simp add: k_def)
  have k: "k + 1 < length buf" using assms(1) by (simp add: k_def SREG_BUF_SIZE_def)
  then show ?thesis
    unfolding sreg_process_reg_data_def m Let_def cleaned_string [OF k] t_def [symmetric]
    using assms(2) by simp
qed

text \<open>A message that fits in one read.\<close>

lemma process_client_message:
  assumes "length buf = SREG_BUF_SIZE" and "open_err env log_file_name True = None"
    and "rq c = Seg m # es" and "m \<noteq> []" and "length m \<le> SREG_BUF_SIZE - 2" and "all_writes c"
  defines "t \<equiv> map clean m @ stale (buf ! length m)"
  shows "\<exists>q. sreg_process_client env buf c p
    = (Returns, c\<lparr>rq := es, wq := q, sent := sent c
         @ (if contains ''name'' t \<and> contains ''id'' t then ''OK'' else ''NOK'')\<rparr>,
       append_to log_file_name (''Received msg -- '' @ t @ nl) p)"
proof -
  let ?b = "splice buf 0 m"
  let ?ans = "if contains ''name'' t \<and> contains ''id'' t then ''OK'' else ''NOK''"
  obtain q where w: "sys_write ?ans (c\<lparr>rq := es\<rparr>)
      = (Wrote (length ?ans), c\<lparr>rq := es, wq := q, sent := sent c @ ?ans\<rparr>)"
    using sys_write_all [of "c\<lparr>rq := es\<rparr>", where d = ?ans] assms(6) by (auto simp: all_writes_def)
  have rd: "conn_read SREG_BUF_SIZE c = (Got m, c\<lparr>rq := es\<rparr>)"
    using assms(3-5) by (simp add: conn_read_def sys_read_Seg)
  have st: "store buf 0 m = Inr ?b" using assms(1,5) by (simp add: store_def SREG_BUF_SIZE_def)
  have l: "length ?b = SREG_BUF_SIZE" using assms(1,5) by (simp add: SREG_BUF_SIZE_def)
  have "take (length m) ?b = m" "?b ! length m = buf ! length m"
    using assms(1,5) by (simp_all add: splice_def nth_append SREG_BUF_SIZE_def)
  moreover have "min (length m) (SREG_BUF_SIZE - 2) = length m" using assms(5) by simp
  ultimately have "sreg_process_reg_data env ?b (length m) p
      = Inr (contains ''name'' t \<and> contains ''id'' t,
             append_to log_file_name (''Received msg -- '' @ t @ nl) p)"
    using process_reg_data_eq [OF l assms(2) refl refl, of "length m" p] by (simp add: t_def)
  then show ?thesis
    using w by (intro exI [of _ q]) (simp add: sreg_process_client_def rd st sreg_answer_def)
qed

section \<open>Properties\<close>

definition init_sreg :: sreg_server where
  "init_sreg = \<lparr>inp = [], out = [], err = [], daemon_proc = False, slog = [], errnum = EIO,
     disk = Map.empty, time_str = replicate 80 nul\<rparr>"

text \<open>For a message in one piece the server answers OK exactly when the cleaned message, followed
  by the byte that happened to be in its array behind it, holds both keywords, and it logs that text;
  so a stale byte can complete a keyword, and it can put a raw newline into the log.\<close>

theorem sreg_checks_one_byte_too_many:
  assumes "length buf = SREG_BUF_SIZE" and "open_err env log_file_name True = None"
    and "m \<noteq> []" and "length m \<le> SREG_BUF_SIZE - 2"
    and "t = map clean m @ stale (buf ! length m)"
  shows "\<exists>c' p'. sreg_process_client env buf \<lparr>rq = [Seg m], wq = [], sent = []\<rparr> p = (Returns, c', p')
    \<and> (sent c' = ''OK'' \<longleftrightarrow> contains ''name'' t \<and> contains ''id'' t) \<and> sent c' \<in> {''OK'', ''NOK''}
    \<and> contents p' log_file_name = contents p log_file_name @ ''Received msg -- '' @ t @ nl"
  using process_client_message [OF assms(1,2), of "\<lparr>rq = [Seg m], wq = [], sent = []\<rparr>" m "[]" p] assms(3-5)
  by (auto simp: all_writes_def append_to_def contents_def)

theorem sreg_checks_one_byte_too_many_witness:
  "\<exists>c' p'. sreg_process_client plain_env (replicate SREG_BUF_SIZE (CHR ''d''))
       \<lparr>rq = [Seg ''name i''], wq = [], sent = []\<rparr> init_sreg = (Returns, c', p') \<and> sent c' = ''OK''"
  using sreg_checks_one_byte_too_many [of "replicate SREG_BUF_SIZE (CHR ''d'')" plain_env "''name i''"
      "''name id''" init_sreg]
  by (auto simp: plain_env_def SREG_BUF_SIZE_def clean_def isprint_def stale_def contains.simps)

text \<open>A registration works: whatever is on the server's stack, it answers OK to what the client
  sends, and the client that gets this answer prints it and ends with status 0.\<close>

theorem sreg_registers:
  assumes "length buf = SREG_BUF_SIZE" and "open_err env log_file_name True = None"
    and "length cbuf = SREG_DATA_BUF_SIZE"
  shows "\<exists>cs ps' cc pc'.
     main_sreg_clnt [prog, ip] (Inr s) (Inr ()) cbuf \<lparr>rq = [Seg (sent cs)], wq = [], sent = []\<rparr> pc
       = (Exits 0, cc, pc')
   \<and> sreg_process_client env buf \<lparr>rq = [Seg (sent cc)], wq = [], sent = []\<rparr> ps = (Returns, cs, ps')
   \<and> out pc' = out pc @ ''Received answer from the server: OK'' @ nl"
proof -
  define t where "t = map clean reg_msg @ stale (buf ! length reg_msg)"
  have m: "map clean reg_msg = reg_msg" by (simp add: reg_msg_def clean_def isprint_def)
  define z where "z = stale (buf ! length reg_msg)"
  have t1: "t = [] @ ''name'' @ ('' = John Smith; id = 12345js'' @ z)"
    and t2: "t = ''name = John Smith; '' @ ''id'' @ ('' = 12345js'' @ z)"
    unfolding t_def m z_def [symmetric] by (simp_all add: reg_msg_def)
  have "contains ''name'' t" by (subst t1) (rule contains_mid)
  moreover have "contains ''id'' t" by (subst t2) (rule contains_mid)
  ultimately have k: "contains ''name'' t \<and> contains ''id'' t" by blast
  let ?c = "\<lparr>rq = [Seg reg_msg], wq = [], sent = []\<rparr>"
  obtain q where srv: "sreg_process_client env buf ?c ps = (Returns, \<lparr>rq = [], wq = q, sent = ''OK''\<rparr>,
      append_to log_file_name (''Received msg -- '' @ t @ nl) ps)"
    using process_client_message [OF assms(1,2), of ?c reg_msg "[]" ps] k
    by (auto simp: t_def all_writes_def reg_msg_def SREG_BUF_SIZE_def)
  have "cstr ((splice cbuf 0 ''OK'')[2 := nul]) = ''OK''"
    using assms(3) cstr_append_nul [of "''OK''" "drop 3 cbuf"]
    by (simp add: splice_def list_update_append SREG_DATA_BUF_SIZE_def Cons_nth_drop_Suc [symmetric]
        drop_Suc_Cons numeral_2_eq_2 numeral_3_eq_3)
  then have "main_sreg_clnt [prog, ip] (Inr s) (Inr ()) cbuf \<lparr>rq = [Seg ''OK''], wq = [], sent = []\<rparr> pc
       = (Exits 0, \<lparr>rq = [], wq = [], sent = reg_msg\<rparr>,
          printf (''Received answer from the server: OK'' @ nl) pc)"
    using assms(3)
    by (simp add: main_sreg_clnt_def or_perror_def sys_write_def conn_read_def sys_read_Seg store_def
        show_answer_def SREG_DATA_BUF_SIZE_def numeral_2_eq_2)
  then have "main_sreg_clnt [prog, ip] (Inr s) (Inr ()) cbuf
      \<lparr>rq = [Seg (sent \<lparr>rq = [], wq = q, sent = ''OK''\<rparr>)], wq = [], sent = []\<rparr> pc
       = (Exits 0, \<lparr>rq = [], wq = [], sent = reg_msg\<rparr>,
          printf (''Received answer from the server: OK'' @ nl) pc)"
    by simp
  moreover have "sreg_process_client env buf
      \<lparr>rq = [Seg (sent \<lparr>rq = [], wq = [], sent = reg_msg\<rparr>)], wq = [], sent = []\<rparr> ps
      = (Returns, \<lparr>rq = [], wq = q, sent = ''OK''\<rparr>,
          append_to log_file_name (''Received msg -- '' @ t @ nl) ps)"
    using srv by simp
  moreover have "out (printf (''Received answer from the server: OK'' @ nl) pc)
      = out pc @ ''Received answer from the server: OK'' @ nl" by (simp add: printf_def)
  ultimately show ?thesis by blast
qed

theorem sreg_registers_witness:
  "\<exists>cs ps' cc pc'.
     main_sreg_clnt [''sreg_clnt'', ''10.0.0.1''] (Inr 3) (Inr ()) (replicate SREG_DATA_BUF_SIZE nul)
       \<lparr>rq = [Seg (sent cs)], wq = [], sent = []\<rparr> init_sreg = (Exits 0, cc, pc')
   \<and> sreg_process_client plain_env (replicate SREG_BUF_SIZE (CHR ''d''))
       \<lparr>rq = [Seg (sent cc)], wq = [], sent = []\<rparr> init_sreg = (Returns, cs, ps')
   \<and> out pc' = out init_sreg @ ''Received answer from the server: OK'' @ nl"
  by (rule sreg_registers) (simp_all add: plain_env_def)

text \<open>An answer that fills the client's array makes it write the null character one byte past the
  end.\<close>

theorem sreg_client_overruns:
  assumes "length buf = SREG_DATA_BUF_SIZE" and "SREG_DATA_BUF_SIZE \<le> length answer"
  shows "\<exists>c'. main_sreg_clnt [prog, ip] (Inr s) (Inr ()) buf \<lparr>rq = [Seg answer], wq = [], sent = []\<rparr> p
    = (Undef Overrun, c', p)"
proof -
  obtain es where "sys_read SREG_DATA_BUF_SIZE [Seg answer] = (Got (take SREG_DATA_BUF_SIZE answer), es)"
    using assms(2) by (cases answer; cases "length answer = SREG_DATA_BUF_SIZE")
      (auto simp: SREG_DATA_BUF_SIZE_def)
  then show ?thesis
    using assms
    by (simp add: main_sreg_clnt_def or_perror_def sys_write_def conn_read_def store_def show_answer_def
        splice_def)
qed

theorem sreg_client_overruns_witness:
  "\<exists>c'. main_sreg_clnt [''sreg_clnt'', ''10.0.0.1''] (Inr 3) (Inr ()) (replicate 128 nul)
      \<lparr>rq = [Seg (replicate 200 (CHR ''x''))], wq = [], sent = []\<rparr> init_sreg = (Undef Overrun, c', init_sreg)"
  by (rule sreg_client_overruns) (simp_all add: SREG_DATA_BUF_SIZE_def)

end
