(* ===== verification/Testprog.thy ===== *)
theory Testprog
  imports Posix_Files Posix_Net
begin

text \<open>
  The programs of \<^verbatim>\<open>SampleCode/testprog\<close>: the copy of a file (\<^verbatim>\<open>file_cp.c\<close>), non-blocking input
  with signals (\<^verbatim>\<open>async_io.c\<close>), and the small tests of byte order, addresses and file names.
\<close>

unbundle bit_operations_syntax

section \<open>file_cp.c\<close>

definition CP_BUF_SIZE :: nat where "CP_BUF_SIZE = 4096"

text \<open>
  The copy loop and the end of \<^verbatim>\<open>main\<close>.  The array has the size of a read, so the block that is
  written is what was read.  A write of nothing leaves \<^verbatim>\<open>errno\<close> as it was.
\<close>

function copy_loop ::
    "rd_event list \<Rightarrow> conn \<Rightarrow> 'a proc_scheme \<Rightarrow> stop \<times> conn \<times> 'a proc_scheme" where
  "copy_loop es fd p =
     (case sys_read CP_BUF_SIZE es of
        (Got d, es') \<Rightarrow>
          (case sys_write d fd of
             (WrFail e, fd1) \<Rightarrow>
               (case perror_exit 4 (''write failed'' @ nl) e p of (s, p1) \<Rightarrow> (s, fd1, p1))
           | (Wrote n, fd1) \<Rightarrow>
               if n = 0
               then (case perror_exit 4 (''write failed'' @ nl) (errnum p) p of (s, p1) \<Rightarrow> (s, fd1, p1))
               else copy_loop es' fd1 p)
      | (Eof, es') \<Rightarrow> (Exits 0, fd, p)
      | (RdFail e, es') \<Rightarrow>
          (case printf_exit 5 (''read failed'' @ nl) (p\<lparr>errnum := e\<rparr>) of (s, p1) \<Rightarrow> (s, fd, p1))
      | (RdWait, es') \<Rightarrow> (Blocks, fd, p))"
  by pat_completeness auto
termination
  by (relation "measure (\<lambda>(es, _). ev_size es)")
    (auto simp: CP_BUF_SIZE_def intro!: sys_read_size_less [OF sym])

declare copy_loop.simps [simp del]

definition main_file_cp ::
    "string list \<Rightarrow> fenv \<Rightarrow> 'a fproc_scheme \<Rightarrow> stop \<times> 'a fproc_scheme" where
  "main_file_cp argv env p =
     (if length argv \<noteq> 3
      then printf_exit 1 (''Usage: '' @ argv ! 0 @ '' input_file output_file'' @ nl) p
      else
        (case open_rd env (argv ! 1) p of
           Inl e \<Rightarrow> printf_exit 2 (''open failed: '' @ argv ! 1 @ nl) (p\<lparr>errnum := e\<rparr>)
         | Inr es \<Rightarrow>
             (case open_wr env (argv ! 2) p of
                Inl e \<Rightarrow> printf_exit 3 (''open failed: '' @ argv ! 2 @ nl) (p\<lparr>errnum := e\<rparr>)
              | Inr (old, fd) \<Rightarrow>
                  (case copy_loop es fd p of
                     (s, fd1, p1) \<Rightarrow> (s, put_file (argv ! 2) old fd1 p1)))))"

section \<open>async_io.c\<close>

definition IO_BUF_SIZE :: nat where "IO_BUF_SIZE = 80"

text \<open>
  The state: the flag \<^verbatim>\<open>fExit\<close>, the status flags of the standard input, the array, what the input
  will deliver, and what was written to the standard output directly, past the stream.
\<close>

record async = proc +
  fExit :: int
  status_flags :: "32 word"
  buf :: string
  input :: "rd_event list"
  tty :: string

definition O_NONBLOCK :: "32 word" where "O_NONBLOCK = 0x800"

text \<open>The array \<^verbatim>\<open>promptStr\<close>; \<^verbatim>\<open>sizeof\<close> counts its null character.\<close>

definition promptStr :: string where
  "promptStr = nl @ ''Please input (q to quit)'' @ nl @ [nul]"

text \<open>
  \<^verbatim>\<open>set_fl\<close> and \<^verbatim>\<open>clr_fl\<close>; \<open>g\<close> and \<open>s\<close> tell which of the two calls of \<^verbatim>\<open>fcntl\<close> fails.
\<close>

definition set_fl :: "errno option \<Rightarrow> errno option \<Rightarrow> 32 word \<Rightarrow> 'a async_scheme \<Rightarrow> stop \<times> 'a async_scheme" where
  "set_fl g s flags p =
     (case g of
        Some e \<Rightarrow> perror_exit (- 1) ''fcntl F_GETFL error'' e p
      | None \<Rightarrow>
          (let p1 = printf (''set_fl: flags = 0x'' @ show_hex (unat (status_flags p)) @ nl) p in
           case s of
             Some e \<Rightarrow> perror_exit (- 1) ''fcntl F_SETFL error'' e p1
           | None \<Rightarrow> (Returns, p1\<lparr>status_flags := status_flags p OR flags\<rparr>)))"

definition clr_fl :: "errno option \<Rightarrow> errno option \<Rightarrow> 32 word \<Rightarrow> 'a async_scheme \<Rightarrow> stop \<times> 'a async_scheme" where
  "clr_fl g s flags p =
     (case g of
        Some e \<Rightarrow> perror_exit (- 1) ''fcntl F_GETFL error'' e p
      | None \<Rightarrow>
          (let p1 = printf (''clr_fl: flags = 0x'' @ show_hex (unat (status_flags p)) @ nl) p in
           case s of
             Some e \<Rightarrow> perror_exit (- 1) ''fcntl F_SETFL error'' e p1
           | None \<Rightarrow> (Returns, p1\<lparr>status_flags := status_flags p AND NOT flags\<rparr>)))"

definition sigHandler :: "'a async_scheme \<Rightarrow> 'a async_scheme" where
  "sigHandler p = p\<lparr>fExit := 1\<rparr>"

definition write_out :: "string \<Rightarrow> 'a async_scheme \<Rightarrow> 'a async_scheme" where
  "write_out d p = p\<lparr>tty := tty p @ d\<rparr>"

text \<open>
  One round of the loop of \<^verbatim>\<open>main\<close>.  The descriptor does not block: a read that would wait fails with
  \<^verbatim>\<open>EAGAIN\<close>.  At end of file the read returns 0 and the array keeps what it had.
\<close>

definition got_input :: "string \<Rightarrow> 'a async_scheme \<Rightarrow> stop \<times> 'a async_scheme" where
  "got_input d p =
     (case store (buf p) 0 d of
        Inl f \<Rightarrow> (Undef f, p)
      | Inr b \<Rightarrow>
          (let p1 = write_out d (p\<lparr>buf := b\<rparr>) in
           if b ! 0 = CHR ''q'' then (Returns, p1\<lparr>fExit := 1\<rparr>)
           else (Returns, write_out promptStr p1)))"

definition async_turn :: "bool \<Rightarrow> 'a async_scheme \<Rightarrow> stop \<times> 'a async_scheme" where
  "async_turn fVerbose p =
     (case sys_read IO_BUF_SIZE (input p) of
        (r, es) \<Rightarrow>
          (let p1 = p\<lparr>input := es\<rparr>;
               again = (Returns, if fVerbose then write_out ''.'' (p1\<lparr>errnum := EAGAIN\<rparr>)
                                 else p1\<lparr>errnum := EAGAIN\<rparr>)
           in case r of
                RdWait \<Rightarrow> again
              | RdFail e \<Rightarrow> if e = EAGAIN then again else perror_exit (- 1) ''read failed'' e p1
              | Eof \<Rightarrow> got_input [] p1
              | Got d \<Rightarrow> got_input d p1))"

text \<open>The loop; each element of the script tells whether a signal arrives before the next test.\<close>

fun async_loop :: "bool \<Rightarrow> bool list \<Rightarrow> 'a async_scheme \<Rightarrow> stop \<times> 'a async_scheme" where
  "async_loop fVerbose [] p = (Blocks, p)"
| "async_loop fVerbose (sg # sgs) p =
     (let p0 = (if sg then sigHandler p else p) in
      if fExit p0 \<noteq> 0 then (Returns, p0)
      else (case async_turn fVerbose p0 of
              (s, p1) \<Rightarrow> if s = Returns then async_loop fVerbose sgs p1 else (s, p1)))"

text \<open>The results of \<^verbatim>\<open>sigaction\<close> and \<^verbatim>\<open>fcntl\<close> that \<^verbatim>\<open>main\<close> meets.\<close>

record async_kernel =
  act_int :: "errno option"
  act_quit :: "errno option"
  get1 :: "errno option"
  set1 :: "errno option"
  get2 :: "errno option"
  set2 :: "errno option"

definition async_body :: "bool \<Rightarrow> async_kernel \<Rightarrow> bool list \<Rightarrow> 'a async_scheme \<Rightarrow> stop \<times> 'a async_scheme" where
  "async_body fVerbose k sgs p =
     (case set_fl (get1 k) (set1 k) O_NONBLOCK p of
        (s, p1) \<Rightarrow>
          if s \<noteq> Returns then (s, p1)
          else (case async_loop fVerbose sgs (write_out promptStr p1) of
                  (s, p2) \<Rightarrow>
                    if s \<noteq> Returns then (s, p2)
                    else (case clr_fl (get2 k) (set2 k) O_NONBLOCK p2 of
                            (s, p3) \<Rightarrow> (if s = Returns then Exits 0 else s, p3))))"

definition main_async_io ::
    "string list \<Rightarrow> async_kernel \<Rightarrow> bool list \<Rightarrow> 'a async_scheme \<Rightarrow> stop \<times> 'a async_scheme" where
  "main_async_io argv k sgs p =
     (if length argv \<noteq> 1 \<and> \<not> (length argv = 2 \<and> take 2 (argv ! 1) = ''-v'')
      then printf_exit 0 (''Usage: '' @ argv ! 0 @ '' [-v]'') p
      else
        (case act_int k of
           Some e \<Rightarrow> perror_exit (- 1) ''Failed to install handler for signal SIGINT'' e p
         | None \<Rightarrow>
             (case act_quit k of
                Some e \<Rightarrow> perror_exit (- 1) ''Failed to install handler for signal SIGQUIT'' e p
              | None \<Rightarrow> async_body (length argv = 2) k sgs p)))"

section \<open>The small tests\<close>

text \<open>
  The bytes of an integer in memory, lowest address first, for a machine of either byte order; as
  \<^verbatim>\<open>char\<close> they are sign extended when they are printed with \<^verbatim>\<open>%x\<close>.
\<close>

definition bytes32 :: "bool \<Rightarrow> 32 word \<Rightarrow> 8 word list" where
  "bytes32 little w =
     (let bs = [ucast w, ucast (drop_bit 8 w), ucast (drop_bit 16 w), ucast (drop_bit 24 w)]
      in if little then bs else rev bs)"

definition print_char_hex :: "8 word \<Rightarrow> string" where
  "print_char_hex b = show_hex (unat (scast b :: 32 word))"

definition main_byte_order :: "bool \<Rightarrow> 'a stdio_scheme \<Rightarrow> 'a stdio_scheme" where
  "main_byte_order little p =
     (let num = (0x1a2b3c4d :: 32 word); b = bytes32 little num in
      printf (''The bytes are (from low addr to high addr) '' @ print_char_hex (b ! 0) @ '' ''
          @ print_char_hex (b ! 1) @ '' '' @ print_char_hex (b ! 2) @ '' '' @ print_char_hex (b ! 3) @ nl)
        (printf (''The number is '' @ show_hex (unat num) @ '' (in hex), '' @ show_nat (unat num)
          @ '' (in decimal)'' @ nl) p))"

text \<open>The address is an integer in host order, which \<^verbatim>\<open>inet_ntoa\<close> reads byte by byte from memory.\<close>

definition main_inet_ntoa :: "bool \<Rightarrow> 'a stdio_scheme \<Rightarrow> stop \<times> 'a stdio_scheme" where
  "main_inet_ntoa little p =
     (let b = bytes32 little 0x010203ff in
      (Exits 0, printf (''The address is '' @ inet_ntoa (b ! 0, b ! 1, b ! 2, b ! 3) @ nl) p))"

text \<open>\<open>pton\<close> is \<^verbatim>\<open>inet_pton\<close>: the address as an integer of the host, or \<open>None\<close>.\<close>

definition main_inet_pton :: "(string \<Rightarrow> 32 word option) \<Rightarrow> 'a stdio_scheme \<Rightarrow> stop \<times> 'a stdio_scheme" where
  "main_inet_pton pton p =
     (case pton ''192.168.0.38'' of
        None \<Rightarrow> (Exits 1, printf (''inet_pton failed'' @ nl) p)
      | Some a \<Rightarrow>
          (Exits 0,
           printf (''the ip address is '' @ show_int (sint a) @ nl)
             (printf (''the ip address is 0x'' @ show_hex (unat a) @ nl) p)))"

definition main_srcp_filename :: "string list \<Rightarrow> 'a stdio_scheme \<Rightarrow> stop \<times> 'a stdio_scheme" where
  "main_srcp_filename argv p =
     (if length argv \<noteq> 2 then (Exits 1, printf (''Usage: '' @ argv ! 0 @ '' filename'' @ nl) p)
      else if CHR '':'' \<notin> set (argv ! 1)
      then (Exits 0, printf (''Invalid srcp file name: '' @ argv ! 1 @ nl) p)
      else
        (let addr = takeWhile (\<lambda>c. c \<noteq> CHR '':'') (argv ! 1);
             name = tl (dropWhile (\<lambda>c. c \<noteq> CHR '':'') (argv ! 1))
         in (Exits 0, printf (''File name: '' @ name @ nl) (printf (''Host address: '' @ addr @ nl) p))))"

section \<open>The copy loop\<close>

lemma copy_loop_copies:
  assumes "after es = Fin # es2" and "all_writes fd"
  shows "\<exists>fd'. copy_loop es fd p = (Exits 0, fd', p) \<and> sent fd' = sent fd @ payload es"
  using assms
proof (induction es fd p rule: copy_loop.induct)
  case (1 es fd p)
  show ?case
  proof (cases "payload es = []")
    case True
    then have "sys_read CP_BUF_SIZE es = (Eof, Fin # es2)"
      using "1.prems"(1) by (simp add: sys_read_after)
    then show ?thesis using True by (subst copy_loop.simps) simp
  next
    case False
    then obtain d es' where rd: "sys_read CP_BUF_SIZE es = (Got d, es')" by (rule sys_read_Got_ex)
    have d: "d \<noteq> []" "payload es = d @ payload es'" "after es' = after es"
      using sys_read_Got [OF rd] by (simp_all add: CP_BUF_SIZE_def)
    obtain q where w: "sys_write d fd = (Wrote (length d), fd\<lparr>wq := q, sent := sent fd @ d\<rparr>)"
      and q: "set q \<subseteq> set (wq fd)"
      using sys_write_all [OF "1.prems"(2)] by blast
    let ?fd = "fd\<lparr>wq := q, sent := sent fd @ d\<rparr>"
    have "all_writes ?fd" using q "1.prems"(2) by (auto simp: all_writes_def)
    from "1.IH" [OF rd [symmetric] refl w [symmetric] refl _ _ this] d(1,3) "1.prems"(1)
    obtain fd' where "copy_loop es' ?fd p = (Exits 0, fd', p)" "sent fd' = sent ?fd @ payload es'"
      by auto
    moreover have "copy_loop es fd p = copy_loop es' ?fd p"
      using rd w d(1) by (subst copy_loop.simps) simp
    ultimately show ?thesis using d(2) by simp
  qed
qed

lemma copy_loop_short:
  assumes "0 < k" "f \<noteq> []" "length f \<le> CP_BUF_SIZE"
  shows "copy_loop [Seg f, Fin] \<lparr>rq = [], wq = [WrShort k], sent = []\<rparr> p
    = (Exits 0, \<lparr>rq = [], wq = [], sent = take k f\<rparr>, p)"
proof -
  have "sys_read CP_BUF_SIZE [Seg f, Fin] = (Got f, [Fin])" using assms by (simp add: sys_read_Seg)
  moreover have "copy_loop [Fin] fd p = (Exits 0, fd, p)" for fd by (subst copy_loop.simps) simp
  ultimately show ?thesis using assms by (subst copy_loop.simps) (simp add: sys_write_def min_def)
qed

section \<open>Rounds of the asynchronous loop\<close>

lemma got_input_fits:
  assumes "length (buf p) = IO_BUF_SIZE" and "length d \<le> IO_BUF_SIZE"
  obtains p' where "got_input d p = (Returns, p')" "length (buf p') = IO_BUF_SIZE"
    "status_flags p' = status_flags p" "input p' = input p" "fExit p' = fExit p \<or> fExit p' = 1"
  using assms that
  by (cases "splice (buf p) 0 d ! 0 = CHR ''q''")
    (auto simp: got_input_def store_def write_out_def Let_def)

definition io_ok :: "'a async_scheme \<Rightarrow> bool" where
  "io_ok p \<longleftrightarrow> length (buf p) = IO_BUF_SIZE"

definition fatal :: "rd_event \<Rightarrow> bool" where
  "fatal e \<longleftrightarrow> (\<exists>x. e = RdErr x \<and> x \<noteq> EAGAIN)"

lemma sys_read_fatal:
  "sys_read n es = (r, es') \<Longrightarrow> \<not> (\<exists>e \<in> set es. fatal e) \<Longrightarrow>
   \<not> (\<exists>e \<in> set es'. fatal e) \<and> (\<forall>x. r = RdFail x \<longrightarrow> x = EAGAIN)"
  by (induction n es rule: sys_read.induct) (auto simp: fatal_def split: if_splits)

lemma async_turn_keeps:
  assumes "async_turn v p = (s, p')" and "io_ok p"
  shows "io_ok p'" "status_flags p' = status_flags p" "s \<in> {Returns, Exits (- 1)}"
    "\<not> (\<exists>e \<in> set (input p). fatal e) \<Longrightarrow> s = Returns \<and> \<not> (\<exists>e \<in> set (input p'). fatal e)"
proof -
  obtain r es where rd: "sys_read IO_BUF_SIZE (input p) = (r, es)" by (cases "sys_read IO_BUF_SIZE (input p)")
  let ?p = "p\<lparr>input := es\<rparr>"
  have l: "length d \<le> IO_BUF_SIZE" if "r = Got d" for d using sys_read_Got(3) rd that by blast
  have i: "length (buf ?p) = IO_BUF_SIZE" using assms(2) by (simp add: io_ok_def)
  note f = sys_read_fatal [OF rd]
  have "io_ok p' \<and> status_flags p' = status_flags p \<and> s \<in> {Returns, Exits (- 1)}
    \<and> (\<not> (\<exists>e \<in> set (input p). fatal e) \<longrightarrow> s = Returns \<and> \<not> (\<exists>e \<in> set (input p'). fatal e))"
  proof (cases r)
    case (Got d)
    with rd assms(1) have "got_input d ?p = (s, p')" by (simp add: async_turn_def)
    with got_input_fits [OF i l [OF Got]] f show ?thesis by (auto simp: io_ok_def)
  next
    case Eof
    with rd assms(1) have "got_input [] ?p = (s, p')" by (simp add: async_turn_def)
    with got_input_fits [OF i, of "[]"] f show ?thesis by (auto simp: io_ok_def)
  next
    case (RdFail e)
    with rd assms f show ?thesis
      by (auto simp: async_turn_def perror_exit_def perror_def eprintf_def write_out_def io_ok_def
          Let_def split: if_splits)
  next
    case RdWait
    with rd assms f show ?thesis
      by (auto simp: async_turn_def write_out_def io_ok_def Let_def split: if_splits)
  qed
  then show "io_ok p'" "status_flags p' = status_flags p" "s \<in> {Returns, Exits (- 1)}"
    "\<not> (\<exists>e \<in> set (input p). fatal e) \<Longrightarrow> s = Returns \<and> \<not> (\<exists>e \<in> set (input p'). fatal e)"
    by blast+
qed

lemma async_loop_keeps:
  assumes "async_loop v sgs p = (s, p')" and "io_ok p"
  shows "io_ok p' \<and> status_flags p' = status_flags p \<and> s \<in> {Returns, Exits (- 1), Blocks}"
  using assms
proof (induction v sgs p rule: async_loop.induct)
  case (2 v sg sgs p)
  let ?p = "if sg then sigHandler p else p"
  have ok: "io_ok ?p" "status_flags ?p = status_flags p"
    using "2.prems"(2) by (auto simp: io_ok_def sigHandler_def)
  obtain s1 p1 where t: "async_turn v ?p = (s1, p1)" by (cases "async_turn v ?p")
  show ?case
    using "2.IH" [OF refl _ t [symmetric]] "2.prems"(1) ok async_turn_keeps [OF t ok(1)]
    by (auto simp: Let_def t split: if_splits)
qed auto

lemma async_loop_signal:
  assumes "True \<in> set sgs" and "io_ok p" and "\<not> (\<exists>e \<in> set (input p). fatal e)"
  shows "\<exists>p'. async_loop v sgs p = (Returns, p')"
  using assms
proof (induction v sgs p rule: async_loop.induct)
  case (2 v sg sgs p)
  let ?p = "if sg then sigHandler p else p"
  have ok: "io_ok ?p" "\<not> (\<exists>e \<in> set (input ?p). fatal e)"
    using "2.prems" by (auto simp: io_ok_def sigHandler_def)
  obtain s1 p1 where t: "async_turn v ?p = (s1, p1)" by (cases "async_turn v ?p")
  have k: "s1 = Returns" "io_ok p1" "\<not> (\<exists>e \<in> set (input p1). fatal e)"
    using async_turn_keeps [OF t ok(1)] ok(2) by auto
  show ?case
  proof (cases "fExit ?p = 0")
    case True
    then have "\<not> sg" by (auto simp: sigHandler_def)
    with "2.prems"(1) have "True \<in> set sgs" by simp
    with "2.IH" [OF refl _ t [symmetric]] True k show ?thesis by (simp add: Let_def t)
  qed (simp add: Let_def)
qed simp

text \<open>At end of file the loop prompts for ever, until a signal comes.\<close>

lemma async_turn_eof:
  assumes "input p = [Fin]" and "io_ok p" and "buf p ! 0 \<noteq> CHR ''q''"
  shows "async_turn v p = (Returns, write_out promptStr p)"
proof -
  have "splice (buf p) 0 [] = buf p" by simp
  then show ?thesis
    using assms by (simp add: async_turn_def got_input_def store_def write_out_def io_ok_def Let_def)
qed

lemma async_loop_eof:
  assumes "input p = [Fin]" and "io_ok p" and "buf p ! 0 \<noteq> CHR ''q''" and "fExit p = 0"
  shows "async_loop v (replicate n False) p = (Blocks, write_out (concat (replicate n promptStr)) p)"
  using assms
proof (induction n arbitrary: p)
  case (Suc n)
  then show ?case
    using Suc.IH [of "write_out promptStr p"]
    by (simp add: async_turn_eof Let_def) (simp add: write_out_def io_ok_def)
qed (simp add: write_out_def)

section \<open>Properties\<close>

definition reads_whole :: "fenv \<Rightarrow> string \<Rightarrow> string \<Rightarrow> bool" where
  "reads_whole env path f \<longleftrightarrow> payload (reads env path f) = f \<and> after (reads env path f) = [Fin]"

definition init_fproc :: fproc where
  "init_fproc = \<lparr>inp = [], out = [], err = [], daemon_proc = False, slog = [], errnum = EIO,
     disk = [''a'' \<mapsto> ''hello'']\<rparr>"

text \<open>The copy program copies: however the reads cut the input file, as long as they reach its end
  and the writes are complete, it exits with status 0 and has put the bytes of the file at the start of
  the output file; a longer output file keeps its tail, because it is not truncated.\<close>

theorem file_cp_copies:
  assumes "disk p a = Some f" and "open_err env a False = None" and "open_err env b True = None"
    and "reads_whole env a f" and "\<forall>e \<in> set (writes env b). e = WrAll"
  shows "main_file_cp [prog, a, b] env p
    = (Exits 0, p\<lparr>disk := (disk p)(b \<mapsto> overlay (contents p b) f)\<rparr>)"
proof -
  have "all_writes \<lparr>rq = [], wq = writes env b, sent = []\<rparr>" using assms(5) by (simp add: all_writes_def)
  from copy_loop_copies [OF _ this] assms(4) obtain fd where
    "copy_loop (reads env a f) \<lparr>rq = [], wq = writes env b, sent = []\<rparr> p = (Exits 0, fd, p)" "sent fd = f"
    by (fastforce simp: reads_whole_def)
  then show ?thesis
    using assms(1-3) by (simp add: main_file_cp_def open_rd_def open_wr_def put_file_def)
qed

theorem file_cp_copies_witness:
  "main_file_cp [''file_cp'', ''a'', ''b''] (plain_env\<lparr>reads := (\<lambda>_ s. [Seg (take 2 s), Seg (drop 2 s), Fin])\<rparr>)
     init_fproc = (Exits 0, init_fproc\<lparr>disk := (disk init_fproc)(''b'' \<mapsto> ''hello'')\<rparr>)"
  using file_cp_copies [of init_fproc "''a''" "''hello''"
      "plain_env\<lparr>reads := (\<lambda>_ s. [Seg (take 2 s), Seg (drop 2 s), Fin])\<rparr>" "''b''" "''file_cp''"]
  by (simp add: plain_env_def init_fproc_def reads_whole_def contents_def)

text \<open>A write that takes only a part of its block loses the rest without notice: the program goes on
  with the next block and exits with status 0 although the copy is not the file.\<close>

theorem file_cp_ignores_short_write:
  assumes "disk p a = Some f" and "disk p b = None" and "0 < k" "k < length f" "length f \<le> CP_BUF_SIZE"
  shows "main_file_cp [prog, a, b] (plain_env\<lparr>writes := (\<lambda>_. [WrShort k])\<rparr>) p
      = (Exits 0, p\<lparr>disk := (disk p)(b \<mapsto> take k f)\<rparr>) \<and> take k f \<noteq> f"
proof -
  have "f \<noteq> []" using assms(4) by auto
  from copy_loop_short [OF assms(3) this assms(5), of p] assms(1,2,4) show ?thesis
    by (auto simp: main_file_cp_def open_rd_def open_wr_def put_file_def plain_env_def contents_def)
qed

theorem file_cp_ignores_short_write_witness:
  "main_file_cp [''file_cp'', ''a'', ''b''] (plain_env\<lparr>writes := (\<lambda>_. [WrShort 2])\<rparr>) init_fproc
      = (Exits 0, init_fproc\<lparr>disk := (disk init_fproc)(''b'' \<mapsto> ''he'')\<rparr>)"
  using file_cp_ignores_short_write [of init_fproc "''a''" "''hello''" "''b''" 2 "''file_cp''"]
  by (simp add: init_fproc_def CP_BUF_SIZE_def)

definition calm :: async_kernel where
  "calm = \<lparr>act_int = None, act_quit = None, get1 = None, set1 = None, get2 = None, set2 = None\<rparr>"

definition init_async :: async where
  "init_async = \<lparr>inp = [], out = [], err = [], daemon_proc = False, slog = [], errnum = EIO,
     fExit = 0, status_flags = 2, buf = replicate 80 nul, input = [Seg ''hi'', Fin], tty = []\<rparr>"

text \<open>The state in front of the loop.\<close>

definition async_started :: "'a async_scheme \<Rightarrow> 'a async_scheme" where
  "async_started p = write_out promptStr
     ((printf (''set_fl: flags = 0x'' @ show_hex (unat (status_flags p)) @ nl) p)
       \<lparr>status_flags := status_flags p OR O_NONBLOCK\<rparr>)"

lemma async_started_simps [simp]:
  "io_ok (async_started p) = io_ok p" "input (async_started p) = input p"
  "status_flags (async_started p) = status_flags p OR O_NONBLOCK"
  "tty (async_started p) = tty p @ promptStr" "buf (async_started p) = buf p"
  "fExit (async_started p) = fExit p"
  by (simp_all add: async_started_def io_ok_def write_out_def printf_def)

lemma async_main_calm:
  "main_async_io [prog] calm sgs p =
    (case async_loop False sgs (async_started p) of
       (s, p2) \<Rightarrow>
         if s \<noteq> Returns then (s, p2)
         else (Exits 0, (printf (''clr_fl: flags = 0x'' @ show_hex (unat (status_flags p2)) @ nl) p2)
                \<lparr>status_flags := status_flags p2 AND NOT O_NONBLOCK\<rparr>))"
  by (simp add: main_async_io_def async_body_def set_fl_def clr_fl_def calm_def Let_def
      async_started_def split: prod.splits)

text \<open>When the program ends normally, the standard input blocks again and its other status flags are
  what they were; when it ends because a read fails, the terminal is left non-blocking.\<close>

theorem async_io_restores_flags:
  assumes "main_async_io [prog] calm sgs p = (s, p')" and "io_ok p"
  shows "s \<in> {Exits 0, Exits (- 1), Blocks}
     \<and> status_flags p' = (if s = Exits 0 then status_flags p AND NOT O_NONBLOCK
                          else status_flags p OR O_NONBLOCK)"
proof -
  have m: "(w OR O_NONBLOCK) AND NOT O_NONBLOCK = w AND NOT O_NONBLOCK" for w
    by (simp add: and.commute bit.conj_disj_distrib)
  obtain s2 p2 where l: "async_loop False sgs (async_started p) = (s2, p2)"
    by (cases "async_loop False sgs (async_started p)")
  with async_loop_keeps [OF l] show ?thesis
    using assms m by (auto simp: async_main_calm split: if_splits)
qed

theorem async_io_restores_flags_witness:
  "status_flags (snd (main_async_io [''async_io''] calm [False, True] init_async)) = 2"
proof -
  obtain s p' where m: "main_async_io [''async_io''] calm [False, True] init_async = (s, p')"
    by (cases "main_async_io [''async_io''] calm [False, True] init_async")
  have "s = Exits 0"
    using m by (simp add: async_main_calm async_started_def init_async_def async_turn_def got_input_def store_def
        write_out_def printf_def sigHandler_def IO_BUF_SIZE_def Let_def splice_def)
  moreover have "io_ok init_async" by (simp add: io_ok_def init_async_def IO_BUF_SIZE_def)
  ultimately show ?thesis
    using async_io_restores_flags [OF m] m by (simp add: init_async_def O_NONBLOCK_def)
qed

text \<open>A signal ends the program: whatever the input delivers, as long as no read fails for another
  reason than missing input, the first signal makes it leave the loop and exit with status 0.\<close>

theorem async_io_signal_ends:
  assumes "True \<in> set sgs" and "io_ok p" and "\<not> (\<exists>e \<in> set (input p). fatal e)"
  shows "\<exists>p'. main_async_io [prog] calm sgs p = (Exits 0, p')"
  using async_loop_signal [OF assms(1), of "async_started p" False] assms(2,3)
  by (auto simp: async_main_calm)

theorem async_io_signal_ends_witness:
  "\<exists>p'. main_async_io [''async_io''] calm [False, False, True] init_async = (Exits 0, p')"
  by (rule async_io_signal_ends) (simp_all add: io_ok_def init_async_def IO_BUF_SIZE_def fatal_def)

text \<open>End of file does not end the program: with the input at its end it prompts for ever, once in
  every round, until a signal comes.\<close>

theorem async_io_spins_at_eof:
  assumes "input p = [Fin]" and "io_ok p" and "buf p ! 0 \<noteq> CHR ''q''" and "fExit p = 0"
  shows "\<exists>p'. main_async_io [prog] calm (replicate n False) p = (Blocks, p')
    \<and> tty p' = tty p @ promptStr @ concat (replicate n promptStr)"
  using assms
    async_loop_eof [of "async_started p" False n]
  by (simp add: async_main_calm) (simp add: write_out_def)

theorem async_io_spins_at_eof_witness:
  "\<exists>p'. main_async_io [''async_io''] calm (replicate 1000 False) (init_async\<lparr>input := [Fin]\<rparr>) = (Blocks, p')
    \<and> tty p' = promptStr @ concat (replicate 1000 promptStr)"
  using async_io_spins_at_eof [of "init_async\<lparr>input := [Fin]\<rparr>" "''async_io''" 1000]
  by (simp add: io_ok_def init_async_def IO_BUF_SIZE_def)

end
