(* ===== verification/Netcalc_Variants.thy ===== *)
theory Netcalc_Variants
  imports Netcalc_Server Netcalc_Client Posix_Files
begin

text \<open>
  The variants of version 1 without the wrapper functions of the library: variant 1 ends through its
  own copy of the error functions (\<^verbatim>\<open>netcalc/var1\<close> with \<^verbatim>\<open>myerr/myerror.c\<close>), variant 2 through
  \<^verbatim>\<open>perror\<close> and \<^verbatim>\<open>exit\<close> (\<^verbatim>\<open>netcalc/var2\<close>).  Their application layer and utilities are the text of
  the files modelled in \<open>Netcalc_App\<close> and \<open>Netcalc_Util\<close>.
\<close>

section \<open>myerror.c\<close>

definition MY_MAXLINE :: nat where "MY_MAXLINE = 1024"

text \<open>
  \<^verbatim>\<open>err_doit\<close> without bounds: \<^verbatim>\<open>vsprintf\<close>, \<^verbatim>\<open>sprintf\<close> at the end of it and \<^verbatim>\<open>strcat\<close> write into
  \<^verbatim>\<open>buf[MAXLINE]\<close>.
\<close>

definition my_err_doit :: "bool \<Rightarrow> string \<Rightarrow> 'a proc_scheme \<Rightarrow> fault + 'a proc_scheme" where
  "my_err_doit errnoflag fmt p =
     (case store_str (replicate MY_MAXLINE nul) fmt of
        Inl f \<Rightarrow> Inl f
      | Inr b \<Rightarrow>
          (case (if errnoflag
                 then store b (length (cstr b)) ('': '' @ strerror (errnum p) @ [nul]) else Inr b) of
             Inl f \<Rightarrow> Inl f
           | Inr b1 \<Rightarrow>
               (case store b1 (length (cstr b1)) (nl @ [nul]) of
                  Inl f \<Rightarrow> Inl f
                | Inr b2 \<Rightarrow> Inr (eprintf (cstr b2) p))))"

definition my_exit :: "stop \<Rightarrow> fault + 'a proc_scheme \<Rightarrow> 'a proc_scheme \<Rightarrow> stop \<times> 'a proc_scheme" where
  "my_exit s r p = (case r of Inl f \<Rightarrow> (Undef f, p) | Inr p1 \<Rightarrow> (s, p1))"

definition my_err_ret :: "string \<Rightarrow> 'a proc_scheme \<Rightarrow> stop \<times> 'a proc_scheme" where
  "my_err_ret fmt p = my_exit Returns (my_err_doit True fmt p) p"

definition my_err_sys :: "string \<Rightarrow> 'a proc_scheme \<Rightarrow> stop \<times> 'a proc_scheme" where
  "my_err_sys fmt p = my_exit (Exits 1) (my_err_doit True fmt p) p"

definition my_err_dump :: "string \<Rightarrow> 'a proc_scheme \<Rightarrow> stop \<times> 'a proc_scheme" where
  "my_err_dump fmt p = my_exit (Exits 134) (my_err_doit True fmt p) p"

definition my_err_msg :: "string \<Rightarrow> 'a proc_scheme \<Rightarrow> stop \<times> 'a proc_scheme" where
  "my_err_msg fmt p = my_exit Returns (my_err_doit False fmt p) p"

definition my_err_quit :: "string \<Rightarrow> 'a proc_scheme \<Rightarrow> stop \<times> 'a proc_scheme" where
  "my_err_quit fmt p = my_exit (Exits 1) (my_err_doit False fmt p) p"

section \<open>The server\<close>

text \<open>
  The two variants differ in how they end when a call fails; \<open>die m e\<close> is that end.  A write that
  is cut short is no failure, and a message that \<^verbatim>\<open>doCalc\<close> refuses is dumped again.
\<close>

type_synonym 'p die = "string \<Rightarrow> errno \<Rightarrow> 'p \<Rightarrow> stop \<times> 'p"

definition die_var1 :: "'a proc_scheme die" where
  "die_var1 m e p = my_err_sys m (p\<lparr>errnum := e\<rparr>)"

definition die_var2 :: "'a proc_scheme die" where
  "die_var2 m e p = perror_exit 1 m e p"

definition var_msg ::
    "'a server_scheme die \<Rightarrow> nat \<Rightarrow> conn \<Rightarrow> 'a server_scheme \<Rightarrow> stop \<times> conn \<times> 'a server_scheme" where
  "var_msg die n c p =
     (case DUMP_BUF (debugFlag p) (reqBuf p) n of
        Inl f \<Rightarrow> (Undef f, c, p)
      | Inr t \<Rightarrow>
          (let p1 = printf t p in
           case doCalc (reqBuf p1) n (resBuf p1) (resultLen p1) of
             Inl f \<Rightarrow> (Undef f, c, p1)
           | Inr (rc, q, a, l) \<Rightarrow>
               (let p2 = p1\<lparr>reqBuf := q, resBuf := a, resultLen := l\<rparr> in
                if rc = SUCCESS then
                  (case sys_write (take l a) c of
                     (WrFail e, c1) \<Rightarrow> (case die ''write error'' e p2 of (s, p3) \<Rightarrow> (s, c1, p3))
                   | (Wrote _, c1) \<Rightarrow> (Returns, c1, p2))
                else
                  (let p3 = printf (''!!main: doCalc failed'' @ nl) p2 in
                   case DUMP_BUF (debugFlag p3) (reqBuf p3) n of
                     Inl f \<Rightarrow> (Undef f, c, p3)
                   | Inr t \<Rightarrow> (Returns, c, printf t p3)))))"

lemma var_msg_rq: "var_msg die n c p = (s, c', p') \<Longrightarrow> rq c' = rq c"
  by (auto simp: var_msg_def Let_def dest: sys_write_keeps_rq
      split: sum.splits if_splits prod.splits wr_result.splits)

function serve_var ::
    "'a server_scheme die \<Rightarrow> conn \<Rightarrow> 'a server_scheme \<Rightarrow> stop \<times> conn \<times> 'a server_scheme" where
  "serve_var die c p =
     (case sys_read BUF_SIZE (rq c) of
        (Got s, es) \<Rightarrow>
          (case store (reqBuf p) 0 s of
             Inl f \<Rightarrow> (Undef f, c\<lparr>rq := es\<rparr>, p)
           | Inr buf \<Rightarrow>
               (case var_msg die (length s) (c\<lparr>rq := es\<rparr>) (p\<lparr>reqBuf := buf\<rparr>) of
                  (Returns, c2, p2) \<Rightarrow> serve_var die c2 p2
                | (s, c2, p2) \<Rightarrow> (s, c2, p2)))
      | (RdWait, es) \<Rightarrow> (Blocks, c\<lparr>rq := es\<rparr>, p)
      | (_, es) \<Rightarrow> (Returns, c\<lparr>rq := es\<rparr>, p))"
  by pat_completeness auto
termination
  by (relation "measure (\<lambda>(die, c, p). ev_size (rq c))")
    (auto simp: BUF_SIZE_def dest!: var_msg_rq [OF sym] dest: sys_read_size_less [OF sym])

declare serve_var.simps [simp del]

text \<open>The accept loop: it does not try again, and the result of \<^verbatim>\<open>close\<close> is not looked at.\<close>

fun accept_var ::
    "'a server_scheme die \<Rightarrow> (errno + incoming) list \<Rightarrow> 'a server_scheme
     \<Rightarrow> stop \<times> conn list \<times> 'a server_scheme" where
  "accept_var die [] p = (Blocks, [], p)"
| "accept_var die (Inl e # acc) p = (case die ''accept error'' e p of (s, p1) \<Rightarrow> (s, [], p1))"
| "accept_var die (Inr i # acc) p =
     (case serve_var die (link i) p of
        (s, c, p1) \<Rightarrow>
          if s \<noteq> Returns then (s, [c], p1)
          else (case accept_var die acc p1 of (s, cs, p2) \<Rightarrow> (s, c # cs, p2)))"

definition or_end ::
    "'p die \<Rightarrow> errno + 'b \<Rightarrow> string \<Rightarrow> 'r \<Rightarrow> 'p \<Rightarrow> ('p \<Rightarrow> stop \<times> 'r \<times> 'p) \<Rightarrow> stop \<times> 'r \<times> 'p" where
  "or_end die r m d p k =
     (case r of Inl e \<Rightarrow> (case die m e p of (s, p1) \<Rightarrow> (s, d, p1)) | Inr _ \<Rightarrow> k p)"

text \<open>Both print a usage message with a conversion that has no argument.\<close>

definition main_srv_var ::
    "'a server_scheme die \<Rightarrow> int \<Rightarrow> kernel \<Rightarrow> (errno + incoming) list \<Rightarrow> 'a server_scheme
     \<Rightarrow> stop \<times> conn list \<times> 'a server_scheme" where
  "main_srv_var die argc k acc p =
     (if argc \<noteq> 1 then (Undef MissingArgument, [], p)
      else or_end die (k_socket k) ''socket error'' [] p (\<lambda>p.
           or_end die (k_bind k) ''bind error'' [] p (\<lambda>p.
           or_end die (k_listen k 16) ''listen error'' [] p (\<lambda>p.
             accept_var die acc p))))"

definition main_srv_var1 ::
    "int \<Rightarrow> kernel \<Rightarrow> (errno + incoming) list \<Rightarrow> 'a server_scheme \<Rightarrow> stop \<times> conn list \<times> 'a server_scheme" where
  "main_srv_var1 = main_srv_var die_var1"

definition main_srv_var2 ::
    "int \<Rightarrow> kernel \<Rightarrow> (errno + incoming) list \<Rightarrow> 'a server_scheme \<Rightarrow> stop \<times> conn list \<times> 'a server_scheme" where
  "main_srv_var2 = main_srv_var die_var2"

section \<open>The client\<close>

text \<open>
  The loop of \<^verbatim>\<open>main\<close>: unlike version 1 it also leaves the loop, and ends with status 0, when a read
  fails.
\<close>

function client_loop_var ::
    "'a client_scheme die \<Rightarrow> conn \<Rightarrow> 'a client_scheme \<Rightarrow> stop \<times> conn \<times> 'a client_scheme" where
  "client_loop_var die c p =
     (case next_request p of
        (NoInput, p1) \<Rightarrow> (Returns, c, p1)
      | (ReqFault f, p1) \<Rightarrow> (Undef f, c, p1)
      | (BadLine, p1) \<Rightarrow>
          (case complain ''main'' ''buildReq failed'' (ioBuf p1) (length (cstr (ioBuf p1))) p1 of
             (s, p2) \<Rightarrow> if s = Returns then client_loop_var die c p2 else (s, c, p2))
      | (Request msgLen, p1) \<Rightarrow>
          (case sys_write (take msgLen (msgBuf p1)) c of
             (WrFail e, c1) \<Rightarrow> (case die ''write error'' e p1 of (s, p2) \<Rightarrow> (s, c1, p2))
           | (Wrote _, c1) \<Rightarrow>
               (case conn_read BUF_SIZE c1 of
                  (Got d, c2) \<Rightarrow>
                    (case store (msgBuf p1) 0 d of
                       Inl f \<Rightarrow> (Undef f, c2, p1)
                     | Inr mb \<Rightarrow>
                         (case show_response ''main'' (length d) (p1\<lparr>msgBuf := mb\<rparr>) of
                            (s, p2) \<Rightarrow>
                              if s = Returns then client_loop_var die c2 p2 else (s, c2, p2)))
                | (RdWait, c2) \<Rightarrow> (Blocks, c2, p1)
                | (_, c2) \<Rightarrow> (Returns, c2, p1))))"
  by pat_completeness auto
termination
  by (relation "measure (\<lambda>(die, c, p). length (inp p))")
    (auto dest!: next_request_shorter [OF sym] complain_frame [OF sym] show_response_inp [OF sym])

declare client_loop_var.simps [simp del]

text \<open>\<open>usage\<close> is how the variant reports wrong arguments; the result of \<^verbatim>\<open>inet_addr\<close> is not looked at.\<close>

definition main_clnt_var ::
    "'a client_scheme die \<Rightarrow> (string \<Rightarrow> 'a client_scheme \<Rightarrow> stop \<times> 'a client_scheme) \<Rightarrow> string list
     \<Rightarrow> ckernel \<Rightarrow> conn \<Rightarrow> 'a client_scheme \<Rightarrow> stop \<times> conn \<times> 'a client_scheme" where
  "main_clnt_var die usage argv k c p =
     (if length argv \<noteq> 2
      then (case usage (''Usage: '' @ argv0 argv @ '' <IPaddress>'') p of (s, p1) \<Rightarrow> (s, c, p1))
      else or_end die (c_socket k) ''socket error'' c p (\<lambda>p.
           or_end die (c_connect k) ''connect error'' c p (\<lambda>p.
             (case client_loop_var die c p of
                (s, c1, p1) \<Rightarrow> (if s = Returns then Exits 0 else s, c1, p1)))))"

definition main_clnt_var1 ::
    "string list \<Rightarrow> ckernel \<Rightarrow> conn \<Rightarrow> 'a client_scheme \<Rightarrow> stop \<times> conn \<times> 'a client_scheme" where
  "main_clnt_var1 = main_clnt_var die_var1 my_err_quit"

definition main_clnt_var2 ::
    "string list \<Rightarrow> ckernel \<Rightarrow> conn \<Rightarrow> 'a client_scheme \<Rightarrow> stop \<times> conn \<times> 'a client_scheme" where
  "main_clnt_var2 = main_clnt_var die_var2 (\<lambda>m p. (Exits 1, eprintf m p))"

section \<open>The variants do what version 1 does\<close>

text \<open>What two runs have in common while only their output differs.\<close>

definition same_bufs :: "'a server_scheme \<Rightarrow> 'a server_scheme \<Rightarrow> bool" where
  "same_bufs p q \<longleftrightarrow> reqBuf p = reqBuf q \<and> resBuf p = resBuf q \<and> resultLen p = resultLen q
     \<and> debugFlag p = debugFlag q"

lemma doCalc_refuses:
  "doCalc qb n a l = Inr (rc, q, a', l') \<Longrightarrow> rc \<noteq> SUCCESS \<Longrightarrow> q = qb"
  by (auto simp: doCalc_def calc_answer_def Let_def split: if_splits sum.splits)

lemma var_msg_like:
  assumes "serve_msg ''main'' n c p = (s, c', p')" and "same_bufs p q" and "all_writes c"
  shows "\<exists>q'. var_msg die n c q = (s, c', q') \<and> same_bufs p' q' \<and> all_writes c'"
proof (cases "DUMP_BUF (debugFlag p) (reqBuf p) n")
  case (Inl f)
  then show ?thesis using assms by (auto simp: serve_msg_def var_msg_def same_bufs_def)
next
  case (Inr t)
  note dump = this
  show ?thesis
  proof (cases "doCalc (reqBuf p) n (resBuf p) (resultLen p)")
    case (Inl f)
    with dump show ?thesis
      using assms by (auto simp: serve_msg_def var_msg_def same_bufs_def printf_def Let_def)
  next
    case (Inr r)
    obtain rc b a l where r: "r = (rc, b, a, l)" by (cases r)
    obtain k where w: "sys_write (take l a) c = (Wrote (length (take l a)), c\<lparr>wq := k,
        sent := sent c @ take l a\<rparr>)" "set k \<subseteq> set (wq c)"
      using sys_write_all [OF assms(3), of "take l a"] by auto
    have "b = reqBuf p" if "rc \<noteq> SUCCESS" using doCalc_refuses Inr r that by blast
    then show ?thesis
      using assms dump Inr r w
      by (auto simp: serve_msg_def var_msg_def same_bufs_def printf_def Let_def Write_def
          all_writes_def split: if_splits)
  qed
qed

lemma serve_stops:
  assumes "sys_read BUF_SIZE (rq c) = (r, es)" and "\<forall>d. r \<noteq> Got d"
  shows "serve_v1 c p = (if r = RdWait then Blocks else Returns, c\<lparr>rq := es\<rparr>, p)"
    and "serve_var die c q = (if r = RdWait then Blocks else Returns, c\<lparr>rq := es\<rparr>, q)"
proof -
  show "serve_v1 c p = (if r = RdWait then Blocks else Returns, c\<lparr>rq := es\<rparr>, p)"
    using assms by (subst serve_v1.simps) (cases r; simp)
  show "serve_var die c q = (if r = RdWait then Blocks else Returns, c\<lparr>rq := es\<rparr>, q)"
    using assms by (subst serve_var.simps) (cases r; simp)
qed

lemma serve_var_like:
  assumes "serve_v1 c p = (s, c', p')" and "same_bufs p q" and "all_writes c"
  shows "\<exists>q'. serve_var die c q = (s, c', q') \<and> same_bufs p' q'"
  using assms
proof (induction c p arbitrary: q s c' p' rule: serve_v1.induct)
  case (1 c p)
  obtain r es where rd: "sys_read BUF_SIZE (rq c) = (r, es)" by (cases "sys_read BUF_SIZE (rq c)")
  show ?case
  proof (cases r)
    case (Got d)
    show ?thesis
    proof (cases "store (reqBuf p) 0 d")
      case (Inl f)
      then show ?thesis using "1.prems" rd Got
        by (subst serve_var.simps) (auto simp: serve_v1.simps same_bufs_def)
    next
      case (Inr b)
      let ?c = "c\<lparr>rq := es\<rparr>" and ?p = "p\<lparr>reqBuf := b\<rparr>" and ?q = "q\<lparr>reqBuf := b\<rparr>"
      obtain s2 c2 p2 where m: "serve_msg ''main'' (length d) ?c ?p = (s2, c2, p2)"
        by (cases "serve_msg ''main'' (length d) ?c ?p")
      have "same_bufs ?p ?q" "all_writes ?c"
        using "1.prems"(2,3) by (auto simp: same_bufs_def all_writes_def)
      from var_msg_like [OF m this] obtain q2 where
        v: "var_msg die (length d) ?c ?q = (s2, c2, q2)" "same_bufs p2 q2" "all_writes c2" by blast
      have st: "store (reqBuf q) 0 d = Inr b" using Inr "1.prems"(2) by (simp add: same_bufs_def)
      show ?thesis
      proof (cases "s2 = Returns")
        case True
        have "serve_v1 c2 p2 = (s, c', p')"
          using "1.prems"(1) rd Got Inr m True by (subst (asm) serve_v1.simps) simp
        from "1.IH" [OF rd [symmetric] Got Inr m [symmetric] True refl this v(2,3)]
        show ?thesis using rd Got st v(1) True by (subst serve_var.simps) simp
      next
        case False
        then have "serve_v1 c p = (s2, c2, p2)"
          using rd Got Inr m by (subst serve_v1.simps) (auto split: stop.split)
        moreover have "serve_var die c q = (s2, c2, q2)"
          using rd Got st v(1) False by (subst serve_var.simps) (auto split: stop.split)
        ultimately show ?thesis using "1.prems"(1) v(2) by simp
      qed
    qed
  qed (use "1.prems" serve_stops(1) [OF rd, of p] serve_stops(2) [OF rd, of die q] in auto)
qed

text \<open>What version 1 and a variant do with the same connections.\<close>

definition smooth :: "(errno + incoming) list \<Rightarrow> bool" where
  "smooth acc \<longleftrightarrow> (\<forall>r \<in> set acc. \<exists>i. r = Inr i \<and> all_writes (link i) \<and> closes i = Inr ())"

lemma accept_var_like:
  assumes "smooth acc" and "accept_v1 acc p = (s, cs, p')" and "same_bufs p q"
  shows "\<exists>q'. accept_var die acc q = (s, cs, q') \<and> same_bufs p' q'"
  using assms
proof (induction acc arbitrary: p q s cs p')
  case Nil
  have "accept_v1 [] p = (Blocks, [], p)" by (subst accept_v1.simps) simp
  with Nil show ?case by simp
next
  case (Cons r acc)
  obtain i where i: "r = Inr i" "all_writes (link i)" "closes i = Inr ()"
    using Cons.prems(1) by (auto simp: smooth_def)
  obtain s1 c p1 where v: "serve_v1 (link i) p = (s1, c, p1)" by (cases "serve_v1 (link i) p")
  from serve_var_like [OF v Cons.prems(3) i(2)] obtain q1 where
    q1: "serve_var die (link i) q = (s1, c, q1)" "same_bufs p1 q1" by blast
  show ?case
  proof (cases "s1 = Returns")
    case True
    obtain s2 cs2 p2 where a: "accept_v1 acc p1 = (s2, cs2, p2)" by (cases "accept_v1 acc p1")
    have "smooth acc" using Cons.prems(1) by (simp add: smooth_def)
    from Cons.IH [OF this a q1(2)] obtain q2 where
      q2: "accept_var die acc q1 = (s2, cs2, q2)" "same_bufs p2 q2" by blast
    have "accept_v1 (r # acc) p = (s2, c # cs2, p2)"
      using i v True a by (subst accept_v1.simps) (simp add: Close_def)
    then show ?thesis using Cons.prems(2) q1(1) q2 True i(1) by simp
  next
    case False
    then have "accept_v1 (r # acc) p = (s1, [c], p1)" using i v by (subst accept_v1.simps) simp
    then show ?thesis using Cons.prems(2) q1 False i(1) by simp
  qed
qed

text \<open>A short write is where they differ: version 1 ends, the variants lose the rest of the answer.\<close>

lemma var_msg_short:
  assumes "DUMP_BUF (debugFlag p) (reqBuf p) n = Inr t" and "wq c = WrShort k # ws" and "k < l"
    and "doCalc (reqBuf p) n (resBuf p) (resultLen p) = Inr (SUCCESS, b, a, l)" and "l \<le> length a"
  obtains c1 p1 p2 where "serve_msg ''main'' n c p = (Exits 1, c1, p1)"
    "var_msg die n c p = (Returns, c1, p2)" "sent c1 = sent c @ take k a"
  using assms that
  by (auto simp: serve_msg_def var_msg_def Let_def printf_def Write_def sys_write_def err_sys_def min_def)

section \<open>Properties\<close>

text \<open>The variants without wrapper functions give the service of version 1: for any connections that
  arrive without failures and take every write whole, both variants send every client exactly what
  version 1 sends, take the same input and come to the same end.\<close>

theorem variants_serve_like_v1:
  assumes "smooth acc" and "k_socket k = Inr fd" and "k_bind k = Inr ()" and "\<forall>n. k_listen k n = Inr ()"
    and "main_v1 1 k acc p = (s, cs, p')"
  shows "\<exists>q1 q2. main_srv_var1 1 k acc p = (s, cs, q1) \<and> main_srv_var2 1 k acc p = (s, cs, q2)"
proof -
  have "accept_v1 acc p = (s, cs, p')"
    using assms(2-5) by (simp add: main_v1_def Socket_def Bind_def Listen_def or_die_def
        split: option.splits)
  moreover have "same_bufs p p" by (simp add: same_bufs_def)
  ultimately have "\<exists>q. accept_var die acc p = (s, cs, q)" for die
    using accept_var_like [OF assms(1), of p s cs p' p] by blast
  then show ?thesis
    using assms(2-4) by (simp add: main_srv_var1_def main_srv_var2_def main_srv_var_def or_end_def)
qed

definition easy_kernel :: kernel where
  "easy_kernel = \<lparr>k_socket = Inr 3, k_bind = Inr (), k_listen = (\<lambda>_. Inr ()), k_listenq = None,
     k_sockname = None, k_close = Inr ()\<rparr>"

definition one_client :: incoming where
  "one_client = \<lparr>link = \<lparr>rq = [Seg ''Q1+2='', Fin], wq = [], sent = []\<rparr>, peer = None, locl = None,
     closes = Inr ()\<rparr>"

theorem variants_serve_like_v1_witness:
  "\<exists>s cs p' q1 q2. main_v1 1 easy_kernel [Inr one_client] init_server = (s, cs, p')
     \<and> main_srv_var1 1 easy_kernel [Inr one_client] init_server = (s, cs, q1)
     \<and> main_srv_var2 1 easy_kernel [Inr one_client] init_server = (s, cs, q2)"
proof -
  obtain s cs p' where m: "main_v1 1 easy_kernel [Inr one_client] init_server = (s, cs, p')"
    by (cases "main_v1 1 easy_kernel [Inr one_client] init_server")
  have "smooth [Inr one_client]" by (simp add: smooth_def one_client_def all_writes_def)
  from variants_serve_like_v1 [OF this _ _ _ m] m show ?thesis by (simp add: easy_kernel_def)
qed

text \<open>The error functions of variant 1 have no bound: a message of 1023 characters or more makes
  every one of them write past its array, where those of the library cut it off.\<close>

theorem my_err_quit_overruns:
  assumes "nul \<notin> set fmt" and "MY_MAXLINE - 1 \<le> length fmt"
  shows "my_err_quit fmt p = (Undef Overrun, p) \<and> my_err_sys fmt p = (Undef Overrun, p)
     \<and> my_err_ret fmt p = (Undef Overrun, p) \<and> my_err_msg fmt p = (Undef Overrun, p)
     \<and> my_err_dump fmt p = (Undef Overrun, p) \<and> fst (err_quit fmt p) = Exits 1"
proof -
  have "my_err_doit b fmt p = Inl Overrun" for b
  proof (cases "store_str (replicate MY_MAXLINE nul) fmt")
    case (Inr a)
    then have "length fmt < MY_MAXLINE" and a: "a = fmt @ nul # drop (Suc (length fmt)) (replicate MY_MAXLINE nul)"
      by (simp_all add: store_str_Inr_iff)
    with assms(2) have l: "length fmt = MY_MAXLINE - 1" by simp
    have "cstr a = fmt" using assms(1) a by (simp add: cstr_append_nul)
    moreover have "length a = MY_MAXLINE" using a l by (simp add: MY_MAXLINE_def)
    ultimately show ?thesis using Inr l by (simp add: my_err_doit_def store_def MY_MAXLINE_def)
  next
    case (Inl f)
    then show ?thesis by (simp add: my_err_doit_def store_str_def store_Inl_iff split: sum.split)
      (simp add: store_Inr_iff)
  qed
  then show ?thesis
    by (simp add: my_err_quit_def my_err_sys_def my_err_ret_def my_err_msg_def my_err_dump_def my_exit_def
        err_quit_def)
qed

theorem my_err_quit_overruns_witness:
  "my_err_quit (replicate 1023 (CHR ''x'')) init_server = (Undef Overrun, init_server)"
  using my_err_quit_overruns [of "replicate 1023 (CHR ''x'')" init_server] by (simp add: MY_MAXLINE_def)

end
