(* ===== verification/Unp_Wrap_More.thy ===== *)
theory Unp_Wrap_More
  imports Unp_Wrap
begin

text \<open>
  The other wrapper functions of the library (\<^verbatim>\<open>SampleCode/unpv13e/lib\<close>: \<^verbatim>\<open>wrapsock.c\<close>,
  \<^verbatim>\<open>wraplib.c\<close>, \<^verbatim>\<open>wrapunix.c\<close>, \<^verbatim>\<open>wrapstdio.c\<close>, \<^verbatim>\<open>wrappthread.c\<close>).  As in \<open>Unp_Wrap\<close> the
  answer of the call that is wrapped is an argument, and a wrapper either hands the value on or ends the
  process; the branches are those of the configuration in \<^verbatim>\<open>config.h\<close> (no \<^verbatim>\<open>kqueue\<close>).
\<close>

section \<open>wrapsock.c\<close>

definition Getpeername :: "errno + 'a \<Rightarrow> 'p proc_scheme \<Rightarrow> ('a, 'p proc_scheme) wrapped" where
  "Getpeername r p = or_die ''getpeername error'' r p"

definition Getsockname :: "errno + 'a \<Rightarrow> 'p proc_scheme \<Rightarrow> ('a, 'p proc_scheme) wrapped" where
  "Getsockname r p = or_die ''getsockname error'' r p"

definition Getsockopt :: "errno + 'a \<Rightarrow> 'p proc_scheme \<Rightarrow> ('a, 'p proc_scheme) wrapped" where
  "Getsockopt r p = or_die ''getsockopt error'' r p"

text \<open>The functions for routing headers end the process without looking at \<^verbatim>\<open>errno\<close>.\<close>

definition or_quit :: "string \<Rightarrow> 'a option \<Rightarrow> 'p proc_scheme \<Rightarrow> ('a, 'p proc_scheme) wrapped" where
  "or_quit msg r p = (case r of None \<Rightarrow> Inl (err_quit msg p) | Some v \<Rightarrow> Inr (v, p))"

definition Inet6_rth_space :: "nat option \<Rightarrow> 'p proc_scheme \<Rightarrow> (nat, 'p proc_scheme) wrapped" where
  "Inet6_rth_space r p = or_quit ''inet6_rth_space error'' r p"

definition Inet6_rth_init :: "'a option \<Rightarrow> 'p proc_scheme \<Rightarrow> ('a, 'p proc_scheme) wrapped" where
  "Inet6_rth_init r p = or_quit ''inet6_rth_init error'' r p"

definition Inet6_rth_add :: "unit option \<Rightarrow> 'p proc_scheme \<Rightarrow> (unit, 'p proc_scheme) wrapped" where
  "Inet6_rth_add r p = or_quit ''inet6_rth_add error'' r p"

definition Inet6_rth_reverse :: "unit option \<Rightarrow> 'p proc_scheme \<Rightarrow> (unit, 'p proc_scheme) wrapped" where
  "Inet6_rth_reverse r p = or_quit ''inet6_rth_reverse error'' r p"

definition Inet6_rth_segments :: "nat option \<Rightarrow> 'p proc_scheme \<Rightarrow> (nat, 'p proc_scheme) wrapped" where
  "Inet6_rth_segments r p = or_quit ''inet6_rth_segments error'' r p"

definition Inet6_rth_getaddr :: "'a option \<Rightarrow> 'p proc_scheme \<Rightarrow> ('a, 'p proc_scheme) wrapped" where
  "Inet6_rth_getaddr r p = or_quit ''inet6_rth_getaddr error'' r p"

definition Recv :: "errno + string \<Rightarrow> 'p proc_scheme \<Rightarrow> (string, 'p proc_scheme) wrapped" where
  "Recv r p = or_die ''recv error'' r p"

definition Recvmsg :: "errno + string \<Rightarrow> 'p proc_scheme \<Rightarrow> (string, 'p proc_scheme) wrapped" where
  "Recvmsg r p = or_die ''recvmsg error'' r p"

text \<open>\<^verbatim>\<open>Select\<close> gives 0 after the time is up; the sets it changes are part of the value.\<close>

definition Select :: "errno + (nat \<times> 'a) \<Rightarrow> 'p proc_scheme \<Rightarrow> ((nat \<times> 'a), 'p proc_scheme) wrapped" where
  "Select r p = or_die ''select error'' r p"

text \<open>
  Sending a part only is an error too, reported with whatever \<^verbatim>\<open>errno\<close> was.  The buffers of
  \<^verbatim>\<open>Sendmsg\<close> are the elements of \<^verbatim>\<open>msg_iov\<close>, whose lengths it adds up first.
\<close>

definition all_or_die :: "string \<Rightarrow> nat \<Rightarrow> errno + nat \<Rightarrow> 'p proc_scheme \<Rightarrow> (unit, 'p proc_scheme) wrapped" where
  "all_or_die msg n r p = (case r of
       Inl e \<Rightarrow> Inl (err_sys msg (p\<lparr>errnum := e\<rparr>))
     | Inr k \<Rightarrow> if k \<noteq> n then Inl (err_sys msg p) else Inr ((), p))"

definition Send :: "string \<Rightarrow> errno + nat \<Rightarrow> 'p proc_scheme \<Rightarrow> (unit, 'p proc_scheme) wrapped" where
  "Send d r p = all_or_die ''send error'' (length d) r p"

fun iov_bytes :: "nat \<Rightarrow> string list \<Rightarrow> nat" where
  "iov_bytes nbytes [] = nbytes"
| "iov_bytes nbytes (b # msg_iov) = iov_bytes (nbytes + length b) msg_iov"

definition Sendmsg :: "string list \<Rightarrow> errno + nat \<Rightarrow> 'p proc_scheme \<Rightarrow> (unit, 'p proc_scheme) wrapped" where
  "Sendmsg msg_iov r p = all_or_die ''sendmsg error'' (iov_bytes 0 msg_iov) r p"

definition Sockatmark :: "errno + bool \<Rightarrow> 'p proc_scheme \<Rightarrow> (bool, 'p proc_scheme) wrapped" where
  "Sockatmark r p = or_die ''sockatmark error'' r p"

definition Socketpair :: "errno + (int \<times> int) \<Rightarrow> 'p proc_scheme \<Rightarrow> ((int \<times> int), 'p proc_scheme) wrapped" where
  "Socketpair r p = or_die ''socketpair error'' r p"

section \<open>wraplib.c\<close>

text \<open>
  \<^verbatim>\<open>strptr\<close> is \<open>None\<close> for a null pointer; \<open>ntop\<close> is the library's \<^verbatim>\<open>inet_ntop\<close> on the array.
\<close>

definition Inet_ntop ::
    "(string \<Rightarrow> errno + string) \<Rightarrow> string option \<Rightarrow> 'p proc_scheme \<Rightarrow> (string, 'p proc_scheme) wrapped" where
  "Inet_ntop ntop strptr p = (case strptr of
       None \<Rightarrow> Inl (err_quit ''NULL 3rd argument to inet_ntop'' p)
     | Some buf \<Rightarrow> or_die ''inet_ntop error'' (ntop buf) p)"

section \<open>wrapunix.c\<close>

definition Calloc :: "errno + 'a \<Rightarrow> 'p proc_scheme \<Rightarrow> ('a, 'p proc_scheme) wrapped" where
  "Calloc r p = or_die ''calloc error'' r p"

definition Dup2 :: "errno + unit \<Rightarrow> 'p proc_scheme \<Rightarrow> (unit, 'p proc_scheme) wrapped" where
  "Dup2 r p = or_die ''dup2 error'' r p"

definition Fcntl :: "errno + int \<Rightarrow> 'p proc_scheme \<Rightarrow> (int, 'p proc_scheme) wrapped" where
  "Fcntl r p = or_die ''fcntl error'' r p"

definition Gettimeofday :: "errno + 'a \<Rightarrow> 'p proc_scheme \<Rightarrow> ('a, 'p proc_scheme) wrapped" where
  "Gettimeofday r p = or_die ''gettimeofday error'' r p"

definition Ioctl :: "errno + 'a \<Rightarrow> 'p proc_scheme \<Rightarrow> ('a, 'p proc_scheme) wrapped" where
  "Ioctl r p = or_die ''ioctl error'' r p"

definition Malloc :: "errno + 'a \<Rightarrow> 'p proc_scheme \<Rightarrow> ('a, 'p proc_scheme) wrapped" where
  "Malloc r p = or_die ''malloc error'' r p"

definition Mkstemp :: "int option \<Rightarrow> 'p proc_scheme \<Rightarrow> (int, 'p proc_scheme) wrapped" where
  "Mkstemp r p = or_quit ''mkstemp error'' r p"

definition Mmap :: "errno + 'a \<Rightarrow> 'p proc_scheme \<Rightarrow> ('a, 'p proc_scheme) wrapped" where
  "Mmap r p = or_die ''mmap error'' r p"

definition Open :: "string \<Rightarrow> errno + int \<Rightarrow> 'p proc_scheme \<Rightarrow> (int, 'p proc_scheme) wrapped" where
  "Open pathname r p = or_die (''open error for '' @ pathname) r p"

definition Pipe :: "errno + (int \<times> int) \<Rightarrow> 'p proc_scheme \<Rightarrow> ((int \<times> int), 'p proc_scheme) wrapped" where
  "Pipe r p = or_die ''pipe error'' r p"

text \<open>Sets of signals are sets of their numbers; \<open>valid\<close> tells which numbers the system knows.\<close>

type_synonym sigset = "int set"

definition sig_op :: "string \<Rightarrow> (int \<Rightarrow> bool) \<Rightarrow> int \<Rightarrow> 'a \<Rightarrow> 'p proc_scheme \<Rightarrow> ('a, 'p proc_scheme) wrapped" where
  "sig_op msg valid signo v p = or_die msg (if valid signo then Inr v else Inl EINVAL) p"

definition Sigaddset :: "(int \<Rightarrow> bool) \<Rightarrow> sigset \<Rightarrow> int \<Rightarrow> 'p proc_scheme \<Rightarrow> (sigset, 'p proc_scheme) wrapped" where
  "Sigaddset valid sset signo p = sig_op ''sigaddset error'' valid signo (insert signo sset) p"

definition Sigdelset :: "(int \<Rightarrow> bool) \<Rightarrow> sigset \<Rightarrow> int \<Rightarrow> 'p proc_scheme \<Rightarrow> (sigset, 'p proc_scheme) wrapped" where
  "Sigdelset valid sset signo p = sig_op ''sigdelset error'' valid signo (sset - {signo}) p"

definition Sigismember :: "(int \<Rightarrow> bool) \<Rightarrow> sigset \<Rightarrow> int \<Rightarrow> 'p proc_scheme \<Rightarrow> (bool, 'p proc_scheme) wrapped" where
  "Sigismember valid sset signo p = sig_op ''sigismember error'' valid signo (signo \<in> sset) p"

definition Sigemptyset :: "errno + sigset \<Rightarrow> 'p proc_scheme \<Rightarrow> (sigset, 'p proc_scheme) wrapped" where
  "Sigemptyset r p = or_die ''sigemptyset error'' r p"

definition Sigfillset :: "errno + sigset \<Rightarrow> 'p proc_scheme \<Rightarrow> (sigset, 'p proc_scheme) wrapped" where
  "Sigfillset r p = or_die ''sigfillset error'' r p"

definition Sigpending :: "errno + sigset \<Rightarrow> 'p proc_scheme \<Rightarrow> (sigset, 'p proc_scheme) wrapped" where
  "Sigpending r p = or_die ''sigpending error'' r p"

definition Sigprocmask :: "errno + sigset \<Rightarrow> 'p proc_scheme \<Rightarrow> (sigset, 'p proc_scheme) wrapped" where
  "Sigprocmask r p = or_die ''sigprocmask error'' r p"

definition Strdup :: "errno + string \<Rightarrow> 'p proc_scheme \<Rightarrow> (string, 'p proc_scheme) wrapped" where
  "Strdup r p = or_die ''strdup error'' r p"

text \<open>
  \<^verbatim>\<open>Sysconf\<close> clears \<^verbatim>\<open>errno\<close> first; a limit that is not set makes \<^verbatim>\<open>sysconf\<close> return -1 and leave
  \<^verbatim>\<open>errno\<close> alone, which is \<open>Inl e\<close> with \<open>e\<close> the value for no error: \<open>clear\<close>.
\<close>

definition Sysconf :: "errno \<Rightarrow> errno option + int \<Rightarrow> 'p proc_scheme \<Rightarrow> (int, 'p proc_scheme) wrapped" where
  "Sysconf clear r p =
     (let p1 = p\<lparr>errnum := clear\<rparr> in
      case r of
        Inl None \<Rightarrow> Inl (err_sys ''sysconf error'' p1)
      | Inl (Some e) \<Rightarrow> Inl (err_sys ''sysconf error'' (p1\<lparr>errnum := e\<rparr>))
      | Inr val \<Rightarrow> Inr (val, p1))"

definition Sysctl :: "errno + 'a \<Rightarrow> 'p proc_scheme \<Rightarrow> ('a, 'p proc_scheme) wrapped" where
  "Sysctl r p = or_die ''sysctl error'' r p"

definition Unlink :: "string \<Rightarrow> errno + unit \<Rightarrow> 'p proc_scheme \<Rightarrow> (unit, 'p proc_scheme) wrapped" where
  "Unlink pathname r p = or_die (''unlink error for '' @ pathname) r p"

definition Wait :: "errno + (int \<times> 'a) \<Rightarrow> 'p proc_scheme \<Rightarrow> ((int \<times> 'a), 'p proc_scheme) wrapped" where
  "Wait r p = or_die ''wait error'' r p"

definition Waitpid :: "errno + (int \<times> 'a) \<Rightarrow> 'p proc_scheme \<Rightarrow> ((int \<times> 'a), 'p proc_scheme) wrapped" where
  "Waitpid r p = or_die ''waitpid error'' r p"

section \<open>wrapstdio.c\<close>

definition Fclose :: "errno + unit \<Rightarrow> 'p proc_scheme \<Rightarrow> (unit, 'p proc_scheme) wrapped" where
  "Fclose r p = or_die ''fclose error'' r p"

definition Fdopen :: "errno + 'a \<Rightarrow> 'p proc_scheme \<Rightarrow> ('a, 'p proc_scheme) wrapped" where
  "Fdopen r p = or_die ''fdopen error'' r p"

text \<open>
  \<^verbatim>\<open>Fgets\<close> of the standard input: at the end of the characters \<open>ferr\<close> tells whether a read failed
  there or the file ended.
\<close>

definition Fgets ::
    "nat \<Rightarrow> errno option \<Rightarrow> 'p proc_scheme \<Rightarrow> (string option, 'p proc_scheme) wrapped" where
  "Fgets n ferr p = (case fgets n (inp p) of
       Some (l, rest) \<Rightarrow> Inr (Some l, p\<lparr>inp := rest\<rparr>)
     | None \<Rightarrow> (case ferr of
           Some e \<Rightarrow> Inl (err_sys ''fgets error'' (p\<lparr>errnum := e\<rparr>))
         | None \<Rightarrow> Inr (None, p)))"

definition Fopen :: "errno + 'a \<Rightarrow> 'p proc_scheme \<Rightarrow> ('a, 'p proc_scheme) wrapped" where
  "Fopen r p = or_die ''fopen error'' r p"

text \<open>\<^verbatim>\<open>Fputs\<close> to the standard output, which may fail.\<close>

definition Fputs :: "string \<Rightarrow> errno option \<Rightarrow> 'p proc_scheme \<Rightarrow> (unit, 'p proc_scheme) wrapped" where
  "Fputs t r p = (case r of
       Some e \<Rightarrow> Inl (err_sys ''fputs error'' (p\<lparr>errnum := e\<rparr>))
     | None \<Rightarrow> Inr ((), printf t p))"

section \<open>wrappthread.c\<close>

text \<open>The functions for threads return the error; the wrappers put it into \<^verbatim>\<open>errno\<close>: \<open>None\<close> is 0.\<close>

definition zero_or_die :: "string \<Rightarrow> errno option \<Rightarrow> 'p proc_scheme \<Rightarrow> (unit, 'p proc_scheme) wrapped" where
  "zero_or_die msg n p = (case n of
       None \<Rightarrow> Inr ((), p)
     | Some e \<Rightarrow> Inl (err_sys msg (p\<lparr>errnum := e\<rparr>)))"

definition Pthread_create :: "errno option \<Rightarrow> 'p proc_scheme \<Rightarrow> (unit, 'p proc_scheme) wrapped" where
  "Pthread_create n p = zero_or_die ''pthread_create error'' n p"

definition Pthread_join :: "errno option \<Rightarrow> 'p proc_scheme \<Rightarrow> (unit, 'p proc_scheme) wrapped" where
  "Pthread_join n p = zero_or_die ''pthread_join error'' n p"

definition Pthread_detach :: "errno option \<Rightarrow> 'p proc_scheme \<Rightarrow> (unit, 'p proc_scheme) wrapped" where
  "Pthread_detach n p = zero_or_die ''pthread_detach error'' n p"

definition Pthread_kill :: "errno option \<Rightarrow> 'p proc_scheme \<Rightarrow> (unit, 'p proc_scheme) wrapped" where
  "Pthread_kill n p = zero_or_die ''pthread_kill error'' n p"

definition Pthread_mutexattr_init :: "errno option \<Rightarrow> 'p proc_scheme \<Rightarrow> (unit, 'p proc_scheme) wrapped" where
  "Pthread_mutexattr_init n p = zero_or_die ''pthread_mutexattr_init error'' n p"

definition Pthread_mutexattr_setpshared :: "errno option \<Rightarrow> 'p proc_scheme \<Rightarrow> (unit, 'p proc_scheme) wrapped" where
  "Pthread_mutexattr_setpshared n p = zero_or_die ''pthread_mutexattr_setpshared error'' n p"

definition Pthread_mutex_init :: "errno option \<Rightarrow> 'p proc_scheme \<Rightarrow> (unit, 'p proc_scheme) wrapped" where
  "Pthread_mutex_init n p = zero_or_die ''pthread_mutex_init error'' n p"

definition Pthread_mutex_lock :: "errno option \<Rightarrow> 'p proc_scheme \<Rightarrow> (unit, 'p proc_scheme) wrapped" where
  "Pthread_mutex_lock n p = zero_or_die ''pthread_mutex_lock error'' n p"

definition Pthread_mutex_unlock :: "errno option \<Rightarrow> 'p proc_scheme \<Rightarrow> (unit, 'p proc_scheme) wrapped" where
  "Pthread_mutex_unlock n p = zero_or_die ''pthread_mutex_unlock error'' n p"

definition Pthread_cond_broadcast :: "errno option \<Rightarrow> 'p proc_scheme \<Rightarrow> (unit, 'p proc_scheme) wrapped" where
  "Pthread_cond_broadcast n p = zero_or_die ''pthread_cond_broadcast error'' n p"

definition Pthread_cond_signal :: "errno option \<Rightarrow> 'p proc_scheme \<Rightarrow> (unit, 'p proc_scheme) wrapped" where
  "Pthread_cond_signal n p = zero_or_die ''pthread_cond_signal error'' n p"

definition Pthread_cond_wait :: "errno option \<Rightarrow> 'p proc_scheme \<Rightarrow> (unit, 'p proc_scheme) wrapped" where
  "Pthread_cond_wait n p = zero_or_die ''pthread_cond_wait error'' n p"

definition Pthread_cond_timedwait :: "errno option \<Rightarrow> 'p proc_scheme \<Rightarrow> (unit, 'p proc_scheme) wrapped" where
  "Pthread_cond_timedwait n p = zero_or_die ''pthread_cond_timedwait error'' n p"

definition Pthread_once :: "errno option \<Rightarrow> 'p proc_scheme \<Rightarrow> (unit, 'p proc_scheme) wrapped" where
  "Pthread_once n p = zero_or_die ''pthread_once error'' n p"

definition Pthread_key_create :: "errno option \<Rightarrow> 'p proc_scheme \<Rightarrow> (unit, 'p proc_scheme) wrapped" where
  "Pthread_key_create n p = zero_or_die ''pthread_key_create error'' n p"

definition Pthread_setspecific :: "errno option \<Rightarrow> 'p proc_scheme \<Rightarrow> (unit, 'p proc_scheme) wrapped" where
  "Pthread_setspecific n p = zero_or_die ''pthread_setspecific error'' n p"

section \<open>What all wrappers have in common\<close>

text \<open>
  A wrapped call is well behaved for an answer when it hands the answer on and leaves the process as
  it was, or ends the process with status 1.
\<close>

definition dies_or :: "'a option \<Rightarrow> 'p \<Rightarrow> ('a, 'p) wrapped \<Rightarrow> bool" where
  "dies_or v p w \<longleftrightarrow>
     (case v of Some a \<Rightarrow> w = Inr (a, p) | None \<Rightarrow> \<exists>p'. w = Inl (Exits 1, p'))"

lemma or_die_dies: "dies_or (case r of Inl _ \<Rightarrow> None | Inr v \<Rightarrow> Some v) p (or_die msg r p)"
  by (simp add: dies_or_def or_die_def err_sys_def split: sum.split)

lemma or_quit_dies: "dies_or r p (or_quit msg r p)"
  by (simp add: dies_or_def or_quit_def err_quit_def split: option.split)

lemma zero_or_die_dies: "dies_or (case n of None \<Rightarrow> Some () | Some _ \<Rightarrow> None) p (zero_or_die msg n p)"
  by (simp add: dies_or_def zero_or_die_def err_sys_def split: option.split)

lemma all_or_die_dies: "dies_or (if r = Inr n then Some () else None) p (all_or_die msg n r p)"
  by (simp add: dies_or_def all_or_die_def err_sys_def split: sum.split)

lemma iov_bytes_sum: "iov_bytes n bs = n + length (concat bs)"
  by (induction n bs rule: iov_bytes.induct) simp_all

text \<open>\<^verbatim>\<open>Sendmsg\<close> returns exactly when the kernel took every byte of every buffer.\<close>

lemma Sendmsg_all:
  "(\<exists>p'. Sendmsg bs r p = Inr ((), p')) \<longleftrightarrow> r = Inr (length (concat bs))"
  using all_or_die_dies [of r "iov_bytes 0 bs" p "''sendmsg error''"]
  by (auto simp: Sendmsg_def dies_or_def iov_bytes_sum split: if_splits)

end
