(* ===== verification/Unp_Stream.thy ===== *)
theory Unp_Stream
  imports Unp_Wrap_More
begin

text \<open>
  The functions of the library that read and write a stream in full (\<^verbatim>\<open>SampleCode/unpv13e/lib\<close>:
  \<^verbatim>\<open>readn.c\<close>, \<^verbatim>\<open>writen.c\<close>, \<^verbatim>\<open>readline.c\<close>) and the slow version of \<^verbatim>\<open>readline\<close> that the library
  keeps for comparison (\<^verbatim>\<open>test/readline1.c\<close>).  They go on after a short read or write and after
  \<^verbatim>\<open>EINTR\<close>.  Memory is an array; a write behind its end is a fault of the model.
\<close>

text \<open>The value of such a function: a count, -1 with \<^verbatim>\<open>errno\<close> set, no return yet, or a fault.\<close>

datatype io = Count nat | Failed | Waits | Fault fault

section \<open>readn.c\<close>

text \<open>The loop with \<^verbatim>\<open>ptr\<close> at \<open>off\<close> and \<^verbatim>\<open>nleft\<close> bytes to go; \<open>off\<close> is then \<^verbatim>\<open>n - nleft\<close>.\<close>

function readn_loop ::
    "string \<Rightarrow> nat \<Rightarrow> nat \<Rightarrow> conn \<Rightarrow> 'p proc_scheme \<Rightarrow> io \<times> string \<times> conn \<times> 'p proc_scheme" where
  "readn_loop buf off nleft c p =
     (if nleft = 0 then (Count off, buf, c, p)
      else
        (case sys_read nleft (rq c) of
           (Got s, es) \<Rightarrow>
             (case store buf off s of
                Inl f \<Rightarrow> (Fault f, buf, c\<lparr>rq := es\<rparr>, p)
              | Inr b \<Rightarrow> readn_loop b (off + length s) (nleft - length s) (c\<lparr>rq := es\<rparr>) p)
         | (Eof, es) \<Rightarrow> (Count off, buf, c\<lparr>rq := es\<rparr>, p)
         | (RdWait, es) \<Rightarrow> (Waits, buf, c\<lparr>rq := es\<rparr>, p)
         | (RdFail e, es) \<Rightarrow>
             if e = EINTR then readn_loop buf off nleft (c\<lparr>rq := es\<rparr>) (p\<lparr>errnum := e\<rparr>)
             else (Failed, buf, c\<lparr>rq := es\<rparr>, p\<lparr>errnum := e\<rparr>)))"
  by pat_completeness auto
termination
  by (relation "measure (\<lambda>(buf, off, nleft, c, p). ev_size (rq c))")
    (auto dest: sys_read_size_less [OF sym])

declare readn_loop.simps [simp del]

definition readn ::
    "string \<Rightarrow> nat \<Rightarrow> conn \<Rightarrow> 'p proc_scheme \<Rightarrow> io \<times> string \<times> conn \<times> 'p proc_scheme" where
  "readn vptr n c p = readn_loop vptr 0 n c p"

text \<open>What a caller sees that dies on -1: the count, or the end of the process.\<close>

definition count_or_die ::
    "string \<Rightarrow> io \<times> string \<times> conn \<times> 'p proc_scheme
     \<Rightarrow> (nat \<times> string \<times> conn, 'p proc_scheme) wrapped" where
  "count_or_die msg r = (case r of
       (Count n, buf, c, p) \<Rightarrow> Inr ((n, buf, c), p)
     | (Failed, buf, c, p) \<Rightarrow> Inl (err_sys msg p)
     | (Waits, buf, c, p) \<Rightarrow> Inl (Blocks, p)
     | (Fault f, buf, c, p) \<Rightarrow> Inl (Undef f, p))"

definition Readn ::
    "string \<Rightarrow> nat \<Rightarrow> conn \<Rightarrow> 'p proc_scheme \<Rightarrow> (nat \<times> string \<times> conn, 'p proc_scheme) wrapped" where
  "Readn ptr nbytes c p = count_or_die ''readn error'' (readn ptr nbytes c p)"

section \<open>writen.c\<close>

text \<open>A write that takes nothing is an error, as is any failure but \<^verbatim>\<open>EINTR\<close>.\<close>

function writen_loop :: "string \<Rightarrow> conn \<Rightarrow> 'p proc_scheme \<Rightarrow> bool \<times> conn \<times> 'p proc_scheme" where
  "writen_loop d c p =
     (if d = [] then (True, c, p)
      else
        (case sys_write d c of
           (Wrote k, c1) \<Rightarrow> if k = 0 then (False, c1, p) else writen_loop (drop k d) c1 p
         | (WrFail e, c1) \<Rightarrow>
             if e = EINTR then writen_loop d c1 (p\<lparr>errnum := e\<rparr>) else (False, c1, p\<lparr>errnum := e\<rparr>)))"
  by pat_completeness auto
termination
  by (relation "measure (\<lambda>(d, c, p). length d + length (wq c))")
    (auto simp: sys_write_def split: list.splits wr_event.splits)

declare writen_loop.simps [simp del]

definition writen :: "string \<Rightarrow> conn \<Rightarrow> 'p proc_scheme \<Rightarrow> io \<times> conn \<times> 'p proc_scheme" where
  "writen d c p = (case writen_loop d c p of
       (ok, c1, p1) \<Rightarrow> (if ok then Count (length d) else Failed, c1, p1))"

definition Writen :: "string \<Rightarrow> conn \<Rightarrow> 'p proc_scheme \<Rightarrow> stop \<times> conn \<times> 'p proc_scheme" where
  "Writen d c p = (case writen d c p of
       (r, c1, p1) \<Rightarrow>
         if r \<noteq> Count (length d) then (case err_sys ''writen error'' p1 of (s, p2) \<Rightarrow> (s, c1, p2))
         else (Returns, c1, p1))"

section \<open>readline.c\<close>

text \<open>
  The buffer behind \<^verbatim>\<open>my_read\<close> is static: \<^verbatim>\<open>read_cnt\<close> bytes from \<^verbatim>\<open>read_ptr\<close> on have not been handed
  out.  Every descriptor of the process shares it.
\<close>

record rline = proc +
  read_cnt :: int
  read_ptr :: nat
  read_buf :: string

text \<open>\<^verbatim>\<open>my_read\<close>: one byte, end of file (0), failure (-1), or no byte yet.\<close>

datatype my_rc = Byte char | AtEof | Minus1 | NoByte | MyFault fault

definition next_byte :: "'a rline_scheme \<Rightarrow> my_rc \<times> 'a rline_scheme" where
  "next_byte p =
     (if length (read_buf p) \<le> read_ptr p then (MyFault Overrun, p)
      else (Byte (read_buf p ! read_ptr p),
            p\<lparr>read_cnt := read_cnt p - 1, read_ptr := read_ptr p + 1\<rparr>))"

function my_refill :: "conn \<Rightarrow> 'a rline_scheme \<Rightarrow> my_rc \<times> conn \<times> 'a rline_scheme" where
  "my_refill c p =
     (case sys_read MAXLINE (rq c) of
        (Got s, es) \<Rightarrow>
          (case store (read_buf p) 0 s of
             Inl f \<Rightarrow> (MyFault f, c\<lparr>rq := es\<rparr>, p)
           | Inr b \<Rightarrow>
               (case next_byte (p\<lparr>read_buf := b, read_cnt := int (length s), read_ptr := 0\<rparr>) of
                  (r, p1) \<Rightarrow> (r, c\<lparr>rq := es\<rparr>, p1)))
      | (Eof, es) \<Rightarrow> (AtEof, c\<lparr>rq := es\<rparr>, p\<lparr>read_cnt := 0\<rparr>)
      | (RdWait, es) \<Rightarrow> (NoByte, c\<lparr>rq := es\<rparr>, p)
      | (RdFail e, es) \<Rightarrow>
          (let p1 = p\<lparr>read_cnt := - 1, errnum := e\<rparr> in
           if e = EINTR then my_refill (c\<lparr>rq := es\<rparr>) p1 else (Minus1, c\<lparr>rq := es\<rparr>, p1)))"
  by pat_completeness auto
termination
  by (relation "measure (\<lambda>(c, p). ev_size (rq c))")
    (auto simp: MAXLINE_def dest: sys_read_size_less [OF sym])

declare my_refill.simps [simp del]

definition my_read :: "conn \<Rightarrow> 'a rline_scheme \<Rightarrow> my_rc \<times> conn \<times> 'a rline_scheme" where
  "my_read c p =
     (if read_cnt p \<le> 0 then my_refill c p
      else (case next_byte p of (r, p1) \<Rightarrow> (r, c, p1)))"

text \<open>
  The loop of \<^verbatim>\<open>readline\<close>; \<^verbatim>\<open>ptr\<close> is always at \<open>n - 1\<close>.  \<open>poke\<close> writes one character.
\<close>

definition poke :: "string \<Rightarrow> nat \<Rightarrow> char \<Rightarrow> fault + string" where
  "poke buf i ch = store buf i [ch]"

text \<open>
  The counter \<open>left = maxlen - n\<close> decreases.  At the end of the loop \<^verbatim>\<open>*ptr\<close> is the position behind
  the last character stored: behind the newline after \<^verbatim>\<open>break\<close>, at \<open>n - 1\<close> when the loop runs out.
\<close>

definition finish_line ::
    "string \<Rightarrow> nat \<Rightarrow> nat \<Rightarrow> 's \<Rightarrow> io \<times> string \<times> 's" where
  "finish_line buf i n st =
     (case poke buf i nul of Inl f \<Rightarrow> (Fault f, buf, st) | Inr b \<Rightarrow> (Count n, b, st))"

text \<open>
  The loop over any source of bytes \<open>get\<close>, for \<^verbatim>\<open>readline\<close> of \<^verbatim>\<open>lib/readline.c\<close> and for the version
  that reads single bytes from the descriptor: they differ only in it.
\<close>

fun line_loop ::
    "('s \<Rightarrow> my_rc \<times> 's) \<Rightarrow> nat \<Rightarrow> string \<Rightarrow> nat \<Rightarrow> 's \<Rightarrow> io \<times> string \<times> 's" where
  "line_loop get 0 buf n st = finish_line buf (n - 1) n st"
| "line_loop get (Suc left) buf n st =
     (case get st of
        (Byte ch, st1) \<Rightarrow>
          (case poke buf (n - 1) ch of
             Inl f \<Rightarrow> (Fault f, buf, st1)
           | Inr b \<Rightarrow>
               if ch = CHR 0x0A then finish_line b n n st1
               else line_loop get left b (Suc n) st1)
      | (AtEof, st1) \<Rightarrow> finish_line buf (n - 1) (n - 1) st1
      | (Minus1, st1) \<Rightarrow> (Failed, buf, st1)
      | (NoByte, st1) \<Rightarrow> (Waits, buf, st1)
      | (MyFault f, st1) \<Rightarrow> (Fault f, buf, st1))"

definition readline ::
    "string \<Rightarrow> nat \<Rightarrow> conn \<Rightarrow> 'a rline_scheme \<Rightarrow> io \<times> string \<times> conn \<times> 'a rline_scheme" where
  "readline vptr maxlen c p = line_loop (\<lambda>(c, p). my_read c p) (maxlen - 1) vptr 1 (c, p)"

definition readlinebuf :: "'a rline_scheme \<Rightarrow> (nat option \<times> int)" where
  "readlinebuf p = (if read_cnt p \<noteq> 0 then Some (read_ptr p) else None, read_cnt p)"

definition Readline ::
    "string \<Rightarrow> nat \<Rightarrow> conn \<Rightarrow> 'a rline_scheme \<Rightarrow> (nat \<times> string \<times> conn, 'a rline_scheme) wrapped" where
  "Readline ptr maxlen c p = count_or_die ''readline error'' (readline ptr maxlen c p)"

section \<open>test/readline1.c\<close>

function read_byte :: "conn \<Rightarrow> 'p proc_scheme \<Rightarrow> my_rc \<times> conn \<times> 'p proc_scheme" where
  "read_byte c p =
     (case sys_read 1 (rq c) of
        (Got s, es) \<Rightarrow> (Byte (s ! 0), c\<lparr>rq := es\<rparr>, p)
      | (Eof, es) \<Rightarrow> (AtEof, c\<lparr>rq := es\<rparr>, p)
      | (RdWait, es) \<Rightarrow> (NoByte, c\<lparr>rq := es\<rparr>, p)
      | (RdFail e, es) \<Rightarrow>
          if e = EINTR then read_byte (c\<lparr>rq := es\<rparr>) (p\<lparr>errnum := e\<rparr>)
          else (Minus1, c\<lparr>rq := es\<rparr>, p\<lparr>errnum := e\<rparr>))"
  by pat_completeness auto
termination
  by (relation "measure (\<lambda>(c, p). ev_size (rq c))")
    (auto dest: sys_read_size_less [OF sym])

declare read_byte.simps [simp del]

definition readline_slow ::
    "string \<Rightarrow> nat \<Rightarrow> conn \<Rightarrow> 'p proc_scheme \<Rightarrow> io \<times> string \<times> conn \<times> 'p proc_scheme" where
  "readline_slow vptr maxlen c p = line_loop (\<lambda>(c, p). read_byte c p) (maxlen - 1) vptr 1 (c, p)"

section \<open>What a descriptor will deliver, byte by byte\<close>

text \<open>
  The view of a script in which neither the cut into segments nor interrupted reads show; behind the
  end of the stream nothing is read.
\<close>

datatype item = B char | E errno | Stop

fun items :: "rd_event list \<Rightarrow> item list" where
  "items [] = []"
| "items (Seg s # es) = map B s @ items es"
| "items (RdErr e # es) = (if e = EINTR then items es else E e # items es)"
| "items (Fin # es) = [Stop]"

lemma sys_read_items:
  assumes "sys_read n es = (r, es')" and "0 < n"
  shows "case r of
      Got s \<Rightarrow> s \<noteq> [] \<and> items es = map B s @ items es'
    | Eof \<Rightarrow> items es = [Stop] \<and> items es' = [Stop]
    | RdWait \<Rightarrow> items es = [] \<and> items es' = []
    | RdFail e \<Rightarrow> items es = (if e = EINTR then [] else [E e]) @ items es'"
  using assms
proof (induction n es rule: sys_read.induct)
  case (5 n c cs es)
  then show ?case
    by (auto split: if_splits simp flip: map_append append_assoc simp del: map_append append_assoc)
qed (auto split: rd_result.splits if_splits)

lemma items_payload: "payload es = s \<Longrightarrow> \<exists>r. items es = map B s @ r"
  by (induction es arbitrary: s rule: payload.induct) auto

fun next_item :: "item list \<Rightarrow> my_rc \<times> item list" where
  "next_item [] = (NoByte, [])"
| "next_item (B ch # is) = (Byte ch, is)"
| "next_item (E e # is) = (Minus1, is)"
| "next_item (Stop # is) = (AtEof, Stop # is)"

text \<open>
  The interface between \<^verbatim>\<open>readline\<close> and the function it gets its bytes from: \<open>view\<close> is what is still
  to come, \<open>ok\<close> an invariant of the source.  Then \<^verbatim>\<open>readline\<close> does on the source what it does on the
  items themselves.
\<close>

locale byte_source =
  fixes get :: "'s \<Rightarrow> my_rc \<times> 's"
    and view :: "'s \<Rightarrow> item list"
    and ok :: "'s \<Rightarrow> bool"
  assumes get_view: "ok s \<Longrightarrow> get s = (r, s') \<Longrightarrow> next_item (view s) = (r, view s')"
    and get_ok: "ok s \<Longrightarrow> get s = (r, s') \<Longrightarrow> ok s'"
begin

lemma line_view:
  assumes "line_loop get left buf n s = (r, b, s')" and "ok s"
  shows "line_loop next_item left buf n (view s) = (r, b, view s') \<and> ok s'"
  using assms
proof (induction left arbitrary: buf n s)
  case 0
  then show ?case by (auto simp: finish_line_def split: sum.splits)
next
  case (Suc left)
  obtain x s1 where g: "get s = (x, s1)" by (cases "get s")
  note v = get_view [OF Suc.prems(2) g] and o = get_ok [OF Suc.prems(2) g]
  show ?case
  proof (cases x)
    case (Byte ch)
    then show ?thesis
    proof (cases "poke buf (n - 1) ch")
      case (Inr b1)
      show ?thesis
      proof (cases "ch = CHR 0x0A")
        case True
        then show ?thesis using Suc.prems g v o Byte Inr
          by (auto simp: finish_line_def split: sum.splits)
      next
        case False
        then have "line_loop get left b1 (Suc n) s1 = (r, b, s')"
          using Suc.prems g Byte Inr by simp
        from Suc.IH [OF this o] show ?thesis using g v Byte Inr False by simp
      qed
    qed (use Suc.prems g v o in auto)
  qed (use Suc.prems g v o in \<open>auto simp: finish_line_def split: sum.splits\<close>)
qed

end

section \<open>The two sources of bytes\<close>

definition pending :: "'a rline_scheme \<Rightarrow> string" where
  "pending p = take (nat (read_cnt p)) (drop (read_ptr p) (read_buf p))"

definition rline_ok :: "'a rline_scheme \<Rightarrow> bool" where
  "rline_ok p \<longleftrightarrow> length (read_buf p) = MAXLINE
     \<and> (read_cnt p \<le> 0 \<or> read_ptr p + nat (read_cnt p) \<le> MAXLINE)"

definition line_view_of :: "conn \<times> 'a rline_scheme \<Rightarrow> item list" where
  "line_view_of = (\<lambda>(c, p). map B (pending p) @ items (rq c))"

lemma next_byte_pending:
  assumes "rline_ok p" and "0 < read_cnt p" and "next_byte p = (r, p')"
  shows "\<exists>ch. r = Byte ch \<and> pending p = ch # pending p' \<and> rline_ok p'"
proof -
  let ?b = "read_buf p" and ?i = "read_ptr p"
  obtain k where k: "nat (read_cnt p) = Suc k" using assms(2) by (cases "nat (read_cnt p)") auto
  with assms have i: "?i < length ?b" by (auto simp: rline_ok_def)
  with assms(3) have "r = Byte (?b ! ?i)"
    and p': "p' = p\<lparr>read_cnt := read_cnt p - 1, read_ptr := ?i + 1\<rparr>"
    by (auto simp: next_byte_def)
  moreover have "pending p = ?b ! ?i # pending p'"
    using i k assms(2) by (simp add: pending_def p' Cons_nth_drop_Suc [symmetric] nat_diff_distrib')
  moreover have "rline_ok p'" using assms k by (auto simp: rline_ok_def p')
  ultimately show ?thesis by blast
qed

lemma pending_none: "read_cnt p \<le> 0 \<Longrightarrow> pending p = []"
  by (simp add: pending_def)

lemma my_refill_view:
  assumes "rline_ok p" and "read_cnt p \<le> 0" and "my_refill c p = (r, c', p')"
  shows "next_item (items (rq c)) = (r, line_view_of (c', p')) \<and> rline_ok p'"
  using assms
proof (induction c p rule: my_refill.induct)
  case (1 c p)
  obtain x es where rd: "sys_read MAXLINE (rq c) = (x, es)" by (cases "sys_read MAXLINE (rq c)")
  note it = sys_read_items [OF rd]
  show ?case
  proof (cases x)
    case (Got s)
    let ?p = "p\<lparr>read_buf := splice (read_buf p) 0 s, read_cnt := int (length s), read_ptr := 0\<rparr>"
    have l: "length s \<le> length (read_buf p)"
      using sys_read_Got(3) [of MAXLINE "rq c" s es] rd Got "1.prems"(1) by (simp add: rline_ok_def)
    with it Got have s: "s \<noteq> []" "items (rq c) = map B s @ items es"
      by (auto simp: MAXLINE_def)
    have st: "store (read_buf p) 0 s = Inr (splice (read_buf p) 0 s)"
      using l by (auto simp: store_def)
    have ok: "rline_ok ?p" using l "1.prems"(1) by (auto simp: rline_ok_def)
    have pe: "pending ?p = s" using l by (simp add: pending_def take_splice_0)
    obtain r1 p1 where nb: "next_byte ?p = (r1, p1)" by (cases "next_byte ?p")
    with next_byte_pending [OF ok _ nb] s pe obtain ch where
      ch: "r1 = Byte ch" "s = ch # pending p1" "rline_ok p1" by auto
    have "my_refill c p = (r1, c\<lparr>rq := es\<rparr>, p1)"
      using rd Got st nb by (subst my_refill.simps) simp
    with "1.prems"(3) ch s show ?thesis by (auto simp: line_view_of_def)
  next
    case (RdFail e)
    let ?p = "p\<lparr>read_cnt := - 1, errnum := e\<rparr>"
    have ok: "rline_ok ?p" using "1.prems"(1) by (simp add: rline_ok_def)
    show ?thesis
    proof (cases "e = EINTR")
      case True
      have "my_refill c p = my_refill (c\<lparr>rq := es\<rparr>) ?p"
        using rd RdFail True by (subst my_refill.simps) simp
      with "1.prems"(3) have "my_refill (c\<lparr>rq := es\<rparr>) ?p = (r, c', p')" by simp
      from "1.IH" [OF rd [symmetric] RdFail refl True ok _ this] it RdFail True
      show ?thesis by (simp add: MAXLINE_def)
    next
      case False
      have "my_refill c p = (Minus1, c\<lparr>rq := es\<rparr>, ?p)"
        using rd RdFail False by (subst my_refill.simps) simp
      with "1.prems"(3) it RdFail False ok show ?thesis
        by (auto simp: line_view_of_def pending_none MAXLINE_def)
    qed
  next
    case Eof
    have "my_refill c p = (AtEof, c\<lparr>rq := es\<rparr>, p\<lparr>read_cnt := 0\<rparr>)"
      using rd Eof by (subst my_refill.simps) simp
    with "1.prems" it Eof show ?thesis
      by (auto simp: line_view_of_def pending_none MAXLINE_def rline_ok_def)
  next
    case RdWait
    have "my_refill c p = (NoByte, c\<lparr>rq := es\<rparr>, p)"
      using rd RdWait by (subst my_refill.simps) simp
    with "1.prems" it RdWait show ?thesis
      by (auto simp: line_view_of_def pending_none MAXLINE_def)
  qed
qed

lemma my_read_view:
  assumes "rline_ok p" and "my_read c p = (r, c', p')"
  shows "next_item (line_view_of (c, p)) = (r, line_view_of (c', p')) \<and> rline_ok p'"
proof (cases "read_cnt p \<le> 0")
  case True
  with assms my_refill_view [of p c] show ?thesis
    by (simp add: my_read_def line_view_of_def pending_none)
next
  case False
  obtain r1 p1 where nb: "next_byte p = (r1, p1)" by (cases "next_byte p")
  with next_byte_pending [OF assms(1) _ nb] False assms(2) show ?thesis
    by (auto simp: my_read_def line_view_of_def)
qed

interpretation buffered: byte_source "\<lambda>(c, p). my_read c p" line_view_of "\<lambda>(c, p). rline_ok p"
  by unfold_locales (auto dest: my_read_view)

lemma read_byte_view:
  "read_byte c p = (r, c', p') \<Longrightarrow> next_item (items (rq c)) = (r, items (rq c'))"
proof (induction c p rule: read_byte.induct)
  case (1 c p)
  obtain x es where rd: "sys_read 1 (rq c) = (x, es)" by (cases "sys_read 1 (rq c)")
  note it = sys_read_items [OF rd]
  show ?case
  proof (cases x)
    case (Got s)
    with rd it sys_read_Got(3) [of 1 "rq c" s es] obtain ch where "s = [ch]"
      by (cases s) auto
    with 1(2) rd Got it show ?thesis by (subst (asm) read_byte.simps) auto
  next
    case (RdFail e)
    then show ?thesis using 1 rd it by (subst (asm) (2) read_byte.simps) (auto split: if_splits)
  qed (use 1(2) rd it in \<open>(subst (asm) read_byte.simps, auto)\<close>)+
qed

interpretation unbuffered: byte_source "\<lambda>(c, p). read_byte c p" "\<lambda>(c, p). items (rq c)" "\<lambda>_. True"
  by unfold_locales (auto dest: read_byte_view)

section \<open>Lines\<close>

lemma line_loop_chars:
  assumes "CHR 0x0A \<notin> set l" and "length l \<le> left" and "1 \<le> n" and "n - 1 + length l \<le> length buf"
  shows "line_loop next_item left buf n (map B l @ is)
    = line_loop next_item (left - length l) (splice buf (n - 1) l) (n + length l) is"
  using assms
proof (induction l arbitrary: left buf n)
  case (Cons ch l)
  then obtain m where m: "left = Suc m" by (cases left) auto
  have p: "poke buf (n - 1) ch = Inr (splice buf (n - 1) [ch])"
    using Cons.prems by (simp add: poke_def store_def)
  have s: "splice (splice buf (n - 1) [ch]) n l = splice buf (n - 1) (ch # l)"
    using Cons.prems splice_append [of "n - 1" "[ch]" l buf] by simp
  have "line_loop next_item m (splice buf (n - 1) [ch]) (Suc n) (map B l @ is)
    = line_loop next_item (m - length l) (splice (splice buf (n - 1) [ch]) n l) (Suc n + length l) is"
    using Cons.IH [of m "Suc n" "splice buf (n - 1) [ch]"] Cons.prems m by simp
  with p s Cons.prems m show ?case by auto
qed simp

lemma finish_line_at:
  "off + length d < length buf \<Longrightarrow>
   finish_line (splice buf off d) (off + length d) k st = (Count k, splice buf off (d @ [nul]), st)"
  using splice_append [of off d "[nul]" buf]
  by (simp add: finish_line_def poke_def store_def)

lemma line_found:
  assumes "CHR 0x0A \<notin> set l" and "Suc (length l) < maxlen" and "maxlen \<le> length buf"
  shows "line_loop next_item (maxlen - 1) buf 1 (map B (l @ nl) @ is)
    = (Count (length l + 1), splice buf 0 (l @ nl @ [nul]), is)"
proof -
  obtain m where m: "maxlen - 1 - length l = Suc m" using assms(2) by (cases "maxlen - 1 - length l") auto
  have "line_loop next_item (maxlen - 1) buf 1 (map B l @ B (CHR 0x0A) # is)
    = line_loop next_item (Suc m) (splice buf 0 l) (1 + length l) (B (CHR 0x0A) # is)"
    using line_loop_chars [of l "maxlen - 1" 1 buf "B (CHR 0x0A) # is"] assms m by simp
  also have "\<dots> = finish_line (splice buf 0 (l @ nl)) (length l + 1) (length l + 1) is"
    using assms splice_append [of 0 l nl buf] by (simp add: poke_def store_def)
  also have "\<dots> = (Count (length l + 1), splice buf 0 (l @ nl @ [nul]), is)"
    using finish_line_at [of 0 "l @ nl" buf "length l + 1" "is"] assms by simp
  finally show ?thesis by simp
qed

lemma line_at_eof:
  assumes "CHR 0x0A \<notin> set l" and "Suc (length l) < maxlen" and "maxlen \<le> length buf"
  shows "line_loop next_item (maxlen - 1) buf 1 (map B l @ [Stop])
    = (Count (length l), splice buf 0 (l @ [nul]), [Stop])"
proof -
  obtain m where m: "maxlen - 1 - length l = Suc m" using assms(2) by (cases "maxlen - 1 - length l") auto
  have "line_loop next_item (maxlen - 1) buf 1 (map B l @ [Stop])
    = line_loop next_item (Suc m) (splice buf 0 l) (1 + length l) [Stop]"
    using line_loop_chars [of l "maxlen - 1" 1 buf "[Stop]"] assms m by simp
  then show ?thesis using finish_line_at [of 0 l buf "length l" "[Stop]"] assms by simp
qed

text \<open>A line that does not fit: one character less is stored than the function returns.\<close>

lemma line_too_long:
  assumes "CHR 0x0A \<notin> set l" and "length l = maxlen - 1" and "0 < maxlen" and "maxlen \<le> length buf"
  shows "line_loop next_item (maxlen - 1) buf 1 (map B l @ is)
    = (Count maxlen, splice buf 0 (l @ [nul]), is)"
proof -
  have "line_loop next_item (maxlen - 1) buf 1 (map B l @ is)
    = finish_line (splice buf 0 l) (length l) maxlen is"
    using line_loop_chars [of l "maxlen - 1" 1 buf "is"] assms by simp
  then show ?thesis using finish_line_at [of 0 l buf maxlen "is"] assms by simp
qed

lemmas line_results = line_found line_at_eof line_too_long

section \<open>readn and writen\<close>

text \<open>
  What \<open>readn\<close> promises: it stored the bytes \<open>s\<close>, which are what was taken from the stream, and stopped
  before the end of the request only at end of file, at an error or because no more will come.
\<close>

definition readn_result ::
    "io \<Rightarrow> nat \<Rightarrow> nat \<Rightarrow> string \<Rightarrow> item list \<Rightarrow> item list \<Rightarrow> errno \<Rightarrow> bool" where
  "readn_result r off n s before behind e \<longleftrightarrow> (case r of
      Count k \<Rightarrow> k = off + length s \<and> length s \<le> n \<and> before = map B s @ behind
        \<and> (length s < n \<longrightarrow> behind = [Stop])
    | Failed \<Rightarrow> length s < n \<and> before = map B s @ E e # behind
    | Waits \<Rightarrow> length s < n \<and> before = map B s \<and> behind = []
    | Fault f \<Rightarrow> False)"

lemma readn_result_length: "readn_result r off n s bs bs' e \<Longrightarrow> length s \<le> n"
  by (auto simp: readn_result_def split: io.splits)

lemma readn_result_append:
  "readn_result r (off + length s) (n - length s) t bs bs' e \<Longrightarrow> length s \<le> n \<Longrightarrow>
   readn_result r off n (s @ t) (map B s @ bs) bs' e"
  by (auto simp: readn_result_def split: io.splits)

lemma readn_loop_items:
  assumes "readn_loop buf off nleft c p = (r, b, c', p')" and "off + nleft \<le> length buf"
  shows "\<exists>s. b = splice buf off s \<and> readn_result r off nleft s (items (rq c)) (items (rq c')) (errnum p')"
  using assms
proof (induction buf off nleft c p rule: readn_loop.induct)
  case (1 buf off nleft c p)
  show ?case
  proof (cases "nleft = 0")
    case True
    then show ?thesis using "1.prems" by (subst (asm) readn_loop.simps) (auto simp: readn_result_def intro!: exI [of _ "[]"])
  next
    case False
    obtain x es where rd: "sys_read nleft (rq c) = (x, es)" by (cases "sys_read nleft (rq c)")
    note it = sys_read_items [OF rd]
    show ?thesis
    proof (cases x)
      case (Got s)
      have l: "length s \<le> nleft" using sys_read_Got(3) rd Got by blast
      have st: "store buf off s = Inr (splice buf off s)"
        using l "1.prems"(2) by (simp add: store_def)
      have "readn_loop (splice buf off s) (off + length s) (nleft - length s) (c\<lparr>rq := es\<rparr>) p = (r, b, c', p')"
        using "1.prems"(1) rd Got st False by (subst (asm) readn_loop.simps) simp
      from "1.IH"(1) [OF False rd [symmetric] Got st this] l "1.prems"(2) obtain t where
        t: "b = splice (splice buf off s) (off + length s) t"
          "readn_result r (off + length s) (nleft - length s) t (items es) (items (rq c')) (errnum p')"
        by auto
      have "splice (splice buf off s) (off + length s) t = splice buf off (s @ t)"
        using l readn_result_length [OF t(2)] "1.prems"(2) by (intro splice_append) simp
      then show ?thesis using t readn_result_append [OF t(2) l] it Got False
        by (intro exI [of _ "s @ t"]) simp
    next
      case (RdFail e)
      show ?thesis
      proof (cases "e = EINTR")
        case True
        have "readn_loop buf off nleft (c\<lparr>rq := es\<rparr>) (p\<lparr>errnum := e\<rparr>) = (r, b, c', p')"
          using "1.prems"(1) rd RdFail True False by (subst (asm) readn_loop.simps) simp
        from "1.IH"(2) [OF False rd [symmetric] RdFail True this "1.prems"(2)] it RdFail True False
        show ?thesis by simp
      next
        case nintr: False
        then show ?thesis using "1.prems"(1) rd RdFail False it
          by (subst (asm) readn_loop.simps) (auto simp: readn_result_def intro!: exI [of _ "[]"])
      qed
    next
      case Eof
      then show ?thesis using "1.prems"(1) rd False it
        by (subst (asm) readn_loop.simps) (auto simp: readn_result_def intro!: exI [of _ "[]"])
    next
      case RdWait
      then show ?thesis using "1.prems"(1) rd False it
        by (subst (asm) readn_loop.simps) (auto simp: readn_result_def intro!: exI [of _ "[]"])
    qed
  qed
qed

text \<open>A descriptor whose writes go on sooner or later: they may be short or interrupted.\<close>

definition patient :: "wr_event \<Rightarrow> bool" where
  "patient e \<longleftrightarrow> e = WrAll \<or> (\<exists>k > 0. e = WrShort k) \<or> e = WrErr EINTR"

lemma writen_loop_sent:
  assumes "writen_loop d c p = (ok, c', p')"
  shows "\<exists>k \<le> length d. sent c' = sent c @ take k d \<and> (ok \<longrightarrow> k = length d)
    \<and> rq c' = rq c \<and> set (wq c') \<subseteq> set (wq c)
    \<and> ((\<forall>e \<in> set (wq c). patient e) \<longrightarrow> ok)"
  using assms
proof (induction d c p rule: writen_loop.induct)
  case (1 d c p)
  show ?case
  proof (cases "d = []")
    case True
    then show ?thesis using "1.prems" by (subst (asm) writen_loop.simps) auto
  next
    case False
    obtain w c1 where w: "sys_write d c = (w, c1)" by (cases "sys_write d c")
    then have sub: "set (wq c1) \<subseteq> set (wq c)"
      by (auto simp: sys_write_def split: list.splits wr_event.splits)
    show ?thesis
    proof (cases w)
      case (Wrote k)
      have k: "k \<le> length d" "sent c1 = sent c @ take k d" and rq: "rq c1 = rq c"
        using sys_write_sent [OF w] Wrote sys_write_keeps_rq [OF w] by auto
      have pat: "\<forall>e \<in> set (wq c). patient e \<Longrightarrow> 0 < k"
        using w Wrote False by (auto simp: sys_write_def patient_def split: list.splits wr_event.splits)
      show ?thesis
      proof (cases "k = 0")
        case True
        then show ?thesis using "1.prems" w Wrote False k rq sub pat
          by (subst (asm) writen_loop.simps) auto
      next
        case k0: False
        have "writen_loop (drop k d) c1 p = (ok, c', p')"
          using "1.prems" w Wrote False k0 by (subst (asm) writen_loop.simps) simp
        from "1.IH"(1) [OF False w [symmetric] Wrote k0 this] obtain j where
          "j \<le> length d - k" "sent c' = sent c1 @ take j (drop k d)" "ok \<longrightarrow> j = length d - k"
          "rq c' = rq c1" "set (wq c') \<subseteq> set (wq c1)" "(\<forall>e \<in> set (wq c1). patient e) \<longrightarrow> ok"
          by auto
        then show ?thesis using k rq sub
          by (intro exI [of _ "k + j"]) (auto simp: take_add)
      qed
    next
      case (WrFail e)
      have s: "sent c1 = sent c" "rq c1 = rq c"
        using sys_write_sent [OF w] WrFail sys_write_keeps_rq [OF w] by auto
      have pat: "\<forall>e \<in> set (wq c). patient e \<Longrightarrow> e = EINTR"
        using w WrFail by (auto simp: sys_write_def patient_def split: list.splits wr_event.splits)
      show ?thesis
      proof (cases "e = EINTR")
        case True
        have "writen_loop d c1 (p\<lparr>errnum := e\<rparr>) = (ok, c', p')"
          using "1.prems" w WrFail False True by (subst (asm) writen_loop.simps) simp
        from "1.IH"(2) [OF False w [symmetric] WrFail True this] obtain k where
          "k \<le> length d" "sent c' = sent c1 @ take k d" "ok \<longrightarrow> k = length d"
          "rq c' = rq c1" "set (wq c') \<subseteq> set (wq c1)" "(\<forall>e \<in> set (wq c1). patient e) \<longrightarrow> ok"
          by blast
        then show ?thesis using s sub by (intro exI [of _ k]) auto
      next
        case nintr: False
        then show ?thesis using "1.prems" w WrFail False s sub pat
          by (subst (asm) writen_loop.simps) auto
      qed
    qed
  qed
qed

section \<open>Properties\<close>

text \<open>\<^verbatim>\<open>readn\<close> on an array that holds \<^verbatim>\<open>n\<close> bytes never writes outside it and takes from the stream
  exactly the bytes it stores, however they are cut and whenever reads are interrupted: it returns less
  than \<^verbatim>\<open>n\<close> only at the end of the file, -1 only for an error other than \<^verbatim>\<open>EINTR\<close>.\<close>

theorem readn_takes_n_bytes:
  assumes "n \<le> length vptr"
  shows "\<exists>r s c' p'. readn vptr n c p = (r, splice vptr 0 s, c', p')
    \<and> readn_result r 0 n s (items (rq c)) (items (rq c')) (errnum p')"
proof -
  obtain r b c' p' where r: "readn_loop vptr 0 n c p = (r, b, c', p')"
    by (cases "readn_loop vptr 0 n c p")
  from readn_loop_items [OF this] assms show ?thesis by (auto simp: readn_def r)
qed

definition idle_proc :: proc where
  "idle_proc = \<lparr>inp = [], out = [], err = [], daemon_proc = False, slog = [], errnum = EIO\<rparr>"

definition hello_conn :: conn where
  "hello_conn = \<lparr>rq = [Seg ''hel'', RdErr EINTR, Seg (''lo'' @ nl @ ''you''), Fin], wq = [WrShort 2], sent = []\<rparr>"

theorem readn_takes_n_bytes_witness:
  "\<exists>r s c' p'. readn (replicate 8 nul) 5 hello_conn idle_proc = (r, splice (replicate 8 nul) 0 s, c', p')
    \<and> readn_result r 0 5 s (items (rq hello_conn)) (items (rq c')) (errnum p')"
  by (rule readn_takes_n_bytes) simp

text \<open>\<^verbatim>\<open>writen\<close> sends the bytes of its buffer once and in order: all of them when it returns the
  length, a part from the front when it fails, and it does not fail on a descriptor whose writes are at
  worst short or interrupted.\<close>

theorem writen_sends_all:
  "\<exists>r k c' p'. writen d c p = (r, c', p') \<and> sent c' = sent c @ take k d
    \<and> (r = Count (length d) \<and> length d \<le> k \<or> r = Failed \<and> (\<exists>e \<in> set (wq c). \<not> patient e))"
proof -
  obtain ok c' p' where w: "writen_loop d c p = (ok, c', p')" by (cases "writen_loop d c p")
  from writen_loop_sent [OF this] w show ?thesis by (auto simp: writen_def)
qed

text \<open>C29: The buffered \<^verbatim>\<open>readline\<close> is the slow one: on the same bytes still to come it returns the same
  count, leaves the same array and the same bytes, so a sequence of calls does so too.\<close>

theorem readline_equals_slow:
  assumes "rline_ok p" and "line_view_of (c, p) = items (rq d)"
    and "readline vptr n c p = (r, b, c', p')" and "readline_slow vptr n d q = (r', b', d', q')"
  shows "r = r' \<and> b = b' \<and> line_view_of (c', p') = items (rq d') \<and> rline_ok p'"
  using buffered.line_view [OF assms(3) [unfolded readline_def]]
    unbuffered.line_view [OF assms(4) [unfolded readline_slow_def]] assms(1,2)
  by simp

definition idle_rline :: rline where
  "idle_rline = \<lparr>inp = [], out = [], err = [], daemon_proc = False, slog = [], errnum = EIO,
     read_cnt = 0, read_ptr = 0, read_buf = replicate MAXLINE nul\<rparr>"

lemma idle_rline_ok: "rline_ok idle_rline" "pending idle_rline = []"
  by (simp_all add: rline_ok_def pending_def idle_rline_def)

theorem readline_equals_slow_witness:
  "\<exists>r b c' p' d' q'. readline (replicate 9 nul) 9 hello_conn idle_rline = (r, b, c', p')
    \<and> readline_slow (replicate 9 nul) 9 hello_conn idle_proc = (r, b, d', q')
    \<and> line_view_of (c', p') = items (rq d') \<and> rline_ok p'"
proof -
  obtain r b c' p' where f: "readline (replicate 9 nul) 9 hello_conn idle_rline = (r, b, c', p')"
    by (cases "readline (replicate 9 nul) 9 hello_conn idle_rline")
  obtain r' b' d' q' where g: "readline_slow (replicate 9 nul) 9 hello_conn idle_proc = (r', b', d', q')"
    by (cases "readline_slow (replicate 9 nul) 9 hello_conn idle_proc")
  have "line_view_of (hello_conn, idle_rline) = items (rq hello_conn)"
    by (simp add: line_view_of_def idle_rline_ok)
  from readline_equals_slow [OF idle_rline_ok(1) this f g] f g show ?thesis by auto
qed

text \<open>\<^verbatim>\<open>readline\<close> with room for \<^verbatim>\<open>maxlen\<close> characters stores the next line with its newline and a null
  character and returns its length; a line too long for it is cut, and then the value is \<^verbatim>\<open>maxlen\<close>, one
  more than the number of characters it stored.\<close>

theorem readline_delivers_line:
  assumes "rline_ok p" and "0 < maxlen" and "maxlen \<le> length vptr" and "CHR 0x0A \<notin> set l"
    and "line_view_of (c, p) = map B (l @ nl) @ is"
    and "readline vptr maxlen c p = (r, b, c', p')"
  shows "if Suc (length l) < maxlen
    then r = Count (length l + 1) \<and> b = splice vptr 0 (l @ nl @ [nul]) \<and> line_view_of (c', p') = is
    else r = Count maxlen \<and> b = splice vptr 0 (take (maxlen - 1) l @ [nul])
      \<and> line_view_of (c', p') = map B (drop (maxlen - 1) (l @ nl)) @ is"
proof (cases "Suc (length l) < maxlen")
  case True
  from buffered.line_view [OF assms(6) [unfolded readline_def]] assms(1,5)
    line_found [OF assms(4) True assms(3)] True show ?thesis by simp
next
  case False
  let ?l = "take (maxlen - 1) l" and ?is = "map B (drop (maxlen - 1) (l @ nl)) @ is"
  have v: "map B ?l @ ?is = map B (l @ nl) @ is"
    using False by (simp flip: map_append append_assoc)
  have "CHR 0x0A \<notin> set ?l" and "length ?l = maxlen - 1"
    using assms(4) False by (auto dest: in_set_takeD)
  from line_too_long [OF this assms(2,3), of ?is, unfolded v] False
    buffered.line_view [OF assms(6) [unfolded readline_def]] assms(1,5)
  show ?thesis by simp
qed

theorem readline_delivers_line_witness:
  "\<exists>r b c' p'. readline (replicate 4 nul) 4 hello_conn idle_rline = (r, b, c', p')
    \<and> r = Count 4 \<and> b = splice (replicate 4 nul) 0 (''hel'' @ [nul])
    \<and> line_view_of (c', p') = map B (''lo'' @ nl) @ map B ''you'' @ [Stop]"
proof -
  obtain r b c' p' where f: "readline (replicate 4 nul) 4 hello_conn idle_rline = (r, b, c', p')"
    by (cases "readline (replicate 4 nul) 4 hello_conn idle_rline")
  have "line_view_of (hello_conn, idle_rline) = map B (''hello'' @ nl) @ map B ''you'' @ [Stop]"
    by (simp add: line_view_of_def idle_rline_ok hello_conn_def)
  from readline_delivers_line [OF idle_rline_ok(1) _ _ _ this f] f show ?thesis by simp
qed

end
