(* ===== verification/Unp_Echo.thy ===== *)
theory Unp_Echo
  imports Unp_Stream
begin

text \<open>
  The echo service over TCP: the service loop (\<^verbatim>\<open>SampleCode/unpv13e/lib/str_echo.c\<close>) and the client loop
  (\<^verbatim>\<open>lib/str_cli.c\<close>), with the composition of the two.
\<close>

section \<open>Frames\<close>

lemma writen_loop_frame:
  "writen_loop d c p = (ok, c', p') \<Longrightarrow> \<exists>e. p' = p\<lparr>errnum := e\<rparr>"
proof (induction d c p rule: writen_loop.induct)
  case (1 d c p)
  then show ?case
    by (subst (asm) (3) writen_loop.simps)
      (auto split: if_splits prod.splits wr_result.splits intro: exI [of _ "errnum p"])
qed

lemma Writen_cases:
  assumes "Writen d c p = (s, c', p')"
  obtains e where "s = Returns" "p' = p\<lparr>errnum := e\<rparr>" "sent c' = sent c @ d" "rq c' = rq c"
      "set (wq c') \<subseteq> set (wq c)"
    | "s = Exits 1" "\<not> (\<forall>e \<in> set (wq c). patient e)" "rq c' = rq c" "inp p' = inp p"
proof -
  obtain ok c1 p1 where w: "writen_loop d c p = (ok, c1, p1)" by (cases "writen_loop d c p")
  obtain e where e: "p1 = p\<lparr>errnum := e\<rparr>" using writen_loop_frame [OF w] by blast
  from writen_loop_sent [OF w] obtain k where k: "k \<le> length d" "sent c1 = sent c @ take k d"
    "ok \<longrightarrow> k = length d" "rq c1 = rq c" "set (wq c1) \<subseteq> set (wq c)"
    "(\<forall>e \<in> set (wq c). patient e) \<longrightarrow> ok" by blast
  show ?thesis
  proof (cases ok)
    case True
    then show ?thesis using assms w e k by (intro that(1)) (auto simp: Writen_def writen_def)
  next
    case False
    then show ?thesis using assms w e k
      by (intro that(2)) (auto simp: Writen_def writen_def err_sys_def)
  qed
qed

lemma line_loop_inv:
  assumes "\<And>s r s'. get s = (r, s') \<Longrightarrow> P s \<Longrightarrow> P s'"
  shows "line_loop get left buf n s = (r, b, s') \<Longrightarrow> P s \<Longrightarrow> P s'"
proof (induction left arbitrary: buf n s)
  case 0
  then show ?case by (auto simp: finish_line_def split: sum.splits)
next
  case (Suc left)
  obtain x s1 where g: "get s = (x, s1)" by (cases "get s")
  with assms Suc.prems(2) have P1: "P s1" by blast
  show ?case using Suc.prems(1) g P1 Suc.IH
    by (auto simp: finish_line_def split: my_rc.splits sum.splits if_splits)
qed

text \<open>What \<^verbatim>\<open>readline\<close> leaves alone: what was sent, and the standard streams.\<close>

definition rest_of :: "conn \<times> 'a rline_scheme \<Rightarrow> wr_event list \<times> string \<times> string \<times> string" where
  "rest_of = (\<lambda>(c, p). (wq c, sent c, inp p, out p))"

lemma my_refill_rest: "my_refill c p = (r, c', p') \<Longrightarrow> rest_of (c', p') = rest_of (c, p)"
proof (induction c p rule: my_refill.induct)
  case (1 c p)
  obtain x es where rd: "sys_read MAXLINE (rq c) = (x, es)" by (cases "sys_read MAXLINE (rq c)")
  show ?case
  proof (cases x)
    case (Got s)
    then show ?thesis using 1(2) rd
      by (subst (asm) my_refill.simps)
        (auto simp: rest_of_def next_byte_def split: sum.splits if_splits prod.splits)
  next
    case (RdFail e)
    then show ?thesis using 1 rd
      by (subst (asm) (2) my_refill.simps) (auto simp: rest_of_def Let_def split: if_splits)
  qed (use 1(2) rd in \<open>(subst (asm) my_refill.simps, auto simp: rest_of_def)\<close>)+
qed

lemma my_read_rest: "my_read c p = (r, c', p') \<Longrightarrow> rest_of (c', p') = rest_of (c, p)"
  using my_refill_rest [of c p r c' p']
  by (auto simp: my_read_def rest_of_def next_byte_def split: if_splits prod.splits)

lemma readline_rest:
  assumes "readline buf n c p = (r, b, c', p')"
  shows "rest_of (c', p') = rest_of (c, p)"
proof -
  let ?get = "\<lambda>(c, p). my_read c p" and ?P = "\<lambda>st. rest_of st = rest_of (c, p)"
  have *: "?P st'" if "?get st = (x, st')" "?P st" for st x st'
    using that by (cases st; cases st') (auto dest: my_read_rest)
  show ?thesis
    using line_loop_inv [of ?get ?P "n - 1" buf 1 "(c, p)" r b "(c', p')"] * assms
    unfolding readline_def by blast
qed

section \<open>str_echo.c\<close>

text \<open>\<^verbatim>\<open>goto again\<close> is the loop once more.\<close>

function str_echo :: "conn \<Rightarrow> 'p proc_scheme \<Rightarrow> stop \<times> conn \<times> 'p proc_scheme" where
  "str_echo c p =
     (case sys_read MAXLINE (rq c) of
        (Got buf, es) \<Rightarrow>
          (case Writen buf (c\<lparr>rq := es\<rparr>) p of
             (Returns, c1, p1) \<Rightarrow> str_echo c1 p1
           | (s, c1, p1) \<Rightarrow> (s, c1, p1))
      | (Eof, es) \<Rightarrow> (Returns, c\<lparr>rq := es\<rparr>, p)
      | (RdWait, es) \<Rightarrow> (Blocks, c\<lparr>rq := es\<rparr>, p)
      | (RdFail e, es) \<Rightarrow>
          if e = EINTR then str_echo (c\<lparr>rq := es\<rparr>) (p\<lparr>errnum := e\<rparr>)
          else (case err_sys ''str_echo: read error'' (p\<lparr>errnum := e\<rparr>) of
                  (s, p1) \<Rightarrow> (s, c\<lparr>rq := es\<rparr>, p1)))"
  by pat_completeness auto
termination
  by (relation "measure (\<lambda>(c, p). ev_size (rq c))")
    (auto simp: MAXLINE_def dest: sys_read_size_less [OF sym] elim!: Writen_cases [OF sym])

declare str_echo.simps [simp del]

lemma items_prefix:
  "map B b @ y = map B d @ is \<Longrightarrow> \<forall>ch. hd is \<noteq> B ch \<or> is = [] \<Longrightarrow>
   \<exists>d'. d = b @ d' \<and> y = map B d' @ is"
proof (induction b arbitrary: d)
  case (Cons x b)
  then show ?case by (cases d) (auto simp: Cons_eq_append_conv)
qed auto

text \<open>The bytes that arrive before anything else happens go back, however they arrive.\<close>

lemma str_echo_echoes:
  assumes "str_echo c p = (s, c', p')" and "\<forall>e \<in> set (wq c). patient e"
    and "items (rq c) = map B d @ is" and "\<forall>ch. hd is \<noteq> B ch \<or> is = []"
  shows "sent c' = sent c @ d \<and> s = (case is of [] \<Rightarrow> Blocks | Stop # _ \<Rightarrow> Returns | _ \<Rightarrow> Exits 1)"
  using assms(1-3)
proof (induction c p arbitrary: d rule: str_echo.induct)
  case (1 c p)
  obtain x es where rd: "sys_read MAXLINE (rq c) = (x, es)" by (cases "sys_read MAXLINE (rq c)")
  then have it: "case x of Got s \<Rightarrow> s \<noteq> [] \<and> items (rq c) = map B s @ items es
    | Eof \<Rightarrow> items (rq c) = [Stop] \<and> items es = [Stop]
    | RdWait \<Rightarrow> items (rq c) = [] \<and> items es = []
    | RdFail e \<Rightarrow> items (rq c) = (if e = EINTR then [] else [E e]) @ items es"
    by (rule sys_read_items) (simp add: MAXLINE_def)
  show ?case
  proof (cases x)
    case (Got b)
    with it "1.prems"(3) have "map B b @ items es = map B d @ is" by simp
    from items_prefix [OF this assms(4)] obtain d' where
      d: "d = b @ d'" "items es = map B d' @ is" by blast
    obtain s1 c1 p1 where w: "Writen b (c\<lparr>rq := es\<rparr>) p = (s1, c1, p1)"
      by (cases "Writen b (c\<lparr>rq := es\<rparr>) p")
    then show ?thesis
    proof (cases rule: Writen_cases)
      case (1 e)
      with "1.prems"(1) rd Got w have "str_echo c1 p1 = (s, c', p')"
        by (subst (asm) str_echo.simps) simp
      from "1.IH"(1) [OF rd [symmetric] Got w [symmetric] 1(1) refl this] 1 d "1.prems"(2)
      show ?thesis by auto
    qed (use "1.prems"(2) in auto)
  next
    case (RdFail e)
    show ?thesis
    proof (cases "e = EINTR")
      case True
      with "1.prems"(1) rd RdFail have "str_echo (c\<lparr>rq := es\<rparr>) (p\<lparr>errnum := e\<rparr>) = (s, c', p')"
        by (subst (asm) str_echo.simps) simp
      moreover from it RdFail True "1.prems"(3) have "items es = map B d @ is" by simp
      ultimately show ?thesis
        using "1.IH"(2) [OF rd [symmetric] RdFail True, of d] "1.prems"(2) by simp
    next
      case False
      with it RdFail "1.prems"(3) have "d = []" "is = E e # items es" by (cases d; auto)+
      then show ?thesis using "1.prems"(1) rd RdFail False
        by (subst (asm) str_echo.simps) (auto simp: err_sys_def)
    qed
  next
    case Eof
    with it "1.prems"(3) have "d = []" "is = [Stop]" by (cases d; auto)+
    then show ?thesis using "1.prems"(1) rd Eof by (subst (asm) str_echo.simps) auto
  next
    case RdWait
    with it "1.prems"(3) have "d = []" "is = []" by auto
    then show ?thesis using "1.prems"(1) rd RdWait by (subst (asm) str_echo.simps) auto
  qed
qed

section \<open>str_cli.c\<close>

text \<open>
  \<open>ferr\<close> tells how the standard input ends (see \<open>Fgets\<close>), \<open>ws\<close> which calls of \<^verbatim>\<open>fputs\<close> fail (none
  after the end of the list); \<^verbatim>\<open>recvline\<close> keeps its contents between the rounds.
\<close>

function str_cli ::
    "errno option \<Rightarrow> errno option list \<Rightarrow> string \<Rightarrow> conn \<Rightarrow> 'a rline_scheme
     \<Rightarrow> stop \<times> conn \<times> 'a rline_scheme" where
  "str_cli ferr ws recvline c p =
     (case Fgets MAXLINE ferr p of
        Inl (s, p1) \<Rightarrow> (s, c, p1)
      | Inr (None, p1) \<Rightarrow> (Returns, c, p1)
      | Inr (Some sendline, p1) \<Rightarrow>
          (case Writen (cstr (sendline @ [nul])) c p1 of
             (Returns, c1, p2) \<Rightarrow>
               (case Readline recvline MAXLINE c1 p2 of
                  Inl (s, p3) \<Rightarrow> (s, c1, p3)
                | Inr ((n, b, c2), p3) \<Rightarrow>
                    if n = 0 then
                      (case err_quit ''str_cli: server terminated prematurely'' p3 of (s, p4) \<Rightarrow> (s, c2, p4))
                    else
                      (case Fputs (cstr b) (case ws of [] \<Rightarrow> None | w # _ \<Rightarrow> w) p3 of
                         Inl (s, p4) \<Rightarrow> (s, c2, p4)
                       | Inr (_, p4) \<Rightarrow> str_cli ferr (tl ws) b c2 p4))
           | (s, c1, p2) \<Rightarrow> (s, c1, p2)))"
  by pat_completeness auto

lemma Fgets_shorter:
  "Fgets MAXLINE ferr p = Inr (Some l, p1) \<Longrightarrow> length (inp p1) < length (inp p)"
  by (auto simp: Fgets_def MAXLINE_def dest: fgets_shorter split: option.splits)

lemma Writen_inp: "Writen d c p = (s, c', p') \<Longrightarrow> inp p' = inp p"
  by (erule Writen_cases) auto

lemma Readline_rest:
  "Readline b n c p = Inr ((k, b', c'), p') \<Longrightarrow> rest_of (c', p') = rest_of (c, p)"
  by (auto simp: Readline_def count_or_die_def dest: readline_rest split: io.splits prod.splits)

lemma Fputs_inp: "Fputs t w p = Inr (u, p') \<Longrightarrow> inp p' = inp p"
  by (auto simp: Fputs_def printf_def split: option.splits)

termination str_cli
  by (relation "measure (\<lambda>(ferr, ws, b, c, p). length (inp p))")
    (auto dest!: Fgets_shorter Writen_inp [OF sym] Readline_rest Fputs_inp simp: rest_of_def)

declare str_cli.simps [simp del]

section \<open>A client in dialogue with the service\<close>

text \<open>A line that \<^verbatim>\<open>fgets\<close> and \<^verbatim>\<open>readline\<close> take whole, and the text that lines make.\<close>

definition plain_line :: "string \<Rightarrow> bool" where
  "plain_line l \<longleftrightarrow> CHR 0x0A \<notin> set l \<and> nul \<notin> set l \<and> Suc (length l) < MAXLINE"

definition text_of :: "string list \<Rightarrow> string" where
  "text_of ls = concat (map (\<lambda>l. l @ nl) ls)"

lemma text_of_simps [simp]: "text_of [] = []" "text_of (l # ls) = l @ nl @ text_of ls"
  by (simp_all add: text_of_def)

lemma Readline_line:
  assumes "rline_ok p" and "length b = MAXLINE" and "plain_line l"
    and "line_view_of (c, p) = map B (l @ nl) @ is"
  obtains c' p' where "Readline b MAXLINE c p = Inr ((length l + 1, splice b 0 (l @ nl @ [nul]), c'), p')"
    "rline_ok p'" "line_view_of (c', p') = is"
proof -
  obtain r b' c' p' where r: "readline b MAXLINE c p = (r, b', c', p')"
    by (cases "readline b MAXLINE c p")
  from buffered.line_view [OF r [unfolded readline_def]] assms(1,4)
  have "line_loop next_item (MAXLINE - 1) b 1 (map B (l @ nl) @ is) = (r, b', line_view_of (c', p'))"
    and "rline_ok p'" by auto
  moreover have "line_loop next_item (MAXLINE - 1) b 1 (map B (l @ nl) @ is)
    = (Count (length l + 1), splice b 0 (l @ nl @ [nul]), is)"
    using assms(2,3) by (intro line_found) (auto simp: plain_line_def)
  ultimately show ?thesis using r by (intro that) (auto simp: Readline_def count_or_die_def)
qed

lemma str_cli_dialogue:
  assumes "str_cli None [] b c p = (s, c', p')" and "rline_ok p" and "length b = MAXLINE"
    and "\<forall>e \<in> set (wq c). patient e" and "\<forall>l \<in> set ls. plain_line l" and "inp p = text_of ls"
    and "line_view_of (c, p) = map B (text_of ls) @ is"
  shows "s = Returns \<and> sent c' = sent c @ text_of ls \<and> out p' = out p @ text_of ls
    \<and> line_view_of (c', p') = is"
  using assms
proof (induction ls arbitrary: b c p)
  case Nil
  then show ?case by (subst (asm) str_cli.simps) (auto simp: Fgets_def fgets_def)
next
  case (Cons l ls)
  have l: "plain_line l" and ls: "\<forall>l \<in> set ls. plain_line l" using Cons.prems(5) by auto
  let ?p1 = "p\<lparr>inp := text_of ls\<rparr>"
  have f: "Fgets MAXLINE None p = Inr (Some (l @ nl), ?p1)"
    using fgets_full_line [of l MAXLINE "text_of ls"] l Cons.prems(6)
    by (simp add: Fgets_def plain_line_def)
  have d: "cstr ((l @ nl) @ [nul]) = l @ nl"
    using cstr_append_nul [of "l @ nl" "[]"] l by (simp add: plain_line_def)
  obtain s1 c1 p2 where w: "Writen (l @ nl) c ?p1 = (s1, c1, p2)" by (cases "Writen (l @ nl) c ?p1")
  from w Cons.prems(4) obtain e where w1: "s1 = Returns" "p2 = ?p1\<lparr>errnum := e\<rparr>"
    "sent c1 = sent c @ l @ nl" "rq c1 = rq c" "set (wq c1) \<subseteq> set (wq c)"
    by (auto elim!: Writen_cases)
  have "line_view_of (c1, p2) = map B (l @ nl) @ map B (text_of ls) @ is" "rline_ok p2"
    using Cons.prems(2,7) w1 by (auto simp: line_view_of_def pending_def rline_ok_def)
  from Readline_line [OF this(2) Cons.prems(3) l this(1)] obtain c2 p3 where
    r: "Readline b MAXLINE c1 p2 = Inr ((length l + 1, splice b 0 (l @ nl @ [nul]), c2), p3)"
      "rline_ok p3" "line_view_of (c2, p3) = map B (text_of ls) @ is" by blast
  let ?b = "splice b 0 (l @ nl @ [nul])"
  have lb: "length ?b = MAXLINE" using l Cons.prems(3) by (simp add: plain_line_def)
  have cb: "cstr ?b = l @ nl"
    using l cstr_append_nul [of "l @ nl"] by (simp add: splice_def plain_line_def)
  have fr: "inp p3 = text_of ls" "out p3 = out p" "wq c2 = wq c1" "sent c2 = sent c1"
    using Readline_rest [OF r(1)] w1(2) by (auto simp: rest_of_def)
  have "str_cli None [] ?b c2 (printf (l @ nl) p3) = (s, c', p')"
    using Cons.prems(1) f d w w1(1) r(1) cb by (subst (asm) str_cli.simps) (simp add: Fputs_def)
  from Cons.IH [OF this _ lb _ ls] show ?case
    using r(2,3) fr w1 Cons.prems(4)
    by (auto simp: printf_def rline_ok_def line_view_of_def pending_def)
qed

section \<open>Properties\<close>

text \<open>C32: The echo client in dialogue with the echo service: when the service gets the text the client
  types, up to the end of it, and the client gets what the service sends, each cut in any way, with
  reads and writes interrupted and writes cut short, then both end normally, the client has sent its
  text and shown it line by line, and the service has echoed it.\<close>

theorem echo_dialogue:
  assumes "\<forall>l \<in> set ls. plain_line l" and "inp p = text_of ls"
    and "rline_ok p" and "pending p = []" and "length b = MAXLINE"
    and "\<forall>e \<in> set (wq cc). patient e" and "\<forall>e \<in> set (wq cs). patient e" and "sent cs = []"
    and "items (rq cs) = map B (text_of ls) @ [Stop]"
    and "str_echo cs q = (t, cs', q')" and "items (rq cc) = map B (sent cs')"
    and "str_cli None [] b cc p = (s, cc', p')"
  shows "s = Returns \<and> t = Returns \<and> sent cc' = sent cc @ text_of ls \<and> out p' = out p @ text_of ls
    \<and> sent cs' = text_of ls"
proof -
  have "sent cs' = text_of ls" "t = Returns"
    using str_echo_echoes [OF assms(10,7,9)] assms(8) by auto
  moreover from this assms(4,11) have "line_view_of (cc, p) = map B (text_of ls) @ []"
    by (simp add: line_view_of_def)
  from str_cli_dialogue [OF assms(12,3,5,6,1,2) this]
  have "s = Returns \<and> sent cc' = sent cc @ text_of ls \<and> out p' = out p @ text_of ls" by simp
  ultimately show ?thesis by blast
qed

definition cut_stream :: "rd_event list \<Rightarrow> conn" where
  "cut_stream es = \<lparr>rq = es, wq = [WrShort 1, WrErr EINTR], sent = []\<rparr>"

theorem echo_dialogue_witness:
  "\<exists>s t cc' p' cs' q'.
     str_echo (cut_stream [Seg ''a'', RdErr EINTR, Seg (nl @ ''bc''), Seg nl, Fin]) idle_proc = (t, cs', q')
     \<and> str_cli None [] (replicate MAXLINE nul) (cut_stream [Seg (''a'' @ nl @ ''b''), Seg (''c'' @ nl)])
         (idle_rline\<lparr>inp := text_of [''a'', ''bc'']\<rparr>) = (s, cc', p')
     \<and> s = Returns \<and> t = Returns \<and> out p' = ''a'' @ nl @ ''bc'' @ nl \<and> sent cs' = ''a'' @ nl @ ''bc'' @ nl"
proof -
  let ?cs = "cut_stream [Seg ''a'', RdErr EINTR, Seg (nl @ ''bc''), Seg nl, Fin]"
  let ?cc = "cut_stream [Seg (''a'' @ nl @ ''b''), Seg (''c'' @ nl)]"
  let ?p = "idle_rline\<lparr>inp := text_of [''a'', ''bc'']\<rparr>"
  obtain t cs' q' where f: "str_echo ?cs idle_proc = (t, cs', q')" by (cases "str_echo ?cs idle_proc")
  obtain s cc' p' where g: "str_cli None [] (replicate MAXLINE nul) ?cc ?p = (s, cc', p')"
    by (cases "str_cli None [] (replicate MAXLINE nul) ?cc ?p")
  have i: "items (rq ?cs) = map B (text_of [''a'', ''bc'']) @ [Stop]" by (simp add: cut_stream_def)
  have w: "\<forall>e \<in> set (wq ?cs). patient e" "\<forall>e \<in> set (wq ?cc). patient e"
    by (simp_all add: cut_stream_def patient_def)
  from str_echo_echoes [OF f w(1) i] have "items (rq ?cc) = map B (sent cs')"
    by (simp add: cut_stream_def)
  from echo_dialogue [OF _ _ _ _ _ w(2,1) _ i f this g] f g show ?thesis
    by (auto simp: plain_line_def MAXLINE_def rline_ok_def pending_def idle_rline_def cut_stream_def)
qed

end
