(* ===== verification/Unp_Echo_Server.thy ===== *)
theory Unp_Echo_Server
  imports Unp_Echo "HOL-Library.Word"
begin

unbundle bit_operations_syntax

text \<open>
  The echo programs (\<^verbatim>\<open>SampleCode/unpv13e/tcpcliserv\<close>): the clients \<^verbatim>\<open>tcpcli01\<close> and \<^verbatim>\<open>tcpcli04\<close>, and
  the forking servers \<^verbatim>\<open>tcpserv01\<close> to \<^verbatim>\<open>tcpserv04\<close> with their handlers for \<^verbatim>\<open>SIGCHLD\<close>.  A child works
  on a copy of the process and on its own connection, so what it does is recorded beside the parent.
\<close>

definition SERV_PORT :: nat where "SERV_PORT = 9877"
definition LISTENQ :: int where "LISTENQ = 1024"

section \<open>signal.c\<close>

text \<open>
  The system may lack either flag (\<^verbatim>\<open>#ifdef\<close>): \<open>None\<close>.  \<open>old\<close> is what \<^verbatim>\<open>sigaction\<close> answers.
\<close>

record 'h sigaction =
  sa_handler :: 'h
  sa_mask :: "int set"
  sa_flags :: "32 word"

definition new_act :: "32 word option \<Rightarrow> 32 word option \<Rightarrow> bool \<Rightarrow> 'h \<Rightarrow> 'h sigaction" where
  "new_act sa_interrupt sa_restart is_alrm func =
     \<lparr>sa_handler = func, sa_mask = {},
      sa_flags = 0 OR (case (if is_alrm then sa_interrupt else sa_restart) of None \<Rightarrow> 0 | Some f \<Rightarrow> f)\<rparr>"

definition Signal ::
    "errno + 'h sigaction \<Rightarrow> 'p proc_scheme \<Rightarrow> ('h, 'p proc_scheme) wrapped" where
  "Signal old p = or_die ''signal error'' (case old of Inl e \<Rightarrow> Inl e | Inr a \<Rightarrow> Inr (sa_handler a)) p"

section \<open>The clients\<close>

text \<open>What the kernel answers the clients; \<^verbatim>\<open>tcpcli04\<close> opens five connections.\<close>

record cli_kernel =
  ck_socket :: "errno + int"
  ck_pton :: int
  ck_connect :: "errno + unit"

definition open_conn :: "string \<Rightarrow> cli_kernel \<Rightarrow> 'r \<Rightarrow> 'a proc_scheme
    \<Rightarrow> ('a proc_scheme \<Rightarrow> stop \<times> 'r \<times> 'a proc_scheme) \<Rightarrow> stop \<times> 'r \<times> 'a proc_scheme" where
  "open_conn addr k d p cont =
     proceed d (Socket (ck_socket k) p) (\<lambda>_ p.
     proceed d (Inet_pton (ck_pton k) addr p) (\<lambda>_ p.
     proceed d (Connect (ck_connect k) p) (\<lambda>_ p. cont p)))"

definition main_tcpcli01 ::
    "string list \<Rightarrow> cli_kernel \<Rightarrow> errno option \<Rightarrow> errno option list \<Rightarrow> string \<Rightarrow> conn \<Rightarrow> 'a rline_scheme
     \<Rightarrow> stop \<times> conn \<times> 'a rline_scheme" where
  "main_tcpcli01 argv k ferr ws recvline c p =
     (if length argv \<noteq> 2
      then (case err_quit ''usage: tcpcli <IPaddress>'' p of (s, p1) \<Rightarrow> (s, c, p1))
      else open_conn (argv ! 1) k c p (\<lambda>p.
        (case str_cli ferr ws recvline c p of
           (s, c1, p1) \<Rightarrow> (if s = Returns then Exits 0 else s, c1, p1))))"

fun open_all :: "string \<Rightarrow> cli_kernel list \<Rightarrow> 'r \<Rightarrow> 'a proc_scheme
    \<Rightarrow> ('a proc_scheme \<Rightarrow> stop \<times> 'r \<times> 'a proc_scheme) \<Rightarrow> stop \<times> 'r \<times> 'a proc_scheme" where
  "open_all addr [] d p cont = cont p"
| "open_all addr (k # ks) d p cont = open_conn addr k d p (\<lambda>p. open_all addr ks d p cont)"

text \<open>\<open>ks\<close> has what the kernel answers in the five rounds; \<open>c\<close> is the first of the connections.\<close>

definition main_tcpcli04 ::
    "string list \<Rightarrow> cli_kernel list \<Rightarrow> errno option \<Rightarrow> errno option list \<Rightarrow> string \<Rightarrow> conn \<Rightarrow> 'a rline_scheme
     \<Rightarrow> stop \<times> conn \<times> 'a rline_scheme" where
  "main_tcpcli04 argv ks ferr ws recvline c p =
     (if length argv \<noteq> 2
      then (case err_quit ''usage: tcpcli <IPaddress>'' p of (s, p1) \<Rightarrow> (s, c, p1))
      else open_all (argv ! 1) (take 5 ks) c p (\<lambda>p.
        (case str_cli ferr ws recvline c p of
           (s, c1, p1) \<Rightarrow> (if s = Returns then Exits 0 else s, c1, p1))))"

section \<open>The handlers for SIGCHLD\<close>

text \<open>\<open>zombies\<close> are the children that have ended and have not been waited for, in the kernel's order.\<close>

record forker = proc +
  zombies :: "int list"

definition child_line :: "int \<Rightarrow> string" where
  "child_line pid = ''child '' @ show_int pid @ '' terminated'' @ nl"

text \<open>\<^verbatim>\<open>sigchldwait.c\<close>: one call of \<^verbatim>\<open>wait\<close>; it runs when a child has ended, so there is one to reap.\<close>

definition sig_chld_wait :: "'a forker_scheme \<Rightarrow> 'a forker_scheme" where
  "sig_chld_wait p = (case zombies p of
       [] \<Rightarrow> p
     | pid # rest \<Rightarrow> printf (child_line pid) (p\<lparr>zombies := rest\<rparr>))"

text \<open>\<^verbatim>\<open>sigchldwaitpid.c\<close>: \<^verbatim>\<open>waitpid\<close> without waiting, until no ended child is left.\<close>

fun waitpid_loop :: "int list \<Rightarrow> 'a forker_scheme \<Rightarrow> 'a forker_scheme" where
  "waitpid_loop [] p = p\<lparr>zombies := []\<rparr>"
| "waitpid_loop (pid # rest) p = waitpid_loop rest (printf (child_line pid) (p\<lparr>zombies := rest\<rparr>))"

definition sig_chld_waitpid :: "'a forker_scheme \<Rightarrow> 'a forker_scheme" where
  "sig_chld_waitpid p = waitpid_loop (zombies p) p"

section \<open>The servers\<close>

text \<open>
  What happens to a server that waits in \<^verbatim>\<open>accept\<close>: a connection (with what \<^verbatim>\<open>fork\<close>, the \<^verbatim>\<open>close\<close> of
  the parent and that of the child answer), a failure, or children that end, which deliver one signal
  together; the call then is restarted or fails with \<^verbatim>\<open>EINTR\<close>.
\<close>

record visitor =
  vlink :: conn
  vfork :: "errno + int"
  vclose :: "errno + unit"
  vchild_close :: "errno + unit"

datatype accept_ev = Visit visitor | AcceptErr errno | ChildrenEnd "int list" bool

definition echo_child :: "visitor \<Rightarrow> 'p proc_scheme \<Rightarrow> stop \<times> conn \<times> 'p proc_scheme" where
  "echo_child v p =
     proceed (vlink v) (Close (vchild_close v) p) (\<lambda>_ p.
       (case str_echo (vlink v) p of (s, c, p1) \<Rightarrow> (if s = Returns then Exits 0 else s, c, p1)))"

text \<open>
  The accept loop.  \<open>handler\<close> runs for a signal; \<open>retry e\<close> tells which failures of \<^verbatim>\<open>accept\<close> lead back
  to it: those that \<^verbatim>\<open>Accept\<close> tries again in \<^verbatim>\<open>tcpserv01\<close> and \<^verbatim>\<open>02\<close>, \<^verbatim>\<open>EINTR\<close> in \<^verbatim>\<open>03\<close> and \<^verbatim>\<open>04\<close>.
\<close>

type_synonym 'p children = "(stop \<times> conn \<times> 'p) list"

fun serv_loop ::
    "('a forker_scheme \<Rightarrow> 'a forker_scheme) \<Rightarrow> (errno \<Rightarrow> bool) \<Rightarrow> accept_ev list \<Rightarrow> 'a forker_scheme
     \<Rightarrow> stop \<times> 'a forker_scheme children \<times> 'a forker_scheme" where
  "serv_loop handler retry [] p = (Blocks, [], p)"
| "serv_loop handler retry (AcceptErr e # evs) p =
     (let p1 = p\<lparr>errnum := e\<rparr> in
      if retry e then serv_loop handler retry evs p1
      else (case err_sys ''accept error'' p1 of (s, p2) \<Rightarrow> (s, [], p2)))"
| "serv_loop handler retry (ChildrenEnd pids intr # evs) p =
     (let p1 = handler (p\<lparr>zombies := zombies p @ pids\<rparr>) in
      if \<not> intr then serv_loop handler retry evs p1
      else if retry EINTR then serv_loop handler retry evs (p1\<lparr>errnum := EINTR\<rparr>)
      else (case err_sys ''accept error'' (p1\<lparr>errnum := EINTR\<rparr>) of (s, p2) \<Rightarrow> (s, [], p2)))"
| "serv_loop handler retry (Visit v # evs) p =
     proceed [] (Fork (vfork v) p) (\<lambda>_ p1.
       (case proceed [] (Close (vclose v) p1) (\<lambda>_ p2. serv_loop handler retry evs p2) of
          (s, chs, p3) \<Rightarrow> (s, echo_child v p1 # chs, p3)))"

record srv_kernel =
  sk_socket :: "errno + int"
  sk_bind :: "errno + unit"
  sk_listen :: "int \<Rightarrow> errno + unit"
  sk_listenq :: "string option"

definition serv_open ::
    "srv_kernel \<Rightarrow> 'a proc_scheme \<Rightarrow> ('a proc_scheme \<Rightarrow> stop \<times> 'r list \<times> 'a proc_scheme)
     \<Rightarrow> stop \<times> 'r list \<times> 'a proc_scheme" where
  "serv_open k p cont =
     proceed [] (Socket (sk_socket k) p) (\<lambda>_ p.
     proceed [] (Bind (sk_bind k) p) (\<lambda>_ p.
     proceed [] (Listen (sk_listen k) (sk_listenq k) LISTENQ p) (\<lambda>_ p. cont p)))"

definition again_aborted :: "errno \<Rightarrow> bool" where
  "again_aborted e \<longleftrightarrow> e = EPROTO \<or> e = ECONNABORTED"

definition again_intr :: "errno \<Rightarrow> bool" where
  "again_intr e \<longleftrightarrow> e = EINTR"

text \<open>\<^verbatim>\<open>tcpserv01\<close> sets no handler: an ended child stays a zombie and interrupts nothing.\<close>

definition main_tcpserv01 ::
    "srv_kernel \<Rightarrow> accept_ev list \<Rightarrow> 'a forker_scheme
     \<Rightarrow> stop \<times> 'a forker_scheme children \<times> 'a forker_scheme" where
  "main_tcpserv01 k evs p = serv_open k p (\<lambda>p. serv_loop id again_aborted evs p)"

definition main_tcpserv02 ::
    "srv_kernel \<Rightarrow> errno + 'h sigaction \<Rightarrow> accept_ev list \<Rightarrow> 'a forker_scheme
     \<Rightarrow> stop \<times> 'a forker_scheme children \<times> 'a forker_scheme" where
  "main_tcpserv02 k old evs p =
     serv_open k p (\<lambda>p. proceed [] (Signal old p) (\<lambda>_ p. serv_loop sig_chld_wait again_aborted evs p))"

definition main_tcpserv03 ::
    "srv_kernel \<Rightarrow> errno + 'h sigaction \<Rightarrow> accept_ev list \<Rightarrow> 'a forker_scheme
     \<Rightarrow> stop \<times> 'a forker_scheme children \<times> 'a forker_scheme" where
  "main_tcpserv03 k old evs p =
     serv_open k p (\<lambda>p. proceed [] (Signal old p) (\<lambda>_ p. serv_loop sig_chld_wait again_intr evs p))"

definition main_tcpserv04 ::
    "srv_kernel \<Rightarrow> errno + 'h sigaction \<Rightarrow> accept_ev list \<Rightarrow> 'a forker_scheme
     \<Rightarrow> stop \<times> 'a forker_scheme children \<times> 'a forker_scheme" where
  "main_tcpserv04 k old evs p =
     serv_open k p (\<lambda>p. proceed [] (Signal old p) (\<lambda>_ p. serv_loop sig_chld_waitpid again_intr evs p))"

section \<open>Every child is reaped, every client served\<close>

lemma waitpid_loop_none [simp]: "zombies (waitpid_loop pids p) = []"
  by (induction pids p rule: waitpid_loop.induct) simp_all

definition ended :: "accept_ev list \<Rightarrow> int list" where
  "ended evs = concat (map (\<lambda>ev. case ev of ChildrenEnd pids _ \<Rightarrow> pids | _ \<Rightarrow> []) evs)"

definition signals :: "accept_ev list \<Rightarrow> nat" where
  "signals evs = length (filter (\<lambda>ev. case ev of ChildrenEnd _ _ \<Rightarrow> True | _ \<Rightarrow> False) evs)"

definition visitors :: "accept_ev list \<Rightarrow> visitor list" where
  "visitors evs = concat (map (\<lambda>ev. case ev of Visit v \<Rightarrow> [v] | _ \<Rightarrow> []) evs)"

lemma script_simps [simp]:
  "ended [] = []" "ended (Visit v # evs) = ended evs" "ended (AcceptErr e # evs) = ended evs"
  "ended (ChildrenEnd pids i # evs) = pids @ ended evs"
  "signals [] = 0" "signals (Visit v # evs) = signals evs" "signals (AcceptErr e # evs) = signals evs"
  "signals (ChildrenEnd pids i # evs) = Suc (signals evs)"
  "visitors [] = []" "visitors (Visit v # evs) = v # visitors evs"
  "visitors (AcceptErr e # evs) = visitors evs" "visitors (ChildrenEnd pids i # evs) = visitors evs"
  by (simp_all add: ended_def signals_def visitors_def)

text \<open>A script in which only interruptions happen besides visits, with visitors that can be served.\<close>

definition gentle_ev :: "accept_ev \<Rightarrow> bool" where
  "gentle_ev ev \<longleftrightarrow> (case ev of
      Visit v \<Rightarrow> (\<exists>pid. vfork v = Inr pid) \<and> vclose v = Inr () \<and> vchild_close v = Inr ()
        \<and> (\<forall>e \<in> set (wq (vlink v)). patient e) \<and> (\<exists>d. items (rq (vlink v)) = map B d @ [Stop])
    | AcceptErr e \<Rightarrow> e = EINTR
    | ChildrenEnd pids intr \<Rightarrow> pids \<noteq> [])"

text \<open>What a child did for its client.\<close>

definition echoed :: "visitor \<Rightarrow> stop \<times> conn \<times> 'p \<Rightarrow> bool" where
  "echoed v r \<longleftrightarrow> (case r of (s, c, p) \<Rightarrow>
      s = Exits 0 \<and> (\<exists>d. items (rq (vlink v)) = map B d @ [Stop] \<and> sent c = sent (vlink v) @ d))"

lemma echo_child_echoes:
  assumes "gentle_ev (Visit v)"
  shows "echoed v (echo_child v p)"
proof -
  from assms obtain d where v: "vchild_close v = Inr ()" "\<forall>e \<in> set (wq (vlink v)). patient e"
    "items (rq (vlink v)) = map B d @ [Stop]" by (auto simp: gentle_ev_def)
  obtain s c q where e: "str_echo (vlink v) p = (s, c, q)" by (cases "str_echo (vlink v) p")
  from str_echo_echoes [OF this v(2,3)] v e show ?thesis
    by (auto simp: echoed_def echo_child_def Close_def)
qed

lemma serv_loop_serves:
  assumes "\<forall>ev \<in> set evs. gentle_ev ev"
  shows "\<exists>p'. serv_loop handler again_intr evs p = (Blocks, fst (snd (serv_loop handler again_intr evs p)), p')
    \<and> list_all2 echoed (visitors evs) (fst (snd (serv_loop handler again_intr evs p)))"
  using assms
proof (induction evs arbitrary: p)
  case (Cons ev evs)
  have evs: "\<forall>ev \<in> set evs. gentle_ev ev" and ev: "gentle_ev ev" using Cons.prems by auto
  show ?case
  proof (cases ev)
    case (Visit v)
    with ev obtain pid where v: "vfork v = Inr pid" "vclose v = Inr ()" by (auto simp: gentle_ev_def)
    from Cons.IH [OF evs, of p] ev echo_child_echoes [of v p] show ?thesis
      by (auto simp: Visit v Fork_def Close_def split: prod.splits)
  next
    case (AcceptErr e)
    with ev Cons.IH [OF evs, of "p\<lparr>errnum := e\<rparr>"] show ?thesis
      by (simp add: gentle_ev_def again_intr_def)
  next
    case (ChildrenEnd pids intr)
    let ?p = "handler (p\<lparr>zombies := zombies p @ pids\<rparr>)"
    from Cons.IH [OF evs, of ?p] Cons.IH [OF evs, of "?p\<lparr>errnum := EINTR\<rparr>"] show ?thesis
      by (simp add: ChildrenEnd again_intr_def Let_def)
  qed
qed simp

lemma serv_loop_reaps:
  assumes "serv_loop sig_chld_waitpid retry evs p = (s, chs, p')" and "zombies p = []"
  shows "zombies p' = []"
  using assms
proof (induction evs arbitrary: p s chs)
  case (Cons ev evs)
  show ?case
  proof (cases ev)
    case (Visit v)
    then show ?thesis using Cons
      by (auto simp: Fork_def Close_def or_die_def proceed_def err_sys_def err_doit_def Let_def
          split: sum.splits prod.splits if_splits)
  qed (use Cons in \<open>auto simp: Let_def err_sys_def err_doit_def sig_chld_waitpid_def split: if_splits\<close>)
qed simp

lemma again_intr_EINTR: "again_intr EINTR"
  by (simp add: again_intr_def)

text \<open>One child for each signal at most, in the order in which they ended.\<close>

lemma serv_loop_wait:
  assumes "\<forall>ev \<in> set evs. gentle_ev ev" and "serv_loop sig_chld_wait again_intr evs p = (s, chs, p')"
  shows "zombies p' = drop (signals evs) (zombies p @ ended evs)"
  using assms
proof (induction evs arbitrary: p s chs)
  case (Cons ev evs)
  have evs: "\<forall>ev \<in> set evs. gentle_ev ev" and ev: "gentle_ev ev" using Cons.prems by auto
  show ?case
  proof (cases ev)
    case (Visit v)
    with ev obtain pid where v: "vfork v = Inr pid" "vclose v = Inr ()" by (auto simp: gentle_ev_def)
    then show ?thesis using Cons.prems(2) Cons.IH [OF evs]
      by (auto simp: Visit Fork_def Close_def split: prod.splits)
  next
    case (AcceptErr e)
    with ev Cons.IH [OF evs, of "p\<lparr>errnum := e\<rparr>" s chs] Cons.prems(2) show ?thesis
      by (simp add: gentle_ev_def again_intr_def)
  next
    case (ChildrenEnd pids intr)
    then have "zombies p @ pids \<noteq> []" using ev by (simp add: gentle_ev_def)
    then obtain z zs where z: "zombies p @ pids = z # zs" by (cases "zombies p @ pids") auto
    then have h: "zombies (sig_chld_wait (p\<lparr>zombies := z # zs\<rparr>)) = zs"
      by (simp add: sig_chld_wait_def printf_def)
    have d: "drop (Suc n) (zombies p @ pids @ r) = drop n (zs @ r)" for n r
      using z by (metis append.assoc append_Cons drop_Suc_Cons)
    from Cons.prems(2) z have "\<exists>q. zombies q = zs \<and> serv_loop sig_chld_wait again_intr evs q = (s, chs, p')"
      using h by (cases intr) (auto simp: ChildrenEnd again_intr_EINTR Let_def
          intro: exI [of _ "sig_chld_wait (p\<lparr>zombies := z # zs\<rparr>)\<lparr>errnum := EINTR\<rparr>"])
    with Cons.IH [OF evs] d show ?thesis by (auto simp: ChildrenEnd)
  qed
qed simp

section \<open>Properties\<close>

text \<open>C31: The server that handles \<^verbatim>\<open>SIGCHLD\<close> with \<^verbatim>\<open>waitpid\<close> and goes on after an interrupted \<^verbatim>\<open>accept\<close>
  serves every client with its own text and waits for the next one, and no child stays a zombie; the
  server whose handler calls \<^verbatim>\<open>wait\<close> once serves them too, but of children that end together it reaps
  one for each signal: the others stay.\<close>

theorem tcpserv04_serves_and_reaps:
  assumes "\<forall>ev \<in> set evs. gentle_ev ev" and "zombies p = []"
    and "sk_socket k = Inr fd" and "sk_bind k = Inr ()" and "\<forall>n. sk_listen k n = Inr ()"
    and "old = Inr act"
  shows "\<exists>chs p' chs3 p3. main_tcpserv04 k old evs p = (Blocks, chs, p')
    \<and> list_all2 echoed (visitors evs) chs \<and> zombies p' = []
    \<and> main_tcpserv03 k old evs p = (Blocks, chs3, p3)
    \<and> list_all2 echoed (visitors evs) chs3 \<and> zombies p3 = drop (signals evs) (ended evs)"
proof -
  have m: "main_tcpserv04 k old evs p = serv_loop sig_chld_waitpid again_intr evs p"
    "main_tcpserv03 k old evs p = serv_loop sig_chld_wait again_intr evs p"
    using assms(3-6)
    by (simp_all add: main_tcpserv04_def main_tcpserv03_def serv_open_def Socket_def Bind_def Listen_def
        Signal_def or_die_def proceed_def Let_def)
  from serv_loop_serves [OF assms(1), of sig_chld_waitpid p] obtain chs p' where
    a: "serv_loop sig_chld_waitpid again_intr evs p = (Blocks, chs, p')"
      "list_all2 echoed (visitors evs) chs" by auto
  from serv_loop_serves [OF assms(1), of sig_chld_wait p] obtain chs3 p3 where
    b: "serv_loop sig_chld_wait again_intr evs p = (Blocks, chs3, p3)"
      "list_all2 echoed (visitors evs) chs3" by auto
  from serv_loop_reaps [OF a(1) assms(2)] serv_loop_wait [OF assms(1) b(1)] a b assms(2)
  show ?thesis by (auto simp: m)
qed

definition idle_forker :: forker where
  "idle_forker = \<lparr>inp = [], out = [], err = [], daemon_proc = False, slog = [], errnum = EIO,
     zombies = []\<rparr>"

definition guest :: visitor where
  "guest = \<lparr>vlink = cut_stream [Seg ''hi'', Fin], vfork = Inr 41, vclose = Inr (), vchild_close = Inr ()\<rparr>"

definition calm_server :: srv_kernel where
  "calm_server = \<lparr>sk_socket = Inr 3, sk_bind = Inr (), sk_listen = (\<lambda>_. Inr ()), sk_listenq = None\<rparr>"

theorem tcpserv04_serves_and_reaps_witness:
  "\<exists>chs p' chs3 p3.
     main_tcpserv04 calm_server (Inr (new_act None None False ())) [Visit guest, ChildrenEnd [41, 42, 43] True] idle_forker
       = (Blocks, chs, p') \<and> list_all2 echoed [guest] chs \<and> zombies p' = []
     \<and> main_tcpserv03 calm_server (Inr (new_act None None False ())) [Visit guest, ChildrenEnd [41, 42, 43] True]
         idle_forker = (Blocks, chs3, p3) \<and> list_all2 echoed [guest] chs3 \<and> zombies p3 = [42, 43]"
proof -
  let ?evs = "[Visit guest, ChildrenEnd [41, 42, 43] True]"
  have "items (rq (vlink guest)) = map B ''hi'' @ [Stop]" by (simp add: guest_def cut_stream_def)
  then have "\<exists>d. items (rq (vlink guest)) = map B d @ [Stop]" by blast
  then have "\<forall>ev \<in> set ?evs. gentle_ev ev"
    by (simp add: gentle_ev_def) (simp add: guest_def cut_stream_def patient_def)
  from tcpserv04_serves_and_reaps [OF this, of idle_forker calm_server 3 "Inr (new_act None None False ())"
      "new_act None None False ()"] show ?thesis
    by (simp add: idle_forker_def calm_server_def)
qed

end
