(* ===== verification/Unp_Cksum.thy ===== *)
theory Unp_Cksum
  imports C_Base "HOL-Library.Word"
begin

unbundle bit_operations_syntax

text \<open>
  The Internet checksum (\<^verbatim>\<open>SampleCode/unpv13e/libfree/in_cksum.c\<close>) against its definition: the
  complement of the sum of the 16 bit words in ones' complement arithmetic.
\<close>

section \<open>in_cksum.c\<close>

text \<open>
  Memory is a list of bytes.  A \<^verbatim>\<open>uint16_t\<close> is read in the byte order of the machine; \<open>le\<close> tells whether
  the low byte comes first.
\<close>

definition load16 :: "bool \<Rightarrow> 8 word \<Rightarrow> 8 word \<Rightarrow> 16 word" where
  "load16 le a b = (if le then push_bit 8 (ucast b) OR ucast a else push_bit 8 (ucast a) OR ucast b)"

text \<open>The loop, and the odd byte behind it: it is put first into a zero \<^verbatim>\<open>answer\<close>.\<close>

fun sum_loop :: "bool \<Rightarrow> 8 word list \<Rightarrow> 32 word \<Rightarrow> 32 word" where
  "sum_loop le (a # b # w) s = sum_loop le w (s + ucast (load16 le a b))"
| "sum_loop le [a] s = s + ucast (load16 le a 0)"
| "sum_loop le [] s = s"

text \<open>Two folds; the second sum is not reduced again but cut to 16 bits.\<close>

definition fold_carries :: "32 word \<Rightarrow> 32 word" where
  "fold_carries s =
     (let s1 = drop_bit 16 s + (s AND 0xffff) in s1 + drop_bit 16 s1)"

definition in_cksum :: "bool \<Rightarrow> 8 word list \<Rightarrow> int \<Rightarrow> fault + 16 word" where
  "in_cksum le addr len =
     (if int (length addr) < len then Inl Overrun
      else Inr (ucast (NOT (fold_carries (sum_loop le (take (nat len) addr) 0)))))"

section \<open>The reference\<close>

text \<open>The sum as a number, and a number reduced with end-around carry.\<close>

fun total :: "bool \<Rightarrow> 8 word list \<Rightarrow> nat" where
  "total le (a # b # w) = unat (load16 le a b) + total le w"
| "total le [a] = unat (load16 le a 0)"
| "total le [] = 0"

definition ones_complement :: "nat \<Rightarrow> nat" where
  "ones_complement n = (if n = 0 then 0 else (n - 1) mod 65535 + 1)"

lemma unat16_le: "unat (w :: 16 word) \<le> 65535"
  using unsigned_less [of w, where ?'a = nat] by simp

lemma unat_ucast16: "unat (ucast (w :: 16 word) :: 32 word) = unat w"
  using unat16_le [of w] by (simp add: unsigned_ucast_eq take_bit_nat_eq_self)

lemma total_bound: "total le bs \<le> 65535 * ((length bs + 1) div 2)"
proof (induction le bs rule: total.induct)
  case (1 le a b w)
  then show ?case using unat16_le [of "load16 le a b"] by simp
next
  case (2 le a)
  then show ?case using unat16_le [of "load16 le a 0"] by simp
qed simp

lemma sum_loop_total:
  assumes "unat s + total le bs < 2 ^ 32"
  shows "unat (sum_loop le bs s) = unat s + total le bs"
  using assms
proof (induction le bs s rule: sum_loop.induct)
  case (1 le a b w s)
  have u: "unat (s + ucast (load16 le a b)) = unat s + unat (load16 le a b)"
    using 1(2) by (subst unat_add_lem [THEN iffD1]) (auto simp: unat_ucast16)
  with 1 show ?case by simp
next
  case (2 le a s)
  then show ?case by (simp, subst unat_add_lem [THEN iffD1]) (auto simp: unat_ucast16)
qed simp

lemma ones_complement_fold:
  assumes "h \<le> 65535" and "l \<le> 65535"
  shows "(h + l + (h + l) div 65536) mod 65536 = ones_complement (65536 * h + l)"
proof (cases "h + l = 0")
  case False
  have "65536 * h + l - 1 = 65535 * h + (h + l - 1)" using False by auto
  then have "(65536 * h + l - 1) mod 65535 = (65535 * h + (h + l - 1)) mod 65535" by (rule arg_cong)
  also have "\<dots> = (h + l - 1) mod 65535" by simp
  also have "\<dots> = (if h + l \<le> 65535 then h + l - 1 else h + l - 65536)"
  proof (cases "h + l \<le> 65535")
    case le: False
    then have "h + l - 1 = (h + l - 65536) + 65535" by simp
    then have "(h + l - 1) mod 65535 = (h + l - 65536) mod 65535" by (metis mod_add_self2)
    then show ?thesis using le assms by simp
  qed (use False in simp)
  finally have m: "(65536 * h + l - 1) mod 65535
    = (if h + l \<le> 65535 then h + l - 1 else h + l - 65536)" .
  have "(h + l + (h + l) div 65536) mod 65536 = (if h + l \<le> 65535 then h + l else h + l - 65535)"
  proof (cases "h + l \<le> 65535")
    case False
    then have "(h + l) div 65536 = 1" using assms by (intro div_nat_eqI) auto
    with False assms show ?thesis by (simp add: mod_if [of "Suc (h + l)"])
  qed simp
  with m show ?thesis using False by (auto simp: ones_complement_def)
qed (simp add: ones_complement_def)

lemma unat_high16: "unat (drop_bit 16 (w :: 32 word)) = unat w div 65536"
  using unsigned_less [of w, where ?'a = nat]
  by (simp add: unsigned_drop_bit_eq take_bit_nat_eq_self drop_bit_nat_def)

lemma unat_low16: "unat ((w :: 32 word) AND 0xffff) = unat w mod 65536"
proof -
  have "w AND 0xffff = take_bit 16 w" by (simp add: take_bit_eq_mask mask_eq_exp_minus_1)
  then show ?thesis by (simp add: unsigned_take_bit_eq take_bit_nat_def)
qed

lemma unat_fold_carries:
  "unat (fold_carries s) mod 65536 = ones_complement (unat s)"
proof -
  let ?h = "unat s div 65536" and ?l = "unat s mod 65536"
  let ?s1 = "drop_bit 16 s + (s AND 0xffff)"
  have h: "?h \<le> 65535" using unsigned_less [of s, where ?'a = nat] by simp
  have l: "?l \<le> 65535" using mod_less_divisor [of 65536 "unat s"] by linarith
  have s1: "unat ?s1 = ?h + ?l"
    using h l by (subst unat_add_lem [THEN iffD1]) (simp_all add: unat_high16 unat_low16)
  have "unat (?s1 + drop_bit 16 ?s1) = ?h + ?l + (?h + ?l) div 65536"
    using h l by (subst unat_add_lem [THEN iffD1]) (simp_all add: unat_high16 s1)
  then show ?thesis
    using ones_complement_fold [OF h l] by (simp add: fold_carries_def Let_def)
qed

lemma ones_complement_le: "ones_complement n \<le> 65535"
  using mod_less_divisor [of 65535 "n - 1"] by (auto simp: ones_complement_def)

lemma unat_not16: "unat (NOT (w :: 16 word)) = 65535 - unat w"
proof -
  have "NOT w = - 1 - w" by (simp add: not_eq_complement)
  moreover have "unat (- 1 - w) = unat (- 1 :: 16 word) - unat w" by (rule unat_sub) simp
  ultimately show ?thesis by (simp add: unsigned_minus_1_eq_mask mask_eq_exp_minus_1)
qed

lemma in_cksum_total:
  assumes "length bs < 2 ^ 17"
  shows "\<exists>c. in_cksum le bs (int (length bs)) = Inr c \<and> unat c = 65535 - ones_complement (total le bs)"
proof -
  have "(length bs + 1) div 2 \<le> 65536" using assms by simp
  then have "65535 * ((length bs + 1) div 2) \<le> 65535 * 65536" by (rule mult_le_mono2)
  then have "total le bs < 2 ^ 32" using total_bound [of le bs] by simp
  then have t: "unat (sum_loop le bs 0) = total le bs" by (subst sum_loop_total) simp_all
  let ?f = "fold_carries (sum_loop le bs 0)"
  have "unat (ucast ?f :: 16 word) = ones_complement (total le bs)"
    using unat_fold_carries [of "sum_loop le bs 0"] by (simp add: t unsigned_ucast_eq take_bit_nat_def)
  moreover have "ucast (NOT ?f) = NOT (ucast ?f :: 16 word)"
    by (rule bit_word_eqI) (simp add: bit_simps)
  ultimately show ?thesis by (simp add: in_cksum_def unat_not16)
qed

section \<open>Properties\<close>

lemma total_append: "even (length xs) \<Longrightarrow> total le (xs @ ys) = total le xs + total le ys"
  by (induction le xs rule: total.induct) simp_all

lemma ones_complement_add:
  "ones_complement (n + (65535 - ones_complement n)) = 65535"
proof (cases "n = 0")
  case True
  then show ?thesis by (simp add: ones_complement_def)
next
  case False
  let ?r = "(n - 1) mod 65535"
  have r: "?r < 65535" by simp
  have "n - 1 = 65535 * ((n - 1) div 65535) + ?r" by simp
  then have "n + (65535 - (?r + 1)) = 65535 * ((n - 1) div 65535) + 65535"
    using r False by linarith
  then have "n + (65535 - ones_complement n) = 65535 * ((n - 1) div 65535 + 1)"
    using False by (simp add: ones_complement_def)
  moreover have "ones_complement (65535 * (q + 1)) = 65535" for q
  proof -
    have "65535 * (q + 1) - 1 = 65534 + q * 65535" by simp
    then have "(65535 * (q + 1) - 1) mod 65535 = 65534" using mod_mult_self1 [of 65534 q 65535] by simp
    then show ?thesis by (simp add: ones_complement_def)
  qed
  ultimately show ?thesis by (metis)
qed

lemma in_cksum_receiver:
  assumes "length (pre @ [0, 0] @ post) < 2 ^ 17" and "even (length pre)"
    and "n = int (length (pre @ [0, 0] @ post))"
  shows "\<exists>c. in_cksum le (pre @ [0, 0] @ post) n = Inr c
    \<and> unat c = 65535 - ones_complement (total le (pre @ [0, 0] @ post))
    \<and> (\<forall>a b. c = load16 le a b \<longrightarrow> in_cksum le (pre @ [a, b] @ post) n = Inr 0)"
proof -
  let ?t = "total le (pre @ [0, 0] @ post)"
  have z: "load16 le 0 0 = 0" by (simp add: load16_def)
  from in_cksum_total [OF assms(1), of le] obtain c where
    c: "in_cksum le (pre @ [0, 0] @ post) n = Inr c" "unat c = 65535 - ones_complement ?t"
    using assms(3) by auto
  have "in_cksum le (pre @ [a, b] @ post) n = Inr 0" if ab: "c = load16 le a b" for a b
  proof -
    have "total le (pre @ [a, b] @ post) = ?t + unat c"
      using assms(2) z by (simp add: total_append ab)
    then have "ones_complement (total le (pre @ [a, b] @ post)) = 65535"
      using ones_complement_add [of ?t] by (simp only: c)
    with in_cksum_total [of "pre @ [a, b] @ post" le] assms(1,3) show ?thesis
      by (auto simp: unat_eq_0)
  qed
  with c show ?thesis by blast
qed

text \<open>C33: On data of less than 128 KiB the 32 bit sum does not overflow and the two folds suffice: the
  value of \<^verbatim>\<open>in_cksum\<close> is the complement of the ones' complement sum of the 16 bit words (an odd byte
  filled up with zero), on either byte order; and when it is put into the zero field it was computed
  with, the receiver, who sums all the data with the field, gets zero.\<close>

theorem in_cksum_verifies:
  assumes "length (pre @ [0, 0] @ post) < 2 ^ 17" and "even (length pre)"
    and "n = int (length (pre @ [0, 0] @ post))"
  shows "\<exists>c. in_cksum le (pre @ [0, 0] @ post) n = Inr c
    \<and> unat c = 65535 - ones_complement (total le (pre @ [0, 0] @ post))
    \<and> (\<forall>a b. c = load16 le a b \<longrightarrow> in_cksum le (pre @ [a, b] @ post) n = Inr 0)"
  using in_cksum_receiver [OF assms] .

theorem in_cksum_verifies_witness:
  "in_cksum True ([0x45, 0x00] @ [0, 0] @ [0x1c, 0x46, 0x40]) 7 = Inr 0xb95e
   \<and> in_cksum True ([0x45, 0x00] @ [0x5e, 0xb9] @ [0x1c, 0x46, 0x40]) 7 = Inr 0"
proof -
  have c: "in_cksum True ([0x45, 0x00] @ [0, 0] @ [0x1c, 0x46, 0x40]) 7 = Inr 0xb95e" by code_simp
  moreover have "(0xb95e :: 16 word) = load16 True 0x5e 0xb9" by code_simp
  ultimately show ?thesis
    using in_cksum_verifies [of "[0x45, 0x00]" "[0x1c, 0x46, 0x40]" 7 True] by auto
qed

end
