(* ===== verification/Unp_Inet.thy ===== *)
theory Unp_Inet
  imports Posix_Net Posix_IO
begin

unbundle bit_operations_syntax

text \<open>
  The conversions of Internet addresses that come with the library
  (\<^verbatim>\<open>SampleCode/unpv13e/libfree\<close>): the IPv4 part of \<^verbatim>\<open>inet_ntop.c\<close> and \<^verbatim>\<open>inet_pton.c\<close>,
  \<^verbatim>\<open>inet_aton.c\<close>, and the two short versions of \<^verbatim>\<open>inet_ntop\<close> and \<^verbatim>\<open>inet_pton\<close> in
  \<^verbatim>\<open>inet_ntop_ipv4.c\<close> and \<^verbatim>\<open>inet_pton_ipv4.c\<close>.  An address is the list of its bytes in network order.
\<close>

definition AF_INET :: int where "AF_INET = 2"
definition AF_INET6 :: int where "AF_INET6 = 10"

section \<open>Writing an IPv4 address\<close>

text \<open>The conversion \<^verbatim>\<open>%u.%u.%u.%u\<close> of the four bytes behind \<^verbatim>\<open>src\<close>.\<close>

definition quad_text :: "8 word list \<Rightarrow> string" where
  "quad_text src = inet_ntoa (src ! 0, src ! 1, src ! 2, src ! 3)"

text \<open>
  \<^verbatim>\<open>inet_ntop4\<close>: the text goes through \<^verbatim>\<open>tmp[16]\<close>.  \<open>dst\<close> is the caller's array, of which \<open>len\<close>, the argument
  \<^verbatim>\<open>size\<close>, says how long it is; \<open>Inr None\<close> stands for \<^verbatim>\<open>NULL\<close> with \<^verbatim>\<open>errno\<close> \<open>ENOSPC\<close>.
\<close>

definition inet_ntop4 :: "8 word list \<Rightarrow> string \<Rightarrow> nat \<Rightarrow> fault + string option" where
  "inet_ntop4 src dst len =
     (case store_str (replicate 16 nul) (quad_text src) of
        Inl f \<Rightarrow> Inl f
      | Inr tmp \<Rightarrow>
          if len < length (cstr tmp) then Inr None
          else (case store_str dst (cstr tmp) of Inl f \<Rightarrow> Inl f | Inr d \<Rightarrow> Inr (Some d)))"

text \<open>\<^verbatim>\<open>inet_ntop\<close> of \<^verbatim>\<open>inet_ntop_ipv4.c\<close>, with \<^verbatim>\<open>snprintf\<close> and the other comparison.\<close>

datatype ntop_result = Text string | Null errno | NtopFault fault

definition inet_ntop_ipv4 :: "int \<Rightarrow> 8 word list \<Rightarrow> string \<Rightarrow> nat \<Rightarrow> ntop_result" where
  "inet_ntop_ipv4 family addrptr strptr len =
     (if family = AF_INET then
        (let temp = take 15 (quad_text addrptr) in
         if len \<le> length temp then Null ENOSPC
         else (case store_str strptr temp of Inl f \<Rightarrow> NtopFault f | Inr d \<Rightarrow> Text d))
      else Null EAFNOSUPPORT)"

section \<open>Reading an IPv4 address\<close>

text \<open>
  The loop of \<^verbatim>\<open>inet_pton4\<close> over the characters up to the null character; \<open>tp\<close> is an index into
  \<^verbatim>\<open>tmp[4]\<close>.  \<open>None\<close>: \<^verbatim>\<open>return (0)\<close>.
\<close>

definition put8 :: "8 word list \<Rightarrow> nat \<Rightarrow> 8 word \<Rightarrow> fault + 8 word list" where
  "put8 tmp i b = (if i < length tmp then Inr (tmp[i := b]) else Inl Overrun)"

fun pton4_loop ::
    "string \<Rightarrow> 8 word list \<Rightarrow> nat \<Rightarrow> bool \<Rightarrow> nat \<Rightarrow> fault + 8 word list option" where
  "pton4_loop [] tmp tp saw_digit octets = Inr (if octets < 4 then None else Some tmp)"
| "pton4_loop (ch # src) tmp tp saw_digit octets =
     (if isdigit ch then
        (if length tmp \<le> tp then Inl Overrun
         else
           (let new = unat (tmp ! tp) * 10 + digit_val ch in
            if 255 < new then Inr None
            else
              (case put8 tmp tp (of_nat new) of
                 Inl f \<Rightarrow> Inl f
               | Inr tmp' \<Rightarrow>
                   if \<not> saw_digit then
                     (if 4 < octets + 1 then Inr None else pton4_loop src tmp' tp True (octets + 1))
                   else pton4_loop src tmp' tp saw_digit octets)))
      else if ch = CHR ''.'' \<and> saw_digit then
        (if octets = 4 then Inr None
         else (case put8 tmp (tp + 1) 0 of
                 Inl f \<Rightarrow> Inl f
               | Inr tmp' \<Rightarrow> pton4_loop src tmp' (tp + 1) False octets))
      else Inr None)"

text \<open>\<open>junk\<close>: what \<^verbatim>\<open>tmp\<close> holds before; only its first byte is cleared.\<close>

definition inet_pton4 :: "8 word list \<Rightarrow> string \<Rightarrow> fault + 8 word list option" where
  "inet_pton4 junk src = pton4_loop (cstr src) (junk[0 := 0]) 0 False 0"

section \<open>inet_aton.c\<close>

text \<open>
  \<^verbatim>\<open>u_long\<close> has 64 bits and wraps around.  The loop handles the null character like a dot that ends
  it; \<open>None\<close> is \<^verbatim>\<open>return 0\<close>.
\<close>

definition take_octet :: "64 word \<Rightarrow> 64 word \<Rightarrow> 64 word option" where
  "take_octet acc addr = (if 255 < acc then None else Some (push_bit 8 addr OR acc))"

fun aton_loop :: "string \<Rightarrow> nat \<Rightarrow> 64 word \<Rightarrow> 64 word \<Rightarrow> (nat \<times> 64 word) option" where
  "aton_loop [] dots acc addr = map_option (Pair dots) (take_octet acc addr)"
| "aton_loop (cc # cp) dots acc addr =
     (if isdigit cc then aton_loop cp dots (acc * 10 + of_nat (digit_val cc)) addr
      else if cc = CHR ''.'' then
        (if 3 < dots + 1 then None
         else (case take_octet acc addr of
                 None \<Rightarrow> None | Some addr' \<Rightarrow> aton_loop cp (dots + 1) 0 addr'))
      else None)"

text \<open>The address in host order; \<^verbatim>\<open>htonl\<close> takes the low 32 bits.\<close>

definition inet_aton :: "string \<Rightarrow> 32 word option" where
  "inet_aton cp = (case aton_loop (cstr cp) 0 0 0 of
       None \<Rightarrow> None
     | Some (dots, addr) \<Rightarrow> Some (ucast (if dots < 3 then push_bit (8 * (3 - dots)) addr else addr)))"

text \<open>The bytes of an address in network order, as \<^verbatim>\<open>htonl\<close> leaves them in memory.\<close>

definition net_bytes :: "32 word \<Rightarrow> 8 word list" where
  "net_bytes w = [ucast (drop_bit 24 w), ucast (drop_bit 16 w), ucast (drop_bit 8 w), ucast w]"

datatype pton_result = Valid "8 word list" | Invalid | PtonError errno

definition inet_pton_ipv4 :: "int \<Rightarrow> string \<Rightarrow> pton_result" where
  "inet_pton_ipv4 family strptr =
     (if family = AF_INET then
        (case inet_aton strptr of Some in_val \<Rightarrow> Valid (net_bytes in_val) | None \<Rightarrow> Invalid)
      else PtonError EAFNOSUPPORT)"

section \<open>Dotted quads\<close>

lemma digit_val_char [simp]: "n < 10 \<Longrightarrow> digit_val (digit_char n) = n"
  by (simp add: digit_val_def digit_char_def cchar_simps)

lemma isdigit_digit_char [simp]: "n < 10 \<Longrightarrow> isdigit (digit_char n)"
  by (simp add: cchar_simps)

lemma dot_no_digit [simp]: "\<not> isdigit (CHR ''.'')"
  by (simp add: isdigit_def)

lemma unat_byte: "n \<le> 255 \<Longrightarrow> unat (of_nat n :: 8 word) = n"
  by (simp add: unsigned_of_nat take_bit_nat_eq_self)

lemma unat8_le: "unat (b :: 8 word) \<le> 255"
  using unsigned_less [of b, where ?'a = nat] by simp

lemma of_nat_unat8: "of_nat (unat (b :: 8 word)) = b"
  by simp

lemma pton4_number:
  assumes "n \<le> 255" and "tp < length tmp" and "tmp ! tp = 0" and "octets < 4"
  shows "pton4_loop (show_nat n @ r) tmp tp False octets
    = pton4_loop r (tmp[tp := of_nat n]) tp True (octets + 1)"
  using assms
proof (induction n arbitrary: r rule: show_nat.induct)
  case (1 n)
  show ?case
  proof (cases "n < 10")
    case True
    then show ?thesis using "1.prems" by (simp add: show_nat.simps [of n] put8_def)
  next
    case False
    let ?m = "n div 10" and ?t = "tmp[tp := of_nat (n div 10)]"
    have m: "?m \<le> 255" using "1.prems"(1) by simp
    have u: "unat (of_nat ?m :: 8 word) * 10 + n mod 10 = n"
      by (simp only: unat_byte [OF m]) simp
    have "pton4_loop (show_nat n @ r) tmp tp False octets
      = pton4_loop (digit_char (n mod 10) # r) ?t tp True (octets + 1)"
      using "1.IH" [OF False m "1.prems"(2-4), of "digit_char (n mod 10) # r"] False
      by (simp add: show_nat.simps [of n])
    also have "\<dots> = pton4_loop r (tmp[tp := of_nat n]) tp True (octets + 1)"
      using "1.prems"(1,2) u by (simp add: put8_def)
    finally show ?thesis .
  qed
qed

lemma pton4_dot:
  "octets < 4 \<Longrightarrow> tp + 1 < length tmp \<Longrightarrow>
   pton4_loop (CHR ''.'' # r) tmp tp True octets = pton4_loop r (tmp[tp + 1 := 0]) (tp + 1) False octets"
  by (simp add: put8_def)

lemma quad_text_eq:
  "quad_text [a, b, c, d] = show_nat (unat a) @ CHR ''.'' # show_nat (unat b) @ CHR ''.'' #
     show_nat (unat c) @ CHR ''.'' # show_nat (unat d)"
  by (simp add: quad_text_def inet_ntoa_def)

lemma length_show_byte: "length (show_nat (unat (b :: 8 word))) \<le> 3"
  using length_show_nat_less [of "unat b" 3] unat8_le [of b] by simp

lemma quad_text_length: "length (quad_text [a, b, c, d]) \<le> 15"
  using length_show_byte [of a] length_show_byte [of b] length_show_byte [of c] length_show_byte [of d]
  by (simp add: quad_text_eq)

lemma show_nat_no_nul: "nul \<notin> set (show_nat n)"
  using show_nat_digits [of nul n] by (auto simp: isdigit_def)

lemma quad_text_no_nul: "nul \<notin> set (quad_text [a, b, c, d])"
  by (simp add: quad_text_eq show_nat_no_nul)

lemma pton4_quad:
  assumes "length tmp = 4" and "tmp ! 0 = 0"
  shows "pton4_loop (quad_text [a, b, c, d]) tmp 0 False 0 = Inr (Some [a, b, c, d])"
proof -
  obtain t1 t2 t3 where t: "tmp = [0, t1, t2, t3]"
    using assms by (auto simp: eval_nat_numeral length_Suc_conv)
  show ?thesis
    using pton4_number [OF unat8_le, of 3 "[a, b, c, 0]" 3 d "[]"]
    by (simp add: quad_text_eq t pton4_number [OF unat8_le] put8_def numeral_eq_Suc)
qed

section \<open>What inet_aton accepts\<close>

lemma aton_number:
  "aton_loop (show_nat n @ r) dots 0 addr = aton_loop r dots (of_nat n) addr"
proof (induction n arbitrary: r rule: show_nat.induct)
  case (1 n)
  show ?case
  proof (cases "n < 10")
    case True
    then show ?thesis by (simp add: show_nat.simps [of n])
  next
    case False
    have "(of_nat (n div 10) :: 64 word) * 10 + of_nat (n mod 10) = of_nat (n div 10 * 10 + n mod 10)"
      by (simp only: of_nat_add of_nat_mult of_nat_numeral)
    then show ?thesis
      using "1.IH" [OF False, of "digit_char (n mod 10) # r"] False
      by (simp add: show_nat.simps [of n])
  qed
qed

definition shift_in :: "8 word \<Rightarrow> 64 word \<Rightarrow> 64 word" where
  "shift_in b addr = push_bit 8 addr OR ucast b"

lemma take_octet_byte: "take_octet (ucast b) addr = Some (shift_in b addr)"
proof -
  have "unat (ucast b :: 64 word) \<le> 255"
    using unat8_le [of b] by (simp add: unsigned_ucast_eq take_bit_nat_eq_self)
  then have "(ucast b :: 64 word) \<le> 255" by (simp add: word_le_nat_alt)
  then show ?thesis by (simp add: take_octet_def shift_in_def)
qed

lemma aton_byte:
  "aton_loop (show_nat (unat (b :: 8 word)) @ r) dots 0 addr = aton_loop r dots (ucast b) addr"
  using aton_number [of "unat b" r] by simp

definition quad_word :: "8 word \<Rightarrow> 8 word \<Rightarrow> 8 word \<Rightarrow> 8 word \<Rightarrow> 64 word" where
  "quad_word a b c d = shift_in d (shift_in c (shift_in b (shift_in a 0)))"

lemma aton_quad: "aton_loop (quad_text [a, b, c, d]) 0 0 0 = Some (3, quad_word a b c d)"
  unfolding quad_text_eq quad_word_def
  using aton_byte [of d "[]"]
  by (simp add: aton_byte take_octet_byte numeral_eq_Suc)

lemma no_high_bit: "8 \<le> n \<Longrightarrow> \<not> bit (b :: 8 word) n"
  using bit_imp_le_length [of b n] by auto

lemma net_bytes_quad: "net_bytes (ucast (quad_word a b c d)) = [a, b, c, d]"
  by (auto simp: net_bytes_def quad_word_def shift_in_def bit_simps no_high_bit intro!: bit_word_eqI)

lemma cstr_stored: "store_str dst t = Inr d \<Longrightarrow> nul \<notin> set t \<Longrightarrow> cstr d = t"
  by (auto simp: cbuf_simps)

lemma pton4_digits:
  "\<forall>ch \<in> set s. isdigit ch \<Longrightarrow> octets + (if saw then 0 else 1) < 4 \<Longrightarrow> tp < length tmp \<Longrightarrow>
   pton4_loop s tmp tp saw octets = Inr None"
  by (induction s arbitrary: tmp saw octets) (auto simp: put8_def Let_def)

section \<open>Properties\<close>

text \<open>Writing an IPv4 address into an array of 16 characters and reading it again gives the address,
  with either \<^verbatim>\<open>inet_pton\<close> of the library, and the two versions of \<^verbatim>\<open>inet_ntop\<close> write the same text.\<close>

theorem ipv4_text_round_trip:
  assumes "16 \<le> length dst" and "length junk = 4"
  shows "\<exists>t. inet_ntop4 [a, b, c, d] dst (length dst) = Inr (Some t)
    \<and> inet_ntop_ipv4 AF_INET [a, b, c, d] dst (length dst) = Text t
    \<and> inet_pton4 junk t = Inr (Some [a, b, c, d]) \<and> inet_pton_ipv4 AF_INET t = Valid [a, b, c, d]"
proof -
  let ?q = "quad_text [a, b, c, d]"
  note q = quad_text_length [of a b c d] quad_text_no_nul [of a b c d]
  have tmp: "store_str (replicate 16 nul) ?q = Inr (?q @ nul # drop (Suc (length ?q)) (replicate 16 nul))"
    using q(1) by (simp add: store_str_Inr_iff)
  have dst: "store_str dst ?q = Inr (?q @ nul # drop (Suc (length ?q)) dst)"
    using q(1) assms(1) by (simp add: store_str_Inr_iff)
  let ?t = "?q @ nul # drop (Suc (length ?q)) dst"
  have cq: "cstr (?q @ nul # r) = ?q" for r using q(2) by (rule cstr_append_nul)
  have "inet_ntop4 [a, b, c, d] dst (length dst) = Inr (Some ?t)"
    using tmp dst q(1) assms(1) by (simp add: inet_ntop4_def cq)
  moreover have "inet_ntop_ipv4 AF_INET [a, b, c, d] dst (length dst) = Text ?t"
    using dst q(1) assms(1) by (simp add: inet_ntop_ipv4_def Let_def)
  moreover have "inet_pton4 junk ?t = Inr (Some [a, b, c, d])"
    using pton4_quad [of "junk[0 := 0]" a b c d] assms(2) by (simp add: inet_pton4_def cq)
  moreover have "inet_pton_ipv4 AF_INET ?t = Valid [a, b, c, d]"
    by (simp add: inet_pton_ipv4_def inet_aton_def cq aton_quad net_bytes_quad)
  ultimately show ?thesis by blast
qed

theorem ipv4_text_round_trip_witness:
  "\<exists>t. inet_ntop4 [192, 168, 0, 38] (replicate 16 nul) 16 = Inr (Some t)
    \<and> inet_pton4 [1, 2, 3, 4] t = Inr (Some [192, 168, 0, 38])
    \<and> inet_pton_ipv4 AF_INET t = Valid [192, 168, 0, 38]"
  using ipv4_text_round_trip [of "replicate 16 nul" "[1, 2, 3, 4]" 192 168 0 38] by auto

text \<open>\<^verbatim>\<open>inet_ntop4\<close> compares the length of the text with the size of the array and forgets the null
  character: in an array of exactly the length of the text it writes one character too many, where
  the other version of \<^verbatim>\<open>inet_ntop\<close> fails with \<^verbatim>\<open>ENOSPC\<close>.\<close>

theorem inet_ntop4_overruns:
  assumes "length dst = length (quad_text [a, b, c, d])"
  shows "inet_ntop4 [a, b, c, d] dst (length dst) = Inl Overrun
    \<and> inet_ntop_ipv4 AF_INET [a, b, c, d] dst (length dst) = Null ENOSPC"
proof -
  let ?q = "quad_text [a, b, c, d]"
  note q = quad_text_length [of a b c d] quad_text_no_nul [of a b c d]
  have tmp: "store_str (replicate 16 nul) ?q = Inr (?q @ nul # drop (Suc (length ?q)) (replicate 16 nul))"
    using q(1) by (simp add: store_str_Inr_iff)
  have dst: "store_str dst ?q = Inl Overrun" using assms by (simp add: store_str_def store_def)
  have cq: "cstr (?q @ nul # r) = ?q" for r using q(2) by (rule cstr_append_nul)
  show ?thesis using tmp dst q(1) assms by (simp add: inet_ntop4_def inet_ntop_ipv4_def cq)
qed

theorem inet_ntop4_overruns_witness:
  "inet_ntop4 [8, 8, 8, 8] (replicate 7 nul) 7 = Inl Overrun
   \<and> inet_ntop_ipv4 AF_INET [8, 8, 8, 8] (replicate 7 nul) 7 = Null ENOSPC"
  using inet_ntop4_overruns [of "replicate 7 nul" 8 8 8 8]
  by (simp add: quad_text_eq show_nat.simps)

text \<open>The \<^verbatim>\<open>inet_pton\<close> that is built on \<^verbatim>\<open>inet_aton\<close> takes texts for addresses that the other one
  refuses: the empty text is 0.0.0.0, a single number is the first byte of an address, and because the
  number wraps around at 64 bits one that is far too large is taken for its remainder.\<close>

theorem inet_aton_accepts_too_much:
  assumes "length junk = 4"
  shows "inet_pton_ipv4 AF_INET [] = Valid [0, 0, 0, 0] \<and> inet_pton4 junk [] = Inr None
    \<and> inet_pton_ipv4 AF_INET (show_nat (18446744073709551616 * k + unat a)) = Valid [a, 0, 0, 0]
    \<and> inet_pton4 junk (show_nat (18446744073709551616 * k + unat a)) = Inr None"
proof -
  let ?n = "18446744073709551616 * k + unat a"
  have cs: "cstr (show_nat n) = show_nat n" for n
    using takeWhile_eq_all_conv [of "\<lambda>c. c \<noteq> nul" "show_nat n"] show_nat_no_nul [of n]
    by (auto simp: cstr_def)
  have "(18446744073709551616 :: 64 word) = 0" by simp
  then have "(of_nat ?n :: 64 word) = ucast a"
    by (simp only: of_nat_add of_nat_mult of_nat_numeral mult_zero_left add_0_left of_nat_unat)
  then have "aton_loop (show_nat ?n) 0 0 0 = Some (0, ucast a)"
    using aton_number [of ?n "[]"] by (simp add: take_octet_byte shift_in_def)
  then have "inet_pton_ipv4 AF_INET (show_nat ?n) = Valid [a, 0, 0, 0]"
    by (auto simp: inet_pton_ipv4_def inet_aton_def cs net_bytes_def bit_simps
        intro!: bit_word_eqI dest: bit_imp_le_length)
  moreover have "inet_pton4 junk (show_nat n) = Inr None" for n
    unfolding inet_pton4_def cs using assms
    by (intro pton4_digits) (auto dest: show_nat_digits)
  moreover have "inet_pton_ipv4 AF_INET [] = Valid [0, 0, 0, 0]"
    by (simp add: inet_pton_ipv4_def inet_aton_def cstr_def take_octet_def net_bytes_def)
  ultimately show ?thesis by (simp add: inet_pton4_def cstr_def)
qed

theorem inet_aton_accepts_too_much_witness:
  "inet_pton_ipv4 AF_INET (show_nat 18446744073709551617) = Valid [1, 0, 0, 0]
   \<and> inet_pton4 [0, 0, 0, 0] (show_nat 18446744073709551617) = Inr None"
  using inet_aton_accepts_too_much [of "[0, 0, 0, 0]" 1 1] by simp

end
