(* ===== verification/Unp_Inet6.thy ===== *)
theory Unp_Inet6
  imports Unp_Inet
begin

text \<open>
  IPv6 addresses as text: \<^verbatim>\<open>inet_ntop6\<close> and \<^verbatim>\<open>inet_pton6\<close>
  (\<^verbatim>\<open>SampleCode/unpv13e/libfree/inet_ntop.c\<close> and \<^verbatim>\<open>inet_pton.c\<close>) with the dispatch on the
  address family, and the round trip through the compressed text.
\<close>

section \<open>inet_ntop6\<close>

text \<open>The eight words of the address (\<^verbatim>\<open>u_int\<close> values below 65536).\<close>

definition words_of :: "8 word list \<Rightarrow> nat list" where
  "words_of src = map (\<lambda>i. unat (src ! (2 * i)) * 256 + unat (src ! (2 * i + 1))) [0..<8]"

text \<open>
  The search for the longest run of zero words: \<open>None\<close> for \<^verbatim>\<open>base == -1\<close>, else the base and the length.
\<close>

type_synonym run = "(nat \<times> nat) option"

definition better :: "run \<Rightarrow> nat \<times> nat \<Rightarrow> run" where
  "better best cur = (case best of
       None \<Rightarrow> Some cur
     | Some b \<Rightarrow> if snd b < snd cur then Some cur else Some b)"

fun runs_loop :: "nat list \<Rightarrow> nat \<Rightarrow> run \<Rightarrow> run \<Rightarrow> run \<times> run" where
  "runs_loop [] i best cur = (best, cur)"
| "runs_loop (w # words) i best cur =
     (if w = 0 then
        runs_loop words (Suc i) best
          (Some (case cur of None \<Rightarrow> (i, 1) | Some (base, len) \<Rightarrow> (base, Suc len)))
      else
        (case cur of
           None \<Rightarrow> runs_loop words (Suc i) best None
         | Some c \<Rightarrow> runs_loop words (Suc i) (better best c) None))"

definition best_run :: "nat list \<Rightarrow> run" where
  "best_run words =
     (case runs_loop words 0 None None of
        (best, cur) \<Rightarrow>
          (case (case cur of None \<Rightarrow> best | Some c \<Rightarrow> better best c) of
             None \<Rightarrow> None
           | Some (base, len) \<Rightarrow> if len < 2 then None else Some (base, len)))"

definition inside :: "run \<Rightarrow> nat \<Rightarrow> bool" where
  "inside best i = (case best of None \<Rightarrow> False | Some (base, len) \<Rightarrow> base \<le> i \<and> i < base + len)"

text \<open>Is the address an encapsulated IPv4 address?\<close>

definition embeds_v4 :: "run \<Rightarrow> nat list \<Rightarrow> bool" where
  "embeds_v4 best words = (case best of
       None \<Rightarrow> False
     | Some (base, len) \<Rightarrow> base = 0 \<and> (len = 6 \<or> len = 5 \<and> words ! 5 = 0xffff))"

text \<open>
  The format loop; \<open>t\<close> is the text from \<^verbatim>\<open>tmp\<close> to \<^verbatim>\<open>tp\<close>.  \<^verbatim>\<open>break\<close> ends it after an IPv4 address,
  which \<^verbatim>\<open>inet_ntop4\<close> writes into the rest of \<^verbatim>\<open>tmp[46]\<close>.
\<close>

definition TMP6 :: nat where "TMP6 = 46"

fun fmt_loop ::
    "run \<Rightarrow> 8 word list \<Rightarrow> nat list \<Rightarrow> nat list \<Rightarrow> string \<Rightarrow> fault + string option" where
  "fmt_loop best src words [] t = Inr (Some t)"
| "fmt_loop best src words (i # is) t =
     (if inside best i then
        fmt_loop best src words is (if map_option fst best = Some i then t @ '':'' else t)
      else
        (let t1 = (if i \<noteq> 0 then t @ '':'' else t) in
         if i = 6 \<and> embeds_v4 best words then
           (case inet_ntop4 (drop 12 src) (replicate (TMP6 - length t1) nul) (TMP6 - length t1) of
              Inl f \<Rightarrow> Inl f
            | Inr None \<Rightarrow> Inr None
            | Inr (Some d) \<Rightarrow> Inr (Some (t1 @ cstr d)))
         else fmt_loop best src words is (t1 @ show_hex (words ! i))))"

text \<open>
  The text, the check of the caller's array and the copy.  What is written to \<^verbatim>\<open>tmp\<close> must fit it.
\<close>

definition inet_ntop6 :: "8 word list \<Rightarrow> string \<Rightarrow> nat \<Rightarrow> fault + string option" where
  "inet_ntop6 src dst len =
     (let words = words_of src; best = best_run words in
      case fmt_loop best src words [0..<8] [] of
        Inl f \<Rightarrow> Inl f
      | Inr None \<Rightarrow> Inr None
      | Inr (Some t) \<Rightarrow>
          (let t1 = (case best of None \<Rightarrow> t
                     | Some (base, n) \<Rightarrow> if base + n = 8 then t @ '':'' else t) in
           if TMP6 < length t1 + 1 then Inl Overrun
           else if len < length t1 + 1 then Inr None
           else (case store_str dst t1 of Inl f \<Rightarrow> Inl f | Inr d \<Rightarrow> Inr (Some d))))"

definition ntop_of :: "fault + string option \<Rightarrow> ntop_result" where
  "ntop_of r = (case r of Inl f \<Rightarrow> NtopFault f | Inr None \<Rightarrow> Null ENOSPC | Inr (Some d) \<Rightarrow> Text d)"

definition inet_ntop :: "int \<Rightarrow> 8 word list \<Rightarrow> string \<Rightarrow> nat \<Rightarrow> ntop_result" where
  "inet_ntop af src dst len =
     (if af = AF_INET then ntop_of (inet_ntop4 src dst len)
      else if af = AF_INET6 then ntop_of (inet_ntop6 src dst len)
      else Null EAFNOSUPPORT)"

section \<open>inet_pton6\<close>

text \<open>The position of a character in one of the two tables of digits, as \<^verbatim>\<open>strchr\<close> finds it.\<close>

definition position :: "char \<Rightarrow> string \<Rightarrow> nat option" where
  "position ch s = (if ch \<in> set s then Some (length (takeWhile (\<lambda>c. c \<noteq> ch) s)) else None)"

definition hex_val :: "char \<Rightarrow> nat option" where
  "hex_val ch = (case position ch ''0123456789abcdef'' of
       Some d \<Rightarrow> Some d
     | None \<Rightarrow> position ch ''0123456789ABCDEF'')"

definition put_group :: "8 word list \<Rightarrow> nat \<Rightarrow> nat \<Rightarrow> fault + 8 word list" where
  "put_group tmp tp val =
     (case put8 tmp tp (of_nat (val div 256)) of
        Inl f \<Rightarrow> Inl f
      | Inr tmp' \<Rightarrow> put8 tmp' (tp + 1) (of_nat (val mod 256)))"

text \<open>
  The loop; \<^verbatim>\<open>tp\<close> and \<^verbatim>\<open>colonp\<close> are indices into \<^verbatim>\<open>tmp[16]\<close>, \<^verbatim>\<open>curtok\<close> is the text behind the last
  colon.  \<^verbatim>\<open>val\<close> stays below 20 bits, so \<^verbatim>\<open>u_int\<close> does not overflow.  \<open>junk\<close> is for the array of
  \<^verbatim>\<open>inet_pton4\<close>.
\<close>

type_synonym state6 = "8 word list \<times> nat \<times> nat option \<times> bool \<times> nat"

fun pton6_loop ::
    "8 word list \<Rightarrow> string \<Rightarrow> string \<Rightarrow> 8 word list \<Rightarrow> nat \<Rightarrow> nat option \<Rightarrow> bool \<Rightarrow> nat
     \<Rightarrow> fault + state6 option" where
  "pton6_loop junk [] curtok tmp tp colonp saw_xdigit val =
     Inr (Some (tmp, tp, colonp, saw_xdigit, val))"
| "pton6_loop junk (ch # src) curtok tmp tp colonp saw_xdigit val =
     (case hex_val ch of
        Some d \<Rightarrow>
          (let v = val * 16 + d in
           if 0xffff < v then Inr None else pton6_loop junk src curtok tmp tp colonp True v)
      | None \<Rightarrow>
          if ch = CHR '':'' then
            (if \<not> saw_xdigit then
               (if colonp \<noteq> None then Inr None
                else pton6_loop junk src src tmp tp (Some tp) saw_xdigit val)
             else if 16 < tp + 2 then Inr None
             else (case put_group tmp tp val of
                     Inl f \<Rightarrow> Inl f
                   | Inr tmp' \<Rightarrow> pton6_loop junk src src tmp' (tp + 2) colonp False 0))
          else if ch = CHR ''.'' \<and> tp + 4 \<le> 16 then
            (case inet_pton4 junk curtok of
               Inl f \<Rightarrow> Inl f
             | Inr None \<Rightarrow> Inr None
             | Inr (Some q) \<Rightarrow> Inr (Some (take tp tmp @ q @ drop (tp + 4) tmp, tp + 4, colonp, False, val)))
          else Inr None)"

text \<open>The shift by hand of the bytes behind \<^verbatim>\<open>::\<close> to the end.\<close>

definition shift_step :: "nat \<Rightarrow> nat \<Rightarrow> 8 word list \<Rightarrow> nat \<Rightarrow> 8 word list" where
  "shift_step colonp n tmp i = (tmp[16 - i := tmp ! (colonp + n - i)])[colonp + n - i := 0]"

definition shift_loop :: "nat \<Rightarrow> nat \<Rightarrow> 8 word list \<Rightarrow> 8 word list" where
  "shift_loop colonp n tmp = foldl (shift_step colonp n) tmp [1..<Suc n]"

definition close_gap :: "8 word list \<Rightarrow> nat \<Rightarrow> nat option \<Rightarrow> 8 word list option" where
  "close_gap tmp tp colonp = (case colonp of
       None \<Rightarrow> if tp \<noteq> 16 then None else Some tmp
     | Some cp \<Rightarrow> Some (shift_loop cp (tp - cp) tmp))"

definition finish6 :: "state6 \<Rightarrow> fault + 8 word list option" where
  "finish6 = (\<lambda>(tmp, tp, colonp, saw_xdigit, val).
     if saw_xdigit then
       (if 16 < tp + 2 then Inr None
        else (case put_group tmp tp val of
                Inl f \<Rightarrow> Inl f | Inr tmp' \<Rightarrow> Inr (close_gap tmp' (tp + 2) colonp)))
     else Inr (close_gap tmp tp colonp))"

definition pton6_from :: "8 word list \<Rightarrow> string \<Rightarrow> fault + 8 word list option" where
  "pton6_from junk src =
     (case pton6_loop junk src src (replicate 16 0) 0 None False 0 of
        Inl f \<Rightarrow> Inl f | Inr None \<Rightarrow> Inr None | Inr (Some st) \<Rightarrow> finish6 st)"

definition inet_pton6 :: "8 word list \<Rightarrow> string \<Rightarrow> fault + 8 word list option" where
  "inet_pton6 junk src =
     (case cstr src of
        [] \<Rightarrow> pton6_from junk []
      | c # r \<Rightarrow>
          if c = CHR '':'' then (if r = [] \<or> hd r \<noteq> CHR '':'' then Inr None else pton6_from junk r)
          else pton6_from junk (c # r))"

definition inet_pton :: "int \<Rightarrow> 8 word list \<Rightarrow> string \<Rightarrow> fault + pton_result" where
  "inet_pton af junk src =
     (let r = (if af = AF_INET then Some (inet_pton4 junk src)
               else if af = AF_INET6 then Some (inet_pton6 junk src) else None) in
      case r of
        None \<Rightarrow> Inr (PtonError EAFNOSUPPORT)
      | Some (Inl f) \<Rightarrow> Inl f
      | Some (Inr None) \<Rightarrow> Inr Invalid
      | Some (Inr (Some b)) \<Rightarrow> Inr (Valid b))"

section \<open>Reading groups\<close>

lemma hex_val_digit: "n < 16 \<Longrightarrow> hex_val (hex_digit n) = Some n"
proof -
  have "\<forall>n \<in> set [0..<16]. hex_val (hex_digit n) = Some n" by code_simp
  then show "n < 16 \<Longrightarrow> hex_val (hex_digit n) = Some n" by simp
qed

lemma hex_val_digit_char: "n < 10 \<Longrightarrow> hex_val (digit_char n) = Some n"
proof -
  have "\<forall>n \<in> set [0..<10]. hex_val (digit_char n) = Some n" by code_simp
  then show "n < 10 \<Longrightarrow> hex_val (digit_char n) = Some n" by simp
qed

lemma hex_val_none [simp]: "hex_val (CHR '':'') = None" "hex_val (CHR ''.'') = None"
  by code_simp+

lemma hex_digit_chars:
  "n < 16 \<Longrightarrow> hex_digit n \<noteq> CHR '':'' \<and> hex_digit n \<noteq> nul"
proof -
  have "\<forall>n \<in> set [0..<16]. hex_digit n \<noteq> CHR '':'' \<and> hex_digit n \<noteq> nul" by code_simp
  then show "n < 16 \<Longrightarrow> hex_digit n \<noteq> CHR '':'' \<and> hex_digit n \<noteq> nul" by simp
qed

lemma show_hex_chars: "ch \<in> set (show_hex n) \<Longrightarrow> ch \<noteq> CHR '':'' \<and> ch \<noteq> nul"
proof (induction n rule: show_hex.induct)
  case (1 n)
  then show ?case
    using hex_digit_chars [of n] hex_digit_chars [of "n mod 16"]
    by (auto simp: show_hex.simps [of n] split: if_splits)
qed

lemma show_hex_ne_Nil [simp]: "show_hex n \<noteq> []"
  by (subst show_hex.simps) simp

lemma length_show_hex: "n < 16 ^ Suc k \<Longrightarrow> length (show_hex n) \<le> Suc k"
proof (induction k arbitrary: n)
  case (Suc k)
  then have "n div 16 < 16 ^ Suc k" by (simp add: less_mult_imp_div_less)
  with Suc.IH show ?case by (subst show_hex.simps) (auto simp: not_less)
qed (simp add: show_hex.simps)

lemma pton6_hex:
  "w \<le> 0xffff \<Longrightarrow>
   pton6_loop junk (show_hex w @ r) cur tmp tp cp False 0 = pton6_loop junk r cur tmp tp cp True w"
proof (induction w arbitrary: r rule: show_hex.induct)
  case (1 w)
  show ?case
  proof (cases "w < 16")
    case True
    then show ?thesis by (simp add: show_hex.simps [of w] hex_val_digit)
  next
    case False
    then show ?thesis
      using "1.IH" [of "hex_digit (w mod 16) # r"] "1.prems"
      by (simp add: show_hex.simps [of w] hex_val_digit)
  qed
qed

text \<open>The digits of a byte, read as a hexadecimal number before the first dot is seen.\<close>

lemma pton6_decimal:
  "n \<le> 255 \<Longrightarrow> \<exists>v \<le> n * (n + 1).
   \<forall>r. pton6_loop junk (show_nat n @ r) cur tmp tp cp False 0 = pton6_loop junk r cur tmp tp cp True v"
proof (induction n rule: show_nat.induct)
  case (1 n)
  show ?case
  proof (cases "n < 10")
    case True
    then show ?thesis
      by (intro exI [of _ n]) (simp add: show_nat.simps [of n] hex_val_digit_char)
  next
    case False
    let ?m = "n div 10" and ?d = "n mod 10"
    have m: "?m \<le> 25" "?m \<le> 255" using "1.prems" by simp_all
    from "1.IH" [OF False m(2)] obtain v where v: "v \<le> ?m * (?m + 1)"
      "\<forall>r. pton6_loop junk (show_nat ?m @ r) cur tmp tp cp False 0 = pton6_loop junk r cur tmp tp cp True v"
      by blast
    have "?m * (?m + 1) \<le> 25 * 26" using m by (intro mult_le_mono) simp_all
    then have b: "v * 16 + ?d \<le> 0xffff" using v(1) mod_less_divisor [of 10 n] by linarith
    have n: "10 * ?m + ?d = n" by simp
    have "10 * ?m * (10 * ?m) \<le> n * n" by (intro mult_le_mono) simp_all
    moreover have "?m \<le> ?m * ?m" by simp
    moreover have "v \<le> ?m * ?m + ?m" using v(1) by simp
    ultimately have "v * 16 + ?d \<le> n * n + n" using n by linarith
    then have "v * 16 + ?d \<le> n * (n + 1)" by simp
    then show ?thesis using b v(2) False
      by (intro exI [of _ "v * 16 + ?d"]) (simp add: show_nat.simps [of n] hex_val_digit_char)
  qed
qed

text \<open>
  The bytes of a group; \<open>filled bs\<close> is \<^verbatim>\<open>tmp\<close> with \<open>bs\<close> at the front; \<open>groups ws\<close> is the text of groups,
  each with a colon before it.
\<close>

definition group_bytes :: "nat \<Rightarrow> 8 word list" where
  "group_bytes w = [of_nat (w div 256), of_nat (w mod 256)]"

definition bytes_of :: "nat list \<Rightarrow> 8 word list" where
  "bytes_of ws = concat (map group_bytes ws)"

definition filled :: "8 word list \<Rightarrow> 8 word list" where
  "filled bs = bs @ replicate (16 - length bs) 0"

definition groups :: "nat list \<Rightarrow> string" where
  "groups ws = concat (map (\<lambda>w. CHR '':'' # show_hex w) ws)"

lemma groups_simps [simp]:
  "groups [] = []" "groups (w # ws) = CHR '':'' # show_hex w @ groups ws"
  "groups (ws @ vs) = groups ws @ groups vs"
  by (simp_all add: groups_def)

lemma bytes_of_simps [simp]:
  "bytes_of [] = []" "bytes_of (w # ws) = group_bytes w @ bytes_of ws"
  "bytes_of (ws @ vs) = bytes_of ws @ bytes_of vs"
  by (simp_all add: bytes_of_def)

lemma length_group_bytes [simp]: "length (group_bytes w) = 2"
  by (simp add: group_bytes_def)

lemma length_bytes_of [simp]: "length (bytes_of ws) = 2 * length ws"
  by (induction ws) simp_all

lemma put_group_filled:
  assumes "length bs + 2 \<le> 16"
  shows "put_group (filled bs) (length bs) w = Inr (filled (bs @ group_bytes w))"
proof -
  obtain k where k: "16 - length bs = Suc (Suc k)"
    using assms by (metis Suc_diff_le add_2_eq_Suc' diff_Suc_Suc le_add_diff_inverse2 nat_le_iff_add
        add.commute add_diff_cancel_left' plus_1_eq_Suc numeral_2_eq_2 add_Suc)
  then have "16 - (length bs + 2) = k" by simp
  with k show ?thesis
    by (simp add: put_group_def put8_def filled_def group_bytes_def list_update_append)
qed

lemma pton6_groups:
  assumes "\<forall>w \<in> set ws. w \<le> 0xffff" and "length bs + 2 * length ws \<le> 16"
  shows "\<exists>cur'. pton6_loop junk (groups ws @ r) cur (filled bs) (length bs) cp True v
    = pton6_loop junk r cur' (filled (bs @ bytes_of (butlast (v # ws)))) (length bs + 2 * length ws) cp True
        (last (v # ws))"
  using assms
proof (induction ws arbitrary: bs v cur)
  case (Cons w ws)
  have "pton6_loop junk (groups (w # ws) @ r) cur (filled bs) (length bs) cp True v
    = pton6_loop junk (groups ws @ r) (show_hex w @ groups ws @ r) (filled (bs @ group_bytes v))
        (length (bs @ group_bytes v)) cp True w"
    using Cons.prems by (simp add: put_group_filled pton6_hex)
  with Cons.IH [of "bs @ group_bytes v" "show_hex w @ groups ws @ r" w] Cons.prems show ?case by simp
qed auto

section \<open>Closing the gap\<close>

lemma shift_step_move:
  assumes "length pre + length xs + Suc (Suc g + length ys) = 16"
  shows "shift_step (length pre) (length xs + Suc (length ys))
      (pre @ xs @ x # replicate (Suc g) 0 @ ys) (Suc (length ys))
    = pre @ xs @ replicate (Suc g) 0 @ x # ys"
proof -
  let ?a = "pre @ xs" and ?n = "length xs + Suc (length ys)"
  let ?z = "replicate g (0 :: 8 word)"
  have i: "16 - Suc (length ys) = length (?a @ x # ?z)" using assms by simp
  have j: "length pre + ?n - Suc (length ys) = length ?a" by simp
  have r: "pre @ xs @ x # replicate (Suc g) 0 @ ys = ?a @ x # ?z @ 0 # ys"
    by (simp add: replicate_app_Cons_same)
  have x: "(?a @ x # ?z @ 0 # ys) ! length ?a = x" by (rule nth_append_length)
  have "(?a @ x # ?z @ 0 # ys)[length (?a @ x # ?z) := x] = (?a @ x # ?z) @ x # ys"
    using list_update_length [of "?a @ x # ?z" 0 ys x] by (simp only: append_assoc append_Cons)
  also have "\<dots> = ?a @ x # ?z @ x # ys" by simp
  finally show ?thesis
    unfolding shift_step_def i j r x by (simp only: list_update_length) simp
qed

lemma shift_foldl_gap:
  assumes "length pre + length xs + Suc g + length ys = 16"
  shows "foldl (shift_step (length pre) (length xs + length ys))
      (pre @ xs @ replicate (Suc g) 0 @ ys) [Suc (length ys)..<Suc (length xs + length ys)]
    = pre @ replicate (Suc g) 0 @ xs @ ys"
  using assms
proof (induction xs arbitrary: ys rule: rev_induct)
  case (snoc x xs)
  have u: "[Suc (length ys)..<Suc (length (xs @ [x]) + length ys)]
    = Suc (length ys) # [Suc (length (x # ys))..<Suc (length xs + length (x # ys))]"
    by (subst upt_conv_Cons) (simp_all del: upt_Suc)
  have "shift_step (length pre) (length xs + Suc (length ys))
      (pre @ xs @ x # replicate (Suc g) 0 @ ys) (Suc (length ys))
    = pre @ xs @ replicate (Suc g) 0 @ x # ys"
    using snoc.prems by (intro shift_step_move) simp
  then show ?case
    using snoc.IH [of "x # ys"] snoc.prems unfolding u by (simp del: replicate_Suc upt_Suc)
qed simp

lemma shift_loop_gap:
  assumes "length pre + length post < 16"
  shows "shift_loop (length pre) (length post) (filled (pre @ post))
    = pre @ replicate (16 - length pre - length post) 0 @ post"
proof -
  obtain g where g: "16 - length pre - length post = Suc g"
    using assms by (metis Suc_diff_Suc diff_diff_left)
  then show ?thesis
    using shift_foldl_gap [of pre post g "[]"] assms
    by (simp add: shift_loop_def filled_def del: replicate_Suc upt_Suc)
qed

text \<open>With nothing to fill, the bytes behind the gap are put where they are and then cleared.\<close>

lemma shift_foldl_full:
  assumes "length pre + length xs + k = 16"
  shows "foldl (shift_step (length pre) (length xs + k))
      (pre @ xs @ replicate k 0) [Suc k..<Suc (length xs + k)]
    = pre @ replicate (length xs + k) 0"
  using assms
proof (induction xs arbitrary: k rule: rev_induct)
  case (snoc x xs)
  have u: "[Suc k..<Suc (length (xs @ [x]) + k)] = Suc k # [Suc (Suc k)..<Suc (length xs + Suc k)]"
    by (subst upt_conv_Cons) (simp_all del: upt_Suc)
  have "16 - Suc k = length (pre @ xs)" "length pre + (length xs + Suc k) - Suc k = length (pre @ xs)"
    using snoc.prems by simp_all
  then have "shift_step (length pre) (length xs + Suc k) ((pre @ xs) @ x # replicate k 0) (Suc k)
    = (pre @ xs) @ replicate (Suc k) 0"
    by (simp only: shift_step_def nth_append_length list_update_length) simp
  then show ?case using snoc.IH [of "Suc k"] snoc.prems unfolding u by (simp del: upt_Suc)
qed simp

lemma shift_loop_full:
  assumes "length pre + length post = 16"
  shows "shift_loop (length pre) (length post) (pre @ post) = pre @ replicate (length post) 0"
  using shift_foldl_full [of pre post 0] assms by (simp add: shift_loop_def del: upt_Suc)

lemmas shift_loop_cases = shift_loop_gap shift_loop_full

section \<open>Reading an address\<close>

text \<open>From the state of the loop to the result.\<close>

definition run6 ::
    "8 word list \<Rightarrow> string \<Rightarrow> string \<Rightarrow> 8 word list \<Rightarrow> nat \<Rightarrow> nat option \<Rightarrow> bool \<Rightarrow> nat
     \<Rightarrow> fault + 8 word list option" where
  "run6 junk src cur tmp tp cp saw v =
     (case pton6_loop junk src cur tmp tp cp saw v of
        Inl f \<Rightarrow> Inl f | Inr None \<Rightarrow> Inr None | Inr (Some st) \<Rightarrow> finish6 st)"

lemma pton6_from_run: "pton6_from junk src = run6 junk src src (filled []) 0 None False 0"
  by (simp add: pton6_from_def run6_def filled_def)

lemma run6_hex:
  "w \<le> 0xffff \<Longrightarrow> run6 junk (show_hex w @ r) cur tmp tp cp False 0 = run6 junk r cur tmp tp cp True w"
  by (simp add: run6_def pton6_hex)

lemma run6_groups:
  assumes "\<forall>w \<in> set ws. w \<le> 0xffff" and "length bs + 2 * length ws \<le> 16"
  obtains cur' where "run6 junk (groups ws @ r) cur (filled bs) (length bs) cp True v
    = run6 junk r cur' (filled (bs @ bytes_of (butlast (v # ws)))) (length bs + 2 * length ws) cp True
        (last (v # ws))"
  using pton6_groups [OF assms, of junk r cur cp v] unfolding run6_def by metis

lemma run6_colon:
  "length bs + 2 \<le> 16 \<Longrightarrow> run6 junk (CHR '':'' # r) cur (filled bs) (length bs) cp True v
    = run6 junk r r (filled (bs @ group_bytes v)) (length bs + 2) cp False 0"
  by (simp add: run6_def put_group_filled)

lemma run6_gap: "run6 junk (CHR '':'' # r) cur tmp tp None False v = run6 junk r r tmp tp (Some tp) False v"
  by (simp add: run6_def)

lemma run6_end:
  "run6 junk [] cur tmp tp cp False v = Inr (close_gap tmp tp cp)"
  "length bs + 2 \<le> 16 \<Longrightarrow> run6 junk [] cur (filled bs) (length bs) cp True v
    = Inr (close_gap (filled (bs @ group_bytes v)) (length bs + 2) cp)"
  by (simp_all add: run6_def finish6_def put_group_filled)

lemma bytes_of_butlast_last: "bytes_of (butlast (v # ws)) @ group_bytes (last (v # ws)) = bytes_of (v # ws)"
  by (metis append_butlast_last_id append_Nil2 bytes_of_simps list.distinct(1))

text \<open>Groups without a colon before the first, and the whole text with a gap.\<close>

definition joined :: "nat list \<Rightarrow> string" where
  "joined ws = (case ws of [] \<Rightarrow> [] | w # vs \<Rightarrow> show_hex w @ groups vs)"

definition gap_text :: "nat list \<Rightarrow> nat list \<Rightarrow> string" where
  "gap_text pre post = joined pre @ '':'' @ groups post @ (if post = [] then '':'' else [])"

text \<open>The bytes with the gap filled; when there is nothing to fill the rest is lost.\<close>

definition gap_bytes :: "nat list \<Rightarrow> nat list \<Rightarrow> 8 word list" where
  "gap_bytes pre post =
     (if length pre + length post < 8
      then bytes_of pre @ replicate (16 - 2 * length pre - 2 * length post) 0 @ bytes_of post
      else bytes_of pre @ replicate (2 * length post) 0)"

lemma filled_full: "length bs = 16 \<Longrightarrow> filled bs = bs"
  by (simp add: filled_def)

lemma close_gap_bytes:
  assumes "length pre + length post \<le> 8"
  shows "close_gap (filled (bytes_of pre @ bytes_of post)) (2 * length pre + 2 * length post)
    (Some (2 * length pre)) = Some (gap_bytes pre post)"
  using assms shift_loop_gap [of "bytes_of pre" "bytes_of post"]
    shift_loop_full [of "bytes_of pre" "bytes_of post"]
  by (cases "length pre + length post < 8") (auto simp: close_gap_def gap_bytes_def filled_full)

lemma run6_after_gap:
  assumes "\<forall>w \<in> set post. w \<le> 0xffff" and "length pre + length post \<le> 8"
  shows "run6 junk (groups post @ (if post = [] then '':'' else [])) cur (filled (bytes_of pre))
      (2 * length pre) None False 0 = Inr (Some (gap_bytes pre post))"
proof (cases post)
  case Nil
  then show ?thesis
    using close_gap_bytes [of pre post] assms by (simp add: run6_gap run6_end)
next
  case (Cons p ps)
  let ?bs = "bytes_of pre"
  have "length ?bs + 2 * length ps \<le> 16" "\<forall>w \<in> set ps. w \<le> 0xffff" using assms Cons by simp_all
  moreover obtain bl l where bl: "butlast (p # ps) = bl" "last (p # ps) = l" "length bl = length ps"
    "bytes_of bl @ group_bytes l = bytes_of post"
    using bytes_of_butlast_last [of p ps] Cons by simp
  ultimately obtain cur' where
    "run6 junk (groups ps) (show_hex p @ groups ps) (filled ?bs) (length ?bs) (Some (length ?bs)) True p
     = run6 junk [] cur' (filled (?bs @ bytes_of bl)) (length ?bs + 2 * length ps)
         (Some (length ?bs)) True l"
    using run6_groups [of ps ?bs junk "[]" "show_hex p @ groups ps" "Some (length ?bs)" p]
    unfolding bl(1,2) by auto
  also have "\<dots> = Inr (close_gap (filled (?bs @ bytes_of post)) (2 * length pre + 2 * length post)
      (Some (2 * length pre)))"
    using run6_end(2) [of "?bs @ bytes_of bl" junk cur' "Some (length ?bs)" l] assms(2) bl(3,4) Cons
    by (simp add: algebra_simps)
  finally show ?thesis
    using close_gap_bytes [OF assms(2)] assms(1) Cons by (simp add: run6_gap run6_hex)
qed

lemma joined_no_nul: "ws \<noteq> [] \<Longrightarrow> joined ws \<noteq> [] \<and> hd (joined ws) \<noteq> CHR '':''"
  using show_hex_chars [OF hd_in_set [OF show_hex_ne_Nil]] by (cases ws) (auto simp: joined_def)

lemma groups_no_nul: "nul \<notin> set (groups ws)"
  using show_hex_chars by (induction ws) auto

lemma gap_text_no_nul: "nul \<notin> set (gap_text pre post)"
  using show_hex_chars groups_no_nul by (auto simp: gap_text_def joined_def split: list.splits)

lemma inet_pton6_gap:
  assumes "cstr src = gap_text pre post" and "\<forall>w \<in> set (pre @ post). w \<le> 0xffff"
    and "length pre + length post \<le> 8"
  shows "inet_pton6 junk src = Inr (Some (gap_bytes pre post))"
proof (cases pre)
  case Nil
  let ?r = "groups post @ (if post = [] then '':'' else [])"
  have "cstr src = CHR '':'' # ?r" using assms(1) Nil by (simp add: gap_text_def joined_def)
  then have "inet_pton6 junk src = pton6_from junk ?r"
    by (cases post) (auto simp: inet_pton6_def)
  then show ?thesis
    using run6_after_gap [of post "[]" junk ?r] assms(2,3) Nil by (simp add: pton6_from_run)
next
  case (Cons w ws)
  let ?r = "groups post @ (if post = [] then '':'' else [])"
  let ?t = "show_hex w @ groups ws @ CHR '':'' # ?r"
  have t: "cstr src = ?t" using assms(1) Cons by (simp add: gap_text_def joined_def)
  have "?t \<noteq> [] \<and> hd ?t \<noteq> CHR '':''" using joined_no_nul [of "w # ws"] by (simp add: joined_def)
  then obtain c u where cu: "?t = c # u" "c \<noteq> CHR '':''" by (cases ?t) auto
  have "inet_pton6 junk src = pton6_from junk ?t"
    unfolding inet_pton6_def t unfolding cu(1) using cu(2) by simp
  also have "\<dots> = run6 junk (groups ws @ CHR '':'' # ?r) ?t (filled []) 0 None True w"
    using assms(2) Cons by (simp add: pton6_from_run run6_hex)
  also obtain bl l where bl: "butlast (w # ws) = bl" "last (w # ws) = l" "length bl = length ws"
    "bytes_of bl @ group_bytes l = bytes_of pre"
    using bytes_of_butlast_last [of w ws] Cons by simp
  then obtain cur' where "run6 junk (groups ws @ CHR '':'' # ?r) ?t (filled []) 0 None True w
    = run6 junk (CHR '':'' # ?r) cur' (filled (bytes_of bl)) (2 * length ws) None True l"
    using run6_groups [of ws "[]" junk "CHR '':'' # ?r" ?t None w] assms(2,3) Cons
    unfolding bl(1,2) by auto
  also have "\<dots> = run6 junk ?r ?r (filled (bytes_of pre)) (2 * length pre) None False 0"
    using run6_colon [of "bytes_of bl" junk ?r cur' None l] bl(3,4) assms(3) Cons by simp
  also have "\<dots> = Inr (Some (gap_bytes pre post))"
    using assms(2,3) by (intro run6_after_gap) simp_all
  finally show ?thesis .
qed

text \<open>A text of eight groups, also with a colon behind it.\<close>

lemma inet_pton6_full:
  assumes "cstr src = joined ws @ r" and "r = [] \<or> r = '':''" and "\<forall>w \<in> set ws. w \<le> 0xffff" and "length ws = 8"
  shows "inet_pton6 junk src = Inr (Some (bytes_of ws))"
proof -
  obtain w vs where ws: "ws = w # vs" "length vs = 7" using assms(4) by (cases ws) auto
  let ?t = "show_hex w @ groups vs @ r"
  have t: "cstr src = ?t" using assms(1) ws by (simp add: joined_def)
  have "?t \<noteq> [] \<and> hd ?t \<noteq> CHR '':''" using joined_no_nul [of ws] ws by (simp add: joined_def)
  then obtain c u where cu: "?t = c # u" "c \<noteq> CHR '':''" by (cases ?t) auto
  have "inet_pton6 junk src = pton6_from junk ?t"
    unfolding inet_pton6_def t unfolding cu(1) using cu(2) by simp
  also have "\<dots> = run6 junk (groups vs @ r) ?t (filled []) 0 None True w"
    using assms(3) ws by (simp add: pton6_from_run run6_hex)
  also obtain cur' where "\<dots> = run6 junk r cur' (filled (bytes_of (butlast ws))) 14 None True (last ws)"
    using run6_groups [of vs "[]" junk r ?t None w] assms(3) ws by auto
  also have "\<dots> = Inr (Some (bytes_of ws))"
    using assms(2) ws bytes_of_butlast_last [of w vs]
      run6_end(2) [of "bytes_of (butlast ws)" junk cur' None "last ws"]
      run6_colon [of "bytes_of (butlast ws)" junk "[]" cur' None "last ws"]
    by (auto simp: run6_end(1) close_gap_def filled_full)
  finally show ?thesis .
qed

section \<open>Writing an address\<close>

text \<open>
  What the search is for: a run of zero words, and the longest of at least two, of several the first.
\<close>

definition zero_run :: "nat list \<Rightarrow> nat \<Rightarrow> nat \<Rightarrow> bool" where
  "zero_run ws b l \<longleftrightarrow> b + l \<le> length ws \<and> (\<forall>k < l. ws ! (b + k) = 0)"

definition longest_run :: "nat list \<Rightarrow> nat \<Rightarrow> nat \<Rightarrow> bool" where
  "longest_run ws b l \<longleftrightarrow> zero_run ws b l \<and> 2 \<le> l
     \<and> (\<forall>b' \<le> length ws. \<forall>l' \<le> length ws. zero_run ws b' l' \<longrightarrow> l' < l \<or> l' = l \<and> b \<le> b')"

text \<open>\<open>best\<close> is the first of the longest runs that end before the word \<open>s\<close>.\<close>

definition best_upto :: "nat list \<Rightarrow> nat \<Rightarrow> run \<Rightarrow> bool" where
  "best_upto ws s best = (case best of
       None \<Rightarrow> \<forall>b l. zero_run ws b l \<and> b + l \<le> s \<longrightarrow> l = 0
     | Some (b, l) \<Rightarrow> zero_run ws b l \<and> 1 \<le> l \<and> b + l \<le> s
         \<and> (\<forall>b' l'. zero_run ws b' l' \<and> b' + l' \<le> s \<longrightarrow> l' < l \<or> l' = l \<and> b \<le> b'))"

text \<open>The run that the loop is in: it ends before the word \<open>i\<close> and cannot be extended to the left.\<close>

definition open_run :: "nat list \<Rightarrow> nat \<Rightarrow> run \<Rightarrow> bool" where
  "open_run ws i cur = (case cur of
       None \<Rightarrow> i = 0 \<or> ws ! (i - 1) \<noteq> 0
     | Some (b, l) \<Rightarrow> zero_run ws b l \<and> 1 \<le> l \<and> b + l = i \<and> (b = 0 \<or> ws ! (b - 1) \<noteq> 0))"

definition run_start :: "nat \<Rightarrow> run \<Rightarrow> nat" where
  "run_start i cur = (case cur of None \<Rightarrow> i | Some (b, l) \<Rightarrow> b)"

lemma zero_run_nth: "zero_run ws b l \<Longrightarrow> b \<le> i \<Longrightarrow> i < b + l \<Longrightarrow> ws ! i = 0"
  unfolding zero_run_def by (metis le_add_diff_inverse nat_add_left_cancel_less)

lemma best_upto_skip:
  assumes "best_upto ws i best" and "ws ! i \<noteq> 0"
  shows "best_upto ws (Suc i) best"
proof -
  have "b + l \<le> i" if "zero_run ws b l" "b + l \<le> Suc i" "l \<noteq> 0" for b l
    using that assms(2) zero_run_nth [OF that(1), of i] by (cases "b + l = Suc i") auto
  then show ?thesis using assms(1) unfolding best_upto_def
    by (auto split: option.splits)
qed

text \<open>A run is in the part before the current one or in the current one.\<close>

lemma better_upto:
  assumes "best_upto ws b best" and "open_run ws i (Some (b, l))"
  shows "best_upto ws i (better best (b, l))"
proof -
  from assms(2) have c: "zero_run ws b l" "1 \<le> l" "b + l = i" "b = 0 \<or> ws ! (b - 1) \<noteq> 0"
    by (simp_all add: open_run_def)
  have inside: "b \<le> b'" if "zero_run ws b' l'" "b < b' + l'" for b' l'
  proof (rule ccontr)
    assume "\<not> b \<le> b'"
    then have "b \<noteq> 0" "b' \<le> b - 1" "b - 1 < b' + l'" using that(2) by linarith+
    with c(4) show False using zero_run_nth [OF that(1), of "b - 1"] by simp
  qed
  have split: "b' + l' \<le> b \<or> l' \<le> l \<and> (l' = l \<longrightarrow> b \<le> b')" if "zero_run ws b' l'" "b' + l' \<le> i" for b' l'
    using inside [OF that(1)] that(2) c(3) by (cases "b' + l' \<le> b") auto
  show ?thesis
  proof (cases best)
    case None
    with assms(1) have n: "l' = 0" if "zero_run ws b' l'" "b' + l' \<le> b" for b' l'
      using that by (auto simp: best_upto_def)
    have "l' < l \<or> l' = l \<and> b \<le> b'" if "zero_run ws b' l'" "b' + l' \<le> i" for b' l'
      using split [OF that] n [OF that(1)] c(2) by auto
    then show ?thesis using None c by (simp add: best_upto_def better_def)
  next
    case (Some r)
    obtain b0 l0 where r: "best = Some (b0, l0)" using Some by (cases r) auto
    with assms(1) have z: "zero_run ws b0 l0" "1 \<le> l0" "b0 + l0 \<le> b"
      and n: "\<And>b' l'. zero_run ws b' l' \<Longrightarrow> b' + l' \<le> b \<Longrightarrow> l' < l0 \<or> l' = l0 \<and> b0 \<le> b'"
      by (auto simp: best_upto_def)
    show ?thesis
    proof (cases "l0 < l")
      case True
      have "l' < l \<or> l' = l \<and> b \<le> b'" if "zero_run ws b' l'" "b' + l' \<le> i" for b' l'
        using split [OF that] n [OF that(1)] True by auto
      then show ?thesis using r True c by (simp add: best_upto_def better_def)
    next
      case False
      have "l' < l0 \<or> l' = l0 \<and> b0 \<le> b'" if "zero_run ws b' l'" "b' + l' \<le> i" for b' l'
        using split [OF that] n [OF that(1)] False z(3) by auto
      then show ?thesis using r False z c(3) by (simp add: best_upto_def better_def)
    qed
  qed
qed

lemma open_run_zero:
  assumes "open_run ws i cur" and "i < length ws" and "ws ! i = 0"
  shows "open_run ws (Suc i) (Some (case cur of None \<Rightarrow> (i, 1) | Some (b, l) \<Rightarrow> (b, Suc l)))"
  using assms by (auto simp: open_run_def zero_run_def less_Suc_eq split: option.splits)

definition close_run :: "run \<Rightarrow> run \<Rightarrow> run" where
  "close_run best cur = (case cur of None \<Rightarrow> best | Some c \<Rightarrow> better best c)"

lemma close_run_upto:
  "best_upto ws (run_start i cur) best \<Longrightarrow> open_run ws i cur \<Longrightarrow> best_upto ws i (close_run best cur)"
  by (auto simp: run_start_def close_run_def intro: better_upto split: option.splits)

lemma runs_loop_upto:
  assumes "runs_loop (drop i ws) i best cur = (best', cur')" and "i \<le> length ws"
    and "best_upto ws (run_start i cur) best" and "open_run ws i cur"
  shows "best_upto ws (length ws) (close_run best' cur')"
  using assms
proof (induction "length ws - i" arbitrary: i best cur)
  case 0
  then have "i = length ws" by simp
  with 0 close_run_upto [OF 0(4,5)] show ?case by simp
next
  case (Suc n)
  then have i: "i < length ws" by simp
  then have d: "drop i ws = ws ! i # drop (Suc i) ws" by (simp add: Cons_nth_drop_Suc)
  let ?c = "case cur of None \<Rightarrow> (i, 1) | Some (base, len) \<Rightarrow> (base, Suc len)"
  show ?case
  proof (cases "ws ! i = 0")
    case True
    then have "runs_loop (drop (Suc i) ws) (Suc i) best (Some ?c) = (best', cur')"
      using Suc.prems(1) by (simp add: d)
    moreover have "run_start (Suc i) (Some ?c) = run_start i cur"
      by (simp add: run_start_def split: option.splits)
    moreover note open_run_zero [OF Suc.prems(4) i True]
    ultimately show ?thesis using Suc.hyps(1) [of "Suc i" best "Some ?c"] Suc.hyps(2) Suc.prems(3) i by simp
  next
    case False
    have "runs_loop (drop (Suc i) ws) (Suc i) (close_run best cur) None = (best', cur')"
      using Suc.prems(1) False by (cases cur) (simp_all add: d close_run_def)
    moreover have "best_upto ws (run_start (Suc i) None) (close_run best cur)"
      using best_upto_skip [OF close_run_upto [OF Suc.prems(3,4)] False] by (simp add: run_start_def)
    moreover have "open_run ws (Suc i) None" using False by (simp add: open_run_def)
    ultimately show ?thesis using Suc.hyps(1) [of "Suc i" "close_run best cur" None] Suc.hyps(2) i by simp
  qed
qed

lemma zero_run_le: "zero_run ws b l \<Longrightarrow> b \<le> length ws \<and> l \<le> length ws \<and> b + l \<le> length ws"
  by (simp add: zero_run_def)

lemma best_run_longest: "best_run ws = Some (b, l) \<longleftrightarrow> longest_run ws b l"
proof -
  obtain best cur where r: "runs_loop ws 0 None None = (best, cur)" by (cases "runs_loop ws 0 None None")
  have "best_upto ws 0 None" "open_run ws 0 None" by (auto simp: best_upto_def open_run_def)
  with r runs_loop_upto [of 0 ws None None best cur]
  have u: "best_upto ws (length ws) (close_run best cur)" by (simp add: run_start_def)
  have e: "best_run ws = (case close_run best cur of None \<Rightarrow> None | Some (base, len) \<Rightarrow> if len < 2 then None else Some (base, len))"
    by (simp add: best_run_def r close_run_def)
  show ?thesis
  proof (cases "close_run best cur")
    case None
    with u have "zero_run ws b l \<Longrightarrow> l = 0" using zero_run_le [of ws b l] by (auto simp: best_upto_def)
    then have "\<not> longest_run ws b l" by (auto simp: longest_run_def)
    then show ?thesis using e None by simp
  next
    case (Some c)
    obtain b0 l0 where c: "close_run best cur = Some (b0, l0)" using Some by (cases c) auto
    with u have z: "zero_run ws b0 l0" "1 \<le> l0"
      and n: "\<And>b' l'. zero_run ws b' l' \<Longrightarrow> l' < l0 \<or> l' = l0 \<and> b0 \<le> b'"
      using zero_run_le by (auto simp: best_upto_def)
    have "longest_run ws b l \<longleftrightarrow> 2 \<le> l0 \<and> b = b0 \<and> l = l0"
    proof
      assume g: "longest_run ws b l"
      then have "l0 < l \<or> l0 = l \<and> b \<le> b0" using z(1) zero_run_le [OF z(1)] by (auto simp: longest_run_def)
      moreover have "l < l0 \<or> l = l0 \<and> b0 \<le> b" "2 \<le> l" using g n by (auto simp: longest_run_def)
      ultimately show "2 \<le> l0 \<and> b = b0 \<and> l = l0" by auto
    qed (use z n in \<open>auto simp: longest_run_def\<close>)
    then show ?thesis using e c by auto
  qed
qed

lemma best_run_none: "best_run ws = None \<longleftrightarrow> (\<nexists>b l. longest_run ws b l)"
  using best_run_longest [of ws] by (cases "best_run ws") auto

lemma best_run_sound:
  assumes "best_run ws = Some (b, l)"
  shows "2 \<le> l" "b + l \<le> length ws" "\<forall>k < l. ws ! (b + k) = 0"
  using assms by (auto simp: best_run_longest longest_run_def zero_run_def)

lemma fmt_out:
  "\<forall>i \<in> set is. \<not> inside best i \<and> 0 < i \<and> \<not> (i = 6 \<and> embeds_v4 best ws) \<Longrightarrow>
   fmt_loop best src ws (is @ js) t = fmt_loop best src ws js (t @ groups (map ((!) ws) is))"
  by (induction "is" arbitrary: t) (auto simp: Let_def)

lemma fmt_in:
  "\<forall>i \<in> set is. inside best i \<and> map_option fst best \<noteq> Some i \<Longrightarrow>
   fmt_loop best src ws (is @ js) t = fmt_loop best src ws js t"
  by (induction "is") auto

lemma upt_split: "i \<le> j \<Longrightarrow> j \<le> k \<Longrightarrow> [i..<k] = [i..<j] @ [j..<k]"
  by (metis upt_add_eq_append le_add_diff_inverse)

lemma map_nth_from: "map ((!) xs) [n..<length xs] = drop n xs"
  by (rule nth_equalityI) simp_all

lemma map_nth_tl: "b \<le> length (w # vs) \<Longrightarrow> map ((!) (w # vs)) [1..<b] = take (b - 1) vs"
  by (rule nth_equalityI) (auto simp: min_def)

lemma fmt_front:
  assumes "\<forall>i < b. \<not> inside best i \<and> \<not> (i = 6 \<and> embeds_v4 best ws)" and "b \<le> length ws"
  shows "fmt_loop best src ws ([0..<b] @ js) [] = fmt_loop best src ws js (joined (take b ws))"
proof (cases b)
  case (Suc m)
  then obtain w vs where ws: "ws = w # vs" using assms(2) by (cases ws) auto
  have "[0..<b] = 0 # [1..<b]" using Suc by (simp add: upt_conv_Cons del: upt_Suc)
  moreover have "fmt_loop best src ws (0 # [1..<b] @ js) [] = fmt_loop best src ws ([1..<b] @ js) (show_hex w)"
    using assms(1) Suc by (simp add: ws)
  moreover have "\<dots> = fmt_loop best src ws js (show_hex w @ groups (map ((!) ws) [1..<b]))"
    using assms(1) by (intro fmt_out) auto
  moreover have "map ((!) ws) [1..<b] = take m vs" using map_nth_tl [of b w vs] assms(2) ws Suc by simp
  ultimately show ?thesis using Suc by (simp add: joined_def ws del: upt_Suc)
qed (simp add: joined_def)

lemma fmt_gap:
  assumes "length ws = 8" and "b + l \<le> 8" and "1 \<le> l" and "\<not> embeds_v4 (Some (b, l)) ws"
  shows "fmt_loop (Some (b, l)) src ws [0..<8] []
    = Inr (Some (joined (take b ws) @ '':'' @ groups (drop (b + l) ws)))"
proof -
  let ?r = "Some (b, l)"
  have u: "[0..<8] = [0..<b] @ b # [Suc b..<b + l] @ [b + l..<8]"
    using upt_split [of 0 b 8] upt_split [of b "b + l" 8] upt_conv_Cons [of b "b + l"]
      assms(2,3) by simp
  have "fmt_loop ?r src ws [0..<8] [] = fmt_loop ?r src ws (b # [Suc b..<b + l] @ [b + l..<8]) (joined (take b ws))"
    unfolding u using assms by (intro fmt_front) (auto simp: inside_def)
  also have "\<dots> = fmt_loop ?r src ws ([Suc b..<b + l] @ [b + l..<8]) (joined (take b ws) @ '':'')"
    using assms(3) by (simp add: inside_def)
  also have "\<dots> = fmt_loop ?r src ws ([b + l..<8] @ []) (joined (take b ws) @ '':'')"
    by (subst fmt_in) (auto simp: inside_def)
  also have "\<dots> = fmt_loop ?r src ws [] ((joined (take b ws) @ '':'') @ groups (map ((!) ws) [b + l..<8]))"
    using assms(3,4) by (intro fmt_out) (auto simp: inside_def)
  finally show ?thesis using map_nth_from [of ws "b + l"] assms(1) by simp
qed

lemma fmt_plain:
  assumes "length ws = 8"
  shows "fmt_loop None src ws [0..<8] [] = Inr (Some (joined ws))"
  using fmt_front [of 8 None ws src "[]"] assms by (simp add: inside_def embeds_v4_def)

section \<open>An embedded IPv4 address\<close>

lemma inet_ntop4_fits:
  assumes "16 \<le> length dst"
  shows "\<exists>d'. inet_ntop4 [a, b, c, d] dst (length dst) = Inr (Some d') \<and> cstr d' = quad_text [a, b, c, d]"
proof -
  let ?q = "quad_text [a, b, c, d]"
  note q = quad_text_length [of a b c d] quad_text_no_nul [of a b c d]
  have "store_str (replicate 16 nul) ?q = Inr (?q @ nul # drop (Suc (length ?q)) (replicate 16 nul))"
    "store_str dst ?q = Inr (?q @ nul # drop (Suc (length ?q)) dst)"
    using q(1) assms by (simp_all add: store_str_Inr_iff)
  then show ?thesis using q assms by (simp add: inet_ntop4_def cstr_append_nul)
qed

text \<open>The text: \<open>::\<close>, the word 0xffff if it is there, and the quad.\<close>

definition v4_text :: "nat list \<Rightarrow> string \<Rightarrow> string" where
  "v4_text mid q = CHR '':'' # groups mid @ CHR '':'' # q"

lemma fmt_quad:
  assumes "drop 12 src = [a, b, c, d]" and "embeds_v4 best ws" and "\<not> inside best 6" and "length t \<le> 29"
  shows "fmt_loop best src ws (6 # is) t = Inr (Some (t @ CHR '':'' # quad_text [a, b, c, d]))"
proof -
  let ?n = "TMP6 - Suc (length t)"
  have "16 \<le> length (replicate ?n nul)" using assms(4) by (simp add: TMP6_def)
  from inet_ntop4_fits [OF this, of a b c d]
  have "\<exists>d'. inet_ntop4 [a, b, c, d] (replicate ?n nul) ?n = Inr (Some d') \<and> cstr d' = quad_text [a, b, c, d]"
    by (simp only: length_replicate)
  then obtain d' where
    e: "inet_ntop4 [a, b, c, d] (replicate ?n nul) ?n = Inr (Some d')" and q: "cstr d' = quad_text [a, b, c, d]"
    by (elim exE conjE)
  show ?thesis
    unfolding fmt_loop.simps(2) Let_def assms(1) using assms(2,3) e q by simp
qed

lemma fmt_v4:
  assumes "embeds_v4 (Some (0, l)) ws" and "drop 12 src = [a, b, c, d]"
  shows "fmt_loop (Some (0, l)) src ws [0..<8] []
    = Inr (Some (v4_text (if l = 5 then [0xffff] else []) (quad_text [a, b, c, d])))"
proof -
  have u: "[0..<8] = [0, 1, 2, 3, 4, 5] @ 6 # [7 :: nat]" by code_simp
  have l: "l = 6 \<or> l = 5 \<and> ws ! 5 = 0xffff" using assms(1) by (auto simp: embeds_v4_def)
  define t where "t = (if l = 5 then ''::'' @ show_hex 0xffff else '':'')"
  have "hex_digit 15 = CHR ''f''" by code_simp
  then have "show_hex 0xffff = ''ffff''" by (simp add: show_hex.simps)
  then have "length t \<le> 29" by (simp add: t_def)
  moreover have "\<not> inside (Some (0, l)) 6" using l by (auto simp: inside_def)
  ultimately have q: "fmt_loop (Some (0, l)) src ws (6 # [7]) t = Inr (Some (t @ CHR '':'' # quad_text [a, b, c, d]))"
    using assms by (intro fmt_quad)
  have "fmt_loop (Some (0, l)) src ws ([0, 1, 2, 3, 4, 5] @ js) [] = fmt_loop (Some (0, l)) src ws js t" for js
    using l by (auto simp: inside_def t_def)
  then have "fmt_loop (Some (0, l)) src ws [0..<8] [] = fmt_loop (Some (0, l)) src ws (6 # [7]) t"
    unfolding u .
  then show ?thesis unfolding q by (simp add: t_def v4_text_def)
qed

text \<open>Reading it: the first number is read as hexadecimal digits before the dot shows what it is.\<close>

lemma run6_quad:
  assumes "length bs + 4 \<le> 16" and "length junk = 4" and "cur = quad_text [a, b, c, d]"
  shows "run6 junk cur cur (filled bs) (length bs) (Some 0) False 0
    = Inr (Some (shift_loop 0 (length bs + 4) (filled (bs @ [a, b, c, d]))))"
proof -
  let ?r = "show_nat (unat b) @ CHR ''.'' # show_nat (unat c) @ CHR ''.'' # show_nat (unat d)"
  have cur: "cur = show_nat (unat a) @ CHR ''.'' # ?r" using assms(3) by (simp add: quad_text_eq)
  have q: "inet_pton4 junk cur = Inr (Some [a, b, c, d])"
    using pton4_quad [of "junk[0 := 0]" a b c d] assms(2,3) cstr_id [of cur] quad_text_no_nul [of a b c d]
    by (simp add: inet_pton4_def)
  obtain v where v: "\<And>r. pton6_loop junk (show_nat (unat a) @ r) cur (filled bs) (length bs) (Some 0) False 0
      = pton6_loop junk r cur (filled bs) (length bs) (Some 0) True v"
    using pton6_decimal [OF unat8_le [of a], of junk cur "filled bs" "length bs" "Some 0"] by blast
  have "run6 junk (show_nat (unat a) @ CHR ''.'' # ?r) cur (filled bs) (length bs) (Some 0) False 0
    = run6 junk (CHR ''.'' # ?r) cur (filled bs) (length bs) (Some 0) True v"
    by (simp only: run6_def v)
  then have "run6 junk cur cur (filled bs) (length bs) (Some 0) False 0
    = run6 junk (CHR ''.'' # ?r) cur (filled bs) (length bs) (Some 0) True v"
    by (simp only: cur [symmetric])
  moreover have "take (length bs) (filled bs) @ [a, b, c, d] @ drop (length bs + 4) (filled bs)
    = filled (bs @ [a, b, c, d])"
    by (simp add: filled_def)
  ultimately show ?thesis
    using assms(1) q by (simp add: run6_def finish6_def close_gap_def)
qed

lemma inet_pton6_v4:
  assumes "cstr src = v4_text mid (quad_text [a, b, c, d])" and "mid = [] \<or> mid = [0xffff]" and "length junk = 4"
  shows "inet_pton6 junk src
    = Inr (Some (replicate (12 - 2 * length mid) 0 @ bytes_of mid @ [a, b, c, d]))"
proof -
  let ?q = "quad_text [a, b, c, d]"
  have n4: "length (bytes_of mid @ [a, b, c, d]) = length (bytes_of mid) + 4" by simp
  have s: "inet_pton6 junk src = pton6_from junk (groups mid @ CHR '':'' # ?q)"
    using assms(1,2) by (auto simp: inet_pton6_def v4_text_def)
  have "pton6_from junk (groups mid @ CHR '':'' # ?q)
    = run6 junk ?q ?q (filled (bytes_of mid)) (length (bytes_of mid)) (Some 0) False 0"
  proof (cases "mid = []")
    case True
    then show ?thesis by (simp add: pton6_from_run run6_gap)
  next
    case False
    then have "mid = [0xffff]" using assms(2) by simp
    then show ?thesis
      using run6_colon [of "[]" junk ?q "show_hex 65535 @ CHR '':'' # ?q" "Some 0" 65535]
      by (simp add: pton6_from_run run6_gap run6_hex numeral_2_eq_2)
  qed
  also have "\<dots> = Inr (Some (shift_loop 0 (length (bytes_of mid) + 4) (filled (bytes_of mid @ [a, b, c, d]))))"
    using assms(2,3) by (intro run6_quad) auto
  also have "\<dots> = Inr (Some (replicate (12 - 2 * length mid) 0 @ bytes_of mid @ [a, b, c, d]))"
    using shift_loop_gap [of "[]" "bytes_of mid @ [a, b, c, d]"] assms(2) unfolding n4 by auto
  finally show ?thesis by (simp add: s)
qed

section \<open>The round trip\<close>

lemma words_of_length [simp]: "length (words_of src) = 8"
  by (simp add: words_of_def)

lemma byte_word_le: "unat (a :: 8 word) * 256 + unat (b :: 8 word) \<le> 0xffff"
  using unat8_le [of a] unat8_le [of b] by linarith

lemma words_of_bound: "w \<in> set (words_of src) \<Longrightarrow> w \<le> 0xffff"
  using byte_word_le by (auto simp: words_of_def)

lemma group_bytes_word: "group_bytes (unat a * 256 + unat b) = [a, b]"
proof -
  have b: "unat b < 256" using unat8_le [of b] by linarith
  then have "(unat a * 256 + unat b) div 256 = unat a" by (simp add: div_add1_eq)
  moreover from b have "(unat a * 256 + unat b) mod 256 = unat b" by (simp add: mod_add_eq)
  ultimately show ?thesis by (simp only: group_bytes_def of_nat_unat8)
qed

lemma bytes_of_words:
  assumes "length src = 16"
  shows "bytes_of (words_of src) = src"
proof -
  have u: "[0..<8] = [0, 1, 2, 3, 4, 5, 6, 7 :: nat]" by code_simp
  have l: "\<exists>x xs. src = x # xs \<and> length xs = n" if "length src = Suc n" for src :: "8 word list" and n
    using that by (cases src) auto
  from assms obtain a b c d e f g h i j k l m n p q where
    "src = [a, b, c, d, e, f, g, h, i, j, k, l, m, n, p, q]"
    by (auto simp: numeral_eq_Suc length_Suc_conv)
  then show ?thesis unfolding words_of_def u by (simp add: group_bytes_word)
qed

lemma bytes_of_zeros: "\<forall>w \<in> set ws. w = 0 \<Longrightarrow> bytes_of ws = replicate (2 * length ws) 0"
  by (induction ws) (simp_all add: group_bytes_def)

lemma split_at_run:
  assumes "b + l \<le> length ws" and "\<forall>k < l. ws ! (b + k) = 0"
  shows "ws = take b ws @ replicate l 0 @ drop (b + l) ws"
proof (rule nth_equalityI)
  show "ws ! i = (take b ws @ replicate l 0 @ drop (b + l) ws) ! i" if "i < length ws" for i
    using that assms(1) assms(2) [rule_format, of "i - b"] by (auto simp: nth_append min_def)
qed (use assms(1) in simp)

text \<open>What \<open>inet_ntop6\<close> writes: one of three forms.\<close>

definition text6 :: "8 word list \<Rightarrow> string" where
  "text6 src =
     (let ws = words_of src in
      case best_run ws of
        None \<Rightarrow> joined ws
      | Some (b, l) \<Rightarrow>
          if embeds_v4 (Some (b, l)) ws
          then v4_text (if l = 5 then [0xffff] else []) (quad_text (drop 12 src))
          else gap_text (take b ws) (drop (b + l) ws))"

lemma text6_run:
  assumes "longest_run (words_of src) b l"
  shows "text6 src =
    (if b = 0 \<and> l = 6 then ''::'' @ quad_text (drop 12 src)
     else if b = 0 \<and> l = 5 \<and> words_of src ! 5 = 0xffff then ''::ffff:'' @ quad_text (drop 12 src)
     else gap_text (take b (words_of src)) (drop (b + l) (words_of src)))"
proof -
  have "map hex_digit [15] = ''f''" by code_simp
  then have "groups [0xffff] = '':ffff''" by (simp add: show_hex.simps)
  moreover have "best_run (words_of src) = Some (b, l)" using assms by (simp add: best_run_longest)
  ultimately show ?thesis by (simp add: text6_def Let_def embeds_v4_def v4_text_def)
qed

lemma text6_full: "(\<nexists>b l. longest_run (words_of src) b l) \<Longrightarrow> text6 src = joined (words_of src)"
  using best_run_none [of "words_of src"] by (simp add: text6_def Let_def)

lemma length_groups: "\<forall>w \<in> set ws. w \<le> 0xffff \<Longrightarrow> length (groups ws) \<le> 5 * length ws"
proof (induction ws)
  case (Cons w ws)
  then show ?case using length_show_hex [of w 3] by simp
qed simp

lemma length_joined: "\<forall>w \<in> set ws. w \<le> 0xffff \<Longrightarrow> length (joined ws) \<le> 5 * length ws"
  using length_groups [of ws] by (cases ws) (simp_all add: joined_def)

lemma length_gap_text:
  assumes "\<forall>w \<in> set (pre @ post). w \<le> 0xffff"
  shows "length (gap_text pre post) \<le> 5 * (length pre + length post) + 2"
  using length_joined [of pre] length_groups [of post] assms by (auto simp: gap_text_def)

lemma v4_text_props:
  assumes "mid = [] \<or> mid = [0xffff]"
  shows "length (v4_text mid (quad_text [a, b, c, d])) < 46" "nul \<notin> set (v4_text mid (quad_text [a, b, c, d]))"
  using assms quad_text_length [of a b c d] quad_text_no_nul [of a b c d] groups_no_nul [of mid]
    length_groups [of mid] by (auto simp: v4_text_def)

lemma last_four:
  assumes "length src = 16"
  obtains a b c d :: "8 word" where "drop 12 src = [a, b, c, d]"
proof -
  have "length xs = 4 \<Longrightarrow> \<exists>a b c d. xs = [a, b, c, d]" for xs :: "8 word list"
    by (auto simp: numeral_eq_Suc length_Suc_conv)
  from this [of "drop 12 src"] assms that show ?thesis by auto
qed

lemma text6_props:
  assumes "length src = 16"
  shows "length (text6 src) < 46" "nul \<notin> set (text6 src)"
proof -
  let ?ws = "words_of src"
  have le: "\<forall>w \<in> set ?ws. w \<le> 0xffff" using words_of_bound by blast
  obtain a b c d where q: "drop 12 src = [a, b, c, d]" using assms by (rule last_four)
  have "length (text6 src) < 46 \<and> nul \<notin> set (text6 src)"
  proof (cases "best_run ?ws")
    case None
    then show ?thesis
      using length_joined [of ?ws] le show_hex_chars groups_no_nul
      by (auto simp: text6_def Let_def joined_def split: list.splits)
  next
    case (Some r)
    then obtain b' l where r: "best_run ?ws = Some (b', l)" by (cases r) auto
    note run = best_run_sound [OF r]
    show ?thesis
    proof (cases "embeds_v4 (Some (b', l)) ?ws")
      case True
      then show ?thesis
        using r q v4_text_props [of "if l = 5 then [0xffff] else []" a b c d]
        by (simp add: text6_def Let_def)
    next
      case False
      have "\<forall>w \<in> set (take b' ?ws @ drop (b' + l) ?ws). w \<le> 0xffff"
        using le by (auto dest: in_set_takeD in_set_dropD)
      from length_gap_text [OF this] run(1,2) show ?thesis
        using r False gap_text_no_nul by (simp add: text6_def Let_def)
    qed
  qed
  then show "length (text6 src) < 46" "nul \<notin> set (text6 src)" by simp_all
qed

lemma inet_ntop6_text:
  assumes "length src = 16" and "length (text6 src) < len" and "len \<le> length dst"
  shows "inet_ntop6 src dst len
    = Inr (Some (text6 src @ nul # drop (Suc (length (text6 src))) dst))"
proof -
  let ?ws = "words_of src"
  note p = text6_props [OF assms(1)]
  have st: "store_str dst (text6 src) = Inr (text6 src @ nul # drop (Suc (length (text6 src))) dst)"
    using assms(2,3) by (simp add: store_str_Inr_iff)
  obtain a b c d where q: "drop 12 src = [a, b, c, d]" using assms(1) by (rule last_four)
  show ?thesis
  proof (cases "best_run ?ws")
    case None
    then have "text6 src = joined ?ws" by (simp add: text6_def Let_def)
    with None fmt_plain [of ?ws src] st p(1) assms(2) show ?thesis
      by (simp add: inet_ntop6_def TMP6_def Let_def)
  next
    case (Some r)
    then obtain b' l where r: "best_run ?ws = Some (b', l)" by (cases r) auto
    note run = best_run_sound [OF r]
    show ?thesis
    proof (cases "embeds_v4 (Some (b', l)) ?ws")
      case True
      then have b': "b' = 0" and l: "l \<noteq> 8" by (auto simp: embeds_v4_def)
      have "text6 src = v4_text (if l = 5 then [0xffff] else []) (quad_text [a, b, c, d])"
        using r True q by (simp add: text6_def Let_def)
      with r b' l fmt_v4 [OF True [unfolded b'] q] st p(1) assms(2) show ?thesis
        by (simp add: inet_ntop6_def TMP6_def Let_def)
    next
      case False
      have "text6 src = gap_text (take b' ?ws) (drop (b' + l) ?ws)"
        using r False by (simp add: text6_def Let_def)
      moreover have "drop (b' + l) ?ws = [] \<longleftrightarrow> b' + l = 8" using run(2) by auto
      moreover have "fmt_loop (Some (b', l)) src ?ws [0..<8] []
        = Inr (Some (joined (take b' ?ws) @ '':'' @ groups (drop (b' + l) ?ws)))"
        using run(1,2) False by (intro fmt_gap) simp_all
      ultimately show ?thesis using r st p(1) assms(2)
        by (auto simp: inet_ntop6_def TMP6_def gap_text_def Let_def)
    qed
  qed
qed

lemma inet_pton6_text:
  assumes "length src = 16" and "length junk = 4" and "cstr t = text6 src"
  shows "inet_pton6 junk t = Inr (Some src)"
proof -
  let ?ws = "words_of src"
  have le: "\<forall>w \<in> set ?ws. w \<le> 0xffff" using words_of_bound by blast
  obtain a b c d where q: "drop 12 src = [a, b, c, d]" using assms(1) by (rule last_four)
  have src: "bytes_of ?ws = src" using bytes_of_words assms(1) by blast
  show ?thesis
  proof (cases "best_run ?ws")
    case None
    then have "cstr t = joined ?ws @ []" using assms(3) by (simp add: text6_def Let_def)
    from inet_pton6_full [OF this _ le] src show ?thesis by simp
  next
    case (Some r)
    then obtain b' l where r: "best_run ?ws = Some (b', l)" by (cases r) auto
    note run = best_run_sound [OF r]
    have ws: "?ws = take b' ?ws @ replicate l 0 @ drop (b' + l) ?ws" using run(2,3) by (rule split_at_run)
    show ?thesis
    proof (cases "embeds_v4 (Some (b', l)) ?ws")
      case True
      let ?mid = "if l = 5 then [0xffff :: nat] else []"
      from True have b': "b' = 0" and l: "l = 6 \<or> l = 5 \<and> ?ws ! 5 = 0xffff"
        by (auto simp: embeds_v4_def)
      have z: "take l ?ws = replicate l 0" using run(2,3) b' by (intro nth_equalityI) auto
      have "take 6 ?ws = take 5 ?ws @ [?ws ! 5]"
        using take_Suc_conv_app_nth [of 5 ?ws] by simp
      with l z have "take 6 ?ws = replicate l 0 @ ?mid" by auto
      then have t6: "bytes_of (take 6 ?ws) = replicate (12 - 2 * length ?mid) 0 @ bytes_of ?mid"
        using l bytes_of_zeros [of "replicate l 0"] by (elim disjE conjE) simp_all
      have e: "bytes_of (take 6 ?ws) @ bytes_of (drop 6 ?ws) = src"
        using src append_take_drop_id [of 6 ?ws] by (simp flip: bytes_of_simps(3))
      have "bytes_of (drop 6 ?ws) = drop 12 (bytes_of (take 6 ?ws) @ bytes_of (drop 6 ?ws))" by simp
      then have "bytes_of (drop 6 ?ws) = [a, b, c, d]" by (simp only: e q)
      with e t6 have "replicate (12 - 2 * length ?mid) 0 @ bytes_of ?mid @ [a, b, c, d] = src"
        by (simp only: append_assoc)
      moreover have "cstr t = v4_text ?mid (quad_text [a, b, c, d])"
        using assms(3) r True q by (simp add: text6_def Let_def)
      ultimately show ?thesis using inet_pton6_v4 [of t ?mid a b c d junk] assms(2) by auto
    next
      case False
      let ?pre = "take b' ?ws" and ?post = "drop (b' + l) ?ws"
      have "cstr t = gap_text ?pre ?post" using assms(3) r False by (simp add: text6_def Let_def)
      moreover have "\<forall>w \<in> set (?pre @ ?post). w \<le> 0xffff"
        using le by (auto dest: in_set_takeD in_set_dropD)
      moreover have lens: "length ?pre = b'" "length ?post = 8 - (b' + l)" using run(1,2) by auto
      ultimately have "inet_pton6 junk t = Inr (Some (gap_bytes ?pre ?post))"
        using run(1,2) by (intro inet_pton6_gap) simp_all
      moreover have "gap_bytes ?pre ?post = bytes_of ?pre @ replicate (2 * l) 0 @ bytes_of ?post"
        using run(1,2) lens by (simp add: gap_bytes_def)
      moreover have "src = bytes_of ?pre @ replicate (2 * l) 0 @ bytes_of ?post"
        using src bytes_of_zeros [of "replicate l 0"] ws
        by (metis bytes_of_simps(3) in_set_replicate length_replicate)
      ultimately show ?thesis by simp
    qed
  qed
qed

section \<open>Properties\<close>

text \<open>C30: Every IPv6 address survives the way into text and back: \<^verbatim>\<open>inet_ntop\<close> writes it into an array of
  46 characters without leaving its own array or the caller's, and \<^verbatim>\<open>inet_pton\<close> reads the same sixteen
  bytes from the text.  The text is the compressed form: the first of the longest runs of at least two zero
  words is left out for \<^verbatim>\<open>::\<close>; when it is the first six words, or the first five with \<^verbatim>\<open>ffff\<close> behind
  them, the last four bytes are written as an IPv4 address.  Without such a run all eight words are
  written.\<close>

theorem ipv6_text_round_trip:
  assumes "length src = 16" and "46 \<le> length dst" and "length junk = 4"
  shows "\<exists>t. inet_ntop AF_INET6 src dst (length dst) = Text t
    \<and> inet_pton AF_INET6 junk t = Inr (Valid src)
    \<and> (\<forall>b l. longest_run (words_of src) b l \<longrightarrow> cstr t =
         (if b = 0 \<and> l = 6 then ''::'' @ quad_text (drop 12 src)
          else if b = 0 \<and> l = 5 \<and> words_of src ! 5 = 0xffff then ''::ffff:'' @ quad_text (drop 12 src)
          else gap_text (take b (words_of src)) (drop (b + l) (words_of src))))
    \<and> ((\<nexists>b l. longest_run (words_of src) b l) \<longrightarrow> cstr t = joined (words_of src))"
proof -
  let ?t = "text6 src @ nul # drop (Suc (length (text6 src))) dst"
  note p = text6_props [OF assms(1)]
  have "length (text6 src) < length dst" using p(1) assms(2) by simp
  from inet_ntop6_text [OF assms(1) this order_refl]
  have "inet_ntop AF_INET6 src dst (length dst) = Text ?t"
    by (simp add: inet_ntop_def ntop_of_def AF_INET_def AF_INET6_def)
  moreover have c: "cstr ?t = text6 src" using p(2) by (rule cstr_append_nul)
  then have "inet_pton6 junk ?t = Inr (Some src)"
    using assms(1,3) by (intro inet_pton6_text)
  then have "inet_pton AF_INET6 junk ?t = Inr (Valid src)"
    by (simp add: inet_pton_def AF_INET_def AF_INET6_def)
  ultimately show ?thesis using c text6_run text6_full by metis
qed

theorem ipv6_text_round_trip_witness:
  "\<exists>t. inet_ntop AF_INET6 [0x20, 1, 0, 0, 0, 0, 0, 1, 0, 0, 0, 0, 0, 0, 0, 1] (replicate 46 nul) 46 = Text t
    \<and> cstr t = ''2001:0:0:1::1''
    \<and> inet_pton AF_INET6 [9, 9, 9, 9] t
      = Inr (Valid [0x20, 1, 0, 0, 0, 0, 0, 1, 0, 0, 0, 0, 0, 0, 0, 1])"
proof -
  let ?src = "[0x20, 1, 0, 0, 0, 0, 0, 1, 0, 0, 0, 0, 0, 0, 0, 1] :: 8 word list"
  have w: "words_of ?src = [0x2001, 0, 0, 1, 0, 0, 0, 1]" by code_simp
  have "best_run [0x2001, 0, 0, 1, 0, 0, 0, 1] = Some (4, 3)" by code_simp
  then have "longest_run [0x2001, 0, 0, 1, 0, 0, 0, 1] 4 3" by (simp only: best_run_longest)
  moreover have "map hex_digit [0, 1, 2] = ''012''" by code_simp
  then have "gap_text [0x2001, 0, 0, 1] [1] = ''2001:0:0:1::1''"
    by (simp add: gap_text_def joined_def show_hex.simps)
  ultimately show ?thesis
    using ipv6_text_round_trip [of ?src "replicate 46 nul" "[9, 9, 9, 9]"] by (auto simp: w)
qed

text \<open>A text with eight groups and a double colon among them is taken for an address, but the
  double colon is not ignored: \<^verbatim>\<open>inet_pton6\<close> clears every group behind it.  A colon behind eight groups is
  accepted too.\<close>

theorem inet_pton6_clears_groups:
  assumes "\<forall>w \<in> set (pre @ post). w \<le> 0xffff" and "length pre + length post = 8"
  shows "inet_pton6 junk (gap_text pre post) = Inr (Some (bytes_of pre @ replicate (2 * length post) 0))
    \<and> inet_pton6 junk (joined (pre @ post) @ '':'') = Inr (Some (bytes_of (pre @ post)))"
proof -
  have "cstr (gap_text pre post) = gap_text pre post"
    using gap_text_no_nul by (rule cstr_id)
  from inet_pton6_gap [OF this assms(1)] assms(2)
  have "inet_pton6 junk (gap_text pre post) = Inr (Some (bytes_of pre @ replicate (2 * length post) 0))"
    by (simp add: gap_bytes_def)
  moreover have "nul \<notin> set (joined (pre @ post) @ '':'')"
    using show_hex_chars groups_no_nul by (auto simp: joined_def split: list.splits)
  then have "cstr (joined (pre @ post) @ '':'') = joined (pre @ post) @ '':''" by (rule cstr_id)
  from inet_pton6_full [OF this _ assms(1)] assms(2)
  have "inet_pton6 junk (joined (pre @ post) @ '':'') = Inr (Some (bytes_of (pre @ post)))" by simp
  ultimately show ?thesis by blast
qed

theorem inet_pton6_clears_groups_witness:
  "inet_pton6 [0, 0, 0, 0] ''1::2:3:4:5:6:7:8'' = Inr (Some [0, 1, 0, 0, 0, 0, 0, 0, 0, 0, 0, 0, 0, 0, 0, 0])"
proof -
  have "gap_text [1] [2, 3, 4, 5, 6, 7, 8] = ''1::2:3:4:5:6:7:8''"
  proof -
    have "map hex_digit [1, 2, 3, 4, 5, 6, 7, 8] = ''12345678''" by code_simp
    then show ?thesis by (simp add: gap_text_def joined_def show_hex.simps)
  qed
  moreover have "bytes_of [1] @ replicate (2 * length [2, 3, 4, 5, 6, 7, 8 :: nat]) 0
    = [0, 1, 0, 0, 0, 0, 0, 0, 0, 0, 0, 0, 0, 0, 0, 0 :: 8 word]" by code_simp
  ultimately show ?thesis
    using inet_pton6_clears_groups [of "[1]" "[2, 3, 4, 5, 6, 7, 8]" "[0, 0, 0, 0]"] by simp
qed

end
