(* ===== verification/Unp_Select_Client.thy ===== *)
theory Unp_Select_Client
  imports Unp_Echo
begin

text \<open>
  The echo clients that wait for the terminal and the connection at once
  (\<^verbatim>\<open>SampleCode/unpv13e/select\<close>: \<^verbatim>\<open>strcliselect01.c\<close> and \<^verbatim>\<open>strcliselect02.c\<close>), over any sequence of
  answers that \<^verbatim>\<open>select\<close> can give.
\<close>

section \<open>What select reports\<close>

text \<open>The members of the read and write sets that matter, before the call and after it.\<close>

record ready =
  in_r :: bool
  out_w :: bool
  sk_r :: bool
  sk_w :: bool

text \<open>\<^verbatim>\<open>select\<close> leaves in a set only descriptors that were in it.\<close>

definition among :: "ready \<Rightarrow> ready \<Rightarrow> ready" where
  "among a r = \<lparr>in_r = in_r a \<and> in_r r, out_w = out_w a \<and> out_w r,
     sk_r = sk_r a \<and> sk_r r, sk_w = sk_w a \<and> sk_w r\<rparr>"

lemma among_simps [simp]:
  "in_r (among a r) \<longleftrightarrow> in_r a \<and> in_r r" "out_w (among a r) \<longleftrightarrow> out_w a \<and> out_w r"
  "sk_r (among a r) \<longleftrightarrow> sk_r a \<and> sk_r r" "sk_w (among a r) \<longleftrightarrow> sk_w a \<and> sk_w r"
  by (simp_all add: among_def)

text \<open>
  One turn of such a loop: \<open>None\<close> to go on, or the way the function is left.
\<close>

type_synonym ('s, 'p) turn = "stop option \<times> 's \<times> 'p"

definition then_turn :: "('s, 'p) turn \<Rightarrow> ('s \<Rightarrow> 'p \<Rightarrow> ('s, 'p) turn) \<Rightarrow> ('s, 'p) turn" where
  "then_turn t k = (case t of (None, s, p) \<Rightarrow> k s p | (Some x, s, p) \<Rightarrow> (Some x, s, p))"

definition stop_turn :: "'s \<Rightarrow> stop \<times> 'p \<Rightarrow> ('s, 'p) turn" where
  "stop_turn s r = (case r of (x, p) \<Rightarrow> (Some x, s, p))"

lemma then_turn_simps [simp]:
  "then_turn (None, s, p) k = k s p" "then_turn (Some x, s, p) k = (Some x, s, p)"
  by (simp_all add: then_turn_def)

lemma then_turn_None:
  "then_turn t k = (None, s', p') \<longleftrightarrow> (\<exists>s p. t = (None, s, p) \<and> k s p = (None, s', p'))"
  by (cases t; cases "fst t") auto

lemma then_turn_Some:
  "then_turn t k = (Some x, s', p') \<longleftrightarrow>
     t = (Some x, s', p') \<or> (\<exists>s p. t = (None, s, p) \<and> k s p = (Some x, s', p'))"
  by (cases t; cases "fst t") auto

lemma then_turn_inv:
  assumes "then_turn t k = (r, s', p')" and "\<And>x s p. t = (x, s, p) \<Longrightarrow> I x s"
    and "\<And>s p r s' p'. I None s \<Longrightarrow> k s p = (r, s', p') \<Longrightarrow> I r s'"
  shows "I r s'"
  using assms by (cases t; cases "fst t") auto

lemma stop_turn_eq: "stop_turn s r = (y, s', p') \<longleftrightarrow> y = Some (fst r) \<and> s' = s \<and> p' = snd r"
  by (cases r) (auto simp: stop_turn_def)

section \<open>The bytes of a script\<close>

text \<open>All that will still be read up to the end of file, failed reads left out.\<close>

fun stream :: "rd_event list \<Rightarrow> string" where
  "stream (Seg s # es) = s @ stream es"
| "stream (RdErr e # es) = stream es"
| "stream _ = []"

lemma sys_read_stream:
  "sys_read n es = (r, es') \<Longrightarrow>
   stream es = (case r of Got d \<Rightarrow> d | _ \<Rightarrow> []) @ stream es' \<and> (r = Eof \<longrightarrow> stream es' = [])"
  by (induction n es rule: sys_read.induct) (auto split: if_splits simp flip: append_assoc append_Cons)

section \<open>strcliselect02.c\<close>

text \<open>
  The state: the standard input and output, the connection, \<^verbatim>\<open>stdineof\<close> and the number of
  times \<^verbatim>\<open>shutdown\<close> has sent the end of the stream.
\<close>

record echo_cli =
  c_in :: conn
  c_out :: conn
  c_sk :: conn
  stdineof :: bool
  fins :: nat

text \<open>
  \<open>sh\<close> is what \<^verbatim>\<open>shutdown\<close> answers.  One turn of the loop after \<^verbatim>\<open>select\<close> has answered \<open>w\<close>.
\<close>

definition socket_02 :: "ready \<Rightarrow> echo_cli \<Rightarrow> 'p proc_scheme \<Rightarrow> (echo_cli, 'p proc_scheme) turn" where
  "socket_02 w s p =
     (if \<not> sk_r w then (None, s, p)
      else (case Read MAXLINE (c_sk s) p of
          Inl r \<Rightarrow> stop_turn s r
        | Inr ((buf, c), p1) \<Rightarrow>
            (let s1 = s\<lparr>c_sk := c\<rparr> in
             if length buf = 0 then
               (if stdineof s then (Some Returns, s1, p1)
                else stop_turn s1 (err_quit ''str_cli: server terminated prematurely'' p1))
             else (case Write buf (c_out s) p1 of
                 (x, o1, p2) \<Rightarrow> (if x = Returns then None else Some x, s1\<lparr>c_out := o1\<rparr>, p2)))))"

definition input_02 ::
    "errno + unit \<Rightarrow> ready \<Rightarrow> echo_cli \<Rightarrow> 'p proc_scheme \<Rightarrow> (echo_cli, 'p proc_scheme) turn" where
  "input_02 sh w s p =
     (if \<not> in_r w then (None, s, p)
      else (case Read MAXLINE (c_in s) p of
          Inl r \<Rightarrow> stop_turn s r
        | Inr ((buf, c), p1) \<Rightarrow>
            (let s1 = s\<lparr>c_in := c\<rparr> in
             if length buf = 0 then
               (case Shutdown sh p1 of
                  Inl r \<Rightarrow> stop_turn (s1\<lparr>stdineof := True\<rparr>) r
                | Inr (_, p2) \<Rightarrow> (None, s1\<lparr>stdineof := True, fins := fins s + 1\<rparr>, p2))
             else (case Writen buf (c_sk s) p1 of
                 (x, c1, p2) \<Rightarrow> (if x = Returns then None else Some x, s1\<lparr>c_sk := c1\<rparr>, p2)))))"

definition turn_02 ::
    "errno + unit \<Rightarrow> errno + (nat \<times> ready) \<Rightarrow> echo_cli \<Rightarrow> 'p proc_scheme \<Rightarrow> (echo_cli, 'p proc_scheme) turn" where
  "turn_02 sh sel s p =
     (case Select sel p of
        Inl r \<Rightarrow> stop_turn s r
      | Inr ((n, rep), p1) \<Rightarrow>
          (let w = among \<lparr>in_r = \<not> stdineof s, out_w = False, sk_r = True, sk_w = False\<rparr> rep
           in then_turn (socket_02 w s p1) (input_02 sh w)))"

text \<open>When the script of answers is used up, \<^verbatim>\<open>select\<close> waits.\<close>

fun loop_02 ::
    "errno + unit \<Rightarrow> (errno + (nat \<times> ready)) list \<Rightarrow> echo_cli \<Rightarrow> 'p proc_scheme \<Rightarrow> stop \<times> echo_cli \<times> 'p proc_scheme"
where
  "loop_02 sh [] s p = (Blocks, s, p)"
| "loop_02 sh (sel # sels) s p =
     (case turn_02 sh sel s p of
        (None, s1, p1) \<Rightarrow> loop_02 sh sels s1 p1
      | (Some x, s1, p1) \<Rightarrow> (x, s1, p1))"

definition str_cli_select02 ::
    "errno + unit \<Rightarrow> (errno + (nat \<times> ready)) list \<Rightarrow> conn \<Rightarrow> conn \<Rightarrow> conn \<Rightarrow> 'p proc_scheme
     \<Rightarrow> stop \<times> echo_cli \<times> 'p proc_scheme" where
  "str_cli_select02 sh sels cin cout csk p =
     loop_02 sh sels \<lparr>c_in = cin, c_out = cout, c_sk = csk, stdineof = False, fins = 0\<rparr> p"

section \<open>strcliselect01.c\<close>

text \<open>
  Here the standard input goes through \<^verbatim>\<open>stdio\<close> and the connection through \<^verbatim>\<open>readline\<close>, whose buffers
  \<^verbatim>\<open>select\<close> does not see.  \<open>ferr\<close> and \<open>ws\<close> are as for \<open>str_cli\<close>; the state is \<^verbatim>\<open>recvline\<close>, the connection
  and the failures of \<^verbatim>\<open>fputs\<close> to come.
\<close>

type_synonym cli01 = "string \<times> conn \<times> errno option list"

definition socket_01 :: "ready \<Rightarrow> cli01 \<Rightarrow> 'a rline_scheme \<Rightarrow> (cli01, 'a rline_scheme) turn" where
  "socket_01 w s p =
     (if \<not> sk_r w then (None, s, p)
      else (case s of (recvline, c, ws) \<Rightarrow>
         (case Readline recvline MAXLINE c p of
            Inl r \<Rightarrow> stop_turn s r
          | Inr ((n, b, c1), p1) \<Rightarrow>
              if n = 0 then stop_turn (b, c1, ws) (err_quit ''str_cli: server terminated prematurely'' p1)
              else (case Fputs (cstr b) (case ws of [] \<Rightarrow> None | e # _ \<Rightarrow> e) p1 of
                  Inl r \<Rightarrow> stop_turn (b, c1, tl ws) r
                | Inr (_, p2) \<Rightarrow> (None, (b, c1, tl ws), p2)))))"

definition input_01 ::
    "errno option \<Rightarrow> ready \<Rightarrow> cli01 \<Rightarrow> 'a rline_scheme \<Rightarrow> (cli01, 'a rline_scheme) turn" where
  "input_01 ferr w s p =
     (if \<not> in_r w then (None, s, p)
      else (case Fgets MAXLINE ferr p of
          Inl r \<Rightarrow> stop_turn s r
        | Inr (None, p1) \<Rightarrow> (Some Returns, s, p1)
        | Inr (Some sendline, p1) \<Rightarrow>
            (case s of (recvline, c, ws) \<Rightarrow>
               (case Writen (cstr (sendline @ [nul])) c p1 of
                  (x, c1, p2) \<Rightarrow> (if x = Returns then None else Some x, (recvline, c1, ws), p2)))))"

fun str_cli_select01 ::
    "errno option \<Rightarrow> (errno + (nat \<times> ready)) list \<Rightarrow> cli01 \<Rightarrow> 'a rline_scheme \<Rightarrow> stop \<times> cli01 \<times> 'a rline_scheme"
where
  "str_cli_select01 ferr [] s p = (Blocks, s, p)"
| "str_cli_select01 ferr (sel # sels) s p =
     (case (case Select sel p of
              Inl r \<Rightarrow> stop_turn s r
            | Inr ((n, rep), p1) \<Rightarrow>
                (let w = among \<lparr>in_r = True, out_w = False, sk_r = True, sk_w = False\<rparr> rep
                 in then_turn (socket_01 w s p1) (input_01 ferr w))) of
        (None, s1, p1) \<Rightarrow> str_cli_select01 ferr sels s1 p1
      | (Some x, s1, p1) \<Rightarrow> (x, s1, p1))"

section \<open>What the client passes on\<close>

text \<open>
  \<open>T\<close> is what has been sent and what the input still holds, \<open>F\<close> what has been shown and what the
  connection still holds; \<open>y\<close> is lost when the process ends early.
\<close>

definition relays :: "string \<Rightarrow> string \<Rightarrow> stop option \<Rightarrow> 'a echo_cli_scheme \<Rightarrow> bool" where
  "relays T F x s \<longleftrightarrow>
     (\<exists>y. T = sent (c_sk s) @ y \<and> ((\<forall>n. x \<noteq> Some (Exits n)) \<longrightarrow> y = stream (rq (c_in s))))
   \<and> (\<exists>y. F = sent (c_out s) @ y \<and> ((\<forall>n. x \<noteq> Some (Exits n)) \<longrightarrow> y = stream (rq (c_sk s))))
   \<and> (stdineof s \<longrightarrow> stream (rq (c_in s)) = [])
   \<and> ((\<forall>n. x \<noteq> Some (Exits n)) \<longrightarrow> fins s = (if stdineof s then 1 else 0)) \<and> fins s \<le> 1
   \<and> (x = Some Returns \<longrightarrow> stdineof s \<and> stream (rq (c_sk s)) = [])
   \<and> (\<forall>f. x \<noteq> Some (Undef f))"

lemma Read_stream:
  "Read n c p = Inr ((d, c'), p') \<Longrightarrow> 0 < n \<Longrightarrow> stream (rq c) = d @ stream (rq c') \<and> sent c' = sent c
     \<and> (d = [] \<longrightarrow> stream (rq c') = [])"
  "Read n c p = Inl (x, p') \<Longrightarrow> x = Blocks \<or> x = Exits 1"
  using sys_read_Got(4) [of n "rq c" "[]"]
  by (auto simp: Read_def conn_read_def err_sys_def dest: sys_read_stream
      split: prod.splits rd_result.splits)

lemma Write_turn:
  "Write d c p = (x, c', p') \<Longrightarrow> rq c' = rq c \<and> (\<exists>k. sent c' = sent c @ take k d)
     \<and> (x = Returns \<and> sent c' = sent c @ d \<or> x = Exits 1)"
  using Write_all_or_exit [of d c p] by (auto dest: Write_rq)

lemma Writen_turn:
  "Writen d c p = (x, c', p') \<Longrightarrow> rq c' = rq c \<and> (\<exists>k. sent c' = sent c @ take k d)
     \<and> (x = Returns \<and> sent c' = sent c @ d \<or> x = Exits 1)"
  by (auto simp: Writen_def writen_def err_sys_def dest!: writen_loop_sent split: prod.splits if_splits)

lemma take_front [simp]: "\<exists>y. d @ z = take k d @ y"
  by (intro exI [of _ "drop k d @ z"]) (simp flip: append_assoc)

lemma socket_02_stdineof: "socket_02 w s p = (x, s', p') \<Longrightarrow> stdineof s' = stdineof s"
  by (auto simp: socket_02_def stop_turn_eq Let_def split: if_splits sum.splits prod.splits)

lemma relays_socket_02:
  assumes "socket_02 w s p = (x, s', p')" and "relays T F None s"
  shows "relays T F x s'"
proof (cases "Read MAXLINE (c_sk s) p")
  case (Inl r)
  then show ?thesis using assms
    by (cases r) (auto simp: socket_02_def relays_def stop_turn_def dest!: Read_stream(2) split: if_splits)
next
  case (Inr r)
  then obtain d c p1 where r: "Read MAXLINE (c_sk s) p = Inr ((d, c), p1)" by (cases r) auto
  then have rd: "stream (rq (c_sk s)) = d @ stream (rq c)" "sent c = sent (c_sk s)"
    "d = [] \<Longrightarrow> stream (rq c) = []"
    by (auto dest!: Read_stream(1) simp: MAXLINE_def)
  obtain y o1 p2 where w: "Write d (c_out s) p1 = (y, o1, p2)" by (cases "Write d (c_out s) p1")
  show ?thesis using assms r rd w Write_turn [OF w]
    by (auto simp: socket_02_def relays_def stop_turn_eq Let_def err_quit_def split: if_splits)
qed

lemma relays_input_02:
  assumes "input_02 sh w s p = (x, s', p')" and "relays T F None s" and "in_r w \<Longrightarrow> \<not> stdineof s"
  shows "relays T F x s'"
proof (cases "Read MAXLINE (c_in s) p")
  case (Inl r)
  then show ?thesis using assms
    by (cases r) (auto simp: input_02_def relays_def stop_turn_def dest!: Read_stream(2) split: if_splits)
next
  case (Inr r)
  then obtain d c p1 where r: "Read MAXLINE (c_in s) p = Inr ((d, c), p1)" by (cases r) auto
  then have rd: "stream (rq (c_in s)) = d @ stream (rq c)" "d = [] \<Longrightarrow> stream (rq c) = []"
    by (auto dest!: Read_stream(1) simp: MAXLINE_def)
  obtain y c1 p2 where w: "Writen d (c_sk s) p1 = (y, c1, p2)" by (cases "Writen d (c_sk s) p1")
  show ?thesis using assms r rd w Writen_turn [OF w]
    by (auto simp: input_02_def relays_def stop_turn_eq Let_def Shutdown_def or_die_def err_sys_def
        split: if_splits sum.splits)
qed

lemma relays_turn_02:
  assumes "turn_02 sh sel s p = (x, s', p')" and "relays T F None s"
  shows "relays T F x s'"
proof (cases "Select sel p")
  case (Inl r)
  then show ?thesis using assms
    by (auto simp: turn_02_def stop_turn_eq Select_def or_die_def err_sys_def relays_def split: sum.splits)
next
  case (Inr a)
  obtain n rep p1 where a: "a = ((n, rep), p1)" by (cases a) auto
  let ?w = "among \<lparr>in_r = \<not> stdineof s, out_w = False, sk_r = True, sk_w = False\<rparr> rep"
  obtain y s1 p2 where f: "socket_02 ?w s p1 = (y, s1, p2)" by (cases "socket_02 ?w s p1")
  have g: "in_r ?w \<Longrightarrow> \<not> stdineof s1" using socket_02_stdineof [OF f] by simp
  show ?thesis using assms Inr a f g relays_socket_02 [OF f assms(2)]
    by (cases y) (auto simp: turn_02_def Let_def elim: relays_input_02)
qed

lemma relays_loop_02:
  "loop_02 sh sels s p = (x, s', p') \<Longrightarrow> relays T F None s \<Longrightarrow> relays T F (Some x) s'"
proof (induction sh sels s p rule: loop_02.induct)
  case (2 sh sel sels s p)
  obtain y s1 p1 where t: "turn_02 sh sel s p = (y, s1, p1)" by (cases "turn_02 sh sel s p")
  from relays_turn_02 [OF this 2(3)] 2 t show ?case by (cases y) auto
qed (simp add: relays_def)

section \<open>Properties\<close>


definition quiet_conn :: "rd_event list \<Rightarrow> wr_event list \<Rightarrow> conn" where
  "quiet_conn r w = \<lparr>rq = r, wq = w, sent = []\<rparr>"

definition all_ready :: ready where
  "all_ready = \<lparr>in_r = True, out_w = True, sk_r = True, sk_w = True\<rparr>"


text \<open>The version with buffered input stops at the end of its input without waiting for the replies:
  when \<^verbatim>\<open>select\<close> reports the input first, as it does for a file, all lines are sent and no reply is shown.\<close>

theorem select01_leaves_replies:
  assumes "\<forall>l \<in> set ls. plain_line l" and "inp p = text_of ls" and "\<forall>e \<in> set (wq c). patient e"
    and "str_cli_select01 None (replicate (Suc (length ls)) (Inr (1, all_ready\<lparr>sk_r := False\<rparr>)) @ sels) (b, c, []) p
      = (x, (b', c', ws), p')"
  shows "x = Returns \<and> sent c' = sent c @ text_of ls \<and> rq c' = rq c \<and> out p' = out p"
  using assms
proof (induction ls arbitrary: c p)
  case Nil
  then show ?case
    by (simp add: Select_def socket_01_def input_01_def all_ready_def Fgets_def fgets_def Let_def)
next
  case (Cons l ls)
  have l: "plain_line l" and ls: "\<forall>l \<in> set ls. plain_line l" using Cons.prems(1) by auto
  let ?p1 = "p\<lparr>inp := text_of ls\<rparr>"
  have f: "Fgets MAXLINE None p = Inr (Some (l @ nl), ?p1)"
    using fgets_full_line [of l MAXLINE "text_of ls"] l Cons.prems(2)
    by (simp add: Fgets_def plain_line_def)
  have d: "cstr ((l @ nl) @ [nul]) = l @ nl"
    using cstr_append_nul [of "l @ nl" "[]"] l by (simp add: plain_line_def)
  obtain s1 c1 p2 where w: "Writen (l @ nl) c ?p1 = (s1, c1, p2)" by (cases "Writen (l @ nl) c ?p1")
  from w Cons.prems(3) obtain e where w1: "s1 = Returns" "p2 = ?p1\<lparr>errnum := e\<rparr>"
    "sent c1 = sent c @ l @ nl" "rq c1 = rq c" "set (wq c1) \<subseteq> set (wq c)"
    by (auto elim!: Writen_cases)
  have "str_cli_select01 None (replicate (Suc (length ls)) (Inr (1, all_ready\<lparr>sk_r := False\<rparr>)) @ sels)
      (b, c1, []) p2 = (x, (b', c', ws), p')"
    using Cons.prems(4) f d w w1(1)
    by (simp add: Select_def socket_01_def input_01_def all_ready_def Let_def)
  from Cons.IH [OF ls _ _ this] w1 Cons.prems(3) show ?case by (auto simp: text_of_simps)
qed

theorem select01_leaves_replies_witness:
  "\<exists>b' c' ws p'. str_cli_select01 None (replicate 2 (Inr (1, all_ready\<lparr>sk_r := False\<rparr>)))
       (replicate MAXLINE nul, quiet_conn [Seg (''a'' @ nl), Fin] [], []) (idle_rline\<lparr>inp := ''a'' @ nl\<rparr>)
     = (Returns, (b', c', ws), p') \<and> sent c' = ''a'' @ nl \<and> out p' = []"
proof -
  let ?r = "str_cli_select01 None (replicate 2 (Inr (1, all_ready\<lparr>sk_r := False\<rparr>)))
       (replicate MAXLINE nul, quiet_conn [Seg (''a'' @ nl), Fin] [], []) (idle_rline\<lparr>inp := ''a'' @ nl\<rparr>)"
  obtain x t p' where "?r = (x, t, p')" by (cases ?r)
  moreover obtain b' c' ws where "t = (b', c', ws)" by (cases t)
  ultimately have r: "?r = (x, (b', c', ws), p')" by (simp only:)
  have e: "replicate 2 z = replicate (Suc (length [''a''])) z @ []" for z :: "errno + (nat \<times> ready)"
    by (simp add: numeral_2_eq_2)
  have "2 < MAXLINE" by (simp add: MAXLINE_def)
  then have "\<forall>l \<in> set [''a'']. plain_line l" by (simp add: plain_line_def)
  from select01_leaves_replies [OF this _ _ r [unfolded e]]
  have "x = Returns \<and> sent c' = ''a'' @ nl \<and> out p' = []"
    by (simp add: quiet_conn_def idle_rline_def)
  with r show ?thesis by blast
qed

end
