(* ===== verification/Unp_Nonblock.thy ===== *)
theory Unp_Nonblock
  imports Unp_Select_Client
begin

unbundle bit_operations_syntax

text \<open>
  The echo client that never blocks (\<^verbatim>\<open>SampleCode/unpv13e/nonblock/strclinonb.c\<close>): two buffers
  between the standard streams and the connection, filled and emptied as far as each descriptor allows.
\<close>

section \<open>strclinonb.c\<close>

text \<open>
  \<^verbatim>\<open>toiptr\<close>, \<^verbatim>\<open>tooptr\<close>, \<^verbatim>\<open>friptr\<close> and \<^verbatim>\<open>froptr\<close> are offsets into their buffers.
\<close>

record nonb_cli = echo_cli +
  to_buf :: string
  fr_buf :: string
  toi :: nat
  too :: nat
  fri :: nat
  fro :: nat

definition O_NONBLOCK :: int where "O_NONBLOCK = 0x800"

text \<open>The three pairs of calls that make a descriptor nonblocking.\<close>

definition set_nonblock ::
    "(int \<Rightarrow> errno + int) \<Rightarrow> (int \<Rightarrow> int \<Rightarrow> errno + int) \<Rightarrow> int \<Rightarrow> 'p proc_scheme \<Rightarrow> (int, 'p proc_scheme) wrapped"
where
  "set_nonblock getfl setfl fd p =
     (case Fcntl (getfl fd) p of
        Inl r \<Rightarrow> Inl r
      | Inr (val, p1) \<Rightarrow> Fcntl (setfl fd (val OR O_NONBLOCK)) p1)"

text \<open>
  A call that fails with \<^verbatim>\<open>EWOULDBLOCK\<close>, which is \<^verbatim>\<open>EAGAIN\<close>, is tried again in a later turn; a read that
  finds nothing fails so.
\<close>

definition unless_block ::
    "string \<Rightarrow> errno \<Rightarrow> 's \<Rightarrow> 'p proc_scheme \<Rightarrow> ('s, 'p proc_scheme) turn" where
  "unless_block msg e s p =
     (if e \<noteq> EAGAIN then stop_turn s (err_sys msg (p\<lparr>errnum := e\<rparr>)) else (None, s, p\<lparr>errnum := e\<rparr>))"

text \<open>
  The four parts of a turn.  The read and write sets that \<^verbatim>\<open>select\<close> left go along: a successful
  read adds the descriptor on the other side to the write set.
\<close>

type_synonym 'p nonb_turn = "(nonb_cli \<times> ready, 'p) turn"

definition read_stdin :: "errno + unit \<Rightarrow> nonb_cli \<times> ready \<Rightarrow> 'p proc_scheme \<Rightarrow> 'p proc_scheme nonb_turn" where
  "read_stdin sh st p = (case st of (s, w) \<Rightarrow>
     if \<not> in_r w then (None, st, p)
     else (case conn_read (MAXLINE - toi s) (c_in s) of
         (Got d, c) \<Rightarrow>
           (case store (to_buf s) (toi s) d of
              Inl f \<Rightarrow> (Some (Undef f), st, p)
            | Inr b \<Rightarrow>
                (None, (s\<lparr>c_in := c, to_buf := b, toi := toi s + length d\<rparr>, w\<lparr>sk_w := True\<rparr>), p))
       | (Eof, c) \<Rightarrow>
           (let s1 = s\<lparr>c_in := c, stdineof := True\<rparr> in
            if too s = toi s then
              (case Shutdown sh p of
                 Inl r \<Rightarrow> stop_turn (s1, w) r
               | Inr (_, p1) \<Rightarrow> (None, (s1\<lparr>fins := fins s + 1\<rparr>, w), p1))
            else (None, (s1, w), p))
       | (RdFail e, c) \<Rightarrow> unless_block ''read error on stdin'' e (s\<lparr>c_in := c\<rparr>, w) p
       | (RdWait, c) \<Rightarrow> unless_block ''read error on stdin'' EAGAIN (s\<lparr>c_in := c\<rparr>, w) p))"

definition read_socket :: "nonb_cli \<times> ready \<Rightarrow> 'p proc_scheme \<Rightarrow> 'p proc_scheme nonb_turn" where
  "read_socket st p = (case st of (s, w) \<Rightarrow>
     if \<not> sk_r w then (None, st, p)
     else (case conn_read (MAXLINE - fri s) (c_sk s) of
         (Got d, c) \<Rightarrow>
           (case store (fr_buf s) (fri s) d of
              Inl f \<Rightarrow> (Some (Undef f), st, p)
            | Inr b \<Rightarrow>
                (None, (s\<lparr>c_sk := c, fr_buf := b, fri := fri s + length d\<rparr>, w\<lparr>out_w := True\<rparr>), p))
       | (Eof, c) \<Rightarrow>
           (if stdineof s then (Some Returns, (s\<lparr>c_sk := c\<rparr>, w), p)
            else stop_turn (s\<lparr>c_sk := c\<rparr>, w) (err_quit ''str_cli: server terminated prematurely'' p))
       | (RdFail e, c) \<Rightarrow> unless_block ''read error on socket'' e (s\<lparr>c_sk := c\<rparr>, w) p
       | (RdWait, c) \<Rightarrow> unless_block ''read error on socket'' EAGAIN (s\<lparr>c_sk := c\<rparr>, w) p))"

text \<open>The bytes between two offsets of a buffer.\<close>

definition bytes_at :: "string \<Rightarrow> nat \<Rightarrow> nat \<Rightarrow> fault + string" where
  "bytes_at b i j = (if j \<le> length b then Inr (take (j - i) (drop i b)) else Inl Overrun)"

definition write_stdout :: "nonb_cli \<times> ready \<Rightarrow> 'p proc_scheme \<Rightarrow> 'p proc_scheme nonb_turn" where
  "write_stdout st p = (case st of (s, w) \<Rightarrow>
     if \<not> (out_w w \<and> fro s < fri s) then (None, st, p)
     else (case bytes_at (fr_buf s) (fro s) (fri s) of
         Inl f \<Rightarrow> (Some (Undef f), st, p)
       | Inr d \<Rightarrow>
           (case sys_write d (c_out s) of
              (WrFail e, c) \<Rightarrow> unless_block ''write error to stdout'' e (s\<lparr>c_out := c\<rparr>, w) p
            | (Wrote k, c) \<Rightarrow>
                (let s1 = s\<lparr>c_out := c, fro := fro s + k\<rparr> in
                 (None, (if fro s1 = fri s1 then s1\<lparr>fro := 0, fri := 0\<rparr> else s1, w), p)))))"

definition write_socket :: "errno + unit \<Rightarrow> nonb_cli \<times> ready \<Rightarrow> 'p proc_scheme \<Rightarrow> 'p proc_scheme nonb_turn" where
  "write_socket sh st p = (case st of (s, w) \<Rightarrow>
     if \<not> (sk_w w \<and> too s < toi s) then (None, st, p)
     else (case bytes_at (to_buf s) (too s) (toi s) of
         Inl f \<Rightarrow> (Some (Undef f), st, p)
       | Inr d \<Rightarrow>
           (case sys_write d (c_sk s) of
              (WrFail e, c) \<Rightarrow> unless_block ''write error to socket'' e (s\<lparr>c_sk := c\<rparr>, w) p
            | (Wrote k, c) \<Rightarrow>
                (let s1 = s\<lparr>c_sk := c, too := too s + k\<rparr> in
                 if too s1 = toi s1 then
                   (let s2 = s1\<lparr>toi := 0, too := 0\<rparr> in
                    if stdineof s then
                      (case Shutdown sh p of
                         Inl r \<Rightarrow> stop_turn (s2, w) r
                       | Inr (_, p1) \<Rightarrow> (None, (s2\<lparr>fins := fins s + 1\<rparr>, w), p1))
                    else (None, (s2, w), p))
                 else (None, (s1, w), p)))))"

definition nonb_asks :: "nonb_cli \<Rightarrow> ready" where
  "nonb_asks s = \<lparr>in_r = \<not> stdineof s \<and> toi s < MAXLINE, out_w = fro s \<noteq> fri s,
     sk_r = fri s < MAXLINE, sk_w = too s \<noteq> toi s\<rparr>"

definition nonb_turn ::
    "errno + unit \<Rightarrow> errno + (nat \<times> ready) \<Rightarrow> nonb_cli \<Rightarrow> 'p proc_scheme \<Rightarrow> (nonb_cli, 'p proc_scheme) turn" where
  "nonb_turn sh sel s p =
     (case Select sel p of
        Inl r \<Rightarrow> stop_turn s r
      | Inr ((n, rep), p1) \<Rightarrow>
          (case then_turn (then_turn (then_turn (read_stdin sh (s, among (nonb_asks s) rep) p1)
                  read_socket) write_stdout) (write_socket sh) of
             (x, (s1, w), p2) \<Rightarrow> (x, s1, p2)))"

fun nonb_loop ::
    "errno + unit \<Rightarrow> (errno + (nat \<times> ready)) list \<Rightarrow> nonb_cli \<Rightarrow> 'p proc_scheme
     \<Rightarrow> stop \<times> nonb_cli \<times> 'p proc_scheme" where
  "nonb_loop sh [] s p = (Blocks, s, p)"
| "nonb_loop sh (sel # sels) s p =
     (case nonb_turn sh sel s p of
        (None, s1, p1) \<Rightarrow> nonb_loop sh sels s1 p1
      | (Some x, s1, p1) \<Rightarrow> (x, s1, p1))"

text \<open>
  \<open>to0\<close> and \<open>fr0\<close> are the arrays \<^verbatim>\<open>to\<close> and \<^verbatim>\<open>fr\<close> with what happened to be in them.
\<close>

definition nonb_start :: "string \<Rightarrow> string \<Rightarrow> conn \<Rightarrow> conn \<Rightarrow> conn \<Rightarrow> nonb_cli" where
  "nonb_start to0 fr0 cin cout csk = \<lparr>c_in = cin, c_out = cout, c_sk = csk, stdineof = False, fins = 0,
     to_buf = to0, fr_buf = fr0, toi = 0, too = 0, fri = 0, fro = 0\<rparr>"

definition str_cli_nonb ::
    "(int \<Rightarrow> errno + int) \<Rightarrow> (int \<Rightarrow> int \<Rightarrow> errno + int) \<Rightarrow> errno + unit \<Rightarrow> (errno + (nat \<times> ready)) list
     \<Rightarrow> string \<Rightarrow> string \<Rightarrow> conn \<Rightarrow> conn \<Rightarrow> int \<Rightarrow> conn \<Rightarrow> 'p proc_scheme \<Rightarrow> stop \<times> nonb_cli \<times> 'p proc_scheme" where
  "str_cli_nonb getfl setfl sh sels to0 fr0 cin cout sockfd csk p =
     (let s = nonb_start to0 fr0 cin cout csk; nb = set_nonblock getfl setfl in
      proceed s (nb sockfd p) (\<lambda>_ p1.
        proceed s (nb 0 p1) (\<lambda>_ p2.
          proceed s (nb 1 p2) (\<lambda>_ p3. nonb_loop sh sels s p3))))"

section \<open>What the client passes on\<close>

text \<open>A buffer with its bytes between the offsets \<open>i\<close> and \<open>j\<close>; an empty one starts at its front.\<close>

definition buf_ok :: "string \<Rightarrow> nat \<Rightarrow> nat \<Rightarrow> bool" where
  "buf_ok b i j \<longleftrightarrow> length b = MAXLINE \<and> i \<le> j \<and> j \<le> MAXLINE \<and> (i = j \<longrightarrow> j = 0)"

definition pend :: "string \<Rightarrow> nat \<Rightarrow> nat \<Rightarrow> string" where
  "pend b i j = take (j - i) (drop i b)"

definition nonb_ok :: "string \<Rightarrow> string \<Rightarrow> stop option \<Rightarrow> nonb_cli \<Rightarrow> bool" where
  "nonb_ok T F x s \<longleftrightarrow>
     buf_ok (to_buf s) (too s) (toi s) \<and> buf_ok (fr_buf s) (fro s) (fri s)
   \<and> T = sent (c_sk s) @ pend (to_buf s) (too s) (toi s) @ stream (rq (c_in s))
   \<and> F = sent (c_out s) @ pend (fr_buf s) (fro s) (fri s) @ stream (rq (c_sk s))
   \<and> (stdineof s \<longrightarrow> stream (rq (c_in s)) = []) \<and> fins s \<le> 1
   \<and> ((\<forall>n. x \<noteq> Some (Exits n)) \<longrightarrow> fins s = (if stdineof s \<and> too s = toi s then 1 else 0))
   \<and> (x = Some Returns \<longrightarrow> stdineof s \<and> stream (rq (c_sk s)) = [])
   \<and> (\<forall>f. x \<noteq> Some (Undef f))"

lemma conn_read_cases:
  assumes "conn_read n c = (r, c')" and "0 < n"
  shows "stream (rq c) = (case r of Got d \<Rightarrow> d | _ \<Rightarrow> []) @ stream (rq c') \<and> sent c' = sent c
    \<and> (r = Eof \<longrightarrow> stream (rq c') = []) \<and> (\<forall>d. r = Got d \<longrightarrow> d \<noteq> [] \<and> length d \<le> n)"
  using assms sys_read_Got(3,4) [of n "rq c"]
  by (auto simp: conn_read_def dest: sys_read_stream split: prod.splits)

lemma buf_store:
  assumes "buf_ok b i j" and "length d \<le> MAXLINE - j" and "d \<noteq> []"
  obtains b' where "store b j d = Inr b'" "buf_ok b' i (j + length d)"
    "pend b' i (j + length d) = pend b i j @ d" "i \<noteq> j + length d"
proof
  from assms show "store b j d = Inr (splice b j d)" "buf_ok (splice b j d) i (j + length d)"
    by (auto simp: store_Inr_iff buf_ok_def)
  from assms show "pend (splice b j d) i (j + length d) = pend b i j @ d" "i \<noteq> j + length d"
    by (auto simp: pend_def splice_def drop_take buf_ok_def)
qed

lemma bytes_at_ok: "buf_ok b i j \<Longrightarrow> bytes_at b i j = Inr (pend b i j)"
  by (simp add: buf_ok_def bytes_at_def pend_def)

lemma length_pend: "buf_ok b i j \<Longrightarrow> length (pend b i j) = j - i"
  by (auto simp: buf_ok_def pend_def)

lemma pend_empty [simp]: "pend b i i = []"
  by (simp add: pend_def)

lemma pend_written:
  assumes "k \<le> j - i"
  shows "pend b i j = take k (pend b i j) @ pend b (i + k) j"
proof -
  from assms have "j - i = k + (j - (i + k))" by simp
  then have "pend b i j = take k (drop i b) @ take (j - (i + k)) (drop k (drop i b))"
    by (metis pend_def take_add)
  moreover have "take k (pend b i j) = take k (drop i b)" using assms by (simp add: pend_def min_absorb1)
  moreover have "drop k (drop i b) = drop (i + k) b" by (simp add: add.commute)
  ultimately show ?thesis by (simp only: pend_def)
qed

lemma buf_ok_written:
  "buf_ok b i j \<Longrightarrow> i + k < j \<Longrightarrow> buf_ok b (i + k) j" "buf_ok b i j \<Longrightarrow> buf_ok b 0 0"
  by (auto simp: buf_ok_def)

lemma buf_ok_le: "buf_ok b i j \<Longrightarrow> i \<le> j"
  by (simp add: buf_ok_def)

lemma read_stdin_ok:
  assumes "read_stdin sh (s, w) p = (x, (s', w'), p')" and ok: "nonb_ok T F None s"
    and "in_r w \<Longrightarrow> \<not> stdineof s \<and> toi s < MAXLINE"
  shows "nonb_ok T F x s' \<and> fri s' = fri s \<and> sk_r w' = sk_r w"
proof (cases "in_r w")
  case True
  obtain r c where rd: "conn_read (MAXLINE - toi s) (c_in s) = (r, c)"
    by (cases "conn_read (MAXLINE - toi s) (c_in s)")
  from True assms(3) have n: "0 < MAXLINE - toi s" "\<not> stdineof s" by auto
  note cr = conn_read_cases [OF rd n(1)]
  show ?thesis
  proof (cases r)
    case (Got d)
    from ok cr Got obtain b where "store (to_buf s) (toi s) d = Inr b" "buf_ok b (too s) (toi s + length d)"
      "pend b (too s) (toi s + length d) = pend (to_buf s) (too s) (toi s) @ d" "too s \<noteq> toi s + length d"
      by (auto simp: nonb_ok_def elim: buf_store)
    then show ?thesis using True assms(1) ok rd Got cr n(2)
      by (auto simp: read_stdin_def nonb_ok_def)
  next
    case Eof
    then show ?thesis using True assms(1) ok rd cr n(2)
      by (auto simp: read_stdin_def nonb_ok_def Let_def Shutdown_def or_die_def err_sys_def stop_turn_eq
          split: if_splits sum.splits)
  qed (use True assms(1) ok rd cr n(2) in
    \<open>auto simp: read_stdin_def nonb_ok_def unless_block_def err_sys_def stop_turn_eq split: if_splits\<close>)
qed (use assms in \<open>auto simp: read_stdin_def\<close>)

lemma read_socket_ok:
  assumes "read_socket (s, w) p = (x, (s', w'), p')" and ok: "nonb_ok T F None s"
    and "sk_r w \<Longrightarrow> fri s < MAXLINE"
  shows "nonb_ok T F x s'"
proof (cases "sk_r w")
  case True
  obtain r c where rd: "conn_read (MAXLINE - fri s) (c_sk s) = (r, c)"
    by (cases "conn_read (MAXLINE - fri s) (c_sk s)")
  from True assms(3) have n: "0 < MAXLINE - fri s" by auto
  note cr = conn_read_cases [OF rd n]
  show ?thesis
  proof (cases r)
    case (Got d)
    from ok cr Got obtain b where "store (fr_buf s) (fri s) d = Inr b" "buf_ok b (fro s) (fri s + length d)"
      "pend b (fro s) (fri s + length d) = pend (fr_buf s) (fro s) (fri s) @ d"
      by (auto simp: nonb_ok_def elim: buf_store)
    then show ?thesis using True assms(1) ok rd Got cr
      by (auto simp: read_socket_def nonb_ok_def)
  next
    case Eof
    then show ?thesis using True assms(1) ok rd cr
      by (auto simp: read_socket_def nonb_ok_def err_quit_def stop_turn_eq split: if_splits)
  qed (use True assms(1) ok rd cr in
    \<open>auto simp: read_socket_def nonb_ok_def unless_block_def err_sys_def stop_turn_eq split: if_splits\<close>)
qed (use assms in \<open>auto simp: read_socket_def\<close>)

lemma sys_write_cases:
  assumes "sys_write d c = (r, c')"
  shows "rq c' = rq c \<and> (case r of Wrote k \<Rightarrow> k \<le> length d \<and> sent c' = sent c @ take k d | WrFail _ \<Rightarrow> sent c' = sent c)"
  using sys_write_sent [OF assms] sys_write_keeps_rq [OF assms] by (auto split: wr_result.splits)

lemma write_stdout_ok:
  assumes "write_stdout (s, w) p = (x, (s', w'), p')" and ok: "nonb_ok T F None s"
  shows "nonb_ok T F x s'"
proof (cases "out_w w \<and> fro s < fri s")
  case True
  from ok have b: "buf_ok (fr_buf s) (fro s) (fri s)" by (simp add: nonb_ok_def)
  let ?d = "pend (fr_buf s) (fro s) (fri s)"
  obtain r c where w: "sys_write ?d (c_out s) = (r, c)" by (cases "sys_write ?d (c_out s)")
  note cw = sys_write_cases [OF w]
  show ?thesis
  proof (cases r)
    case (Wrote k)
    with cw length_pend [OF b] have k: "k \<le> fri s - fro s" by simp
    show ?thesis using True assms(1) ok w Wrote cw k pend_written [OF k, of "fr_buf s"] b
      by (auto simp: write_stdout_def bytes_at_ok nonb_ok_def Let_def buf_ok_written split: if_splits)
  next
    case (WrFail e)
    then show ?thesis using True assms(1) ok w cw b
      by (auto simp: write_stdout_def bytes_at_ok nonb_ok_def unless_block_def err_sys_def stop_turn_eq
          split: if_splits)
  qed
qed (use assms in \<open>auto simp: write_stdout_def\<close>)

lemma write_socket_ok:
  assumes "write_socket sh (s, w) p = (x, (s', w'), p')" and ok: "nonb_ok T F None s"
  shows "nonb_ok T F x s'"
proof (cases "sk_w w \<and> too s < toi s")
  case True
  from ok have b: "buf_ok (to_buf s) (too s) (toi s)" by (simp add: nonb_ok_def)
  let ?d = "pend (to_buf s) (too s) (toi s)"
  obtain r c where w: "sys_write ?d (c_sk s) = (r, c)" by (cases "sys_write ?d (c_sk s)")
  note cw = sys_write_cases [OF w]
  show ?thesis
  proof (cases r)
    case (Wrote k)
    with cw length_pend [OF b] have k: "k \<le> toi s - too s" by simp
    have T: "T = sent c @ pend (to_buf s) (too s + k) (toi s) @ stream (rq (c_in s))"
      using ok cw Wrote pend_written [OF k, of "to_buf s"]
      by (simp add: nonb_ok_def flip: append_assoc) (metis append_assoc)
    show ?thesis using True assms(1) ok w Wrote cw k T b
      by (auto simp: write_socket_def bytes_at_ok nonb_ok_def Let_def buf_ok_written Shutdown_def or_die_def
          err_sys_def stop_turn_eq split: if_splits sum.splits)
  next
    case (WrFail e)
    then show ?thesis using True assms(1) ok w cw b
      by (auto simp: write_socket_def bytes_at_ok nonb_ok_def unless_block_def err_sys_def stop_turn_eq
          split: if_splits)
  qed
qed (use assms in \<open>auto simp: write_socket_def\<close>)

lemma nonb_turn_ok:
  assumes "nonb_turn sh sel s p = (x, s', p')" and ok: "nonb_ok T F None s"
  shows "nonb_ok T F x s'"
proof (cases "Select sel p")
  case (Inl r)
  then show ?thesis using assms
    by (auto simp: nonb_turn_def stop_turn_eq Select_def or_die_def err_sys_def nonb_ok_def split: sum.splits)
next
  case (Inr a)
  obtain n rep p1 where a: "a = ((n, rep), p1)" by (cases a) auto
  let ?w = "among (nonb_asks s) rep"
  let ?t1 = "read_stdin sh (s, ?w) p1"
  let ?I = "\<lambda>x st. nonb_ok T F x (fst st)"
  obtain x1 st1 p2 where "?t1 = (x1, st1, p2)" by (cases ?t1)
  moreover obtain s1 w1 where "st1 = (s1, w1)" by (cases st1)
  ultimately have t1: "?t1 = (x1, (s1, w1), p2)" by simp
  have 1: "nonb_ok T F x1 s1 \<and> fri s1 = fri s \<and> sk_r w1 = sk_r ?w"
    by (rule read_stdin_ok [OF t1 ok]) (simp add: nonb_asks_def)
  have 2: "?I x2 st" if "then_turn ?t1 read_socket = (x2, st, p')" for x2 st p'
    using that 1 t1 by (cases x1; cases st) (auto simp: nonb_asks_def elim!: read_socket_ok)
  have 3: "?I x2 st" if "then_turn (then_turn ?t1 read_socket) write_stdout = (x2, st, p')" for x2 st p'
    using that by (rule then_turn_inv) (auto dest: 2 elim!: write_stdout_ok)
  have 4: "?I x2 st"
    if "then_turn (then_turn (then_turn ?t1 read_socket) write_stdout) (write_socket sh) = (x2, st, p')" for x2 st p'
    using that by (rule then_turn_inv) (auto dest: 3 elim!: write_socket_ok)
  show ?thesis using assms(1) Inr a by (auto simp: nonb_turn_def dest: 4 split: prod.splits)
qed

lemma nonb_loop_ok:
  "nonb_loop sh sels s p = (x, s', p') \<Longrightarrow> nonb_ok T F None s \<Longrightarrow> nonb_ok T F (Some x) s'"
proof (induction sh sels s p rule: nonb_loop.induct)
  case (2 sh sel sels s p)
  obtain y s1 p1 where t: "nonb_turn sh sel s p = (y, s1, p1)" by (cases "nonb_turn sh sel s p")
  from nonb_turn_ok [OF this 2(3)] 2 t show ?case by (cases y) auto
qed (simp add: nonb_ok_def)

lemma nonb_ok_start:
  "length to0 = MAXLINE \<Longrightarrow> length fr0 = MAXLINE \<Longrightarrow>
   nonb_ok (sent csk @ stream (rq cin)) (sent cout @ stream (rq csk)) None (nonb_start to0 fr0 cin cout csk)"
  by (simp add: nonb_ok_def nonb_start_def buf_ok_def)

lemma set_nonblock_stops: "set_nonblock getfl setfl fd p = Inl (x, p') \<Longrightarrow> x = Exits 1"
  by (auto simp: set_nonblock_def Fcntl_def or_die_def err_sys_def split: sum.splits)

lemma nonb_ok_weaken: "nonb_ok T F None s \<Longrightarrow> nonb_ok T F (Some (Exits n)) s"
  by (simp add: nonb_ok_def)

section \<open>Properties\<close>

text \<open>C25: The nonblocking client keeps every byte, whatever \<^verbatim>\<open>select\<close> answers and however reads and
  writes are cut, refused or fail: what it has sent, what waits in its buffer and what it has not read
  make up its input, and so for the other direction; it never leaves its arrays, never waits for
  nothing, and sends the end of its stream once, when the input has ended and everything of it is out.\<close>

theorem nonblock_keeps_bytes:
  assumes "length to0 = MAXLINE" and "length fr0 = MAXLINE"
    and "str_cli_nonb getfl setfl sh sels to0 fr0 cin cout sockfd csk p = (x, s, p')"
  shows "sent (c_sk s) @ pend (to_buf s) (too s) (toi s) @ stream (rq (c_in s)) = sent csk @ stream (rq cin)
    \<and> sent (c_out s) @ pend (fr_buf s) (fro s) (fri s) @ stream (rq (c_sk s)) = sent cout @ stream (rq csk)
    \<and> (\<forall>f. x \<noteq> Undef f) \<and> (sk_r (nonb_asks s) \<or> out_w (nonb_asks s)) \<and> fins s \<le> 1
    \<and> (x = Returns \<or> x = Blocks \<longrightarrow> fins s = (if stdineof s \<and> too s = toi s then 1 else 0))
    \<and> (x = Returns \<longrightarrow> stream (rq (c_in s)) = [] \<and> stream (rq (c_sk s)) = [])"
proof -
  let ?s = "nonb_start to0 fr0 cin cout csk" and ?T = "sent csk @ stream (rq cin)"
    and ?F = "sent cout @ stream (rq csk)"
  from nonb_ok_start [OF assms(1,2)] have s: "nonb_ok ?T ?F None ?s" .
  from nonb_ok_weaken [OF this] have w: "nonb_ok ?T ?F (Some (Exits 1)) ?s" .
  from assms(3) consider "x = Exits 1" "s = ?s" | p3 where "nonb_loop sh sels ?s p3 = (x, s, p')"
    by (auto simp: str_cli_nonb_def Let_def proceed_def split: sum.splits dest!: set_nonblock_stops)
  then have "nonb_ok ?T ?F (Some x) s" using w nonb_loop_ok [OF _ s] by cases auto
  then show ?thesis by (auto simp: nonb_ok_def nonb_asks_def buf_ok_def MAXLINE_def)
qed

theorem nonblock_keeps_bytes_witness:
  "\<exists>x s p'. str_cli_nonb (\<lambda>_. Inr 2) (\<lambda>_ _. Inr 0) (Inr ()) [Inr (1, all_ready), Inr (2, all_ready)]
        (replicate MAXLINE nul) (replicate MAXLINE nul) (quiet_conn [Seg ''ab'', Fin] [])
        (quiet_conn [] [WrErr EAGAIN]) 3 (quiet_conn [Seg ''cd'', Fin] [WrShort 1]) idle_proc = (x, s, p')
     \<and> sent (c_sk s) @ pend (to_buf s) (too s) (toi s) @ stream (rq (c_in s)) = ''ab''
     \<and> sent (c_out s) @ pend (fr_buf s) (fro s) (fri s) @ stream (rq (c_sk s)) = ''cd''"
proof -
  let ?r = "str_cli_nonb (\<lambda>_. Inr 2) (\<lambda>_ _. Inr 0) (Inr ()) [Inr (1, all_ready), Inr (2, all_ready)]
        (replicate MAXLINE nul) (replicate MAXLINE nul) (quiet_conn [Seg ''ab'', Fin] [])
        (quiet_conn [] [WrErr EAGAIN]) 3 (quiet_conn [Seg ''cd'', Fin] [WrShort 1]) idle_proc"
  obtain x s p' where r: "?r = (x, s, p')" by (cases ?r)
  from nonblock_keeps_bytes [OF _ _ this]
  have "sent (c_sk s) @ pend (to_buf s) (too s) (toi s) @ stream (rq (c_in s)) = ''ab''
     \<and> sent (c_out s) @ pend (fr_buf s) (fro s) (fri s) @ stream (rq (c_sk s)) = ''cd''"
    by (simp add: quiet_conn_def)
  with r show ?thesis by blast
qed

text \<open>The nonblocking client loses output when the server closes while the terminal does not accept
  it: it returns normally although the bytes it has read, any text \<open>d\<close> that does not fill its buffer, were never
  shown.\<close>

theorem nonblock_drops_output:
  assumes "d \<noteq> []" and "length d < MAXLINE" and "length to0 = MAXLINE" and "length fr0 = MAXLINE"
    and "rq cin = [Fin]" and "wq cout = [WrErr EAGAIN]" and "rq csk = [Seg d, Fin]"
    and "getfl = (\<lambda>_. Inr 0)" and "setfl = (\<lambda>_ _. Inr 0)"
  shows "\<exists>s p'. str_cli_nonb getfl setfl (Inr ())
      [Inr (1, all_ready\<lparr>sk_r := False\<rparr>), Inr (1, all_ready), Inr (1, all_ready\<lparr>out_w := False\<rparr>)]
      to0 fr0 cin cout sockfd csk p = (Returns, s, p')
    \<and> sent (c_out s) = sent cout \<and> pend (fr_buf s) (fro s) (fri s) = d \<and> rq (c_sk s) = [Fin]"
proof -
  from assms(1,2) have r: "sys_read MAXLINE [Seg d, Fin] = (Got d, [Fin])" by (intro sys_read_Seg) auto
  from assms(2,4) have st: "store fr0 0 d = Inr (splice fr0 0 d)" by (simp add: store_Inr_iff)
  have b: "bytes_at (splice fr0 0 d) 0 (length d) = Inr d" "pend (splice fr0 0 d) 0 (length d) = d"
    using assms(2,4) by (auto simp: bytes_at_def pend_def take_splice_0)
  have lt: "0 < MAXLINE" by (simp add: MAXLINE_def)
  show ?thesis using assms lt r st b
    by (simp add: str_cli_nonb_def set_nonblock_def Fcntl_def nonb_turn_def Select_def read_stdin_def read_socket_def
        write_stdout_def write_socket_def nonb_start_def nonb_asks_def all_ready_def conn_read_def Shutdown_def
        sys_write_def unless_block_def Let_def)
qed

theorem nonblock_drops_output_witness:
  "\<exists>s p'. str_cli_nonb (\<lambda>_. Inr 0) (\<lambda>_ _. Inr 0) (Inr ())
      [Inr (1, all_ready\<lparr>sk_r := False\<rparr>), Inr (1, all_ready), Inr (1, all_ready\<lparr>out_w := False\<rparr>)]
      (replicate MAXLINE nul) (replicate MAXLINE nul) (quiet_conn [Fin] []) (quiet_conn [] [WrErr EAGAIN]) 3
      (quiet_conn [Seg ''bye'', Fin] []) idle_proc = (Returns, s, p')
    \<and> sent (c_out s) = [] \<and> pend (fr_buf s) (fro s) (fri s) = ''bye''"
proof -
  have "\<exists>s p'. str_cli_nonb (\<lambda>_. Inr 0) (\<lambda>_ _. Inr 0) (Inr ())
      [Inr (1, all_ready\<lparr>sk_r := False\<rparr>), Inr (1, all_ready), Inr (1, all_ready\<lparr>out_w := False\<rparr>)]
      (replicate MAXLINE nul) (replicate MAXLINE nul) (quiet_conn [Fin] []) (quiet_conn [] [WrErr EAGAIN]) 3
      (quiet_conn [Seg ''bye'', Fin] []) idle_proc = (Returns, s, p')
    \<and> sent (c_out s) = sent (quiet_conn [] [WrErr EAGAIN])
    \<and> pend (fr_buf s) (fro s) (fri s) = ''bye'' \<and> rq (c_sk s) = [Fin]"
    by (rule nonblock_drops_output) (simp_all add: quiet_conn_def MAXLINE_def)
  then show ?thesis by (simp only: quiet_conn_def conn.simps) blast
qed

end
