(* ===== verification/Unp_Ring.thy ===== *)
theory Unp_Ring
  imports C_Base
begin

text \<open>
  Arrays used as rings: the queue of the signal-driven server and the one of the thread pool.  The
  interface of a bounded queue is a locale; what the two programs need of it is proved there once.
\<close>

section \<open>A slice of a ring\<close>

text \<open>The index that \<^verbatim>\<open>if (++i >= n) i = 0;\<close> leaves.\<close>

definition bump :: "nat \<Rightarrow> nat \<Rightarrow> nat" where
  "bump n i = (if n \<le> Suc i then 0 else Suc i)"

definition ring_slice :: "'a list \<Rightarrow> nat \<Rightarrow> nat \<Rightarrow> 'a list" where
  "ring_slice b i n = map (\<lambda>k. b ! ((i + k) mod length b)) [0..<n]"

lemma length_ring_slice [simp]: "length (ring_slice b i n) = n"
  by (simp add: ring_slice_def)

lemma ring_slice_0 [simp]: "ring_slice b i 0 = []"
  by (simp add: ring_slice_def)

lemma bump_less: "0 < n \<Longrightarrow> bump n i < n"
  by (simp add: bump_def)

lemma bump_mod: "i < n \<Longrightarrow> bump n i = Suc i mod n"
  by (auto simp: bump_def le_Suc_eq)

lemma bump_shift: "0 < n \<Longrightarrow> bump n ((i + k) mod n) = (i + Suc k) mod n"
  by (simp add: bump_mod mod_Suc_eq)

lemma ring_slice_get:
  assumes "i < length b" and "0 < n"
  shows "ring_slice b i n = b ! i # ring_slice b (bump (length b) i) (n - 1)"
proof -
  obtain m where n: "n = Suc m" using assms(2) by (cases n) auto
  have "[0..<Suc m] = 0 # map Suc [0..<m]" by (simp add: map_Suc_upt upt_conv_Cons)
  moreover have "(Suc i mod length b + k) mod length b = (i + Suc k) mod length b" for k
    by (simp add: mod_add_left_eq)
  ultimately show ?thesis using assms(1) n by (simp add: ring_slice_def bump_mod comp_def)
qed

lemma ring_slice_put:
  assumes "n < length b"
  shows "ring_slice (b[(i + n) mod length b := x]) i (Suc n) = ring_slice b i n @ [x]"
proof -
  have "(i + n) mod length b \<noteq> (i + k) mod length b" if "k < n" for k
  proof
    assume "(i + n) mod length b = (i + k) mod length b"
    then have "length b dvd (i + n) - (i + k)" using that
      by (metis add_le_cancel_left less_imp_le mod_eq_dvd_iff_nat)
    then show False using that assms by (auto dest!: dvd_imp_le)
  qed
  moreover have "b \<noteq> []" using assms by auto
  ultimately show ?thesis using assms by (auto simp: ring_slice_def nth_list_update)
qed

lemma ring_slice_elsewhere:
  "\<forall>k < n. (i + k) mod length b \<noteq> j \<Longrightarrow> ring_slice (b[j := x]) i n = ring_slice b i n"
  by (auto simp: ring_slice_def)

section \<open>Bounded queues\<close>

text \<open>
  What a ring promises: an element put at its end when there is room, as far as an element of the ring
  can hold it (\<open>clip\<close>), and taken from its front in the order in which they were put.
\<close>

locale bounded_queue =
  fixes put :: "'a \<Rightarrow> 's \<Rightarrow> 's"
    and clip :: "'a \<Rightarrow> 'b"
    and front :: "'s \<Rightarrow> 'b"
    and advance :: "'s \<Rightarrow> 's"
    and contents :: "'s \<Rightarrow> 'b list"
    and ok :: "'s \<Rightarrow> bool"
    and room :: nat
  assumes put_contents: "ok s \<Longrightarrow> length (contents s) < room \<Longrightarrow> contents (put x s) = contents s @ [clip x]"
    and put_ok: "ok s \<Longrightarrow> length (contents s) < room \<Longrightarrow> ok (put x s)"
    and get_contents: "ok s \<Longrightarrow> contents s \<noteq> [] \<Longrightarrow> contents s = front s # contents (advance s)"
    and get_ok: "ok s \<Longrightarrow> contents s \<noteq> [] \<Longrightarrow> ok (advance s)"
    and bounded: "ok s \<Longrightarrow> length (contents s) \<le> room"
begin

text \<open>Any number of elements that fit.\<close>

lemma puts:
  "ok s \<Longrightarrow> length (contents s) + length xs \<le> room \<Longrightarrow>
   contents (fold put xs s) = contents s @ map clip xs \<and> ok (fold put xs s)"
proof (induction xs arbitrary: s)
  case (Cons x xs)
  then have "contents (put x s) = contents s @ [clip x]" "ok (put x s)"
    by (auto intro: put_contents put_ok)
  with Cons show ?case by simp
qed simp

text \<open>What went in is what came out and what is still inside, in this order.\<close>

lemma puts_history:
  "ok s \<Longrightarrow> came = gone @ contents s \<Longrightarrow> length (contents s) + length xs \<le> room \<Longrightarrow>
   came @ map clip xs = gone @ contents (fold put xs s)"
  using puts [of s xs] by simp

lemma get_history:
  "ok s \<Longrightarrow> came = gone @ contents s \<Longrightarrow> contents s \<noteq> [] \<Longrightarrow>
   came = (gone @ [front s]) @ contents (advance s)"
  using get_contents [of s] by simp

end

end
