(* ===== verification/Unp_Sigio.thy ===== *)
theory Unp_Sigio
  imports Unp_Ring Unp_Wrap
begin

text \<open>
  The echo server driven by signals (\<^verbatim>\<open>SampleCode/unpv13e/sigio/dgecho01.c\<close>): the handler of \<^verbatim>\<open>SIGIO\<close>
  reads datagrams into a ring that the main loop empties.  The two run on the same variables, so the
  program is a step relation; the handler runs in one step, since nothing but \<^verbatim>\<open>SIGHUP\<close>, whose handler
  only prints, interrupts it.
\<close>

section \<open>The queue\<close>

definition QSIZE :: nat where "QSIZE = 8"
definition MAXDG :: nat where "MAXDG = 4096"

text \<open>
  An element of the queue with its two arrays from \<^verbatim>\<open>malloc\<close>.  A datagram is the address it comes from,
  as the bytes of its \<^verbatim>\<open>sockaddr\<close>, and its data.
\<close>

record DG =
  dg_data :: string
  dg_len :: nat
  dg_sa :: string
  dg_salen :: nat

type_synonym datagram = "string \<times> string"

record sigio = proc +
  dg :: "DG list"
  cntread :: "nat list"
  iget :: nat
  iput :: nat
  nqueue :: nat
  clilen :: nat

text \<open>
  \<^verbatim>\<open>recvfrom\<close> into the element at \<^verbatim>\<open>iput\<close>: at most \<^verbatim>\<open>MAXDG\<close> bytes of the data, and the address.
\<close>

definition recv_into :: "datagram \<Rightarrow> nat \<Rightarrow> DG \<Rightarrow> DG" where
  "recv_into r len g = (case r of (sa, d) \<Rightarrow>
     g\<lparr>dg_data := splice (dg_data g) 0 (take MAXDG d), dg_len := length (take MAXDG d),
       dg_sa := splice (dg_sa g) 0 (take len sa), dg_salen := length sa\<rparr>)"

definition put_dg :: "datagram \<Rightarrow> sigio \<Rightarrow> sigio" where
  "put_dg r s = s\<lparr>dg := (dg s)[iput s := recv_into r (clilen s) (dg s ! iput s)],
     nqueue := nqueue s + 1, iput := bump QSIZE (iput s)\<rparr>"

text \<open>
  The loop of the handler over what \<^verbatim>\<open>recvfrom\<close> answers; when the script ends there is nothing more to
  read, and the call fails with \<^verbatim>\<open>EWOULDBLOCK\<close>.
\<close>

fun sig_io_loop :: "(errno + datagram) list \<Rightarrow> nat \<Rightarrow> sigio \<Rightarrow> stop \<times> nat \<times> sigio" where
  "sig_io_loop rs nread s =
     (if QSIZE \<le> nqueue s then (case err_quit ''receive overflow'' s of (x, s1) \<Rightarrow> (x, nread, s1))
      else (case rs of
          [] \<Rightarrow> (Returns, nread, s\<lparr>errnum := EAGAIN\<rparr>)
        | Inl e # rs' \<Rightarrow>
            if e = EAGAIN then (Returns, nread, s\<lparr>errnum := e\<rparr>)
            else (case err_sys ''recvfrom error'' (s\<lparr>errnum := e\<rparr>) of (x, s1) \<Rightarrow> (x, nread, s1))
        | Inr r # rs' \<Rightarrow> sig_io_loop rs' (nread + 1) (put_dg r s)))"

declare sig_io_loop.simps [simp del]

text \<open>\<^verbatim>\<open>cntread\<close> has \<^verbatim>\<open>QSIZE + 1\<close> elements.\<close>

definition sig_io :: "(errno + datagram) list \<Rightarrow> sigio \<Rightarrow> stop \<times> sigio" where
  "sig_io rs s = (case sig_io_loop rs 0 s of
     (x, nread, s1) \<Rightarrow>
       if x \<noteq> Returns then (x, s1)
       else if length (cntread s1) \<le> nread then (Undef Overrun, s1)
       else (Returns, s1\<lparr>cntread := (cntread s1)[nread := cntread s1 ! nread + 1]\<rparr>))"

fun hup_lines :: "nat \<Rightarrow> nat list \<Rightarrow> string" where
  "hup_lines i [] = []"
| "hup_lines i (c # cs) = ''cntread['' @ show_nat i @ ''] = '' @ show_nat c @ nl @ hup_lines (Suc i) cs"

definition sig_hup :: "sigio \<Rightarrow> sigio" where
  "sig_hup s = printf (hup_lines 0 (take (QSIZE + 1) (cntread s))) s"

section \<open>The main loop and the signals\<close>

text \<open>
  \<^verbatim>\<open>dg_echo\<close> up to the loop; \<open>ds\<close> and \<open>as\<close> are the arrays that \<^verbatim>\<open>malloc\<close> gives.
\<close>

definition dg_init :: "nat \<Rightarrow> string list \<Rightarrow> string list \<Rightarrow> proc \<Rightarrow> sigio" where
  "dg_init clilen_arg ds as p = proc.extend p
     \<lparr>dg = map (\<lambda>i. \<lparr>dg_data = ds ! i, dg_len = 0, dg_sa = as ! i, dg_salen = clilen_arg\<rparr>) [0..<QSIZE],
      cntread = replicate (QSIZE + 1) 0, iget = 0, iput = 0, nqueue = 0, clilen = clilen_arg\<rparr>"

text \<open>
  Where the main loop is: at the test of \<^verbatim>\<open>nqueue\<close>, inside \<^verbatim>\<open>sigsuspend\<close>, before the call that unblocks
  \<^verbatim>\<open>SIGIO\<close>, before \<^verbatim>\<open>Sendto\<close>, before \<^verbatim>\<open>++iget\<close>, before the call that blocks \<^verbatim>\<open>SIGIO\<close>, before \<^verbatim>\<open>nqueue--\<close>.
\<close>

datatype main_at = AtTest | InSuspend | AtUnblock | AtSendto | AtBump | AtBlock | AtDec

fun sigio_open :: "main_at \<Rightarrow> bool" where
  "sigio_open InSuspend = True"
| "sigio_open AtSendto = True"
| "sigio_open AtBump = True"
| "sigio_open AtBlock = True"
| "sigio_open _ = False"

record sigio_world =
  at :: main_at
  vars :: sigio
  replies :: "datagram list"
  came :: "datagram list"
  ended :: "stop option"

text \<open>What \<^verbatim>\<open>Sendto\<close> is given.\<close>

definition dg_out :: "DG \<Rightarrow> datagram" where
  "dg_out g = (take (dg_salen g) (dg_sa g), take (dg_len g) (dg_data g))"

text \<open>
  The steps.  \<open>sigio\<close> is the signal with its handler, which may come whenever it is not blocked; the
  datagrams it finds are any.  A signal that comes during \<^verbatim>\<open>sigsuspend\<close> makes that call return.
\<close>

inductive sigio_step :: "sigio_world \<Rightarrow> sigio_world \<Rightarrow> bool" where
  test_empty: "ended w = None \<Longrightarrow> at w = AtTest \<Longrightarrow> nqueue (vars w) = 0 \<Longrightarrow>
     sigio_step w (w\<lparr>at := InSuspend\<rparr>)"
| test_full: "ended w = None \<Longrightarrow> at w = AtTest \<Longrightarrow> nqueue (vars w) \<noteq> 0 \<Longrightarrow>
     sigio_step w (w\<lparr>at := AtUnblock\<rparr>)"
| unblock: "ended w = None \<Longrightarrow> at w = AtUnblock \<Longrightarrow> sigio_step w (w\<lparr>at := AtSendto\<rparr>)"
| sendto: "ended w = None \<Longrightarrow> at w = AtSendto \<Longrightarrow> d = dg_out (dg (vars w) ! iget (vars w)) \<Longrightarrow>
     Sendto (snd d) k (vars w) = Inr (u, s') \<Longrightarrow>
     sigio_step w (w\<lparr>at := AtBump, vars := s', replies := replies w @ [d]\<rparr>)"
| sendto_fails: "ended w = None \<Longrightarrow> at w = AtSendto \<Longrightarrow> d = dg_out (dg (vars w) ! iget (vars w)) \<Longrightarrow>
     Sendto (snd d) k (vars w) = Inl (x, s') \<Longrightarrow>
     sigio_step w (w\<lparr>vars := s', ended := Some x\<rparr>)"
| bump_iget: "ended w = None \<Longrightarrow> at w = AtBump \<Longrightarrow>
     sigio_step w (w\<lparr>at := AtBlock, vars := (vars w)\<lparr>iget := bump QSIZE (iget (vars w))\<rparr>\<rparr>)"
| block: "ended w = None \<Longrightarrow> at w = AtBlock \<Longrightarrow> sigio_step w (w\<lparr>at := AtDec\<rparr>)"
| dec: "ended w = None \<Longrightarrow> at w = AtDec \<Longrightarrow>
     sigio_step w (w\<lparr>at := AtTest, vars := (vars w)\<lparr>nqueue := nqueue (vars w) - 1\<rparr>\<rparr>)"
| sigio: "ended w = None \<Longrightarrow> sigio_open (at w) \<Longrightarrow> \<forall>(sa, d) \<in> set rs. length sa \<le> clilen (vars w) \<Longrightarrow>
     sig_io (map Inr rs @ es) (vars w) = (x, s') \<Longrightarrow> es = [] \<or> (\<exists>e es'. es = Inl e # es') \<Longrightarrow>
     sigio_step w (w\<lparr>at := (if at w = InSuspend then AtTest else at w), vars := s', came := came w @ rs,
       ended := (if x = Returns then None else Some x)\<rparr>)"
| sighup: "ended w = None \<Longrightarrow>
     sigio_step w (w\<lparr>at := (if at w = InSuspend then AtTest else at w), vars := sig_hup (vars w)\<rparr>)"

section \<open>The ring is a queue\<close>

definition dg_clip :: "nat \<Rightarrow> datagram \<Rightarrow> datagram" where
  "dg_clip len r = (take len (fst r), take MAXDG (snd r))"

definition dg_ok :: "nat \<Rightarrow> DG \<Rightarrow> bool" where
  "dg_ok len g \<longleftrightarrow> length (dg_data g) = MAXDG \<and> length (dg_sa g) = len"

definition ring_ok :: "nat \<Rightarrow> sigio \<Rightarrow> bool" where
  "ring_ok len s \<longleftrightarrow> length (dg s) = QSIZE \<and> length (cntread s) = QSIZE + 1 \<and> clilen s = len
     \<and> iget s < QSIZE \<and> nqueue s \<le> QSIZE \<and> iput s = (iget s + nqueue s) mod QSIZE
     \<and> (\<forall>g \<in> set (dg s). dg_ok len g)"

definition queued :: "sigio \<Rightarrow> datagram list" where
  "queued s = map dg_out (ring_slice (dg s) (iget s) (nqueue s))"

definition front_dg :: "sigio \<Rightarrow> datagram" where
  "front_dg s = dg_out (dg s ! iget s)"

text \<open>What the main loop does to the queue in three steps.\<close>

definition take_dg :: "sigio \<Rightarrow> sigio" where
  "take_dg s = s\<lparr>iget := bump QSIZE (iget s), nqueue := nqueue s - 1\<rparr>"

lemma length_queued [simp]: "length (queued s) = nqueue s"
  by (simp add: queued_def)

lemma queued_ne [simp]: "queued s \<noteq> [] \<longleftrightarrow> nqueue s \<noteq> 0"
  using length_queued [of s] by (cases "queued s") auto

lemma take_splice_clip: "length b = n \<Longrightarrow> take (length t) (splice b 0 (take n t)) = take n t"
  by (cases "length t \<le> n") (auto simp: splice_def)

lemma dg_out_recv: "dg_ok len g \<Longrightarrow> dg_out (recv_into r len g) = dg_clip len r"
  by (cases r)
    (simp add: dg_out_def recv_into_def dg_clip_def dg_ok_def take_splice_clip take_splice_0 del: length_take)

lemma dg_ok_recv: "dg_ok len g \<Longrightarrow> dg_ok len (recv_into r len g)"
  by (cases r) (simp add: dg_ok_def recv_into_def)

interpretation dgq: bounded_queue put_dg "dg_clip len" front_dg take_dg queued "ring_ok len" QSIZE for len
proof
  fix s r
  assume ok: "ring_ok len s" and room: "length (queued s) < QSIZE"
  then have i: "iput s < length (dg s)" "iput s = (iget s + nqueue s) mod length (dg s)"
    by (auto simp: ring_ok_def QSIZE_def)
  from ok i have g: "dg_ok len (dg s ! iput s)" by (simp add: ring_ok_def)
  have "nqueue s < length (dg s)" using ok room by (simp add: ring_ok_def)
  from ring_slice_put [OF this, of "iget s"] i(2) show "queued (put_dg r s) = queued s @ [dg_clip len r]"
    using ok dg_out_recv [OF g] by (simp add: queued_def put_dg_def ring_ok_def)
  have "\<forall>h \<in> set ((dg s)[iput s := recv_into r len (dg s ! iput s)]). dg_ok len h"
    using ok dg_ok_recv [OF g] set_update_subset_insert by (fastforce simp: ring_ok_def)
  then show "ring_ok len (put_dg r s)"
    using ok room i(2) bump_shift [of QSIZE "iget s" "nqueue s"]
    by (auto simp: ring_ok_def put_dg_def QSIZE_def)
next
  fix s
  assume ok: "ring_ok len s" and n: "queued s \<noteq> []"
  from n have n0: "0 < nqueue s" by simp
  with ring_slice_get [of "iget s" "dg s" "nqueue s"] ok
  show "queued s = front_dg s # queued (take_dg s)"
    by (simp add: queued_def front_dg_def take_dg_def ring_ok_def)
  have "(bump QSIZE (iget s) + (nqueue s - 1)) mod QSIZE = (iget s + nqueue s) mod QSIZE"
    using n0 ok by (cases "nqueue s") (simp_all add: bump_mod ring_ok_def mod_add_left_eq)
  then show "ring_ok len (take_dg s)"
    using ok bump_less [of QSIZE] by (auto simp: ring_ok_def take_dg_def QSIZE_def)
qed (simp add: ring_ok_def)

section \<open>The handler\<close>

lemma sig_io_loop_puts:
  "sig_io_loop (map Inr rs @ es) n s = (x, n', s') \<Longrightarrow> es = [] \<or> (\<exists>e es'. es = Inl e # es') \<Longrightarrow>
   x = Returns \<and> nqueue s + length rs < QSIZE \<and> n' = n + length rs \<and> s' = (fold put_dg rs s)\<lparr>errnum := EAGAIN\<rparr>
   \<or> x = Exits 1"
proof (induction rs arbitrary: n s)
  case Nil
  then show ?case
    by (subst (asm) sig_io_loop.simps) (auto simp: err_sys_def err_quit_def split: if_splits)
next
  case (Cons r rs)
  show ?case
  proof (cases "QSIZE \<le> nqueue s")
    case True
    then show ?thesis using Cons.prems by (subst (asm) sig_io_loop.simps) (simp add: err_quit_def)
  next
    case False
    then have "sig_io_loop (map Inr rs @ es) (n + 1) (put_dg r s) = (x, n', s')"
      using Cons.prems by (subst (asm) sig_io_loop.simps) simp
    from Cons.IH [OF this Cons.prems(2)] show ?thesis by (auto simp: put_dg_def)
  qed
qed

lemma sig_io_puts:
  assumes "sig_io (map Inr rs @ es) s = (x, s')" and "es = [] \<or> (\<exists>e es'. es = Inl e # es')"
    and "length (cntread s) = QSIZE + 1"
  shows "x = Returns \<and> nqueue s + length rs < QSIZE \<and> length (cntread s') = QSIZE + 1
      \<and> s' = (fold put_dg rs s)\<lparr>errnum := EAGAIN, cntread := cntread s'\<rparr> \<or> x = Exits 1"
proof -
  obtain y n t where l: "sig_io_loop (map Inr rs @ es) 0 s = (y, n, t)"
    by (cases "sig_io_loop (map Inr rs @ es) 0 s")
  have c: "cntread (fold put_dg rs s) = cntread s"
    by (induction rs arbitrary: s) (simp_all add: put_dg_def)
  from sig_io_loop_puts [OF l assms(2)] show ?thesis using assms(1,3) l c
    by (auto simp: sig_io_def split: if_splits)
qed

text \<open>
  The handler puts into the ring whatever part of the queue the main loop has already dealt with.
\<close>

lemma put_dg_later:
  "0 < nqueue s \<Longrightarrow> put_dg r (s\<lparr>iget := i, nqueue := nqueue s - 1\<rparr>)
     = (put_dg r s)\<lparr>iget := i, nqueue := nqueue (put_dg r s) - 1\<rparr>"
  by (simp add: put_dg_def)

lemma puts_later:
  "0 < nqueue s \<Longrightarrow> fold put_dg rs (s\<lparr>iget := i, nqueue := nqueue s - 1\<rparr>)
     = (fold put_dg rs s)\<lparr>iget := i, nqueue := nqueue (fold put_dg rs s) - 1\<rparr>"
proof (induction rs arbitrary: s)
  case (Cons r rs)
  have "0 < nqueue (put_dg r s)" by (simp add: put_dg_def)
  from Cons.IH [OF this] Cons.prems show ?case by (simp add: put_dg_later del: One_nat_def)
qed simp

lemma puts_frame:
  "iget (fold put_dg rs s) = iget s" "nqueue (fold put_dg rs s) = nqueue s + length rs"
  "clilen (fold put_dg rs s) = clilen s"
  by (induction rs arbitrary: s) (simp_all add: put_dg_def)

section \<open>The invariant\<close>

text \<open>The queue as the main loop sees it, which may have sent its front already.\<close>

definition main_view :: "main_at \<Rightarrow> sigio \<Rightarrow> sigio" where
  "main_view a s = (case a of
       AtBump \<Rightarrow> s\<lparr>iget := bump QSIZE (iget s), nqueue := nqueue s - 1\<rparr>
     | AtBlock \<Rightarrow> s\<lparr>iget := iget s, nqueue := nqueue s - 1\<rparr>
     | AtDec \<Rightarrow> s\<lparr>iget := iget s, nqueue := nqueue s - 1\<rparr>
     | _ \<Rightarrow> s)"

definition sigio_inv :: "nat \<Rightarrow> sigio_world \<Rightarrow> bool" where
  "sigio_inv len w \<longleftrightarrow>
     (case ended w of
        Some x \<Rightarrow> x = Exits 1 \<and> (\<exists>z. map (dg_clip len) (came w) = replies w @ z)
      | None \<Rightarrow>
          ring_ok len (main_view (at w) (vars w)) \<and> nqueue (vars w) < QSIZE
        \<and> map (dg_clip len) (came w) = replies w @ queued (main_view (at w) (vars w))
        \<and> (at w \<in> {AtUnblock, AtSendto, AtBump, AtBlock, AtDec} \<longrightarrow> 0 < nqueue (vars w))
        \<and> (at w = InSuspend \<longrightarrow> nqueue (vars w) = 0))"

lemma ring_ok_cong [simp]:
  "ring_ok len (s\<lparr>errnum := e\<rparr>) = ring_ok len s" "queued (s\<lparr>errnum := e\<rparr>) = queued s"
  "queued (s\<lparr>cntread := cs\<rparr>) = queued s"
  by (simp_all add: ring_ok_def queued_def)

lemma ring_ok_cntread:
  "ring_ok len s \<Longrightarrow> length cs = QSIZE + 1 \<Longrightarrow> ring_ok len (s\<lparr>cntread := cs\<rparr>)"
  by (simp add: ring_ok_def)

lemma main_view_simps [simp]:
  "cntread (main_view a s) = cntread s" "clilen (main_view a s) = clilen s"
  "main_view a (s\<lparr>errnum := e, cntread := cs\<rparr>) = (main_view a s)\<lparr>errnum := e, cntread := cs\<rparr>"
  by (simp_all add: main_view_def split: main_at.split)

lemma main_view_puts:
  assumes "a \<in> {AtBump, AtBlock} \<longrightarrow> 0 < nqueue s" and "sigio_open a"
  shows "main_view a (fold put_dg rs s) = fold put_dg rs (main_view a s)"
  using assms puts_later [of s rs "iget s"] puts_later [of s rs "bump QSIZE (iget s)"]
  by (cases a) (simp_all add: main_view_def puts_frame)

lemma nqueue_main_view: "nqueue (main_view a s) \<le> nqueue s"
  by (simp add: main_view_def split: main_at.split)

lemma sig_hup_vars:
  "ring_ok len (main_view a (sig_hup s)) = ring_ok len (main_view a s)"
  "queued (main_view a (sig_hup s)) = queued (main_view a s)" "nqueue (sig_hup s) = nqueue s"
  by (simp_all add: sig_hup_def printf_def main_view_def ring_ok_def queued_def split: main_at.split)

lemma Sendto_keeps:
  "Sendto d k s = Inr (u, s') \<Longrightarrow> s' = s" "Sendto d k s = Inl (x, s') \<Longrightarrow> x = Exits 1"
  by (auto simp: Sendto_def err_sys_def split: sum.splits if_splits)

lemma sigio_handler_inv:
  assumes inv: "sigio_inv len w" and "ended w = None" and op: "sigio_open (at w)"
    and h: "sig_io (map Inr rs @ es) (vars w) = (x, s')" and es: "es = [] \<or> (\<exists>e es'. es = Inl e # es')"
  shows "sigio_inv len (w\<lparr>at := (if at w = InSuspend then AtTest else at w), vars := s', came := came w @ rs,
       ended := (if x = Returns then None else Some x)\<rparr>)"
proof -
  let ?v = "main_view (at w) (vars w)" and ?a = "if at w = InSuspend then AtTest else at w"
  from inv assms(2) have ok: "ring_ok len ?v" and c: "map (dg_clip len) (came w) = replies w @ queued ?v"
    and n: "at w \<in> {AtUnblock, AtSendto, AtBump, AtBlock, AtDec} \<longrightarrow> 0 < nqueue (vars w)"
    by (auto simp: sigio_inv_def)
  from ok have l: "length (cntread (vars w)) = QSIZE + 1" by (simp add: ring_ok_def)
  consider "x = Returns" "nqueue (vars w) + length rs < QSIZE" "length (cntread s') = QSIZE + 1"
      "s' = (fold put_dg rs (vars w))\<lparr>errnum := EAGAIN, cntread := cntread s'\<rparr>"
    | "x = Exits 1" using sig_io_puts [OF h es l] by blast
  then show ?thesis
  proof cases
    case 1
    have fits: "length (queued ?v) + length rs \<le> QSIZE" using 1(2) nqueue_main_view [of "at w" "vars w"] by simp
    have a: "main_view ?a = main_view (at w)" by (rule ext) (simp add: main_view_def)
    have m: "main_view ?a s' = (fold put_dg rs ?v)\<lparr>errnum := EAGAIN, cntread := cntread s'\<rparr>"
      using main_view_puts [of "at w" "vars w" rs] n op arg_cong [OF 1(4), of "main_view (at w)"]
      unfolding a by simp
    have nq: "nqueue s' = nqueue (vars w) + length rs"
      using arg_cong [OF 1(4), of nqueue] by (simp add: puts_frame)
    show ?thesis
      using dgq.puts [OF ok fits] dgq.puts_history [OF ok c fits] 1 n nq m op
      by (auto simp: sigio_inv_def ring_ok_cntread)
  next
    case 2
    then show ?thesis using c by (auto simp: sigio_inv_def)
  qed
qed

lemma sigio_step_inv: "sigio_step w w' \<Longrightarrow> sigio_inv len w \<Longrightarrow> sigio_inv len w'"
proof (induction rule: sigio_step.induct)
  case (sendto w d k u s')
  then show ?case
    using dgq.get_history [of len "vars w" "map (dg_clip len) (came w)" "replies w"]
      dgq.get_ok [of len "vars w"] Sendto_keeps(1) [of "snd d" k "vars w" u s']
    by (auto simp: sigio_inv_def main_view_def take_dg_def front_dg_def)
next
  case (sendto_fails w d k x s')
  then show ?case using Sendto_keeps(2) [of "snd d" k "vars w" x s']
    by (auto simp: sigio_inv_def main_view_def)
next
  case (sigio w rs es x s')
  then show ?case by (intro sigio_handler_inv) auto
next
  case (sighup w)
  have "main_view (if at w = InSuspend then AtTest else at w) = main_view (at w)"
    by (rule ext) (simp add: main_view_def)
  with sighup show ?case by (auto simp: sigio_inv_def sig_hup_vars)
qed (auto simp: sigio_inv_def main_view_def)

section \<open>Runs\<close>

definition sigio_start :: "nat \<Rightarrow> string list \<Rightarrow> string list \<Rightarrow> proc \<Rightarrow> sigio_world" where
  "sigio_start len ds as p = \<lparr>at = AtTest, vars = dg_init len ds as p, replies = [], came = [], ended = None\<rparr>"

text \<open>The arrays that \<^verbatim>\<open>malloc\<close> gives are of the sizes asked for.\<close>

definition dg_arrays :: "nat \<Rightarrow> string list \<Rightarrow> string list \<Rightarrow> bool" where
  "dg_arrays len ds as \<longleftrightarrow> length ds = QSIZE \<and> length as = QSIZE \<and> (\<forall>d \<in> set ds. length d = MAXDG)
     \<and> (\<forall>a \<in> set as. length a = len)"

lemma sigio_inv_start: "dg_arrays len ds as \<Longrightarrow> sigio_inv len (sigio_start len ds as p)"
  by (auto simp: sigio_inv_def sigio_start_def main_view_def ring_ok_def dg_init_def proc.defs QSIZE_def
      dg_arrays_def dg_ok_def queued_def)

lemma sigio_run_inv:
  "sigio_step\<^sup>*\<^sup>* w w' \<Longrightarrow> sigio_inv len w \<Longrightarrow> sigio_inv len w'"
  by (induction rule: rtranclp_induct) (auto intro: sigio_step_inv)

fun steps_left :: "main_at \<Rightarrow> nat" where
  "steps_left AtTest = 5" | "steps_left AtUnblock = 4" | "steps_left AtSendto = 3" | "steps_left AtBump = 2"
| "steps_left AtBlock = 1" | "steps_left AtDec = 0" | "steps_left InSuspend = 0"

lemma main_loop_moves:
  assumes "sigio_inv len w" and "ended w = None" and "at w \<noteq> InSuspend"
  shows "\<exists>w'. sigio_step w w' \<and> ended w' = None \<and> came w' = came w
    \<and> (at w' = InSuspend \<or> 7 * nqueue (vars w') + steps_left (at w') < 7 * nqueue (vars w) + steps_left (at w))"
proof (cases "at w")
  case AtTest
  then show ?thesis using sigio_step.test_empty [of w] sigio_step.test_full [of w] assms(2)
    by (cases "nqueue (vars w) = 0") (fastforce intro!: exI)+
next
  case AtSendto
  let ?d = "dg_out (dg (vars w) ! iget (vars w))"
  have "Sendto (snd ?d) (Inr (length (snd ?d))) (vars w) = Inr ((), vars w)" by (simp add: Sendto_def)
  from sigio_step.sendto [OF assms(2) AtSendto refl this] AtSendto assms(2) show ?thesis by force
next
  case AtDec
  with assms have "0 < nqueue (vars w)" by (simp add: sigio_inv_def)
  with sigio_step.dec [OF assms(2) AtDec] AtDec assms(2) show ?thesis by force
next
  case AtUnblock
  with sigio_step.unblock [OF assms(2)] assms(2) show ?thesis by force
next
  case AtBump
  with sigio_step.bump_iget [OF assms(2)] assms(2) show ?thesis by force
next
  case AtBlock
  with sigio_step.block [OF assms(2)] assms(2) show ?thesis by force
qed (use assms in simp)

lemma main_loop_drains:
  "sigio_inv len w \<Longrightarrow> ended w = None \<Longrightarrow>
   \<exists>w'. sigio_step\<^sup>*\<^sup>* w w' \<and> ended w' = None \<and> at w' = InSuspend \<and> came w' = came w"
proof (induction "7 * nqueue (vars w) + steps_left (at w)" arbitrary: w rule: less_induct)
  case less
  show ?case
  proof (cases "at w = InSuspend")
    case False
    from main_loop_moves [OF less.prems False] obtain w1 where w1: "sigio_step w w1" "ended w1 = None"
      "came w1 = came w" "at w1 = InSuspend
        \<or> 7 * nqueue (vars w1) + steps_left (at w1) < 7 * nqueue (vars w) + steps_left (at w)" by blast
    have "sigio_inv len w1" using w1(1) less.prems(1) by (rule sigio_step_inv)
    with less.hyps [of w1] w1 show ?thesis by (metis converse_rtranclp_into_rtranclp r_into_rtranclp)
  qed (use less.prems in blast)
qed

section \<open>Properties\<close>

text \<open>C20: The signal-driven server answers in the order of arrival: whenever signals come, the replies are
  the first of the datagrams that have come, each to its sender with its first \<^verbatim>\<open>MAXDG\<close> bytes, none
  twice, none overwritten in the ring before it is sent; the server sleeps only when all are answered,
  and can end only with status 1.\<close>

theorem sigio_answers_in_order:
  assumes "dg_arrays len ds as" and "sigio_step\<^sup>*\<^sup>* (sigio_start len ds as p) w"
  shows "\<exists>z. map (dg_clip len) (came w) = replies w @ z \<and> (at w = InSuspend \<and> ended w = None \<longrightarrow> z = [])
    \<and> (ended w = None \<longrightarrow> length z < QSIZE) \<and> (ended w = None \<or> ended w = Some (Exits 1))"
proof -
  have inv: "sigio_inv len w" by (rule sigio_run_inv [OF assms(2) sigio_inv_start [OF assms(1)]])
  show ?thesis
  proof (cases "ended w")
    case None
    with inv nqueue_main_view [of "at w" "vars w"] show ?thesis
      by (intro exI [of _ "queued (main_view (at w) (vars w))"]) (auto simp: sigio_inv_def main_view_def queued_def)
  next
    case (Some x)
    with inv show ?thesis by (auto simp: sigio_inv_def)
  qed
qed

definition one_arrival :: "datagram \<Rightarrow> sigio_world" where
  "one_arrival r =
     (let w = sigio_start 1 (replicate QSIZE (replicate MAXDG nul)) (replicate QSIZE [nul])
        \<lparr>inp = [], out = [], err = [], daemon_proc = False, slog = [], errnum = EIO\<rparr>
      in w\<lparr>at := AtTest, vars := snd (sig_io [Inr r] (vars w)), came := [r]\<rparr>)"

lemma one_arrival_reached:
  assumes "length (fst r) = 1"
  shows "sigio_step\<^sup>*\<^sup>* (sigio_start 1 (replicate QSIZE (replicate MAXDG nul)) (replicate QSIZE [nul])
     \<lparr>inp = [], out = [], err = [], daemon_proc = False, slog = [], errnum = EIO\<rparr>) (one_arrival r)"
proof -
  let ?w = "sigio_start 1 (replicate QSIZE (replicate MAXDG nul)) (replicate QSIZE [nul])
     \<lparr>inp = [], out = [], err = [], daemon_proc = False, slog = [], errnum = EIO\<rparr>"
  let ?w1 = "?w\<lparr>at := InSuspend\<rparr>"
  have e: "ended ?w = None" "at ?w = AtTest" "nqueue (vars ?w) = 0" "clilen (vars ?w) = 1"
    "nqueue (vars ?w) < QSIZE" "length (cntread (vars ?w)) = 9"
    by (simp_all add: sigio_start_def dg_init_def proc.defs QSIZE_def)
  have 1: "sigio_step ?w ?w1" by (rule sigio_step.test_empty [OF e(1-3)])
  obtain x s' where h: "sig_io [Inr r] (vars ?w) = (x, s')" by (cases "sig_io [Inr r] (vars ?w)")
  have "x = Returns" using h e(3,6)
    by (simp add: sig_io_def sig_io_loop.simps [of "Inr r # []"] sig_io_loop.simps [of "[]"] QSIZE_def put_dg_def
        split: if_splits)
  moreover have "sig_io (map Inr [r] @ []) (vars ?w1) = (x, s')" using h by simp
  ultimately have "sigio_step ?w1 (one_arrival r)"
    using sigio_step.sigio [of ?w1 "[r]" "[]" x s'] e(1,4) assms h
    by (cases r) (simp add: one_arrival_def sigio_start_def)
  with 1 show ?thesis by (meson converse_rtranclp_into_rtranclp r_into_rtranclp)
qed

lemma some_arrays: "dg_arrays 1 (replicate QSIZE (replicate MAXDG nul)) (replicate QSIZE [nul])"
  by (simp add: dg_arrays_def QSIZE_def)

theorem sigio_answers_in_order_witness:
  "\<exists>z. map (dg_clip 1) (came (one_arrival (''a'', ''hi''))) = replies (one_arrival (''a'', ''hi'')) @ z
    \<and> z = [(''a'', ''hi'')]"
proof -
  have "length (fst (''a'', ''hi'')) = 1" by simp
  from sigio_answers_in_order [OF some_arrays one_arrival_reached [OF this]] show ?thesis
    by (auto simp: one_arrival_def Let_def sigio_start_def dg_clip_def MAXDG_def)
qed

text \<open>Whatever has come, the main loop of the signal-driven server, left to itself, gets to the point
  where everything is answered.\<close>

theorem sigio_answers_everything:
  assumes "dg_arrays len ds as" and "sigio_step\<^sup>*\<^sup>* (sigio_start len ds as p) w" and "ended w = None"
  shows "\<exists>w'. sigio_step\<^sup>*\<^sup>* w w' \<and> came w' = came w \<and> replies w' = map (dg_clip len) (came w)"
proof -
  have inv: "sigio_inv len w" by (rule sigio_run_inv [OF assms(2) sigio_inv_start [OF assms(1)]])
  from main_loop_drains [OF this assms(3)] obtain w' where
    w': "sigio_step\<^sup>*\<^sup>* w w'" "ended w' = None" "at w' = InSuspend" "came w' = came w" by blast
  from sigio_run_inv [OF w'(1) inv] w' show ?thesis
    by (intro exI [of _ w']) (auto simp: sigio_inv_def main_view_def queued_def)
qed

theorem sigio_answers_everything_witness:
  "\<exists>w'. sigio_step\<^sup>*\<^sup>* (one_arrival (''a'', ''hi'')) w' \<and> replies w' = [(''a'', ''hi'')]"
proof -
  have l: "length (fst (''a'', ''hi'')) = 1" by simp
  have "ended (one_arrival (''a'', ''hi'')) = None" by (simp add: one_arrival_def Let_def sigio_start_def)
  from sigio_answers_everything [OF some_arrays one_arrival_reached [OF l] this] show ?thesis
    by (auto simp: one_arrival_def Let_def sigio_start_def dg_clip_def MAXDG_def)
qed

text \<open>The handler ends the server as soon as the ring is full, when nothing has been lost yet.\<close>

theorem sig_io_full_ring_ends:
  assumes "nqueue s + length rs = QSIZE"
  shows "fst (sig_io (map Inr rs) s) = Exits 1"
proof -
  obtain x n s' where l: "sig_io_loop (map Inr rs @ []) 0 s = (x, n, s')"
    by (cases "sig_io_loop (map Inr rs @ []) 0 s")
  from sig_io_loop_puts [OF l] assms l show ?thesis by (auto simp: sig_io_def)
qed

end
