(* ===== verification/Unp_Web.thy ===== *)
theory Unp_Web
  imports Unp_Echo
begin

text \<open>
  The service of the server designs (\<^verbatim>\<open>SampleCode/unpv13e/server\<close>): \<^verbatim>\<open>web_child.c\<close>, which answers each
  request line with as many bytes as it asks for, the \<^verbatim>\<open>readline\<close> it is linked with (\<^verbatim>\<open>readline.c\<close>), and
  one connection of the client (\<^verbatim>\<open>client.c\<close>).
\<close>

section \<open>readline.c\<close>

text \<open>One byte with one call of \<^verbatim>\<open>read\<close>, which is not tried again after a signal.\<close>

definition read_one :: "conn \<Rightarrow> 'p proc_scheme \<Rightarrow> my_rc \<times> conn \<times> 'p proc_scheme" where
  "read_one c p =
     (case sys_read 1 (rq c) of
        (Got s, es) \<Rightarrow> (Byte (s ! 0), c\<lparr>rq := es\<rparr>, p)
      | (Eof, es) \<Rightarrow> (AtEof, c\<lparr>rq := es\<rparr>, p)
      | (RdWait, es) \<Rightarrow> (NoByte, c\<lparr>rq := es\<rparr>, p)
      | (RdFail e, es) \<Rightarrow> (Minus1, c\<lparr>rq := es\<rparr>, p\<lparr>errnum := e\<rparr>))"

text \<open>
  The loop, with the counter \<open>left = maxlen - n\<close>; at the end of the stream inside a line it leaves with
  \<open>n\<close>, one more than the characters it has stored.
\<close>

fun srv_line_loop ::
    "('s \<Rightarrow> my_rc \<times> 's) \<Rightarrow> nat \<Rightarrow> string \<Rightarrow> nat \<Rightarrow> 's \<Rightarrow> io \<times> string \<times> 's" where
  "srv_line_loop get 0 buf n st = finish_line buf (n - 1) n st"
| "srv_line_loop get (Suc left) buf n st =
     (case get st of
        (Byte ch, st1) \<Rightarrow>
          (case poke buf (n - 1) ch of
             Inl f \<Rightarrow> (Fault f, buf, st1)
           | Inr b \<Rightarrow>
               if ch = CHR 0x0A then finish_line b n n st1
               else srv_line_loop get left b (Suc n) st1)
      | (AtEof, st1) \<Rightarrow> if n = 1 then (Count 0, buf, st1) else finish_line buf (n - 1) n st1
      | (Minus1, st1) \<Rightarrow> (Failed, buf, st1)
      | (NoByte, st1) \<Rightarrow> (Waits, buf, st1)
      | (MyFault f, st1) \<Rightarrow> (Fault f, buf, st1))"

definition srv_readline ::
    "string \<Rightarrow> nat \<Rightarrow> conn \<Rightarrow> 'p proc_scheme \<Rightarrow> io \<times> string \<times> conn \<times> 'p proc_scheme" where
  "srv_readline vptr maxlen c p = srv_line_loop (\<lambda>(c, p). read_one c p) (maxlen - 1) vptr 1 (c, p)"

definition srv_Readline ::
    "string \<Rightarrow> nat \<Rightarrow> conn \<Rightarrow> 'p proc_scheme \<Rightarrow> (nat \<times> string \<times> conn, 'p proc_scheme) wrapped" where
  "srv_Readline ptr maxlen c p = count_or_die ''readline error'' (srv_readline ptr maxlen c p)"

text \<open>A line makes the script shorter.\<close>

lemma read_one_size:
  "read_one c p = (r, c', p') \<Longrightarrow> ev_size (rq c') \<le> ev_size (rq c) \<and> (\<forall>ch. r = Byte ch \<longrightarrow> ev_size (rq c') < ev_size (rq c))"
  by (auto simp: read_one_def dest: sys_read_size sys_read_size_less split: prod.splits rd_result.splits)

lemma srv_line_loop_size:
  assumes "srv_line_loop (\<lambda>(c, p). read_one c p) left buf n (c, p) = (Count k, b, c', p')"
  shows "ev_size (rq c') \<le> ev_size (rq c) \<and> (n = 1 \<and> 0 < left \<and> 0 < k \<longrightarrow> ev_size (rq c') < ev_size (rq c))"
  using assms
proof (induction left arbitrary: buf n c p)
  case 0
  then show ?case by (auto simp: finish_line_def split: sum.splits)
next
  case (Suc left)
  obtain r c1 p1 where g: "read_one c p = (r, c1, p1)" by (cases "read_one c p")
  note sz = read_one_size [OF g]
  show ?case
  proof (cases r)
    case (Byte ch)
    show ?thesis
    proof (cases "poke buf (n - 1) ch")
      case (Inr b1)
      show ?thesis
      proof (cases "ch = CHR 0x0A")
        case True
        then show ?thesis using Suc.prems g Byte Inr sz by (auto simp: finish_line_def split: sum.splits)
      next
        case False
        then have "srv_line_loop (\<lambda>(c, p). read_one c p) left b1 (Suc n) (c1, p1) = (Count k, b, c', p')"
          using Suc.prems g Byte Inr by simp
        from Suc.IH [OF this] sz Byte show ?thesis by auto
      qed
    qed (use Suc.prems g Byte in simp)
  next
    case AtEof
    then show ?thesis using Suc.prems g sz by (auto simp: finish_line_def split: if_splits sum.splits)
  qed (use Suc.prems g in simp_all)
qed

section \<open>web_child.c\<close>

definition MAXN :: int where "MAXN = 16384"

text \<open>
  \<^verbatim>\<open>atol\<close> gives a \<^verbatim>\<open>long\<close> of 64 bits, outside which it is undefined; the assignment keeps its low 32 bits.
\<close>

definition atol_to_int :: "string \<Rightarrow> fault + int" where
  "atol_to_int s =
     (let v = atoi s in
      if v < - (2 ^ 63) \<or> 2 ^ 63 \<le> v then Inl ConversionRange
      else Inr ((v + 2 ^ 31) mod 2 ^ 32 - 2 ^ 31))"

text \<open>\<open>result\<close> is the array of \<^verbatim>\<open>MAXN\<close> bytes, never initialised; \<^verbatim>\<open>line\<close> is kept between the rounds.\<close>

function web_child :: "string \<Rightarrow> string \<Rightarrow> conn \<Rightarrow> 'p proc_scheme \<Rightarrow> stop \<times> conn \<times> 'p proc_scheme" where
  "web_child result line c p =
     (case srv_Readline line MAXLINE c p of
        Inl (s, p1) \<Rightarrow> (s, c, p1)
      | Inr ((nread, b, c1), p1) \<Rightarrow>
          if nread = 0 then (Returns, c1, p1)
          else (case atol_to_int (cstr b) of
              Inl f \<Rightarrow> (Undef f, c1, p1)
            | Inr ntowrite \<Rightarrow>
                if ntowrite \<le> 0 \<or> MAXN < ntowrite then
                  (case err_quit (''client request for '' @ show_int ntowrite @ '' bytes'') p1 of (s, p2) \<Rightarrow> (s, c1, p2))
                else
                  (case Writen (take (nat ntowrite) result) c1 p1 of
                     (Returns, c2, p2) \<Rightarrow> web_child result b c2 p2
                   | (s, c2, p2) \<Rightarrow> (s, c2, p2))))"
  by pat_completeness auto

lemma srv_Readline_size:
  assumes "srv_Readline line MAXLINE c p = Inr ((k, b, c'), p')" and "k \<noteq> 0"
  shows "ev_size (rq c') < ev_size (rq c)"
  using assms srv_line_loop_size [of "MAXLINE - 1" line 1 c p k b c' p']
  by (auto simp: srv_Readline_def srv_readline_def count_or_die_def MAXLINE_def split: io.splits prod.splits)

termination web_child
  by (relation "measure (\<lambda>(result, line, c, p). ev_size (rq c))")
    (auto dest!: srv_Readline_size elim!: Writen_cases [OF sym])

declare web_child.simps [simp del]

section \<open>client.c\<close>

text \<open>
  The request, and one round of the inner loop of a child on a new connection; \<^verbatim>\<open>nbytes\<close> beyond the
  array \<^verbatim>\<open>reply\<close> are a fault when they arrive.  A negative \<^verbatim>\<open>nbytes\<close> becomes a large \<^verbatim>\<open>size_t\<close>.
\<close>

definition client_request :: "int \<Rightarrow> string" where
  "client_request nbytes = take (MAXLINE - 1) (show_int nbytes @ nl)"

definition client_round :: "string \<Rightarrow> int \<Rightarrow> conn \<Rightarrow> 'p proc_scheme \<Rightarrow> stop \<times> (string \<times> conn) \<times> 'p proc_scheme" where
  "client_round reply nbytes c p =
     (case Write (client_request nbytes) c p of
        (s, c1, p1) \<Rightarrow>
          if s \<noteq> Returns then (s, (reply, c1), p1)
          else (case Readn reply (nat (nbytes mod 2 ^ 64)) c1 p1 of
              Inl (s, p2) \<Rightarrow> (s, (reply, c1), p2)
            | Inr ((n, b, c2), p2) \<Rightarrow>
                if int n \<noteq> nbytes then
                  (case err_quit (''server returned '' @ show_nat n @ '' bytes'') p2 of (s, p3) \<Rightarrow> (s, (b, c2), p3))
                else (Returns, (b, c2), p2)))"

section \<open>Requests as lines\<close>

text \<open>The view of a script in which an interrupted read counts.\<close>

fun raw_items :: "rd_event list \<Rightarrow> item list" where
  "raw_items [] = []"
| "raw_items (Seg s # es) = map B s @ raw_items es"
| "raw_items (RdErr e # es) = E e # raw_items es"
| "raw_items (Fin # es) = [Stop]"

lemma sys_read_raw:
  "sys_read (Suc 0) es = (r, es') \<Longrightarrow> case r of
      Got s \<Rightarrow> \<exists>ch. s = [ch] \<and> raw_items es = B ch # raw_items es'
    | Eof \<Rightarrow> raw_items es = [Stop] \<and> raw_items es' = [Stop]
    | RdWait \<Rightarrow> raw_items es = [] \<and> raw_items es' = []
    | RdFail e \<Rightarrow> raw_items es = E e # raw_items es'"
  by (induction "Suc 0" es rule: sys_read.induct) (auto split: rd_result.splits if_splits)

interpretation single: byte_source "\<lambda>(c, p). read_one c p" "\<lambda>(c, p). raw_items (rq c)" "\<lambda>_. True"
  by unfold_locales (auto simp: read_one_def dest!: sys_read_raw split: prod.splits rd_result.splits)

context byte_source
begin

lemma srv_line_view:
  assumes "srv_line_loop get left buf n s = (r, b, s')" and "ok s"
  shows "srv_line_loop next_item left buf n (view s) = (r, b, view s') \<and> ok s'"
  using assms
proof (induction left arbitrary: buf n s)
  case 0
  then show ?case by (auto simp: finish_line_def split: sum.splits)
next
  case (Suc left)
  obtain x s1 where g: "get s = (x, s1)" by (cases "get s")
  note v = get_view [OF Suc.prems(2) g] and o = get_ok [OF Suc.prems(2) g]
  show ?case using Suc.prems g v o Suc.IH
    by (cases x) (auto simp: finish_line_def split: sum.splits if_splits)
qed

end

lemma srv_line_same:
  "srv_line_loop next_item left buf n (map B (l @ nl) @ is) = line_loop next_item left buf n (map B (l @ nl) @ is)"
  by (induction l arbitrary: left buf n; case_tac left) (auto split: sum.splits)

lemma srv_Readline_line:
  assumes "length b = MAXLINE" and "plain_line l" and "raw_items (rq c) = map B (l @ nl) @ is"
  obtains c' p' where "srv_Readline b MAXLINE c p = Inr ((length l + 1, splice b 0 (l @ nl @ [nul]), c'), p')"
    "raw_items (rq c') = is"
proof -
  obtain r b' c' p' where r: "srv_readline b MAXLINE c p = (r, b', c', p')"
    by (cases "srv_readline b MAXLINE c p")
  from single.srv_line_view [OF r [unfolded srv_readline_def]] assms(3)
  have "line_loop next_item (MAXLINE - 1) b 1 (map B (l @ nl) @ is) = (r, b', raw_items (rq c'))"
    by (simp only: srv_line_same split_conv simp_thms)
  moreover have "line_loop next_item (MAXLINE - 1) b 1 (map B (l @ nl) @ is)
    = (Count (length l + 1), splice b 0 (l @ nl @ [nul]), is)"
    using assms(1,2) by (intro line_found) (auto simp: plain_line_def)
  ultimately show ?thesis using r by (intro that) (auto simp: srv_Readline_def count_or_die_def)
qed

lemma srv_Readline_end:
  assumes "raw_items (rq c) = [Stop]"
  obtains c' p' where "srv_Readline b MAXLINE c p = Inr ((0, b, c'), p')"
proof -
  obtain r b' c' p' where r: "srv_readline b MAXLINE c p = (r, b', c', p')"
    by (cases "srv_readline b MAXLINE c p")
  obtain m where "MAXLINE - 1 = Suc m" by (simp add: MAXLINE_def)
  with single.srv_line_view [OF r [unfolded srv_readline_def]] assms have "r = Count 0 \<and> b' = b" by auto
  with r show ?thesis by (intro that) (simp add: srv_Readline_def count_or_die_def)
qed

lemma srv_Readline_sent:
  assumes "srv_Readline b n c p = Inr ((k, b', c'), p')"
  shows "sent c' = sent c \<and> wq c' = wq c"
proof -
  let ?get = "\<lambda>(c, p). read_one c p" and ?P = "\<lambda>(d, q :: 'a proc_scheme). sent d = sent c \<and> wq d = wq c"
  have *: "?P st'" if "?get st = (r, st')" "?P st" for st r st'
    using that by (auto simp: read_one_def split: prod.splits rd_result.splits)
  have "?P st'" if "srv_line_loop ?get left b i st = (r, b', st')" "?P st" for left b i st r b' st'
    using that
  proof (induction left arbitrary: b i st)
    case 0
    then show ?case by (auto simp: finish_line_def split: sum.splits)
  next
    case (Suc left)
    obtain x s1 where g: "?get st = (x, s1)" by (cases "?get st")
    with * Suc.prems(2) have "?P s1" by blast
    with Suc.prems(1) g Suc.IH show ?case
      by (cases x) (auto simp: finish_line_def split: sum.splits if_splits)
  qed
  from this [of "n - 1" b 1 "(c, p)"] assms show ?thesis
    by (auto simp: srv_Readline_def srv_readline_def count_or_die_def split: io.splits prod.splits)
qed

definition legal_request :: "int \<Rightarrow> bool" where
  "legal_request n \<longleftrightarrow> 0 < n \<and> n \<le> MAXN"

lemma legal_text:
  assumes "legal_request n"
  shows "client_request n = show_int n @ nl" "plain_line (show_int n)"
proof -
  have "int_ok n" using assms by (simp add: legal_request_def MAXN_def int_ok_def INT_MIN_def INT_MAX_def)
  from length_show_int [OF this] show "client_request n = show_int n @ nl"
    by (simp add: client_request_def MAXLINE_def)
  have "CHR 0x0A \<notin> set (show_int n)" using show_int_chars [of "CHR 0x0A" n] by (auto simp: isdigit_def)
  with length_show_int [OF \<open>int_ok n\<close>] show "plain_line (show_int n)"
    by (simp add: plain_line_def MAXLINE_def)
qed

lemma legal_atol:
  assumes "legal_request n" and "length b = MAXLINE"
  shows "atol_to_int (cstr (splice b 0 (show_int n @ nl @ [nul]))) = Inr n"
proof -
  have "cstr (splice b 0 (show_int n @ nl @ [nul])) = show_int n @ nl"
    using cstr_append_nul [of "show_int n @ nl" "drop (length (show_int n) + 2) b"] by (simp add: splice_def)
  moreover have "no_digit_first nl" by (simp add: no_digit_first_def isdigit_def)
  ultimately show ?thesis using assms(1)
    by (simp add: atol_to_int_def atoi_def scan_int_show_int legal_request_def MAXN_def)
qed

definition replies_to :: "string \<Rightarrow> int list \<Rightarrow> string" where
  "replies_to result ns = concat (map (\<lambda>n. take (nat n) result) ns)"

lemma web_child_serves:
  assumes "web_child result b c p = (s, c', p')" and "length b = MAXLINE"
    and "\<forall>e \<in> set (wq c). patient e" and "\<forall>n \<in> set ns. legal_request n"
    and "raw_items (rq c) = map B (concat (map client_request ns)) @ [Stop]"
  shows "s = Returns \<and> sent c' = sent c @ replies_to result ns"
  using assms
proof (induction ns arbitrary: b c p)
  case Nil
  from Nil.prems(5) have "raw_items (rq c) = [Stop]" by simp
  then obtain c1 p1 where "srv_Readline b MAXLINE c p = Inr ((0, b, c1), p1)" by (rule srv_Readline_end)
  moreover from this have "sent c1 = sent c" using srv_Readline_sent by blast
  ultimately show ?case using Nil.prems(1) by (subst (asm) web_child.simps) (auto simp: replies_to_def)
next
  case (Cons n ns)
  have n: "legal_request n" using Cons.prems(4) by simp
  from Cons.prems(5) legal_text(1) [OF n] have
    "raw_items (rq c) = map B (show_int n @ nl) @ map B (concat (map client_request ns)) @ [Stop]" by simp
  from srv_Readline_line [OF Cons.prems(2) legal_text(2) [OF n] this] obtain c1 p1 where
    r: "srv_Readline b MAXLINE c p = Inr ((length (show_int n) + 1, splice b 0 (show_int n @ nl @ [nul]), c1), p1)"
      "raw_items (rq c1) = map B (concat (map client_request ns)) @ [Stop]" by metis
  let ?b = "splice b 0 (show_int n @ nl @ [nul])"
  have lb: "length ?b = MAXLINE" using legal_text(2) [OF n] Cons.prems(2) by (simp add: plain_line_def)
  have fr: "sent c1 = sent c" "wq c1 = wq c" using srv_Readline_sent [OF r(1)] by auto
  obtain s2 c2 p2 where w: "Writen (take (nat n) result) c1 p1 = (s2, c2, p2)"
    by (cases "Writen (take (nat n) result) c1 p1")
  from w fr Cons.prems(3) have w1: "s2 = Returns" "sent c2 = sent c @ take (nat n) result" "rq c2 = rq c1"
    "\<forall>e \<in> set (wq c2). patient e" by (auto elim!: Writen_cases)
  have "web_child result ?b c2 p2 = (s, c', p')"
    using Cons.prems(1) r(1) legal_atol [OF n Cons.prems(2)] n w w1(1)
    by (subst (asm) web_child.simps) (auto simp: legal_request_def)
  from Cons.IH [OF this lb w1(4)] Cons.prems(4) r(2) w1 show ?case by (simp add: replies_to_def)
qed

lemma readn_loop_sent: "readn_loop buf off n c p = (r, b, c', p') \<Longrightarrow> sent c' = sent c"
proof (induction buf off n c p rule: readn_loop.induct)
  case (1 buf off n c p)
  show ?case using 1(3) [unfolded readn_loop.simps [of buf off n c p]] 1(1,2)
    by (auto split: if_splits prod.splits rd_result.splits sum.splits)
qed

section \<open>Properties\<close>

text \<open>C27: The service answers every request: for any sequence of legal request lines, cut in any way, it
  writes for each exactly as many bytes as the line asks for, however its writes are cut, and returns
  at the end of the stream.\<close>

theorem web_child_answers_requests:
  assumes "length line = MAXLINE" and "\<forall>e \<in> set (wq c). patient e" and "\<forall>n \<in> set ns. legal_request n"
    and "raw_items (rq c) = map B (concat (map client_request ns)) @ [Stop]"
  shows "\<exists>c' p'. web_child result line c p = (Returns, c', p') \<and> sent c' = sent c @ replies_to result ns"
proof -
  obtain s c' p' where "web_child result line c p = (s, c', p')" by (cases "web_child result line c p")
  with web_child_serves [OF this assms] show ?thesis by blast
qed

definition request_conn :: "rd_event list \<Rightarrow> wr_event list \<Rightarrow> conn" where
  "request_conn r w = \<lparr>rq = r, wq = w, sent = []\<rparr>"

theorem web_child_answers_requests_witness:
  "\<exists>c' p'. web_child (''abcd'' @ replicate 16380 nul) (replicate MAXLINE nul)
       (request_conn [Seg (''3'' @ nl @ ''1''), Seg nl, Fin] [WrShort 2]) idle_proc = (Returns, c', p')
     \<and> sent c' = ''abca''"
proof -
  let ?c = "request_conn [Seg (''3'' @ nl @ ''1''), Seg nl, Fin] [WrShort 2]"
  have 1: "length (replicate MAXLINE nul) = MAXLINE" by simp
  have 2: "\<forall>e \<in> set (wq ?c). patient e" by (simp add: request_conn_def patient_def)
  have 3: "\<forall>n \<in> set [3, 1]. legal_request n" by (simp add: legal_request_def MAXN_def)
  have "client_request 3 = ''3'' @ nl" "client_request 1 = ''1'' @ nl"
    by (simp_all add: client_request_def show_int_def MAXLINE_def cchar_simps show_nat.simps)
  then have 4: "raw_items (rq ?c) = map B (concat (map client_request [3, 1])) @ [Stop]"
    by (simp add: request_conn_def)
  from web_child_answers_requests [OF 1 2 3 4, of "''abcd'' @ replicate 16380 nul" idle_proc]
  show ?thesis by (simp add: request_conn_def replies_to_def)
qed

text \<open>A client and the service: when the service gets what the client sends and the client what the
  service sends, a round of the client with a legal count ends well, with as many bytes of the service's
  array in the client's as it asked for.\<close>

theorem request_round:
  assumes "legal_request n" and "length reply = nat MAXN" and "length result = nat MAXN" and "length line = MAXLINE"
    and "all_writes cc" and "\<forall>e \<in> set (wq cs). patient e" and "sent cs = []"
    and "raw_items (rq cs) = map B (client_request n) @ [Stop]"
    and "web_child result line cs q = (t, cs', q')" and "items (rq cc) = map B (sent cs') @ is"
    and "client_round reply n cc p = (s, (b, cc'), p')"
  shows "s = Returns \<and> t = Returns \<and> sent cc' = sent cc @ client_request n
    \<and> b = take (nat n) result @ drop (nat n) reply"
proof -
  have "t = Returns \<and> sent cs' = sent cs @ replies_to result [n]"
    using assms(1,8) by (intro web_child_serves [OF assms(9,4,6)]) auto
  with assms(7) have t: "t = Returns" "sent cs' = take (nat n) result" by (simp_all add: replies_to_def)
  obtain w where w: "Write (client_request n) cc p = (Returns, cc\<lparr>wq := w, sent := sent cc @ client_request n\<rparr>, p)"
    using Write_all [OF assms(5)] by blast
  let ?c = "cc\<lparr>wq := w, sent := sent cc @ client_request n\<rparr>"
  have m: "nat (n mod 2 ^ 64) = nat n" "nat n \<le> length reply" "length (take (nat n) result) = nat n"
    using assms(1-3) by (auto simp: legal_request_def MAXN_def)
  obtain r b' c2 p2 where rd: "readn reply (nat n) ?c p = (r, b', c2, p2)" by (cases "readn reply (nat n) ?c p")
  from readn_loop_items [OF rd [unfolded readn_def]] m(2) obtain d where
    d: "b' = splice reply 0 d" "readn_result r 0 (nat n) d (items (rq cc)) (items (rq c2)) (errnum p2)" by auto
  have len: "length (sent cs') = nat n" using t m by simp
  have short: "length d = nat n" if "map B (sent cs') @ is = map B d @ z" "length d \<le> nat n"
      "\<forall>ch. hd z \<noteq> B ch \<or> z = []" for z
    using items_prefix [OF that(1,3)] that(2) len by auto
  have r: "r = Count (nat n) \<and> length d = nat n \<and> (\<exists>z. map B (sent cs') @ is = map B d @ z)"
  proof (cases r)
    case (Count k)
    with d(2) assms(10) have k: "k = length d" "length d \<le> nat n"
      "map B (sent cs') @ is = map B d @ items (rq c2)" "length d < nat n \<longrightarrow> items (rq c2) = [Stop]"
      by (auto simp: readn_result_def)
    then have "length d = nat n" using short [of "items (rq c2)"] by (cases "length d < nat n") auto
    with Count k show ?thesis by blast
  next
    case Failed
    with d(2) assms(10) short [of "E (errnum p2) # items (rq c2)"] show ?thesis by (auto simp: readn_result_def)
  next
    case Waits
    with d(2) assms(10) short [of "[]"] show ?thesis by (auto simp: readn_result_def)
  qed (use d(2) in \<open>simp add: readn_result_def\<close>)
  then have "map B d = map B (sent cs')" using len by (metis append_eq_append_conv length_map)
  then have "d = sent cs'" by (simp add: inj_map_eq_map inj_def)
  moreover have "b' = take (nat n) result @ drop (nat n) reply" using d(1) t \<open>d = sent cs'\<close> len by (simp add: splice_def)
  moreover have "sent c2 = sent cc @ client_request n" using readn_loop_sent [OF rd [unfolded readn_def]] by simp
  ultimately show ?thesis using assms(1,11) w rd m(1) r t
    by (auto simp: client_round_def Readn_def count_or_die_def legal_request_def)
qed

theorem request_round_witness:
  "\<exists>cs' q' b cc' p'. web_child (replicate 16384 CHR ''x'') (replicate MAXLINE nul)
       (request_conn [Seg ''2'', Seg nl, Fin] [WrShort 1]) idle_proc = (Returns, cs', q')
     \<and> client_round (replicate 16384 nul) 2 (request_conn [Seg ''xx''] []) idle_proc = (Returns, (b, cc'), p')
     \<and> take 3 b = [CHR ''x'', CHR ''x'', nul]"
proof -
  let ?res = "replicate 16384 CHR ''x''" and ?line = "replicate MAXLINE nul" and ?reply = "replicate 16384 nul"
  let ?cs = "request_conn [Seg ''2'', Seg nl, Fin] [WrShort 1]" and ?cc = "request_conn [Seg ''xx''] []"
  have n: "legal_request 2" by (simp add: legal_request_def MAXN_def)
  have w: "all_writes ?cc" "\<forall>e \<in> set (wq ?cs). patient e" "sent ?cs = []"
    by (simp_all add: request_conn_def all_writes_def patient_def)
  have "client_request 2 = ''2'' @ nl"
    by (simp add: client_request_def show_int_def MAXLINE_def cchar_simps show_nat.simps)
  then have i: "raw_items (rq ?cs) = map B (client_request 2) @ [Stop]" by (simp add: request_conn_def)
  obtain t cs' q' where f: "web_child ?res ?line ?cs idle_proc = (t, cs', q')"
    by (cases "web_child ?res ?line ?cs idle_proc")
  obtain s st p' where "client_round ?reply 2 ?cc idle_proc = (s, st, p')"
    by (cases "client_round ?reply 2 ?cc idle_proc")
  moreover obtain b cc' where "st = (b, cc')" by (cases st)
  ultimately have g: "client_round ?reply 2 ?cc idle_proc = (s, (b, cc'), p')" by simp
  have e: "sent cs' = ''xx''" using web_child_serves [OF f _ w(2), of "[2]"] n i w(3)
    by (simp add: replies_to_def numeral_2_eq_2)
  then have "items (rq ?cc) = map B (sent cs') @ []" by (simp add: request_conn_def)
  from request_round [OF n _ _ _ w(1,2,3) i f this g]
  have "s = Returns" "t = Returns" "b = take 2 ?res @ drop 2 ?reply" by (simp_all add: MAXN_def)
  then show ?thesis using f g by (auto simp: numeral_2_eq_2 numeral_3_eq_3)
qed

end
