(* ===== verification/Unp_Pool.thy ===== *)
theory Unp_Pool
  imports Unp_Ring Unp_Web "HOL-Library.Multiset"
begin

text \<open>
  The server with a pool of threads (\<^verbatim>\<open>SampleCode/unpv13e/server\<close>: \<^verbatim>\<open>serv08.c\<close>, \<^verbatim>\<open>pthread08.c\<close> and
  \<^verbatim>\<open>pthread08.h\<close>): the main thread accepts and puts the descriptors into a ring, from which the other
  threads take them, under one mutex and one condition variable.  What the program prints is left out,
  and the calls on the mutex and the condition variable, which fail for no thread that uses them in this
  order, do not fail.
\<close>

section \<open>The threads\<close>

definition MAXNCLI :: nat where "MAXNCLI = 32"

text \<open>
  \<^verbatim>\<open>main\<close> in its loop: before \<^verbatim>\<open>Accept\<close>, before the lock, before the store into \<^verbatim>\<open>clifd\<close>, before \<^verbatim>\<open>++iput\<close>,
  at the test for a full ring, before \<^verbatim>\<open>Pthread_cond_signal\<close>, before the unlock.
\<close>

datatype pool_main = PAccept | PLock int | PStore int | PBump | PCheck | PSignal | PUnlock

text \<open>
  \<^verbatim>\<open>thread_main\<close>: before the loop, before the lock, at the test of the \<^verbatim>\<open>while\<close>, waiting in
  \<^verbatim>\<open>Pthread_cond_wait\<close>, woken there but without the lock, before \<^verbatim>\<open>connfd = clifd[iget]\<close>, before \<^verbatim>\<open>++iget\<close>,
  before the unlock, before the count, before \<^verbatim>\<open>web_child\<close>, before \<^verbatim>\<open>Close\<close>.
\<close>

datatype pool_thr = WStart | WLock | WTest | WWait | WWoken | WTake | WBump int | WUnlock int
  | WCount int | WServe int | WClose int

text \<open>\<open>None\<close> is the main thread as the holder of the mutex.\<close>

record pool =
  clifd :: "int list"
  pget :: nat
  pput :: nat
  holder :: "nat option option"
  mainat :: pool_main
  thrs :: "pool_thr list"
  thread_count :: "nat list"
  links :: "int \<Rightarrow> conn option"
  calls :: "(errno + conn) list"
  accepted :: "int list"
  taken :: "int list"
  over :: "stop option"

text \<open>
  The steps.  A descriptor that is accepted is one that is not open.  \<^verbatim>\<open>Pthread_cond_signal\<close> wakes one of
  the threads that wait, if any does; a thread may also wake without it.
\<close>

inductive pool_step :: "pool \<Rightarrow> pool \<Rightarrow> bool" where
  m_accept: "over w = None \<Longrightarrow> mainat w = PAccept \<Longrightarrow> calls w = Inr c # rest \<Longrightarrow> links w fd = None \<Longrightarrow>
     pool_step w (w\<lparr>mainat := PLock fd, links := (links w)(fd \<mapsto> c), calls := rest, accepted := accepted w @ [fd]\<rparr>)"
| m_again: "over w = None \<Longrightarrow> mainat w = PAccept \<Longrightarrow> calls w = Inl e # rest \<Longrightarrow> e \<in> {EPROTO, ECONNABORTED} \<Longrightarrow>
     pool_step w (w\<lparr>calls := rest\<rparr>)"
| m_accept_fails: "over w = None \<Longrightarrow> mainat w = PAccept \<Longrightarrow> calls w = Inl e # rest \<Longrightarrow> e \<notin> {EPROTO, ECONNABORTED} \<Longrightarrow>
     pool_step w (w\<lparr>over := Some (Exits 1)\<rparr>)"
| m_lock: "over w = None \<Longrightarrow> mainat w = PLock fd \<Longrightarrow> holder w = None \<Longrightarrow>
     pool_step w (w\<lparr>mainat := PStore fd, holder := Some None\<rparr>)"
| m_store: "over w = None \<Longrightarrow> mainat w = PStore fd \<Longrightarrow>
     pool_step w (w\<lparr>mainat := PBump, clifd := (clifd w)[pput w := fd]\<rparr>)"
| m_bump: "over w = None \<Longrightarrow> mainat w = PBump \<Longrightarrow>
     pool_step w (w\<lparr>mainat := PCheck, pput := bump MAXNCLI (pput w)\<rparr>)"
| m_full: "over w = None \<Longrightarrow> mainat w = PCheck \<Longrightarrow> pput w = pget w \<Longrightarrow>
     pool_step w (w\<lparr>over := Some (Exits 1)\<rparr>)"
| m_check: "over w = None \<Longrightarrow> mainat w = PCheck \<Longrightarrow> pput w \<noteq> pget w \<Longrightarrow>
     pool_step w (w\<lparr>mainat := PSignal\<rparr>)"
| m_signal: "over w = None \<Longrightarrow> mainat w = PSignal \<Longrightarrow> t < length (thrs w) \<Longrightarrow> thrs w ! t = WWait \<Longrightarrow>
     pool_step w (w\<lparr>mainat := PUnlock, thrs := (thrs w)[t := WWoken]\<rparr>)"
| m_signal_none: "over w = None \<Longrightarrow> mainat w = PSignal \<Longrightarrow> WWait \<notin> set (thrs w) \<Longrightarrow>
     pool_step w (w\<lparr>mainat := PUnlock\<rparr>)"
| m_unlock: "over w = None \<Longrightarrow> mainat w = PUnlock \<Longrightarrow>
     pool_step w (w\<lparr>mainat := PAccept, holder := None\<rparr>)"
| w_start: "over w = None \<Longrightarrow> t < length (thrs w) \<Longrightarrow> thrs w ! t = WStart \<Longrightarrow>
     pool_step w (w\<lparr>thrs := (thrs w)[t := WLock]\<rparr>)"
| w_lock: "over w = None \<Longrightarrow> t < length (thrs w) \<Longrightarrow> thrs w ! t \<in> {WLock, WWoken} \<Longrightarrow> holder w = None \<Longrightarrow>
     pool_step w (w\<lparr>thrs := (thrs w)[t := WTest], holder := Some (Some t)\<rparr>)"
| w_wait: "over w = None \<Longrightarrow> t < length (thrs w) \<Longrightarrow> thrs w ! t = WTest \<Longrightarrow> pget w = pput w \<Longrightarrow>
     pool_step w (w\<lparr>thrs := (thrs w)[t := WWait], holder := None\<rparr>)"
| w_wakes: "over w = None \<Longrightarrow> t < length (thrs w) \<Longrightarrow> thrs w ! t = WWait \<Longrightarrow>
     pool_step w (w\<lparr>thrs := (thrs w)[t := WWoken]\<rparr>)"
| w_go: "over w = None \<Longrightarrow> t < length (thrs w) \<Longrightarrow> thrs w ! t = WTest \<Longrightarrow> pget w \<noteq> pput w \<Longrightarrow>
     pool_step w (w\<lparr>thrs := (thrs w)[t := WTake]\<rparr>)"
| w_take: "over w = None \<Longrightarrow> t < length (thrs w) \<Longrightarrow> thrs w ! t = WTake \<Longrightarrow> fd = clifd w ! pget w \<Longrightarrow>
     pool_step w (w\<lparr>thrs := (thrs w)[t := WBump fd], taken := taken w @ [fd]\<rparr>)"
| w_bump: "over w = None \<Longrightarrow> t < length (thrs w) \<Longrightarrow> thrs w ! t = WBump fd \<Longrightarrow>
     pool_step w (w\<lparr>thrs := (thrs w)[t := WUnlock fd], pget := bump MAXNCLI (pget w)\<rparr>)"
| w_unlock: "over w = None \<Longrightarrow> t < length (thrs w) \<Longrightarrow> thrs w ! t = WUnlock fd \<Longrightarrow>
     pool_step w (w\<lparr>thrs := (thrs w)[t := WCount fd], holder := None\<rparr>)"
| w_count: "over w = None \<Longrightarrow> t < length (thrs w) \<Longrightarrow> thrs w ! t = WCount fd \<Longrightarrow>
     pool_step w (w\<lparr>thrs := (thrs w)[t := WServe fd],
       thread_count := (thread_count w)[t := thread_count w ! t + 1]\<rparr>)"
| w_serve: "over w = None \<Longrightarrow> t < length (thrs w) \<Longrightarrow> thrs w ! t = WServe fd \<Longrightarrow> links w fd = Some c \<Longrightarrow>
     web_child result line c (p :: proc) = (Returns, c', p') \<Longrightarrow>
     pool_step w (w\<lparr>thrs := (thrs w)[t := WClose fd], links := (links w)(fd \<mapsto> c')\<rparr>)"
| w_dies: "over w = None \<Longrightarrow> t < length (thrs w) \<Longrightarrow> thrs w ! t = WServe fd \<Longrightarrow> links w fd = Some c \<Longrightarrow>
     web_child result line c (p :: proc) = (s, c', p') \<Longrightarrow> s \<notin> {Returns, Blocks} \<Longrightarrow>
     pool_step w (w\<lparr>over := Some s\<rparr>)"
| w_close: "over w = None \<Longrightarrow> t < length (thrs w) \<Longrightarrow> thrs w ! t = WClose fd \<Longrightarrow> links w fd = Some c \<Longrightarrow>
     pool_step w (w\<lparr>thrs := (thrs w)[t := WLock], links := (links w)(fd := None)\<rparr>)"
| w_no_fd: "over w = None \<Longrightarrow> t < length (thrs w) \<Longrightarrow> thrs w ! t \<in> {WServe fd, WClose fd} \<Longrightarrow> links w fd = None \<Longrightarrow>
     pool_step w (w\<lparr>over := Some (Exits 1)\<rparr>)"

text \<open>After the creation of the threads; \<open>ring\<close> is the static array \<^verbatim>\<open>clifd\<close>.\<close>

definition pool_start :: "nat \<Rightarrow> (errno + conn) list \<Rightarrow> pool" where
  "pool_start nthreads cs = \<lparr>clifd = replicate MAXNCLI 0, pget = 0, pput = 0, holder = None, mainat = PAccept,
     thrs = replicate nthreads WStart, thread_count = replicate nthreads 0, links = (\<lambda>_. None), calls = cs,
     accepted = [], taken = [], over = None\<rparr>"

section \<open>The ring\<close>

type_synonym fd_ring = "int list \<times> nat \<times> nat"

definition ring_put :: "int \<Rightarrow> fd_ring \<Rightarrow> fd_ring" where
  "ring_put x r = (case r of (b, g, p) \<Rightarrow> (b[p := x], g, bump MAXNCLI p))"

definition ring_front :: "fd_ring \<Rightarrow> int" where
  "ring_front r = (case r of (b, g, p) \<Rightarrow> b ! g)"

definition ring_advance :: "fd_ring \<Rightarrow> fd_ring" where
  "ring_advance r = (case r of (b, g, p) \<Rightarrow> (b, bump MAXNCLI g, p))"

definition ring_fds :: "fd_ring \<Rightarrow> int list" where
  "ring_fds r = (case r of (b, g, p) \<Rightarrow> ring_slice b g (if g \<le> p then p - g else MAXNCLI - g + p))"

definition fd_ring_ok :: "fd_ring \<Rightarrow> bool" where
  "fd_ring_ok r = (case r of (b, g, p) \<Rightarrow> length b = MAXNCLI \<and> g < MAXNCLI \<and> p < MAXNCLI)"

lemma ring_fds_Nil: "fd_ring_ok (b, g, p) \<Longrightarrow> ring_fds (b, g, p) = [] \<longleftrightarrow> g = p"
proof -
  assume "fd_ring_ok (b, g, p)"
  moreover have "ring_slice b g n = [] \<longleftrightarrow> n = 0" for n
    by (metis length_ring_slice list.size(3) ring_slice_0)
  ultimately show ?thesis by (auto simp: ring_fds_def fd_ring_ok_def)
qed

interpretation fdq: bounded_queue ring_put "\<lambda>x. x" ring_front ring_advance ring_fds fd_ring_ok "MAXNCLI - 1"
proof
  fix s :: fd_ring and x
  obtain b g p where s: "s = (b, g, p)" by (cases s)
  assume ok: "fd_ring_ok s" and room: "length (ring_fds s) < MAXNCLI - 1"
  let ?n = "if g \<le> p then p - g else MAXNCLI - g + p"
  from ok s have l: "length b = MAXNCLI" "g < MAXNCLI" "p < MAXNCLI" by (auto simp: fd_ring_ok_def)
  from room s have n: "?n < MAXNCLI - 1" by (simp add: ring_fds_def)
  have "(g + ?n) mod MAXNCLI = p" using l by auto
  moreover have "?n < length b" using n l by simp
  moreover have "(if g \<le> bump MAXNCLI p then bump MAXNCLI p - g else MAXNCLI - g + bump MAXNCLI p) = Suc ?n"
    using n l by (auto simp: bump_def)
  ultimately show "ring_fds (ring_put x s) = ring_fds s @ [x]"
    using ring_slice_put [of ?n b g x] s l by (simp add: ring_fds_def ring_put_def)
  show "fd_ring_ok (ring_put x s)" using l s by (simp add: fd_ring_ok_def ring_put_def bump_less)
next
  fix s :: fd_ring
  obtain b g p where s: "s = (b, g, p)" by (cases s)
  assume ok: "fd_ring_ok s" and ne: "ring_fds s \<noteq> []"
  let ?n = "if g \<le> p then p - g else MAXNCLI - g + p"
  from ok s have l: "length b = MAXNCLI" "g < MAXNCLI" "p < MAXNCLI" by (auto simp: fd_ring_ok_def)
  from ne s ok have "g \<noteq> p" using ring_fds_Nil by blast
  then have n: "0 < ?n" using l by auto
  have "(if bump MAXNCLI g \<le> p then p - bump MAXNCLI g else MAXNCLI - bump MAXNCLI g + p) = ?n - 1"
    using l n \<open>g \<noteq> p\<close> by (auto simp: bump_def)
  with ring_slice_get [of g b ?n] l n s show "ring_fds s = ring_front s # ring_fds (ring_advance s)"
    by (simp add: ring_fds_def ring_front_def ring_advance_def)
  show "fd_ring_ok (ring_advance s)" using l s by (simp add: fd_ring_ok_def ring_advance_def bump_less)
next
  fix s :: fd_ring
  assume "fd_ring_ok s"
  then show "length (ring_fds s) \<le> MAXNCLI - 1"
    by (cases s) (auto simp: fd_ring_ok_def ring_fds_def)
qed

section \<open>The mutex\<close>

definition in_main :: "pool_main \<Rightarrow> bool" where
  "in_main a \<longleftrightarrow> a \<noteq> PAccept \<and> (\<forall>fd. a \<noteq> PLock fd)"

fun in_thr :: "pool_thr \<Rightarrow> bool" where
  "in_thr WTest = True" | "in_thr WTake = True" | "in_thr (WBump fd) = True" | "in_thr (WUnlock fd) = True"
| "in_thr _ = False"

definition inside :: "pool_thr list \<Rightarrow> nat \<Rightarrow> bool" where
  "inside ts t \<longleftrightarrow> t < length ts \<and> in_thr (ts ! t)"

definition mutual :: "nat option option \<Rightarrow> bool \<Rightarrow> (nat \<Rightarrow> bool) \<Rightarrow> bool" where
  "mutual h m f \<longleftrightarrow> (h = Some None \<longleftrightarrow> m) \<and> (\<forall>t. h = Some (Some t) \<longleftrightarrow> f t)"

definition mutex_ok :: "pool \<Rightarrow> bool" where
  "mutex_ok w \<longleftrightarrow> mutual (holder w) (in_main (mainat w)) (inside (thrs w))"

lemma inside_update: "t < length ts \<Longrightarrow> inside (ts[t := x]) = (inside ts)(t := in_thr x)"
  by (auto simp: inside_def nth_list_update fun_eq_iff)

lemma mutual_same: "mutual h m f \<Longrightarrow> f t = b \<Longrightarrow> mutual h m (f(t := b))"
  by (auto simp: mutual_def)

lemma mutual_main:
  "mutual None m f \<Longrightarrow> mutual (Some None) True f" "mutual h True f \<Longrightarrow> mutual None False f"
  by (auto simp: mutual_def)

lemma mutual_thr:
  "mutual None m f \<Longrightarrow> mutual (Some (Some t)) m (f(t := True))"
  "mutual h m f \<Longrightarrow> f t \<Longrightarrow> mutual None m (f(t := False))"
  unfolding mutual_def by (auto, metis option.inject)

lemma inside_at: "t < length ts \<Longrightarrow> inside ts t = in_thr (ts ! t)"
  by (simp add: inside_def)

lemma in_main_simps [simp]:
  "\<not> in_main PAccept" "\<not> in_main (PLock fd)" "in_main (PStore fd)" "in_main PBump" "in_main PCheck"
  "in_main PSignal" "in_main PUnlock"
  by (simp_all add: in_main_def)

lemma mutex_step: "pool_step w w' \<Longrightarrow> mutex_ok w \<Longrightarrow> mutex_ok w'"
proof (induction rule: pool_step.induct)
  case (m_lock w fd)
  then show ?case by (simp add: mutex_ok_def mutual_main)
next
  case (m_unlock w)
  then show ?case by (simp add: mutex_ok_def mutual_main)
next
  case (w_lock w t)
  then show ?case by (simp add: mutex_ok_def inside_update mutual_thr)
next
  case (w_wait w t)
  then show ?case using mutual_thr(2) [of "holder w" _ _ t] by (simp add: mutex_ok_def inside_update inside_at)
next
  case (w_unlock w t fd)
  then show ?case using mutual_thr(2) [of "holder w" _ _ t] by (simp add: mutex_ok_def inside_update inside_at)
qed (simp_all add: mutex_ok_def inside_update inside_at mutual_same del: fun_upd_apply)

section \<open>The queue\<close>

abbreviation pool_ring :: "pool \<Rightarrow> fd_ring" where
  "pool_ring w \<equiv> (clifd w, pget w, pput w)"

text \<open>What the main thread has accepted and not yet put into the ring for the others to see.\<close>

fun in_hand :: "pool_main \<Rightarrow> int list \<Rightarrow> nat \<Rightarrow> int list" where
  "in_hand (PLock fd) b p = [fd]"
| "in_hand (PStore fd) b p = [fd]"
| "in_hand PBump b p = [b ! p]"
| "in_hand _ b p = []"

text \<open>A thread has taken the front of the ring and not yet moved \<^verbatim>\<open>iget\<close>.\<close>

fun is_bump :: "pool_thr \<Rightarrow> bool" where
  "is_bump (WBump fd) = True" | "is_bump _ = False"

definition half_taken :: "nat option option \<Rightarrow> pool_thr list \<Rightarrow> bool" where
  "half_taken h ts \<longleftrightarrow> (\<exists>t. h = Some (Some t) \<and> is_bump (ts ! t))"

definition about_to_take :: "nat option option \<Rightarrow> pool_thr list \<Rightarrow> bool" where
  "about_to_take h ts \<longleftrightarrow> (\<exists>t. h = Some (Some t) \<and> (ts ! t = WTake \<or> is_bump (ts ! t)))"

definition ring_inv :: "fd_ring \<Rightarrow> int list \<Rightarrow> int list \<Rightarrow> bool \<Rightarrow> bool \<Rightarrow> int list \<Rightarrow> bool \<Rightarrow> bool" where
  "ring_inv r acc tak half about hand full \<longleftrightarrow> fd_ring_ok r
     \<and> (\<exists>z. acc = tak @ z \<and> (full \<or> z = (if half then tl (ring_fds r) else ring_fds r) @ hand))
     \<and> (about \<longrightarrow> ring_fds r \<noteq> [])"

definition queue_ok :: "pool \<Rightarrow> bool" where
  "queue_ok w \<longleftrightarrow> ring_inv (pool_ring w) (accepted w) (taken w) (half_taken (holder w) (thrs w))
     (about_to_take (holder w) (thrs w)) (in_hand (mainat w) (clifd w) (pput w)) (mainat w = PCheck \<and> pput w = pget w)"

lemma half_taken_simps [simp]:
  "\<not> half_taken None ts" "\<not> half_taken (Some None) ts" "half_taken (Some (Some t)) ts = is_bump (ts ! t)"
  "\<not> about_to_take None ts" "\<not> about_to_take (Some None) ts"
  "about_to_take (Some (Some t)) ts \<longleftrightarrow> ts ! t = WTake \<or> is_bump (ts ! t)"
  by (simp_all add: half_taken_def about_to_take_def)

lemma half_taken_other:
  "h \<noteq> Some (Some t) \<Longrightarrow> half_taken h (ts[t := x]) = half_taken h ts"
  "h \<noteq> Some (Some t) \<Longrightarrow> about_to_take h (ts[t := x]) = about_to_take h ts"
  by (auto simp: half_taken_def about_to_take_def)

lemma main_holds: "mutex_ok w \<Longrightarrow> in_main (mainat w) \<Longrightarrow> holder w = Some None"
  by (simp add: mutex_ok_def mutual_def)

lemma thr_holds:
  "mutex_ok w \<Longrightarrow> t < length (thrs w) \<Longrightarrow> in_thr (thrs w ! t) \<Longrightarrow> holder w = Some (Some t) \<and> \<not> in_main (mainat w)"
  by (metis inside_at mutex_ok_def mutual_def option.distinct(1) option.inject)

lemma thr_out: "mutex_ok w \<Longrightarrow> \<not> in_thr (thrs w ! t) \<Longrightarrow> holder w \<noteq> Some (Some t)"
  by (auto simp: mutex_ok_def mutual_def inside_def)

lemma ring_full:
  assumes "fd_ring_ok (b, g, p)" and "bump MAXNCLI p \<noteq> g"
  shows "length (ring_fds (b, g, p)) < MAXNCLI - 1"
  using assms by (auto simp: fd_ring_ok_def ring_fds_def bump_def MAXNCLI_def split: if_splits)

lemma ring_inv_put:
  assumes "ring_inv (b, g, p) acc tak False False [x] full" and "b ! p = x" and "\<not> full"
  shows "ring_inv (b, g, bump MAXNCLI p) acc tak False False [] (bump MAXNCLI p = g)"
proof (cases "bump MAXNCLI p = g")
  case True
  with assms show ?thesis by (auto simp: ring_inv_def fd_ring_ok_def bump_less)
next
  case False
  from assms(1) have ok: "fd_ring_ok (b, g, p)" by (simp add: ring_inv_def)
  have "ring_put x (b, g, p) = (b, g, bump MAXNCLI p)" using assms(2) by (auto simp: ring_put_def)
  with fdq.put_contents [OF ok ring_full [OF ok False], of x] fdq.put_ok [OF ok ring_full [OF ok False], of x]
  show ?thesis using assms by (auto simp: ring_inv_def)
qed

lemma ring_fds_elsewhere:
  assumes "fd_ring_ok (b, g, p)"
  shows "ring_fds (b[p := x], g, p) = ring_fds (b, g, p)"
proof -
  let ?n = "if g \<le> p then p - g else MAXNCLI - g + p"
  from assms have l: "g < MAXNCLI" "p < MAXNCLI" by (simp_all add: fd_ring_ok_def)
  have "(g + k) mod MAXNCLI \<noteq> p" if "k < ?n" for k
  proof (cases "g + k < MAXNCLI")
    case True
    with that show ?thesis by (auto split: if_splits)
  next
    case False
    then have "(g + k) mod MAXNCLI = (g + k - MAXNCLI) mod MAXNCLI" by (simp add: le_mod_geq)
    also have "\<dots> = g + k - MAXNCLI" using that l by (intro mod_less) (auto split: if_splits)
    finally show ?thesis using that l False by (auto split: if_splits)
  qed
  with assms show ?thesis
    by (simp only: ring_fds_def split_conv) (intro ring_slice_elsewhere, simp add: fd_ring_ok_def)
qed

lemma ring_inv_store:
  "ring_inv (b, g, p) acc tak False False [x] full \<Longrightarrow>
   ring_inv (b[p := x], g, p) acc tak False False [b[p := x] ! p] full"
  using ring_fds_elsewhere [of b g p x] by (auto simp: ring_inv_def fd_ring_ok_def)

lemma ring_inv_take:
  "ring_inv (b, g, p) acc tak False True hand False \<Longrightarrow>
   ring_inv (b, g, p) acc (tak @ [b ! g]) True True hand False"
  using fdq.get_contents [of "(b, g, p)"] by (auto simp: ring_inv_def ring_front_def)

lemma ring_inv_advance:
  "ring_inv (b, g, p) acc tak True True hand False \<Longrightarrow>
   ring_inv (b, bump MAXNCLI g, p) acc tak False False hand False"
  using fdq.get_contents [of "(b, g, p)"] fdq.get_ok [of "(b, g, p)"]
  by (auto simp: ring_inv_def ring_advance_def)

lemma ring_inv_accept:
  "ring_inv r acc tak half about [] False \<Longrightarrow> ring_inv r (acc @ [x]) tak half about [x] False"
  by (auto simp: ring_inv_def)

lemma ring_inv_not_about: "ring_inv r acc tak half about hand full \<Longrightarrow> ring_inv r acc tak half False hand full"
  by (simp add: ring_inv_def)

lemma queue_step:
  assumes "pool_step w w'" and "mutex_ok w" and "queue_ok w"
  shows "queue_ok w'"
  using assms
proof (induction rule: pool_step.induct)
  case (m_store w fd)
  with main_holds [of w] show ?case by (auto simp: queue_ok_def intro: ring_inv_store)
next
  case (m_bump w)
  with main_holds [of w] show ?case
    by (auto simp: queue_ok_def dest!: ring_inv_put [OF _ refl])
next
  case (w_take w t fd)
  with thr_holds [of w t] show ?case by (auto simp: queue_ok_def in_main_def dest: ring_inv_take)
next
  case (w_bump w t fd)
  with thr_holds [of w t] show ?case by (auto simp: queue_ok_def in_main_def dest: ring_inv_advance)
next
  case (w_lock w t)
  then show ?case by (auto simp: queue_ok_def)
next
  case (w_go w t)
  then have "ring_fds (pool_ring w) \<noteq> []" by (auto simp: queue_ok_def ring_inv_def ring_fds_Nil)
  with w_go thr_holds [of w t] show ?case by (auto simp: queue_ok_def ring_inv_def)
next
  case (m_accept w c rest fd)
  then show ?case by (simp add: queue_ok_def ring_inv_accept)
next
  case (m_signal w t)
  with thr_out [of w t] show ?case by (simp add: queue_ok_def half_taken_other)
next
  case (w_wait w t)
  with thr_holds [of w t] show ?case by (simp add: queue_ok_def)
next
  case (w_unlock w t fd)
  with thr_holds [of w t] show ?case by (simp add: queue_ok_def)
next
  case (w_start w t)
  with thr_out [of w t] show ?case by (simp add: queue_ok_def half_taken_other)
next
  case (w_wakes w t)
  with thr_out [of w t] show ?case by (simp add: queue_ok_def half_taken_other)
next
  case (w_count w t fd)
  with thr_out [of w t] show ?case by (simp add: queue_ok_def half_taken_other)
next
  case (w_serve w t fd c result line p c' p')
  with thr_out [of w t] show ?case by (simp add: queue_ok_def half_taken_other)
next
  case (w_close w t fd c)
  with thr_out [of w t] show ?case by (simp add: queue_ok_def half_taken_other)
next
  case (m_unlock w)
  with main_holds [of w] show ?case by (simp add: queue_ok_def)
qed (simp_all add: queue_ok_def)

section \<open>The descriptors\<close>

fun held :: "pool_thr \<Rightarrow> int multiset" where
  "held (WBump fd) = {#fd#}" | "held (WUnlock fd) = {#fd#}" | "held (WCount fd) = {#fd#}"
| "held (WServe fd) = {#fd#}" | "held (WClose fd) = {#fd#}" | "held _ = {#}"

definition held_by :: "pool_thr list \<Rightarrow> int multiset" where
  "held_by ts = sum_list (map held ts)"

definition waiting :: "pool \<Rightarrow> int list" where
  "waiting w = drop (length (taken w)) (accepted w)"

text \<open>Every open descriptor waits once or is in the hands of one thread.\<close>

definition fds_ok :: "pool \<Rightarrow> bool" where
  "fds_ok w \<longleftrightarrow> (\<forall>fd. count (mset (waiting w) + held_by (thrs w)) fd = (if links w fd = None then 0 else 1))"

lemma held_by_update:
  "t < length ts \<Longrightarrow> held_by (ts[t := x]) + held (ts ! t) = held_by ts + held x"
proof (induction ts arbitrary: t)
  case (Cons y ts)
  then show ?case by (cases t) (auto simp: held_by_def ac_simps)
qed simp

lemma held_by_same: "t < length ts \<Longrightarrow> held x = held (ts ! t) \<Longrightarrow> held_by (ts[t := x]) = held_by ts"
  using held_by_update [of t ts x] by simp

lemma held_by_count:
  "t < length ts \<Longrightarrow> count (held_by (ts[t := x])) fd + count (held (ts ! t)) fd = count (held_by ts) fd + count (held x) fd"
  by (metis count_union held_by_update)

lemma queue_front:
  assumes "mutex_ok w" and "queue_ok w" and "t < length (thrs w)" and "thrs w ! t = WTake"
  shows "waiting w = clifd w ! pget w # tl (waiting w)" "accepted w = taken w @ waiting w"
proof -
  from thr_holds [OF assms(1,3)] assms(4) have h: "holder w = Some (Some t)" "\<not> in_main (mainat w)" by auto
  then have "mainat w \<noteq> PCheck" by auto
  with h assms(2,4) have "ring_inv (pool_ring w) (accepted w) (taken w) False True (in_hand (mainat w) (clifd w) (pput w)) False"
    by (auto simp: queue_ok_def)
  with fdq.get_contents [of "pool_ring w"]
  show "waiting w = clifd w ! pget w # tl (waiting w)" "accepted w = taken w @ waiting w"
    by (auto simp: ring_inv_def waiting_def ring_front_def)
qed

lemma fds_step:
  assumes "pool_step w w'" and "mutex_ok w" and "queue_ok w" and "fds_ok w"
  shows "fds_ok w'"
  using assms
proof (induction rule: pool_step.induct)
  case (m_accept w c rest fd)
  from m_accept.prems(2) obtain z where "accepted w = taken w @ z" by (auto simp: queue_ok_def ring_inv_def)
  with m_accept show ?case by (auto simp: fds_ok_def waiting_def)
next
  case (w_take w t fd)
  from queue_front [OF w_take.prems(1,2) w_take.hyps(2,3)] obtain z where
    z: "accepted w = taken w @ fd # z" "waiting w = fd # z" using w_take.hyps(4) by auto
  have "waiting (w\<lparr>thrs := (thrs w)[t := WBump fd], taken := taken w @ [fd]\<rparr>) = z"
    using z by (simp add: waiting_def)
  moreover have "held_by ((thrs w)[t := WBump fd]) = add_mset fd (held_by (thrs w))"
    using held_by_update [OF w_take.hyps(2), of "WBump fd"] w_take.hyps(3) by simp
  ultimately show ?case using w_take.prems(3) z by (simp add: fds_ok_def)
next
  case (w_close w t fd c)
  have "held_by (thrs w) = add_mset fd (held_by ((thrs w)[t := WLock]))"
    using held_by_update [OF w_close.hyps(2), of WLock] w_close.hyps(3) by simp
  then have c: "count (held_by (thrs w)) x = count (held_by ((thrs w)[t := WLock])) x + (if x = fd then 1 else 0)" for x
    by simp
  show ?case unfolding fds_ok_def
  proof
    fix x
    from w_close.prems(3) have "count (mset (waiting w)) x + count (held_by (thrs w)) x = (if links w x = None then 0 else 1)"
      by (simp add: fds_ok_def)
    with c [of x] w_close.hyps(4) show "count (mset (waiting (w\<lparr>thrs := (thrs w)[t := WLock], links := (links w)(fd := None)\<rparr>))
        + held_by (thrs (w\<lparr>thrs := (thrs w)[t := WLock], links := (links w)(fd := None)\<rparr>))) x
      = (if links (w\<lparr>thrs := (thrs w)[t := WLock], links := (links w)(fd := None)\<rparr>) x = None then 0 else 1)"
      by (cases "x = fd") (simp_all add: waiting_def)
  qed
next
  case (w_serve w t fd c result line p c' p')
  then show ?case by (auto simp: fds_ok_def waiting_def held_by_same)
next
  case (w_lock w t)
  then have "held WTest = held (thrs w ! t)" by auto
  with w_lock held_by_same [OF w_lock.hyps(2) this] show ?case by (simp add: fds_ok_def waiting_def)
qed (simp_all add: fds_ok_def waiting_def held_by_same)

section \<open>No signal is lost\<close>

text \<open>On the way to the ring.\<close>

fun heading :: "pool_thr \<Rightarrow> bool" where
  "heading WWoken = True" | "heading WTest = True" | "heading WTake = True" | "heading (WBump fd) = True"
| "heading _ = False"

definition signal_due :: "pool_main \<Rightarrow> nat" where
  "signal_due a = (if a = PCheck \<or> a = PSignal then 1 else 0)"

definition wakeups_ok :: "pool \<Rightarrow> bool" where
  "wakeups_ok w \<longleftrightarrow> (WWait \<in> set (thrs w) \<longrightarrow>
     length (ring_fds (pool_ring w)) \<le> length (filter heading (thrs w)) + signal_due (mainat w))"

lemma heading_update:
  "t < length ts \<Longrightarrow> length (filter heading (ts[t := x])) + (if heading (ts ! t) then 1 else 0)
     = length (filter heading ts) + (if heading x then 1 else 0)"
proof (induction ts arbitrary: t)
  case (Cons y ts)
  then show ?case by (cases t) auto
qed simp

lemma wait_update: "x \<noteq> WWait \<Longrightarrow> WWait \<in> set (ts[t := x]) \<Longrightarrow> WWait \<in> set ts"
  using set_update_subset_insert [of ts t x] by auto

lemma wakeups_thr:
  assumes "wakeups_ok w" and "t < length (thrs w)" and "x \<noteq> WWait" and "heading (thrs w ! t) \<Longrightarrow> heading x"
  shows "wakeups_ok (w\<lparr>thrs := (thrs w)[t := x]\<rparr>)"
  using assms heading_update [OF assms(2), of x] wait_update [OF assms(3), of "thrs w" t]
  by (fastforce simp: wakeups_ok_def split: if_splits)

lemma wakeups_cong:
  "thrs w' = thrs w \<Longrightarrow> pool_ring w' = pool_ring w \<Longrightarrow> mainat w' = mainat w \<Longrightarrow> wakeups_ok w' = wakeups_ok w"
  by (simp add: wakeups_ok_def)

lemma wakeups_step:
  assumes "pool_step w w'" and "mutex_ok w" and "queue_ok w" and "wakeups_ok w"
  shows "wakeups_ok w'"
  using assms
proof (induction rule: pool_step.induct)
  case (m_store w fd)
  then have "fd_ring_ok (pool_ring w)" by (simp add: queue_ok_def ring_inv_def)
  from ring_fds_elsewhere [OF this, of fd] m_store show ?case by (simp add: wakeups_ok_def signal_due_def)
next
  case (m_bump w)
  then have ok: "fd_ring_ok (pool_ring w)" by (simp add: queue_ok_def ring_inv_def)
  have "length (ring_fds (clifd w, pget w, bump MAXNCLI (pput w))) \<le> length (ring_fds (pool_ring w)) + 1"
  proof (cases "bump MAXNCLI (pput w) = pget w")
    case True
    then show ?thesis by (simp add: ring_fds_def)
  next
    case False
    from fdq.put_contents [OF ok ring_full [OF ok False], of "clifd w ! pput w"] show ?thesis
      by (simp add: ring_put_def)
  qed
  with m_bump show ?case by (auto simp: wakeups_ok_def signal_due_def)
next
  case (m_signal w t)
  from heading_update [OF m_signal.hyps(3), of WWoken] m_signal wait_update [of WWoken "thrs w" t]
  show ?case by (auto simp: wakeups_ok_def signal_due_def)
next
  case (m_signal_none w)
  then show ?case by (simp add: wakeups_ok_def)
next
  case (w_wait w t)
  then show ?case by (simp add: wakeups_ok_def ring_fds_def)
next
  case (w_bump w t fd)
  then have ok: "fd_ring_ok (pool_ring w)" by (simp add: queue_ok_def ring_inv_def)
  from w_bump thr_holds [of w t] have "ring_fds (pool_ring w) \<noteq> []" by (auto simp: queue_ok_def ring_inv_def)
  from fdq.get_contents [OF ok this] have
    "length (ring_fds (pool_ring w)) = Suc (length (ring_fds (clifd w, bump MAXNCLI (pget w), pput w)))"
    by (simp add: ring_advance_def)
  with w_bump heading_update [OF w_bump.hyps(2), of "WUnlock fd"] wait_update [of "WUnlock fd" "thrs w" t]
  show ?case by (auto simp: wakeups_ok_def)
next
  case (w_lock w t)
  then show ?case using wakeups_thr [of w t WTest] by (auto simp: wakeups_ok_def)
next
  case (w_unlock w t fd)
  then show ?case using wakeups_thr [of w t "WCount fd"] by (auto simp: wakeups_ok_def)
next
  case (w_count w t fd)
  then show ?case using wakeups_thr [of w t "WServe fd"] by (auto simp: wakeups_ok_def)
next
  case (w_serve w t fd c result line p c' p')
  then show ?case using wakeups_thr [of w t "WClose fd"] by (auto simp: wakeups_ok_def)
next
  case (w_close w t fd c)
  then show ?case using wakeups_thr [of w t WLock] by (auto simp: wakeups_ok_def)
next
  case (w_take w t fd)
  then show ?case using wakeups_thr [of w t "WBump fd"] by (auto simp: wakeups_ok_def)
next
  case (w_start w t)
  then show ?case by (intro wakeups_thr) auto
next
  case (w_wakes w t)
  then show ?case by (intro wakeups_thr) auto
next
  case (w_go w t)
  then show ?case by (intro wakeups_thr) auto
qed (simp_all add: wakeups_ok_def signal_due_def)

section \<open>Runs\<close>

definition pool_inv :: "pool \<Rightarrow> bool" where
  "pool_inv w \<longleftrightarrow> mutex_ok w \<and> queue_ok w \<and> fds_ok w \<and> wakeups_ok w"

lemma pool_inv_start: "pool_inv (pool_start n cs)"
proof -
  have "held_by (replicate n WStart) = {#}" by (induction n) (simp_all add: held_by_def)
  moreover have "inside (replicate n WStart) t = False" for t by (auto simp: inside_def)
  ultimately show ?thesis
    by (simp add: pool_inv_def pool_start_def mutex_ok_def mutual_def queue_ok_def ring_inv_def fd_ring_ok_def
        ring_fds_def fds_ok_def waiting_def wakeups_ok_def MAXNCLI_def)
qed

lemma pool_run_inv: "pool_step\<^sup>*\<^sup>* (pool_start n cs) w \<Longrightarrow> pool_inv w"
proof (induction rule: rtranclp_induct)
  case base
  show ?case by (rule pool_inv_start)
next
  case (step w w')
  then show ?case by (auto simp: pool_inv_def intro: mutex_step queue_step fds_step wakeups_step)
qed

lemma held_twice:
  assumes "t < length ts" and "u < length ts" and "t \<noteq> u"
  shows "count (held (ts ! t)) fd + count (held (ts ! u)) fd \<le> count (held_by ts) fd"
  using held_by_count [OF assms(1), of WLock fd] held_by_count [of u "ts[t := WLock]" WLock fd] assms by simp

section \<open>Properties\<close>

text \<open>C9: The pool of threads serves each connection once: whatever the schedule, the connections are taken
  from the ring in the order in which they were accepted, and at every moment each open one waits in the
  ring or with the main thread, once, or is in the hands of exactly one thread, and no closed one is.\<close>

theorem pool_serves_each_once:
  assumes "pool_step\<^sup>*\<^sup>* (pool_start n cs) w"
  shows "\<exists>z. accepted w = taken w @ z
    \<and> (\<forall>fd. count (mset z + held_by (thrs w)) fd = (if links w fd = None then 0 else 1))
    \<and> (\<forall>t u fd. t < length (thrs w) \<and> u < length (thrs w) \<and> fd \<in># held (thrs w ! t) \<and> fd \<in># held (thrs w ! u) \<longrightarrow> t = u)"
proof -
  from pool_run_inv [OF assms] have q: "queue_ok w" and f: "fds_ok w" by (simp_all add: pool_inv_def)
  from q obtain z where z: "accepted w = taken w @ z" by (auto simp: queue_ok_def ring_inv_def)
  then have c: "count (mset z + held_by (thrs w)) fd = (if links w fd = None then 0 else 1)" for fd
    using f by (simp add: fds_ok_def waiting_def)
  have "t = u" if "t < length (thrs w)" "u < length (thrs w)" "fd \<in># held (thrs w ! t)" "fd \<in># held (thrs w ! u)" for t u fd
  proof (rule ccontr)
    assume "t \<noteq> u"
    have "1 \<le> count (held (thrs w ! t)) fd" "1 \<le> count (held (thrs w ! u)) fd"
      using that(3,4) by (simp_all add: Suc_le_eq)
    moreover have "count (mset z + held_by (thrs w)) fd \<le> 1" by (subst c) simp
    then have "count (mset z) fd + count (held_by (thrs w)) fd \<le> 1" by (simp only: count_union)
    ultimately show False using held_twice [OF that(1,2) \<open>t \<noteq> u\<close>, of fd] by linarith
  qed
  with z c show ?thesis by blast
qed

text \<open>C28: No connection is forgotten: while the ring is not empty and threads wait, the main thread is about
  to wake one, or a thread is already on its way to the ring.\<close>

theorem pool_loses_no_wakeup:
  assumes "pool_step\<^sup>*\<^sup>* (pool_start n cs) w" and "pget w \<noteq> pput w" and "WWait \<in> set (thrs w)"
  shows "mainat w \<in> {PCheck, PSignal} \<or> (\<exists>t < length (thrs w). heading (thrs w ! t))"
proof -
  from pool_run_inv [OF assms(1)] have q: "queue_ok w" and k: "wakeups_ok w" by (simp_all add: pool_inv_def)
  from q assms(2) have "ring_fds (pool_ring w) \<noteq> []" by (auto simp: queue_ok_def ring_inv_def ring_fds_Nil)
  then have "0 < length (ring_fds (pool_ring w))" by simp
  also have "\<dots> \<le> length (filter heading (thrs w)) + signal_due (mainat w)"
    using k assms(3) by (simp add: wakeups_ok_def)
  finally have "filter heading (thrs w) \<noteq> [] \<or> mainat w \<in> {PCheck, PSignal}"
    by (auto simp: signal_due_def split: if_splits)
  then show ?thesis by (auto simp: filter_empty_conv in_set_conv_nth)
qed

text \<open>A run: one thread, which waits before the connection comes.\<close>

definition pool_example :: "conn \<Rightarrow> pool" where
  "pool_example c = (pool_start 1 [Inr c])\<lparr>mainat := PCheck, holder := Some None, thrs := [WWait],
     clifd := (replicate MAXNCLI 0)[0 := 4], pput := 1, links := [4 \<mapsto> c], calls := [], accepted := [4]\<rparr>"

lemma pool_example_run: "pool_step\<^sup>*\<^sup>* (pool_start 1 [Inr c]) (pool_example c)"
proof -
  let ?w0 = "pool_start 1 [Inr c]"
  let ?w1 = "?w0\<lparr>thrs := [WLock]\<rparr>"
  let ?w2 = "?w1\<lparr>thrs := [WTest], holder := Some (Some 0)\<rparr>"
  let ?w3 = "?w2\<lparr>thrs := [WWait], holder := None\<rparr>"
  let ?w4 = "?w3\<lparr>mainat := PLock 4, links := [4 \<mapsto> c], calls := [], accepted := [4]\<rparr>"
  let ?w5 = "?w4\<lparr>mainat := PStore 4, holder := Some None\<rparr>"
  let ?w6 = "?w5\<lparr>mainat := PBump, clifd := (replicate MAXNCLI 0)[0 := 4]\<rparr>"
  have "pool_step ?w0 ?w1" using pool_step.w_start [of ?w0 0] by (simp add: pool_start_def)
  moreover have "pool_step ?w1 ?w2" using pool_step.w_lock [of ?w1 0] by (simp add: pool_start_def)
  moreover have "pool_step ?w2 ?w3" using pool_step.w_wait [of ?w2 0] by (simp add: pool_start_def)
  moreover have "pool_step ?w3 ?w4" using pool_step.m_accept [of ?w3 c "[]" 4] by (simp add: pool_start_def)
  moreover have "pool_step ?w4 ?w5" using pool_step.m_lock [of ?w4 4] by (simp add: pool_start_def)
  moreover have "pool_step ?w5 ?w6" using pool_step.m_store [of ?w5 4] by (simp add: pool_start_def)
  moreover have "pool_step ?w6 (pool_example c)"
    using pool_step.m_bump [of ?w6] by (simp add: pool_start_def pool_example_def bump_def MAXNCLI_def)
  ultimately show ?thesis by (meson converse_rtranclp_into_rtranclp rtranclp.rtrancl_refl)
qed

theorem pool_serves_each_once_witness:
  "\<exists>z. accepted (pool_example (request_conn [] [])) = taken (pool_example (request_conn [] [])) @ z \<and> z = [4]"
  using pool_serves_each_once [OF pool_example_run] by (auto simp: pool_example_def pool_start_def)

theorem pool_loses_no_wakeup_witness:
  "mainat (pool_example (request_conn [] [])) \<in> {PCheck, PSignal}"
  using pool_loses_no_wakeup [OF pool_example_run, of "request_conn [] []"]
  by (auto simp: pool_example_def pool_start_def)

end
