(* ===== verification/Unp_Rtt.thy ===== *)
theory Unp_Rtt
  imports Complex_Main Unp_Wrap_More "HOL-Library.Word"
begin

text \<open>
  A reliable UDP request: the round trip estimator (\<^verbatim>\<open>SampleCode/unpv13e/lib/rtt.c\<close>) and the function that
  sends a request again until its reply comes (\<^verbatim>\<open>rtt/dg_send_recv.c\<close>).
\<close>

section \<open>Floating point\<close>

text \<open>
  The values are rational numbers; \<open>fl\<close> and \<open>db\<close> round the result of an operation to a \<^verbatim>\<open>float\<close> and to a
  \<^verbatim>\<open>double\<close>.  They are the machine's, of which only this is used: rounding is monotone and keeps the
  integers that the formats hold.
\<close>

record fp =
  fl :: "rat \<Rightarrow> rat"
  db :: "rat \<Rightarrow> rat"

definition rounds_well :: "fp \<Rightarrow> bool" where
  "rounds_well f \<longleftrightarrow> mono (fl f) \<and> mono (db f)
     \<and> (\<forall>i. \<bar>i\<bar> \<le> 2 ^ 24 \<longrightarrow> fl f (of_int i) = of_int i) \<and> (\<forall>i. \<bar>i\<bar> \<le> 2 ^ 53 \<longrightarrow> db f (of_int i) = of_int i)"

section \<open>rtt.c\<close>

record rtt_info =
  rtt_rtt :: rat
  rtt_srtt :: rat
  rtt_rttvar :: rat
  rtt_rto :: rat
  rtt_nrexmt :: int
  rtt_base :: "32 word"

definition RTT_RXTMIN :: rat where "RTT_RXTMIN = 2"
definition RTT_RXTMAX :: rat where "RTT_RXTMAX = 60"
definition RTT_MAXNREXMT :: int where "RTT_MAXNREXMT = 3"

definition RTT_RTOCALC :: "fp \<Rightarrow> rtt_info \<Rightarrow> rat" where
  "RTT_RTOCALC f ptr = db f (rtt_srtt ptr + db f (4 * rtt_rttvar ptr))"

definition rtt_minmax :: "rat \<Rightarrow> rat" where
  "rtt_minmax rto = (if rto < RTT_RXTMIN then RTT_RXTMIN else if RTT_RXTMAX < rto then RTT_RXTMAX else rto)"

text \<open>A time of day: seconds, which are 64 bits wide, and microseconds.\<close>

type_synonym timeval = "int \<times> int"

definition rtt_init :: "fp \<Rightarrow> timeval \<Rightarrow> rtt_info \<Rightarrow> rtt_info" where
  "rtt_init f tv ptr =
     (let p = ptr\<lparr>rtt_base := of_int (fst tv), rtt_rtt := 0, rtt_srtt := 0, rtt_rttvar := 3 / 4\<rparr>
      in p\<lparr>rtt_rto := rtt_minmax (fl f (RTT_RTOCALC f p))\<rparr>)"

definition rtt_ts :: "timeval \<Rightarrow> rtt_info \<Rightarrow> 32 word" where
  "rtt_ts tv ptr = of_int ((fst tv - uint (rtt_base ptr)) * 1000 + snd tv div 1000)"

definition rtt_newpack :: "rtt_info \<Rightarrow> rtt_info" where
  "rtt_newpack ptr = ptr\<lparr>rtt_nrexmt := 0\<rparr>"

text \<open>The conversion to \<^verbatim>\<open>int\<close> truncates; the value is not negative.\<close>

definition rtt_start :: "fp \<Rightarrow> rtt_info \<Rightarrow> int" where
  "rtt_start f ptr = \<lfloor>db f (rtt_rto ptr + 1 / 2)\<rfloor>"

definition rtt_stop :: "fp \<Rightarrow> 32 word \<Rightarrow> rtt_info \<Rightarrow> rtt_info" where
  "rtt_stop f ms ptr =
     (let rtt = fl f (db f (of_int (uint ms) / 1000));
          delta = fl f (rtt - rtt_srtt ptr);
          srtt = fl f (db f (rtt_srtt ptr + db f (delta / 8)));
          adelta = (if delta < 0 then - delta else delta);
          rttvar = fl f (db f (rtt_rttvar ptr + db f (db f (adelta - rtt_rttvar ptr) / 4)));
          p = ptr\<lparr>rtt_rtt := rtt, rtt_srtt := srtt, rtt_rttvar := rttvar\<rparr>
      in p\<lparr>rtt_rto := rtt_minmax (fl f (RTT_RTOCALC f p))\<rparr>)"

definition rtt_timeout :: "fp \<Rightarrow> rtt_info \<Rightarrow> int \<times> rtt_info" where
  "rtt_timeout f ptr =
     (let p = ptr\<lparr>rtt_rto := fl f (rtt_rto ptr * 2), rtt_nrexmt := rtt_nrexmt ptr + 1\<rparr>
      in (if RTT_MAXNREXMT < rtt_nrexmt p then -1 else 0, p))"

text \<open>\<^verbatim>\<open>%.3f\<close>: the nearest multiple of a thousandth, the even one of two.\<close>

definition thousandths :: "rat \<Rightarrow> int" where
  "thousandths q = (let k = \<lfloor>q * 1000\<rfloor>; r = q * 1000 - of_int k
     in if r < 1 / 2 \<or> r = 1 / 2 \<and> even k then k else k + 1)"

definition show_3f :: "rat \<Rightarrow> string" where
  "show_3f q = (let k = thousandths \<bar>q\<bar>; d = nat (k mod 1000)
     in (if q < 0 then ''-'' else '''') @ show_nat (nat (k div 1000)) @ ''.''
        @ show_nat (d div 100) @ show_nat (d div 10 mod 10) @ show_nat (d mod 10))"

definition rtt_debug :: "int \<Rightarrow> rtt_info \<Rightarrow> 'p stdio_scheme \<Rightarrow> 'p stdio_scheme" where
  "rtt_debug rtt_d_flag ptr p =
     (if rtt_d_flag = 0 then p
      else eprintf (''rtt = '' @ show_3f (rtt_rtt ptr) @ '', srtt = '' @ show_3f (rtt_srtt ptr)
        @ '', rttvar = '' @ show_3f (rtt_rttvar ptr) @ '', rto = '' @ show_3f (rtt_rto ptr) @ nl) p)"

section \<open>dg_send_recv.c\<close>

text \<open>
  The static variables.  A header is its sequence number and its timestamp, in the byte order of the
  machine; the server sends it back as it is.
\<close>

type_synonym hdr = "32 word \<times> 32 word"

record dgsr = proc +
  rttinfo :: rtt_info
  rttinit :: int
  rtt_d_flag :: int
  sendhdr :: hdr
  recvhdr :: hdr

text \<open>
  What \<^verbatim>\<open>Recvmsg\<close> does: it fails, takes a datagram shorter than a header, which may change some bytes of
  \<^verbatim>\<open>recvhdr\<close>, or one with a header and data, of which \<^verbatim>\<open>inbytes\<close> bytes fit.
\<close>

datatype recv_ev = RecvFails errno | Short nat hdr | Full hdr string

text \<open>
  A round: the time of the sending and what \<^verbatim>\<open>sendmsg\<close> answers, what is received before the alarm, and
  the time when a reply is taken.  \<open>late\<close>: the alarm strikes after \<^verbatim>\<open>Recvmsg\<close> has returned the reply and
  before \<^verbatim>\<open>alarm(0)\<close>; the handler jumps to \<^verbatim>\<open>sigsetjmp\<close> and the reply is lost.  An alarm that strikes before
  \<^verbatim>\<open>sigsetjmp\<close> has set the buffer, at least two seconds early, is left out.
\<close>

record round =
  sent_at :: timeval
  send_res :: "errno + nat"
  arrives :: "recv_ev list"
  got_at :: timeval
  late :: bool

definition pad4 :: "string \<Rightarrow> string" where
  "pad4 s = replicate (4 - length s) CHR '' '' @ s"

definition seq_text :: "hdr \<Rightarrow> string" where
  "seq_text h = pad4 (show_int (sint (fst h)))"

datatype recv_out = Reply nat string | AlarmFires | RecvDies stop

text \<open>The loop around \<^verbatim>\<open>Recvmsg\<close> until the reply, with \<open>n\<close>, or the alarm.\<close>

fun recv_loop :: "nat \<Rightarrow> recv_ev list \<Rightarrow> dgsr \<Rightarrow> recv_out \<times> dgsr" where
  "recv_loop inbytes [] p = (AlarmFires, p)"
| "recv_loop inbytes (RecvFails e # evs) p =
     (case err_sys ''recvmsg error'' (p\<lparr>errnum := e\<rparr>) of (s, p1) \<Rightarrow> (RecvDies s, p1))"
| "recv_loop inbytes (Short n h # evs) p =
     recv_loop inbytes evs (eprintf (''recv '' @ seq_text h @ nl) (p\<lparr>recvhdr := h\<rparr>))"
| "recv_loop inbytes (Full h d # evs) p =
     (let p1 = eprintf (''recv '' @ seq_text h @ nl) (p\<lparr>recvhdr := h\<rparr>) in
      if fst h \<noteq> fst (sendhdr p) then recv_loop inbytes evs p1
      else (Reply (8 + length (take inbytes d)) (take inbytes d), p1))"

text \<open>What the loop leads to: a reply is taken only when the alarm is stopped in time.\<close>

definition before_alarm :: "round \<Rightarrow> recv_out \<Rightarrow> recv_out" where
  "before_alarm r x = (case x of Reply n d \<Rightarrow> if late r then AlarmFires else Reply n d | _ \<Rightarrow> x)"

text \<open>
  From the label \<^verbatim>\<open>sendagain\<close> on.  The result is the value returned with what was put into \<^verbatim>\<open>inbuff\<close>; \<open>out\<close>
  collects the datagrams sent, \<open>alarms\<close> the arguments of \<^verbatim>\<open>alarm\<close>.  No more rounds: the alarm is still to come.
\<close>

type_synonym traffic = "(hdr \<times> string) list \<times> int list"

fun sendagain ::
    "fp \<Rightarrow> string \<Rightarrow> nat \<Rightarrow> round list \<Rightarrow> traffic \<Rightarrow> dgsr \<Rightarrow> stop \<times> (int \<times> string) option \<times> traffic \<times> dgsr" where
  "sendagain f outbuff inbytes [] tr p = (Blocks, None, tr, p)"
| "sendagain f outbuff inbytes (r # rs) (snt, alarms) p =
     (let p1 = eprintf (''send '' @ pad4 (show_int (sint (fst (sendhdr p)))) @ '': '') p;
          p2 = p1\<lparr>sendhdr := (fst (sendhdr p1), rtt_ts (sent_at r) (rttinfo p1))\<rparr> in
      case all_or_die ''sendmsg error'' (8 + length outbuff) (send_res r) p2 of
        Inl (s, p3) \<Rightarrow> (s, None, (snt, alarms), p3)
      | Inr (_, p3) \<Rightarrow>
          (let tr = (snt @ [(sendhdr p3, outbuff)], alarms @ [rtt_start f (rttinfo p3)]);
               p4 = rtt_debug (rtt_d_flag p3) (rttinfo p3) p3 in
           case map_prod (before_alarm r) id (recv_loop inbytes (arrives r) p4) of
             (Reply n d, p5) \<Rightarrow>
               (Returns, Some (int n - 8, d), tr,
                p5\<lparr>rttinfo := rtt_stop f (rtt_ts (got_at r) (rttinfo p5) - snd (recvhdr p5)) (rttinfo p5)\<rparr>)
           | (RecvDies s, p5) \<Rightarrow> (s, None, tr, p5)
           | (AlarmFires, p5) \<Rightarrow>
               (case rtt_timeout f (rttinfo p5) of
                  (k, ri) \<Rightarrow>
                    (let p6 = p5\<lparr>rttinfo := ri\<rparr> in
                     if k < 0 then
                       (case err_msg ''dg_send_recv: no response from server, giving up'' p6 of
                          (_, p7) \<Rightarrow> (Returns, Some (-1, []), tr, p7\<lparr>rttinit := 0, errnum := ETIMEDOUT\<rparr>))
                     else
                       (case err_msg ''dg_send_recv: timeout, retransmitting'' p6 of
                          (_, p7) \<Rightarrow> sendagain f outbuff inbytes rs tr p7)))))"

text \<open>\<open>start\<close> is the time of the first call, for \<^verbatim>\<open>rtt_init\<close>.\<close>

definition dg_send_recv ::
    "fp \<Rightarrow> timeval \<Rightarrow> string \<Rightarrow> nat \<Rightarrow> round list \<Rightarrow> dgsr \<Rightarrow> stop \<times> (int \<times> string) option \<times> traffic \<times> dgsr" where
  "dg_send_recv f start outbuff inbytes rs p =
     (let p1 = (if rttinit p = 0 then p\<lparr>rttinfo := rtt_init f start (rttinfo p), rttinit := 1, rtt_d_flag := 1\<rparr> else p);
          p2 = p1\<lparr>sendhdr := (fst (sendhdr p1) + 1, snd (sendhdr p1))\<rparr>;
          p3 = p2\<lparr>rttinfo := rtt_newpack (rttinfo p2)\<rparr>
      in sendagain f outbuff inbytes rs ([], []) p3)"

definition Dg_send_recv ::
    "fp \<Rightarrow> timeval \<Rightarrow> string \<Rightarrow> nat \<Rightarrow> round list \<Rightarrow> dgsr \<Rightarrow> stop \<times> (int \<times> string) option \<times> traffic \<times> dgsr" where
  "Dg_send_recv f start outbuff inbytes rs p =
     (case dg_send_recv f start outbuff inbytes rs p of
        (s, v, tr, p1) \<Rightarrow>
          (case v of
             Some (n, d) \<Rightarrow>
               if s = Returns \<and> n < 0 then (case err_quit ''dg_send_recv error'' p1 of (s1, p2) \<Rightarrow> (s1, v, tr, p2))
               else (s, v, tr, p1)
           | None \<Rightarrow> (s, v, tr, p1)))"

section \<open>The timer\<close>

lemma rtt_minmax_bounds: "2 \<le> rtt_minmax q" "rtt_minmax q \<le> 60"
  by (auto simp: rtt_minmax_def RTT_RXTMIN_def RTT_RXTMAX_def)

lemma rtt_rto_bounds:
  "2 \<le> rtt_rto (rtt_init f tv p)" "rtt_rto (rtt_init f tv p) \<le> 60"
  "2 \<le> rtt_rto (rtt_stop f ms p)" "rtt_rto (rtt_stop f ms p) \<le> 60"
  by (simp_all add: rtt_init_def rtt_stop_def Let_def rtt_minmax_bounds)

text \<open>Rounding keeps integer bounds.\<close>

lemma fl_bounds:
  assumes "rounds_well f"
  shows "\<bar>i\<bar> \<le> 2 ^ 24 \<Longrightarrow> of_int i \<le> q \<Longrightarrow> of_int i \<le> fl f q"
    and "\<bar>i\<bar> \<le> 2 ^ 24 \<Longrightarrow> q \<le> of_int i \<Longrightarrow> fl f q \<le> of_int i"
    and "\<bar>i\<bar> \<le> 2 ^ 53 \<Longrightarrow> of_int i \<le> q \<Longrightarrow> of_int i \<le> db f q"
    and "\<bar>i\<bar> \<le> 2 ^ 53 \<Longrightarrow> q \<le> of_int i \<Longrightarrow> db f q \<le> of_int i"
  using assms unfolding rounds_well_def mono_def by metis+

text \<open>The timeout after \<open>k\<close> retransmissions.\<close>

definition rto_at :: "nat \<Rightarrow> rtt_info \<Rightarrow> bool" where
  "rto_at k ri \<longleftrightarrow> rtt_nrexmt ri = int k \<and> 2 \<le> rtt_rto ri \<and> rtt_rto ri \<le> 60 * 2 ^ k"

lemma rtt_timeout_step:
  assumes "rounds_well f" and "rto_at k ri" and "k \<le> 3" and "rtt_timeout f ri = (r, ri')"
  shows "rto_at (Suc k) ri' \<and> (r < 0 \<longleftrightarrow> k = 3)"
proof -
  let ?i = "60 * 2 ^ Suc k :: int"
  have "(2::int) ^ Suc k \<le> 2 ^ 4" using assms(3) by (intro power_increasing) auto
  then have i: "\<bar>?i\<bar> \<le> 2 ^ 24" by simp
  have "of_int 2 \<le> fl f (rtt_rto ri * 2)"
    using assms(2) by (intro fl_bounds(1) [OF assms(1)]) (auto simp: rto_at_def)
  moreover have "fl f (rtt_rto ri * 2) \<le> of_int ?i"
    using assms(2) by (intro fl_bounds(2) [OF assms(1) i]) (auto simp: rto_at_def)
  ultimately show ?thesis using assms(2-4)
    by (auto simp: rtt_timeout_def rto_at_def RTT_MAXNREXMT_def Let_def split: if_splits)
qed

lemma rtt_start_bounds:
  assumes "rounds_well f" and "rto_at k ri" and "k \<le> 3"
  shows "2 \<le> rtt_start f ri \<and> rtt_start f ri \<le> 481"
proof -
  have "(2::rat) ^ k \<le> 2 ^ 3" using assms(3) by (intro power_increasing) auto
  with assms(2) have r: "2 \<le> rtt_rto ri" "rtt_rto ri \<le> 480" by (auto simp: rto_at_def)
  have "of_int 2 \<le> db f (rtt_rto ri + 1 / 2)" using r by (intro fl_bounds(3) [OF assms(1)]) auto
  moreover have "db f (rtt_rto ri + 1 / 2) \<le> of_int 481" using r by (intro fl_bounds(4) [OF assms(1)]) auto
  ultimately show ?thesis by (auto simp: rtt_start_def le_floor_iff floor_le_iff)
qed

section \<open>Rounds\<close>

definition matching :: "32 word \<Rightarrow> round \<Rightarrow> string set" where
  "matching q r = {d. \<exists>ts. Full (q, ts) d \<in> set (arrives r)}"

text \<open>No reply is taken in the round.\<close>

definition lost :: "32 word \<Rightarrow> round \<Rightarrow> bool" where
  "lost q r \<longleftrightarrow> late r \<or> matching q r = {}"

lemma recv_loop_frame:
  "recv_loop ib evs p = (x, p') \<Longrightarrow> rttinfo p' = rttinfo p \<and> sendhdr p' = sendhdr p \<and> rttinit p' = rttinit p
     \<and> (\<forall>s. x = RecvDies s \<longrightarrow> s = Exits 1)"
  by (induction ib evs p rule: recv_loop.induct)
    (auto simp: Let_def eprintf_def err_sys_def err_doit_def split: if_splits)

lemma recv_loop_result:
  "recv_loop ib evs p = (x, p') \<Longrightarrow> case x of
      Reply n d \<Rightarrow> \<exists>ts e. Full (fst (sendhdr p), ts) e \<in> set evs \<and> d = take ib e \<and> n = 8 + length d
    | AlarmFires \<Rightarrow> \<forall>ts e. Full (fst (sendhdr p), ts) e \<notin> set evs
    | RecvDies s \<Rightarrow> True"
proof (induction ib evs p rule: recv_loop.induct)
  case (3 ib n h evs p)
  from 3(1) 3(2) show ?case by (fastforce simp: eprintf_def split: recv_out.splits)
next
  case (4 ib h d evs p)
  show ?case
  proof (cases "fst h = fst (sendhdr p)")
    case True
    with 4(2) show ?thesis by (cases h) (auto simp: Let_def split: recv_out.splits, blast)
  next
    case False
    with 4(1) [OF refl] 4(2) show ?thesis
      by (cases h) (fastforce simp: eprintf_def Let_def split: recv_out.splits)
  qed
qed (auto simp: err_sys_def)

text \<open>The members of the process that printing leaves alone.\<close>

abbreviation same_call :: "dgsr \<Rightarrow> dgsr \<Rightarrow> bool" where
  "same_call p p' \<equiv> fst (sendhdr p') = fst (sendhdr p)"

definition round_ok :: "fp \<Rightarrow> nat \<Rightarrow> dgsr \<Rightarrow> bool" where
  "round_ok f k p \<longleftrightarrow> rounds_well f \<and> rto_at k (rttinfo p) \<and> k \<le> 3"

text \<open>One round: nothing came of the sending, a reply was taken, or the alarm fired.\<close>

lemma sendagain_round:
  assumes "sendagain f outb ib (r # rs) (snt, al) p = (s, v, (snt', al'), p')" and "round_ok f k p"
  obtains (dies) "s = Exits 1" "v = None" "\<exists>h. (snt', al') = (snt, al) \<or> (snt', al') = (snt @ [(h, outb)], al @ [rtt_start f (rttinfo p)])
        \<and> fst h = fst (sendhdr p)"
    | (reply) h d where "s = Returns" "v = Some (int (length (take ib d)), take ib d)" "d \<in> matching (fst (sendhdr p)) r" "\<not> late r"
        "snt' = snt @ [(h, outb)]" "al' = al @ [rtt_start f (rttinfo p)]" "fst h = fst (sendhdr p)"
        "2 \<le> rtt_rto (rttinfo p')" "rtt_rto (rttinfo p') \<le> 60" "same_call p p'" "rttinit p' = rttinit p"
    | (gives_up) h where "k = 3" "s = Returns" "v = Some (-1, [])" "lost (fst (sendhdr p)) r"
        "snt' = snt @ [(h, outb)]" "al' = al @ [rtt_start f (rttinfo p)]" "fst h = fst (sendhdr p)"
        "same_call p p'" "rttinit p' = 0"
    | (again) h p1 where "k < 3" "lost (fst (sendhdr p)) r" "fst h = fst (sendhdr p)"
        "sendagain f outb ib rs (snt @ [(h, outb)], al @ [rtt_start f (rttinfo p)]) p1 = (s, v, (snt', al'), p')"
        "round_ok f (Suc k) p1" "same_call p p1" "rttinit p1 = rttinit p"
proof -
  let ?p1 = "eprintf (''send '' @ pad4 (show_int (sint (fst (sendhdr p)))) @ '': '') p"
  let ?h = "(fst (sendhdr p), rtt_ts (sent_at r) (rttinfo p))"
  let ?p2 = "?p1\<lparr>sendhdr := ?h\<rparr>"
  show thesis
  proof (cases "all_or_die ''sendmsg error'' (8 + length outb) (send_res r) ?p2")
    case (Inl e)
    then have "s = Exits 1" "v = None" "(snt', al') = (snt, al)"
      using assms(1) by (auto simp: Let_def eprintf_def all_or_die_def err_sys_def split: sum.splits if_splits)
    then show thesis by (intro that(1)) auto
  next
    case (Inr a)
    then have a: "snd a = ?p2" by (auto simp: all_or_die_def split: sum.splits if_splits)
    let ?p4 = "rtt_debug (rtt_d_flag ?p2) (rttinfo ?p2) ?p2"
    have p4: "rttinfo ?p4 = rttinfo p" "sendhdr ?p4 = ?h" "rttinit ?p4 = rttinit p"
      by (simp_all add: rtt_debug_def eprintf_def)
    obtain x p5 where rl: "recv_loop ib (arrives r) ?p4 = (x, p5)" by (cases "recv_loop ib (arrives r) ?p4")
    let ?x = "before_alarm r x"
    note fr = recv_loop_frame [OF rl, unfolded p4] and rs = recv_loop_result [OF rl, unfolded p4]
    let ?tr = "(snt @ [(?h, outb)], al @ [rtt_start f (rttinfo p)])"
    have sh: "sendhdr ?p1 = sendhdr p" "rttinfo ?p1 = rttinfo p" "rttinfo ?p2 = rttinfo p" "sendhdr ?p2 = ?h"
      by (simp_all add: eprintf_def)
    have eq: "sendagain f outb ib (r # rs) (snt, al) p =
       (case (?x, p5) of
             (Reply n d, p5) \<Rightarrow>
               (Returns, Some (int n - 8, d), ?tr,
                p5\<lparr>rttinfo := rtt_stop f (rtt_ts (got_at r) (rttinfo p5) - snd (recvhdr p5)) (rttinfo p5)\<rparr>)
           | (RecvDies s, p5) \<Rightarrow> (s, None, ?tr, p5)
           | (AlarmFires, p5) \<Rightarrow>
               (case rtt_timeout f (rttinfo p5) of
                  (k, ri) \<Rightarrow>
                    (let p6 = p5\<lparr>rttinfo := ri\<rparr> in
                     if k < 0 then
                       (case err_msg ''dg_send_recv: no response from server, giving up'' p6 of
                          (_, p7) \<Rightarrow> (Returns, Some (-1, []), ?tr, p7\<lparr>rttinit := 0, errnum := ETIMEDOUT\<rparr>))
                     else
                       (case err_msg ''dg_send_recv: timeout, retransmitting'' p6 of
                          (_, p7) \<Rightarrow> sendagain f outb ib rs ?tr p7))))"
      unfolding sendagain.simps Let_def sh Inr using a rl
      by (cases a) (simp only: sum.case prod.case snd_conv sh map_prod_simp id_apply)
    have x: "?x = AlarmFires \<and> late r \<or> ?x = x \<and> (\<not> late r \<or> (\<forall>n d. x \<noteq> Reply n d))"
      by (auto simp: before_alarm_def split: recv_out.splits)
    show thesis
    proof (cases ?x)
      case (Reply n d)
      with x have taken: "x = Reply n d" "\<not> late r" by auto
      with rs obtain ts e where e: "Full (fst (sendhdr p), ts) e \<in> set (arrives r)" "d = take ib e" "n = 8 + length d"
        by auto
      show thesis using assms(1) eq Reply taken(2) e fr rtt_rto_bounds(3,4)
        by (intro that(2) [of e ?h]) (auto simp: matching_def)
    next
      case AlarmFires
      obtain j ri where t: "rtt_timeout f (rttinfo p) = (j, ri)" by (cases "rtt_timeout f (rttinfo p)")
      with rtt_timeout_step [of f k "rttinfo p" j ri] assms(2) have j: "rto_at (Suc k) ri" "j < 0 \<longleftrightarrow> k = 3"
        by (auto simp: round_ok_def)
      have m: "lost (fst (sendhdr p)) r" using AlarmFires rs x by (auto simp: matching_def lost_def)
      show thesis
      proof (cases "k = 3")
        case True
        then show thesis using assms(1) eq AlarmFires fr t j m
          by (intro that(3) [of ?h]) (auto simp: err_msg_def err_doit_def Let_def)
      next
        case False
        then show thesis using assms eq AlarmFires fr t j m
          by (intro that(4) [of ?h "snd (err_msg ''dg_send_recv: timeout, retransmitting'' (p5\<lparr>rttinfo := ri\<rparr>))"])
            (auto simp: err_msg_def err_doit_def Let_def round_ok_def)
      qed
    next
      case (RecvDies s1)
      moreover from this x have "x = RecvDies s1" by auto
      ultimately show thesis using assms(1) eq fr by (intro that(1)) auto
    qed
  qed
qed

text \<open>What the rounds from the \<open>k\<close>-th on give: the requests \<open>new\<close>, with their timeouts, and the value.\<close>

definition rounds_give ::
    "nat \<Rightarrow> string \<Rightarrow> nat \<Rightarrow> round list \<Rightarrow> 32 word \<Rightarrow> stop \<Rightarrow> (int \<times> string) option \<Rightarrow> (hdr \<times> string) list \<Rightarrow> int list \<Rightarrow> dgsr \<Rightarrow> bool"
where
  "rounds_give k outb ib rs q s v new newal p' \<longleftrightarrow>
     length new \<le> 4 - k \<and> (4 - k \<le> length rs \<longrightarrow> s \<noteq> Blocks) \<and> s \<in> {Returns, Blocks, Exits 1}
   \<and> (\<forall>m \<in> set new. fst (fst m) = q \<and> snd m = outb) \<and> length newal = length new \<and> (\<forall>a \<in> set newal. 2 \<le> a \<and> a \<le> 481)
   \<and> (s = Returns \<longrightarrow> fst (sendhdr p') = q \<and> (rttinit p' = 0 \<or> 2 \<le> rtt_rto (rttinfo p') \<and> rtt_rto (rttinfo p') \<le> 60))
   \<and> (s = Returns \<longrightarrow> (case v of
        None \<Rightarrow> False
      | Some (n, d) \<Rightarrow>
          if n < 0 then length new = 4 - k \<and> (\<forall>r \<in> set (take (4 - k) rs). lost q r)
          else n = int (length d) \<and> (\<exists>r \<in> set rs. \<not> late r \<and> (\<exists>e \<in> matching q r. d = take ib e))))"

lemma rounds_give_again:
  assumes "k < 3" and "lost q r" and "fst h = q" and "2 \<le> a" and "a \<le> 481"
    and "rounds_give (Suc k) outb ib rs q s v new newal p'"
  shows "rounds_give k outb ib (r # rs) q s v ((h, outb) # new) (a # newal) p'"
proof -
  have "4 - k = Suc (4 - Suc k)" using assms(1) by simp
  with assms(2-6) show ?thesis by (auto simp: rounds_give_def split: option.splits)
qed

lemma sendagain_gives:
  assumes "sendagain f outb ib rs (snt, al) p = (s, v, (snt', al'), p')" and "round_ok f k p"
  shows "\<exists>new newal. snt' = snt @ new \<and> al' = al @ newal \<and> rounds_give k outb ib rs (fst (sendhdr p)) s v new newal p'"
  using assms
proof (induction rs arbitrary: k snt al p)
  case Nil
  then show ?case by (auto simp: rounds_give_def round_ok_def)
next
  case (Cons r rs)
  let ?q = "fst (sendhdr p)"
  have st: "2 \<le> rtt_start f (rttinfo p)" "rtt_start f (rttinfo p) \<le> 481" and k: "k \<le> 3"
    using rtt_start_bounds [of f k "rttinfo p"] Cons.prems(2) by (auto simp: round_ok_def)
  from Cons.prems show ?case
  proof (cases rule: sendagain_round)
    case dies
    then obtain h where h: "(snt', al') = (snt, al) \<or> (snt', al') = (snt @ [(h, outb)], al @ [rtt_start f (rttinfo p)])"
      "fst h = ?q" by blast
    from h(1) show ?thesis
    proof
      assume "(snt', al') = (snt, al)"
      with dies show ?thesis by (intro exI [of _ "[]"]) (auto simp: rounds_give_def)
    next
      assume e: "(snt', al') = (snt @ [(h, outb)], al @ [rtt_start f (rttinfo p)])"
      show ?thesis using dies(1) e st h(2) k
        by (intro exI [of _ "[(h, outb)]"] exI [of _ "[rtt_start f (rttinfo p)]"]) (auto simp: rounds_give_def)
    qed
  next
    case (reply h d)
    then show ?thesis using st k
      by (intro exI [of _ "[(h, outb)]"] exI [of _ "[rtt_start f (rttinfo p)]"]) (auto simp: rounds_give_def)
  next
    case (gives_up h)
    then show ?thesis using st
      by (intro exI [of _ "[(h, outb)]"] exI [of _ "[rtt_start f (rttinfo p)]"]) (auto simp: rounds_give_def)
  next
    case (again h p1)
    from Cons.IH [OF again(4,5)] again(6) obtain new newal where
      "snt' = snt @ [(h, outb)] @ new" "al' = al @ [rtt_start f (rttinfo p)] @ newal"
      "rounds_give (Suc k) outb ib rs ?q s v new newal p'" by auto
    with rounds_give_again [OF again(1-3) st] show ?thesis
      by (intro exI [of _ "(h, outb) # new"] exI [of _ "rtt_start f (rttinfo p) # newal"]) auto
  qed
qed

text \<open>Between the calls the timeout is within its limits, or the next call sets it.\<close>

definition rtt_ready :: "dgsr \<Rightarrow> bool" where
  "rtt_ready p \<longleftrightarrow> rttinit p = 0 \<or> 2 \<le> rtt_rto (rttinfo p) \<and> rtt_rto (rttinfo p) \<le> 60"

lemma dg_send_recv_gives:
  assumes "dg_send_recv f start outb ib rs p = (s, v, (snt, al), p')" and "rounds_well f" and "rtt_ready p"
  shows "rounds_give 0 outb ib rs (fst (sendhdr p) + 1) s v snt al p'"
proof -
  let ?p1 = "if rttinit p = 0 then p\<lparr>rttinfo := rtt_init f start (rttinfo p), rttinit := 1, rtt_d_flag := 1\<rparr> else p"
  let ?p2 = "?p1\<lparr>sendhdr := (fst (sendhdr ?p1) + 1, snd (sendhdr ?p1))\<rparr>"
  let ?p3 = "?p2\<lparr>rttinfo := rtt_newpack (rttinfo ?p2)\<rparr>"
  have "round_ok f 0 ?p3"
    using assms(2,3) rtt_rto_bounds(1,2) by (auto simp: round_ok_def rto_at_def rtt_newpack_def rtt_ready_def)
  moreover have "sendagain f outb ib rs ([], []) ?p3 = (s, v, (snt, al), p')"
    using assms(1) by (simp only: dg_send_recv_def Let_def)
  ultimately have "rounds_give 0 outb ib rs (fst (sendhdr ?p3)) s v snt al p'"
    using sendagain_gives [of f outb ib rs "[]" "[]" ?p3] by (metis append_Nil)
  then show ?thesis by (cases "rttinit p = 0") simp_all
qed

section \<open>Properties\<close>

text \<open>C11: A request over UDP always comes to an end: after at most four sendings, each of the same request
  with the same sequence number, \<^verbatim>\<open>dg_send_recv\<close> returns or the process has ended; the timer is never set
  to less than 2 seconds or to more than 481, so it always fires, and a call that returns leaves the
  timeout within its limits for the next one.\<close>

theorem dg_send_recv_ends:
  assumes "rounds_well f" and "rtt_ready p" and "4 \<le> length rs"
    and "dg_send_recv f start outb ib rs p = (s, v, (snt, al), p')"
  shows "(s = Returns \<and> rtt_ready p' \<or> s = Exits 1) \<and> length snt \<le> 4 \<and> length al = length snt
    \<and> (\<forall>a \<in> set al. 2 \<le> a \<and> a \<le> 481) \<and> (\<forall>m \<in> set snt. fst (fst m) = fst (sendhdr p) + 1 \<and> snd m = outb)"
  using dg_send_recv_gives [OF assms(4,1,2)] assms(3) by (auto simp: rounds_give_def rtt_ready_def)

definition grid :: "rat \<Rightarrow> rat" where
  "grid q = of_int \<lfloor>q * 1024\<rfloor> / 1024"

definition grid_fp :: fp where
  "grid_fp = \<lparr>fl = grid, db = grid\<rparr>"

lemma grid_fp_rounds: "rounds_well grid_fp"
proof -
  have "mono grid" by (intro monoI) (simp add: grid_def divide_right_mono floor_mono)
  moreover have "grid (of_int i) = of_int i" for i
  proof -
    have "(of_int i :: rat) * 1024 = of_int (i * 1024)" by simp
    then show ?thesis unfolding grid_def by (simp only: floor_of_int)
  qed
  ultimately show ?thesis by (simp add: rounds_well_def grid_fp_def)
qed

definition first_call :: dgsr where
  "first_call = \<lparr>inp = [], out = [], err = [], daemon_proc = False, slog = [], errnum = EIO,
     rttinfo = \<lparr>rtt_rtt = 0, rtt_srtt = 0, rtt_rttvar = 0, rtt_rto = 0, rtt_nrexmt = 0, rtt_base = 0\<rparr>,
     rttinit = 0, rtt_d_flag = 0, sendhdr = (0, 0), recvhdr = (0, 0)\<rparr>"

definition quiet_round :: "recv_ev list \<Rightarrow> round" where
  "quiet_round evs = \<lparr>sent_at = (100, 0), send_res = Inr 10, arrives = evs, got_at = (101, 0), late = False\<rparr>"

lemma first_call_ready: "rtt_ready first_call"
  by (simp add: rtt_ready_def first_call_def)

theorem dg_send_recv_ends_witness:
  "\<exists>s v snt al p'. dg_send_recv grid_fp (100, 0) ''hi'' 10 (replicate 4 (quiet_round [])) first_call = (s, v, (snt, al), p')
     \<and> (s = Returns \<and> rtt_ready p' \<or> s = Exits 1) \<and> length snt \<le> 4"
proof -
  let ?r = "dg_send_recv grid_fp (100, 0) ''hi'' 10 (replicate 4 (quiet_round [])) first_call"
  obtain s v tr p' where "?r = (s, v, tr, p')" by (cases ?r)
  moreover obtain snt al where "tr = (snt, al)" by (cases tr)
  ultimately have r: "?r = (s, v, (snt, al), p')" by simp
  from dg_send_recv_ends [OF grid_fp_rounds first_call_ready _ this] r show ?thesis by auto
qed

text \<open>C10: A reply that \<^verbatim>\<open>dg_send_recv\<close> returns is the data, as far as it fits, of a datagram that arrived with
  the sequence number of this request, with its size; -1 is returned only after four sendings when in none
  of the four rounds such a datagram arrived before the alarm, or the alarm struck between \<^verbatim>\<open>Recvmsg\<close>, which
  had returned it, and \<^verbatim>\<open>alarm(0)\<close>.\<close>

theorem dg_send_recv_reply:
  assumes "rounds_well f" and "rtt_ready p"
    and "dg_send_recv f start outb ib rs p = (Returns, v, (snt, al), p')"
  shows "\<exists>n d. v = Some (n, d)
    \<and> (n < 0 \<and> length snt = 4 \<and> (\<forall>r \<in> set (take 4 rs). matching (fst (sendhdr p) + 1) r = {} \<or> late r)
     \<or> n = int (length d) \<and> (\<exists>r \<in> set rs. \<not> late r \<and> (\<exists>e \<in> matching (fst (sendhdr p) + 1) r. d = take ib e)))"
proof -
  have e: "(\<forall>r \<in> A. matching q r = {} \<or> late r) \<longleftrightarrow> (\<forall>r \<in> A. lost q r)" for q A by (auto simp: lost_def)
  show ?thesis unfolding e
    using dg_send_recv_gives [OF assms(3,1,2)] by (auto simp: rounds_give_def split: option.splits if_splits)
qed

theorem dg_send_recv_reply_witness:
  "\<exists>n d snt al p'. dg_send_recv grid_fp (100, 0) ''hi'' 10 [quiet_round [Full (7, 0) ''old'', Full (1, 0) ''ok'']] first_call
       = (Returns, Some (n, d), (snt, al), p')
     \<and> (n < 0 \<and> length snt = 4 \<or> n = int (length d) \<and> d = ''ok'')"
proof -
  let ?rs = "[quiet_round [Full (7, 0) ''old'', Full (1, 0) ''ok'']]"
  let ?r = "dg_send_recv grid_fp (100, 0) ''hi'' 10 ?rs first_call"
  have "fst ?r = Returns"
    by (simp add: dg_send_recv_def first_call_def quiet_round_def all_or_die_def Let_def rtt_debug_def eprintf_def before_alarm_def)
  then obtain v tr p' where "?r = (Returns, v, tr, p')" by (cases ?r) auto
  moreover obtain snt al where "tr = (snt, al)" by (cases tr)
  ultimately have r: "?r = (Returns, v, (snt, al), p')" by simp
  from dg_send_recv_reply [OF grid_fp_rounds first_call_ready this] r show ?thesis
    by (auto simp: matching_def quiet_round_def first_call_def)
qed

end
