(* ===== verification/Unp_Mux.thy ===== *)
theory Unp_Mux
  imports Unp_Select_Client Unp_Echo_Server "HOL-Library.Multiset"
begin

text \<open>
  What the echo servers that multiplex their clients in one process share
  (\<^verbatim>\<open>SampleCode/unpv13e/tcpcliserv\<close>: \<^verbatim>\<open>tcpservselect01.c\<close> and \<^verbatim>\<open>tcpservpoll01.c\<close>): the listening
  queue, the open connections, the loop over the table of clients.  What a table and the code for one
  of its entries owe to that loop is a locale, which both servers interpret.
\<close>

section \<open>Listening queue and connections\<close>

text \<open>
  \<open>queue\<close> has the connections that \<^verbatim>\<open>accept\<close> will give, \<open>conns\<close> the open ones by descriptor, \<open>gone\<close> those
  the server has closed; \<^verbatim>\<open>maxi\<close> is the variable of the programs.
\<close>

record mux =
  maxi :: int
  queue :: "(errno + conn) list"
  conns :: "int \<Rightarrow> conn option"
  gone :: "(int \<times> conn) list"

text \<open>A descriptor is readable when a read would not wait: the kernel reports no other.\<close>

definition readable :: "conn \<Rightarrow> bool" where
  "readable c \<longleftrightarrow> fst (sys_read 1 (rq c)) \<noteq> RdWait"

definition has_input :: "int \<Rightarrow> 'a mux_scheme \<Rightarrow> int \<Rightarrow> bool" where
  "has_input listenfd m f =
     (if f = listenfd then queue m \<noteq> []
      else (case conns m f of None \<Rightarrow> False | Some c \<Rightarrow> readable c))"

text \<open>
  The number that \<^verbatim>\<open>accept\<close> gives a connection: the lowest that is free.  The descriptors up to the
  listening one are in use, above it only connections are; \<open>n\<close> is not less than their number.
\<close>

definition lowest_free :: "int \<Rightarrow> nat \<Rightarrow> (int \<Rightarrow> conn option) \<Rightarrow> int" where
  "lowest_free listenfd n tab =
     (case find (\<lambda>f. tab f = None) [listenfd + 1..listenfd + 1 + int n] of
        Some f \<Rightarrow> f
      | None \<Rightarrow> listenfd + 2 + int n)"

lemma lowest_free_above: "listenfd < lowest_free listenfd n tab"
  by (auto simp: lowest_free_def find_Some_iff split: option.split)

lemma lowest_free_fresh:
  assumes "finite (dom tab)" and "card (dom tab) \<le> n"
  shows "lowest_free l n tab \<notin> dom tab" "lowest_free l n tab \<le> l + 1 + int (card (dom tab))"
proof -
  let ?u = "l + 1 + int (card (dom tab))"
  have "\<not> {l + 1..?u} \<subseteq> dom tab"
  proof
    assume "{l + 1..?u} \<subseteq> dom tab"
    then have "card {l + 1..?u} \<le> card (dom tab)" by (rule card_mono [OF assms(1)])
    then show False by simp
  qed
  then obtain g where g: "g \<in> {l + 1..?u}" "tab g = None" unfolding subset_eq domIff by blast
  then have "g \<in> set [l + 1..l + 1 + int n]" using assms(2) by auto
  with g(2) obtain f where f: "find (\<lambda>f. tab f = None) [l + 1..l + 1 + int n] = Some f"
    by (cases "find (\<lambda>f. tab f = None) [l + 1..l + 1 + int n]") (auto simp: find_None_iff)
  then obtain j where j: "j < length [l + 1..l + 1 + int n]" "f = [l + 1..l + 1 + int n] ! j" "tab f = None"
    and first: "\<And>k. k < j \<Longrightarrow> tab ([l + 1..l + 1 + int n] ! k) \<noteq> None"
    by (auto simp: find_Some_iff)
  from f j(3) show "lowest_free l n tab \<notin> dom tab" by (simp add: lowest_free_def domIff)
  have "f \<le> ?u"
  proof (rule ccontr)
    assume "\<not> f \<le> ?u"
    then have "nat (g - l - 1) < j" using g(1) j by (auto simp: nth_upto)
    moreover have "[l + 1..l + 1 + int n] ! nat (g - l - 1) = g" using g(1) assms(2) by (subst nth_upto) auto
    ultimately show False using first [of "nat (g - l - 1)"] g(2) by simp
  qed
  with f show "lowest_free l n tab \<le> ?u" by (simp add: lowest_free_def)
qed

section \<open>The loop over the table\<close>

text \<open>
  \<open>fd_at m i\<close> is the descriptor in the entry \<open>i\<close>, \<open>hit\<close> the test for input, \<open>body\<close> what is done then.  The
  loop is left when \<^verbatim>\<open>nready\<close> descriptors have been found.
\<close>

type_synonym ('m, 'p) entry_body = "nat \<Rightarrow> int \<Rightarrow> 'm \<Rightarrow> 'p \<Rightarrow> ('m, 'p) turn"

fun serve_entries ::
    "('m \<Rightarrow> nat \<Rightarrow> int) \<Rightarrow> ('m \<Rightarrow> nat \<Rightarrow> int \<Rightarrow> bool) \<Rightarrow> ('m, 'p) entry_body \<Rightarrow> nat list \<Rightarrow> int \<Rightarrow> 'm \<Rightarrow> 'p
     \<Rightarrow> ('m, 'p) turn" where
  "serve_entries fd_at hit body [] nready m p = (None, m, p)"
| "serve_entries fd_at hit body (i # is) nready m p =
     (let sockfd = fd_at m i in
      if sockfd < 0 then serve_entries fd_at hit body is nready m p
      else if hit m i sockfd then
        then_turn (body i sockfd m p) (\<lambda>m1 p1.
          if nready - 1 \<le> 0 then (None, m1, p1)
          else serve_entries fd_at hit body is (nready - 1) m1 p1)
      else serve_entries fd_at hit body is nready m p)"

section \<open>Accounts\<close>

fun arrived :: "('e + 'a) list \<Rightarrow> 'a list" where
  "arrived [] = []"
| "arrived (Inl e # q) = arrived q"
| "arrived (Inr c # q) = c # arrived q"

text \<open>What a client will have been sent when all it sends has come back: serving never changes it.\<close>

definition account :: "conn \<Rightarrow> string" where
  "account c = sent c @ stream (rq c)"

definition open_accounts :: "(int \<Rightarrow> conn option) \<Rightarrow> string multiset" where
  "open_accounts tab = image_mset (\<lambda>f. account (the (tab f))) (mset_set (dom tab))"

definition accounts :: "'a mux_scheme \<Rightarrow> string multiset" where
  "accounts m = open_accounts (conns m) + mset (map (account \<circ> snd) (gone m))
     + mset (map account (arrived (queue m)))"

lemma open_accounts_empty [simp]: "open_accounts Map.empty = {#}"
  by (simp add: open_accounts_def)

lemma open_accounts_insert:
  assumes "finite (dom tab)" and "f \<notin> dom tab"
  shows "open_accounts (tab(f \<mapsto> c)) = add_mset (account c) (open_accounts tab)"
proof -
  have "image_mset (\<lambda>g. account (the ((tab(f \<mapsto> c)) g))) (mset_set (dom tab))
      = image_mset (\<lambda>g. account (the (tab g))) (mset_set (dom tab))"
    using assms by (intro image_mset_cong) auto
  then show ?thesis using assms by (simp add: open_accounts_def)
qed

lemma open_accounts_remove:
  assumes "finite (dom tab)" and "tab f = Some c"
  shows "open_accounts tab = add_mset (account c) (open_accounts (tab(f := None)))"
proof -
  have "tab = (tab(f := None))(f \<mapsto> c)" using assms(2) by auto
  moreover have "finite (dom (tab(f := None)))" "f \<notin> dom (tab(f := None))" using assms(1) by auto
  ultimately show ?thesis using open_accounts_insert by metis
qed

lemma open_accounts_update:
  assumes "finite (dom tab)" and "tab f = Some c" and "account c' = account c"
  shows "open_accounts (tab(f \<mapsto> c')) = open_accounts tab"
  using open_accounts_remove [OF assms(1,2)] open_accounts_remove [of "tab(f \<mapsto> c')" f c'] assms by simp

definition all_back :: "'a mux_scheme \<Rightarrow> bool" where
  "all_back m \<longleftrightarrow> (\<forall>x \<in> set (gone m). stream (rq (snd x)) = [])"

section \<open>The table\<close>

text \<open>
  Entries from \<open>base\<close> on are for clients; those in use lie below \<^verbatim>\<open>maxi\<close>, hold different descriptors, and
  these are the open connections.
\<close>

definition used :: "('a mux_scheme \<Rightarrow> nat \<Rightarrow> int) \<Rightarrow> nat \<Rightarrow> 'a mux_scheme \<Rightarrow> nat set" where
  "used fd_at base m = {i. base \<le> i \<and> int i \<le> maxi m \<and> 0 \<le> fd_at m i}"

definition table_ok :: "('a mux_scheme \<Rightarrow> nat \<Rightarrow> int) \<Rightarrow> nat \<Rightarrow> 'a mux_scheme \<Rightarrow> bool" where
  "table_ok fd_at base m \<longleftrightarrow> inj_on (fd_at m) (used fd_at base m) \<and> dom (conns m) = fd_at m ` used fd_at base m"

lemma finite_used [simp]: "finite (used fd_at base m)"
  by (rule finite_subset [of _ "{..nat (maxi m)}"]) (auto simp: used_def)

lemma table_ok_finite: "table_ok fd_at base m \<Longrightarrow> finite (dom (conns m))"
  by (simp add: table_ok_def)

lemma table_ok_card: "table_ok fd_at base m \<Longrightarrow> card (dom (conns m)) = card (used fd_at base m)"
  by (simp add: table_ok_def card_image)

text \<open>A client was served: its bytes went back, or its connection was closed and the entry is free.\<close>

definition client_served ::
    "('a mux_scheme \<Rightarrow> nat \<Rightarrow> int) \<Rightarrow> nat \<Rightarrow> int \<Rightarrow> 'a mux_scheme \<Rightarrow> 'a mux_scheme \<Rightarrow> bool" where
  "client_served fd_at i fd m m' \<longleftrightarrow> maxi m' = maxi m \<and> queue m' = queue m
     \<and> (\<exists>c c'. conns m fd = Some c \<and> account c' = account c
        \<and> (conns m' = (conns m)(fd \<mapsto> c') \<and> gone m' = gone m \<and> fd_at m' = fd_at m
         \<or> conns m' = (conns m)(fd := None) \<and> gone m' = gone m @ [(fd, c')] \<and> fd_at m' = (fd_at m)(i := - 1)))"

lemma client_served_table:
  assumes "table_ok fd_at base m" and "i \<in> used fd_at base m" and "fd_at m i = fd"
    and "client_served fd_at i fd m m'"
  shows "table_ok fd_at base m' \<and> accounts m' = accounts m"
proof -
  note fin = table_ok_finite [OF assms(1)]
  from assms(4) obtain c c' where c: "conns m fd = Some c" "account c' = account c"
    and m': "maxi m' = maxi m" "queue m' = queue m" and
    or: "conns m' = (conns m)(fd \<mapsto> c') \<and> gone m' = gone m \<and> fd_at m' = fd_at m
         \<or> conns m' = (conns m)(fd := None) \<and> gone m' = gone m @ [(fd, c')] \<and> fd_at m' = (fd_at m)(i := - 1)"
    by (auto simp: client_served_def)
  from or show ?thesis
  proof
    assume k: "conns m' = (conns m)(fd \<mapsto> c') \<and> gone m' = gone m \<and> fd_at m' = fd_at m"
    then have "used fd_at base m' = used fd_at base m" using m' by (simp add: used_def)
    with k c assms(1) have "table_ok fd_at base m'" by (auto simp: table_ok_def)
    moreover have "accounts m' = accounts m"
      using k c m' open_accounts_update [OF fin c] by (simp add: accounts_def)
    ultimately show ?thesis ..
  next
    assume k: "conns m' = (conns m)(fd := None) \<and> gone m' = gone m @ [(fd, c')] \<and> fd_at m' = (fd_at m)(i := - 1)"
    then have u: "used fd_at base m' = used fd_at base m - {i}" using m' by (auto simp: used_def)
    have inj: "inj_on (fd_at m) (used fd_at base m)" using assms(1) by (simp add: table_ok_def)
    have im: "fd_at m' ` (used fd_at base m - {i}) = fd_at m ` (used fd_at base m - {i})"
      using k by (intro image_cong) auto
    have "fd_at m ` (used fd_at base m - {i}) = fd_at m ` used fd_at base m - {fd}"
      using inj_on_image_set_diff [OF inj, of "used fd_at base m" "{i}"] assms(2,3) by auto
    moreover have "inj_on (fd_at m') (used fd_at base m - {i})"
      using inj k by (auto simp: inj_on_def)
    ultimately have "table_ok fd_at base m'"
      using assms(1) k u im by (auto simp: table_ok_def)
    moreover have "accounts m' = accounts m"
      using k c m' open_accounts_remove [OF fin c(1)] by (simp add: accounts_def)
    ultimately show ?thesis ..
  qed
qed

text \<open>A client was admitted, in an entry that was free.\<close>

definition client_admitted ::
    "('a mux_scheme \<Rightarrow> nat \<Rightarrow> int) \<Rightarrow> nat \<Rightarrow> 'a mux_scheme \<Rightarrow> 'a mux_scheme \<Rightarrow> bool" where
  "client_admitted fd_at base m m' \<longleftrightarrow>
     (\<exists>i fd c. base \<le> i \<and> i \<notin> used fd_at base m \<and> 0 \<le> fd \<and> fd \<notin> dom (conns m)
        \<and> fd_at m' = (fd_at m)(i := fd) \<and> conns m' = (conns m)(fd \<mapsto> c) \<and> gone m' = gone m
        \<and> mset (arrived (queue m)) = add_mset c (mset (arrived (queue m')))
        \<and> maxi m' = max (maxi m) (int i) \<and> (\<forall>j. int j \<le> max (maxi m) (int i) \<longrightarrow> base \<le> j \<longrightarrow> maxi m < int j \<longrightarrow> j = i))"

lemma client_admitted_table:
  assumes "table_ok fd_at base m" and "client_admitted fd_at base m m'"
  shows "table_ok fd_at base m' \<and> accounts m' = accounts m"
proof -
  note fin = table_ok_finite [OF assms(1)]
  from assms(2) obtain i fd c where i: "base \<le> i" "i \<notin> used fd_at base m" "0 \<le> fd" "fd \<notin> dom (conns m)"
    and m': "fd_at m' = (fd_at m)(i := fd)" "conns m' = (conns m)(fd \<mapsto> c)" "gone m' = gone m"
      "mset (arrived (queue m)) = add_mset c (mset (arrived (queue m')))" "maxi m' = max (maxi m) (int i)"
    and new: "\<And>j. int j \<le> max (maxi m) (int i) \<Longrightarrow> base \<le> j \<Longrightarrow> maxi m < int j \<Longrightarrow> j = i"
    by (auto simp: client_admitted_def)
  have u: "used fd_at base m' = insert i (used fd_at base m)"
    using i m' new by (force simp: used_def)
  have im: "fd_at m' ` used fd_at base m = fd_at m ` used fd_at base m"
    using i(2) m' by (intro image_cong) auto
  have "inj_on (fd_at m') (used fd_at base m)"
    using assms(1) i(2) m' by (auto simp: table_ok_def inj_on_def)
  then have "table_ok fd_at base m'"
    using assms(1) i u im m' by (auto simp: table_ok_def)
  moreover have "accounts m' = accounts m"
    using m' open_accounts_insert [OF fin i(4)] by (simp add: accounts_def)
  ultimately show ?thesis ..
qed

section \<open>Servers that may go on\<close>

text \<open>
  A client that sends what it sends, and then nothing more or the end of its stream, which is an event of
  \<open>ends\<close>; the work that is left is bounded
  by the bytes and segments to come.
\<close>

fun calm_script :: "rd_event set \<Rightarrow> rd_event list \<Rightarrow> bool" where
  "calm_script ends [] = True"
| "calm_script ends (Seg s # es) \<longleftrightarrow> s \<noteq> [] \<and> calm_script ends es"
| "calm_script ends (e # es) \<longleftrightarrow> e \<in> ends \<and> es = []"

definition calm_conn :: "rd_event set \<Rightarrow> conn \<Rightarrow> bool" where
  "calm_conn ends c \<longleftrightarrow> calm_script ends (rq c) \<and> (\<forall>e \<in> set (wq c). patient e)"

definition calm_mux :: "rd_event set \<Rightarrow> 'a mux_scheme \<Rightarrow> bool" where
  "calm_mux ends m \<longleftrightarrow> (\<forall>c \<in> ran (conns m). calm_conn ends c) \<and> (\<forall>e \<in> set (queue m). \<exists>c. e = Inr c \<and> calm_conn ends c)
     \<and> all_back m"

definition conn_work :: "(int \<Rightarrow> conn option) \<Rightarrow> nat" where
  "conn_work tab = (\<Sum>f\<in>dom tab. ev_size (rq (the (tab f))))"

definition work :: "'a mux_scheme \<Rightarrow> nat" where
  "work m = conn_work (conns m) + sum_list (map (\<lambda>c. Suc (ev_size (rq c))) (arrived (queue m)))"

lemma conn_work_remove:
  assumes "finite (dom tab)" and "tab f = Some c"
  shows "conn_work tab = ev_size (rq c) + conn_work (tab(f := None))"
proof -
  have "(\<Sum>g\<in>dom tab - {f}. ev_size (rq (the (tab g)))) = (\<Sum>g\<in>dom tab - {f}. ev_size (rq (the ((tab(f := None)) g))))"
    by (intro sum.cong) auto
  with assms show ?thesis by (simp add: conn_work_def sum.remove [of "dom tab" f] domI)
qed

lemma conn_work_insert:
  "finite (dom tab) \<Longrightarrow> f \<notin> dom tab \<Longrightarrow> conn_work (tab(f \<mapsto> c)) = ev_size (rq c) + conn_work tab"
  using conn_work_remove [of "tab(f \<mapsto> c)" f c] by (simp add: fun_upd_idem domIff)

lemma calm_script_read:
  assumes "calm_script ends es" and "0 < n" and "es \<noteq> []"
  shows "(\<exists>d es'. sys_read n es = (Got d, es') \<and> calm_script ends es' \<and> ev_size es' < ev_size es \<and> d \<noteq> [])
    \<or> (\<exists>e \<in> ends. es = [e] \<and> (\<forall>s. e \<noteq> Seg s))"
proof (cases es)
  case (Cons e es')
  show ?thesis
  proof (cases e)
    case (Seg s)
    with assms Cons show ?thesis by (cases s; cases n) auto
  qed (use assms Cons in auto)
qed (use assms in simp)

lemma readable_calm:
  assumes "calm_script ends (rq c)"
  shows "readable c \<longleftrightarrow> rq c \<noteq> []"
proof (cases "rq c = []")
  case False
  from calm_script_read [OF assms _ this, of 1] show ?thesis
  proof
    assume "\<exists>e \<in> ends. rq c = [e] \<and> (\<forall>s. e \<noteq> Seg s)"
    then obtain e where "rq c = [e]" "\<forall>s. e \<noteq> Seg s" by blast
    then show ?thesis by (cases e) (auto simp: readable_def)
  qed (auto simp: readable_def)
qed (simp add: readable_def)

lemma calm_mux_conns: "calm_mux ends m \<Longrightarrow> conns m f = Some c \<Longrightarrow> calm_conn ends c"
  by (auto simp: calm_mux_def ran_def)

lemma readable_conn: "calm_mux ends m \<Longrightarrow> conns m f = Some c \<Longrightarrow> readable c \<longleftrightarrow> rq c \<noteq> []"
  by (rule readable_calm [of ends]) (use calm_mux_conns [of ends m f c] in \<open>simp add: calm_conn_def\<close>)

text \<open>A calm client that was served is calm, and has less to send.\<close>

lemma calm_mux_update:
  assumes "calm_mux ends m" and "queue m' = queue m" and "conns m' = (conns m)(f := x)" and "\<And>c. x = Some c \<Longrightarrow> calm_conn ends c"
    and "gone m' = gone m \<or> (\<exists>f c. gone m' = gone m @ [(f, c)] \<and> stream (rq c) = [])"
  shows "calm_mux ends m'"
  using assms by (auto simp: calm_mux_def ran_def all_back_def split: if_splits)

lemma work_less:
  assumes "finite (dom (conns m))" and "conns m f = Some c" and "queue m' = queue m"
    and "conns m' = (conns m)(f \<mapsto> c') \<and> ev_size (rq c') < ev_size (rq c)
      \<or> conns m' = (conns m)(f := None) \<and> 0 < ev_size (rq c)"
  shows "work m' < work m"
  using assms(4)
proof
  assume a: "conns m' = (conns m)(f \<mapsto> c') \<and> ev_size (rq c') < ev_size (rq c)"
  have "conn_work (conns m') = ev_size (rq c') + conn_work ((conns m')(f := None))"
    using a assms(1) by (intro conn_work_remove) auto
  with a conn_work_remove [OF assms(1,2)] assms(3) show ?thesis by (simp add: work_def)
next
  assume "conns m' = (conns m)(f := None) \<and> 0 < ev_size (rq c)"
  with conn_work_remove [OF assms(1,2)] assms(3) show ?thesis by (simp add: work_def)
qed

lemma work_admitted:
  assumes "finite (dom (conns m))" and "f \<notin> dom (conns m)" and "conns m' = (conns m)(f \<mapsto> c)"
    and "arrived (queue m) = c # arrived (queue m')"
  shows "work m = Suc (work m')"
  using conn_work_insert [OF assms(1,2), of c] assms(3,4) by (simp add: work_def)

text \<open>What is left to do is at the queue or at a connection.\<close>

lemma work_left:
  assumes "calm_mux ends m" and "0 < work m" and "finite (dom (conns m))"
  shows "queue m \<noteq> [] \<or> (\<exists>f c. conns m f = Some c \<and> rq c \<noteq> [])"
proof (rule ccontr)
  assume "\<not> ?thesis"
  then have q: "queue m = []" and c: "\<And>f c. conns m f = Some c \<Longrightarrow> rq c = []" by auto
  have "conn_work (conns m) = 0" unfolding conn_work_def using c by (intro sum.neutral) auto
  with q assms(2) show False by (simp add: work_def)
qed

lemma Writen_calm:
  assumes "\<forall>e \<in> set (wq c). patient e"
  shows "\<exists>c' p'. Writen d c p = (Returns, c', p') \<and> rq c' = rq c \<and> (\<forall>e \<in> set (wq c'). patient e)"
proof -
  obtain s c' p' where w: "Writen d c p = (s, c', p')" by (cases "Writen d c p")
  then show ?thesis by (cases rule: Writen_cases) (use assms w in auto)
qed

text \<open>When nothing is left to do, every client has been sent what it sent.\<close>

definition sent_back :: "'a mux_scheme \<Rightarrow> string multiset" where
  "sent_back m = image_mset (\<lambda>f. sent (the (conns m f))) (mset_set (dom (conns m))) + mset (map (sent \<circ> snd) (gone m))"

lemma idle_accounts:
  assumes "work m = 0" and "calm_mux ends m" and "finite (dom (conns m))"
  shows "queue m = []" "conns m f = Some c \<Longrightarrow> rq c = []" "accounts m = sent_back m"
proof -
  have q: "arrived (queue m) = []" using assms(1) by (auto simp: work_def)
  with assms(2) show "queue m = []" by (cases "queue m") (auto simp: calm_mux_def)
  have idle: "rq c = []" if "conns m f = Some c" for f c
  proof -
    have "ev_size (rq c) = 0" using assms(1) conn_work_remove [OF assms(3) that] by (simp add: work_def)
    then show ?thesis by (cases "rq c" rule: ev_size.cases) auto
  qed
  then show "conns m f = Some c \<Longrightarrow> rq c = []" .
  have "open_accounts (conns m) = image_mset (\<lambda>f. sent (the (conns m f))) (mset_set (dom (conns m)))"
    unfolding open_accounts_def using idle assms(3) by (intro image_mset_cong) (auto simp: account_def)
  moreover have "mset (map (account \<circ> snd) (gone m)) = mset (map (sent \<circ> snd) (gone m))"
    using assms(2) by (intro arg_cong [of _ _ mset] map_cong) (auto simp: calm_mux_def all_back_def account_def)
  ultimately show "accounts m = sent_back m" using q by (simp add: accounts_def sent_back_def del: mset_map)
qed

lemma Accept_arrived:
  "Accept q p = Inr ((c, q'), p') \<Longrightarrow> arrived q = c # arrived q' \<and> set q' \<subseteq> set q"
  "Accept q p = Inl (x, p') \<Longrightarrow> x = Blocks \<or> x = Exits 1"
  by (induction q p rule: Accept.induct) (auto simp: err_sys_def split: if_splits)

section \<open>The contract of the entries\<close>

locale echo_table =
  fixes fd_at :: "'a mux_scheme \<Rightarrow> nat \<Rightarrow> int" and base :: nat
    and hit :: "'a mux_scheme \<Rightarrow> nat \<Rightarrow> int \<Rightarrow> bool"
    and body :: "('a mux_scheme, 'p proc_scheme) entry_body"
    and ok :: "'a mux_scheme \<Rightarrow> bool"
  assumes ok_table: "ok m \<Longrightarrow> table_ok fd_at base m"
    and body_serves: "ok m \<Longrightarrow> i \<in> used fd_at base m \<Longrightarrow> body i (fd_at m i) m p = (None, m', p')
      \<Longrightarrow> client_served fd_at i (fd_at m i) m m' \<and> ok m' \<and> hit m' = hit m"
    and body_leaves: "ok m \<Longrightarrow> i \<in> used fd_at base m \<Longrightarrow> body i (fd_at m i) m p = (Some x, m', p')
      \<Longrightarrow> x = Exits 1 \<or> x = Blocks \<and> m' = m"
begin

text \<open>Whatever is reported, the loop keeps the table and the accounts, or ends the process.\<close>

lemma entries_keep:
  assumes "serve_entries fd_at hit body is nready m p = (x, m', p')" and "ok m"
    and "\<forall>i \<in> set is. base \<le> i \<and> int i \<le> maxi m"
  shows "(x \<noteq> Some (Exits 1) \<longrightarrow> ok m' \<and> accounts m' = accounts m) \<and> (x = None \<or> x = Some (Exits 1) \<or> x = Some Blocks)"
  using assms
proof (induction "is" arbitrary: nready m p)
  case (Cons i "is")
  show ?case
  proof (cases "0 \<le> fd_at m i \<and> hit m i (fd_at m i)")
    case True
    with Cons.prems(3) have u: "i \<in> used fd_at base m" by (simp add: used_def)
    obtain y m1 p1 where b: "body i (fd_at m i) m p = (y, m1, p1)" by (cases "body i (fd_at m i) m p")
    show ?thesis
    proof (cases y)
      case None
      from body_serves [OF Cons.prems(2) u b [unfolded None]]
      have s: "client_served fd_at i (fd_at m i) m m1" "ok m1" by blast+
      have a: "accounts m1 = accounts m" "maxi m1 = maxi m"
        using client_served_table [OF ok_table [OF Cons.prems(2)] u refl s(1)] s(1) by (simp_all add: client_served_def)
      show ?thesis
      proof (cases "nready - 1 \<le> 0")
        case True
        then show ?thesis using Cons.prems(1) b None s(2) a \<open>0 \<le> fd_at m i \<and> _\<close> by (auto simp: Let_def)
      next
        case False
        then have "serve_entries fd_at hit body is (nready - 1) m1 p1 = (x, m', p')"
          using Cons.prems(1) b None \<open>0 \<le> fd_at m i \<and> _\<close> by (simp add: Let_def)
        from Cons.IH [OF this s(2)] Cons.prems(3) a show ?thesis by simp
      qed
    next
      case (Some z)
      with Cons.prems(1) b True have "x = Some z" "m' = m1" by (auto simp: Let_def)
      then show ?thesis using body_leaves [OF Cons.prems(2) u b [unfolded Some]] Cons.prems(2) by auto
    qed
  next
    case False
    then have "serve_entries fd_at hit body is nready m p = (x, m', p')"
      using Cons.prems(1) by (auto simp: Let_def split: if_splits)
    from Cons.IH [OF this Cons.prems(2)] Cons.prems(3) show ?thesis by simp
  qed
qed simp

end

text \<open>When no call fails, serving a client whose input is there goes through and leaves less to do.\<close>

locale calm_table = echo_table +
  fixes ends :: "rd_event set"
  assumes body_calm: "ok m \<Longrightarrow> i \<in> used fd_at base m \<Longrightarrow> calm_mux ends m \<Longrightarrow> conns m (fd_at m i) = Some c \<Longrightarrow> rq c \<noteq> []
      \<Longrightarrow> \<exists>m' p'. body i (fd_at m i) m p = (None, m', p') \<and> calm_mux ends m' \<and> work m' < work m"
begin

text \<open>The entries of a list that the loop would serve, in its order.\<close>

definition hits :: "'a mux_scheme \<Rightarrow> nat list \<Rightarrow> nat list" where
  "hits m is = filter (\<lambda>i. 0 \<le> fd_at m i \<and> hit m i (fd_at m i)) is"

definition waiting :: "'a mux_scheme \<Rightarrow> nat \<Rightarrow> bool" where
  "waiting m i \<longleftrightarrow> (\<exists>c. conns m (fd_at m i) = Some c \<and> rq c \<noteq> [])"

lemma served_elsewhere:
  assumes "ok m" and "i \<in> used fd_at base m" and "client_served fd_at i (fd_at m i) m m'" and "hit m' = hit m"
    and "i \<notin> set is" and "\<forall>j \<in> set is. base \<le> j \<and> int j \<le> maxi m"
  shows "hits m' is = hits m is" and "\<forall>j \<in> set (hits m is). waiting m' j \<longleftrightarrow> waiting m j"
proof -
  have fd: "fd_at m' j = fd_at m j" if "j \<noteq> i" for j using assms(3) that by (auto simp: client_served_def)
  then have "fd_at m' j = fd_at m j" if "j \<in> set is" for j using assms(5) that by metis
  then show "hits m' is = hits m is"
    unfolding hits_def using assms(4) by (intro filter_cong) simp_all
  have "fd_at m j \<noteq> fd_at m i" if "j \<in> set (hits m is)" for j
  proof -
    have "j \<in> used fd_at base m" "j \<noteq> i" using that assms(5,6) by (auto simp: hits_def used_def)
    then show ?thesis using ok_table [OF assms(1)] assms(2) by (auto simp: table_ok_def dest: inj_onD)
  qed
  moreover have "j \<noteq> i" if "j \<in> set (hits m is)" for j using that assms(5) by (auto simp: hits_def)
  ultimately show "\<forall>j \<in> set (hits m is). waiting m' j \<longleftrightarrow> waiting m j"
    using assms(3) fd by (auto simp: waiting_def client_served_def)
qed

text \<open>When the descriptors that are counted have input, the loop goes through and something gets done.\<close>

lemma entries_calm:
  assumes "ok m" and "calm_mux ends m" and "distinct is" and "\<forall>i \<in> set is. base \<le> i \<and> int i \<le> maxi m"
    and "\<forall>i \<in> set (take (max 1 (nat nready)) (hits m is)). waiting m i"
  shows "\<exists>m' p'. serve_entries fd_at hit body is nready m p = (None, m', p') \<and> ok m' \<and> calm_mux ends m'
    \<and> work m' \<le> work m \<and> (hits m is \<noteq> [] \<longrightarrow> work m' < work m) \<and> queue m' = queue m \<and> dom (conns m') \<subseteq> dom (conns m)"
  using assms
proof (induction "is" arbitrary: nready m p)
  case (Cons i "is")
  show ?case
  proof (cases "0 \<le> fd_at m i \<and> hit m i (fd_at m i)")
    case True
    then have h: "hits m (i # is) = i # hits m is" by (simp add: hits_def)
    from True Cons.prems(4) have u: "i \<in> used fd_at base m" by (simp add: used_def)
    from Cons.prems(5) h have "waiting m i" by (cases "max 1 (nat nready)") auto
    then obtain c where c: "conns m (fd_at m i) = Some c" "rq c \<noteq> []" by (auto simp: waiting_def)
    from body_calm [OF Cons.prems(1) u Cons.prems(2) c] obtain m1 p1 where
      b: "body i (fd_at m i) m p = (None, m1, p1)" "calm_mux ends m1" "work m1 < work m" by blast
    from body_serves [OF Cons.prems(1) u b(1)]
    have s: "client_served fd_at i (fd_at m i) m m1" "ok m1" "hit m1 = hit m" by blast+
    have i: "i \<notin> set is" "\<forall>j \<in> set is. base \<le> j \<and> int j \<le> maxi m" using Cons.prems(3,4) by auto
    note e = served_elsewhere [OF Cons.prems(1) u s(1,3) i]
    have q: "queue m1 = queue m" "dom (conns m1) \<subseteq> dom (conns m)" using s(1) by (auto simp: client_served_def split: if_splits)
    show ?thesis
    proof (cases "nready - 1 \<le> 0")
      case True
      then show ?thesis using b s(2) q \<open>0 \<le> fd_at m i \<and> _\<close> by (auto simp: Let_def h)
    next
      case False
      then have n: "max 1 (nat nready) = Suc (max 1 (nat (nready - 1)))" by simp
      have "\<forall>j \<in> set (take (max 1 (nat (nready - 1))) (hits m is)). waiting m j"
        using Cons.prems(5) unfolding h n take_Suc_Cons by auto
      then have "\<forall>j \<in> set (take (max 1 (nat (nready - 1))) (hits m1 is)). waiting m1 j"
        using e by (auto dest: in_set_takeD)
      moreover have "\<forall>i \<in> set is. base \<le> i \<and> int i \<le> maxi m1" using Cons.prems(4) s(1) by (simp add: client_served_def)
      moreover have "distinct is" using Cons.prems(3) by simp
      ultimately obtain m2 p2 where r: "serve_entries fd_at hit body is (nready - 1) m1 p1 = (None, m2, p2)" "ok m2"
        "calm_mux ends m2" "work m2 \<le> work m1" "queue m2 = queue m1" "dom (conns m2) \<subseteq> dom (conns m1)"
        using Cons.IH [OF s(2) b(2), of "nready - 1" p1] by blast
      have "serve_entries fd_at hit body (i # is) nready m p = (None, m2, p2)"
        using \<open>0 \<le> fd_at m i \<and> _\<close> b(1) False r(1) by (simp add: Let_def)
      with r b(3) q show ?thesis by (intro exI [of _ m2] exI [of _ p2]) auto
    qed
  next
    case False
    then have h: "hits m (i # is) = hits m is" by (simp add: hits_def)
    have "serve_entries fd_at hit body (i # is) nready m p = serve_entries fd_at hit body is nready m p"
      using False by (auto simp: Let_def)
    then show ?thesis using Cons.IH [OF Cons.prems(1,2)] Cons.prems(3-5) h by simp
  qed
qed (simp add: hits_def)

end

text \<open>For the examples.\<close>

definition granted_srv :: "int \<Rightarrow> srv_kernel" where
  "granted_srv l = \<lparr>sk_socket = Inr l, sk_bind = Inr (), sk_listen = (\<lambda>_. Inr ()), sk_listenq = None\<rparr>"

definition idle_proc :: proc where
  "idle_proc = \<lparr>inp = [], out = [], err = [], daemon_proc = False, slog = [], errnum = EIO\<rparr>"

end
