(* ===== verification/Unp_Mux_Select.thy ===== *)
theory Unp_Mux_Select
  imports Unp_Mux
begin

text \<open>
  The echo server that waits for its clients with \<^verbatim>\<open>select\<close>
  (\<^verbatim>\<open>SampleCode/unpv13e/tcpcliserv/tcpservselect01.c\<close>).  \<open>fdsz\<close> is the system's \<^verbatim>\<open>FD_SETSIZE\<close>: the
  number of entries of the table, and of the descriptors an \<^verbatim>\<open>fd_set\<close> has room for.
\<close>

section \<open>tcpservselect01.c\<close>

record sel_mux = mux +
  client :: "int list"
  maxfd :: int
  allset :: "int set"

definition sel_fd :: "'a sel_mux_scheme \<Rightarrow> nat \<Rightarrow> int" where
  "sel_fd m i = client m ! i"

text \<open>\<^verbatim>\<open>FD_SET\<close> behind the end of the set is a write behind an array.\<close>

definition FD_SET :: "nat \<Rightarrow> int \<Rightarrow> int set \<Rightarrow> fault + int set" where
  "FD_SET fdsz f s = (if 0 \<le> f \<and> f < int fdsz then Inr (insert f s) else Inl Overrun)"

text \<open>
  \<^verbatim>\<open>select\<close> looks at the first \<open>n\<close> descriptors; \<open>arrived\<close> tells for which of them input, if there is any
  to come, is there already.
\<close>

definition select_call :: "int \<Rightarrow> (int \<Rightarrow> bool) \<Rightarrow> int \<Rightarrow> int set \<Rightarrow> 'a mux_scheme \<Rightarrow> nat \<times> int set" where
  "select_call listenfd there n s m =
     (let fs = filter (\<lambda>f. f \<in> s \<and> there f \<and> has_input listenfd m f) [0..n - 1] in (length fs, set fs))"

definition sel_accept :: "nat \<Rightarrow> int \<Rightarrow> 'a sel_mux_scheme \<Rightarrow> 'p proc_scheme \<Rightarrow> ('a sel_mux_scheme, 'p proc_scheme) turn" where
  "sel_accept fdsz listenfd m p =
     (case Accept (queue m) p of
        Inl r \<Rightarrow> stop_turn m r
      | Inr ((c, q), p1) \<Rightarrow>
          (let connfd = lowest_free listenfd (length (client m)) (conns m);
               i = length (takeWhile (\<lambda>f. \<not> f < 0) (client m));
               m1 = m\<lparr>queue := q, conns := (conns m)(connfd \<mapsto> c)\<rparr> in
           if i = fdsz then stop_turn m1 (err_quit ''too many clients'' p1)
           else
             (let m2 = m1\<lparr>client := (client m1)[i := connfd]\<rparr> in
              case FD_SET fdsz connfd (allset m2) of
                Inl f \<Rightarrow> (Some (Undef f), m2, p1)
              | Inr s \<Rightarrow>
                  (None, m2\<lparr>allset := s, maxfd := (if maxfd m2 < connfd then connfd else maxfd m2),
                     maxi := (if maxi m2 < int i then int i else maxi m2)\<rparr>, p1))))"

text \<open>The body for a client with input; \<open>cls\<close> is what the kernel answers to \<^verbatim>\<open>close\<close>.\<close>

definition sel_client ::
    "(int \<Rightarrow> errno + unit) \<Rightarrow> ('a sel_mux_scheme, 'p proc_scheme) entry_body" where
  "sel_client cls i sockfd m p =
     (case conns m sockfd of
        None \<Rightarrow> stop_turn m (err_sys ''read error'' (p\<lparr>errnum := EBADF\<rparr>))
      | Some c \<Rightarrow>
          (case Read MAXLINE c p of
             Inl r \<Rightarrow> stop_turn m r
           | Inr ((buf, c1), p1) \<Rightarrow>
               if length buf = 0 then
                 (case Close (cls sockfd) p1 of
                    Inl r \<Rightarrow> stop_turn m r
                  | Inr (_, p2) \<Rightarrow>
                      (None, m\<lparr>conns := (conns m)(sockfd := None), gone := gone m @ [(sockfd, c1)],
                         allset := allset m - {sockfd}, client := (client m)[i := - 1]\<rparr>, p2))
               else
                 (case Writen buf c1 p1 of
                    (x, c2, p2) \<Rightarrow> (if x = Returns then None else Some x, m\<lparr>conns := (conns m)(sockfd \<mapsto> c2)\<rparr>, p2))))"

definition sel_hit :: "int set \<Rightarrow> 'm \<Rightarrow> nat \<Rightarrow> int \<Rightarrow> bool" where
  "sel_hit rset m i fd \<longleftrightarrow> fd \<in> rset"

definition sel_clients ::
    "(int \<Rightarrow> errno + unit) \<Rightarrow> int set \<Rightarrow> int \<Rightarrow> 'a sel_mux_scheme \<Rightarrow> 'p proc_scheme
     \<Rightarrow> ('a sel_mux_scheme, 'p proc_scheme) turn" where
  "sel_clients cls rset nready m p =
     serve_entries sel_fd (sel_hit rset) (sel_client cls) [0..<nat (maxi m + 1)] nready m p"

text \<open>One round of the loop; \<open>sel\<close> is a failure of \<^verbatim>\<open>select\<close> or the descriptors with input.\<close>

definition sel_turn ::
    "nat \<Rightarrow> (int \<Rightarrow> errno + unit) \<Rightarrow> int \<Rightarrow> errno + (int \<Rightarrow> bool) \<Rightarrow> 'a sel_mux_scheme \<Rightarrow> 'p proc_scheme
     \<Rightarrow> ('a sel_mux_scheme, 'p proc_scheme) turn" where
  "sel_turn fdsz cls listenfd sel m p =
     (case Select (map_sum id (\<lambda>there. select_call listenfd there (maxfd m + 1) (allset m) m) sel) p of
        Inl r \<Rightarrow> stop_turn m r
      | Inr ((nready, rset), p1) \<Rightarrow>
          if listenfd \<in> rset then
            then_turn (sel_accept fdsz listenfd m p1) (\<lambda>m1 p2.
              if int nready - 1 \<le> 0 then (None, m1, p2)
              else sel_clients cls rset (int nready - 1) m1 p2)
          else sel_clients cls rset (int nready) m p1)"

fun sel_loop ::
    "nat \<Rightarrow> (int \<Rightarrow> errno + unit) \<Rightarrow> int \<Rightarrow> (errno + (int \<Rightarrow> bool)) list \<Rightarrow> 'a sel_mux_scheme \<Rightarrow> 'p proc_scheme
     \<Rightarrow> stop \<times> 'a sel_mux_scheme \<times> 'p proc_scheme" where
  "sel_loop fdsz cls listenfd [] m p = (Blocks, m, p)"
| "sel_loop fdsz cls listenfd (sel # sels) m p =
     (case sel_turn fdsz cls listenfd sel m p of
        (None, m1, p1) \<Rightarrow> sel_loop fdsz cls listenfd sels m1 p1
      | (Some x, m1, p1) \<Rightarrow> (x, m1, p1))"

definition sel_start :: "nat \<Rightarrow> int \<Rightarrow> (errno + conn) list \<Rightarrow> sel_mux" where
  "sel_start fdsz listenfd q =
     \<lparr>maxi = - 1, queue = q, conns = Map.empty, gone = [], client = replicate fdsz (- 1), maxfd = listenfd,
      allset = {listenfd}\<rparr>"

text \<open>\<open>q\<close> is what will arrive at the listening socket.\<close>

definition main_tcpservselect01 ::
    "nat \<Rightarrow> srv_kernel \<Rightarrow> (int \<Rightarrow> errno + unit) \<Rightarrow> (errno + (int \<Rightarrow> bool)) list \<Rightarrow> (errno + conn) list
     \<Rightarrow> 'p proc_scheme \<Rightarrow> stop \<times> sel_mux \<times> 'p proc_scheme" where
  "main_tcpservselect01 fdsz k cls sels q p =
     (let none = sel_start fdsz (- 1) q in
      proceed none (Socket (sk_socket k) p) (\<lambda>listenfd p.
      proceed none (Bind (sk_bind k) p) (\<lambda>_ p.
      proceed none (Listen (sk_listen k) (sk_listenq k) LISTENQ p) (\<lambda>_ p.
        case FD_SET fdsz listenfd {} of
          Inl f \<Rightarrow> (Undef f, none, p)
        | Inr s \<Rightarrow> sel_loop fdsz cls listenfd sels (sel_start fdsz listenfd q) p))))"

section \<open>The table, the set and the connections agree\<close>

definition sel_ok :: "nat \<Rightarrow> int \<Rightarrow> 'a sel_mux_scheme \<Rightarrow> bool" where
  "sel_ok fdsz l m \<longleftrightarrow> table_ok sel_fd 0 m \<and> length (client m) = fdsz \<and> - 1 \<le> maxi m \<and> maxi m < int fdsz
     \<and> (\<forall>i < fdsz. maxi m < int i \<longrightarrow> client m ! i < 0)
     \<and> allset m = insert l (dom (conns m)) \<and> (\<forall>f \<in> allset m. l \<le> f \<and> f \<le> maxfd m) \<and> maxfd m < int fdsz \<and> l \<notin> dom (conns m) \<and> all_back m"

lemma sel_fd_update:
  "i < length (client m) \<Longrightarrow> client m' = (client m)[i := f] \<Longrightarrow> sel_fd m' = (sel_fd m)(i := f)"
  by (rule ext) (simp add: sel_fd_def)

lemma sel_fd_cong: "client m' = client m \<Longrightarrow> sel_fd m' = sel_fd m"
  by (rule ext) (simp add: sel_fd_def)

text \<open>The three ways of a client: its bytes go back, it leaves, or the process ends.\<close>

lemma sel_client_cases:
  assumes "sel_client cls i fd m p = (x, m', p')" and "conns m fd = Some c"
  obtains (echo) d c2 where "x = None" "m' = m\<lparr>conns := (conns m)(fd \<mapsto> c2)\<rparr>" "stream (rq c) = d @ stream (rq c2)"
      "sent c2 = sent c @ d"
    | (leave) c1 where "x = None" "m' = m\<lparr>conns := (conns m)(fd := None), gone := gone m @ [(fd, c1)],
         allset := allset m - {fd}, client := (client m)[i := - 1]\<rparr>"
      "stream (rq c) = []" "stream (rq c1) = []" "sent c1 = sent c"
    | (waits) "x = Some Blocks" "m' = m"
    | (dies) "x = Some (Exits 1)"
proof (cases "Read MAXLINE c p")
  case (Inl r)
  then show thesis using assms that(3,4)
    by (cases r) (auto simp: sel_client_def stop_turn_def dest!: Read_stream(2))
next
  case (Inr r)
  then obtain d c1 p1 where r: "Read MAXLINE c p = Inr ((d, c1), p1)" by (cases r) auto
  then have rd: "stream (rq c) = d @ stream (rq c1)" "sent c1 = sent c" "d = [] \<Longrightarrow> stream (rq c1) = []"
    by (auto dest!: Read_stream(1) simp: MAXLINE_def)
  show thesis
  proof (cases "d = []")
    case True
    show thesis
    proof (cases "Close (cls fd) p1")
      case (Inl s)
      then show thesis using assms r True that(4)
        by (auto simp: sel_client_def stop_turn_eq Close_def or_die_def err_sys_def split: sum.splits)
    next
      case (Inr s)
      show thesis using assms r True rd Inr
        by (intro that(2) [of c1]) (auto simp: sel_client_def split: prod.splits)
    qed
  next
    case False
    obtain y c2 p2 where w: "Writen d c1 p1 = (y, c2, p2)" by (cases "Writen d c1 p1")
    show thesis
    proof (cases "y = Returns")
      case True
      then show thesis using assms r False rd w Writen_turn [OF w]
        by (intro that(1) [of c2 d]) (auto simp: sel_client_def)
    next
      case neq: False
      then show thesis using assms r False w Writen_turn [OF w] that(4) by (auto simp: sel_client_def)
    qed
  qed
qed

lemma sel_serves:
  assumes ok: "sel_ok fdsz l m" and i: "i \<in> used sel_fd 0 m" and fd: "sel_fd m i = fd"
    and b: "sel_client cls i fd m p = (None, m', p')"
  shows "client_served sel_fd i fd m m' \<and> sel_ok fdsz l m'"
proof -
  from ok i have len: "i < length (client m)" by (auto simp: sel_ok_def used_def)
  from ok i fd have "fd \<in> dom (conns m)" by (auto simp: sel_ok_def table_ok_def)
  then obtain c where c: "conns m fd = Some c" by auto
  have t: "table_ok sel_fd 0 m" using ok by (simp add: sel_ok_def)
  from b c show ?thesis
  proof (cases rule: sel_client_cases)
    case (echo d c2)
    then have s: "client_served sel_fd i fd m m'"
      using c sel_fd_cong [of m' m] by (auto simp: client_served_def account_def intro!: exI [of _ c2])
    have "insert fd (dom (conns m)) = dom (conns m)" using c by auto
    with s client_served_table [OF t i fd s] ok echo show ?thesis by (auto simp: sel_ok_def all_back_def)
  next
    case (leave c1)
    have f: "sel_fd m' = (sel_fd m)(i := - 1)" using leave(2) by (intro sel_fd_update [OF len]) simp
    with leave c have s: "client_served sel_fd i fd m m'" by (auto simp: client_served_def account_def intro!: exI [of _ c1])
    have "fd \<noteq> l" using c ok by (auto simp: sel_ok_def)
    with s client_served_table [OF t i fd s] ok leave len show ?thesis by (auto simp: sel_ok_def all_back_def nth_list_update)
  qed auto
qed

interpretation sel: echo_table sel_fd 0 "sel_hit rset" "sel_client cls" "sel_ok fdsz l" for rset cls fdsz l
proof (unfold_locales, goal_cases)
  case (1 m)
  then show ?case by (simp add: sel_ok_def)
next
  case (2 m i p m' p')
  then show ?case using sel_serves [OF 2(1,2) refl 2(3)] by (auto simp: sel_hit_def fun_eq_iff)
next
  case (3 m i p x m' p')
  from 3(1,2) have "sel_fd m i \<in> dom (conns m)" by (auto simp: sel_ok_def table_ok_def)
  then obtain c where "conns m (sel_fd m i) = Some c" by auto
  from 3(3) this show ?case by (cases rule: sel_client_cases) auto
qed

lemma sel_ok_fd:
  assumes "sel_ok fdsz l m"
  shows "conns m f = Some c \<Longrightarrow> l < f \<and> f \<le> maxfd m" "l \<le> maxfd m" "maxfd m < int fdsz"
proof -
  have a: "\<And>f. f \<in> insert l (dom (conns m)) \<Longrightarrow> l \<le> f \<and> f \<le> maxfd m" "l \<notin> dom (conns m)"
    using assms by (auto simp: sel_ok_def)
  show "l < f \<and> f \<le> maxfd m" if "conns m f = Some c"
    using a(1) [of f] a(2) that by (cases "f = l") (auto simp: domI)
  show "l \<le> maxfd m" using a(1) [of l] by simp
  show "maxfd m < int fdsz" using assms by (simp add: sel_ok_def)
qed

text \<open>The number of clients; the table has room whenever the set has.\<close>

lemma sel_ok_card:
  assumes "sel_ok fdsz l m" and "0 \<le> l"
  shows "l + int (card (dom (conns m))) < int fdsz" and "card (dom (conns m)) \<le> length (client m)"
proof -
  note fd = sel_ok_fd [OF assms(1)]
  have "dom (conns m) \<subseteq> {l + 1..int fdsz - 1}" using fd(1,3) by fastforce
  then have "card (dom (conns m)) \<le> card {l + 1..int fdsz - 1}" by (rule card_mono [OF finite_atLeastAtMost_int])
  moreover have "l < int fdsz" using fd(2,3) by simp
  ultimately show "l + int (card (dom (conns m))) < int fdsz" using assms(2) by auto
  with assms show "card (dom (conns m)) \<le> length (client m)" by (simp add: sel_ok_def)
qed

lemma sel_slot:
  assumes "sel_ok fdsz l m" and "0 \<le> l" and "i = length (takeWhile (\<lambda>f. \<not> f < 0) (client m))"
  shows "i < fdsz" "int i \<le> maxi m + 1" "i \<notin> used sel_fd 0 m"
proof -
  have len: "length (client m) = fdsz" "maxi m < int fdsz" using assms(1) by (auto simp: sel_ok_def)
  have free: "client m ! j < 0" if "j < fdsz" "maxi m < int j" for j using that assms(1) by (simp add: sel_ok_def)
  have below: "0 \<le> client m ! j" if "j < i" for j
    using that assms(3) nth_mem [of j "takeWhile (\<lambda>f. \<not> f < 0) (client m)"]
    by (auto simp: takeWhile_nth dest: set_takeWhileD)
  show le: "int i \<le> maxi m + 1"
  proof (rule ccontr)
    assume "\<not> int i \<le> maxi m + 1"
    moreover have "i \<le> fdsz" using assms(3) len(1) length_takeWhile_le [of "\<lambda>f. \<not> f < 0" "client m"] by simp
    moreover have "- 1 \<le> maxi m" using assms(1) by (simp add: sel_ok_def)
    ultimately have "nat (maxi m + 1) < i" "nat (maxi m + 1) < fdsz" by auto
    with below [of "nat (maxi m + 1)"] free [of "nat (maxi m + 1)"] \<open>- 1 \<le> maxi m\<close> show False by simp
  qed
  show "i < fdsz"
  proof (rule ccontr)
    assume n: "\<not> i < fdsz"
    have "{..<fdsz} \<subseteq> used sel_fd 0 m"
    proof
      fix j assume j: "j \<in> {..<fdsz}"
      with n below have "0 \<le> client m ! j" by simp
      moreover with j free [of j] have "int j \<le> maxi m" by (cases "maxi m < int j") auto
      ultimately show "j \<in> used sel_fd 0 m" by (simp add: used_def sel_fd_def)
    qed
    then have "fdsz \<le> card (used sel_fd 0 m)" using card_mono [of "used sel_fd 0 m" "{..<fdsz}"] by simp
    moreover have "card (dom (conns m)) = card (used sel_fd 0 m)"
      using assms(1) by (intro table_ok_card) (simp add: sel_ok_def)
    ultimately show False using sel_ok_card(1) [OF assms(1,2)] assms(2) by simp
  qed
  then have "i < length (client m)" using len by simp
  then have "client m ! i < 0" using assms(3) nth_length_takeWhile [of "\<lambda>f. \<not> f < 0" "client m"] by simp
  then show "i \<notin> used sel_fd 0 m" by (simp add: used_def sel_fd_def)
qed

lemma sel_accept_cases:
  assumes ok: "sel_ok fdsz l m" and l: "0 \<le> l" and a: "sel_accept fdsz l m p = (x, m', p')"
  obtains (admitted) c q where "x = None" "Accept (queue m) p = Inr ((c, q), p')" "queue m' = q" "client_admitted sel_fd 0 m m'"
      "sel_ok fdsz l m'" "gone m' = gone m" "\<exists>f. f \<notin> insert l (dom (conns m)) \<and> conns m' = (conns m)(f \<mapsto> c)"
    | (overrun) "x = Some (Undef Overrun)" "int fdsz \<le> l + 1 + int (card (dom (conns m)))"
        "card (dom (conns m')) = Suc (card (dom (conns m)))"
    | (waits) "x = Some Blocks" "m' = m" "\<And>c q. queue m \<noteq> Inr c # q"
    | (dies) "x = Some (Exits 1)" "\<And>c q. queue m \<noteq> Inr c # q"
proof (cases "Accept (queue m) p")
  case (Inl r)
  then have "queue m \<noteq> Inr c # q" for c q by auto
  with Inl a that(3,4) show thesis by (cases r) (auto simp: sel_accept_def stop_turn_def dest!: Accept_arrived(2))
next
  case (Inr r)
  then obtain c q p1 where acc: "Accept (queue m) p = Inr ((c, q), p1)" by (cases r) auto
  let ?fd = "lowest_free l (length (client m)) (conns m)"
  let ?i = "length (takeWhile (\<lambda>f. \<not> f < 0) (client m))"
  note i = sel_slot [OF ok l refl]
  have t: "table_ok sel_fd 0 m" and len: "length (client m) = fdsz" using ok by (auto simp: sel_ok_def)
  note fd = lowest_free_fresh [OF table_ok_finite [OF t] sel_ok_card(2) [OF ok l], of l]
  have above: "l < ?fd" by (rule lowest_free_above)
  show thesis
  proof (cases "?fd < int fdsz")
    case False
    then have "x = Some (Undef Overrun)" "conns m' = (conns m)(?fd \<mapsto> c)"
      using a acc i(1) by (auto simp: sel_accept_def FD_SET_def Let_def)
    with False fd table_ok_finite [OF t] show thesis by (intro that(2)) (auto simp: domIff)
  next
    case True
    define m2 where "m2 = m\<lparr>queue := q, conns := (conns m)(?fd \<mapsto> c), client := (client m)[?i := ?fd],
      allset := insert ?fd (allset m), maxfd := (if maxfd m < ?fd then ?fd else maxfd m),
      maxi := (if maxi m < int ?i then int ?i else maxi m)\<rparr>"
    have "sel_accept fdsz l m p = (None, m2, p1)"
      using acc i(1) True above l by (simp add: sel_accept_def FD_SET_def Let_def m2_def cong: if_cong)
    with a have e: "x = None" "m' = m2" "p' = p1" by auto
    have f: "sel_fd m2 = (sel_fd m)(?i := ?fd)" using i(1) len by (intro sel_fd_update) (simp_all add: m2_def)
    have mx: "maxi m2 = max (maxi m) (int ?i)" by (auto simp: m2_def max_def)
    have ad: "client_admitted sel_fd 0 m m2"
      unfolding client_admitted_def
      by (rule exI [of _ ?i], rule exI [of _ ?fd], rule exI [of _ c])
        (use i f mx fd(1) above l Accept_arrived(1) [OF acc] in \<open>auto simp: m2_def\<close>)
    from client_admitted_table [OF t ad] have t2: "table_ok sel_fd 0 m2" ..
    note bd = sel_ok_fd(1) [OF ok]
    have "sel_ok fdsz l m2"
      using ok t2 i(1,2) above True unfolding sel_ok_def
      by (auto simp: m2_def all_back_def nth_list_update dest: bd split: if_splits)
    with e ad fd(1) above acc show thesis by (intro that(1)) (auto simp: m2_def intro!: exI [of _ ?fd])
  qed
qed

section \<open>Rounds\<close>

definition sel_kept :: "nat \<Rightarrow> int \<Rightarrow> 'a sel_mux_scheme \<Rightarrow> stop option \<Rightarrow> 'a sel_mux_scheme \<Rightarrow> bool" where
  "sel_kept fdsz l m x m' \<longleftrightarrow> (x = None \<or> x = Some Blocks \<longrightarrow> sel_ok fdsz l m' \<and> accounts m' = accounts m)
     \<and> (x = Some (Undef Overrun) \<longrightarrow> int fdsz \<le> l + int (card (dom (conns m'))))
     \<and> x \<in> {None, Some Blocks, Some (Exits 1), Some (Undef Overrun)}"

lemma sel_clients_kept:
  assumes "sel_clients cls rset n m p = (x, m', p')" and "sel_ok fdsz l m"
  shows "sel_kept fdsz l m x m'"
proof -
  have "\<forall>i \<in> set [0..<nat (maxi m + 1)]. 0 \<le> i \<and> int i \<le> maxi m" by auto
  from sel.entries_keep [OF assms(1) [unfolded sel_clients_def] assms(2) this] show ?thesis
    by (auto simp: sel_kept_def)
qed

lemma sel_kept_trans:
  "sel_kept fdsz l m None m1 \<Longrightarrow> sel_kept fdsz l m1 x m' \<Longrightarrow> sel_kept fdsz l m x m'"
  by (auto simp: sel_kept_def)

lemma sel_accept_kept:
  assumes "sel_accept fdsz l m p = (x, m', p')" and "sel_ok fdsz l m" and "0 \<le> l"
  shows "sel_kept fdsz l m x m'"
proof -
  have t: "table_ok sel_fd 0 m" using assms(2) by (simp add: sel_ok_def)
  from assms(2,3,1) show ?thesis
  proof (cases rule: sel_accept_cases)
    case (admitted c q)
    with client_admitted_table [OF t admitted(4)] show ?thesis by (simp add: sel_kept_def)
  qed (use assms(2) in \<open>auto simp: sel_kept_def\<close>)
qed

lemma sel_turn_kept:
  assumes "sel_turn fdsz cls l sel m p = (x, m', p')" and "sel_ok fdsz l m" and "0 \<le> l"
  shows "sel_kept fdsz l m x m'"
proof (cases sel)
  case (Inl e)
  then show ?thesis using assms
    by (auto simp: sel_turn_def Select_def or_die_def err_sys_def stop_turn_def sel_kept_def)
next
  case (Inr there)
  obtain n rset where r: "select_call l there (maxfd m + 1) (allset m) m = (n, rset)"
    by (cases "select_call l there (maxfd m + 1) (allset m) m")
  show ?thesis
  proof (cases "l \<in> rset")
    case False
    then show ?thesis using assms Inr r by (auto simp: sel_turn_def Select_def intro: sel_clients_kept)
  next
    case True
    obtain y m1 p1 where a: "sel_accept fdsz l m p = (y, m1, p1)" by (cases "sel_accept fdsz l m p")
    note k = sel_accept_kept [OF this assms(2,3)]
    show ?thesis
    proof (cases y)
      case None
      with k have "sel_ok fdsz l m1" by (simp add: sel_kept_def)
      then show ?thesis using assms(1) Inr r True a None k
        by (auto simp: sel_turn_def Select_def split: if_splits dest: sel_clients_kept sel_kept_trans)
    next
      case (Some z)
      then show ?thesis using assms(1) Inr r True a k by (simp add: sel_turn_def Select_def)
    qed
  qed
qed

lemma sel_loop_kept:
  "sel_loop fdsz cls l sels m p = (x, m', p') \<Longrightarrow> sel_ok fdsz l m \<Longrightarrow> 0 \<le> l \<Longrightarrow> sel_kept fdsz l m (Some x) m'"
proof (induction fdsz cls l sels m p rule: sel_loop.induct)
  case (2 fdsz cls l sel sels m p)
  obtain y m1 p1 where t: "sel_turn fdsz cls l sel m p = (y, m1, p1)" by (cases "sel_turn fdsz cls l sel m p")
  note k = sel_turn_kept [OF this 2(3,4)]
  show ?case
  proof (cases y)
    case None
    with 2 t k show ?thesis by (auto simp: sel_kept_def)
  next
    case (Some z)
    with 2 t k show ?thesis by simp
  qed
qed (simp add: sel_kept_def)

lemma sel_ok_start: "0 \<le> l \<Longrightarrow> l < int fdsz \<Longrightarrow> sel_ok fdsz l (sel_start fdsz l q)"
  by (auto simp: sel_ok_def sel_start_def table_ok_def used_def all_back_def)

lemma accounts_start: "accounts (sel_start fdsz l q) = mset (map account (arrived q))"
  by (simp add: accounts_def sel_start_def)

section \<open>Rounds when nothing fails\<close>

lemma sel_client_calm:
  assumes "conns m fd = Some c" and "rq c \<noteq> []" and "calm_mux {Fin} m" and "finite (dom (conns m))"
  shows "\<exists>m' p'. sel_client (\<lambda>_. Inr ()) i fd m p = (None, m', p') \<and> calm_mux {Fin} m' \<and> work m' < work m"
proof -
  from calm_mux_conns [OF assms(3,1)] have c: "calm_script {Fin} (rq c)" "\<forall>e \<in> set (wq c). patient e"
    by (auto simp: calm_conn_def)
  from calm_script_read [OF c(1) _ assms(2), of MAXLINE] show ?thesis
  proof
    assume "\<exists>d es'. sys_read MAXLINE (rq c) = (Got d, es') \<and> calm_script {Fin} es' \<and> ev_size es' < ev_size (rq c) \<and> d \<noteq> []"
    then obtain d es' where r: "sys_read MAXLINE (rq c) = (Got d, es')" "calm_script {Fin} es'" "ev_size es' < ev_size (rq c)" "d \<noteq> []"
      by blast
    obtain c2 p2 where w: "Writen d (c\<lparr>rq := es'\<rparr>) p = (Returns, c2, p2)" "rq c2 = es'" "\<forall>e \<in> set (wq c2). patient e"
      using Writen_calm [of "c\<lparr>rq := es'\<rparr>" d p] c(2) by auto
    let ?m = "m\<lparr>conns := (conns m)(fd \<mapsto> c2)\<rparr>"
    have "sel_client (\<lambda>_. Inr ()) i fd m p = (None, ?m, p2)"
      using assms(1) r w(1) by (simp add: sel_client_def Read_def conn_read_def)
    moreover have "calm_mux {Fin} ?m" using calm_mux_update [OF assms(3), of ?m fd "Some c2"] w r by (simp add: calm_conn_def)
    moreover have "work ?m < work m" using work_less [OF assms(4,1), of ?m c2] w r by simp
    ultimately show ?thesis by blast
  next
    assume "\<exists>e \<in> {Fin}. rq c = [e] \<and> (\<forall>s. e \<noteq> Seg s)"
    then have r: "rq c = [Fin]" by simp
    obtain m' p' where e: "sel_client (\<lambda>_. Inr ()) i fd m p = (None, m', p')" "conns m' = (conns m)(fd := None)" "queue m' = queue m"
      "gone m' = gone m @ [(fd, c)]"
      using assms(1) r by (simp add: sel_client_def Read_def conn_read_def Close_def)
    moreover have "calm_mux {Fin} m'" using calm_mux_update [OF assms(3) e(3,2)] e(4) r by simp
    moreover have "work m' < work m" using work_less [OF assms(4,1) e(3)] e(2) r by simp
    ultimately show ?thesis by blast
  qed (simp add: MAXLINE_def)
qed

interpretation sel_calm: calm_table sel_fd 0 "sel_hit rset" "sel_client (\<lambda>_. Inr ())" "sel_ok fdsz l" "{Fin}" for rset fdsz l
proof (unfold_locales, goal_cases)
  case (1 m i c p)
  then have "finite (dom (conns m))" by (intro table_ok_finite [of sel_fd 0]) (simp add: sel_ok_def)
  with sel_client_calm [OF 1(4,5,3)] show ?case by blast
qed

text \<open>There is room for all that will come, and everything in the set has input.\<close>

definition sel_room :: "nat \<Rightarrow> int \<Rightarrow> 'a mux_scheme \<Rightarrow> bool" where
  "sel_room fdsz l m \<longleftrightarrow> l + 1 + int (card (dom (conns m))) + int (length (queue m)) \<le> int fdsz"

definition ready_set :: "int \<Rightarrow> int set \<Rightarrow> 'a mux_scheme \<Rightarrow> bool" where
  "ready_set l rset m \<longleftrightarrow> (\<forall>f \<in> rset - {l}. \<exists>c. conns m f = Some c \<and> rq c \<noteq> [])"

lemma sel_clients_calm:
  assumes ok: "sel_ok fdsz l m" and calm: "calm_mux {Fin} m" and rs: "ready_set l rset m" and room: "sel_room fdsz l m"
  shows "\<exists>m' p'. sel_clients (\<lambda>_. Inr ()) rset n m p = (None, m', p') \<and> sel_ok fdsz l m' \<and> calm_mux {Fin} m' \<and> sel_room fdsz l m'
    \<and> work m' \<le> work m \<and> (rset - {l} \<noteq> {} \<longrightarrow> work m' < work m)"
proof -
  let ?is = "[0..<nat (maxi m + 1)]"
  have d: "dom (conns m) = sel_fd m ` used sel_fd 0 m" "l \<notin> dom (conns m)" "finite (dom (conns m))"
    using ok by (auto simp: sel_ok_def table_ok_def)
  have i: "\<forall>i \<in> set ?is. 0 \<le> i \<and> int i \<le> maxi m" by auto
  have w: "sel_calm.waiting m i" if "i \<in> set (sel_calm.hits rset m ?is)" for i
  proof -
    from that have h: "i \<in> used sel_fd 0 m" "sel_fd m i \<in> rset" by (auto simp: sel_calm.hits_def sel_hit_def used_def)
    with d have "sel_fd m i \<noteq> l" by auto
    with h rs show ?thesis by (auto simp: ready_set_def sel_calm.waiting_def)
  qed
  then have "\<forall>i \<in> set (take (max 1 (nat n)) (sel_calm.hits rset m ?is)). sel_calm.waiting m i"
    by (auto dest: in_set_takeD)
  from sel_calm.entries_calm [OF ok calm _ i this, of p] obtain m' p' where r:
    "sel_clients (\<lambda>_. Inr ()) rset n m p = (None, m', p')" "sel_ok fdsz l m'" "calm_mux {Fin} m'" "work m' \<le> work m"
    "sel_calm.hits rset m ?is \<noteq> [] \<longrightarrow> work m' < work m" "queue m' = queue m" "dom (conns m') \<subseteq> dom (conns m)"
    unfolding sel_clients_def by (metis distinct_upt)
  have "work m' < work m" if "rset - {l} \<noteq> {}"
  proof -
    from that obtain f where f: "f \<in> rset" "f \<noteq> l" by auto
    with rs have "f \<in> dom (conns m)" by (auto simp: ready_set_def)
    with d obtain i where "i \<in> used sel_fd 0 m" "sel_fd m i = f" by auto
    with f have "i \<in> set (sel_calm.hits rset m ?is)" by (auto simp: sel_calm.hits_def sel_hit_def used_def)
    with r(5) show ?thesis by auto
  qed
  moreover have "sel_room fdsz l m'" using room r(6) card_mono [OF d(3) r(7)] by (simp add: sel_room_def)
  ultimately show ?thesis using r by blast
qed

lemma sel_accept_calm:
  assumes ok: "sel_ok fdsz l m" and l: "0 \<le> l" and calm: "calm_mux {Fin} m" and room: "sel_room fdsz l m" and "queue m \<noteq> []"
  shows "\<exists>m' p'. sel_accept fdsz l m p = (None, m', p') \<and> sel_ok fdsz l m' \<and> calm_mux {Fin} m' \<and> sel_room fdsz l m'
    \<and> work m = Suc (work m') \<and> (\<forall>rset. rset \<subseteq> insert l (dom (conns m)) \<longrightarrow> ready_set l rset m \<longrightarrow> ready_set l rset m')"
proof -
  obtain c q where q: "queue m = Inr c # q" "calm_conn {Fin} c" using assms(3,5) by (cases "queue m") (auto simp: calm_mux_def)
  have fin: "finite (dom (conns m))" using ok by (intro table_ok_finite [of sel_fd 0]) (simp add: sel_ok_def)
  obtain x m' p' where a: "sel_accept fdsz l m p = (x, m', p')" by (cases "sel_accept fdsz l m p")
  from ok l this show ?thesis
  proof (cases rule: sel_accept_cases)
    case (admitted c' q')
    then obtain f where f: "f \<notin> insert l (dom (conns m))" "conns m' = (conns m)(f \<mapsto> c)" "queue m' = q" "gone m' = gone m"
      using q(1) by auto
    then have "calm_mux {Fin} m'" using calm q by (auto simp: calm_mux_def ran_def all_back_def split: if_splits)
    moreover have "sel_room fdsz l m'" using room f q(1) fin by (simp add: sel_room_def)
    moreover have "work m = Suc (work m')" using f q(1) fin by (intro work_admitted [of _ f _ c]) auto
    moreover have "ready_set l rset m'" if "rset \<subseteq> insert l (dom (conns m))" "ready_set l rset m" for rset
      using that f by (auto simp: ready_set_def)
    ultimately show ?thesis using a admitted by blast
  qed (use room q in \<open>auto simp: sel_room_def\<close>)
qed

lemma select_call_set:
  assumes "select_call l there (maxfd m + 1) (allset m) m = (n, rset)" and "sel_ok fdsz l m" and "0 \<le> l" and "calm_mux {Fin} m"
  shows "rset = {f \<in> insert l (dom (conns m)). there f \<and> has_input l m f}" "ready_set l rset m"
    "n = card rset"
proof -
  let ?fs = "filter (\<lambda>f. f \<in> allset m \<and> there f \<and> has_input l m f) [0..maxfd m + 1 - 1]"
  have a: "allset m = insert l (dom (conns m))" using assms(2) by (simp add: sel_ok_def)
  have r: "n = length ?fs" "rset = set ?fs" using assms(1) by (simp_all add: select_call_def Let_def)
  show s: "rset = {f \<in> insert l (dom (conns m)). there f \<and> has_input l m f}"
    using r(2) a sel_ok_fd(1,2) [OF assms(2)] assms(3) by force
  show "n = card rset" using r distinct_card [of ?fs] by simp
  show "ready_set l rset m"
  proof (unfold ready_set_def, intro ballI)
    fix f assume "f \<in> rset - {l}"
    then have "f \<in> dom (conns m)" "has_input l m f" "f \<noteq> l" using s by auto
    then obtain c where "conns m f = Some c" "readable c" by (auto simp: has_input_def)
    with readable_conn [OF assms(4) this(1)] show "\<exists>c. conns m f = Some c \<and> rq c \<noteq> []" by blast
  qed
qed

lemma sel_turn_calm:
  assumes "sel_ok fdsz l m" and "0 \<le> l" and "calm_mux {Fin} m" and "sel_room fdsz l m"
  shows "\<exists>m' p'. sel_turn fdsz (\<lambda>_. Inr ()) l (Inr there) m p = (None, m', p') \<and> sel_ok fdsz l m' \<and> calm_mux {Fin} m'
    \<and> sel_room fdsz l m' \<and> work m' \<le> work m \<and> (there = (\<lambda>_. True) \<and> 0 < work m \<longrightarrow> work m' < work m)"
proof -
  obtain n rset where r: "select_call l there (maxfd m + 1) (allset m) m = (n, rset)"
    by (cases "select_call l there (maxfd m + 1) (allset m) m")
  note s = select_call_set [OF r assms(1-3)]
  show ?thesis
  proof (cases "l \<in> rset")
    case False
    from sel_clients_calm [OF assms(1,3) s(2) assms(4)] obtain m' p' where c:
      "sel_clients (\<lambda>_. Inr ()) rset (int n) m p = (None, m', p')" "sel_ok fdsz l m'" "calm_mux {Fin} m'" "sel_room fdsz l m'"
      "work m' \<le> work m" "rset - {l} \<noteq> {} \<longrightarrow> work m' < work m" by blast
    have "rset - {l} \<noteq> {}" if "there = (\<lambda>_. True)" "0 < work m"
    proof -
      have "queue m = []" using False s(1) that(1) by (auto simp: has_input_def)
      with work_left [OF assms(3) that(2)] assms(1) obtain f c where fc: "conns m f = Some c" "rq c \<noteq> []"
        by (auto simp: sel_ok_def dest: table_ok_finite)
      have "f \<noteq> l" using sel_ok_fd(1) [OF assms(1) fc(1)] by simp
      moreover have "readable c" using readable_conn [OF assms(3) fc(1)] fc(2) by simp
      ultimately have "f \<in> rset - {l}" using s(1) that(1) fc(1) by (auto simp: has_input_def)
      then show ?thesis by auto
    qed
    with c False r show ?thesis by (auto simp: sel_turn_def Select_def)
  next
    case True
    then have "queue m \<noteq> []" using s(1) by (auto simp: has_input_def)
    moreover have "rset \<subseteq> insert l (dom (conns m))" using s(1) by blast
    ultimately obtain m1 p1 where a: "sel_accept fdsz l m p = (None, m1, p1)" "sel_ok fdsz l m1"
      "calm_mux {Fin} m1" "sel_room fdsz l m1" "work m = Suc (work m1)" "ready_set l rset m1"
      using sel_accept_calm [OF assms, of p] s(2) by metis
    from sel_clients_calm [OF a(2,3,6,4), of "int n - 1" p1] obtain m' p' where
      "sel_clients (\<lambda>_. Inr ()) rset (int n - 1) m1 p1 = (None, m', p')" "sel_ok fdsz l m'" "calm_mux {Fin} m'" "sel_room fdsz l m'"
      "work m' \<le> work m1" by blast
    with True r a show ?thesis by (auto simp: sel_turn_def Select_def)
  qed
qed

section \<open>Runs\<close>

lemma sel_loop_calm:
  assumes "sel_ok fdsz l m" and "0 \<le> l" and "calm_mux {Fin} m" and "sel_room fdsz l m"
    and "work m \<le> length (filter (\<lambda>t. t = (\<lambda>_. True)) ts)"
  shows "\<exists>m' p'. sel_loop fdsz (\<lambda>_. Inr ()) l (map Inr ts) m p = (Blocks, m', p') \<and> sel_ok fdsz l m' \<and> calm_mux {Fin} m' \<and> work m' = 0"
  using assms
proof (induction ts arbitrary: m p)
  case (Cons t ts)
  from sel_turn_calm [OF Cons.prems(1-4), of t p] obtain m1 p1 where
    t: "sel_turn fdsz (\<lambda>_. Inr ()) l (Inr t) m p = (None, m1, p1)" "sel_ok fdsz l m1" "calm_mux {Fin} m1" "sel_room fdsz l m1"
    "work m1 \<le> work m" "t = (\<lambda>_. True) \<and> 0 < work m \<longrightarrow> work m1 < work m" by blast
  have "work m1 \<le> length (filter (\<lambda>t. t = (\<lambda>_. True)) ts)"
    using t(5,6) Cons.prems(5) by (cases "t = (\<lambda>_. True)") auto
  from Cons.IH [OF t(2) Cons.prems(2) t(3,4) this] t(1) show ?case by simp
qed simp

lemma sel_overruns:
  assumes "sel_ok fdsz l m" and "0 \<le> l" and "queue m = map Inr cs" and "int fdsz \<le> l + int (card (dom (conns m)) + length cs)"
    and "int fdsz \<le> l + int (card (dom (conns m)) + n)"
  shows "\<exists>m' p'. sel_loop fdsz cls l (replicate n (Inr (\<lambda>f. f = l))) m p = (Undef Overrun, m', p')"
  using assms
proof (induction n arbitrary: m cs p)
  case 0
  then show ?case using sel_ok_card(1) [OF 0(1,2)] by simp
next
  case (Suc n)
  have "cs \<noteq> []" using Suc.prems(4) sel_ok_card(1) [OF Suc.prems(1,2)] by auto
  then obtain c cs' where cs: "cs = c # cs'" by (cases cs) auto
  have set: "allset m = insert l (dom (conns m))" using Suc.prems(1) by (simp add: sel_ok_def)
  have mx: "l \<le> maxfd m" by (rule sel_ok_fd(2) [OF Suc.prems(1)])
  let ?fs = "filter (\<lambda>f. f \<in> allset m \<and> f = l \<and> has_input l m f) [0..maxfd m + 1 - 1]"
  have fs: "set ?fs = {l}" using set mx Suc.prems(2,3) cs by (auto simp: has_input_def)
  then have "length ?fs = 1" using distinct_card [of ?fs] by simp
  with fs have call: "select_call l (\<lambda>f. f = l) (maxfd m + 1) (allset m) m = (1, {l})"
    by (simp add: select_call_def Let_def)
  obtain x m1 p1 where a: "sel_accept fdsz l m p = (x, m1, p1)" by (cases "sel_accept fdsz l m p")
  then have turn: "sel_turn fdsz cls l (Inr (\<lambda>f. f = l)) m p = (x, m1, p1)"
    by (cases x) (simp_all add: sel_turn_def Select_def call)
  from Suc.prems(1,2) a show ?case
  proof (cases rule: sel_accept_cases)
    case (admitted c' q)
    then have q: "queue m1 = map Inr cs'" using Suc.prems(3) cs by auto
    from admitted(7) obtain f where f: "f \<notin> dom (conns m)" "conns m1 = (conns m)(f \<mapsto> c')" by auto
    have "finite (dom (conns m))" using Suc.prems(1) by (intro table_ok_finite [of sel_fd 0]) (simp add: sel_ok_def)
    with f have "card (dom (conns m1)) = Suc (card (dom (conns m)))" by simp
    with Suc.IH [OF admitted(5) Suc.prems(2) q, of p1] Suc.prems(4,5) cs turn admitted(1) show ?thesis by simp
  next
    case overrun
    with turn show ?thesis by simp
  qed (use Suc.prems(3) cs in auto)
qed

section \<open>Properties\<close>

text \<open>C23: The server with \<^verbatim>\<open>select\<close> serves all its clients in one process: as long as descriptors fit into an
  \<^verbatim>\<open>fd_set\<close>, and when no call fails, it never stops, admits every client that arrives, sends each one all
  it sends, whatever the others do, also when some of them stay connected in silence, and closes the
  connections that end; \<^verbatim>\<open>select\<close> may report input late, but has to report all there is often enough.\<close>

theorem select_server_serves_all:
  assumes "sk_socket k = Inr l" and "0 \<le> l" and "sk_bind k = Inr ()" and "\<And>b. sk_listen k b = Inr ()"
    and "\<forall>c \<in> set cs. calm_conn {Fin} c \<and> sent c = []" and "l + 1 + int (length cs) \<le> int fdsz" and "l < int fdsz"
    and "sum_list (map (\<lambda>c. Suc (ev_size (rq c))) cs) \<le> length (filter (\<lambda>t. t = (\<lambda>_. True)) ts)"
  shows "\<exists>m p'. main_tcpservselect01 fdsz k (\<lambda>_. Inr ()) (map Inr ts) (map Inr cs) p = (Blocks, m, p')
    \<and> queue m = [] \<and> (\<forall>c \<in> ran (conns m). rq c = []) \<and> sent_back m = mset (map (\<lambda>c. stream (rq c)) cs)"
proof -
  let ?m = "sel_start fdsz l (map Inr cs)"
  have arr: "arrived (map Inr cs :: (errno + conn) list) = cs" for cs by (induction cs) auto
  have ok: "sel_ok fdsz l ?m" using assms(2,7) by (rule sel_ok_start)
  have "calm_mux {Fin} ?m" using assms(5) by (auto simp: calm_mux_def all_back_def sel_start_def)
  moreover have "sel_room fdsz l ?m" using assms(6) by (simp add: sel_room_def sel_start_def)
  moreover have "work ?m \<le> length (filter (\<lambda>t. t = (\<lambda>_. True)) ts)"
    using assms(8) by (simp add: work_def sel_start_def arr conn_work_def)
  ultimately obtain m p' where r: "sel_loop fdsz (\<lambda>_. Inr ()) l (map Inr ts) ?m p = (Blocks, m, p')" "sel_ok fdsz l m"
    "calm_mux {Fin} m" "work m = 0" using sel_loop_calm [OF ok assms(2)] by blast
  have fin: "finite (dom (conns m))" using r(2) by (auto simp: sel_ok_def dest: table_ok_finite)
  have main: "main_tcpservselect01 fdsz k (\<lambda>_. Inr ()) (map Inr ts) (map Inr cs) p = (Blocks, m, p')"
    using assms(1-4,7) r(1)
    by (simp add: main_tcpservselect01_def Let_def Socket_def Bind_def Listen_def FD_SET_def)
  have "accounts m = accounts ?m" using sel_loop_kept [OF r(1) ok assms(2)] by (simp add: sel_kept_def)
  also have "\<dots> = mset (map (\<lambda>c. stream (rq c)) cs)"
    unfolding accounts_start arr using assms(5) by (intro arg_cong [of _ _ mset]) (auto simp: account_def)
  finally show ?thesis using main idle_accounts [OF r(4,3) fin] by (auto simp: ran_def)
qed

theorem select_server_serves_all_witness:
  "\<exists>m p'. main_tcpservselect01 6 (granted_srv 3) (\<lambda>_. Inr ()) (map Inr (replicate 8 (\<lambda>_. True)))
      (map Inr [quiet_conn [Seg ''ab'', Fin] [], quiet_conn [Seg ''c''] []]) idle_proc = (Blocks, m, p')
    \<and> queue m = [] \<and> sent_back m = {#''ab'', ''c''#}"
proof -
  let ?cs = "[quiet_conn [Seg ''ab'', Fin] [], quiet_conn [Seg ''c''] []]"
  have "\<exists>m p'. main_tcpservselect01 6 (granted_srv 3) (\<lambda>_. Inr ()) (map Inr (replicate 8 (\<lambda>_. True))) (map Inr ?cs) idle_proc = (Blocks, m, p')
    \<and> queue m = [] \<and> (\<forall>c \<in> ran (conns m). rq c = []) \<and> sent_back m = mset (map (\<lambda>c. stream (rq c)) ?cs)"
    by (rule select_server_serves_all [where l = 3])
      (simp_all add: granted_srv_def quiet_conn_def calm_conn_def)
  then show ?thesis by (auto simp: quiet_conn_def)
qed

text \<open>Whatever \<^verbatim>\<open>select\<close>, the clients and the other calls do, the server with \<^verbatim>\<open>select\<close> either goes on or
  ends through an error function; as long as it goes on, no client gets anything but its own bytes, in
  order, and a connection is closed only when all of them are back.  Its code is undefined only when it
  holds so many connections that the next descriptor does not fit into an \<^verbatim>\<open>fd_set\<close>.\<close>

theorem select_server_keeps_bytes:
  assumes "sk_socket k = Inr l" and "0 \<le> l" and "l < int fdsz"
    and "main_tcpservselect01 fdsz k cls sels q p = (x, m, p')"
  shows "x = Blocks \<and> accounts m = mset (map account (arrived q)) \<and> (\<forall>c \<in> snd ` set (gone m). account c = sent c)
    \<or> x = Exits 1 \<or> x = Undef Overrun \<and> int fdsz \<le> l + int (card (dom (conns m)))"
proof (cases "x = Exits 1")
  case False
  then have "sel_loop fdsz cls l sels (sel_start fdsz l q) p = (x, m, p')"
    using assms by (auto simp: main_tcpservselect01_def Let_def Socket_def Bind_def Listen_def FD_SET_def or_die_def
        err_sys_def split: sum.splits)
  from sel_loop_kept [OF this sel_ok_start [OF assms(2,3)] assms(2)] False show ?thesis
    by (auto simp: sel_kept_def accounts_start sel_ok_def all_back_def account_def)
qed simp

theorem select_server_keeps_bytes_witness:
  "\<exists>x m p'. main_tcpservselect01 6 (granted_srv 3) (\<lambda>_. Inr ()) [Inl EINTR] [Inr (quiet_conn [] [])] idle_proc = (x, m, p')
    \<and> (x = Blocks \<or> x = Exits 1 \<or> x = Undef Overrun)"
proof -
  let ?r = "main_tcpservselect01 6 (granted_srv 3) (\<lambda>_. Inr ()) [Inl EINTR] [Inr (quiet_conn [] [])] idle_proc"
  obtain x m p' where r: "?r = (x, m, p')" by (cases ?r)
  have "x = Blocks \<and> accounts m = mset (map account (arrived [Inr (quiet_conn [] []) :: errno + conn]))
      \<and> (\<forall>c \<in> snd ` set (gone m). account c = sent c)
    \<or> x = Exits 1 \<or> x = Undef Overrun \<and> int 6 \<le> 3 + int (card (dom (conns m)))"
    by (rule select_server_keeps_bytes [OF _ _ _ r]) (simp_all add: granted_srv_def)
  with r show ?thesis by blast
qed

text \<open>C39: The table has \<^verbatim>\<open>FD_SETSIZE\<close> entries, but the descriptors below \<^verbatim>\<open>FD_SETSIZE\<close> are used up earlier: the
  server never says that there are too many clients, it writes behind the \<^verbatim>\<open>fd_set\<close> for one of the clients
  the table still has room for.\<close>

theorem select_server_overruns_set:
  assumes "sk_socket k = Inr l" and "0 \<le> l" and "l < int fdsz" and "sk_bind k = Inr ()" and "\<And>b. sk_listen k b = Inr ()"
    and "int fdsz \<le> l + int (length cs)"
  shows "\<exists>m p'. main_tcpservselect01 fdsz k cls (replicate fdsz (Inr (\<lambda>f. f = l))) (map Inr cs) p = (Undef Overrun, m, p')"
proof -
  have "queue (sel_start fdsz l (map Inr cs)) = map Inr cs" by (simp add: sel_start_def)
  from sel_overruns [OF sel_ok_start [OF assms(2,3)] assms(2) this, of fdsz cls p] obtain m p' where
    "sel_loop fdsz cls l (replicate fdsz (Inr (\<lambda>f. f = l))) (sel_start fdsz l (map Inr cs)) p = (Undef Overrun, m, p')"
    using assms(2,6) by (auto simp: sel_start_def)
  then show ?thesis using assms(1-5)
    by (simp add: main_tcpservselect01_def Let_def Socket_def Bind_def Listen_def FD_SET_def)
qed

theorem select_server_overruns_set_witness:
  "\<exists>m p'. main_tcpservselect01 5 (granted_srv 3) (\<lambda>_. Inr ()) (replicate 5 (Inr (\<lambda>f. f = 3)))
      (map Inr [quiet_conn [] [], quiet_conn [] []]) idle_proc = (Undef Overrun, m, p')"
  by (rule select_server_overruns_set) (simp_all add: granted_srv_def)

end
