(* ===== verification/Unp_Mux_Poll.thy ===== *)
theory Unp_Mux_Poll
  imports Unp_Mux Netcalc_Poll_Server
begin

unbundle bit_operations_syntax

text \<open>
  The echo server that waits for its clients with \<^verbatim>\<open>poll\<close>
  (\<^verbatim>\<open>SampleCode/unpv13e/tcpcliserv/tcpservpoll01.c\<close>).  \<open>om\<close> is the system's \<^verbatim>\<open>OPEN_MAX\<close>, the length of the
  array given to \<^verbatim>\<open>poll\<close>; the array is on the stack, so it starts with arbitrary contents.
\<close>

section \<open>tcpservpoll01.c\<close>

definition POLLRDNORM :: "16 word" where "POLLRDNORM = 64"

record poll_mux = mux +
  pclient :: "pollfd list"

definition poll_fd :: "'a poll_mux_scheme \<Rightarrow> nat \<Rightarrow> int" where
  "poll_fd m i = pfd (pclient m ! i)"

text \<open>What \<^verbatim>\<open>poll\<close> reports for a descriptor: only what is there, in one of the forms of \<open>poll_word\<close>.\<close>

definition report :: "int \<Rightarrow> (int \<Rightarrow> 16 word option) \<Rightarrow> 'a mux_scheme \<Rightarrow> int \<Rightarrow> 16 word" where
  "report listenfd w m f =
     poll_word POLLRDNORM
       (if f = listenfd then (if queue m = [] then Quiet else Input)
        else (case conns m f of None \<Rightarrow> Quiet | Some c \<Rightarrow> pending_at (rq c))) (w f)"

definition poll_accept :: "nat \<Rightarrow> int \<Rightarrow> 'a poll_mux_scheme \<Rightarrow> 'p proc_scheme \<Rightarrow> ('a poll_mux_scheme, 'p proc_scheme) turn" where
  "poll_accept om listenfd m p =
     (case Accept (queue m) p of
        Inl r \<Rightarrow> stop_turn m r
      | Inr ((c, q), p1) \<Rightarrow>
          (let connfd = lowest_free listenfd (length (pclient m)) (conns m);
               i = 1 + length (takeWhile (\<lambda>e. \<not> pfd e < 0) (tl (pclient m)));
               m1 = m\<lparr>queue := q, conns := (conns m)(connfd \<mapsto> c)\<rparr> in
           if i = om then stop_turn m1 (err_quit ''too many clients'' p1)
           else
             (None, m1\<lparr>pclient := (pclient m1)[i := (pclient m1 ! i)\<lparr>pfd := connfd, events := POLLRDNORM\<rparr>],
                maxi := (if maxi m1 < int i then int i else maxi m1)\<rparr>, p1)))"

definition poll_close ::
    "(int \<Rightarrow> errno + unit) \<Rightarrow> nat \<Rightarrow> int \<Rightarrow> conn \<Rightarrow> 'a poll_mux_scheme \<Rightarrow> 'p proc_scheme \<Rightarrow> ('a poll_mux_scheme, 'p proc_scheme) turn" where
  "poll_close cls i sockfd c m p =
     (case Close (cls sockfd) p of
        Inl r \<Rightarrow> stop_turn m r
      | Inr (_, p1) \<Rightarrow>
          (None, m\<lparr>conns := (conns m)(sockfd := None), gone := gone m @ [(sockfd, c)],
             pclient := (pclient m)[i := (pclient m ! i)\<lparr>pfd := - 1\<rparr>]\<rparr>, p1))"

definition poll_client ::
    "(int \<Rightarrow> errno + unit) \<Rightarrow> ('a poll_mux_scheme, 'p proc_scheme) entry_body" where
  "poll_client cls i sockfd m p =
     (case conns m sockfd of
        None \<Rightarrow> stop_turn m (err_sys ''read error'' (p\<lparr>errnum := EBADF\<rparr>))
      | Some c \<Rightarrow>
          (case conn_read MAXLINE c of
             (RdFail e, c1) \<Rightarrow>
               (let p1 = p\<lparr>errnum := e\<rparr> in
                if e = ECONNRESET then poll_close cls i sockfd c1 m p1
                else stop_turn m (err_sys ''read error'' p1))
           | (RdWait, c1) \<Rightarrow> (Some Blocks, m, p)
           | (Eof, c1) \<Rightarrow> poll_close cls i sockfd c1 m p
           | (Got buf, c1) \<Rightarrow>
               (case Writen buf c1 p of
                  (x, c2, p1) \<Rightarrow> (if x = Returns then None else Some x, m\<lparr>conns := (conns m)(sockfd \<mapsto> c2)\<rparr>, p1))))"

definition poll_hit :: "'a poll_mux_scheme \<Rightarrow> nat \<Rightarrow> int \<Rightarrow> bool" where
  "poll_hit m i fd \<longleftrightarrow> revents (pclient m ! i) AND (POLLRDNORM OR POLLERR) \<noteq> 0"

definition poll_clients ::
    "(int \<Rightarrow> errno + unit) \<Rightarrow> int \<Rightarrow> 'a poll_mux_scheme \<Rightarrow> 'p proc_scheme \<Rightarrow> ('a poll_mux_scheme, 'p proc_scheme) turn" where
  "poll_clients cls nready m p = serve_entries poll_fd poll_hit (poll_client cls) [1..<nat (maxi m + 1)] nready m p"

definition poll_turn ::
    "nat \<Rightarrow> (int \<Rightarrow> errno + unit) \<Rightarrow> int \<Rightarrow> errno + (int \<Rightarrow> 16 word option) \<Rightarrow> 'a poll_mux_scheme \<Rightarrow> 'p proc_scheme
     \<Rightarrow> ('a poll_mux_scheme, 'p proc_scheme) turn" where
  "poll_turn om cls listenfd ev m p =
     (case Poll (map_sum id (\<lambda>w. poll_call (report listenfd w m) (nat (maxi m + 1)) (pclient m)) ev) p of
        Inl r \<Rightarrow> stop_turn m r
      | Inr ((nready, cl), p1) \<Rightarrow>
          (let m1 = m\<lparr>pclient := cl\<rparr> in
           if revents (cl ! 0) AND POLLRDNORM \<noteq> 0 then
             then_turn (poll_accept om listenfd m1 p1) (\<lambda>m2 p2.
               if nready - 1 \<le> 0 then (None, m2, p2)
               else poll_clients cls (nready - 1) m2 p2)
           else poll_clients cls nready m1 p1))"

fun poll_loop ::
    "nat \<Rightarrow> (int \<Rightarrow> errno + unit) \<Rightarrow> int \<Rightarrow> (errno + (int \<Rightarrow> 16 word option)) list \<Rightarrow> 'a poll_mux_scheme \<Rightarrow> 'p proc_scheme
     \<Rightarrow> stop \<times> 'a poll_mux_scheme \<times> 'p proc_scheme" where
  "poll_loop om cls listenfd [] m p = (Blocks, m, p)"
| "poll_loop om cls listenfd (ev # evs) m p =
     (case poll_turn om cls listenfd ev m p of
        (None, m1, p1) \<Rightarrow> poll_loop om cls listenfd evs m1 p1
      | (Some x, m1, p1) \<Rightarrow> (x, m1, p1))"

text \<open>The array \<open>stack\<close> holds is initialised: the listening descriptor, and no other.\<close>

definition poll_start :: "nat \<Rightarrow> int \<Rightarrow> pollfd list \<Rightarrow> (errno + conn) list \<Rightarrow> poll_mux" where
  "poll_start om listenfd stack q =
     \<lparr>maxi = 0, queue = q, conns = Map.empty, gone = [],
      pclient = fold (\<lambda>i cl. cl[i := (cl ! i)\<lparr>pfd := - 1\<rparr>]) [1..<om] (stack[0 := (stack ! 0)\<lparr>pfd := listenfd, events := POLLRDNORM\<rparr>])\<rparr>"

definition main_tcpservpoll01 ::
    "nat \<Rightarrow> srv_kernel \<Rightarrow> (int \<Rightarrow> errno + unit) \<Rightarrow> pollfd list \<Rightarrow> (errno + (int \<Rightarrow> 16 word option)) list \<Rightarrow> (errno + conn) list
     \<Rightarrow> 'p proc_scheme \<Rightarrow> stop \<times> poll_mux \<times> 'p proc_scheme" where
  "main_tcpservpoll01 om k cls stack evs q p =
     (let none = poll_start om (- 1) stack q in
      proceed none (Socket (sk_socket k) p) (\<lambda>listenfd p.
      proceed none (Bind (sk_bind k) p) (\<lambda>_ p.
      proceed none (Listen (sk_listen k) (sk_listenq k) LISTENQ p) (\<lambda>_ p.
        poll_loop om cls listenfd evs (poll_start om listenfd stack q) p))))"

section \<open>The table and the connections agree\<close>

definition poll_ok :: "nat \<Rightarrow> int \<Rightarrow> 'a poll_mux_scheme \<Rightarrow> bool" where
  "poll_ok om l m \<longleftrightarrow> table_ok poll_fd 1 m \<and> length (pclient m) = om \<and> 0 \<le> maxi m \<and> maxi m < int om
     \<and> (\<forall>i < om. maxi m < int i \<longrightarrow> pfd (pclient m ! i) < 0) \<and> pfd (pclient m ! 0) = l \<and> l \<notin> dom (conns m)"

lemma poll_fd_update:
  "i < length (pclient m) \<Longrightarrow> pclient m' = (pclient m)[i := e] \<Longrightarrow> poll_fd m' = (poll_fd m)(i := pfd e)"
  by (rule ext) (simp add: poll_fd_def)

lemma poll_fd_cong: "pclient m' = pclient m \<Longrightarrow> poll_fd m' = poll_fd m"
  by (rule ext) (simp add: poll_fd_def)

lemma conn_read_stream:
  "conn_read n c = (r, c1) \<Longrightarrow> sent c1 = sent c
     \<and> stream (rq c) = (case r of Got d \<Rightarrow> d | _ \<Rightarrow> []) @ stream (rq c1)"
  by (auto simp: conn_read_def dest!: sys_read_stream split: prod.splits)

lemma poll_client_cases:
  assumes "poll_client cls i fd m p = (x, m', p')" and "conns m fd = Some c"
  obtains (echo) c2 where "x = None" "m' = m\<lparr>conns := (conns m)(fd \<mapsto> c2)\<rparr>" "account c2 = account c"
    | (leave) c1 where "x = None" "m' = m\<lparr>conns := (conns m)(fd := None), gone := gone m @ [(fd, c1)],
         pclient := (pclient m)[i := (pclient m ! i)\<lparr>pfd := - 1\<rparr>]\<rparr>" "account c1 = account c"
    | (waits) "x = Some Blocks" "m' = m"
    | (dies) "x = Some (Exits 1)"
proof -
  obtain r c1 where r: "conn_read MAXLINE c = (r, c1)" by (cases "conn_read MAXLINE c")
  note st = conn_read_stream [OF this]
  have close: thesis if "poll_close cls i fd c1 m q = (x, m', p')" "account c1 = account c" for q
  proof (cases "Close (cls fd) q")
    case (Inl s)
    then show thesis using that(1) dies
      by (auto simp: poll_close_def stop_turn_eq Close_def or_die_def err_sys_def split: sum.splits)
  next
    case (Inr s)
    then show thesis using that by (intro leave [of c1]) (auto simp: poll_close_def split: prod.splits)
  qed
  show thesis
  proof (cases r)
    case (Got d)
    obtain y c2 p2 where w: "Writen d c1 p = (y, c2, p2)" by (cases "Writen d c1 p")
    show thesis
    proof (cases "y = Returns")
      case True
      then show thesis using assms r Got w st Writen_turn [OF w]
        by (intro echo [of c2]) (auto simp: poll_client_def account_def)
    next
      case False
      then show thesis using assms r Got w Writen_turn [OF w] dies by (auto simp: poll_client_def)
    qed
  next
    case Eof
    then show thesis using assms r st close [of p] by (simp add: poll_client_def account_def)
  next
    case (RdFail e)
    then show thesis using assms r st close [of "p\<lparr>errnum := e\<rparr>"] dies
      by (auto simp: poll_client_def account_def stop_turn_eq err_sys_def Let_def split: if_splits)
  next
    case RdWait
    then show thesis using assms r waits by (simp add: poll_client_def)
  qed
qed

lemma poll_serves:
  assumes ok: "poll_ok om l m" and i: "i \<in> used poll_fd 1 m" and fd: "poll_fd m i = fd"
    and b: "poll_client cls i fd m p = (None, m', p')"
  shows "client_served poll_fd i fd m m' \<and> poll_ok om l m' \<and> poll_hit m' = poll_hit m"
proof -
  from ok i have len: "i < length (pclient m)" "i \<noteq> 0" by (auto simp: poll_ok_def used_def)
  from ok i fd have "fd \<in> dom (conns m)" by (auto simp: poll_ok_def table_ok_def)
  then obtain c where c: "conns m fd = Some c" by auto
  have t: "table_ok poll_fd 1 m" using ok by (simp add: poll_ok_def)
  have fl: "fd \<noteq> l" using c ok by (auto simp: poll_ok_def)
  from b c show ?thesis
  proof (cases rule: poll_client_cases)
    case (echo c2)
    then have s: "client_served poll_fd i fd m m'"
      using c poll_fd_cong [of m' m] by (auto simp: client_served_def intro!: exI [of _ c2])
    have "insert fd (dom (conns m)) = dom (conns m)" using c by auto
    moreover have "poll_hit m' = poll_hit m" using echo(2) by (auto simp: poll_hit_def fun_eq_iff)
    ultimately show ?thesis using s client_served_table [OF t i fd s] ok echo by (auto simp: poll_ok_def)
  next
    case (leave c1)
    have f: "poll_fd m' = (poll_fd m)(i := - 1)"
      using leave(2) poll_fd_update [OF len(1), of m' "(pclient m ! i)\<lparr>pfd := - 1\<rparr>"] by simp
    with leave c have s: "client_served poll_fd i fd m m'" by (auto simp: client_served_def intro!: exI [of _ c1])
    have "poll_hit m' = poll_hit m" using leave(2) len(1) by (auto simp: poll_hit_def fun_eq_iff nth_list_update)
    with s client_served_table [OF t i fd s] ok leave len show ?thesis by (auto simp: poll_ok_def nth_list_update)
  qed auto
qed

interpretation pol: echo_table poll_fd 1 poll_hit "poll_client cls" "poll_ok om l" for cls om l
proof (unfold_locales, goal_cases)
  case (1 m)
  then show ?case by (simp add: poll_ok_def)
next
  case (2 m i p m' p')
  then show ?case using poll_serves [OF 2(1,2) refl 2(3)] by simp
next
  case (3 m i p x m' p')
  from 3(1,2) have "poll_fd m i \<in> dom (conns m)" by (auto simp: poll_ok_def table_ok_def)
  then obtain c where "conns m (poll_fd m i) = Some c" by auto
  from 3(3) this show ?case by (cases rule: poll_client_cases) auto
qed

section \<open>The call of poll and the new client\<close>

lemma poll_ok_fd: "poll_ok om l m \<Longrightarrow> conns m f = Some c \<Longrightarrow> f \<noteq> l \<and> 0 \<le> f"
  using domI [of "conns m" f c] by (auto simp: poll_ok_def table_ok_def used_def)

lemma poll_ok_called:
  assumes "poll_ok om l m" and "poll_call R (nat (maxi m + 1)) (pclient m) = (nr, cl)"
  shows "poll_ok om l (m\<lparr>pclient := cl\<rparr>)" "poll_fd (m\<lparr>pclient := cl\<rparr>) = poll_fd m"
proof -
  have "nat (maxi m + 1) \<le> length (pclient m)" using assms(1) by (auto simp: poll_ok_def)
  note c = poll_call_eq [OF assms(2) this]
  show f: "poll_fd (m\<lparr>pclient := cl\<rparr>) = poll_fd m" using c(2) by (simp add: poll_fd_def fun_eq_iff)
  then have "used poll_fd 1 (m\<lparr>pclient := cl\<rparr>) = used poll_fd 1 m" by (simp add: used_def)
  with assms(1) c(1,2) f show "poll_ok om l (m\<lparr>pclient := cl\<rparr>)" by (auto simp: poll_ok_def table_ok_def)
qed

lemma poll_slot:
  assumes "poll_ok om l m" and "i = 1 + length (takeWhile (\<lambda>e. \<not> pfd e < 0) (tl (pclient m)))"
  shows "i \<le> om" "int i \<le> maxi m + 1" "i \<notin> used poll_fd 1 m" "i = om \<Longrightarrow> om - 1 \<le> card (dom (conns m))"
proof -
  have len: "length (pclient m) = om" "0 < om" "0 \<le> maxi m" "maxi m < int om" using assms(1) by (auto simp: poll_ok_def)
  have free: "pfd (pclient m ! j) < 0" if "j < om" "maxi m < int j" for j using that assms(1) by (simp add: poll_ok_def)
  have tl: "tl (pclient m) ! j = pclient m ! Suc j" if "Suc j < om" for j using that len by (simp add: nth_tl)
  show le: "i \<le> om" using assms(2) len length_takeWhile_le [of "\<lambda>e. \<not> pfd e < 0" "tl (pclient m)"] by simp
  have below: "0 \<le> pfd (pclient m ! j)" if "1 \<le> j" "j < i" for j
  proof -
    from that obtain j' where j': "j = Suc j'" by (cases j) auto
    with that assms(2) have "\<not> pfd (tl (pclient m) ! j') < 0"
      using nth_mem [of j' "takeWhile (\<lambda>e. \<not> pfd e < 0) (tl (pclient m))"] by (auto simp: takeWhile_nth dest: set_takeWhileD)
    with tl [of j'] j' that(2) le show ?thesis by simp
  qed
  show "int i \<le> maxi m + 1"
  proof (rule ccontr)
    assume "\<not> int i \<le> maxi m + 1"
    then have "nat (maxi m + 1) < i" "nat (maxi m + 1) < om" "1 \<le> nat (maxi m + 1)" using le len by auto
    with below [of "nat (maxi m + 1)"] free [of "nat (maxi m + 1)"] len show False by simp
  qed
  show "i \<notin> used poll_fd 1 m"
  proof (cases "i < om")
    case True
    then have "length (takeWhile (\<lambda>e. \<not> pfd e < 0) (tl (pclient m))) < length (tl (pclient m))" using assms(2) len by simp
    then have "pfd (tl (pclient m) ! (i - 1)) < 0"
      using assms(2) nth_length_takeWhile [of "\<lambda>e. \<not> pfd e < 0" "tl (pclient m)"] by simp
    then have "pfd (pclient m ! i) < 0" using tl [of "i - 1"] True assms(2) by simp
    then show ?thesis by (simp add: used_def poll_fd_def)
  next
    case False
    then show ?thesis using len by (auto simp: used_def)
  qed
  show "om - 1 \<le> card (dom (conns m))" if "i = om"
  proof -
    have "{1..<om} \<subseteq> used poll_fd 1 m"
    proof
      fix j assume j: "j \<in> {1..<om}"
      with that below have "0 \<le> pfd (pclient m ! j)" by simp
      moreover with j free [of j] have "int j \<le> maxi m" by (cases "maxi m < int j") auto
      ultimately show "j \<in> used poll_fd 1 m" using j by (simp add: used_def poll_fd_def)
    qed
    then have "om - 1 \<le> card (used poll_fd 1 m)" using card_mono [of "used poll_fd 1 m" "{1..<om}"] by simp
    moreover have "card (dom (conns m)) = card (used poll_fd 1 m)"
      using assms(1) by (intro table_ok_card) (simp add: poll_ok_def)
    ultimately show ?thesis by simp
  qed
qed

lemma poll_ok_card: "poll_ok om l m \<Longrightarrow> card (dom (conns m)) \<le> om"
proof -
  assume ok: "poll_ok om l m"
  have "used poll_fd 1 m \<subseteq> {..<om}" using ok by (auto simp: used_def poll_ok_def)
  then have "card (used poll_fd 1 m) \<le> om" using card_mono [of "{..<om}"] by fastforce
  moreover have "card (dom (conns m)) = card (used poll_fd 1 m)"
    using ok by (intro table_ok_card) (simp add: poll_ok_def)
  ultimately show ?thesis by simp
qed

lemma poll_accept_cases:
  assumes ok: "poll_ok om l m" and l: "0 \<le> l" and a: "poll_accept om l m p = (x, m', p')"
  obtains (admitted) c q i f where "x = None" "Accept (queue m) p = Inr ((c, q), p')" "queue m' = q" "client_admitted poll_fd 1 m m'"
      "poll_ok om l m'" "gone m' = gone m" "f \<notin> insert l (dom (conns m))" "conns m' = (conns m)(f \<mapsto> c)"
      "poll_hit m' = poll_hit m" "poll_fd m' = (poll_fd m)(i := f)" "i \<notin> used poll_fd 1 m" "1 \<le> i" "int i \<le> maxi m + 1"
      "maxi m' = max (maxi m) (int i)"
    | (full) "x = Some (Exits 1)" "om - 1 \<le> card (dom (conns m))"
    | (waits) "x = Some Blocks" "m' = m" "\<And>c q. queue m \<noteq> Inr c # q"
    | (dies) "x = Some (Exits 1)" "\<And>c q. queue m \<noteq> Inr c # q"
proof (cases "Accept (queue m) p")
  case (Inl r)
  then have "queue m \<noteq> Inr c # q" for c q by auto
  with Inl a that(3,4) show thesis by (cases r) (auto simp: poll_accept_def stop_turn_def dest!: Accept_arrived(2))
next
  case (Inr r)
  then obtain c q p1 where acc: "Accept (queue m) p = Inr ((c, q), p1)" by (cases r) auto
  let ?fd = "lowest_free l (length (pclient m)) (conns m)"
  let ?i = "1 + length (takeWhile (\<lambda>e. \<not> pfd e < 0) (tl (pclient m)))"
  note i = poll_slot [OF ok refl]
  have t: "table_ok poll_fd 1 m" and len: "length (pclient m) = om" using ok by (auto simp: poll_ok_def)
  have fd: "?fd \<notin> dom (conns m)"
    using poll_ok_card [OF ok] len by (intro lowest_free_fresh(1) [OF table_ok_finite [OF t]]) simp
  have above: "l < ?fd" by (rule lowest_free_above)
  show thesis
  proof (cases "?i = om")
    case True
    then have "x = Some (Exits 1)" using a acc by (auto simp: poll_accept_def Let_def stop_turn_eq err_quit_def)
    then show thesis using i(4) [OF True] by (rule that(2))
  next
    case False
    define m2 where "m2 = m\<lparr>queue := q, conns := (conns m)(?fd \<mapsto> c),
      pclient := (pclient m)[?i := (pclient m ! ?i)\<lparr>pfd := ?fd, events := POLLRDNORM\<rparr>],
      maxi := (if maxi m < int ?i then int ?i else maxi m)\<rparr>"
    have "poll_accept om l m p = (None, m2, p1)"
      using acc False by (simp add: poll_accept_def Let_def m2_def cong: if_cong)
    with a have e: "x = None" "m' = m2" "p' = p1" by auto
    have lt: "?i < om" using i(1) False by simp
    have f: "poll_fd m2 = (poll_fd m)(?i := ?fd)"
      using lt len poll_fd_update [of ?i m m2 "(pclient m ! ?i)\<lparr>pfd := ?fd, events := POLLRDNORM\<rparr>"] by (simp add: m2_def)
    have h: "poll_hit m2 = poll_hit m" using lt len by (auto simp: poll_hit_def fun_eq_iff m2_def nth_list_update)
    have mx: "maxi m2 = max (maxi m) (int ?i)" by (auto simp: m2_def max_def)
    have ad: "client_admitted poll_fd 1 m m2"
      unfolding client_admitted_def
      by (rule exI [of _ ?i], rule exI [of _ ?fd], rule exI [of _ c])
        (use i f mx fd above l Accept_arrived(1) [OF acc] in \<open>auto simp: m2_def\<close>)
    from client_admitted_table [OF t ad] have t2: "table_ok poll_fd 1 m2" ..
    have "poll_ok om l m2"
      using ok t2 i(2) lt above unfolding poll_ok_def
      by (auto simp: m2_def nth_list_update split: if_splits)
    with e ad fd above acc f h mx i show thesis by (intro that(1) [of c q ?fd ?i]) (simp_all add: m2_def)
  qed
qed

section \<open>Rounds\<close>

definition poll_kept :: "nat \<Rightarrow> int \<Rightarrow> 'a poll_mux_scheme \<Rightarrow> stop option \<Rightarrow> 'a poll_mux_scheme \<Rightarrow> bool" where
  "poll_kept om l m x m' \<longleftrightarrow> (x = None \<or> x = Some Blocks \<longrightarrow> poll_ok om l m' \<and> accounts m' = accounts m)
     \<and> x \<in> {None, Some Blocks, Some (Exits 1)}"

lemma poll_kept_trans:
  "poll_kept om l m None m1 \<Longrightarrow> poll_kept om l m1 x m' \<Longrightarrow> poll_kept om l m x m'"
  by (auto simp: poll_kept_def)

lemma poll_clients_kept:
  assumes "poll_clients cls n m p = (x, m', p')" and "poll_ok om l m"
  shows "poll_kept om l m x m'"
proof -
  have "\<forall>i \<in> set [1..<nat (maxi m + 1)]. 1 \<le> i \<and> int i \<le> maxi m" by auto
  from pol.entries_keep [OF assms(1) [unfolded poll_clients_def] assms(2) this] show ?thesis
    by (auto simp: poll_kept_def)
qed

lemma poll_accept_kept:
  assumes "poll_accept om l m p = (x, m', p')" and "poll_ok om l m" and "0 \<le> l"
  shows "poll_kept om l m x m'"
proof -
  have t: "table_ok poll_fd 1 m" using assms(2) by (simp add: poll_ok_def)
  from assms(2,3,1) show ?thesis
  proof (cases rule: poll_accept_cases)
    case (admitted c q i f)
    with client_admitted_table [OF t admitted(4)] show ?thesis by (simp add: poll_kept_def)
  qed (use assms(2) in \<open>auto simp: poll_kept_def\<close>)
qed

lemma poll_turn_kept:
  assumes "poll_turn om cls l ev m p = (x, m', p')" and "poll_ok om l m" and "0 \<le> l"
  shows "poll_kept om l m x m'"
proof (cases ev)
  case (Inl e)
  then show ?thesis using assms
    by (auto simp: poll_turn_def Poll_def or_die_def err_sys_def stop_turn_def poll_kept_def)
next
  case (Inr w)
  obtain n cl where r: "poll_call (report l w m) (nat (maxi m + 1)) (pclient m) = (n, cl)"
    by (cases "poll_call (report l w m) (nat (maxi m + 1)) (pclient m)")
  let ?m = "m\<lparr>pclient := cl\<rparr>"
  have ok: "poll_ok om l ?m" by (rule poll_ok_called(1) [OF assms(2) r])
  have k0: "poll_kept om l m None ?m" using ok by (simp add: poll_kept_def accounts_def)
  show ?thesis
  proof (cases "revents (cl ! 0) AND POLLRDNORM = 0")
    case True
    then have "poll_clients cls n ?m p = (x, m', p')" using assms Inr r by (simp add: poll_turn_def Poll_def)
    with poll_clients_kept [OF _ ok] k0 show ?thesis by (blast intro: poll_kept_trans)
  next
    case False
    obtain y m1 p1 where a: "poll_accept om l ?m p = (y, m1, p1)" by (cases "poll_accept om l ?m p")
    note k = poll_kept_trans [OF k0 poll_accept_kept [OF this ok assms(3)]]
    show ?thesis
    proof (cases y)
      case None
      with k have "poll_ok om l m1" by (simp add: poll_kept_def)
      then show ?thesis using assms(1) Inr r False a None k
        by (auto simp: poll_turn_def Poll_def split: if_splits dest: poll_clients_kept poll_kept_trans)
    next
      case (Some z)
      then show ?thesis using assms(1) Inr r False a k by (simp add: poll_turn_def Poll_def)
    qed
  qed
qed

lemma poll_loop_kept:
  "poll_loop om cls l evs m p = (x, m', p') \<Longrightarrow> poll_ok om l m \<Longrightarrow> 0 \<le> l \<Longrightarrow> poll_kept om l m (Some x) m'"
proof (induction om cls l evs m p rule: poll_loop.induct)
  case (2 om cls l ev evs m p)
  obtain y m1 p1 where t: "poll_turn om cls l ev m p = (y, m1, p1)" by (cases "poll_turn om cls l ev m p")
  note k = poll_turn_kept [OF this 2(3,4)]
  show ?case
  proof (cases y)
    case None
    with 2 t k show ?thesis by (auto simp: poll_kept_def)
  next
    case (Some z)
    with 2 t k show ?thesis by simp
  qed
qed (simp add: poll_kept_def)

lemma fold_no_clients:
  "length (fold (\<lambda>i cl. cl[i := (cl ! i)\<lparr>pfd := - 1\<rparr>]) is cl) = length cl"
  "j < length cl \<Longrightarrow> pfd (fold (\<lambda>i cl. cl[i := (cl ! i)\<lparr>pfd := - 1\<rparr>]) is cl ! j) = (if j \<in> set is then - 1 else pfd (cl ! j))"
  by (induction "is" arbitrary: cl) (auto simp: nth_list_update)

lemma poll_ok_start: "0 \<le> l \<Longrightarrow> length stack = om \<Longrightarrow> 0 < om \<Longrightarrow> poll_ok om l (poll_start om l stack q)"
proof -
  assume a: "0 \<le> l" "length stack = om" "0 < om"
  have "used poll_fd 1 (poll_start om l stack q) = {}" by (auto simp: used_def poll_start_def)
  with a show ?thesis by (simp add: poll_ok_def table_ok_def) (simp add: poll_start_def fold_no_clients)
qed

section \<open>Rounds when nothing fails\<close>

definition poll_ends :: "rd_event set" where
  "poll_ends = {Fin, RdErr ECONNRESET}"

lemma poll_client_calm:
  assumes "conns m fd = Some c" and "rq c \<noteq> []" and "calm_mux poll_ends m" and "finite (dom (conns m))"
  shows "\<exists>m' p'. poll_client (\<lambda>_. Inr ()) i fd m p = (None, m', p') \<and> calm_mux poll_ends m' \<and> work m' < work m"
proof -
  from calm_mux_conns [OF assms(3,1)] have c: "calm_script poll_ends (rq c)" "\<forall>e \<in> set (wq c). patient e"
    by (auto simp: calm_conn_def)
  from calm_script_read [OF c(1) _ assms(2), of MAXLINE] show ?thesis
  proof
    assume "\<exists>d es'. sys_read MAXLINE (rq c) = (Got d, es') \<and> calm_script poll_ends es' \<and> ev_size es' < ev_size (rq c) \<and> d \<noteq> []"
    then obtain d es' where r: "sys_read MAXLINE (rq c) = (Got d, es')" "calm_script poll_ends es'" "ev_size es' < ev_size (rq c)"
      by blast
    obtain c2 p2 where w: "Writen d (c\<lparr>rq := es'\<rparr>) p = (Returns, c2, p2)" "rq c2 = es'" "\<forall>e \<in> set (wq c2). patient e"
      using Writen_calm [of "c\<lparr>rq := es'\<rparr>" d p] c(2) by auto
    let ?m = "m\<lparr>conns := (conns m)(fd \<mapsto> c2)\<rparr>"
    have "poll_client (\<lambda>_. Inr ()) i fd m p = (None, ?m, p2)"
      using assms(1) r w(1) by (simp add: poll_client_def conn_read_def)
    moreover have "calm_mux poll_ends ?m"
      using calm_mux_update [OF assms(3), of ?m fd "Some c2"] w r by (simp add: calm_conn_def)
    moreover have "work ?m < work m" using work_less [OF assms(4,1), of ?m c2] w r by simp
    ultimately show ?thesis by blast
  next
    assume "\<exists>e \<in> poll_ends. rq c = [e] \<and> (\<forall>s. e \<noteq> Seg s)"
    then have r: "rq c = [Fin] \<or> rq c = [RdErr ECONNRESET]" by (auto simp: poll_ends_def)
    obtain m' p' c1 where e: "poll_client (\<lambda>_. Inr ()) i fd m p = (None, m', p')" "conns m' = (conns m)(fd := None)" "queue m' = queue m"
      "gone m' = gone m @ [(fd, c1)]" "stream (rq c1) = []"
      using assms(1) r by (auto simp: poll_client_def poll_close_def conn_read_def Close_def)
    moreover have "calm_mux poll_ends m'" using calm_mux_update [OF assms(3) e(3,2)] e(4,5) by blast
    moreover have "work m' < work m" using work_less [OF assms(4,1) e(3)] e(2) r by auto
    ultimately show ?thesis by blast
  qed (simp add: MAXLINE_def)
qed

interpretation pol_calm: calm_table poll_fd 1 poll_hit "poll_client (\<lambda>_. Inr ())" "poll_ok om l" poll_ends for om l
proof (unfold_locales, goal_cases)
  case (1 m i c p)
  then have "finite (dom (conns m))" by (intro table_ok_finite [of poll_fd 1]) (simp add: poll_ok_def)
  with poll_client_calm [OF 1(4,5,3)] show ?case by blast
qed

definition poll_room :: "nat \<Rightarrow> 'a mux_scheme \<Rightarrow> bool" where
  "poll_room om m \<longleftrightarrow> card (dom (conns m)) + length (queue m) < om"

text \<open>The loop when the first of the entries with events are those of clients with input.\<close>

lemma poll_clients_calm:
  assumes ok: "poll_ok om l m" and calm: "calm_mux poll_ends m" and room: "poll_room om m"
    and w: "\<forall>i \<in> set (take (max 1 (nat n)) (pol_calm.hits m [1..<nat (maxi m + 1)])). pol_calm.waiting m i"
  shows "\<exists>m' p'. poll_clients (\<lambda>_. Inr ()) n m p = (None, m', p') \<and> poll_ok om l m' \<and> calm_mux poll_ends m' \<and> poll_room om m'
    \<and> work m' \<le> work m \<and> (pol_calm.hits m [1..<nat (maxi m + 1)] \<noteq> [] \<longrightarrow> work m' < work m)"
proof -
  have fin: "finite (dom (conns m))" using ok by (intro table_ok_finite [of poll_fd 1]) (simp add: poll_ok_def)
  have i: "\<forall>i \<in> set [1..<nat (maxi m + 1)]. 1 \<le> i \<and> int i \<le> maxi m" by auto
  from pol_calm.entries_calm [OF ok calm distinct_upt i w, of p] obtain m' p' where r:
    "poll_clients (\<lambda>_. Inr ()) n m p = (None, m', p')" "poll_ok om l m'" "calm_mux poll_ends m'" "work m' \<le> work m"
    "pol_calm.hits m [1..<nat (maxi m + 1)] \<noteq> [] \<longrightarrow> work m' < work m" "queue m' = queue m" "dom (conns m') \<subseteq> dom (conns m)"
    unfolding poll_clients_def by blast
  moreover have "poll_room om m'" using room r(6) card_mono [OF fin r(7)] by (simp add: poll_room_def)
  ultimately show ?thesis by blast
qed

text \<open>
  What is reported is there and is seen by the loop.  The entries that were served are those
  counted, so what the array holds in an entry that was never given to \<^verbatim>\<open>poll\<close> does not matter.
\<close>

lemma POLLRDNORM_pos [simp]: "POLLRDNORM \<noteq> 0"
  by (simp add: POLLRDNORM_def)

lemma pending_readable: "pending_at (rq c) = Quiet \<longleftrightarrow> \<not> readable c"
proof -
  have "pending_at es = Quiet \<longleftrightarrow> fst (sys_read 1 es) = RdWait" for es by (induction es rule: pending_at.induct) auto
  then show ?thesis by (simp add: readable_def)
qed

lemma report_pos: "report l w m f \<noteq> 0 \<longleftrightarrow> has_input l m f \<and> w f \<noteq> None"
  by (auto simp: report_def poll_word_pos has_input_def pending_readable split: option.splits)

lemma report_seen:
  "report l w m f \<noteq> 0 \<Longrightarrow> report l w m f AND (POLLRDNORM OR POLLERR) \<noteq> 0"
  "report l w m l \<noteq> 0 \<Longrightarrow> report l w m l AND POLLRDNORM \<noteq> 0"
  unfolding report_def using poll_word_seen(1) [OF _ POLLRDNORM_pos] poll_word_seen(2) [OF _ POLLRDNORM_pos] 
  by (auto simp: poll_word_pos)

lemma called_hits:
  assumes ok: "poll_ok om l m"
    and r: "poll_call (report l w m) (nat (maxi m + 1)) (pclient m) = (n, cl)" and "0 \<le> l"
  defines "hs \<equiv> pol_calm.hits (m\<lparr>pclient := cl\<rparr>) [1..<nat (maxi m + 1)]"
  shows "n = (if report l w m l = 0 then 0 else 1) + int (length hs)"
    and "revents (cl ! 0) = report l w m l"
    and "i \<in> set hs \<longleftrightarrow> i \<in> used poll_fd 1 m \<and> report l w m (poll_fd m i) \<noteq> 0"
proof -
  have le: "nat (maxi m + 1) \<le> length (pclient m)" "0 \<le> maxi m" "pfd (pclient m ! 0) = l" using ok by (auto simp: poll_ok_def)
  note c = poll_call_eq [OF r le(1)]
  have hit: "0 \<le> pfd (cl ! i) \<and> poll_hit (m\<lparr>pclient := cl\<rparr>) i (pfd (cl ! i)) \<longleftrightarrow> revents (cl ! i) \<noteq> 0"
    if "i < nat (maxi m + 1)" for i
    using c(2) c(3) [OF that] report_seen(1) [of l w m "pfd (pclient m ! i)"] by (auto simp: poll_hit_def)
  have hs: "hs = filter (\<lambda>i. revents (cl ! i) \<noteq> 0) [1..<nat (maxi m + 1)]"
    unfolding hs_def pol_calm.hits_def using hit by (intro filter_cong) (simp_all add: poll_fd_def)
  show r0: "revents (cl ! 0) = report l w m l" using c(3) [of 0] le \<open>0 \<le> l\<close> by simp
  have e: "i < nat (maxi m + 1) \<longleftrightarrow> int i \<le> maxi m" by auto
  have "[0..<nat (maxi m + 1)] = 0 # [1..<nat (maxi m + 1)]" using le(2) by (simp add: upt_conv_Cons)
  with c(4) r0 hs show "n = (if report l w m l = 0 then 0 else 1) + int (length hs)" by simp
  show "i \<in> set hs \<longleftrightarrow> i \<in> used poll_fd 1 m \<and> report l w m (poll_fd m i) \<noteq> 0"
    using c(3) [of i] e by (cases "pfd (pclient m ! i) < 0") (auto simp: hs used_def poll_fd_def)
qed

lemma poll_turn_calm:
  assumes ok: "poll_ok om l m" and l: "0 \<le> l" and calm: "calm_mux poll_ends m" and room: "poll_room om m"
  shows "\<exists>m' p'. poll_turn om (\<lambda>_. Inr ()) l (Inr w) m p = (None, m', p') \<and> poll_ok om l m' \<and> calm_mux poll_ends m'
    \<and> poll_room om m' \<and> work m' \<le> work m \<and> (full_report w \<and> 0 < work m \<longrightarrow> work m' < work m)"
proof -
  obtain n cl where r: "poll_call (report l w m) (nat (maxi m + 1)) (pclient m) = (n, cl)"
    by (cases "poll_call (report l w m) (nat (maxi m + 1)) (pclient m)")
  let ?m = "m\<lparr>pclient := cl\<rparr>"
  let ?hs = "pol_calm.hits ?m [1..<nat (maxi m + 1)]"
  note ok1 = poll_ok_called [OF ok r] and hs = called_hits [OF ok r l]
  have m1: "calm_mux poll_ends ?m" "poll_room om ?m" "work ?m = work m" using calm room by (simp_all add: calm_mux_def all_back_def poll_room_def work_def)
  have wait: "\<exists>c. conns m (poll_fd m i) = Some c \<and> rq c \<noteq> []" if "i \<in> set ?hs" for i
  proof -
    from hs(3) [THEN iffD1, OF that] have h: "i \<in> used poll_fd 1 m" "has_input l m (poll_fd m i)"
      by (auto simp: report_pos)
    then have "poll_fd m i \<in> dom (conns m)" using ok by (auto simp: poll_ok_def table_ok_def)
    then obtain c where c: "conns m (poll_fd m i) = Some c" by auto
    with poll_ok_fd [OF ok c] h(2) have "readable c" by (simp add: has_input_def)
    with readable_conn [OF calm c] c show ?thesis by simp
  qed
  show ?thesis
  proof (cases "report l w m l = 0")
    case True
    have w1: "\<forall>i \<in> set (take (max 1 (nat n)) (pol_calm.hits ?m [1..<nat (maxi ?m + 1)])). pol_calm.waiting ?m i"
      using wait ok1(2) by (auto simp: pol_calm.waiting_def dest!: in_set_takeD)
    from poll_clients_calm [OF ok1(1) m1(1,2) w1, of p] obtain m' p' where c:
      "poll_clients (\<lambda>_. Inr ()) n ?m p = (None, m', p')" "poll_ok om l m'" "calm_mux poll_ends m'" "poll_room om m'"
      "work m' \<le> work m" "?hs \<noteq> [] \<longrightarrow> work m' < work m" using m1(3) by auto
    have "?hs \<noteq> []" if full: "full_report w" "0 < work m"
    proof -
      have "queue m = []" using True full(1) report_pos [of l w m l] by (auto simp: full_report_def has_input_def)
      moreover have "finite (dom (conns m))" using ok by (auto simp: poll_ok_def dest: table_ok_finite)
      ultimately obtain f c where fc: "conns m f = Some c" "rq c \<noteq> []" using work_left [OF calm full(2)] by blast
      then have "f \<in> poll_fd m ` used poll_fd 1 m" using ok domI [of "conns m" f c] by (simp add: poll_ok_def table_ok_def)
      then obtain i where i: "i \<in> used poll_fd 1 m" "poll_fd m i = f" by auto
      have "has_input l m f" using poll_ok_fd [OF ok fc(1)] readable_conn [OF calm fc(1)] fc by (simp add: has_input_def)
      with i full(1) hs(3) [of i] have "i \<in> set ?hs" by (simp add: report_pos full_report_def)
      then show ?thesis by auto
    qed
    with c r hs(2) True show ?thesis by (auto simp: poll_turn_def Poll_def Let_def)
  next
    case False
    then have q: "queue m \<noteq> []" and bit: "report l w m l AND POLLRDNORM \<noteq> 0"
      using report_pos [of l w m l] report_seen(2) [of l w m] by (auto simp: has_input_def)
    then obtain c q where q: "queue m = Inr c # q" "calm_conn poll_ends c" using calm by (cases "queue m") (auto simp: calm_mux_def)
    obtain x m2 p2 where a: "poll_accept om l ?m p = (x, m2, p2)" by (cases "poll_accept om l ?m p")
    have step: "x = None \<and> poll_ok om l m2 \<and> calm_mux poll_ends m2 \<and> poll_room om m2 \<and> work m = Suc (work m2)
        \<and> (n - 1 \<le> 0 \<or> (\<forall>i \<in> set (take (max 1 (nat (n - 1))) (pol_calm.hits m2 [1..<nat (maxi m2 + 1)])). pol_calm.waiting m2 i))"
      using ok1(1) l a
    proof (cases rule: poll_accept_cases)
      case (admitted c' q' i f)
      then have eq: "c' = c" "q' = q" "queue m2 = q" "conns m2 = (conns m)(f \<mapsto> c)" "f \<notin> dom (conns m)" "f \<noteq> l"
        "gone m2 = gone m" using q(1) by auto
      have fin: "finite (dom (conns m))" using ok by (intro table_ok_finite [of poll_fd 1]) (simp add: poll_ok_def)
      have "calm_mux poll_ends m2" using calm q eq by (auto simp: calm_mux_def ran_def all_back_def split: if_splits)
      moreover have "poll_room om m2" using room eq q(1) fin by (simp add: poll_room_def)
      moreover have "work m = Suc (work m2)" using eq q(1) fin by (intro work_admitted [of _ f _ c]) auto
      moreover have "\<forall>j \<in> set (take (max 1 (nat (n - 1))) (pol_calm.hits m2 [1..<nat (maxi m2 + 1)])). pol_calm.waiting m2 j"
        if "\<not> n - 1 \<le> 0"
      proof -
        have i: "i \<notin> set ?hs" using admitted(11) by (auto simp: pol_calm.hits_def used_def ok1(2))
        have same: "0 \<le> poll_fd m2 j \<and> poll_hit m2 j (poll_fd m2 j) \<longleftrightarrow> 0 \<le> poll_fd ?m j \<and> poll_hit ?m j (poll_fd ?m j)" if "j \<noteq> i" for j
          using that admitted(9,10) by simp
        have "take (length ?hs) (pol_calm.hits m2 [1..<nat (maxi m2 + 1)]) = ?hs"
        proof (cases "int i \<le> maxi m")
          case True
          then have "poll_fd ?m i < 0" using admitted(11,12) by (auto simp: used_def)
          moreover have "revents (cl ! i) = 0"
          proof -
            have "nat (maxi m + 1) \<le> length (pclient m)" using ok by (auto simp: poll_ok_def)
            from poll_call_eq(3) [OF r this, of i] True \<open>poll_fd ?m i < 0\<close> show ?thesis by (simp add: ok1(2) poll_fd_def)
          qed
          then have "\<not> poll_hit m2 i f" "\<not> poll_hit ?m i f" for f by (simp_all add: admitted(9)) (simp_all add: poll_hit_def)
          ultimately have "pol_calm.hits m2 js = pol_calm.hits ?m js" for js
            unfolding pol_calm.hits_def using same by (intro filter_cong) (auto, metis+)
          then show ?thesis using True admitted(14) by (simp add: max_def)
        next
          case False
          then have "i = nat (maxi m + 1)" using admitted(13) by simp
          moreover have "maxi m2 = int i" using False admitted(14) by simp
          moreover have "0 \<le> maxi m" using ok by (simp add: poll_ok_def)
          ultimately have L: "[1..<nat (maxi m2 + 1)] = [1..<nat (maxi m + 1)] @ [i]" by (simp add: upt_Suc nat_add_distrib)
          have "pol_calm.hits m2 [1..<nat (maxi m + 1)] = ?hs"
            unfolding pol_calm.hits_def by (intro filter_cong refl same) (use False in auto)
          then show ?thesis unfolding L by (simp add: pol_calm.hits_def)
        qed
        moreover have "max 1 (nat (n - 1)) = length ?hs"
          using that hs(1) False by (cases ?hs) simp_all
        moreover have "pol_calm.waiting m2 j" if "j \<in> set ?hs" for j
        proof -
          have "j \<noteq> i" using i that by auto
          then have "poll_fd m2 j = poll_fd m j" using admitted(10) ok1(2) by simp
          with wait [OF that] eq(4,5) show ?thesis by (auto simp: pol_calm.waiting_def)
        qed
        ultimately show ?thesis by simp
      qed
      ultimately show ?thesis using admitted(1,5) by blast
    qed (use room q(1) in \<open>auto simp: poll_room_def\<close>)
    show ?thesis
    proof (cases "n - 1 \<le> 0")
      case True
      with step a r hs(2) bit show ?thesis by (auto simp: poll_turn_def Poll_def Let_def)
    next
      case neg: False
      with step have "\<forall>i \<in> set (take (max 1 (nat (n - 1))) (pol_calm.hits m2 [1..<nat (maxi m2 + 1)])). pol_calm.waiting m2 i"
        by blast
      with step poll_clients_calm [of om l m2 "n - 1" p2] obtain m' p' where
        "poll_clients (\<lambda>_. Inr ()) (n - 1) m2 p2 = (None, m', p')" "poll_ok om l m'" "calm_mux poll_ends m'" "poll_room om m'"
        "work m' \<le> work m2" by blast
      with step a r hs(2) bit neg show ?thesis by (auto simp: poll_turn_def Poll_def Let_def)
    qed
  qed
qed

section \<open>Runs\<close>

lemma poll_loop_calm:
  assumes "poll_ok om l m" and "0 \<le> l" and "calm_mux poll_ends m" and "poll_room om m"
    and "work m \<le> length (filter full_report ws)"
  shows "\<exists>m' p'. poll_loop om (\<lambda>_. Inr ()) l (map Inr ws) m p = (Blocks, m', p') \<and> poll_ok om l m' \<and> calm_mux poll_ends m' \<and> work m' = 0"
  using assms
proof (induction ws arbitrary: m p)
  case (Cons w ws)
  from poll_turn_calm [OF Cons.prems(1-4), of w p] obtain m1 p1 where
    t: "poll_turn om (\<lambda>_. Inr ()) l (Inr w) m p = (None, m1, p1)" "poll_ok om l m1" "calm_mux poll_ends m1" "poll_room om m1"
    "work m1 \<le> work m" "full_report w \<and> 0 < work m \<longrightarrow> work m1 < work m" by blast
  have "work m1 \<le> length (filter full_report ws)"
    using t(5,6) Cons.prems(5) by (cases "full_report w"; cases "work m = 0") auto
  from Cons.IH [OF t(2) Cons.prems(2) t(3,4) this] t(1) show ?case by simp
qed simp

section \<open>Properties\<close>

text \<open>C24: The server with \<^verbatim>\<open>poll\<close> serves all its clients, whatever its array holds on the stack at the start:
  when fewer than \<^verbatim>\<open>OPEN_MAX\<close> connect and no call of the server fails, it never stops, admits every client,
  sends each one all it sends, also when others are silent or reset their connections, and goes on.  \<^verbatim>\<open>poll\<close>
  may report late, but has to report all there is often enough; it reports input and the end of a stream by
  \<^verbatim>\<open>POLLRDNORM\<close> and a reset by \<^verbatim>\<open>POLLERR\<close>, perhaps with other bits.\<close>

theorem poll_server_serves_all:
  assumes "sk_socket k = Inr l" and "0 \<le> l" and "sk_bind k = Inr ()" and "\<And>b. sk_listen k b = Inr ()"
    and "\<forall>c \<in> set cs. calm_conn {Fin, RdErr ECONNRESET} c \<and> sent c = []" and "length cs < om" and "length stack = om"
    and "sum_list (map (\<lambda>c. Suc (ev_size (rq c))) cs) \<le> length (filter full_report ws)"
  shows "\<exists>m p'. main_tcpservpoll01 om k (\<lambda>_. Inr ()) stack (map Inr ws) (map Inr cs) p = (Blocks, m, p')
    \<and> queue m = [] \<and> (\<forall>c \<in> ran (conns m). rq c = []) \<and> sent_back m = mset (map (\<lambda>c. stream (rq c)) cs)"
proof -
  let ?m = "poll_start om l stack (map Inr cs)"
  have arr: "arrived (map Inr cs :: (errno + conn) list) = cs" for cs by (induction cs) auto
  have ok: "poll_ok om l ?m" using assms(2,6,7) by (intro poll_ok_start) auto
  have "calm_mux poll_ends ?m" using assms(5) by (auto simp: calm_mux_def all_back_def poll_start_def poll_ends_def)
  moreover have "poll_room om ?m" using assms(6) by (simp add: poll_room_def poll_start_def)
  moreover have "work ?m \<le> length (filter full_report ws)"
    using assms(8) by (simp add: work_def poll_start_def arr conn_work_def)
  ultimately obtain m p' where r: "poll_loop om (\<lambda>_. Inr ()) l (map Inr ws) ?m p = (Blocks, m, p')" "poll_ok om l m"
    "calm_mux poll_ends m" "work m = 0" using poll_loop_calm [OF ok assms(2)] by blast
  have fin: "finite (dom (conns m))" using r(2) by (intro table_ok_finite [of poll_fd 1]) (simp add: poll_ok_def)
  have main: "main_tcpservpoll01 om k (\<lambda>_. Inr ()) stack (map Inr ws) (map Inr cs) p = (Blocks, m, p')"
    using assms(1-4) r(1) by (simp add: main_tcpservpoll01_def Let_def Socket_def Bind_def Listen_def)
  have "accounts m = accounts ?m" using poll_loop_kept [OF r(1) ok assms(2)] by (simp add: poll_kept_def)
  also have "\<dots> = mset (map account cs)" by (simp add: accounts_def poll_start_def arr)
  also have "\<dots> = mset (map (\<lambda>c. stream (rq c)) cs)"
    using assms(5) by (intro arg_cong [of _ _ mset]) (auto simp: account_def)
  finally show ?thesis using main idle_accounts [OF r(4,3) fin] by (auto simp: ran_def)
qed

theorem poll_server_serves_all_witness:
  "\<exists>m p'. main_tcpservpoll01 4 (granted_srv 3) (\<lambda>_. Inr ()) (replicate 4 \<lparr>pfd = 7, events = 0, revents = 64\<rparr>)
      (map Inr (replicate 9 (\<lambda>_. Some 0)))
      (map Inr [quiet_conn [Seg ''ab'', RdErr ECONNRESET] [], quiet_conn [Seg ''c'', Fin] []]) idle_proc = (Blocks, m, p')
    \<and> queue m = [] \<and> sent_back m = {#''ab'', ''c''#}"
proof -
  let ?cs = "[quiet_conn [Seg ''ab'', RdErr ECONNRESET] [], quiet_conn [Seg ''c'', Fin] []]"
  have "\<exists>m p'. main_tcpservpoll01 4 (granted_srv 3) (\<lambda>_. Inr ()) (replicate 4 \<lparr>pfd = 7, events = 0, revents = 64\<rparr>)
      (map Inr (replicate 9 (\<lambda>_. Some 0))) (map Inr ?cs) idle_proc = (Blocks, m, p')
    \<and> queue m = [] \<and> (\<forall>c \<in> ran (conns m). rq c = []) \<and> sent_back m = mset (map (\<lambda>c. stream (rq c)) ?cs)"
    by (rule poll_server_serves_all [where l = 3])
      (simp_all add: granted_srv_def quiet_conn_def calm_conn_def full_report_def)
  then show ?thesis by (auto simp: quiet_conn_def)
qed

end
