(* ===== verification/Unp_Gai.thy ===== *)
theory Unp_Gai
  imports Unp_Wrap Unp_Inet6
begin

unbundle bit_operations_syntax

text \<open>
  Name resolution (\<^verbatim>\<open>SampleCode/unpv13e/libgai\<close>): \<^verbatim>\<open>getaddrinfo\<close> with its helpers, one function of the
  model for each function of the source, and \<^verbatim>\<open>freeaddrinfo\<close>.  What the resolver of the system answers is
  an argument; which allocations fail is a script, and the allocated blocks are counted.
\<close>

section \<open>addrinfo.h and gai_hdr.h\<close>

definition AI_PASSIVE :: "32 word" where "AI_PASSIVE = 1"
definition AI_CANONNAME :: "32 word" where "AI_CANONNAME = 2"
definition AI_CLONE :: "32 word" where "AI_CLONE = 4"

definition EAI_ADDRFAMILY :: int where "EAI_ADDRFAMILY = 1"
definition EAI_AGAIN :: int where "EAI_AGAIN = 2"
definition EAI_BADFLAGS :: int where "EAI_BADFLAGS = 3"
definition EAI_FAIL :: int where "EAI_FAIL = 4"
definition EAI_FAMILY :: int where "EAI_FAMILY = 5"
definition EAI_MEMORY :: int where "EAI_MEMORY = 6"
definition EAI_NODATA :: int where "EAI_NODATA = 7"
definition EAI_NONAME :: int where "EAI_NONAME = 8"
definition EAI_SERVICE :: int where "EAI_SERVICE = 9"
definition EAI_SOCKTYPE :: int where "EAI_SOCKTYPE = 10"
definition EAI_SYSTEM :: int where "EAI_SYSTEM = 11"

lemmas eai_defs = EAI_ADDRFAMILY_def EAI_AGAIN_def EAI_BADFLAGS_def EAI_FAIL_def EAI_FAMILY_def EAI_MEMORY_def
  EAI_NODATA_def EAI_NONAME_def EAI_SERVICE_def EAI_SOCKTYPE_def EAI_SYSTEM_def

text \<open>The constants of the system's headers, on Linux.\<close>

definition AF_UNSPEC :: int where "AF_UNSPEC = 0"
definition AF_LOCAL :: int where "AF_LOCAL = 1"
definition SOCK_STREAM :: int where "SOCK_STREAM = 1"
definition SOCK_DGRAM :: int where "SOCK_DGRAM = 2"
definition SOCK_RAW :: int where "SOCK_RAW = 3"

lemmas gai_consts = AF_UNSPEC_def AF_LOCAL_def AF_INET_def AF_INET6_def SOCK_STREAM_def SOCK_DGRAM_def SOCK_RAW_def

text \<open>
  A socket address: its bytes and its port, or its path, which has room for 108 characters.  Ports are
  in the byte order of the network, as numbers.
\<close>

datatype sa = Sin "8 word list" "16 word" | Sin6 "8 word list" "16 word" | Sun string

definition SUN_PATH :: nat where "SUN_PATH = 108"

record addrinfo =
  ai_flags :: "32 word"
  ai_family :: int
  ai_socktype :: int
  ai_protocol :: int
  ai_addrlen :: nat
  ai_canonname :: "string option"
  ai_addr :: "sa option"

definition zero_ai :: addrinfo where
  "zero_ai = \<lparr>ai_flags = 0, ai_family = 0, ai_socktype = 0, ai_protocol = 0, ai_addrlen = 0, ai_canonname = None, ai_addr = None\<rparr>"

section \<open>Memory and the resolver\<close>

text \<open>
  \<open>mem\<close> tells of the next allocations whether they succeed (all do when it is used up), \<open>live\<close> counts the
  blocks that are allocated; \<open>unlinked\<close> has the paths that \<^verbatim>\<open>unlink\<close> was called for.
\<close>

record gai = proc +
  mem :: "bool list"
  live :: int
  unlinked :: "string list"

definition alloc :: "gai \<Rightarrow> bool \<times> gai" where
  "alloc g = (case mem g of
       [] \<Rightarrow> (True, g\<lparr>live := live g + 1\<rparr>)
     | b # bs \<Rightarrow> (b, g\<lparr>mem := bs, live := live g + (if b then 1 else 0)\<rparr>))"

datatype herr = HOST_NOT_FOUND | TRY_AGAIN | NO_RECOVERY | NO_DATA | OtherHerr

record hostent =
  h_name :: string
  h_addrtype :: int
  h_addr_list :: "8 word list list"

text \<open>\<^verbatim>\<open>gethostbyname\<close> depends on the option \<^verbatim>\<open>RES_USE_INET6\<close>; \<open>node\<close> is what \<^verbatim>\<open>uname\<close> gives.\<close>

record resolver =
  pton :: "int \<Rightarrow> string \<Rightarrow> 8 word list option"
  gethostbyname2 :: "string \<Rightarrow> int \<Rightarrow> hostent option"
  gethostbyname :: "bool \<Rightarrow> string \<Rightarrow> herr + hostent"
  getservbyname :: "string \<Rightarrow> string \<Rightarrow> 16 word option"
  node :: "string option"

section \<open>freeaddrinfo.c\<close>

definition ai_blocks :: "addrinfo \<Rightarrow> int" where
  "ai_blocks ai = (if ai_addr ai \<noteq> None then 1 else 0) + (if ai_canonname ai \<noteq> None then 1 else 0) + 1"

fun freeaddrinfo :: "addrinfo list \<Rightarrow> gai \<Rightarrow> gai" where
  "freeaddrinfo [] g = g"
| "freeaddrinfo (ai # ais) g = freeaddrinfo ais (g\<lparr>live := live g - ai_blocks ai\<rparr>)"

section \<open>ga_echeck.c\<close>

text \<open>A pointer to a string may be null; \<open>given\<close> tells that there is a string and it is not empty.\<close>

definition given :: "string option \<Rightarrow> bool" where
  "given s \<longleftrightarrow> s \<noteq> None \<and> s \<noteq> Some []"

definition ga_echeck :: "string option \<Rightarrow> string option \<Rightarrow> 32 word \<Rightarrow> int \<Rightarrow> int \<Rightarrow> int \<Rightarrow> int" where
  "ga_echeck hostname servname flags family socktype protocol =
     (if flags AND NOT (AI_PASSIVE OR AI_CANONNAME) \<noteq> 0 then EAI_BADFLAGS
      else if \<not> given hostname \<and> \<not> given servname then EAI_NONAME
      else if family = AF_UNSPEC then 0
      else if family = AF_INET \<or> family = AF_INET6 then
        (if socktype \<noteq> 0 \<and> socktype \<noteq> SOCK_STREAM \<and> socktype \<noteq> SOCK_DGRAM \<and> socktype \<noteq> SOCK_RAW
         then EAI_SOCKTYPE else 0)
      else if family = AF_LOCAL then
        (if socktype \<noteq> 0 \<and> socktype \<noteq> SOCK_STREAM \<and> socktype \<noteq> SOCK_DGRAM then EAI_SOCKTYPE else 0)
      else EAI_FAMILY)"

section \<open>ga_nsearch.c\<close>

definition ga_searches :: "string option \<Rightarrow> addrinfo \<Rightarrow> (string \<times> int) list" where
  "ga_searches hostname hints =
     (let family = ai_family hints in
      case hostname of
        Some (c # cs) \<Rightarrow>
          (if family = AF_INET then [(c # cs, AF_INET)]
           else if family = AF_INET6 then [(c # cs, AF_INET6)]
           else if family = AF_UNSPEC then [(c # cs, AF_INET6), (c # cs, AF_INET)] else [])
      | _ \<Rightarrow>
          (let (v4, v6) = (if ai_flags hints AND AI_PASSIVE \<noteq> 0 then (''0.0.0.0'', ''0::0'') else (''localhost'', ''0::1'')) in
           if family = AF_INET then [(v4, AF_INET)]
           else if family = AF_INET6 then [(v6, AF_INET6)]
           else if family = AF_UNSPEC then [(v6, AF_INET6), (v4, AF_INET)] else []))"

definition ga_nsearch :: "string option \<Rightarrow> addrinfo \<Rightarrow> gai \<Rightarrow> (stop \<times> gai) + (string \<times> int) list" where
  "ga_nsearch hostname hints g =
     (let search = ga_searches hostname hints; nsearch = length search in
      if nsearch < 1 \<or> 2 < nsearch then Inl (err_quit (''nsearch = '' @ show_nat nsearch) g)
      else Inr search)"

section \<open>ga_aistruct.c\<close>

text \<open>
  The new element goes to the end of the list, where \<^verbatim>\<open>aipnext\<close> points; \<open>addr\<close> holds the bytes of an
  address or a path.
\<close>

datatype raw = Bytes "8 word list" | Path string

definition ga_aistruct :: "addrinfo list \<Rightarrow> addrinfo \<Rightarrow> raw \<Rightarrow> int \<Rightarrow> gai \<Rightarrow> int \<times> addrinfo list \<times> gai" where
  "ga_aistruct ais hints addr family g =
     (case alloc g of
        (False, g1) \<Rightarrow> (EAI_MEMORY, ais, g1)
      | (True, g1) \<Rightarrow>
          (let ai = zero_ai\<lparr>ai_socktype := ai_socktype hints,
                 ai_flags := (if ai_socktype hints = 0 then AI_CLONE else 0),
                 ai_protocol := ai_protocol hints, ai_family := family\<rparr> in
           case addr of
             Bytes b \<Rightarrow>
               if family = AF_INET \<or> family = AF_INET6 then
                 (case alloc g1 of
                    (False, g2) \<Rightarrow> (EAI_MEMORY, ais @ [ai], g2)
                  | (True, g2) \<Rightarrow>
                      (0, ais @ [if family = AF_INET then ai\<lparr>ai_addr := Some (Sin (take 4 b) 0), ai_addrlen := 16\<rparr>
                                 else ai\<lparr>ai_addr := Some (Sin6 (take 16 b) 0), ai_addrlen := 28\<rparr>], g2))
               else (0, ais @ [ai], g1)
           | Path path \<Rightarrow>
               if SUN_PATH \<le> length path then (EAI_SERVICE, ais @ [ai], g1)
               else
                 (case alloc g1 of
                    (False, g2) \<Rightarrow> (EAI_MEMORY, ais @ [ai], g2)
                  | (True, g2) \<Rightarrow>
                      (0, ais @ [ai\<lparr>ai_addr := Some (Sun path), ai_addrlen := 110\<rparr>],
                       if ai_flags hints AND AI_PASSIVE \<noteq> 0 then g2\<lparr>unlinked := unlinked g2 @ [path]\<rparr> else g2))))"

section \<open>ga_clone.c and ga_port.c\<close>

text \<open>
  The value of \<open>ga_clone\<close>, and what is linked in behind the element: the new one is already there when
  the allocation of its address fails.
\<close>

definition ga_clone :: "addrinfo \<Rightarrow> gai \<Rightarrow> addrinfo option \<times> addrinfo list \<times> gai" where
  "ga_clone ai g =
     (case alloc g of
        (False, g1) \<Rightarrow> (None, [], g1)
      | (True, g1) \<Rightarrow>
          (let new = zero_ai\<lparr>ai_flags := 0, ai_family := ai_family ai, ai_socktype := ai_socktype ai,
                 ai_protocol := ai_protocol ai, ai_addrlen := ai_addrlen ai\<rparr> in
           case alloc g1 of
             (False, g2) \<Rightarrow> (None, [new], g2)
           | (True, g2) \<Rightarrow> (Some (new\<lparr>ai_addr := ai_addr ai\<rparr>), [new\<lparr>ai_addr := ai_addr ai\<rparr>], g2)))"

text \<open>Socket type and port of one element, and whether it counts.  An element of a list that was built has an address.\<close>

fun with_port :: "16 word \<Rightarrow> sa \<Rightarrow> sa" where
  "with_port port (Sin a p) = Sin a port"
| "with_port port (Sin6 a p) = Sin6 a port"
| "with_port port (Sun s) = Sun s"

definition set_port :: "16 word \<Rightarrow> int \<Rightarrow> addrinfo \<Rightarrow> addrinfo \<times> int" where
  "set_port port socktype ai =
     (let ai1 = ai\<lparr>ai_socktype := socktype\<rparr> in
      if ai_family ai1 = AF_INET \<or> ai_family ai1 = AF_INET6
      then (ai1\<lparr>ai_addr := map_option (with_port port) (ai_addr ai1)\<rparr>, 1) else (ai1, 0))"

fun ga_port :: "addrinfo list \<Rightarrow> 16 word \<Rightarrow> int \<Rightarrow> int \<Rightarrow> gai \<Rightarrow> int \<times> addrinfo list \<times> gai" where
  "ga_port [] port socktype nfound g = (nfound, [], g)"
| "ga_port (ai # ais) port socktype nfound g =
     (if ai_flags ai AND AI_CLONE \<noteq> 0 \<and> ai_socktype ai \<noteq> 0 then
        (case ga_clone ai g of
           (None, linked, g1) \<Rightarrow> (-1, ai # linked @ ais, g1)
         | (Some new, linked, g1) \<Rightarrow>
             (case set_port port socktype new of
                (new1, k) \<Rightarrow>
                  (case ga_port ais port socktype (nfound + k) g1 of (r, ais1, g2) \<Rightarrow> (r, ai # new1 # ais1, g2))))
      else if ai_flags ai AND AI_CLONE = 0 \<and> ai_socktype ai \<noteq> socktype then
        (case ga_port ais port socktype nfound g of (r, ais1, g1) \<Rightarrow> (r, ai # ais1, g1))
      else
        (case set_port port socktype ai of
           (ai1, k) \<Rightarrow> (case ga_port ais port socktype (nfound + k) g of (r, ais1, g1) \<Rightarrow> (r, ai1 # ais1, g1))))"

section \<open>ga_serv.c\<close>

text \<open>The calls of \<open>ga_port\<close>, one after the other, and the number of elements found.\<close>

fun ga_ports :: "(int \<times> 16 word) list \<Rightarrow> addrinfo list \<Rightarrow> int \<Rightarrow> gai \<Rightarrow> int option \<times> addrinfo list \<times> gai" where
  "ga_ports [] ais nfound g = (Some nfound, ais, g)"
| "ga_ports ((socktype, port) # sps) ais nfound g =
     (case ga_port ais port socktype 0 g of
        (rc, ais1, g1) \<Rightarrow> if rc < 0 then (None, ais1, g1) else ga_ports sps ais1 (nfound + rc) g1)"

text \<open>\<^verbatim>\<open>htons\<close> keeps 16 bits.  The resolver is asked in this order; its answers do not depend on the calls between.\<close>

definition serv_ports :: "resolver \<Rightarrow> addrinfo \<Rightarrow> string \<Rightarrow> (int \<times> 16 word) list" where
  "serv_ports r hints serv =
     (if serv \<noteq> [] \<and> isdigit (hd serv) then
        (let port = of_int (atoi serv) in
         if ai_socktype hints \<noteq> 0 then [(ai_socktype hints, port)] else [(SOCK_STREAM, port), (SOCK_DGRAM, port)])
      else
        (if ai_socktype hints = 0 \<or> ai_socktype hints = SOCK_STREAM then
           (case getservbyname r serv ''tcp'' of None \<Rightarrow> [] | Some port \<Rightarrow> [(SOCK_STREAM, port)]) else [])
        @ (if ai_socktype hints = 0 \<or> ai_socktype hints = SOCK_DGRAM then
           (case getservbyname r serv ''udp'' of None \<Rightarrow> [] | Some port \<Rightarrow> [(SOCK_DGRAM, port)]) else []))"

definition ga_serv :: "resolver \<Rightarrow> addrinfo list \<Rightarrow> addrinfo \<Rightarrow> string \<Rightarrow> gai \<Rightarrow> int \<times> addrinfo list \<times> gai" where
  "ga_serv r aihead hints serv g =
     (case ga_ports (serv_ports r hints serv) aihead 0 g of
        (None, ais, g1) \<Rightarrow> (EAI_MEMORY, ais, g1)
      | (Some nfound, ais, g1) \<Rightarrow>
          (if nfound = 0 then (if ai_socktype hints = 0 then EAI_NONAME else EAI_SERVICE) else 0, ais, g1))"

section \<open>ga_unix.c\<close>

text \<open>The list is not freed after a failure.\<close>

definition ga_unix :: "resolver \<Rightarrow> string \<Rightarrow> addrinfo \<Rightarrow> gai \<Rightarrow> int \<times> addrinfo list \<times> gai" where
  "ga_unix r path hints g =
     (if ai_family hints \<noteq> AF_UNSPEC \<and> ai_family hints \<noteq> AF_LOCAL then (EAI_ADDRFAMILY, [], g)
      else
        (let first = (if ai_socktype hints = 0
               then ga_aistruct [] (hints\<lparr>ai_socktype := SOCK_STREAM\<rparr>) (Path path) AF_LOCAL g else (0, [], g));
             hints1 = (if ai_socktype hints = 0 then hints\<lparr>ai_socktype := SOCK_DGRAM\<rparr> else hints) in
         case first of
           (rc, ais, g1) \<Rightarrow>
             if rc \<noteq> 0 then (rc, [], g1)
             else
               (case ga_aistruct ais hints1 (Path path) AF_LOCAL g1 of
                  (rc, ais1, g2) \<Rightarrow>
                    if rc \<noteq> 0 then (rc, [], g2)
                    else if ai_flags hints AND AI_CANONNAME \<noteq> 0 then
                      (case node r of
                         None \<Rightarrow> (EAI_SYSTEM, [], g2)
                       | Some name \<Rightarrow>
                           (case alloc g2 of
                              (False, g3) \<Rightarrow> (EAI_MEMORY, [], g3)
                            | (True, g3) \<Rightarrow> (0, ais1[0 := (ais1 ! 0)\<lparr>ai_canonname := Some name\<rparr>], g3)))
                    else (0, ais1, g2))))"

section \<open>getaddrinfo.c\<close>

definition isxdigit :: "char \<Rightarrow> bool" where
  "isxdigit c \<longleftrightarrow> c \<in> set ''0123456789abcdefABCDEF''"

text \<open>The host string as an address: the family it is of, and its bytes.\<close>

definition literal :: "resolver \<Rightarrow> string \<Rightarrow> (int \<times> 8 word list) option" where
  "literal r host =
     (case (if host \<noteq> [] \<and> isdigit (hd host) then pton r AF_INET host else None) of
        Some b \<Rightarrow> Some (AF_INET, b)
      | None \<Rightarrow>
          (case (if host \<noteq> [] \<and> (isxdigit (hd host) \<or> hd host = CHR '':'') \<and> CHR '':'' \<in> set host
                 then pton r AF_INET6 host else None) of
             Some b \<Rightarrow> Some (AF_INET6, b)
           | None \<Rightarrow> None))"

text \<open>One element for each address of a host.\<close>

fun ga_aistructs :: "addrinfo list \<Rightarrow> addrinfo \<Rightarrow> 8 word list list \<Rightarrow> int \<Rightarrow> gai \<Rightarrow> int \<times> addrinfo list \<times> gai" where
  "ga_aistructs ais hints [] family g = (0, ais, g)"
| "ga_aistructs ais hints (b # bs) family g =
     (case ga_aistruct ais hints (Bytes b) family g of
        (rc, ais1, g1) \<Rightarrow> if rc \<noteq> 0 then (rc, ais1, g1) else ga_aistructs ais1 hints bs family g1)"

definition eai_of :: "herr \<Rightarrow> int" where
  "eai_of e = (case e of HOST_NOT_FOUND \<Rightarrow> EAI_NONAME | TRY_AGAIN \<Rightarrow> EAI_AGAIN | NO_RECOVERY \<Rightarrow> EAI_FAIL
     | NO_DATA \<Rightarrow> EAI_NODATA | OtherHerr \<Rightarrow> EAI_NONAME)"

text \<open>The answer of the resolver for one search: nothing when another search follows or went before.\<close>

definition lookup_host :: "resolver \<Rightarrow> nat \<Rightarrow> string \<Rightarrow> int \<Rightarrow> int + hostent option" where
  "lookup_host r nsearch host family =
     (if nsearch = 2 then Inr (gethostbyname2 r host family)
      else (case gethostbyname r (family = AF_INET6) host of
              Inl e \<Rightarrow> Inl (eai_of e)
            | Inr h \<Rightarrow> Inr (Some h)))"

type_synonym gai_state = "addrinfo list \<times> string option \<times> gai"

text \<open>One search: 0 to go on, or the error; \<open>canon\<close> is the canonical name that was saved.\<close>

definition gai_turn :: "resolver \<Rightarrow> nat \<Rightarrow> string option \<Rightarrow> addrinfo \<Rightarrow> string \<times> int \<Rightarrow> gai_state \<Rightarrow> int \<times> gai_state" where
  "gai_turn r nsearch hostname hints sptr st =
     (case (sptr, st) of ((host, family), (ais, canon, g)) \<Rightarrow>
        (case literal r host of
           Some (af, b) \<Rightarrow>
             (if ai_family hints \<noteq> AF_UNSPEC \<and> ai_family hints \<noteq> af then (EAI_ADDRFAMILY, ais, canon, g)
              else if family \<noteq> af then (0, ais, canon, g)
              else (case ga_aistruct ais hints (Bytes b) af g of (rc, ais1, g1) \<Rightarrow> (rc, ais1, canon, g1)))
         | None \<Rightarrow>
             (case lookup_host r nsearch host family of
                Inl e \<Rightarrow> (e, ais, canon, g)
              | Inr None \<Rightarrow> (0, ais, canon, g)
              | Inr (Some hptr) \<Rightarrow>
                  (if ai_family hints \<noteq> AF_UNSPEC \<and> ai_family hints \<noteq> h_addrtype hptr then (EAI_ADDRFAMILY, ais, canon, g)
                   else
                     (let saves = (given hostname \<and> ai_flags hints AND AI_CANONNAME \<noteq> 0 \<and> canon = None);
                          dup = (if saves then alloc g else (True, g)) in
                      case dup of
                        (False, g1) \<Rightarrow> (EAI_MEMORY, ais, canon, g1)
                      | (True, g1) \<Rightarrow>
                          (case ga_aistructs ais hints (h_addr_list hptr) (h_addrtype hptr) g1 of
                             (rc, ais1, g2) \<Rightarrow> (rc, ais1, if saves then Some (h_name hptr) else canon, g2)))))))"

fun gai_searches ::
    "resolver \<Rightarrow> nat \<Rightarrow> string option \<Rightarrow> addrinfo \<Rightarrow> (string \<times> int) list \<Rightarrow> gai_state \<Rightarrow> int \<times> gai_state" where
  "gai_searches r nsearch hostname hints [] st = (0, st)"
| "gai_searches r nsearch hostname hints (s # ss) st =
     (case gai_turn r nsearch hostname hints s st of
        (rc, st1) \<Rightarrow> if rc \<noteq> 0 then (rc, st1) else gai_searches r nsearch hostname hints ss st1)"

text \<open>The label \<^verbatim>\<open>bad\<close>: the list is freed, a saved name that is not in the list is not.\<close>

definition gai_bad :: "int \<Rightarrow> addrinfo list \<Rightarrow> gai \<Rightarrow> stop \<times> int \<times> addrinfo list \<times> gai" where
  "gai_bad rc ais g = (Returns, rc, [], freeaddrinfo ais g)"

definition gai_canon :: "string option \<Rightarrow> addrinfo \<Rightarrow> string \<Rightarrow> gai_state \<Rightarrow> int \<times> addrinfo list \<times> gai" where
  "gai_canon hostname hints host st =
     (case st of (ais, canon, g) \<Rightarrow>
        if given hostname \<and> ai_flags hints AND AI_CANONNAME \<noteq> 0 then
          (case canon of
             Some c \<Rightarrow> (0, ais[0 := (ais ! 0)\<lparr>ai_canonname := Some c\<rparr>], g)
           | None \<Rightarrow>
               (case alloc g of
                  (False, g1) \<Rightarrow> (EAI_MEMORY, ais, g1)
                | (True, g1) \<Rightarrow> (0, ais[0 := (ais ! 0)\<lparr>ai_canonname := Some host\<rparr>], g1)))
        else (0, ais, g))"

definition is_unix :: "string option \<Rightarrow> string option \<Rightarrow> bool" where
  "is_unix hostname servname \<longleftrightarrow> (hostname = Some ''/local'' \<or> hostname = Some ''/unix'')
     \<and> (case servname of Some (c # cs) \<Rightarrow> c = CHR ''/'' | _ \<Rightarrow> False)"

definition getaddrinfo ::
    "resolver \<Rightarrow> string option \<Rightarrow> string option \<Rightarrow> addrinfo option \<Rightarrow> gai \<Rightarrow> stop \<times> int \<times> addrinfo list \<times> gai" where
  "getaddrinfo r hostname servname hintsp g =
     (let hints = (case hintsp of None \<Rightarrow> zero_ai\<lparr>ai_family := AF_UNSPEC\<rparr> | Some h \<Rightarrow> h);
          rc = ga_echeck hostname servname (ai_flags hints) (ai_family hints) (ai_socktype hints) (ai_protocol hints) in
      if rc \<noteq> 0 then gai_bad rc [] g
      else if is_unix hostname servname then (Returns, ga_unix r (the servname) hints g)
      else
        (case ga_nsearch hostname hints g of
           Inl (s, g1) \<Rightarrow> (s, 0, [], g1)
         | Inr search \<Rightarrow>
             (case gai_searches r (length search) hostname hints search ([], None, g) of
                (rc, ais, canon, g1) \<Rightarrow>
                  if rc \<noteq> 0 then gai_bad rc ais g1
                  else if ais = [] then gai_bad EAI_NONAME ais g1
                  else
                    (case gai_canon hostname hints (fst (search ! 0)) (ais, canon, g1) of
                       (rc, ais1, g2) \<Rightarrow>
                         if rc \<noteq> 0 then gai_bad rc ais1 g2
                         else if given servname then
                           (case ga_serv r ais1 hints (the servname) g2 of
                              (rc, ais2, g3) \<Rightarrow> if rc \<noteq> 0 then gai_bad rc ais2 g3 else (Returns, 0, ais2, g3))
                         else (Returns, 0, ais1, g2)))))"

section \<open>Memory\<close>

definition owned :: "addrinfo list \<Rightarrow> int" where
  "owned ais = sum_list (map ai_blocks ais)"

lemma owned_simps [simp]: "owned [] = 0" "owned (a # ais) = ai_blocks a + owned ais" "owned (ais @ bs) = owned ais + owned bs"
  by (simp_all add: owned_def)

lemma free_live: "live (freeaddrinfo ais g) = live g - owned ais"
  by (induction ais g rule: freeaddrinfo.induct) simp_all

lemma alloc_live: "alloc g = (b, g') \<Longrightarrow> live g' = live g + (if b then 1 else 0)"
  by (auto simp: alloc_def split: list.splits)

text \<open>What a function allocates, the list owns afterwards.\<close>

lemma aistruct_live:
  "ga_aistruct ais hints addr family g = (rc, ais', g') \<Longrightarrow> live g' - owned ais' = live g - owned ais"
  by (auto simp: ga_aistruct_def Let_def ai_blocks_def zero_ai_def dest!: alloc_live
      split: prod.splits bool.splits raw.splits if_splits)

lemma aistructs_live:
  "ga_aistructs ais hints bs family g = (rc, ais', g') \<Longrightarrow> live g' - owned ais' = live g - owned ais"
  by (induction ais hints bs family g rule: ga_aistructs.induct)
    (auto dest: aistruct_live split: prod.splits if_splits)

lemma set_port_blocks: "set_port port st ai = (ai', k) \<Longrightarrow> ai_blocks ai' = ai_blocks ai"
  by (auto simp: set_port_def Let_def ai_blocks_def split: if_splits)

lemma clone_live:
  "ga_clone ai g = (x, linked, g') \<Longrightarrow> ai_addr ai \<noteq> None \<Longrightarrow> live g' - owned linked = live g \<and> (case x of None \<Rightarrow> True | Some n \<Rightarrow> linked = [n])"
  by (auto simp: ga_clone_def Let_def ai_blocks_def zero_ai_def dest!: alloc_live split: prod.splits bool.splits)

lemma port_live:
  "ga_port ais port st n g = (rc, ais', g') \<Longrightarrow> \<forall>ai \<in> set ais. ai_addr ai \<noteq> None
   \<Longrightarrow> live g' - owned ais' = live g - owned ais"
proof (induction ais port st n g arbitrary: rc ais' g' rule: ga_port.induct)
  case (2 ai ais port st n g)
  show ?case
  proof (cases "ai_flags ai AND AI_CLONE \<noteq> 0 \<and> ai_socktype ai \<noteq> 0")
    case True
    obtain x linked g1 where c: "ga_clone ai g = (x, linked, g1)" by (cases "ga_clone ai g")
    note cl = clone_live [OF this]
    show ?thesis
    proof (cases x)
      case None
      with 2(4,5) True c cl show ?thesis by auto
    next
      case (Some new)
      obtain new1 k where s: "set_port port st new = (new1, k)" by (cases "set_port port st new")
      obtain r2 ais2 g2 where p: "ga_port ais port st (n + k) g1 = (r2, ais2, g2)" by (cases "ga_port ais port st (n + k) g1")
      have "live g2 - owned ais2 = live g1 - owned ais"
        using "2.IH"(1) [OF True c [symmetric] Some refl s [symmetric] p] 2(5) by simp
      with 2(4,5) True c cl Some s p set_port_blocks [OF s] show ?thesis by auto
    qed
  next
    case no: False
    show ?thesis
    proof (cases "ai_flags ai AND AI_CLONE = 0 \<and> ai_socktype ai \<noteq> st")
      case True
      obtain r2 ais2 g2 where p: "ga_port ais port st n g = (r2, ais2, g2)" by (cases "ga_port ais port st n g")
      from "2.IH"(2) [OF no True p] 2(4,5) no True p show ?thesis by auto
    next
      case False
      obtain ai1 k where s: "set_port port st ai = (ai1, k)" by (cases "set_port port st ai")
      obtain r2 ais2 g2 where p: "ga_port ais port st (n + k) g = (r2, ais2, g2)" by (cases "ga_port ais port st (n + k) g")
      from "2.IH"(3) [OF no False s [symmetric] p] 2(4,5) no False s p set_port_blocks [OF s] show ?thesis by auto
    qed
  qed
qed simp

text \<open>The resolver gives Internet addresses; then every element that was finished has an address.\<close>

definition resolver_ok :: "resolver \<Rightarrow> bool" where
  "resolver_ok r \<longleftrightarrow> (\<forall>host family h. gethostbyname2 r host family = Some h \<longrightarrow> h_addrtype h \<in> {AF_INET, AF_INET6})
     \<and> (\<forall>v6 host h. gethostbyname r v6 host = Inr h \<longrightarrow> h_addrtype h \<in> {AF_INET, AF_INET6})"

definition addressed :: "addrinfo list \<Rightarrow> bool" where
  "addressed ais \<longleftrightarrow> (\<forall>ai \<in> set ais. ai_addr ai \<noteq> None)"

lemma aistruct_addressed:
  "ga_aistruct ais hints (Bytes b) family g = (0, ais', g') \<Longrightarrow> addressed ais \<Longrightarrow> family \<in> {AF_INET, AF_INET6} \<Longrightarrow> addressed ais'"
  by (auto simp: ga_aistruct_def Let_def addressed_def EAI_MEMORY_def split: prod.splits bool.splits if_splits)

lemma aistructs_addressed:
  "ga_aistructs ais hints bs family g = (0, ais', g') \<Longrightarrow> addressed ais \<Longrightarrow> family \<in> {AF_INET, AF_INET6} \<Longrightarrow> addressed ais'"
  by (induction ais hints bs family g rule: ga_aistructs.induct)
    (auto dest: aistruct_addressed split: prod.splits if_splits)

lemma set_port_addr: "set_port port st ai = (ai', k) \<Longrightarrow> ai_addr ai \<noteq> None \<Longrightarrow> ai_addr ai' \<noteq> None \<and> 0 \<le> k"
  by (auto simp: set_port_def Let_def split: if_splits)

lemma clone_addr: "ga_clone ai g = (Some new, linked, g') \<Longrightarrow> ai_addr new = ai_addr ai"
  by (auto simp: ga_clone_def Let_def split: prod.splits bool.splits)

lemma port_addressed:
  "ga_port ais port st n g = (rc, ais', g') \<Longrightarrow> addressed ais \<Longrightarrow> 0 \<le> n \<Longrightarrow> 0 \<le> rc \<Longrightarrow> addressed ais'"
proof (induction ais port st n g arbitrary: rc ais' g' rule: ga_port.induct)
  case (2 ai ais port st n g)
  have a: "ai_addr ai \<noteq> None" "addressed ais" using 2(5) by (auto simp: addressed_def)
  show ?case
  proof (cases "ai_flags ai AND AI_CLONE \<noteq> 0 \<and> ai_socktype ai \<noteq> 0")
    case True
    obtain x linked g1 where c: "ga_clone ai g = (x, linked, g1)" by (cases "ga_clone ai g")
    with 2(4,7) True obtain new where x: "x = Some new" by (cases x) auto
    obtain new1 k where s: "set_port port st new = (new1, k)" by (cases "set_port port st new")
    obtain r2 ais2 g2 where p: "ga_port ais port st (n + k) g1 = (r2, ais2, g2)" by (cases "ga_port ais port st (n + k) g1")
    have n: "ai_addr new1 \<noteq> None" "0 \<le> k" using set_port_addr [OF s] clone_addr [of ai g new linked g1] c x a(1) by auto
    from 2(4) True c x s p have e: "ais' = ai # new1 # ais2" "rc = r2" by auto
    with "2.IH"(1) [OF True c [symmetric] x refl s [symmetric] p a(2)] n 2(6,7) a show ?thesis by (simp add: addressed_def)
  next
    case no: False
    show ?thesis
    proof (cases "ai_flags ai AND AI_CLONE = 0 \<and> ai_socktype ai \<noteq> st")
      case True
      obtain r2 ais2 g2 where p: "ga_port ais port st n g = (r2, ais2, g2)" by (cases "ga_port ais port st n g")
      from 2(4) no True p have "ais' = ai # ais2" "rc = r2" by auto
      with "2.IH"(2) [OF no True p a(2)] 2(6,7) a show ?thesis by (simp add: addressed_def)
    next
      case False
      obtain ai1 k where s: "set_port port st ai = (ai1, k)" by (cases "set_port port st ai")
      obtain r2 ais2 g2 where p: "ga_port ais port st (n + k) g = (r2, ais2, g2)" by (cases "ga_port ais port st (n + k) g")
      from 2(4) no False s p have "ais' = ai1 # ais2" "rc = r2" by auto
      with "2.IH"(3) [OF no False s [symmetric] p a(2)] set_port_addr [OF s a(1)] 2(6,7) a show ?thesis by (simp add: addressed_def)
    qed
  qed
qed (simp add: addressed_def)

lemma ports_live:
  "ga_ports sps ais n g = (x, ais', g') \<Longrightarrow> addressed ais \<Longrightarrow> live g' - owned ais' = live g - owned ais"
proof (induction sps ais n g arbitrary: x ais' g' rule: ga_ports.induct)
  case (2 st port sps ais n g)
  obtain rc ais1 g1 where p: "ga_port ais port st 0 g = (rc, ais1, g1)" by (cases "ga_port ais port st 0 g")
  have l: "live g1 - owned ais1 = live g - owned ais" using port_live [OF p] 2(3) by (simp add: addressed_def)
  show ?case
  proof (cases "rc < 0")
    case True
    with 2(2) p l show ?thesis by simp
  next
    case False
    with port_addressed [OF p 2(3)] have "addressed ais1" by simp
    with "2.IH" [OF p [symmetric] refl False] 2(2) p False l show ?thesis by simp
  qed
qed simp

lemma serv_live:
  "ga_serv r ais hints serv g = (rc, ais', g') \<Longrightarrow> addressed ais \<Longrightarrow> live g' - owned ais' = live g - owned ais"
  by (auto simp: ga_serv_def dest: ports_live split: prod.splits option.splits)

definition canon_block :: "string option \<Rightarrow> int" where
  "canon_block c = (if c = None then 0 else 1)"

definition balance :: "gai_state \<Rightarrow> int" where
  "balance st = (case st of (ais, canon, g) \<Rightarrow> live g - owned ais - canon_block canon)"

lemma balance_simps [simp]: "balance (ais, canon, g) = live g - owned ais - canon_block canon"
  by (simp add: balance_def)

text \<open>A search keeps the balance; a name is saved only when one is asked for.\<close>

definition names_asked :: "string option \<Rightarrow> addrinfo \<Rightarrow> string option \<Rightarrow> bool" where
  "names_asked hostname hints canon \<longleftrightarrow> canon = None \<or> given hostname \<and> ai_flags hints AND AI_CANONNAME \<noteq> 0"

definition unnamed :: "addrinfo list \<Rightarrow> bool" where
  "unnamed ais \<longleftrightarrow> (\<forall>ai \<in> set ais. ai_canonname ai = None)"

lemma aistruct_unnamed:
  "ga_aistruct ais hints addr family g = (rc, ais', g') \<Longrightarrow> unnamed ais \<Longrightarrow> unnamed ais'"
  by (auto simp: ga_aistruct_def Let_def unnamed_def zero_ai_def split: prod.splits bool.splits raw.splits if_splits)

lemma aistructs_unnamed:
  "ga_aistructs ais hints bs family g = (rc, ais', g') \<Longrightarrow> unnamed ais \<Longrightarrow> unnamed ais'"
  by (induction ais hints bs family g rule: ga_aistructs.induct)
    (auto dest: aistruct_unnamed split: prod.splits if_splits)

lemma turn_unnamed:
  "gai_turn r n hostname hints sptr (ais, canon, g) = (rc, ais', canon', g') \<Longrightarrow> unnamed ais \<Longrightarrow> unnamed ais'"
  by (auto simp: gai_turn_def Let_def dest: aistruct_unnamed aistructs_unnamed
      split: prod.splits option.splits sum.splits if_splits bool.splits)

lemma searches_unnamed:
  "gai_searches r n hostname hints ss st = (rc, st') \<Longrightarrow> unnamed (fst st) \<Longrightarrow> unnamed (fst st')"
proof (induction r n hostname hints ss st rule: gai_searches.induct)
  case (2 r n hostname hints s ss st)
  obtain rc1 st1 where t: "gai_turn r n hostname hints s st = (rc1, st1)" by (cases "gai_turn r n hostname hints s st")
  then have "unnamed (fst st1)"
    using 2(3) turn_unnamed [of r n hostname hints s "fst st" "fst (snd st)" "snd (snd st)" rc1 "fst st1" "fst (snd st1)" "snd (snd st1)"]
    by simp
  with 2 t show ?case by (auto split: if_splits)
qed simp

lemma literal_family: "literal r host = Some (af, b) \<Longrightarrow> af \<in> {AF_INET, AF_INET6}"
  by (auto simp: literal_def split: option.splits if_splits)

lemma lookup_family: "resolver_ok r \<Longrightarrow> lookup_host r n host family = Inr (Some h) \<Longrightarrow> h_addrtype h \<in> {AF_INET, AF_INET6}"
  by (auto simp: lookup_host_def resolver_ok_def split: if_splits sum.splits)

lemma turn_keeps:
  assumes "gai_turn r n hostname hints sptr (ais, canon, g) = (rc, ais', canon', g')" and "resolver_ok r"
    and "addressed ais" and "names_asked hostname hints canon"
  shows "balance (ais', canon', g') = balance (ais, canon, g) \<and> names_asked hostname hints canon' \<and> (rc = 0 \<longrightarrow> addressed ais')"
proof -
  obtain host family where sp: "sptr = (host, family)" by (cases sptr)
  show ?thesis
  proof (cases "literal r host")
    case (Some x)
    obtain af b where x: "x = (af, b)" by (cases x)
    have "rc = 0 \<longrightarrow> addressed ais'"
      using assms(1,3) sp Some x literal_family [of r host af b] aistruct_addressed [of ais hints b af g ais' g']
      by (auto simp: gai_turn_def split: prod.splits if_splits)
    moreover have "live g' - owned ais' = live g - owned ais" "canon' = canon"
      using assms(1) sp Some x aistruct_live by (auto simp: gai_turn_def split: prod.splits if_splits)
    ultimately show ?thesis using assms(4) by simp
  next
    case None
    show ?thesis
    proof (cases "lookup_host r n host family")
      case (Inl e)
      with assms sp None show ?thesis by (simp add: gai_turn_def EAI_ADDRFAMILY_def)
    next
      case (Inr y)
      show ?thesis
      proof (cases y)
        case None
        with assms sp \<open>literal r host = None\<close> Inr show ?thesis by (simp add: gai_turn_def)
      next
        case (Some h)
        let ?saves = "given hostname \<and> ai_flags hints AND AI_CANONNAME \<noteq> 0 \<and> canon = None"
        have f: "h_addrtype h \<in> {AF_INET, AF_INET6}" using lookup_family [OF assms(2)] Inr Some by blast
        obtain ok g1 where d: "(if ?saves then alloc g else (True, g)) = (ok, g1)" by (cases "if ?saves then alloc g else (True, g)")
        then have l1: "live g1 = live g + (if ?saves \<and> ok then 1 else 0)" using alloc_live by (auto split: if_splits)
        obtain rc2 ais2 g2 where a: "ga_aistructs ais hints (h_addr_list h) (h_addrtype h) g1 = (rc2, ais2, g2)"
          by (cases "ga_aistructs ais hints (h_addr_list h) (h_addrtype h) g1")
        note a2 = aistructs_live [OF a] and a3 = aistructs_addressed [of ais hints "h_addr_list h" "h_addrtype h" g1 ais2 g2]
        consider (fam) "(rc, ais', canon', g') = (EAI_ADDRFAMILY, ais, canon, g)"
          | (nomem) "\<not> ok" "(rc, ais', canon', g') = (EAI_MEMORY, ais, canon, g1)"
          | (go) ok "(rc, ais', canon', g') = (rc2, ais2, if ?saves then Some (h_name h) else canon, g2)"
          using assms(1) sp \<open>literal r host = None\<close> Inr Some d a
          by (simp add: gai_turn_def Let_def split: if_splits bool.splits)
        then show ?thesis
        proof cases
          case fam
          then show ?thesis using assms(4) by (simp add: EAI_ADDRFAMILY_def)
        next
          case nomem
          then show ?thesis using assms(4) l1 by (simp add: EAI_MEMORY_def)
        next
          case go
          then show ?thesis using assms(3,4) l1 a2 a3 a f by (auto simp: canon_block_def names_asked_def)
        qed
      qed
    qed
  qed
qed

lemma searches_keep:
  "gai_searches r n hostname hints ss st = (rc, st') \<Longrightarrow> resolver_ok r \<Longrightarrow> addressed (fst st) \<Longrightarrow> names_asked hostname hints (fst (snd st))
   \<Longrightarrow> balance st' = balance st \<and> names_asked hostname hints (fst (snd st')) \<and> (rc = 0 \<longrightarrow> addressed (fst st'))"
proof (induction r n hostname hints ss st rule: gai_searches.induct)
  case (2 r n hostname hints s ss st)
  obtain rc1 st1 where t: "gai_turn r n hostname hints s st = (rc1, st1)" by (cases "gai_turn r n hostname hints s st")
  have k: "balance st1 = balance st \<and> names_asked hostname hints (fst (snd st1)) \<and> (rc1 = 0 \<longrightarrow> addressed (fst st1))"
    using turn_keeps [of r n hostname hints s "fst st" "fst (snd st)" "snd (snd st)" rc1 "fst st1" "fst (snd st1)" "snd (snd st1)"]
      t 2(3-5) by simp
  show ?case
  proof (cases "rc1 = 0")
    case True
    with 2 t k show ?thesis by auto
  next
    case False
    with 2(2) t k show ?thesis by simp
  qed
qed simp

lemma canon_keeps:
  assumes "gai_canon hostname hints host (ais, canon, g) = (rc, ais', g')" and "addressed ais" and "ais \<noteq> []"
    and "names_asked hostname hints canon" and "unnamed ais"
  shows "live g' - owned ais' = balance (ais, canon, g)" "addressed ais'"
proof -
  obtain a as where a: "ais = a # as" using assms(3) by (cases ais) auto
  show "live g' - owned ais' = balance (ais, canon, g)"
    using assms a by (auto simp: gai_canon_def names_asked_def unnamed_def canon_block_def ai_blocks_def dest!: alloc_live
        split: if_splits option.splits prod.splits bool.splits)
  show "addressed ais'" using assms a
    by (auto simp: gai_canon_def addressed_def split: if_splits option.splits prod.splits bool.splits)
qed

lemma bad_live: "gai_bad rc ais g = (s, rc', ais', g') \<Longrightarrow> s = Returns \<and> rc' = rc \<and> ais' = [] \<and> live g' = live g - owned ais"
  by (auto simp: gai_bad_def free_live)

lemma getaddrinfo_memory:
  assumes "getaddrinfo r hostname servname hintsp g = (Returns, rc, ais, g')" and "resolver_ok r"
    and "\<not> is_unix hostname servname"
  shows "rc = 0 \<and> live g' = live g + owned ais
    \<or> rc \<noteq> 0 \<and> ais = [] \<and> (live g' = live g
      \<or> live g' = live g + 1 \<and> given hostname \<and> (\<exists>h. hintsp = Some h \<and> ai_flags h AND AI_CANONNAME \<noteq> 0))"
proof -
  let ?hints = "case hintsp of None \<Rightarrow> zero_ai\<lparr>ai_family := AF_UNSPEC\<rparr> | Some h \<Rightarrow> h"
  let ?rc = "ga_echeck hostname servname (ai_flags ?hints) (ai_family ?hints) (ai_socktype ?hints) (ai_protocol ?hints)"
  show ?thesis
  proof (cases "?rc = 0")
    case False
    with assms(1) show ?thesis by (auto simp: getaddrinfo_def Let_def gai_bad_def)
  next
    case True
    obtain search where ns: "ga_nsearch hostname ?hints g = Inr search"
      using assms True by (cases "ga_nsearch hostname ?hints g")
        (auto simp: getaddrinfo_def Let_def ga_nsearch_def err_quit_def split: if_splits)
    obtain rc1 ais1 canon g1 where se: "gai_searches r (length search) hostname ?hints search ([], None, g) = (rc1, ais1, canon, g1)"
      by (cases "gai_searches r (length search) hostname ?hints search ([], None, g)") auto
    have k: "live g1 - owned ais1 - canon_block canon = live g" "names_asked hostname ?hints canon" "rc1 = 0 \<longrightarrow> addressed ais1"
      using searches_keep [OF se assms(2)] by (simp_all add: addressed_def names_asked_def canon_block_def)
    have u: "unnamed ais1" using searches_unnamed [OF se] by (simp add: unnamed_def)
    have leak: "canon \<noteq> None \<longrightarrow> given hostname \<and> (\<exists>h. hintsp = Some h \<and> ai_flags h AND AI_CANONNAME \<noteq> 0)"
      using k(2) by (auto simp: names_asked_def zero_ai_def split: option.splits)
    have e: "(Returns, rc, ais, g') =
        (if rc1 \<noteq> 0 then gai_bad rc1 ais1 g1
         else if ais1 = [] then gai_bad EAI_NONAME ais1 g1
         else
           (case gai_canon hostname ?hints (fst (search ! 0)) (ais1, canon, g1) of
              (rc, ais1, g2) \<Rightarrow>
                if rc \<noteq> 0 then gai_bad rc ais1 g2
                else if given servname then
                  (case ga_serv r ais1 ?hints (the servname) g2 of
                     (rc, ais2, g3) \<Rightarrow> if rc \<noteq> 0 then gai_bad rc ais2 g3 else (Returns, 0, ais2, g3))
                else (Returns, 0, ais1, g2)))"
      using assms(1,3) True ns se by (simp add: getaddrinfo_def Let_def)
    show ?thesis
    proof (cases "rc1 \<noteq> 0 \<or> ais1 = []")
      case True
      have "gai_bad (if rc1 \<noteq> 0 then rc1 else EAI_NONAME) ais1 g1 = (Returns, rc, ais, g')" using e True by (auto split: if_splits)
      from bad_live [OF this] k(1) leak True show ?thesis
        by (auto simp: canon_block_def EAI_NONAME_def split: if_splits)
    next
      case False
      obtain rc2 ais2 g2 where c: "gai_canon hostname ?hints (fst (search ! 0)) (ais1, canon, g1) = (rc2, ais2, g2)"
        by (cases "gai_canon hostname ?hints (fst (search ! 0)) (ais1, canon, g1)") auto
      from canon_keeps [OF c _ _ k(2) u] k(1,3) False have l2: "live g2 - owned ais2 = live g" "addressed ais2" by simp_all
      obtain rc3 ais3 g3 where sv: "ga_serv r ais2 ?hints (the servname) g2 = (rc3, ais3, g3)"
        by (cases "ga_serv r ais2 ?hints (the servname) g2") auto
      have l3: "live g3 - owned ais3 = live g" using serv_live [OF sv l2(2)] l2(1) by simp
      show ?thesis using e False c sv l2(1) l3
        by (auto simp: gai_bad_def free_live split: if_splits)
    qed
  qed
qed

section \<open>The list\<close>

text \<open>What a caller reads in an element.\<close>

definition shown_ai :: "addrinfo \<Rightarrow> int \<times> int \<times> int \<times> nat \<times> sa option" where
  "shown_ai ai = (ai_family ai, ai_socktype ai, ai_protocol ai, ai_addrlen ai, ai_addr ai)"

definition sa_for :: "int \<times> 8 word list \<Rightarrow> 16 word \<Rightarrow> sa" where
  "sa_for a port = (if fst a = AF_INET then Sin (take 4 (snd a)) port else Sin6 (take 16 (snd a)) port)"

definition entry :: "addrinfo \<Rightarrow> 32 word \<Rightarrow> string option \<Rightarrow> int \<times> 8 word list \<Rightarrow> int \<times> 16 word \<Rightarrow> addrinfo" where
  "entry hints fl c a sp = \<lparr>ai_flags = fl, ai_family = fst a, ai_socktype = fst sp, ai_protocol = ai_protocol hints,
     ai_addrlen = (if fst a = AF_INET then 16 else 28), ai_canonname = c, ai_addr = Some (sa_for a (snd sp))\<rparr>"

definition clone_flag :: "addrinfo \<Rightarrow> 32 word" where
  "clone_flag hints = (if ai_socktype hints = 0 then AI_CLONE else 0)"

definition inet_addrs :: "(int \<times> 8 word list) list \<Rightarrow> bool" where
  "inet_addrs as \<longleftrightarrow> (\<forall>a \<in> set as. fst a \<in> {AF_INET, AF_INET6})"

text \<open>The addresses a search finds.\<close>

definition answers :: "resolver \<Rightarrow> nat \<Rightarrow> string \<times> int \<Rightarrow> (int \<times> 8 word list) list" where
  "answers r n sptr = (case literal r (fst sptr) of
       Some a \<Rightarrow> if fst a = snd sptr then [a] else []
     | None \<Rightarrow> (case lookup_host r n (fst sptr) (snd sptr) of
         Inr (Some h) \<Rightarrow> map (Pair (h_addrtype h)) (h_addr_list h) | _ \<Rightarrow> []))"

lemma answers_inet: "resolver_ok r \<Longrightarrow> inet_addrs (concat (map (answers r n) ss))"
  by (auto simp: inet_addrs_def answers_def dest: literal_family lookup_family lookup_family [OF _ sym] split: option.splits sum.splits if_splits)

lemma alloc_plenty: "mem g = [] \<Longrightarrow> alloc g = (True, g\<lparr>live := live g + 1\<rparr>)"
  by (simp add: alloc_def)

lemma aistruct_entry:
  assumes "mem g = []" and "f \<in> {AF_INET, AF_INET6}"
  shows "\<exists>g'. ga_aistruct ais hints (Bytes b) f g = (0, ais @ [entry hints (clone_flag hints) None (f, b) (ai_socktype hints, 0)], g') \<and> mem g' = []"
  using assms by (auto simp: ga_aistruct_def alloc_plenty Let_def entry_def clone_flag_def sa_for_def zero_ai_def gai_consts)

abbreviation base_entry :: "addrinfo \<Rightarrow> int \<times> 8 word list \<Rightarrow> addrinfo" where
  "base_entry hints a \<equiv> entry hints (clone_flag hints) None a (ai_socktype hints, 0)"

lemma aistructs_entries:
  assumes "mem g = []" and "f \<in> {AF_INET, AF_INET6}"
  shows "\<exists>g'. ga_aistructs ais hints bs f g = (0, ais @ map (\<lambda>b. base_entry hints (f, b)) bs, g') \<and> mem g' = []"
  using assms
proof (induction bs arbitrary: ais g)
  case (Cons b bs)
  from aistruct_entry [OF Cons.prems, of ais hints b] obtain g1 where
    "ga_aistruct ais hints (Bytes b) f g = (0, ais @ [base_entry hints (f, b)], g1)" "mem g1 = []" by blast
  with Cons.IH [OF this(2) Cons.prems(2), of "ais @ [base_entry hints (f, b)]"] show ?case by auto
qed simp

lemma turn_answers:
  assumes "gai_turn r n hostname hints sptr (ais, canon, g) = (0, ais', canon', g')" and "mem g = []" and "resolver_ok r"
  shows "ais' = ais @ map (base_entry hints) (answers r n sptr) \<and> mem g' = []"
proof -
  obtain host family where sp: "sptr = (host, family)" by (cases sptr)
  show ?thesis
  proof (cases "literal r host")
    case (Some x)
    obtain af b where x: "x = (af, b)" by (cases x)
    with Some have f: "af \<in> {AF_INET, AF_INET6}" using literal_family by blast
    show ?thesis using assms(1,2) sp Some x aistruct_entry [OF assms(2) f, of ais hints b]
      by (auto simp: gai_turn_def answers_def EAI_ADDRFAMILY_def split: if_splits)
  next
    case None
    show ?thesis
    proof (cases "lookup_host r n host family")
      case (Inl e)
      then have "e \<noteq> 0" by (auto simp: lookup_host_def eai_of_def eai_defs split: if_splits sum.splits herr.splits)
      with assms(1) sp None Inl show ?thesis by (simp add: gai_turn_def)
    next
      case (Inr y)
      show ?thesis
      proof (cases y)
        case None
        with assms sp \<open>literal r host = None\<close> Inr show ?thesis by (simp add: gai_turn_def answers_def)
      next
        case (Some h)
        let ?saves = "given hostname \<and> ai_flags hints AND AI_CANONNAME \<noteq> 0 \<and> canon = None"
        have f: "h_addrtype h \<in> {AF_INET, AF_INET6}" using lookup_family [OF assms(3)] Inr Some by blast
        obtain g1 where d: "(if ?saves then alloc g else (True, g)) = (True, g1)" "mem g1 = []"
          using alloc_plenty [OF assms(2)] assms(2) by (cases ?saves) auto
        from aistructs_entries [OF d(2) f, of ais hints "h_addr_list h"] obtain g2 where
          "ga_aistructs ais hints (h_addr_list h) (h_addrtype h) g1 = (0, ais @ map (\<lambda>b. base_entry hints (h_addrtype h, b)) (h_addr_list h), g2)"
          "mem g2 = []" by blast
        with assms(1) sp \<open>literal r host = None\<close> Inr Some d show ?thesis
          by (auto simp: gai_turn_def answers_def Let_def EAI_ADDRFAMILY_def split: if_splits)
      qed
    qed
  qed
qed

lemma searches_answers:
  "gai_searches r n hostname hints ss st = (0, st') \<Longrightarrow> resolver_ok r \<Longrightarrow> mem (snd (snd st)) = []
   \<Longrightarrow> fst st' = fst st @ map (base_entry hints) (concat (map (answers r n) ss)) \<and> mem (snd (snd st')) = []"
proof (induction r n hostname hints ss st rule: gai_searches.induct)
  case (2 r n hostname hints s ss st)
  obtain rc1 st1 where t: "gai_turn r n hostname hints s st = (rc1, st1)" by (cases "gai_turn r n hostname hints s st")
  with 2(2) have rc: "rc1 = 0" by (auto split: if_splits)
  have "fst st1 = fst st @ map (base_entry hints) (answers r n s) \<and> mem (snd (snd st1)) = []"
    using turn_answers [of r n hostname hints s "fst st" "fst (snd st)" "snd (snd st)" "fst st1" "fst (snd st1)" "snd (snd st1)"]
      t rc 2(3,4) by simp
  with 2 t rc show ?case by auto
qed simp

text \<open>The passes over the list: the first fills the elements in, the second puts a copy behind each.\<close>

type_synonym named_addr = "string option \<times> int \<times> 8 word list"

lemma entry_simps [simp]:
  "ai_flags (entry hints fl c a sp) = fl" "ai_socktype (entry hints fl c a sp) = fst sp"
  "ai_canonname (entry hints fl c a sp) = c"
  by (simp_all add: entry_def)

lemma set_port_entry:
  "fst a \<in> {AF_INET, AF_INET6} \<Longrightarrow> set_port port st (entry hints fl c a sp) = (entry hints fl c a (st, port), 1)"
  by (auto simp: set_port_def Let_def entry_def sa_for_def)

lemma port_fills:
  assumes "\<forall>x \<in> set xs. fst (snd x) \<in> {AF_INET, AF_INET6}" and "ai_socktype hints = 0 \<or> ai_socktype hints = st"
  shows "ga_port (map (\<lambda>(c, a). entry hints (clone_flag hints) c a (ai_socktype hints, 0)) xs) port st n g
    = (n + int (length xs), map (\<lambda>(c, a). entry hints (clone_flag hints) c a (st, port)) xs, g)"
  using assms
proof (induction xs arbitrary: n)
  case (Cons x xs)
  obtain c a where x: "x = (c, a)" by (cases x)
  have f: "fst a \<in> {AF_INET, AF_INET6}" using Cons.prems(1) x by simp
  have "ga_port (map (\<lambda>(c, a). entry hints (clone_flag hints) c a (ai_socktype hints, 0)) xs) port st (n + 1) g
    = (n + 1 + int (length xs), map (\<lambda>(c, a). entry hints (clone_flag hints) c a (st, port)) xs, g)"
    using Cons by simp
  then show ?case
    using Cons.prems(2) unfolding x
    by (cases "ai_socktype hints = 0") (auto simp: set_port_entry [OF f] clone_flag_def AI_CLONE_def)
qed simp

lemma port_clones:
  assumes "\<forall>x \<in> set xs. fst (snd x) \<in> {AF_INET, AF_INET6}" and "fst sp \<noteq> 0" and "mem g = []"
  shows "\<exists>g'. ga_port (map (\<lambda>(c, a). entry hints AI_CLONE c a sp) xs) port st n g
    = (n + int (length xs), concat (map (\<lambda>(c, a). [entry hints AI_CLONE c a sp, entry hints 0 None a (st, port)]) xs), g')"
  using assms
proof (induction xs arbitrary: n g)
  case (Cons x xs)
  obtain c a where x: "x = (c, a)" by (cases x)
  have f: "fst a \<in> {AF_INET, AF_INET6}" using Cons.prems(1) x by simp
  obtain g1 where c: "ga_clone (entry hints AI_CLONE c a sp) g = (Some (entry hints 0 None a sp), [entry hints 0 None a sp], g1)" "mem g1 = []"
    using Cons.prems(3) by (auto simp: ga_clone_def alloc_plenty Let_def entry_def zero_ai_def)
  obtain g2 where "ga_port (map (\<lambda>(c, a). entry hints AI_CLONE c a sp) xs) port st (n + 1) g1
    = (n + 1 + int (length xs), concat (map (\<lambda>(c, a). [entry hints AI_CLONE c a sp, entry hints 0 None a (st, port)]) xs), g2)"
    using Cons.IH [OF _ Cons.prems(2) c(2)] Cons.prems(1) by auto
  moreover have "ai_flags (entry hints AI_CLONE c a sp) AND AI_CLONE \<noteq> 0" "ai_socktype (entry hints AI_CLONE c a sp) \<noteq> 0"
    using Cons.prems(2) by (simp_all add: entry_def AI_CLONE_def)
  ultimately show ?case using c unfolding x by (simp add: set_port_entry [OF f])
qed simp

definition expand :: "addrinfo \<Rightarrow> (int \<times> 16 word) list \<Rightarrow> named_addr \<Rightarrow> addrinfo list" where
  "expand hints sps x = (case sps of [] \<Rightarrow> [] | sp # rest \<Rightarrow>
     entry hints (clone_flag hints) (fst x) (snd x) sp # map (entry hints 0 None (snd x)) rest)"

lemma serv_ports_cases:
  obtains "serv_ports r hints serv = []"
    | sp where "serv_ports r hints serv = [sp]" "ai_socktype hints = 0 \<or> ai_socktype hints = fst sp"
    | sp sp' where "serv_ports r hints serv = [sp, sp']" "ai_socktype hints = 0" "fst sp = SOCK_STREAM" "fst sp' = SOCK_DGRAM"
proof (cases "serv \<noteq> [] \<and> isdigit (hd serv)")
  case True
  then show thesis using that(2,3) by (cases "ai_socktype hints = 0") (auto simp: serv_ports_def Let_def)
next
  case False
  obtain t u where tu: "getservbyname r serv ''tcp'' = t" "getservbyname r serv ''udp'' = u" by simp
  have e: "serv_ports r hints serv =
      (if ai_socktype hints = 0 \<or> ai_socktype hints = SOCK_STREAM then (case t of None \<Rightarrow> [] | Some port \<Rightarrow> [(SOCK_STREAM, port)]) else [])
      @ (if ai_socktype hints = 0 \<or> ai_socktype hints = SOCK_DGRAM then (case u of None \<Rightarrow> [] | Some port \<Rightarrow> [(SOCK_DGRAM, port)]) else [])"
    unfolding serv_ports_def if_not_P [OF False] tu by (rule refl)
  consider "ai_socktype hints = 0" | "ai_socktype hints = SOCK_STREAM" | "ai_socktype hints = SOCK_DGRAM"
    | "ai_socktype hints \<notin> {0, SOCK_STREAM, SOCK_DGRAM}" by blast
  then show thesis
    by cases (cases t; cases u; insert that e; simp add: SOCK_STREAM_def SOCK_DGRAM_def)+
qed

lemma serv_expands:
  assumes "\<forall>x \<in> set xs. fst (snd x) \<in> {AF_INET, AF_INET6}" and "xs \<noteq> []" and "mem g = []"
    and "ga_serv r (map (\<lambda>(c, a). entry hints (clone_flag hints) c a (ai_socktype hints, 0)) xs) hints serv g = (rc, ais, g')"
  shows "(rc = 0 \<longleftrightarrow> serv_ports r hints serv \<noteq> []) \<and> (rc = 0 \<longrightarrow> ais = concat (map (expand hints (serv_ports r hints serv)) xs))"
proof -
  have s: "(\<lambda>x. [f x]) = (\<lambda>x. [g x]) \<longleftrightarrow> f = g" for f g :: "named_addr \<Rightarrow> addrinfo" by (auto simp: fun_eq_iff)
  show ?thesis
  proof (cases rule: serv_ports_cases [of r hints serv])
    case 1
    then show ?thesis using assms(4) by (auto simp: ga_serv_def eai_defs split: if_splits)
  next
    case (2 sp)
    obtain st port where sp: "sp = (st, port)" by (cases sp)
    have "concat (map (\<lambda>(c, a). [entry hints (clone_flag hints) c a sp]) xs) = map (\<lambda>(c, a). entry hints (clone_flag hints) c a sp) xs"
      by (induction xs) auto
    moreover have "expand hints [sp] = (\<lambda>(c, a). [entry hints (clone_flag hints) c a sp])" by (auto simp: expand_def)
    ultimately show ?thesis
      using assms(2,4) 2 sp port_fills [OF assms(1), of hints st port 0 g] by (auto simp: ga_serv_def)
  next
    case (3 sp sp')
    obtain st port st' port' where sp: "sp = (st, port)" "sp' = (st', port')" by (cases sp; cases sp')
    have cf: "clone_flag hints = AI_CLONE" using 3(2) by (simp add: clone_flag_def)
    obtain g2 where c: "ga_port (map (\<lambda>(c, a). entry hints AI_CLONE c a sp) xs) port' st' 0 g
      = (int (length xs), concat (map (\<lambda>(c, a). [entry hints AI_CLONE c a sp, entry hints 0 None a sp']) xs), g2)"
      using port_clones [OF assms(1) _ assms(3), of sp hints port' st' 0] 3(3) sp by (auto simp: SOCK_STREAM_def)
    have "expand hints [sp, sp'] = (\<lambda>(c, a). [entry hints AI_CLONE c a sp, entry hints 0 None a sp'])"
      by (auto simp: expand_def cf)
    then show ?thesis
      using assms(2,4) 3(1,2) sp port_fills [OF assms(1), of hints st port 0 g] c cf by (auto simp: ga_serv_def)
  qed
qed

lemma canon_names:
  assumes "gai_canon hostname hints host (map (base_entry hints) as, canon, g) = (0, ais, g')" and "mem g = []" and "as \<noteq> []"
  shows "\<exists>c. (c \<noteq> None \<longleftrightarrow> given hostname \<and> ai_flags hints AND AI_CANONNAME \<noteq> 0)
    \<and> ais = map (\<lambda>(c, a). entry hints (clone_flag hints) c a (ai_socktype hints, 0)) ((c, hd as) # map (Pair None) (tl as)) \<and> mem g' = []"
proof -
  obtain a as' where as: "as = a # as'" using assms(3) by (cases as) auto
  have u: "(entry hints fl c a sp)\<lparr>ai_canonname := c'\<rparr> = entry hints fl c' a sp" for fl c c' sp by (simp add: entry_def)
  show ?thesis
  proof (cases "given hostname \<and> ai_flags hints AND AI_CANONNAME \<noteq> 0")
    case True
    show ?thesis
    proof (cases canon)
      case None
      with True assms(1,2) as show ?thesis by (intro exI [of _ "Some host"]) (auto simp: gai_canon_def alloc_plenty u)
    next
      case (Some c)
      with True assms(1,2) as show ?thesis by (intro exI [of _ "Some c"]) (auto simp: gai_canon_def u)
    qed
  next
    case False
    with assms(1,2) as show ?thesis by (intro exI [of _ None]) (auto simp: gai_canon_def)
  qed
qed

text \<open>An element as a caller reads it, for an address and a service.\<close>

definition offer :: "addrinfo \<Rightarrow> int \<times> 8 word list \<Rightarrow> int \<times> 16 word \<Rightarrow> int \<times> int \<times> int \<times> nat \<times> sa option" where
  "offer hints a sp = (fst a, fst sp, ai_protocol hints, if fst a = AF_INET then 16 else 28, Some (sa_for a (snd sp)))"

lemma shown_entry: "shown_ai (entry hints fl c a sp) = offer hints a sp"
  by (simp add: shown_ai_def entry_def offer_def)

lemma shown_expand: "map shown_ai (expand hints sps x) = map (offer hints (snd x)) sps"
  by (auto simp: expand_def shown_entry split: list.splits)

lemma shown_expands: "map shown_ai (concat (map (expand hints sps) xs)) = concat (map (\<lambda>x. map (offer hints (snd x)) sps) xs)"
  by (induction xs) (simp_all add: shown_expand)

lemma expand_names: "sps \<noteq> [] \<Longrightarrow> map ai_canonname (expand hints sps x) = fst x # replicate (length sps - 1) None"
  by (cases sps) (auto simp: expand_def map_replicate_const comp_def)

definition hints_of :: "addrinfo option \<Rightarrow> addrinfo" where
  "hints_of hintsp = (case hintsp of None \<Rightarrow> zero_ai\<lparr>ai_family := AF_UNSPEC\<rparr> | Some h \<Rightarrow> h)"

definition found :: "resolver \<Rightarrow> string option \<Rightarrow> addrinfo \<Rightarrow> (int \<times> 8 word list) list" where
  "found r hostname hints = (let ss = ga_searches hostname hints in concat (map (answers r (length ss)) ss))"

definition services :: "resolver \<Rightarrow> addrinfo \<Rightarrow> string option \<Rightarrow> (int \<times> 16 word) list" where
  "services r hints servname = (if given servname then serv_ports r hints (the servname) else [(ai_socktype hints, 0)])"

lemma getaddrinfo_expands:
  assumes "getaddrinfo r hostname servname hintsp g = (Returns, 0, ais, g')" and "resolver_ok r"
    and "\<not> is_unix hostname servname" and "mem g = []"
  defines "hints \<equiv> hints_of hintsp"
  shows "found r hostname hints \<noteq> [] \<and> services r hints servname \<noteq> [] \<and>
    (\<exists>c. (c \<noteq> None \<longleftrightarrow> given hostname \<and> ai_flags hints AND AI_CANONNAME \<noteq> 0) \<and>
      ais = concat (map (expand hints (services r hints servname)) ((c, hd (found r hostname hints)) # map (Pair None) (tl (found r hostname hints)))))"
proof -
  let ?as = "found r hostname hints"
  have h: "(case hintsp of None \<Rightarrow> zero_ai\<lparr>ai_family := AF_UNSPEC\<rparr> | Some h \<Rightarrow> h) = hints"
    by (simp add: hints_def hints_of_def)
  have rc: "ga_echeck hostname servname (ai_flags hints) (ai_family hints) (ai_socktype hints) (ai_protocol hints) = 0"
    using assms(1) by (auto simp: getaddrinfo_def Let_def gai_bad_def hints_def hints_of_def split: if_splits)
  obtain search where ns: "ga_nsearch hostname hints g = Inr search"
    using assms(1,3) rc by (cases "ga_nsearch hostname hints g")
      (auto simp: getaddrinfo_def Let_def ga_nsearch_def err_quit_def hints_def hints_of_def split: if_splits)
  then have ss: "search = ga_searches hostname hints" by (auto simp: ga_nsearch_def Let_def split: if_splits)
  obtain rc1 ais1 canon g1 where se: "gai_searches r (length search) hostname hints search ([], None, g) = (rc1, ais1, canon, g1)"
    by (cases "gai_searches r (length search) hostname hints search ([], None, g)") auto
  have e: "(Returns, 0, ais, g') =
      (if rc1 \<noteq> 0 then gai_bad rc1 ais1 g1
       else if ais1 = [] then gai_bad EAI_NONAME ais1 g1
       else
         (case gai_canon hostname hints (fst (search ! 0)) (ais1, canon, g1) of
            (rc, ais1, g2) \<Rightarrow>
              if rc \<noteq> 0 then gai_bad rc ais1 g2
              else if given servname then
                (case ga_serv r ais1 hints (the servname) g2 of
                   (rc, ais2, g3) \<Rightarrow> if rc \<noteq> 0 then gai_bad rc ais2 g3 else (Returns, 0, ais2, g3))
              else (Returns, 0, ais1, g2)))"
    using assms(1,3) rc ns se unfolding getaddrinfo_def Let_def h by simp
  then have rc1: "rc1 = 0" "ais1 \<noteq> []" by (auto simp: gai_bad_def EAI_NONAME_def split: if_splits)
  with searches_answers [of r "length search" hostname hints search "([], None, g)"] se assms(2,4)
  have a1: "ais1 = map (base_entry hints) ?as" "mem g1 = []" by (auto simp: found_def ss Let_def)
  have ne: "?as \<noteq> []" using rc1(2) a1(1) by auto
  obtain rc2 ais2 g2 where c: "gai_canon hostname hints (fst (search ! 0)) (ais1, canon, g1) = (rc2, ais2, g2)"
    by (cases "gai_canon hostname hints (fst (search ! 0)) (ais1, canon, g1)") auto
  with e rc1 have rc2: "rc2 = 0" by (auto simp: gai_bad_def split: if_splits)
  obtain c where c2: "c \<noteq> None \<longleftrightarrow> given hostname \<and> ai_flags hints AND AI_CANONNAME \<noteq> 0" "mem g2 = []"
      "ais2 = map (\<lambda>(c, a). entry hints (clone_flag hints) c a (ai_socktype hints, 0)) ((c, hd ?as) # map (Pair None) (tl ?as))"
    using canon_names [OF c [unfolded rc2 a1(1)] a1(2) ne] by blast
  let ?xs = "(c, hd ?as) # map (Pair None) (tl ?as)"
  have inet: "\<forall>x \<in> set ?xs. fst (snd x) \<in> {AF_INET, AF_INET6}"
  proof -
    have "inet_addrs ?as" using answers_inet [OF assms(2), of "length search" search] by (simp add: found_def ss Let_def)
    with ne show ?thesis by (cases ?as) (auto simp: inet_addrs_def)
  qed
  have "services r hints servname \<noteq> [] \<and> ais = concat (map (expand hints (services r hints servname)) ?xs)"
  proof (cases "given servname")
    case True
    obtain rc3 ais3 g3 where sv: "ga_serv r ais2 hints (the servname) g2 = (rc3, ais3, g3)"
      by (cases "ga_serv r ais2 hints (the servname) g2") auto
    with e rc1 c rc2 True have "rc3 = 0" "ais = ais3" by (auto simp: gai_bad_def split: if_splits)
    with serv_expands [OF inet _ c2(2) sv [unfolded c2(3)]] True show ?thesis by (simp add: services_def)
  next
    case False
    have "concat (map (expand hints [(ai_socktype hints, 0)]) xs) = map (\<lambda>(c, a). entry hints (clone_flag hints) c a (ai_socktype hints, 0)) xs" for xs
      by (induction xs) (auto simp: expand_def)
    from this [of ?xs] have "ais2 = concat (map (expand hints [(ai_socktype hints, 0)]) ?xs)" unfolding c2(3) by (rule sym)
    moreover have "ais = ais2" using e rc1 c rc2 False by simp
    ultimately show ?thesis using False by (simp only: services_def if_False) simp
  qed
  with ne c2(1) show ?thesis by blast
qed

lemma getaddrinfo_stop:
  "fst (getaddrinfo r hostname servname hintsp g) =
     (let h = hints_of hintsp in
      if ga_echeck hostname servname (ai_flags h) (ai_family h) (ai_socktype h) (ai_protocol h) = 0
        \<and> ai_family h = AF_LOCAL \<and> \<not> is_unix hostname servname
      then Exits 1 else Returns)"
proof -
  let ?h = "hints_of hintsp"
  have h: "(case hintsp of None \<Rightarrow> zero_ai\<lparr>ai_family := AF_UNSPEC\<rparr> | Some h \<Rightarrow> h) = ?h" by (simp add: hints_of_def)
  show ?thesis
  proof (cases "ga_echeck hostname servname (ai_flags ?h) (ai_family ?h) (ai_socktype ?h) (ai_protocol ?h) = 0 \<and> \<not> is_unix hostname servname")
    case False
    then show ?thesis by (auto simp: getaddrinfo_def Let_def h gai_bad_def)
  next
    case True
    then have f: "ai_family ?h \<in> {AF_UNSPEC, AF_INET, AF_INET6, AF_LOCAL}" by (auto simp: ga_echeck_def eai_defs split: if_splits)
    have l: "ga_searches hostname ?h = [] \<longleftrightarrow> ai_family ?h = AF_LOCAL" "length (ga_searches hostname ?h) \<le> 2"
      using f by (auto simp: ga_searches_def Let_def gai_consts split: option.splits list.splits)
    show ?thesis
    proof (cases "ai_family ?h = AF_LOCAL")
      case loc: True
      with l have "ga_searches hostname ?h = []" by simp
      with True loc show ?thesis by (simp add: getaddrinfo_def Let_def h ga_nsearch_def err_quit_def)
    next
      case False
      with l have "ga_nsearch hostname ?h g = Inr (ga_searches hostname ?h)"
        by (cases "ga_searches hostname ?h") (auto simp: ga_nsearch_def Let_def)
      with True False show ?thesis
        by (auto simp: getaddrinfo_def Let_def h gai_bad_def split: prod.split)
    qed
  qed
qed

lemma unix_memory:
  assumes "ga_unix r path hints g = (0, ais, g')"
  shows "live g' = live g + owned ais"
proof -
  obtain rc1 as1 g1 where f: "(if ai_socktype hints = 0
      then ga_aistruct [] (hints\<lparr>ai_socktype := SOCK_STREAM\<rparr>) (Path path) AF_LOCAL g else (0, [], g)) = (rc1, as1, g1)"
    by (rule prod_cases3)
  obtain rc2 as2 g2 where s: "ga_aistruct as1 (if ai_socktype hints = 0 then hints\<lparr>ai_socktype := SOCK_DGRAM\<rparr> else hints)
      (Path path) AF_LOCAL g1 = (rc2, as2, g2)" by (rule prod_cases3)
  have l1: "live g1 - owned as1 = live g" "unnamed as1"
    using f aistruct_live aistruct_unnamed by (fastforce simp: unnamed_def split: if_splits)+
  have l2: "live g2 - owned as2 = live g" "unnamed as2"
    using aistruct_live [OF s] aistruct_unnamed [OF s] l1 by simp_all
  from assms have ok: "rc1 = 0" "rc2 = 0"
    by (auto simp: ga_unix_def f s Let_def EAI_ADDRFAMILY_def split: if_splits)
  have "as2 \<noteq> []" using s ok by (auto simp: ga_aistruct_def eai_defs Let_def split: prod.splits bool.splits if_splits)
  then obtain a as where a: "as2 = a # as" by (cases as2) auto
  from assms f s ok l2 a show ?thesis
    by (auto simp: ga_unix_def Let_def EAI_ADDRFAMILY_def EAI_SYSTEM_def EAI_MEMORY_def unnamed_def ai_blocks_def
        dest!: alloc_live split: if_splits option.splits prod.splits bool.splits)
qed

text \<open>After success the list owns what was allocated, for a Unix domain name too.\<close>

lemma getaddrinfo_owned:
  assumes "getaddrinfo r hostname servname hintsp g = (Returns, 0, ais, g')" and "resolver_ok r"
  shows "live g' = live g + owned ais"
proof (cases "is_unix hostname servname")
  case True
  with assms(1) have "ga_unix r (the servname) (hints_of hintsp) g = (0, ais, g')"
    by (auto simp: getaddrinfo_def Let_def gai_bad_def hints_of_def split: if_splits)
  then show ?thesis by (rule unix_memory)
next
  case False
  with getaddrinfo_memory [OF assms] show ?thesis by simp
qed

text \<open>A resolver for the examples: it knows one host and one service, and no literal address.\<close>

definition one_host :: resolver where
  "one_host = \<lparr>pton = \<lambda>af s. None,
     gethostbyname2 = \<lambda>s af. if s = ''gw'' \<and> af = AF_INET then Some \<lparr>h_name = ''gw.org'', h_addrtype = AF_INET, h_addr_list = [[10, 0, 0, 1], [10, 0, 0, 2]]\<rparr> else None,
     gethostbyname = \<lambda>v6 s. Inl HOST_NOT_FOUND,
     getservbyname = \<lambda>s p. if s = ''time'' then Some 37 else None,
     node = Some ''here''\<rparr>"

definition no_blocks :: gai where
  "no_blocks = \<lparr>inp = [], out = [], err = [], daemon_proc = False, slog = [], errnum = EIO, mem = [], live = 0, unlinked = []\<rparr>"

lemma one_host_ok: "resolver_ok one_host"
  by (simp add: resolver_ok_def one_host_def)

section \<open>Properties\<close>

text \<open>C12: When \<^verbatim>\<open>getaddrinfo\<close> succeeds, its list holds every address that the searches found with every service
  that was asked for, in this order, each with its own socket address; there is at least one, and only
  the first element has a canonical name, exactly when one was asked for.\<close>

theorem getaddrinfo_lists:
  assumes "getaddrinfo r hostname servname hintsp g = (Returns, 0, ais, g')" and "resolver_ok r"
    and "\<not> is_unix hostname servname" and "mem g = []"
  shows "ais \<noteq> [] \<and> map shown_ai ais =
      concat (map (\<lambda>a. map (offer (hints_of hintsp) a) (services r (hints_of hintsp) servname)) (found r hostname (hints_of hintsp)))
    \<and> (ai_canonname (hd ais) \<noteq> None \<longleftrightarrow> given hostname \<and> ai_flags (hints_of hintsp) AND AI_CANONNAME \<noteq> 0)
    \<and> set (map ai_canonname (tl ais)) \<subseteq> {None}"
proof -
  let ?h = "hints_of hintsp"
  let ?as = "found r hostname ?h" and ?sps = "services r ?h servname"
  from getaddrinfo_expands [OF assms] obtain c where ne: "?as \<noteq> []" "?sps \<noteq> []"
    and c: "c \<noteq> None \<longleftrightarrow> given hostname \<and> ai_flags ?h AND AI_CANONNAME \<noteq> 0"
    and ais: "ais = concat (map (expand ?h ?sps) ((c, hd ?as) # map (Pair None) (tl ?as)))" by blast
  obtain a as' where as: "?as = a # as'" using ne(1) by (cases ?as) auto
  obtain sp sps where sps: "?sps = sp # sps" using ne(2) by (cases ?sps) auto
  have "map shown_ai ais = concat (map (\<lambda>a. map (offer ?h a) ?sps) ?as)"
    unfolding ais shown_expands by (simp add: as comp_def)
  moreover have "set (map ai_canonname (expand ?h ?sps (None, x))) \<subseteq> {None}" for x
    unfolding expand_names [OF ne(2)] by auto
  then have "set (map ai_canonname (concat (map (expand ?h ?sps) (map (Pair None) xs)))) \<subseteq> {None}" for xs
    by (induction xs) (simp_all add: image_Un)
  moreover have "map ai_canonname ais = c # replicate (length sps) None @ map ai_canonname (concat (map (expand ?h ?sps) (map (Pair None) as')))"
    unfolding ais using expand_names [OF ne(2), of ?h "(c, a)"] by (simp add: as sps)
  ultimately show ?thesis using c
    by (cases ais) (auto simp: set_replicate_conv_if split: if_splits)
qed

theorem getaddrinfo_lists_witness:
  "map shown_ai (fst (snd (snd (getaddrinfo one_host (Some ''gw'') (Some ''time'') None no_blocks))))
    = [(2, 1, 0, 16, Some (Sin [10, 0, 0, 1] 37)), (2, 2, 0, 16, Some (Sin [10, 0, 0, 1] 37)),
       (2, 1, 0, 16, Some (Sin [10, 0, 0, 2] 37)), (2, 2, 0, 16, Some (Sin [10, 0, 0, 2] 37))]"
proof -
  let ?x = "getaddrinfo one_host (Some ''gw'') (Some ''time'') None no_blocks"
  have "fst ?x = Returns" by code_simp
  moreover have "fst (snd ?x) = 0" by code_simp
  ultimately have r: "?x = (Returns, 0, fst (snd (snd ?x)), snd (snd (snd ?x)))" by (simp add: prod_eq_iff)
  have "concat (map (\<lambda>a. map (offer (hints_of None) a) (services one_host (hints_of None) (Some ''time'')))
      (found one_host (Some ''gw'') (hints_of None)))
    = [(2, 1, 0, 16, Some (Sin [10, 0, 0, 1] 37)), (2, 2, 0, 16, Some (Sin [10, 0, 0, 1] 37)),
       (2, 1, 0, 16, Some (Sin [10, 0, 0, 2] 37)), (2, 2, 0, 16, Some (Sin [10, 0, 0, 2] 37))]" by code_simp
  with getaddrinfo_lists [OF r one_host_ok] show ?thesis by (simp add: is_unix_def no_blocks_def)
qed

text \<open>C18: \<^verbatim>\<open>getaddrinfo\<close> of an Internet host loses no block, wherever an allocation fails: after an error all
  is free again but for the saved canonical name, and after success \<^verbatim>\<open>freeaddrinfo\<close> frees all that was allocated.\<close>

theorem getaddrinfo_frees:
  assumes "getaddrinfo r hostname servname hintsp g = (Returns, rc, ais, g')" and "resolver_ok r"
    and "\<not> is_unix hostname servname"
  shows "live (freeaddrinfo ais g') = live g
    \<or> live (freeaddrinfo ais g') = live g + 1 \<and> rc \<noteq> 0 \<and> given hostname \<and> ai_flags (hints_of hintsp) AND AI_CANONNAME \<noteq> 0"
  using getaddrinfo_memory [OF assms] by (auto simp: free_live hints_of_def)

theorem getaddrinfo_frees_witness:
  "live (case getaddrinfo one_host (Some ''gw'') (Some ''time'') None (no_blocks\<lparr>mem := replicate 7 True @ [False]\<rparr>) of
     (_, rc, ais, g') \<Rightarrow> freeaddrinfo ais g') = 0"
proof -
  let ?g = "no_blocks\<lparr>mem := replicate 7 True @ [False]\<rparr>"
  let ?x = "getaddrinfo one_host (Some ''gw'') (Some ''time'') None ?g"
  have "fst ?x = Returns" by code_simp
  then have r: "?x = (Returns, fst (snd ?x), fst (snd (snd ?x)), snd (snd (snd ?x)))" by (simp add: prod_eq_iff)
  show ?thesis using getaddrinfo_frees [OF r one_host_ok]
    by (simp add: is_unix_def hints_of_def zero_ai_def split_beta) (simp add: no_blocks_def)
qed

text \<open>C36: \<^verbatim>\<open>getaddrinfo\<close> returns to its caller but in one case: when the hints ask for \<^verbatim>\<open>AF_LOCAL\<close>, pass the checks,
  and the names are not those of a Unix domain socket, it ends the process.\<close>

theorem getaddrinfo_exits_iff:
  "fst (getaddrinfo r hostname servname hintsp g) =
     (let h = hints_of hintsp in
      if ga_echeck hostname servname (ai_flags h) (ai_family h) (ai_socktype h) (ai_protocol h) = 0
        \<and> ai_family h = AF_LOCAL \<and> \<not> is_unix hostname servname
      then Exits 1 else Returns)"
  by (rule getaddrinfo_stop)

end
