(* ===== verification/Unp_Gni.thy ===== *)
theory Unp_Gni
  imports Unp_Gai
begin

unbundle bit_operations_syntax

text \<open>
  The way back (\<^verbatim>\<open>SampleCode/unpv13e/libgai\<close>): \<^verbatim>\<open>getnameinfo\<close> with \<^verbatim>\<open>gn_ipv46\<close>, and \<^verbatim>\<open>gai_strerror\<close>.  An array of
  the caller is its length, and what is written to it is a string; \<open>None\<close> is an array that is not written.
\<close>

section \<open>addrinfo.h\<close>

definition NI_NOFQDN :: "32 word" where "NI_NOFQDN = 1"
definition NI_NUMERICHOST :: "32 word" where "NI_NUMERICHOST = 2"
definition NI_NAMEREQD :: "32 word" where "NI_NAMEREQD = 4"
definition NI_NUMERICSERV :: "32 word" where "NI_NUMERICSERV = 8"
definition NI_DGRAM :: "32 word" where "NI_DGRAM = 16"

text \<open>The functions of the system: \<open>ntop\<close> gives the text that is written to an array of this length.\<close>

record reverse =
  ntop :: "int \<Rightarrow> 8 word list \<Rightarrow> nat \<Rightarrow> string option"
  gethostbyaddr :: "8 word list \<Rightarrow> int \<Rightarrow> string option"
  getservbyport :: "16 word \<Rightarrow> string option \<Rightarrow> string option"

section \<open>gn_ipv46.c and getnameinfo.c\<close>

text \<open>\<^verbatim>\<open>snprintf\<close> with \<^verbatim>\<open>%s\<close>: what does not fit is cut off.\<close>

definition snput :: "nat \<Rightarrow> string \<Rightarrow> string" where
  "snput len s = take (len - 1) s"

definition gn_host :: "reverse \<Rightarrow> nat \<Rightarrow> 8 word list \<Rightarrow> int \<Rightarrow> 32 word \<Rightarrow> string option" where
  "gn_host r hostlen aptr family flags =
     (if flags AND NI_NUMERICHOST \<noteq> 0 then ntop r family aptr hostlen
      else
        (case gethostbyaddr r aptr family of
           Some name \<Rightarrow>
             Some (snput hostlen (if flags AND NI_NOFQDN \<noteq> 0 then takeWhile (\<lambda>c. c \<noteq> CHR ''.'') name else name))
         | None \<Rightarrow> if flags AND NI_NAMEREQD \<noteq> 0 then None else ntop r family aptr hostlen))"

definition gn_serv :: "reverse \<Rightarrow> nat \<Rightarrow> 16 word \<Rightarrow> 32 word \<Rightarrow> string" where
  "gn_serv r servlen port flags =
     snput servlen
       (if flags AND NI_NUMERICSERV \<noteq> 0 then show_int (uint port)
        else (case getservbyport r port (if flags AND NI_DGRAM \<noteq> 0 then Some ''udp'' else None) of
                Some name \<Rightarrow> name
              | None \<Rightarrow> show_int (uint port)))"

definition gn_ipv46 ::
    "reverse \<Rightarrow> nat \<Rightarrow> nat \<Rightarrow> 8 word list \<Rightarrow> int \<Rightarrow> 16 word \<Rightarrow> 32 word \<Rightarrow> int \<times> string option \<times> string option" where
  "gn_ipv46 r hostlen servlen aptr family port flags =
     (let host = (if 0 < hostlen then gn_host r hostlen aptr family flags else None) in
      if 0 < hostlen \<and> host = None then (1, None, None)
      else (0, host, if 0 < servlen then Some (gn_serv r servlen port flags) else None))"

text \<open>\<open>None\<close> stands for a socket address of another family.\<close>

definition getnameinfo ::
    "reverse \<Rightarrow> sa option \<Rightarrow> nat \<Rightarrow> nat \<Rightarrow> 32 word \<Rightarrow> int \<times> string option \<times> string option" where
  "getnameinfo r a hostlen servlen flags =
     (case a of
        Some (Sin b port) \<Rightarrow> gn_ipv46 r hostlen servlen b AF_INET port flags
      | Some (Sin6 b port) \<Rightarrow> gn_ipv46 r hostlen servlen b AF_INET6 port flags
      | Some (Sun path) \<Rightarrow>
          (0, if 0 < hostlen then Some (snput hostlen ''/local'') else None,
           if 0 < servlen then Some (snput servlen path) else None)
      | None \<Rightarrow> (1, None, None))"

section \<open>gai_strerror.c\<close>

definition gai_strerror :: "int \<Rightarrow> string" where
  "gai_strerror e =
     (if e = EAI_ADDRFAMILY then ''address family for host not supported''
      else if e = EAI_AGAIN then ''temporary failure in name resolution''
      else if e = EAI_BADFLAGS then ''invalid flags value''
      else if e = EAI_FAIL then ''non-recoverable failure in name resolution''
      else if e = EAI_FAMILY then ''address family not supported''
      else if e = EAI_MEMORY then ''memory allocation failure''
      else if e = EAI_NODATA then ''no address associated with host''
      else if e = EAI_NONAME then ''host nor service provided, or not known''
      else if e = EAI_SERVICE then ''service not supported for socket type''
      else if e = EAI_SOCKTYPE then ''socket type not supported''
      else if e = EAI_SYSTEM then ''system error''
      else ''unknown getaddrinfo() error'')"

section \<open>The address functions of the library\<close>

text \<open>
  \<^verbatim>\<open>inet_ntop\<close> and \<^verbatim>\<open>inet_pton\<close> of \<^verbatim>\<open>libfree\<close> in the places of those of the system; \<open>junk\<close> is what the array on
  the stack of \<^verbatim>\<open>inet_pton\<close> holds.
\<close>

definition ntop_lib :: "int \<Rightarrow> 8 word list \<Rightarrow> nat \<Rightarrow> string option" where
  "ntop_lib af b len = (case inet_ntop af b (replicate len nul) len of Text t \<Rightarrow> Some (cstr t) | _ \<Rightarrow> None)"

definition pton_lib :: "8 word list \<Rightarrow> int \<Rightarrow> string \<Rightarrow> 8 word list option" where
  "pton_lib junk af s = (case inet_pton af junk s of Inr (Valid b) \<Rightarrow> Some b | _ \<Rightarrow> None)"

definition host_text :: "int \<times> 8 word list \<Rightarrow> string" where
  "host_text a = (if fst a = AF_INET then quad_text (snd a) else text6 (snd a))"

definition inet_address :: "int \<times> 8 word list \<Rightarrow> bool" where
  "inet_address a \<longleftrightarrow> fst a = AF_INET \<and> length (snd a) = 4 \<or> fst a = AF_INET6 \<and> length (snd a) = 16"

lemma four_bytes:
  assumes "length (b :: 8 word list) = 4"
  obtains a1 a2 a3 a4 where "b = [a1, a2, a3, a4]"
  using assms by (auto simp: numeral_eq_Suc length_Suc_conv)

lemma quad_first: "\<exists>c s. quad_text [a1, a2, a3, a4] = c # s \<and> isdigit c"
  using show_nat_digits [of "hd (show_nat (unat a1))" "unat a1"]
  by (cases "show_nat (unat a1)") (simp_all add: quad_text_eq)

lemma ntop_host:
  assumes "inet_address a" and "46 \<le> len"
  shows "ntop_lib (fst a) (snd a) len = Some (host_text a)"
proof (cases "fst a = AF_INET")
  case True
  then obtain a1 a2 a3 a4 where b: "snd a = [a1, a2, a3, a4]"
    using assms(1) by (auto simp: inet_address_def AF_INET_def AF_INET6_def elim: four_bytes)
  have "16 \<le> length (replicate len nul)" using assms(2) by simp
  from inet_ntop4_fits [OF this, of a1 a2 a3 a4] obtain d' where
    "inet_ntop4 [a1, a2, a3, a4] (replicate len nul) len = Inr (Some d')" "cstr d' = quad_text [a1, a2, a3, a4]" by auto
  with True b show ?thesis by (simp add: ntop_lib_def inet_ntop_def ntop_of_def host_text_def)
next
  case False
  with assms(1) have f: "fst a = AF_INET6" "length (snd a) = 16" by (auto simp: inet_address_def)
  note p = text6_props [OF f(2)]
  have "inet_ntop6 (snd a) (replicate len nul) len
      = Inr (Some (text6 (snd a) @ nul # drop (Suc (length (text6 (snd a)))) (replicate len nul)))"
    using inet_ntop6_text [OF f(2), of len "replicate len nul"] p(1) assms(2) by simp
  with f p(2) show ?thesis
    by (simp add: ntop_lib_def inet_ntop_def ntop_of_def host_text_def AF_INET_def AF_INET6_def cstr_append_nul)
qed

section \<open>Reading the text of an address\<close>

lemma pton4_colon: "CHR '':'' \<in> set s \<Longrightarrow> pton4_loop s tmp tp saw octets \<noteq> Inr (Some b)"
proof (induction s tmp tp saw octets rule: pton4_loop.induct)
  case (2 ch src tmp tp saw octets)
  then show ?case by (auto simp: Let_def isdigit_def split: sum.splits)
qed simp

lemma show_hex_xdigits: "c \<in> set (show_hex n) \<Longrightarrow> isxdigit c"
proof (induction n rule: show_hex.induct)
  case (1 n)
  have "\<forall>n \<in> set [0..<16]. isxdigit (hex_digit n)" by code_simp
  then have d: "m < 16 \<Longrightarrow> isxdigit (hex_digit m)" for m by simp
  from 1 d [of n] d [of "n mod 16"] show ?case by (cases "n < 16") (auto simp: show_hex.simps [of n])
qed

lemma joined_first:
  "ws \<noteq> [] \<Longrightarrow> \<exists>c s. joined ws = c # s \<and> isxdigit c"
proof -
  assume "ws \<noteq> []"
  then obtain w vs where ws: "ws = w # vs" by (cases ws) auto
  show ?thesis using show_hex_xdigits [of "hd (show_hex w)" w]
    by (cases "show_hex w") (simp_all add: ws joined_def)
qed

lemma text6_first:
  assumes "length src = 16"
  shows "\<exists>c s. text6 src = c # s \<and> (isxdigit c \<or> c = CHR '':'') \<and> CHR '':'' \<in> set (text6 src)"
proof -
  let ?ws = "words_of src"
  have "length xs = 8 \<Longrightarrow> \<exists>w1 w2 vs. xs = w1 # w2 # vs" for xs :: "nat list"
    by (auto simp: numeral_eq_Suc length_Suc_conv)
  from this [of ?ws] obtain w1 w2 vs where ws: "?ws = w1 # w2 # vs" by auto
  show ?thesis
  proof (cases "best_run ?ws")
    case None
    have "CHR '':'' \<in> set (joined ?ws)" by (simp add: ws joined_def)
    with None joined_first [of ?ws] show ?thesis by (auto simp: text6_def ws)
  next
    case (Some r)
    obtain b n where r: "r = (b, n)" by (cases r)
    show ?thesis
    proof (cases "embeds_v4 (Some (b, n)) ?ws")
      case True
      with Some r show ?thesis by (simp add: text6_def v4_text_def Let_def)
    next
      case False
      then have t: "text6 src = gap_text (take b ?ws) (drop (b + n) ?ws)" using Some r by (simp add: text6_def Let_def)
      show ?thesis
      proof (cases "take b ?ws = []")
        case True
        then show ?thesis unfolding t gap_text_def True by (simp add: joined_def)
      next
        case ne: False
        from joined_first [OF this] show ?thesis unfolding t by (auto simp: gap_text_def)
      qed
    qed
  qed
qed

text \<open>\<open>getaddrinfo\<close> takes the text for the address that it was made from, and for no name.\<close>

lemma literal_host:
  assumes "inet_address a" and "pton r = pton_lib junk" and "length junk = 4"
  shows "literal r (host_text a) = Some a"
proof (cases "fst a = AF_INET")
  case True
  then obtain a1 a2 a3 a4 where b: "snd a = [a1, a2, a3, a4]"
    using assms(1) by (auto simp: inet_address_def AF_INET_def AF_INET6_def elim: four_bytes)
  have "inet_pton4 junk (quad_text [a1, a2, a3, a4]) = Inr (Some [a1, a2, a3, a4])"
    using pton4_quad [of "junk[0 := 0]" a1 a2 a3 a4] assms(3) cstr_id [OF quad_text_no_nul]
    by (simp add: inet_pton4_def)
  then have "pton r AF_INET (host_text a) = Some (snd a)"
    using True b assms(2) by (simp add: pton_lib_def inet_pton_def host_text_def)
  moreover have "\<exists>c s. host_text a = c # s \<and> isdigit c" using quad_first True b by (simp add: host_text_def)
  ultimately show ?thesis using True by (auto simp: literal_def prod_eq_iff)
next
  case False
  with assms(1) have f: "fst a = AF_INET6" "length (snd a) = 16" by (auto simp: inet_address_def)
  obtain c s where t: "host_text a = c # s" "isxdigit c \<or> c = CHR '':''" "CHR '':'' \<in> set (host_text a)"
    using text6_first [OF f(2)] False by (auto simp: host_text_def)
  have cs: "cstr (host_text a) = host_text a"
    using cstr_id [OF text6_props(2) [OF f(2)]] False by (simp add: host_text_def)
  have "inet_pton4 junk (host_text a) \<noteq> Inr (Some b)" for b
    unfolding inet_pton4_def cs using t(3) by (rule pton4_colon)
  then have "pton r AF_INET (host_text a) = None"
    using assms(2) by (auto simp: pton_lib_def inet_pton_def Let_def split: sum.splits option.splits)
  moreover have "inet_pton6 junk (host_text a) = Inr (Some (snd a))"
    using f(2) assms(3) cs False by (intro inet_pton6_text) (simp_all add: host_text_def)
  then have "pton r AF_INET6 (host_text a) = Some (snd a)"
    using assms(2) by (simp add: pton_lib_def inet_pton_def AF_INET_def AF_INET6_def)
  ultimately show ?thesis using t f by (auto simp: literal_def prod_eq_iff)
qed

lemma host_text_first:
  "inet_address a \<Longrightarrow> \<exists>c s. host_text a = c # s \<and> c \<noteq> CHR ''/''"
proof (cases "fst a = AF_INET")
  case True
  moreover assume "inet_address a"
  ultimately obtain a1 a2 a3 a4 where "snd a = [a1, a2, a3, a4]"
    by (auto simp: inet_address_def AF_INET_def AF_INET6_def elim: four_bytes)
  with True quad_first [of a1 a2 a3 a4] show ?thesis by (auto simp: host_text_def isdigit_def)
next
  case False
  moreover assume "inet_address a"
  ultimately show ?thesis using text6_first [of "snd a"] by (auto simp: inet_address_def host_text_def isxdigit_def)
qed

lemma atoi_show_int: "atoi (show_int i) = i"
  using scan_int_show_int [of "[]" i] skip_space_show_int [of i "[]"] by (simp add: atoi_def no_digit_first_def)

lemma show_int_first: "0 \<le> i \<Longrightarrow> \<exists>c s. show_int i = c # s \<and> isdigit c"
  using show_nat_digits [of "hd (show_nat (nat i))" "nat i"]
  by (cases "show_nat (nat i)") (simp_all add: show_int_def)

text \<open>
  The elements that a caller is promised for one address and a numeric port: one of the socket type of the
  hints, or one for each of \<^verbatim>\<open>SOCK_STREAM\<close> and \<^verbatim>\<open>SOCK_DGRAM\<close> when the hints leave the type open.
\<close>

definition promised :: "addrinfo \<Rightarrow> int \<times> 8 word list \<Rightarrow> 16 word \<Rightarrow> addrinfo list" where
  "promised h a port =
     (if ai_socktype h = 0
      then [entry h AI_CLONE None a (SOCK_STREAM, port), entry h 0 None a (SOCK_DGRAM, port)]
      else [entry h 0 None a (ai_socktype h, port)])"

lemma promised_expand:
  assumes "serv = show_int (uint p)"
  shows "serv_ports r h serv \<noteq> []" and "expand h (serv_ports r h serv) (None, a) = promised h a p"
proof -
  obtain d ds where "serv = d # ds" "isdigit d" using show_int_first [of "uint p"] assms by auto
  then have "serv_ports r h serv
      = (if ai_socktype h \<noteq> 0 then [(ai_socktype h, p)] else [(SOCK_STREAM, p), (SOCK_DGRAM, p)])"
    using atoi_show_int [of "uint p"] assms by (simp add: serv_ports_def)
  then show "serv_ports r h serv \<noteq> []" "expand h (serv_ports r h serv) (None, a) = promised h a p"
    by (simp_all add: expand_def promised_def clone_flag_def)
qed

lemma getaddrinfo_literal:
  assumes "literal r host = Some a" and "inet_address a" and "host = c # cs" "c \<noteq> CHR ''/''" and "mem g = []"
    and "hints_of hintsp = h" and h: "ai_flags h = 0" "ai_family h = AF_UNSPEC"
  shows "\<exists>g'. getaddrinfo r (Some host) (Some (show_int (uint p))) hintsp g = (Returns, 0, promised h a p, g')"
proof -
  let ?serv = "show_int (uint p)" and ?e = "base_entry h a"
  obtain d ds where serv: "?serv = d # ds" "isdigit d" using show_int_first [of "uint p"] by auto
  have gv: "given (Some host)" "given (Some ?serv)" using assms(3) serv by (simp_all add: given_def)
  have f: "fst a \<in> {AF_INET, AF_INET6}" using assms(2) by (auto simp: inet_address_def)
  have ech: "ga_echeck (Some host) (Some ?serv) (ai_flags h) (ai_family h) (ai_socktype h) (ai_protocol h) = 0"
    using gv h by (simp add: ga_echeck_def)
  have se: "ga_nsearch (Some host) h g = Inr [(host, AF_INET6), (host, AF_INET)]"
    using h(2) assms(3) by (simp add: ga_nsearch_def ga_searches_def gai_consts)
  obtain g1 where a1: "ga_aistruct [] h (Bytes (snd a)) (fst a) g = (0, [?e], g1)" "mem g1 = []"
    using aistruct_entry [OF assms(5) f, of "[]" h "snd a"] by auto
  have ss: "gai_searches r (length [(host, AF_INET6), (host, AF_INET)]) (Some host) h [(host, AF_INET6), (host, AF_INET)] ([], None, g) = (0, [?e], None, g1)"
    using f a1(1) assms(1) h(2) by (cases a) (auto simp: gai_turn_def gai_consts)
  obtain rc ais g2 where sv: "ga_serv r [?e] h ?serv g1 = (rc, ais, g2)" by (cases "ga_serv r [?e] h ?serv g1") auto
  then have "rc = 0 \<and> ais = promised h a p"
    using serv_expands [of "[(None, a)]" g1 r h ?serv rc ais g2] f a1(2) promised_expand [OF refl] by simp
  then have "getaddrinfo r (Some host) (Some ?serv) hintsp g = (Returns, 0, promised h a p, g2)"
    using sv ech se gv assms(3,4,6) h(1)
    by (simp add: getaddrinfo_def hints_of_def is_unix_def ss [unfolded assms(3)] gai_canon_def del: gai_searches.simps list.size)
  then show ?thesis by blast
qed

lemma getnameinfo_numeric:
  assumes "inet_address a" and "46 \<le> hostlen" and "6 \<le> servlen" and "ntop rv = ntop_lib"
  shows "getnameinfo rv (Some (sa_for a port)) hostlen servlen (NI_NUMERICHOST OR NI_NUMERICSERV)
    = (0, Some (host_text a), Some (show_int (uint port)))"
proof -
  have len: "length (show_int (uint port)) \<le> servlen - 1"
  proof -
    have "unat port < 65536" using unsigned_less [of port, where ?'a = nat] by simp
    then have "nat (uint port) < 10 ^ 5" by simp
    from length_show_nat_less [OF this] show ?thesis using assms(3) by (simp add: show_int_def)
  qed
  have fam: "fst a = AF_INET \<and> length (snd a) = 4 \<or> fst a = AF_INET6 \<and> length (snd a) = 16"
    using assms(1) by (simp add: inet_address_def)
  have fl: "(NI_NUMERICHOST OR NI_NUMERICSERV) AND NI_NUMERICHOST \<noteq> 0" "(NI_NUMERICHOST OR NI_NUMERICSERV) AND NI_NUMERICSERV \<noteq> 0"
    by (simp_all add: NI_NUMERICHOST_def NI_NUMERICSERV_def)
  have "getnameinfo rv (Some (sa_for a port)) hostlen servlen (NI_NUMERICHOST OR NI_NUMERICSERV)
      = gn_ipv46 rv hostlen servlen (snd a) (fst a) port (NI_NUMERICHOST OR NI_NUMERICSERV)"
    using fam by (auto simp: getnameinfo_def sa_for_def AF_INET_def AF_INET6_def)
  also have "\<dots> = (0, Some (host_text a), Some (show_int (uint port)))"
    using ntop_host [OF assms(1,2)] assms(2-4) fl len by (simp add: gn_ipv46_def gn_host_def gn_serv_def snput_def)
  finally show "getnameinfo rv (Some (sa_for a port)) hostlen servlen (NI_NUMERICHOST OR NI_NUMERICSERV)
      = (0, Some (host_text a), Some (show_int (uint port)))" .
qed

section \<open>Properties\<close>

text \<open>C13: Every Internet address and port survives the way through \<^verbatim>\<open>getnameinfo\<close> with the numeric flags and
  back through \<^verbatim>\<open>getaddrinfo\<close>, with the address functions of \<^verbatim>\<open>libfree\<close>, for a null pointer to the hints and
  for hints without flags that leave the family open: when they name a socket type, the two texts give
  exactly one element, of this type; when they name none (and for the null pointer) exactly two, for a
  stream and for datagrams.  Each element has the same socket address.\<close>

theorem getnameinfo_getaddrinfo:
  assumes "inet_address a" and "46 \<le> hostlen" and "6 \<le> servlen" and "ntop rv = ntop_lib"
    and "pton r = pton_lib junk" and "length junk = 4" and "mem g = []"
    and "hints_of hintsp = h" and "ai_flags h = 0" and "ai_family h = AF_UNSPEC"
  shows "\<exists>host serv ais g'.
      getnameinfo rv (Some (sa_for a port)) hostlen servlen (NI_NUMERICHOST OR NI_NUMERICSERV) = (0, Some host, Some serv)
    \<and> getaddrinfo r (Some host) (Some serv) hintsp g = (Returns, 0, ais, g')
    \<and> ais = (if ai_socktype h = 0
        then [entry h AI_CLONE None a (SOCK_STREAM, port), entry h 0 None a (SOCK_DGRAM, port)]
        else [entry h 0 None a (ai_socktype h, port)])
    \<and> set (map ai_addr ais) = {Some (sa_for a port)}"
proof -
  note gn = getnameinfo_numeric [OF assms(1-4), of port]
  obtain c cs where t: "host_text a = c # cs" "c \<noteq> CHR ''/''" using host_text_first [OF assms(1)] by blast
  from getaddrinfo_literal [OF literal_host [OF assms(1,5,6)] assms(1) t assms(7-10), of port]
  obtain g' where "getaddrinfo r (Some (host_text a)) (Some (show_int (uint port))) hintsp g
      = (Returns, 0, promised h a port, g')" by blast
  moreover have "set (map ai_addr (promised h a port)) = {Some (sa_for a port)}"
    by (simp add: promised_def entry_def)
  ultimately show ?thesis using gn unfolding promised_def by blast
qed

definition numeric_only :: resolver where
  "numeric_only = one_host\<lparr>pton := pton_lib [1, 2, 3, 4]\<rparr>"

definition numeric_back :: reverse where
  "numeric_back = \<lparr>ntop = ntop_lib, gethostbyaddr = \<lambda>b af. None, getservbyport = \<lambda>p s. None\<rparr>"

theorem getnameinfo_getaddrinfo_witness:
  "\<exists>host serv. getnameinfo numeric_back (Some (Sin6 [0x20, 1, 0xd, 0xb8, 0, 0, 0, 0, 0, 0, 0, 0, 0, 0, 0, 1] 80)) 1025 32 10
      = (0, Some host, Some serv)
    \<and> map (\<lambda>ai. (ai_socktype ai, ai_addr ai)) (fst (snd (snd (getaddrinfo numeric_only (Some host) (Some serv) None no_blocks))))
      = [(1, Some (Sin6 [0x20, 1, 0xd, 0xb8, 0, 0, 0, 0, 0, 0, 0, 0, 0, 0, 0, 1] 80)),
         (2, Some (Sin6 [0x20, 1, 0xd, 0xb8, 0, 0, 0, 0, 0, 0, 0, 0, 0, 0, 0, 1] 80))]"
  using getnameinfo_getaddrinfo [of "(AF_INET6, [0x20, 1, 0xd, 0xb8, 0, 0, 0, 0, 0, 0, 0, 0, 0, 0, 0, 1])" 1025 32 numeric_back
      numeric_only "[1, 2, 3, 4]" no_blocks None "hints_of None" 80]
  by (force simp: inet_address_def numeric_back_def numeric_only_def no_blocks_def zero_ai_def gai_consts sa_for_def entry_def
      hints_of_def NI_NUMERICHOST_def NI_NUMERICSERV_def)

end
