(* ===== verification/Unp_Addr.thy ===== *)
theory Unp_Addr
  imports Unp_Gni
begin

unbundle bit_operations_syntax

text \<open>
  The functions of the library that work on socket addresses of any family
  (\<^verbatim>\<open>SampleCode/unpv13e/lib/sock_*.c\<close>, \<^verbatim>\<open>sockfd_to_family.c\<close>, \<^verbatim>\<open>family_to_level.c\<close>).  \<open>Other\<close> is an address of a
  family the functions do not know.  \<^verbatim>\<open>inet_ntop\<close> is an argument, as in \<open>Unp_Gni\<close>.
\<close>

datatype sockaddr = Known sa | Other int

definition sa_family :: "sockaddr \<Rightarrow> int" where
  "sa_family a = (case a of Known (Sin _ _) \<Rightarrow> AF_INET | Known (Sin6 _ _) \<Rightarrow> AF_INET6 | Known (Sun _) \<Rightarrow> AF_LOCAL | Other f \<Rightarrow> f)"

type_synonym ntop_fun = "int \<Rightarrow> 8 word list \<Rightarrow> nat \<Rightarrow> string option"

section \<open>sock_ntop.c and sock_ntop_host.c\<close>

definition STR_SIZE :: nat where "STR_SIZE = 128"
definition PORTSTR_SIZE :: nat where "PORTSTR_SIZE = 8"

text \<open>\<^verbatim>\<open>strcat\<close> to \<^verbatim>\<open>str\<close>, where the text starts at \<open>start\<close>: what it makes must fit with its null character.\<close>

definition str_cat :: "nat \<Rightarrow> string \<Rightarrow> string \<Rightarrow> fault + string" where
  "str_cat start s t = (if start + length s + length t < STR_SIZE then Inr (s @ t) else Inl Overrun)"

definition sun_text :: "string \<Rightarrow> string" where
  "sun_text path = (if path = [] then ''(no pathname bound)'' else snput STR_SIZE path)"

text \<open>\<open>Inr None\<close> is a null pointer.\<close>

definition sock_ntop :: "ntop_fun \<Rightarrow> sockaddr \<Rightarrow> int \<Rightarrow> fault + string option" where
  "sock_ntop nt a salen =
     (case a of
        Known (Sin b port) \<Rightarrow>
          (case nt AF_INET b STR_SIZE of
             None \<Rightarrow> Inr None
           | Some s \<Rightarrow>
               if port \<noteq> 0 then map_sum id Some (str_cat 0 s (snput PORTSTR_SIZE ('':'' @ show_int (uint port))))
               else Inr (Some s))
      | Known (Sin6 b port) \<Rightarrow>
          (case nt AF_INET6 b (STR_SIZE - 1) of
             None \<Rightarrow> Inr None
           | Some s \<Rightarrow>
               if port \<noteq> 0 then map_sum id Some (str_cat 0 (CHR ''['' # s) (snput PORTSTR_SIZE ('']:'' @ show_int (uint port))))
               else Inr (Some s))
      | Known (Sun path) \<Rightarrow> Inr (Some (sun_text path))
      | Other f \<Rightarrow> Inr (Some (snput STR_SIZE (''sock_ntop: unknown AF_xxx: '' @ show_int f @ '', len '' @ show_int salen))))"

definition Sock_ntop :: "ntop_fun \<Rightarrow> sockaddr \<Rightarrow> int \<Rightarrow> 'p proc_scheme \<Rightarrow> fault + (stop \<times> 'p proc_scheme) + string" where
  "Sock_ntop nt a salen p = map_sum id
     (\<lambda>r. case r of None \<Rightarrow> Inl (err_sys ''sock_ntop error'' p) | Some s \<Rightarrow> Inr s) (sock_ntop nt a salen)"

definition sock_ntop_host :: "ntop_fun \<Rightarrow> sockaddr \<Rightarrow> int \<Rightarrow> string option" where
  "sock_ntop_host nt a salen =
     (case a of
        Known (Sin b port) \<Rightarrow> nt AF_INET b STR_SIZE
      | Known (Sin6 b port) \<Rightarrow> nt AF_INET6 b STR_SIZE
      | Known (Sun path) \<Rightarrow> Some (sun_text path)
      | Other f \<Rightarrow> Some (snput STR_SIZE (''sock_ntop_host: unknown AF_xxx: '' @ show_int f @ '', len '' @ show_int salen)))"

definition Sock_ntop_host :: "ntop_fun \<Rightarrow> sockaddr \<Rightarrow> int \<Rightarrow> 'p proc_scheme \<Rightarrow> (stop \<times> 'p proc_scheme) + string" where
  "Sock_ntop_host nt a salen p =
     (case sock_ntop_host nt a salen of None \<Rightarrow> Inl (err_sys ''sock_ntop_host error'' p) | Some s \<Rightarrow> Inr s)"

section \<open>Comparisons\<close>

text \<open>\<^verbatim>\<open>memcmp\<close> and \<^verbatim>\<open>strcmp\<close> as -1, 0 or 1; C fixes only the sign.\<close>

fun byte_cmp :: "nat list \<Rightarrow> nat list \<Rightarrow> int" where
  "byte_cmp [] [] = 0"
| "byte_cmp [] (y # ys) = - 1"
| "byte_cmp (x # xs) [] = 1"
| "byte_cmp (x # xs) (y # ys) = (if x < y then - 1 else if y < x then 1 else byte_cmp xs ys)"

definition sock_cmp_addr :: "sockaddr \<Rightarrow> sockaddr \<Rightarrow> int" where
  "sock_cmp_addr a1 a2 =
     (case (a1, a2) of
        (Known (Sin b1 _), Known (Sin b2 _)) \<Rightarrow> byte_cmp (map unat b1) (map unat b2)
      | (Known (Sin6 b1 _), Known (Sin6 b2 _)) \<Rightarrow> byte_cmp (map unat b1) (map unat b2)
      | (Known (Sun s1), Known (Sun s2)) \<Rightarrow> byte_cmp (map of_char s1) (map of_char s2)
      | _ \<Rightarrow> - 1)"

definition sock_cmp_port :: "sockaddr \<Rightarrow> sockaddr \<Rightarrow> int" where
  "sock_cmp_port a1 a2 =
     (case (a1, a2) of
        (Known (Sin _ p1), Known (Sin _ p2)) \<Rightarrow> (if p1 = p2 then 1 else 0)
      | (Known (Sin6 _ p1), Known (Sin6 _ p2)) \<Rightarrow> (if p1 = p2 then 1 else 0)
      | _ \<Rightarrow> - 1)"

section \<open>Ports and addresses\<close>

definition sock_get_port :: "sockaddr \<Rightarrow> int" where
  "sock_get_port a = (case a of Known (Sin _ p) \<Rightarrow> uint p | Known (Sin6 _ p) \<Rightarrow> uint p | _ \<Rightarrow> - 1)"

definition sock_set_port :: "sockaddr \<Rightarrow> int \<Rightarrow> sockaddr" where
  "sock_set_port a port =
     (case a of
        Known (Sin b _) \<Rightarrow> Known (Sin b (of_int port))
      | Known (Sin6 b _) \<Rightarrow> Known (Sin6 b (of_int port))
      | _ \<Rightarrow> a)"

definition sock_set_addr :: "sockaddr \<Rightarrow> 8 word list \<Rightarrow> sockaddr" where
  "sock_set_addr a addr =
     (case a of
        Known (Sin _ p) \<Rightarrow> Known (Sin (take 4 addr) p)
      | Known (Sin6 _ p) \<Rightarrow> Known (Sin6 (take 16 addr) p)
      | _ \<Rightarrow> a)"

definition in6addr_any :: "8 word list" where
  "in6addr_any = replicate 16 0"

definition sock_set_wild :: "sockaddr \<Rightarrow> sockaddr" where
  "sock_set_wild a =
     (case a of
        Known (Sin _ _) \<Rightarrow> sock_set_addr a (replicate 4 0)
      | Known (Sin6 _ _) \<Rightarrow> sock_set_addr a in6addr_any
      | _ \<Rightarrow> a)"

text \<open>\<open>bound\<close>: the answers of \<^verbatim>\<open>bind\<close> to the wildcard address and of \<^verbatim>\<open>getsockname\<close> after it.\<close>

definition sock_bind_wild :: "(sockaddr \<Rightarrow> errno + unit) \<Rightarrow> (errno + 16 word) \<Rightarrow> int \<Rightarrow> int" where
  "sock_bind_wild bound name family =
     (let wild = (if family = AF_INET then Some (Known (Sin (replicate 4 0) 0))
                  else if family = AF_INET6 then Some (Known (Sin6 in6addr_any 0)) else None) in
      case wild of
        None \<Rightarrow> - 1
      | Some a \<Rightarrow>
          (case bound a of
             Inl _ \<Rightarrow> - 1
           | Inr _ \<Rightarrow> (case name of Inl _ \<Rightarrow> - 1 | Inr port \<Rightarrow> uint port)))"

definition Sock_bind_wild ::
    "(sockaddr \<Rightarrow> errno + unit) \<Rightarrow> (errno + 16 word) \<Rightarrow> int \<Rightarrow> 'p proc_scheme \<Rightarrow> (stop \<times> 'p proc_scheme) + int" where
  "Sock_bind_wild bound name family p =
     (let port = sock_bind_wild bound name family in
      if port < 0 then Inl (err_sys ''sock_bind_wild error'' p) else Inr port)"

definition sockfd_to_family :: "errno + sockaddr \<Rightarrow> int" where
  "sockfd_to_family name = (case name of Inl _ \<Rightarrow> - 1 | Inr a \<Rightarrow> sa_family a)"

definition Sockfd_to_family :: "errno + sockaddr \<Rightarrow> 'p proc_scheme \<Rightarrow> (stop \<times> 'p proc_scheme) + int" where
  "Sockfd_to_family name p =
     (let rc = sockfd_to_family name in if rc < 0 then Inl (err_sys ''sockfd_to_family error'' p) else Inr rc)"

definition IPPROTO_IP :: int where "IPPROTO_IP = 0"
definition IPPROTO_IPV6 :: int where "IPPROTO_IPV6 = 41"

definition family_to_level :: "int \<Rightarrow> int" where
  "family_to_level family = (if family = AF_INET then IPPROTO_IP else if family = AF_INET6 then IPPROTO_IPV6 else - 1)"

definition Family_to_level :: "int \<Rightarrow> 'p proc_scheme \<Rightarrow> (stop \<times> 'p proc_scheme) + int" where
  "Family_to_level family p =
     (let rc = family_to_level family in if rc < 0 then Inl (err_sys ''family_to_level error'' p) else Inr rc)"

section \<open>The text of an Internet address\<close>

definition addr_text :: "int \<times> 8 word list \<Rightarrow> 16 word \<Rightarrow> string" where
  "addr_text a port =
     (if port = 0 then host_text a
      else if fst a = AF_INET then host_text a @ '':'' @ show_int (uint port)
      else ''['' @ host_text a @ '']:'' @ show_int (uint port))"

lemma length_show_port: "length (show_int (uint (port :: 16 word))) \<le> 5"
proof -
  have "unat port < 65536" using unsigned_less [of port, where ?'a = nat] by simp
  then have "nat (uint port) < 10 ^ 5" by simp
  from length_show_nat_less [OF this] show ?thesis by (simp add: show_int_def)
qed

lemma host_text_length: "inet_address a \<Longrightarrow> length (host_text a) < 46"
proof (cases "fst a = AF_INET")
  case True
  moreover assume "inet_address a"
  ultimately obtain a1 a2 a3 a4 where "snd a = [a1, a2, a3, a4]"
    by (auto simp: inet_address_def AF_INET_def AF_INET6_def elim: four_bytes)
  with True quad_text_length [of a1 a2 a3 a4] show ?thesis by (simp add: host_text_def)
next
  case False
  moreover assume "inet_address a"
  ultimately show ?thesis using text6_props(1) [of "snd a"] by (simp add: inet_address_def host_text_def)
qed

lemma sock_ntop_text:
  assumes "inet_address a"
  shows "sock_ntop ntop_lib (Known (sa_for a port)) salen = Inr (Some (addr_text a port))"
proof -
  have nt: "ntop_lib (fst a) (snd a) STR_SIZE = Some (host_text a)" "ntop_lib (fst a) (snd a) (STR_SIZE - 1) = Some (host_text a)"
    using ntop_host [OF assms] by (simp_all add: STR_SIZE_def)
  note l = host_text_length [OF assms] length_show_port [of port]
  have port: "snput PORTSTR_SIZE ('':'' @ show_int (uint port)) = '':'' @ show_int (uint port)"
    "snput PORTSTR_SIZE ('']:'' @ show_int (uint port)) = '']:'' @ show_int (uint port)"
    using l(2) by (simp_all add: snput_def PORTSTR_SIZE_def)
  have cat: "str_cat 0 (host_text a) ('':'' @ show_int (uint port)) = Inr (host_text a @ '':'' @ show_int (uint port))"
    "str_cat 0 (CHR ''['' # host_text a) ('']:'' @ show_int (uint port)) = Inr (''['' @ host_text a @ '']:'' @ show_int (uint port))"
    using l by (simp_all add: str_cat_def STR_SIZE_def)
  show ?thesis
  proof (cases "fst a = AF_INET")
    case True
    with assms have "length (snd a) = 4" by (auto simp: inet_address_def AF_INET_def AF_INET6_def)
    with True nt(1) have "sock_ntop ntop_lib (Known (sa_for a port)) salen =
      (if port \<noteq> 0 then map_sum id Some (str_cat 0 (host_text a) ('':'' @ show_int (uint port))) else Inr (Some (host_text a)))"
      unfolding sock_ntop_def sa_for_def by (simp add: port(1) [simplified])
    then show ?thesis unfolding cat using True by (simp add: addr_text_def)
  next
    case False
    with assms have f: "fst a = AF_INET6" "length (snd a) = 16" by (auto simp: inet_address_def)
    with False nt(2) have "sock_ntop ntop_lib (Known (sa_for a port)) salen =
      (if port \<noteq> 0 then map_sum id Some (str_cat 0 (CHR ''['' # host_text a) ('']:'' @ show_int (uint port))) else Inr (Some (host_text a)))"
      unfolding sock_ntop_def sa_for_def by (simp add: port(2) [simplified])
    then show ?thesis unfolding cat using False by (simp add: addr_text_def)
  qed
qed

text \<open>An address is read from its text, so different addresses have different texts.\<close>

lemma host_text_inject:
  assumes "inet_address a" and "inet_address b" and "host_text a = host_text b"
  shows "a = b"
proof -
  let ?r = "one_host\<lparr>pton := pton_lib [0, 0, 0, 0]\<rparr>"
  have "literal ?r (host_text c) = Some c" if "inet_address c" for c
    using literal_host [OF that, of ?r "[0, 0, 0, 0]"] by simp
  from this [OF assms(1)] this [OF assms(2)] show ?thesis unfolding assms(3) by (rule option.inject [THEN iffD1, OF trans [OF sym]])
qed

lemma show_port_inject: "show_int (uint p) = show_int (uint (q :: 16 word)) \<Longrightarrow> p = q"
  by (metis atoi_show_int word_uint_eq_iff)

lemma show_port_chars: "c \<in> set (show_int (uint (p :: 16 word))) \<Longrightarrow> isdigit c"
  using show_nat_digits by (simp add: show_int_def)

definition colons :: "string \<Rightarrow> nat" where
  "colons s = length (filter (\<lambda>c. c = CHR '':'') s)"

lemma colons_simps [simp]: "colons [] = 0" "colons (c # s) = (if c = CHR '':'' then 1 else 0) + colons s" "colons (s @ t) = colons s + colons t"
  by (simp_all add: colons_def)

lemma colons_digits: "\<forall>c \<in> set s. isdigit c \<Longrightarrow> colons s = 0"
  by (induction s) (auto simp: isdigit_def)

lemma colons_show_nat [simp]: "colons (show_nat n) = 0"
  using show_nat_digits by (intro colons_digits) blast

lemma colons_port [simp]: "colons (show_int (uint (p :: 16 word))) = 0"
  using show_port_chars by (intro colons_digits) blast

lemma colons_quad [simp]: "colons (quad_text [a, b, c, d]) = 0"
  by (simp add: quad_text_eq)

lemma colons_groups: "length ws \<le> colons (groups ws)"
  by (induction ws) auto

lemma colons_text6:
  assumes "length src = 16"
  shows "2 \<le> colons (text6 src)"
proof -
  let ?ws = "words_of src"
  have l: "length ?ws = 8" by simp
  show ?thesis
  proof (cases "best_run ?ws")
    case None
    have "length xs = 8 \<Longrightarrow> 2 \<le> colons (joined xs)" for xs
      using colons_groups [of "tl xs"] by (cases xs) (auto simp: joined_def)
    with None l show ?thesis by (simp add: text6_def)
  next
    case (Some r)
    obtain b n where r: "r = (b, n)" by (cases r)
    show ?thesis
    proof (cases "embeds_v4 (Some (b, n)) ?ws")
      case True
      with Some r show ?thesis by (simp add: text6_def v4_text_def Let_def)
    next
      case False
      then have t: "text6 src = gap_text (take b ?ws) (drop (b + n) ?ws)" using Some r by (simp add: text6_def Let_def)
      have "2 \<le> colons (gap_text pre post)" for pre post
        using colons_groups [of post] by (cases post) (auto simp: gap_text_def)
      then show ?thesis unfolding t .
    qed
  qed
qed

lemma host_text_colons:
  "inet_address a \<Longrightarrow> if fst a = AF_INET then colons (host_text a) = 0 else 2 \<le> colons (host_text a)"
  using colons_text6 [of "snd a"] by (auto simp: inet_address_def host_text_def AF_INET_def AF_INET6_def elim: four_bytes)

lemma port_behind:
  assumes "h @ x # show_int (uint (p :: 16 word)) = h' @ x # show_int (uint (q :: 16 word))" and "\<not> isdigit x"
  shows "h = h' \<and> p = q"
proof -
  have t: "takeWhile isdigit (rev (h @ x # show_int (uint p))) = rev (show_int (uint p))" for h and p :: "16 word"
  proof -
    have "takeWhile isdigit (rev (show_int (uint p)) @ x # rev h) = rev (show_int (uint p)) @ takeWhile isdigit (x # rev h)"
      by (rule takeWhile_append2) (simp add: show_port_chars)
    with assms(2) show ?thesis by simp
  qed
  from arg_cong [OF assms(1), of "\<lambda>s. takeWhile isdigit (rev s)"] have "rev (show_int (uint p)) = rev (show_int (uint q))"
    unfolding t .
  then have "p = q" by (intro show_port_inject) simp
  with assms(1) show ?thesis by simp
qed

lemma addr_text_family:
  "inet_address a \<Longrightarrow> fst a = AF_INET \<longleftrightarrow> colons (addr_text a p) < 2"
  using host_text_colons [of a] by (auto simp: addr_text_def)

lemma addr_text_inject:
  assumes "inet_address a" and "inet_address b" and e: "addr_text a p = addr_text b q"
  shows "a = b \<and> p = q"
proof -
  have f: "fst a = AF_INET \<longleftrightarrow> fst b = AF_INET"
    using addr_text_family [OF assms(1), of p] addr_text_family [OF assms(2), of q] e by simp
  have h: "host_text a = host_text b \<and> p = q"
  proof (cases "fst a = AF_INET")
    case True
    have "r = 0 \<longleftrightarrow> colons (addr_text x r) = 0" if "inet_address x" "fst x = AF_INET" for x r
      using that host_text_colons [OF that(1)] by (simp add: addr_text_def)
    from this [OF assms(1), of p] this [OF assms(2), of q] True f have "p = 0 \<longleftrightarrow> q = 0" unfolding e by metis
    then consider "p = 0" "q = 0" | "p \<noteq> 0" "q \<noteq> 0" by blast
    then show ?thesis
    proof cases
      case 1
      with e show ?thesis by (simp add: addr_text_def)
    next
      case 2
      with e True f have "host_text a @ CHR '':'' # show_int (uint p) = host_text b @ CHR '':'' # show_int (uint q)"
        by (simp add: addr_text_def)
      then show ?thesis by (rule port_behind) (simp add: isdigit_def)
    qed
  next
    case False
    have "r = 0 \<longleftrightarrow> hd (addr_text x r) \<noteq> CHR ''[''" if "inet_address x" "fst x \<noteq> AF_INET" for x r
      using that text6_first [of "snd x"] by (auto simp: inet_address_def host_text_def addr_text_def isxdigit_def)
    from this [OF assms(1), of p] this [OF assms(2), of q] False f have "p = 0 \<longleftrightarrow> q = 0" unfolding e by metis
    then consider "p = 0" "q = 0" | "p \<noteq> 0" "q \<noteq> 0" by blast
    then show ?thesis
    proof cases
      case 1
      with e show ?thesis by (simp add: addr_text_def)
    next
      case 2
      with e False f have "(host_text a @ '']'') @ CHR '':'' # show_int (uint p) = (host_text b @ '']'') @ CHR '':'' # show_int (uint q)"
        by (simp add: addr_text_def)
      then have "host_text a @ '']'' = host_text b @ '']'' \<and> p = q" by (rule port_behind) (simp add: isdigit_def)
      then show ?thesis by simp
    qed
  qed
  with host_text_inject [OF assms(1,2)] show ?thesis by blast
qed

section \<open>Comparing addresses\<close>

lemma byte_cmp_0: "byte_cmp xs ys = 0 \<longleftrightarrow> xs = ys"
  by (induction xs ys rule: byte_cmp.induct) auto

lemma byte_cmp_swap: "byte_cmp ys xs = - byte_cmp xs ys"
  by (induction xs ys rule: byte_cmp.induct) auto

lemma map_unat_inject: "map unat xs = map unat ys \<longleftrightarrow> xs = (ys :: 8 word list)"
  by (rule inj_map_eq_map) (simp add: inj_def word_unat_eq_iff)

text \<open>The two comparisons tell equality in opposite ways.\<close>

lemma sock_cmp_same:
  "sock_cmp_addr (Known (sa_for a p)) (Known (sa_for a q)) = 0 \<and> sock_cmp_port (Known (sa_for a p)) (Known (sa_for b p)) \<noteq> 0"
  by (simp add: sock_cmp_addr_def sock_cmp_port_def sa_for_def byte_cmp_0)

lemma sock_cmp_addr_iff:
  assumes "inet_address a" and "inet_address b"
  shows "sock_cmp_addr (Known (sa_for a p)) (Known (sa_for b q)) = 0 \<longleftrightarrow> a = b"
proof -
  consider "fst a = AF_INET" "fst b = AF_INET" "length (snd a) = 4" "length (snd b) = 4"
    | "fst a \<noteq> AF_INET" "fst b \<noteq> AF_INET" "fst a = fst b" "length (snd a) = 16" "length (snd b) = 16"
    | "(fst a = AF_INET) \<noteq> (fst b = AF_INET)"
    using assms by (auto simp: inet_address_def AF_INET_def AF_INET6_def)
  then show ?thesis
    by cases (auto simp: sock_cmp_addr_def sa_for_def byte_cmp_0 map_unat_inject prod_eq_iff)
qed

section \<open>Properties\<close>

text \<open>C34: With the address functions of \<^verbatim>\<open>libfree\<close>, \<^verbatim>\<open>sock_ntop\<close> stays within its arrays for every Internet address
  and port, and its text tells them apart: two socket addresses with the same text are the same, also
  when one is an IPv4 and one an IPv6 address or one has no port.\<close>

theorem sock_ntop_unique:
  assumes "inet_address a" and "inet_address b"
  shows "\<exists>s t. sock_ntop ntop_lib (Known (sa_for a p)) l = Inr (Some s) \<and> sock_ntop ntop_lib (Known (sa_for b q)) m = Inr (Some t)
    \<and> (s = t \<longleftrightarrow> a = b \<and> p = q)"
  using sock_ntop_text [OF assms(1), of p l] sock_ntop_text [OF assms(2), of q m] addr_text_inject [OF assms, of p q] by auto

theorem sock_ntop_unique_witness:
  "\<exists>s t. sock_ntop ntop_lib (Known (Sin [1, 2, 3, 4] 80)) 16 = Inr (Some s)
    \<and> sock_ntop ntop_lib (Known (Sin6 [0, 0, 0, 0, 0, 0, 0, 0, 0, 0, 0, 0, 1, 2, 3, 4] 80)) 28 = Inr (Some t) \<and> s \<noteq> t"
proof -
  have "inet_address (AF_INET, [1, 2, 3, 4])" "inet_address (AF_INET6, [0, 0, 0, 0, 0, 0, 0, 0, 0, 0, 0, 0, 1, 2, 3, 4])"
    by (simp_all add: inet_address_def)
  from sock_ntop_unique [OF this, of 80 16 80 28] show ?thesis by (simp add: sa_for_def AF_INET_def AF_INET6_def)
qed

end
