(* ===== verification/Unp_Tcp.thy ===== *)
theory Unp_Tcp
  imports Unp_Addr Unp_Echo_Server Unp_Wrap_More
begin

text \<open>
  From names to open sockets (\<^verbatim>\<open>SampleCode/unpv13e/lib\<close>: \<^verbatim>\<open>tcp_connect.c\<close>, \<^verbatim>\<open>tcp_listen.c\<close>, \<^verbatim>\<open>udp_client.c\<close>,
  \<^verbatim>\<open>udp_connect.c\<close>, \<^verbatim>\<open>udp_server.c\<close>, \<^verbatim>\<open>host_serv.c\<close>, \<^verbatim>\<open>my_addrs.c\<close>).  Each of the first five walks the list of
  \<^verbatim>\<open>getaddrinfo\<close> until an address works; the walk is one function here, with the body of the loop as its
  argument, and the locale \<open>attempts\<close> is the contract of such a body.
\<close>

section \<open>State\<close>

text \<open>
  \<open>sys\<close>: the process and its memory; \<open>fds\<close>: the open descriptors, the newest first; \<open>calls\<close>: how many
  addresses were tried.  The kernel answers the calls of one attempt by its number and the arguments: no
  socket, or a descriptor and the answers of \<^verbatim>\<open>setsockopt\<close>, of \<^verbatim>\<open>connect\<close> or \<^verbatim>\<open>bind\<close>, and of \<^verbatim>\<open>close\<close>.
\<close>

record net =
  sys :: gai
  fds :: "int list"
  calls :: nat

datatype answer = NoSocket errno | Socket_fd int "errno + unit" "errno + unit" "errno + unit"

type_synonym kernel_fun = "nat \<Rightarrow> int \<times> int \<times> int \<times> nat \<times> sa option \<Rightarrow> answer"

definition set_errno :: "errno \<Rightarrow> net \<Rightarrow> net" where
  "set_errno e s = s\<lparr>sys := (sys s)\<lparr>errnum := e\<rparr>\<rparr>"

text \<open>A function that ends the process does so with the process part of the state.\<close>

definition die :: "stop \<times> gai \<Rightarrow> net \<Rightarrow> stop \<times> net" where
  "die x s = (fst x, s\<lparr>sys := snd x\<rparr>)"

section \<open>The loops\<close>

text \<open>One turn: go on with the next address, leave the loop with the socket, or the process ends.\<close>

datatype tried = Next net | Done int net | Dies "stop \<times> net"

definition close_new :: "errno + unit \<Rightarrow> net \<Rightarrow> tried" where
  "close_new c s = (case Close c (sys s) of
       Inl x \<Rightarrow> Dies (die x s)
     | Inr (_, p) \<Rightarrow> Next (s\<lparr>sys := p, fds := tl (fds s)\<rparr>))"

definition connect_try :: "kernel_fun \<Rightarrow> addrinfo \<Rightarrow> net \<Rightarrow> tried" where
  "connect_try k res s =
     (let s1 = s\<lparr>calls := calls s + 1\<rparr> in
      case k (calls s) (shown_ai res) of
        NoSocket e \<Rightarrow> Next (set_errno e s1)
      | Socket_fd fd _ conn c \<Rightarrow>
          (let s2 = s1\<lparr>fds := fd # fds s1\<rparr> in
           case conn of Inr _ \<Rightarrow> Done fd s2 | Inl e \<Rightarrow> close_new c (set_errno e s2)))"

text \<open>\<open>reuse\<close>: with the option \<^verbatim>\<open>SO_REUSEADDR\<close>, as in \<^verbatim>\<open>tcp_listen\<close>.\<close>

definition bind_try :: "bool \<Rightarrow> kernel_fun \<Rightarrow> addrinfo \<Rightarrow> net \<Rightarrow> tried" where
  "bind_try reuse k res s =
     (let s1 = s\<lparr>calls := calls s + 1\<rparr> in
      case k (calls s) (shown_ai res) of
        NoSocket e \<Rightarrow> Next (set_errno e s1)
      | Socket_fd fd opt bound c \<Rightarrow>
          (let s2 = s1\<lparr>fds := fd # fds s1\<rparr> in
           case (if reuse then Setsockopt opt (sys s2) else Inr ((), sys s2)) of
             Inl x \<Rightarrow> Dies (die x s2)
           | Inr (_, p) \<Rightarrow>
               (case bound of Inr _ \<Rightarrow> Done fd (s2\<lparr>sys := p\<rparr>) | Inl e \<Rightarrow> close_new c (set_errno e (s2\<lparr>sys := p\<rparr>)))))"

definition socket_try :: "kernel_fun \<Rightarrow> addrinfo \<Rightarrow> net \<Rightarrow> tried" where
  "socket_try k res s =
     (let s1 = s\<lparr>calls := calls s + 1\<rparr> in
      case k (calls s) (shown_ai res) of
        NoSocket e \<Rightarrow> Next (set_errno e s1)
      | Socket_fd fd _ _ _ \<Rightarrow> Done fd (s1\<lparr>fds := fd # fds s1\<rparr>))"

datatype walked = Nothing net | Found int addrinfo net | Ended "stop \<times> net"

fun walk :: "(addrinfo \<Rightarrow> net \<Rightarrow> tried) \<Rightarrow> addrinfo list \<Rightarrow> net \<Rightarrow> walked" where
  "walk attempt [] s = Nothing s"
| "walk attempt (res # ais) s =
     (case attempt res s of Next s1 \<Rightarrow> walk attempt ais s1 | Done fd s1 \<Rightarrow> Found fd res s1 | Dies x \<Rightarrow> Ended x)"

section \<open>The functions\<close>

text \<open>\<^verbatim>\<open>%s\<close> of a null pointer, as glibc prints it.\<close>

definition show_ptr :: "string option \<Rightarrow> string" where
  "show_ptr s = (case s of None \<Rightarrow> ''(null)'' | Some t \<Rightarrow> t)"

definition hints_for :: "32 word \<Rightarrow> int \<Rightarrow> int \<Rightarrow> addrinfo" where
  "hints_for flags family socktype = zero_ai\<lparr>ai_flags := flags, ai_family := family, ai_socktype := socktype\<rparr>"

text \<open>What the functions share: the list, its first address that works, and the messages.\<close>

definition open_first ::
    "string \<Rightarrow> 32 word \<Rightarrow> int \<Rightarrow> (addrinfo \<Rightarrow> net \<Rightarrow> tried) \<Rightarrow> resolver \<Rightarrow> string option \<Rightarrow> string option \<Rightarrow> net
     \<Rightarrow> (stop \<times> net) + int \<times> addrinfo \<times> addrinfo list \<times> net" where
  "open_first name flags socktype attempt r host serv s =
     (case getaddrinfo r host serv (Some (hints_for flags AF_UNSPEC socktype)) (sys s) of
        (stop, n, ais, g) \<Rightarrow>
          (let s1 = s\<lparr>sys := g\<rparr>; msg = name @ '' error for '' @ show_ptr host @ '', '' @ show_ptr serv in
           if stop \<noteq> Returns then Inl (stop, s1)
           else if n \<noteq> 0 then Inl (die (err_quit (msg @ '': '' @ gai_strerror n) g) s1)
           else
             (case walk attempt ais s1 of
                Ended x \<Rightarrow> Inl x
              | Nothing s2 \<Rightarrow> Inl (die (err_sys msg (sys s2)) s2)
              | Found fd res s2 \<Rightarrow> Inr (fd, res, ais, s2))))"

definition free_list :: "addrinfo list \<Rightarrow> net \<Rightarrow> net" where
  "free_list ais s = s\<lparr>sys := freeaddrinfo ais (sys s)\<rparr>"

definition tcp_connect :: "resolver \<Rightarrow> kernel_fun \<Rightarrow> string option \<Rightarrow> string option \<Rightarrow> net \<Rightarrow> (stop \<times> net) + int \<times> net" where
  "tcp_connect r k host serv s =
     (case open_first ''tcp_connect'' 0 SOCK_STREAM (connect_try k) r host serv s of
        Inl x \<Rightarrow> Inl x
      | Inr (fd, _, ais, s1) \<Rightarrow> Inr (fd, free_list ais s1))"

definition udp_connect :: "resolver \<Rightarrow> kernel_fun \<Rightarrow> string option \<Rightarrow> string option \<Rightarrow> net \<Rightarrow> (stop \<times> net) + int \<times> net" where
  "udp_connect r k host serv s =
     (case open_first ''udp_connect'' 0 SOCK_DGRAM (connect_try k) r host serv s of
        Inl x \<Rightarrow> Inl x
      | Inr (fd, _, ais, s1) \<Rightarrow> Inr (fd, free_list ais s1))"

text \<open>A negative value never comes, so the wrapper's own message is never printed.\<close>

definition Udp_connect :: "resolver \<Rightarrow> kernel_fun \<Rightarrow> string option \<Rightarrow> string option \<Rightarrow> net \<Rightarrow> (stop \<times> net) + int \<times> net" where
  "Udp_connect r k host serv s =
     (case udp_connect r k host serv s of
        Inl x \<Rightarrow> Inl x
      | Inr (n, s1) \<Rightarrow>
          if n < 0 then Inl (die (err_quit (''udp_connect error for '' @ show_ptr host @ '', '' @ show_ptr serv @ '': '' @ gai_strerror (- n)) (sys s1)) s1)
          else Inr (n, s1))"

text \<open>The value is the descriptor and the length of an address, which goes to \<^verbatim>\<open>addrlenp\<close> if that is not null.\<close>

definition tcp_listen ::
    "resolver \<Rightarrow> kernel_fun \<Rightarrow> (int \<Rightarrow> errno + unit) \<Rightarrow> string option \<Rightarrow> string option \<Rightarrow> string option \<Rightarrow> net
     \<Rightarrow> (stop \<times> net) + int \<times> nat \<times> net" where
  "tcp_listen r k listen env host serv s =
     (case open_first ''tcp_listen'' AI_PASSIVE SOCK_STREAM (bind_try True k) r host serv s of
        Inl x \<Rightarrow> Inl x
      | Inr (fd, res, ais, s1) \<Rightarrow>
          (case Listen listen env LISTENQ (sys s1) of
             Inl x \<Rightarrow> Inl (die x s1)
           | Inr (_, p) \<Rightarrow> Inr (fd, ai_addrlen res, free_list ais (s1\<lparr>sys := p\<rparr>))))"

definition udp_server ::
    "resolver \<Rightarrow> kernel_fun \<Rightarrow> string option \<Rightarrow> string option \<Rightarrow> net \<Rightarrow> (stop \<times> net) + int \<times> nat \<times> net" where
  "udp_server r k host serv s =
     (case open_first ''udp_server'' AI_PASSIVE SOCK_DGRAM (bind_try False k) r host serv s of
        Inl x \<Rightarrow> Inl x
      | Inr (fd, res, ais, s1) \<Rightarrow> Inr (fd, ai_addrlen res, free_list ais s1))"

text \<open>The caller gets a copy of the address.\<close>

definition udp_client ::
    "resolver \<Rightarrow> kernel_fun \<Rightarrow> string option \<Rightarrow> string option \<Rightarrow> net \<Rightarrow> (stop \<times> net) + int \<times> sa option \<times> nat \<times> net" where
  "udp_client r k host serv s =
     (case open_first ''udp_client'' 0 SOCK_DGRAM (socket_try k) r host serv s of
        Inl x \<Rightarrow> Inl x
      | Inr (fd, res, ais, s1) \<Rightarrow>
          (case alloc (sys s1) of
             (ok, g) \<Rightarrow>
               (case Malloc (if ok then Inr () else Inl ENOMEM) g of
                  Inl x \<Rightarrow> Inl (die x s1)
                | Inr (_, p) \<Rightarrow> Inr (fd, ai_addr res, ai_addrlen res, free_list ais (s1\<lparr>sys := p\<rparr>)))))"

definition host_serv :: "resolver \<Rightarrow> string option \<Rightarrow> string option \<Rightarrow> int \<Rightarrow> int \<Rightarrow> gai \<Rightarrow> (stop \<times> gai) + addrinfo list \<times> gai" where
  "host_serv r host serv family socktype g =
     (case getaddrinfo r host serv (Some (hints_for AI_CANONNAME family socktype)) g of
        (stop, n, ais, g1) \<Rightarrow> if stop \<noteq> Returns then Inl (stop, g1) else Inr (if n \<noteq> 0 then [] else ais, g1))"

definition Host_serv :: "resolver \<Rightarrow> string option \<Rightarrow> string option \<Rightarrow> int \<Rightarrow> int \<Rightarrow> gai \<Rightarrow> (stop \<times> gai) + addrinfo list \<times> gai" where
  "Host_serv r host serv family socktype g =
     (case getaddrinfo r host serv (Some (hints_for AI_CANONNAME family socktype)) g of
        (stop, n, ais, g1) \<Rightarrow>
          if stop \<noteq> Returns then Inl (stop, g1)
          else if n \<noteq> 0 then
            Inl (err_quit (''host_serv error for '' @ (case host of None \<Rightarrow> ''(no hostname)'' | Some h \<Rightarrow> h) @ '', ''
              @ (case serv of None \<Rightarrow> ''(no service name)'' | Some h \<Rightarrow> h) @ '': '' @ gai_strerror n) g1)
          else Inr (ais, g1))"

definition my_addrs :: "resolver \<Rightarrow> (int \<times> 8 word list list) option" where
  "my_addrs r = (case node r of
       None \<Rightarrow> None
     | Some name \<Rightarrow>
         (case gethostbyname r False name of Inl _ \<Rightarrow> None | Inr h \<Rightarrow> Some (h_addrtype h, h_addr_list h)))"

definition My_addrs :: "resolver \<Rightarrow> 'p proc_scheme \<Rightarrow> (stop \<times> 'p proc_scheme) + int \<times> 8 word list list" where
  "My_addrs r p = (case my_addrs r of None \<Rightarrow> Inl (err_sys ''my_addrs error'' p) | Some x \<Rightarrow> Inr x)"

section \<open>The contract of an attempt\<close>

datatype outcome = Fails | Opens int | Kills

fun outcomes :: "(nat \<Rightarrow> addrinfo \<Rightarrow> outcome) \<Rightarrow> nat \<Rightarrow> addrinfo list \<Rightarrow> outcome list" where
  "outcomes w n [] = []"
| "outcomes w n (res # ais) = w n res # outcomes w (n + 1) ais"

text \<open>The outcome that ends a walk: the first that is not a failure.\<close>

definition verdict :: "outcome list \<Rightarrow> outcome" where
  "verdict os = (case dropWhile (\<lambda>x. x = Fails) os of [] \<Rightarrow> Fails | x # _ \<Rightarrow> x)"

lemma verdict_simps [simp]:
  "verdict [] = Fails" "verdict (Fails # os) = verdict os" "verdict (Opens fd # os) = Opens fd" "verdict (Kills # os) = Kills"
  by (simp_all add: verdict_def)

definition kept :: "net \<Rightarrow> net \<Rightarrow> bool" where
  "kept s s' \<longleftrightarrow> live (sys s') = live (sys s) \<and> calls s' = calls s + 1"

locale attempts =
  fixes attempt :: "addrinfo \<Rightarrow> net \<Rightarrow> tried"
    and outcome :: "nat \<Rightarrow> addrinfo \<Rightarrow> outcome"
  assumes fails: "outcome (calls s) res = Fails \<Longrightarrow> \<exists>s'. attempt res s = Next s' \<and> fds s' = fds s \<and> kept s s'"
    and works: "outcome (calls s) res = Opens fd \<Longrightarrow> \<exists>s'. attempt res s = Done fd s' \<and> fds s' = fd # fds s \<and> kept s s'"
    and kills: "outcome (calls s) res = Kills \<Longrightarrow> \<exists>s'. attempt res s = Dies (Exits 1, s')"
begin

lemma walk_verdict:
  "case verdict (outcomes outcome (calls s) ais) of
     Fails \<Rightarrow> \<exists>s'. walk attempt ais s = Nothing s' \<and> fds s' = fds s
   | Opens fd \<Rightarrow> \<exists>res s'. walk attempt ais s = Found fd res s' \<and> res \<in> set ais \<and> fds s' = fd # fds s \<and> live (sys s') = live (sys s)
   | Kills \<Rightarrow> \<exists>s'. walk attempt ais s = Ended (Exits 1, s')"
proof (induction ais arbitrary: s)
  case (Cons res ais)
  show ?case
  proof (cases "outcome (calls s) res")
    case Fails
    then obtain s' where s': "attempt res s = Next s'" "fds s' = fds s" "kept s s'" using fails by blast
    with Cons.IH [of s'] Fails show ?thesis
      by (cases "verdict (outcomes outcome (calls s + 1) ais)") (auto simp: kept_def)
  next
    case (Opens fd)
    with works [OF this] show ?thesis by (auto simp: kept_def)
  next
    case Kills
    with kills [OF this] show ?thesis by auto
  qed
qed simp

text \<open>The list is complete before the first attempt, so the walk sees the addresses of \<open>getaddrinfo\<close>.\<close>

lemma open_first_verdict:
  assumes "resolver_ok r" and "flags AND AI_CANONNAME = 0"
    and ais: "ais = fst (snd (snd (getaddrinfo r host serv (Some (hints_for flags AF_UNSPEC socktype)) (sys s))))"
  shows "case verdict (outcomes outcome (calls s) ais) of
      Opens fd \<Rightarrow> \<exists>res s'. open_first name flags socktype attempt r host serv s = Inr (fd, res, ais, s') \<and> res \<in> set ais
        \<and> fds s' = fd # fds s \<and> live (sys s') = live (sys s) + owned ais
    | _ \<Rightarrow> \<exists>s'. open_first name flags socktype attempt r host serv s = Inl (Exits 1, s')"
proof -
  let ?x = "getaddrinfo r host serv (Some (hints_for flags AF_UNSPEC socktype)) (sys s)"
  obtain stop n as g where x: "?x = (stop, n, as, g)" by (rule prod_cases4)
  have as: "as = ais" using ais x by simp
  have stop: "stop = Returns"
    using getaddrinfo_stop [of r host serv "Some (hints_for flags AF_UNSPEC socktype)" "sys s"] x
    by (simp add: hints_of_def hints_for_def zero_ai_def gai_consts)
  show ?thesis
  proof (cases "n = 0")
    case False
    have "as = []" using x False stop
      by (auto simp: getaddrinfo_def Let_def gai_bad_def ga_unix_def split: if_splits prod.splits sum.splits option.splits bool.splits)
    with as x stop False show ?thesis
      by (simp add: open_first_def Let_def die_def err_quit_def)
  next
    case True
    have l: "live g = live (sys s) + owned ais"
      using getaddrinfo_owned [of r host serv "Some (hints_for flags AF_UNSPEC socktype)" "sys s" as g] x stop True as assms(1) by simp
    from walk_verdict [where s = "s\<lparr>sys := g\<rparr>" and ais = ais] show ?thesis
      using x stop True as l
      by (cases "verdict (outcomes outcome (calls s) ais)") (auto simp: open_first_def Let_def die_def err_sys_def)
  qed
qed

end

section \<open>The bodies of the loops\<close>

definition closing :: "errno + unit \<Rightarrow> outcome" where
  "closing c = (case c of Inl _ \<Rightarrow> Kills | Inr _ \<Rightarrow> Fails)"

definition connect_outcome :: "kernel_fun \<Rightarrow> nat \<Rightarrow> addrinfo \<Rightarrow> outcome" where
  "connect_outcome k n res = (case k n (shown_ai res) of
       NoSocket _ \<Rightarrow> Fails
     | Socket_fd fd _ conn c \<Rightarrow> (case conn of Inr _ \<Rightarrow> Opens fd | Inl _ \<Rightarrow> closing c))"

definition bind_outcome :: "bool \<Rightarrow> kernel_fun \<Rightarrow> nat \<Rightarrow> addrinfo \<Rightarrow> outcome" where
  "bind_outcome reuse k n res = (case k n (shown_ai res) of
       NoSocket _ \<Rightarrow> Fails
     | Socket_fd fd opt bound c \<Rightarrow>
         if reuse \<and> isl opt then Kills else (case bound of Inr _ \<Rightarrow> Opens fd | Inl _ \<Rightarrow> closing c))"

definition socket_outcome :: "kernel_fun \<Rightarrow> nat \<Rightarrow> addrinfo \<Rightarrow> outcome" where
  "socket_outcome k n res = (case k n (shown_ai res) of NoSocket _ \<Rightarrow> Fails | Socket_fd fd _ _ _ \<Rightarrow> Opens fd)"

lemma err_doit_memory [simp]: "live (err_doit b m g) = live g"
  by (simp add: err_doit_def Let_def)

lemma close_new_cases:
  "closing c = Fails \<Longrightarrow> \<exists>s'. close_new c s = Next s' \<and> fds s' = tl (fds s) \<and> live (sys s') = live (sys s) \<and> calls s' = calls s"
  "closing c = Kills \<Longrightarrow> \<exists>s'. close_new c s = Dies (Exits 1, s')"
  "closing c \<noteq> Opens fd"
  by (auto simp: closing_def close_new_def Close_def or_die_def die_def err_sys_def split: sum.splits)

interpretation conn: attempts "connect_try k" "connect_outcome k" for k
proof
  fix s res
  let ?s = "\<lambda>fd e. set_errno e (s\<lparr>calls := calls s + 1, fds := fd # fds s\<rparr>)"
  show "connect_outcome k (calls s) res = Fails \<Longrightarrow> \<exists>s'. connect_try k res s = Next s' \<and> fds s' = fds s \<and> kept s s'"
    using close_new_cases(1) [of _ "?s _ _"]
    by (fastforce simp: connect_outcome_def connect_try_def Let_def set_errno_def kept_def split: answer.splits sum.splits)
  show "connect_outcome k (calls s) res = Kills \<Longrightarrow> \<exists>s'. connect_try k res s = Dies (Exits 1, s')"
    using close_new_cases(2) by (auto simp: connect_outcome_def connect_try_def Let_def split: answer.splits sum.splits)
  show "connect_outcome k (calls s) res = Opens fd \<Longrightarrow> \<exists>s'. connect_try k res s = Done fd s' \<and> fds s' = fd # fds s \<and> kept s s'" for fd
    by (auto simp: connect_outcome_def connect_try_def Let_def kept_def close_new_cases(3) split: answer.splits sum.splits)
qed

interpretation lis: attempts "bind_try reuse k" "bind_outcome reuse k" for reuse k
proof
  fix s res
  show "bind_outcome reuse k (calls s) res = Fails \<Longrightarrow> \<exists>s'. bind_try reuse k res s = Next s' \<and> fds s' = fds s \<and> kept s s'"
    using close_new_cases(1)
    by (fastforce simp: bind_outcome_def bind_try_def Let_def set_errno_def kept_def Setsockopt_def or_die_def
        split: answer.splits sum.splits if_splits)
  show "bind_outcome reuse k (calls s) res = Kills \<Longrightarrow> \<exists>s'. bind_try reuse k res s = Dies (Exits 1, s')"
    using close_new_cases(2)
    by (auto simp: bind_outcome_def bind_try_def Let_def Setsockopt_def or_die_def die_def err_sys_def split: answer.splits sum.splits if_splits)
  show "bind_outcome reuse k (calls s) res = Opens fd \<Longrightarrow> \<exists>s'. bind_try reuse k res s = Done fd s' \<and> fds s' = fd # fds s \<and> kept s s'" for fd
    by (auto simp: bind_outcome_def bind_try_def Let_def kept_def close_new_cases(3) Setsockopt_def or_die_def split: answer.splits sum.splits if_splits)
qed

interpretation sock: attempts "socket_try k" "socket_outcome k" for k
  by unfold_locales
    (auto simp: socket_outcome_def socket_try_def Let_def set_errno_def kept_def split: answer.splits)

text \<open>The list that a function walks.\<close>

definition addresses :: "resolver \<Rightarrow> 32 word \<Rightarrow> int \<Rightarrow> string option \<Rightarrow> string option \<Rightarrow> net \<Rightarrow> addrinfo list" where
  "addresses r flags socktype host serv s =
     fst (snd (snd (getaddrinfo r host serv (Some (hints_for flags AF_UNSPEC socktype)) (sys s))))"

lemma free_list_live: "live (sys (free_list ais s)) = live (sys s) - owned ais" "fds (free_list ais s) = fds s"
  by (simp_all add: free_list_def free_live)

definition idle :: net where
  "idle = \<lparr>sys = no_blocks, fds = [], calls = 0\<rparr>"

text \<open>A kernel for the examples: the first address refuses the connection.\<close>

definition second_works :: kernel_fun where
  "second_works n q = Socket_fd 3 (Inr ()) (if n = 0 then Inl ECONNREFUSED else Inr ()) (Inr ())"

section \<open>Properties\<close>

text \<open>C14: \<^verbatim>\<open>tcp_connect\<close> connects to the first address of \<^verbatim>\<open>getaddrinfo\<close> that accepts the connection, closes the
  sockets it made for those before it, so that exactly one descriptor is new, and frees the list; when no
  address works, or there is none, the process ends with status 1.\<close>

theorem tcp_connect_opens_one:
  assumes "resolver_ok r"
  shows "case verdict (outcomes (connect_outcome k) (calls s) (addresses r 0 SOCK_STREAM host serv s)) of
      Opens fd \<Rightarrow> \<exists>s'. tcp_connect r k host serv s = Inr (fd, s') \<and> fds s' = fd # fds s \<and> live (sys s') = live (sys s)
    | _ \<Rightarrow> \<exists>s'. tcp_connect r k host serv s = Inl (Exits 1, s')"
  using conn.open_first_verdict [OF assms, of 0 "addresses r 0 SOCK_STREAM host serv s" host serv SOCK_STREAM s "''tcp_connect''" k, OF _ addresses_def]
  by (auto simp: tcp_connect_def free_list_live split: outcome.splits)

theorem tcp_connect_opens_one_witness:
  "\<exists>s'. tcp_connect one_host second_works (Some ''gw'') (Some ''time'') idle = Inr (3, s') \<and> fds s' = [3] \<and> live (sys s') = 0"
proof -
  have "verdict (outcomes (connect_outcome second_works) (calls idle) (addresses one_host 0 SOCK_STREAM (Some ''gw'') (Some ''time'') idle)) = Opens 3"
    by code_simp
  with tcp_connect_opens_one [OF one_host_ok, where k = second_works and s = idle and host = "Some ''gw''" and serv = "Some ''time''"]
  show ?thesis by (simp add: idle_def no_blocks_def)
qed

text \<open>\<^verbatim>\<open>tcp_listen\<close> binds the first address that can be bound, makes the socket listen and tells the length
  of that address; exactly one descriptor is new and the list is freed.\<close>

theorem tcp_listen_opens_one:
  assumes "resolver_ok r" and "listen (case env of None \<Rightarrow> LISTENQ | Some t \<Rightarrow> atoi t) = Inr ()"
  shows "case verdict (outcomes (bind_outcome True k) (calls s) (addresses r AI_PASSIVE SOCK_STREAM host serv s)) of
      Opens fd \<Rightarrow> \<exists>l s'. tcp_listen r k listen env host serv s = Inr (fd, l, s') \<and> fds s' = fd # fds s \<and> live (sys s') = live (sys s)
        \<and> l \<in> ai_addrlen ` set (addresses r AI_PASSIVE SOCK_STREAM host serv s)
    | _ \<Rightarrow> \<exists>s'. tcp_listen r k listen env host serv s = Inl (Exits 1, s')"
proof -
  have "AI_PASSIVE AND AI_CANONNAME = 0" by (simp add: AI_PASSIVE_def AI_CANONNAME_def)
  from lis.open_first_verdict [OF assms(1) this, of "addresses r AI_PASSIVE SOCK_STREAM host serv s" host serv SOCK_STREAM s "''tcp_listen''" True k, OF addresses_def]
  show ?thesis using assms(2)
    by (fastforce simp: tcp_listen_def free_list_live Listen_def or_die_def Let_def split: outcome.splits)
qed

theorem tcp_listen_opens_one_witness:
  "\<exists>s'. tcp_listen one_host second_works (\<lambda>n. Inr ()) (Some ''5'') (Some ''gw'') (Some ''time'') idle = Inr (3, 16, s') \<and> fds s' = [3]"
proof -
  have v: "verdict (outcomes (bind_outcome True second_works) (calls idle) (addresses one_host AI_PASSIVE SOCK_STREAM (Some ''gw'') (Some ''time'') idle)) = Opens 3"
    by code_simp
  have l: "map ai_addrlen (addresses one_host AI_PASSIVE SOCK_STREAM (Some ''gw'') (Some ''time'') idle) = [16, 16]" by code_simp
  have "ai_addrlen ` set (addresses one_host AI_PASSIVE SOCK_STREAM (Some ''gw'') (Some ''time'') idle) = {16}"
    unfolding set_map [symmetric] l by simp
  with v tcp_listen_opens_one [OF one_host_ok, where k = second_works and s = idle and host = "Some ''gw''" and serv = "Some ''time''"
      and listen = "\<lambda>n. Inr ()" and env = "Some ''5''"]
  show ?thesis by (auto simp: idle_def)
qed

text \<open>C15: The texts that \<^verbatim>\<open>getnameinfo\<close> writes for an Internet address lead \<^verbatim>\<open>tcp_connect\<close> back to it: the
  kernel is asked once, for a stream socket of the address's family and a connection to that socket
  address, and the socket of this one try is the result.\<close>

theorem tcp_connect_reaches_address:
  assumes "inet_address a" and "pton r = pton_lib junk" and "length junk = 4" and "mem (sys s) = []"
    and "46 \<le> hostlen" and "6 \<le> servlen" and "ntop rv = ntop_lib"
    and "getnameinfo rv (Some (sa_for a port)) hostlen servlen (NI_NUMERICHOST OR NI_NUMERICSERV) = (0, Some host, Some serv)"
    and "k (calls s) (fst a, SOCK_STREAM, 0, if fst a = AF_INET then 16 else 28, Some (sa_for a port)) = Socket_fd fd opt (Inr ()) c"
  shows "\<exists>s'. tcp_connect r k (Some host) (Some serv) s = Inr (fd, s') \<and> fds s' = fd # fds s \<and> calls s' = calls s + 1"
proof -
  let ?h = "hints_for 0 AF_UNSPEC SOCK_STREAM"
  have hs: "host = host_text a" "serv = show_int (uint port)"
    using getnameinfo_numeric [OF assms(1,5-7), of port] assms(8) by simp_all
  obtain c0 cs where t: "host_text a = c0 # cs" "c0 \<noteq> CHR ''/''" using host_text_first [OF assms(1)] by blast
  have h: "hints_of (Some ?h) = ?h" "ai_flags ?h = 0" "ai_family ?h = AF_UNSPEC" "ai_socktype ?h \<noteq> 0"
    by (simp_all add: hints_of_def hints_for_def zero_ai_def SOCK_STREAM_def)
  from getaddrinfo_literal [OF literal_host [OF assms(1-3)] assms(1) t assms(4) h(1-3), of port] h(4) obtain g' where
    g: "getaddrinfo r (Some host) (Some serv) (Some ?h) (sys s) = (Returns, 0, [entry ?h 0 None a (ai_socktype ?h, port)], g')"
    using hs by (auto simp: promised_def)
  have "shown_ai (entry ?h 0 None a (ai_socktype ?h, port)) = (fst a, SOCK_STREAM, 0, if fst a = AF_INET then 16 else 28, Some (sa_for a port))"
    by (simp add: shown_entry offer_def hints_for_def zero_ai_def)
  with g assms(9) show ?thesis
    by (simp add: tcp_connect_def open_first_def connect_try_def free_list_def Let_def)
qed

theorem tcp_connect_reaches_address_witness:
  "\<exists>host serv s'. getnameinfo numeric_back (Some (Sin [1, 2, 3, 4] 80)) 1025 32 10 = (0, Some host, Some serv)
    \<and> tcp_connect numeric_only (\<lambda>n q. if q = (2, 1, 0, 16, Some (Sin [1, 2, 3, 4] 80)) then Socket_fd 5 (Inr ()) (Inr ()) (Inr ()) else NoSocket EIO)
        (Some host) (Some serv) idle = Inr (5, s')"
proof -
  have a: "inet_address (AF_INET, [1, 2, 3, 4])" by (simp add: inet_address_def)
  have "getnameinfo numeric_back (Some (sa_for (AF_INET, [1, 2, 3, 4]) 80)) 1025 32 (NI_NUMERICHOST OR NI_NUMERICSERV)
      = (0, Some (host_text (AF_INET, [1, 2, 3, 4])), Some (show_int (uint (80 :: 16 word))))"
    by (rule getnameinfo_numeric [OF a]) (simp_all add: numeric_back_def)
  from this tcp_connect_reaches_address [OF a, of numeric_only "[1, 2, 3, 4]" idle 1025 32 numeric_back 80, OF _ _ _ _ _ _ this,
      of "\<lambda>n q. if q = (2, 1, 0, 16, Some (Sin [1, 2, 3, 4] 80)) then Socket_fd 5 (Inr ()) (Inr ()) (Inr ()) else NoSocket EIO" 5 "Inr ()" "Inr ()"]
  show ?thesis
    by (auto simp: numeric_only_def numeric_back_def idle_def no_blocks_def gai_consts sa_for_def NI_NUMERICHOST_def NI_NUMERICSERV_def)
qed

end
