(* ===== verification/Unp_Gai_Type.thy ===== *)
theory Unp_Gai_Type
  imports Unp_Gai
begin

unbundle bit_operations_syntax

text \<open>
  The form of the elements that \<^verbatim>\<open>getaddrinfo\<close> returns: the callers cast \<^verbatim>\<open>ai_addr\<close> to the structure that
  \<^verbatim>\<open>ai_family\<close> names, so the two must agree, with the length, wherever an element comes from.
\<close>

section \<open>Well-typed elements\<close>

definition typed :: "addrinfo \<Rightarrow> bool" where
  "typed ai \<longleftrightarrow> (case ai_addr ai of
       Some (Sin b _) \<Rightarrow> ai_family ai = AF_INET \<and> ai_addrlen ai = 16 \<and> length b = 4
     | Some (Sin6 b _) \<Rightarrow> ai_family ai = AF_INET6 \<and> ai_addrlen ai = 28 \<and> length b = 16
     | Some (Sun path) \<Rightarrow> ai_family ai = AF_LOCAL \<and> ai_addrlen ai = 110 \<and> length path < SUN_PATH
     | None \<Rightarrow> False)"

definition typed_list :: "addrinfo list \<Rightarrow> bool" where
  "typed_list ais \<longleftrightarrow> (\<forall>ai \<in> set ais. typed ai)"

lemma typed_list_simps [simp]:
  "typed_list []" "typed_list (a # ais) \<longleftrightarrow> typed a \<and> typed_list ais" "typed_list (as @ bs) \<longleftrightarrow> typed_list as \<and> typed_list bs"
  by (auto simp: typed_list_def)

text \<open>The addresses of the resolver have the length of their family.\<close>

definition width :: "int \<Rightarrow> nat" where
  "width family = (if family = AF_INET then 4 else 16)"

definition host_typed :: "hostent \<Rightarrow> bool" where
  "host_typed h \<longleftrightarrow> h_addrtype h \<in> {AF_INET, AF_INET6} \<and> (\<forall>b \<in> set (h_addr_list h). length b = width (h_addrtype h))"

definition resolver_typed :: "resolver \<Rightarrow> bool" where
  "resolver_typed r \<longleftrightarrow> (\<forall>f \<in> {AF_INET, AF_INET6}. \<forall>s b. pton r f s = Some b \<longrightarrow> length b = width f)
     \<and> (\<forall>s f h. gethostbyname2 r s f = Some h \<longrightarrow> host_typed h) \<and> (\<forall>v6 s h. gethostbyname r v6 s = Inr h \<longrightarrow> host_typed h)"

section \<open>Preservation\<close>

lemma typed_canonname [simp]: "typed (ai\<lparr>ai_canonname := c\<rparr>) = typed ai"
  by (simp add: typed_def split: option.split sa.split)

lemma set_port_typed: "typed ai \<Longrightarrow> set_port port st ai = (ai', k) \<Longrightarrow> typed ai' \<and> 0 \<le> k"
  by (auto simp: typed_def set_port_def Let_def split: option.splits sa.splits if_splits)

lemma clone_typed: "typed ai \<Longrightarrow> ga_clone ai g = (Some new, linked, g') \<Longrightarrow> typed new"
  by (auto simp: typed_def ga_clone_def Let_def split: option.splits sa.splits prod.splits bool.splits)

lemma aistruct_typed:
  "ga_aistruct ais hints (Bytes b) f g = (0, ais', g') \<Longrightarrow> f \<in> {AF_INET, AF_INET6} \<Longrightarrow> length b = width f \<Longrightarrow> typed_list ais \<Longrightarrow> typed_list ais'"
  by (auto simp: ga_aistruct_def Let_def typed_def width_def zero_ai_def eai_defs AF_INET_def AF_INET6_def split: prod.splits bool.splits if_splits)

lemma aistruct_path_typed:
  "ga_aistruct ais hints (Path path) AF_LOCAL g = (0, ais', g') \<Longrightarrow> typed_list ais \<Longrightarrow> typed_list ais'"
  by (auto simp: ga_aistruct_def Let_def typed_def zero_ai_def eai_defs SUN_PATH_def split: prod.splits bool.splits if_splits)

lemma aistructs_typed:
  "ga_aistructs ais hints bs f g = (0, ais', g') \<Longrightarrow> f \<in> {AF_INET, AF_INET6} \<Longrightarrow> \<forall>b \<in> set bs. length b = width f \<Longrightarrow> typed_list ais \<Longrightarrow> typed_list ais'"
proof (induction ais hints bs f g rule: ga_aistructs.induct)
  case (2 ais hints b bs f g)
  obtain rc ais1 g1 where a: "ga_aistruct ais hints (Bytes b) f g = (rc, ais1, g1)" by (rule prod_cases3)
  with 2(2) have rc: "rc = 0" by (auto split: if_splits)
  with 2 a aistruct_typed [of ais hints b f g ais1 g1] show ?case by auto
qed simp

lemma port_typed:
  "ga_port ais port st n g = (rc, ais', g') \<Longrightarrow> typed_list ais \<Longrightarrow> 0 \<le> n \<Longrightarrow> 0 \<le> rc \<Longrightarrow> typed_list ais'"
proof (induction ais port st n g arbitrary: rc ais' g' rule: ga_port.induct)
  case (2 ai ais port st n g)
  have a: "typed ai" "typed_list ais" using 2(5) by auto
  show ?case
  proof (cases "ai_flags ai AND AI_CLONE \<noteq> 0 \<and> ai_socktype ai \<noteq> 0")
    case True
    obtain x linked g1 where c: "ga_clone ai g = (x, linked, g1)" by (cases "ga_clone ai g")
    with 2(4,7) True obtain new where x: "x = Some new" by (cases x) auto
    obtain new1 k where s: "set_port port st new = (new1, k)" by (cases "set_port port st new")
    obtain r2 ais2 g2 where p: "ga_port ais port st (n + k) g1 = (r2, ais2, g2)" by (cases "ga_port ais port st (n + k) g1")
    have t: "typed new1" "0 \<le> k" using set_port_typed [OF clone_typed [OF a(1) c [unfolded x]] s] by auto
    from 2(4) True c x s p have "ais' = ai # new1 # ais2" "rc = r2" by auto
    with "2.IH"(1) [OF True c [symmetric] x refl s [symmetric] p a(2)] t a 2(6,7) show ?thesis by simp
  next
    case no: False
    show ?thesis
    proof (cases "ai_flags ai AND AI_CLONE = 0 \<and> ai_socktype ai \<noteq> st")
      case True
      obtain r2 ais2 g2 where p: "ga_port ais port st n g = (r2, ais2, g2)" by (cases "ga_port ais port st n g")
      from 2(4) no True p have "ais' = ai # ais2" "rc = r2" by auto
      with "2.IH"(2) [OF no True p a(2)] 2(6,7) a show ?thesis by simp
    next
      case False
      obtain ai1 k where s: "set_port port st ai = (ai1, k)" by (cases "set_port port st ai")
      obtain r2 ais2 g2 where p: "ga_port ais port st (n + k) g = (r2, ais2, g2)" by (cases "ga_port ais port st (n + k) g")
      from 2(4) no False s p have "ais' = ai1 # ais2" "rc = r2" by auto
      with "2.IH"(3) [OF no False s [symmetric] p a(2)] set_port_typed [OF a(1) s] 2(6,7) a show ?thesis by simp
    qed
  qed
qed simp

lemma ports_typed: "ga_ports sps ais n g = (Some x, ais', g') \<Longrightarrow> typed_list ais \<Longrightarrow> typed_list ais'"
proof (induction sps ais n g arbitrary: ais' g' rule: ga_ports.induct)
  case (2 st port sps ais n g)
  obtain rc ais1 g1 where p: "ga_port ais port st 0 g = (rc, ais1, g1)" by (cases "ga_port ais port st 0 g")
  with 2(2) have rc: "\<not> rc < 0" by auto
  with port_typed [OF p 2(3)] have "typed_list ais1" by simp
  with "2.IH" [OF p [symmetric] refl rc] 2(2) p rc show ?case by simp
qed simp

lemma serv_typed: "ga_serv r ais hints serv g = (0, ais', g') \<Longrightarrow> typed_list ais \<Longrightarrow> typed_list ais'"
  by (auto simp: ga_serv_def eai_defs dest: ports_typed split: prod.splits option.splits if_splits)

lemma literal_typed: "resolver_typed r \<Longrightarrow> literal r host = Some (f, b) \<Longrightarrow> length b = width f"
  by (auto simp: literal_def resolver_typed_def split: option.splits if_splits)

lemma lookup_typed: "resolver_typed r \<Longrightarrow> lookup_host r n host f = Inr (Some h) \<Longrightarrow> host_typed h"
  by (auto simp: lookup_host_def resolver_typed_def split: if_splits sum.splits)

lemma turn_typed:
  assumes "gai_turn r n hostname hints sptr (ais, canon, g) = (0, ais', canon', g')" and "resolver_typed r" and "typed_list ais"
  shows "typed_list ais'"
proof -
  obtain host family where sp: "sptr = (host, family)" by (cases sptr)
  show ?thesis
  proof (cases "literal r host")
    case (Some x)
    obtain f b where x: "x = (f, b)" by (cases x)
    note fb = literal_family [OF Some [unfolded x]] literal_typed [OF assms(2) Some [unfolded x]]
    show ?thesis using assms(1,3) sp Some x aistruct_typed [OF _ fb]
      by (auto simp: gai_turn_def EAI_ADDRFAMILY_def split: if_splits prod.splits)
  next
    case lit: None
    show ?thesis
    proof (cases "lookup_host r n host family")
      case (Inl e)
      then have "e \<noteq> 0" by (auto simp: lookup_host_def eai_of_def eai_defs split: if_splits sum.splits herr.splits)
      with assms(1) sp lit Inl show ?thesis by (simp add: gai_turn_def)
    next
      case (Inr y)
      show ?thesis
      proof (cases y)
        case None
        with assms sp lit Inr show ?thesis by (simp add: gai_turn_def)
      next
        case (Some h)
        have "host_typed h" using lookup_typed [OF assms(2)] Inr Some by blast
        then have h: "h_addrtype h \<in> {AF_INET, AF_INET6}" "\<forall>b \<in> set (h_addr_list h). length b = width (h_addrtype h)"
          by (auto simp: host_typed_def)
        show ?thesis using assms(1,3) sp lit Inr Some aistructs_typed [OF _ h]
          by (auto simp: gai_turn_def Let_def EAI_ADDRFAMILY_def EAI_MEMORY_def split: if_splits prod.splits bool.splits)
      qed
    qed
  qed
qed

lemma searches_typed:
  "gai_searches r n hostname hints ss st = (0, st') \<Longrightarrow> resolver_typed r \<Longrightarrow> typed_list (fst st) \<Longrightarrow> typed_list (fst st')"
proof (induction r n hostname hints ss st rule: gai_searches.induct)
  case (2 r n hostname hints s ss st)
  obtain ais canon g where st: "st = (ais, canon, g)" by (rule prod_cases3)
  obtain rc1 ais1 canon1 g1 where t: "gai_turn r n hostname hints s st = (rc1, ais1, canon1, g1)" by (rule prod_cases4)
  with 2(2) have rc: "rc1 = 0" by (auto split: if_splits)
  have "typed_list ais1" using turn_typed [OF t [unfolded st rc] 2(3)] 2(4) st by simp
  with 2 t rc show ?case by auto
qed simp

lemma canon_typed:
  "gai_canon hostname hints host (ais, canon, g) = (0, ais', g') \<Longrightarrow> typed_list ais \<Longrightarrow> typed_list ais'"
  by (cases ais) (auto simp: gai_canon_def split: if_splits option.splits prod.splits bool.splits)

lemma unix_typed:
  assumes "ga_unix r path hints g = (0, ais, g')"
  shows "typed_list ais"
proof -
  obtain rc1 as1 g1 where f: "(if ai_socktype hints = 0
      then ga_aistruct [] (hints\<lparr>ai_socktype := SOCK_STREAM\<rparr>) (Path path) AF_LOCAL g else (0, [], g)) = (rc1, as1, g1)"
    by (rule prod_cases3)
  obtain rc2 as2 g2 where s: "ga_aistruct as1 (if ai_socktype hints = 0 then hints\<lparr>ai_socktype := SOCK_DGRAM\<rparr> else hints)
      (Path path) AF_LOCAL g1 = (rc2, as2, g2)" by (rule prod_cases3)
  from assms have ok: "rc1 = 0" "rc2 = 0"
    by (auto simp: ga_unix_def f s Let_def EAI_ADDRFAMILY_def split: if_splits)
  have "typed_list as1" using f ok aistruct_path_typed by (fastforce split: if_splits)
  with aistruct_path_typed [OF s [unfolded ok]] have "typed_list as2" .
  with assms ok show ?thesis
    by (cases as2) (auto simp: ga_unix_def f s Let_def EAI_ADDRFAMILY_def EAI_SYSTEM_def EAI_MEMORY_def
        split: if_splits option.splits prod.splits bool.splits)
qed

lemma getaddrinfo_typed:
  assumes "getaddrinfo r hostname servname hintsp g = (Returns, 0, ais, g')" and "resolver_typed r"
  shows "typed_list ais"
proof (cases "is_unix hostname servname")
  case True
  with assms(1) have "ga_unix r (the servname) (hints_of hintsp) g = (0, ais, g')"
    by (auto simp: getaddrinfo_def Let_def gai_bad_def hints_of_def split: if_splits)
  then show ?thesis by (rule unix_typed)
next
  case False
  have h: "(case hintsp of None \<Rightarrow> zero_ai\<lparr>ai_family := AF_UNSPEC\<rparr> | Some h \<Rightarrow> h) = hints_of hintsp" by (simp add: hints_of_def)
  let ?h = "hints_of hintsp"
  from assms(1) False obtain search where ns: "ga_nsearch hostname ?h g = Inr search"
    by (cases "ga_nsearch hostname ?h g") (auto simp: getaddrinfo_def Let_def h gai_bad_def ga_nsearch_def err_quit_def split: if_splits)
  obtain rc1 as1 canon g1 where se: "gai_searches r (length search) hostname ?h search ([], None, g) = (rc1, as1, canon, g1)" by (rule prod_cases4)
  obtain rc2 as2 g2 where c: "gai_canon hostname ?h (fst (search ! 0)) (as1, canon, g1) = (rc2, as2, g2)" by (rule prod_cases3)
  obtain rc3 as3 g3 where sv: "ga_serv r as2 ?h (the servname) g2 = (rc3, as3, g3)" by (rule prod_cases3)
  from assms(1) False ns se c sv have rc: "rc1 = 0" "rc2 = 0" "ais = (if given servname then as3 else as2)" "given servname \<Longrightarrow> rc3 = 0"
    by (auto simp: getaddrinfo_def Let_def h gai_bad_def EAI_NONAME_def split: if_splits)
  have "typed_list as1" using searches_typed [OF se [unfolded rc] assms(2)] by simp
  then have "typed_list as2" by (rule canon_typed [OF c [unfolded rc]])
  with rc serv_typed [of r as2 ?h "the servname" g2 as3 g3] sv show ?thesis by simp
qed

lemma one_host_typed: "resolver_typed one_host"
  by (auto simp: resolver_typed_def one_host_def host_typed_def width_def split: if_splits)

section \<open>Properties\<close>

text \<open>C19: Every element that \<^verbatim>\<open>getaddrinfo\<close> returns has an address, and family, length and the kind of the address
  agree: a caller that casts by the family never reads another structure, for Internet hosts and Unix
  domain names, whatever the hints and wherever an allocation failed.\<close>

theorem getaddrinfo_well_typed:
  assumes "getaddrinfo r hostname servname hintsp g = (Returns, 0, ais, g')" and "resolver_typed r"
  shows "list_all typed ais"
  using getaddrinfo_typed [OF assms] by (simp add: typed_list_def list_all_iff)

theorem getaddrinfo_well_typed_witness:
  "list_all typed (fst (snd (snd (getaddrinfo one_host (Some ''/local'') (Some ''/tmp/s'') None no_blocks))))"
proof -
  let ?x = "getaddrinfo one_host (Some ''/local'') (Some ''/tmp/s'') None no_blocks"
  have "fst ?x = Returns" by code_simp
  moreover have "fst (snd ?x) = 0" by code_simp
  ultimately have r: "?x = (Returns, 0, fst (snd (snd ?x)), snd (snd (snd ?x)))" by (simp add: prod_eq_iff)
  show ?thesis by (rule getaddrinfo_well_typed [OF r one_host_typed])
qed

end
