(* ===== verification/Unp_Time.thy ===== *)
theory Unp_Time
  imports Unp_Rtt
begin

text \<open>
  Times (\<^verbatim>\<open>lib/tv_sub.c\<close>, with copies in \<^verbatim>\<open>ping\<close> and \<^verbatim>\<open>traceroute\<close>): the structure \<^verbatim>\<open>timeval\<close>, ordered by seconds
  and then microseconds, and the difference of two.
\<close>

datatype timeval = Timeval (tv_sec: int) (tv_usec: int)

instantiation timeval :: linorder
begin

definition less_eq_timeval :: "timeval \<Rightarrow> timeval \<Rightarrow> bool" where
  "less_eq_timeval a b \<longleftrightarrow> tv_sec a < tv_sec b \<or> tv_sec a = tv_sec b \<and> tv_usec a \<le> tv_usec b"

definition less_timeval :: "timeval \<Rightarrow> timeval \<Rightarrow> bool" where
  "less_timeval a b \<longleftrightarrow> tv_sec a < tv_sec b \<or> tv_sec a = tv_sec b \<and> tv_usec a < tv_usec b"

instance
  by standard (auto simp: less_eq_timeval_def less_timeval_def timeval.expand)

end

text \<open>Times as \<^verbatim>\<open>gettimeofday\<close> gives them, and their value in microseconds.\<close>

definition normal :: "timeval \<Rightarrow> bool" where
  "normal t \<longleftrightarrow> 0 \<le> tv_usec t \<and> tv_usec t < 1000000"

definition usecs :: "timeval \<Rightarrow> int" where
  "usecs t = tv_sec t * 1000000 + tv_usec t"

definition tv_sub :: "timeval \<Rightarrow> timeval \<Rightarrow> timeval" where
  "tv_sub t1 t0 =
     (let usec = tv_usec t1 - tv_usec t0;
          t = (if usec < 0 then Timeval (tv_sec t1 - 1) (usec + 1000000) else Timeval (tv_sec t1) usec) in
      Timeval (tv_sec t - tv_sec t0) (tv_usec t))"

lemma tv_sub_usecs: "usecs (tv_sub a b) = usecs a - usecs b"
  by (simp add: tv_sub_def usecs_def Let_def algebra_simps)

lemma tv_sub_normal: "normal a \<Longrightarrow> normal b \<Longrightarrow> normal (tv_sub a b)"
  by (auto simp: tv_sub_def normal_def Let_def)

lemma usecs_mono: "normal a \<Longrightarrow> normal b \<Longrightarrow> a \<le> b \<longleftrightarrow> usecs a \<le> usecs b"
  by (auto simp: normal_def usecs_def less_eq_timeval_def)

lemma usecs_inject: "normal a \<Longrightarrow> normal b \<Longrightarrow> usecs a = usecs b \<longleftrightarrow> a = b"
  using usecs_mono [of a b] usecs_mono [of b a] by auto

text \<open>The difference is not negative when the second time is not later, and it is nothing but for the same time.\<close>

lemma tv_sub_order:
  assumes "normal a" and "normal b"
  shows "Timeval 0 0 \<le> tv_sub a b \<longleftrightarrow> b \<le> a" and "tv_sub a b = Timeval 0 0 \<longleftrightarrow> a = b"
proof -
  have z: "normal (Timeval 0 0)" "usecs (Timeval 0 0) = 0" by (simp_all add: normal_def usecs_def)
  show "Timeval 0 0 \<le> tv_sub a b \<longleftrightarrow> b \<le> a"
    using usecs_mono [OF z(1) tv_sub_normal [OF assms]] usecs_mono [OF assms(2,1)] by (simp add: tv_sub_usecs z)
  show "tv_sub a b = Timeval 0 0 \<longleftrightarrow> a = b"
    using usecs_inject [OF tv_sub_normal [OF assms] z(1)] usecs_inject [OF assms] by (simp add: tv_sub_usecs z)
qed

section \<open>Milliseconds\<close>

text \<open>The time of a round trip as the programs compute it, in milliseconds, and its text with \<^verbatim>\<open>%.3f\<close>.\<close>

definition rtt_ms :: "timeval \<Rightarrow> rat" where
  "rtt_ms t = of_int (tv_sec t) * 1000 + of_int (tv_usec t) / 1000"

lemma rtt_ms_usecs: "rtt_ms t = of_int (usecs t) / 1000"
  by (simp add: rtt_ms_def usecs_def field_simps)

section \<open>A time in memory\<close>

text \<open>\<^verbatim>\<open>struct timeval\<close> has two \<^verbatim>\<open>long\<close> of eight bytes, in the byte order of the machine.\<close>

fun le_bytes :: "nat \<Rightarrow> nat \<Rightarrow> 8 word list" where
  "le_bytes 0 x = []"
| "le_bytes (Suc n) x = of_nat (x mod 256) # le_bytes n (x div 256)"

fun le_value :: "8 word list \<Rightarrow> nat" where
  "le_value [] = 0"
| "le_value (b # bs) = unat b + 256 * le_value bs"

definition long_bytes :: "bool \<Rightarrow> int \<Rightarrow> 8 word list" where
  "long_bytes le x = (let bs = le_bytes 8 (unat (of_int x :: 64 word)) in if le then bs else rev bs)"

definition long_value :: "bool \<Rightarrow> 8 word list \<Rightarrow> int" where
  "long_value le bs = sint (of_nat (le_value (if le then bs else rev bs)) :: 64 word)"

definition tv_bytes :: "bool \<Rightarrow> timeval \<Rightarrow> 8 word list" where
  "tv_bytes le t = long_bytes le (tv_sec t) @ long_bytes le (tv_usec t)"

definition tv_value :: "bool \<Rightarrow> 8 word list \<Rightarrow> timeval" where
  "tv_value le bs = Timeval (long_value le (take 8 bs)) (long_value le (take 8 (drop 8 bs)))"

lemma length_le_bytes [simp]: "length (le_bytes n x) = n"
  by (induction n arbitrary: x) simp_all

lemma length_long_bytes [simp]: "length (long_bytes le x) = 8"
  by (simp add: long_bytes_def Let_def)

lemma length_tv_bytes [simp]: "length (tv_bytes le t) = 16"
  by (simp add: tv_bytes_def)

lemma le_value_bytes: "x < 256 ^ n \<Longrightarrow> le_value (le_bytes n x) = x"
proof (induction n arbitrary: x)
  case (Suc n)
  then have "x div 256 < 256 ^ n" by (simp add: less_mult_imp_div_less mult.commute)
  with Suc.IH have "le_value (le_bytes n (x div 256)) = x div 256" .
  moreover have "unat (of_nat (x mod 256) :: 8 word) = x mod 256"
    by (simp add: unsigned_of_nat take_bit_eq_mod)
  ultimately show ?case by simp
qed simp

definition long_ok :: "int \<Rightarrow> bool" where
  "long_ok x \<longleftrightarrow> - (2 ^ 63) \<le> x \<and> x < 2 ^ 63"

lemma long_value_bytes: "long_ok x \<Longrightarrow> long_value le (long_bytes le x) = x"
proof -
  assume x: "long_ok x"
  have "unat (of_int x :: 64 word) < 2 ^ 64" using unsigned_less [of "of_int x :: 64 word", where ?'a = nat] by simp
  then have "unat (of_int x :: 64 word) < 256 ^ 8" by simp
  note v = le_value_bytes [OF this]
  have "sint (of_int x :: 64 word) = x"
    using x by (simp add: signed_of_int signed_take_bit_int_eq_self long_ok_def)
  with v show ?thesis by (simp add: long_value_def long_bytes_def Let_def del: le_bytes.simps)
qed

lemma tv_value_bytes: "long_ok (tv_sec t) \<Longrightarrow> long_ok (tv_usec t) \<Longrightarrow> tv_value le (tv_bytes le t @ rest) = t"
  by (simp add: tv_value_def tv_bytes_def long_value_bytes)

end
