(* ===== verification/Unp_Ping.thy ===== *)
theory Unp_Ping
  imports Unp_Tcp Unp_Cksum Unp_Time
begin

unbundle bit_operations_syntax

text \<open>
  The program \<^verbatim>\<open>ping\<close> (\<^verbatim>\<open>SampleCode/unpv13e/ping\<close>): it sends an echo request every second, with the time in
  its data, and shows the replies.  Buffers are lists of bytes; \<open>le\<close> tells the byte order of the machine.
\<close>

section \<open>ping.h\<close>

definition BUFSIZE :: nat where "BUFSIZE = 1500"

definition ICMP_ECHOREPLY :: "8 word" where "ICMP_ECHOREPLY = 0"
definition ICMP_ECHO :: "8 word" where "ICMP_ECHO = 8"
definition ICMP6_ECHO_REQUEST :: "8 word" where "ICMP6_ECHO_REQUEST = 128"
definition ICMP6_ECHO_REPLY :: "8 word" where "ICMP6_ECHO_REPLY = 129"
definition IPPROTO_ICMP :: "8 word" where "IPPROTO_ICMP = 1"

lemmas icmp_types = ICMP_ECHOREPLY_def ICMP_ECHO_def ICMP6_ECHO_REQUEST_def ICMP6_ECHO_REPLY_def IPPROTO_ICMP_def

text \<open>
  The globals.  \<open>packets\<close> is what \<^verbatim>\<open>sendto\<close> was given; \<open>sarecv\<close> and \<open>salen\<close> are fields of the structure \<^verbatim>\<open>pr\<close>.
\<close>

record ping = proc +
  sendbuf :: "8 word list"
  datalen :: nat
  nsent :: int
  pid :: int
  verbose :: int
  sarecv :: sockaddr
  salen :: int
  packets :: "8 word list list"

section \<open>Fields of a packet\<close>

definition store16 :: "bool \<Rightarrow> 16 word \<Rightarrow> 8 word list" where
  "store16 le w = (if le then [ucast w, ucast (drop_bit 8 w)] else [ucast (drop_bit 8 w), ucast w])"

definition field16 :: "bool \<Rightarrow> 8 word list \<Rightarrow> nat \<Rightarrow> 16 word" where
  "field16 le b i = load16 le (b ! i) (b ! (i + 1))"

definition put_bytes :: "8 word list \<Rightarrow> nat \<Rightarrow> 8 word list \<Rightarrow> 8 word list" where
  "put_bytes b i xs = take i b @ xs @ drop (i + length xs) b"

text \<open>The length of an IP header, from the low half of its first byte.\<close>

definition ip_hlen :: "8 word \<Rightarrow> nat" where
  "ip_hlen b = 4 * (unat b mod 16)"

section \<open>send_v4.c and send_v6.c\<close>

text \<open>
  The header is type, code, checksum, identifier and sequence number; the last two are in the order of
  the machine.  \<open>now\<close> is the answer of \<^verbatim>\<open>gettimeofday\<close>, whose 16 bytes are written whatever \<^verbatim>\<open>datalen\<close> is.
\<close>

definition fill_request :: "bool \<Rightarrow> 8 word \<Rightarrow> ping \<Rightarrow> 8 word list" where
  "fill_request le type p =
     (let b1 = put_bytes (sendbuf p) 0 [type, 0];
          b2 = put_bytes b1 4 (store16 le (of_int (pid p)));
          b3 = put_bytes b2 6 (store16 le (of_int (nsent p))) in
      put_bytes b3 8 (replicate (datalen p) 0xa5))"

definition send_packet :: "nat \<Rightarrow> errno + nat \<Rightarrow> ping \<Rightarrow> stop \<times> ping" where
  "send_packet len sres p =
     (let pkt = take len (sendbuf p); p1 = p\<lparr>packets := packets p @ [pkt]\<rparr> in
      case Sendto (map (\<lambda>b. char_of (unat b)) pkt) sres p1 of Inl x \<Rightarrow> x | Inr (_, p2) \<Rightarrow> (Returns, p2))"

definition send_v4 :: "bool \<Rightarrow> errno + timeval \<Rightarrow> errno + nat \<Rightarrow> ping \<Rightarrow> stop \<times> ping" where
  "send_v4 le now sres p =
     (if BUFSIZE < 8 + datalen p then (Undef Overrun, p)
      else
        (let b = fill_request le ICMP_ECHO p; p1 = p\<lparr>nsent := nsent p + 1, sendbuf := b\<rparr> in
         case Gettimeofday now p1 of
           Inl x \<Rightarrow> x
         | Inr (tv, p2) \<Rightarrow>
             (let len = 8 + datalen p; b1 = put_bytes (put_bytes b 8 (tv_bytes le tv)) 2 [0, 0] in
              case in_cksum le b1 (int len) of
                Inl f \<Rightarrow> (Undef f, p2)
              | Inr c \<Rightarrow> send_packet len sres (p2\<lparr>sendbuf := put_bytes b1 2 (store16 le c)\<rparr>))))"

text \<open>The kernel fills in the checksum of ICMPv6.\<close>

definition send_v6 :: "bool \<Rightarrow> errno + timeval \<Rightarrow> errno + nat \<Rightarrow> ping \<Rightarrow> stop \<times> ping" where
  "send_v6 le now sres p =
     (if BUFSIZE < 8 + datalen p then (Undef Overrun, p)
      else
        (let b = fill_request le ICMP6_ECHO_REQUEST p; p1 = p\<lparr>nsent := nsent p + 1, sendbuf := b\<rparr> in
         case Gettimeofday now p1 of
           Inl x \<Rightarrow> x
         | Inr (tv, p2) \<Rightarrow> send_packet (8 + datalen p) sres (p2\<lparr>sendbuf := put_bytes b 8 (tv_bytes le tv)\<rparr>)))"

section \<open>proc_v4.c and proc_v6.c\<close>

text \<open>
  \<open>ptr\<close> is the buffer of \<^verbatim>\<open>BUFSIZE\<close> bytes of which the first \<open>len\<close> were received.  No offset exceeds 60 + 8 + 16.
\<close>

definition proc_v4 :: "ntop_fun \<Rightarrow> bool \<Rightarrow> 8 word list \<Rightarrow> int \<Rightarrow> timeval \<Rightarrow> ping \<Rightarrow> stop \<times> ping" where
  "proc_v4 nt le ptr len tvrecv p =
     (let hlen1 = ip_hlen (ptr ! 0); icmp = drop hlen1 ptr; icmplen = len - int hlen1 in
      if ptr ! 9 \<noteq> IPPROTO_ICMP then (Returns, p)
      else if icmplen < 8 then (Returns, p)
      else if icmp ! 0 = ICMP_ECHOREPLY then
        (if uint (field16 le icmp 4) \<noteq> pid p then (Returns, p)
         else if icmplen < 16 then (Returns, p)
         else
           (let rtt = rtt_ms (tv_sub tvrecv (tv_value le (drop 8 icmp))) in
            case Sock_ntop_host nt (sarecv p) (salen p) p of
              Inl x \<Rightarrow> x
            | Inr host \<Rightarrow>
                (Returns, printf (show_int icmplen @ '' bytes from '' @ host @ '': seq='' @ show_int (uint (field16 le icmp 6))
                   @ '', ttl='' @ show_int (uint (ptr ! 8)) @ '', rtt='' @ show_3f rtt @ '' ms'' @ nl) p)))
      else if verbose p \<noteq> 0 then
        (case Sock_ntop_host nt (sarecv p) (salen p) p of
           Inl x \<Rightarrow> x
         | Inr host \<Rightarrow>
             (Returns, printf (''  '' @ show_int icmplen @ '' bytes from '' @ host @ '': type = '' @ show_int (uint (icmp ! 0))
                @ '', code = '' @ show_int (uint (icmp ! 1)) @ nl) p))
      else (Returns, p))"

text \<open>The ancillary data: level, type and the first four bytes of each item.\<close>

definition IPPROTO_IPV6_level :: int where "IPPROTO_IPV6_level = 41"
definition IPV6_HOPLIMIT :: int where "IPV6_HOPLIMIT = 52"

fun hop_limit :: "(int \<times> int \<times> 32 word) list \<Rightarrow> int" where
  "hop_limit [] = - 1"
| "hop_limit ((level, type, data) # cmsgs) =
     (if level = IPPROTO_IPV6_level \<and> type = IPV6_HOPLIMIT then sint data else hop_limit cmsgs)"

definition proc_v6 ::
    "ntop_fun \<Rightarrow> bool \<Rightarrow> 8 word list \<Rightarrow> int \<Rightarrow> (int \<times> int \<times> 32 word) list \<Rightarrow> timeval \<Rightarrow> ping \<Rightarrow> stop \<times> ping" where
  "proc_v6 nt le ptr len cmsgs tvrecv p =
     (if len < 8 then (Returns, p)
      else if ptr ! 0 = ICMP6_ECHO_REPLY then
        (if uint (field16 le ptr 4) \<noteq> pid p then (Returns, p)
         else if len < 16 then (Returns, p)
         else
           (let rtt = rtt_ms (tv_sub tvrecv (tv_value le (drop 8 ptr))); hlim = hop_limit cmsgs in
            case Sock_ntop_host nt (sarecv p) (salen p) p of
              Inl x \<Rightarrow> x
            | Inr host \<Rightarrow>
                (Returns, printf (show_int len @ '' bytes from '' @ host @ '': seq='' @ show_int (uint (field16 le ptr 6)) @ '', hlim=''
                   @ (if hlim = - 1 then ''???'' else show_int hlim) @ '', rtt='' @ show_3f rtt @ '' ms'' @ nl) p)))
      else if verbose p \<noteq> 0 then
        (case Sock_ntop_host nt (sarecv p) (salen p) p of
           Inl x \<Rightarrow> x
         | Inr host \<Rightarrow>
             (Returns, printf (''  '' @ show_int len @ '' bytes from '' @ host @ '': type = '' @ show_int (uint (ptr ! 0))
                @ '', code = '' @ show_int (uint (ptr ! 1)) @ nl) p))
      else (Returns, p))"

section \<open>readloop.c, sig_alrm.c and main.c\<close>

text \<open>
  What \<^verbatim>\<open>recvmsg\<close> meets: a packet of a sender, with its ancillary data and the time that \<^verbatim>\<open>gettimeofday\<close> gives
  then; an error; or the alarm, whose handler sends and is given its own answers.  The buffer keeps what
  was in it behind a packet.
\<close>

datatype ping_event =
    Packet "8 word list" sockaddr "(int \<times> int \<times> 32 word) list" "errno + timeval"
  | Recv_error errno
  | Alarm "errno + timeval" "errno + nat"

definition sig_alrm :: "bool \<Rightarrow> bool \<Rightarrow> errno + timeval \<Rightarrow> errno + nat \<Rightarrow> ping \<Rightarrow> stop \<times> ping" where
  "sig_alrm v6 le now sres p = (if v6 then send_v6 le now sres p else send_v4 le now sres p)"

definition ping_turn :: "bool \<Rightarrow> ntop_fun \<Rightarrow> bool \<Rightarrow> ping_event \<Rightarrow> 8 word list \<Rightarrow> ping \<Rightarrow> stop \<times> 8 word list \<times> ping" where
  "ping_turn v6 nt le e buf p =
     (case e of
        Packet bytes src cmsgs now \<Rightarrow>
          (let data = take BUFSIZE bytes; buf1 = put_bytes buf 0 data; p1 = p\<lparr>sarecv := src\<rparr> in
           case Gettimeofday now p1 of
             Inl (s, p2) \<Rightarrow> (s, buf1, p2)
           | Inr (tv, p2) \<Rightarrow>
               (case (if v6 then proc_v6 nt le buf1 (int (length data)) cmsgs tv p2 else proc_v4 nt le buf1 (int (length data)) tv p2) of
                  (s, p3) \<Rightarrow> (s, buf1, p3)))
      | Recv_error e \<Rightarrow>
          if e = EINTR then (Returns, buf, p\<lparr>errnum := e\<rparr>)
          else (case err_sys ''recvmsg error'' (p\<lparr>errnum := e\<rparr>) of (s, p1) \<Rightarrow> (s, buf, p1))
      | Alarm now sres \<Rightarrow> (case sig_alrm v6 le now sres p of (s, p1) \<Rightarrow> (s, buf, p1)))"

fun ping_loop :: "bool \<Rightarrow> ntop_fun \<Rightarrow> bool \<Rightarrow> ping_event list \<Rightarrow> 8 word list \<Rightarrow> ping \<Rightarrow> stop \<times> ping" where
  "ping_loop v6 nt le [] buf p = (Blocks, p)"
| "ping_loop v6 nt le (e # es) buf p =
     (case ping_turn v6 nt le e buf p of
        (Returns, buf1, p1) \<Rightarrow> ping_loop v6 nt le es buf1 p1
      | (s, _, p1) \<Rightarrow> (s, p1))"

definition readloop ::
    "bool \<Rightarrow> ntop_fun \<Rightarrow> bool \<Rightarrow> errno + unit \<Rightarrow> errno + timeval \<Rightarrow> errno + nat \<Rightarrow> ping_event list \<Rightarrow> 8 word list \<Rightarrow> ping \<Rightarrow> stop \<times> ping" where
  "readloop v6 nt le sock now sres es buf p =
     (case or_die ''socket error'' sock p of
        Inl x \<Rightarrow> x
      | Inr (_, p1) \<Rightarrow>
          (case sig_alrm v6 le now sres p1 of
             (Returns, p2) \<Rightarrow> ping_loop v6 nt le es buf p2
           | (s, p2) \<Rightarrow> (s, p2)))"

text \<open>
  \<open>opts\<close>: what \<^verbatim>\<open>getopt\<close> gives one after the other; \<open>args\<close>: the arguments behind the options.  The address to send
  to is that of the first element; the structure \<^verbatim>\<open>proto\<close> is chosen by its family.
\<close>

definition copy_proc :: "'a proc_scheme \<Rightarrow> 'b proc_scheme \<Rightarrow> 'b proc_scheme" where
  "copy_proc g p = p\<lparr>inp := inp g, out := out g, err := err g, daemon_proc := daemon_proc g, slog := slog g, errnum := errnum g\<rparr>"

definition sa_known :: "sa option \<Rightarrow> sockaddr" where
  "sa_known a = (case a of Some x \<Rightarrow> Known x | None \<Rightarrow> Other 0)"

text \<open>\<^verbatim>\<open>IN6_IS_ADDR_V4MAPPED\<close>: ten bytes 0 and two bytes 255.\<close>

definition v4_mapped :: "sa option \<Rightarrow> bool" where
  "v4_mapped a = (case a of Some (Sin6 b _) \<Rightarrow> take 12 b = replicate 10 0 @ [255, 255] | _ \<Rightarrow> False)"

definition canon_or :: "addrinfo \<Rightarrow> string \<Rightarrow> string" where
  "canon_or ai h = (case ai_canonname ai of Some c \<Rightarrow> c | None \<Rightarrow> h)"

text \<open>The first element for the host and the text of its address, which both programs print.\<close>

definition first_address :: "resolver \<Rightarrow> ntop_fun \<Rightarrow> string \<Rightarrow> gai \<Rightarrow> (stop \<times> gai) + addrinfo \<times> string \<times> gai" where
  "first_address r nt host g =
     (case Host_serv r (Some host) None 0 0 g of
        Inl x \<Rightarrow> Inl x
      | Inr (ais, g1) \<Rightarrow>
          (case Sock_ntop_host nt (sa_known (ai_addr (hd ais))) (int (ai_addrlen (hd ais))) g1 of
             Inl x \<Rightarrow> Inl x
           | Inr h \<Rightarrow> Inr (hd ais, h, g1)))"

text \<open>Whether the protocol is IPv6; \<open>verb\<close> is in the message for mapped addresses.\<close>

definition choose_proto :: "string \<Rightarrow> addrinfo \<Rightarrow> gai \<Rightarrow> (stop \<times> gai) + bool" where
  "choose_proto verb ai g =
     (if ai_family ai = AF_INET then Inr False
      else if ai_family ai = AF_INET6 then
        (if v4_mapped (ai_addr ai) then Inl (err_quit (''cannot '' @ verb @ '' IPv4-mapped IPv6 address'') g) else Inr True)
      else Inl (err_quit (''unknown address family '' @ show_int (ai_family ai)) g))"

definition calloc_block :: "gai \<Rightarrow> (stop \<times> gai) + gai" where
  "calloc_block g = (case alloc g of (ok, g1) \<Rightarrow>
     (case Calloc (if ok then Inr () else Inl ENOMEM) g1 of Inl x \<Rightarrow> Inl x | Inr (_, g2) \<Rightarrow> Inr g2))"

definition main_ping ::
    "resolver \<Rightarrow> ntop_fun \<Rightarrow> bool \<Rightarrow> string \<Rightarrow> string list \<Rightarrow> int \<Rightarrow> errno + unit \<Rightarrow> errno + timeval \<Rightarrow> errno + nat \<Rightarrow> ping_event list
     \<Rightarrow> 8 word list \<Rightarrow> gai \<Rightarrow> stop \<times> ping" where
  "main_ping r nt le opts args mypid sock now sres es buf g =
     (let p0 = \<lparr>inp = [], out = [], err = [], daemon_proc = False, slog = [], errnum = errnum g, sendbuf = replicate BUFSIZE 0, datalen = 56,
            nsent = 0, pid = mypid mod 65536, verbose = int (length (filter (\<lambda>c. c = CHR ''v'') opts)), sarecv = Other 0, salen = 0, packets = []\<rparr>;
          leave = (\<lambda>x. (fst x, copy_proc (snd x) p0)) in
      if CHR ''?'' \<in> set opts then leave (err_quit ''unrecognized option: ?'' g)
      else if length args \<noteq> 1 then leave (err_quit ''usage: ping [ -v ] <hostname>'' g)
      else
        (case first_address r nt (hd args) g of
           Inl x \<Rightarrow> leave x
         | Inr (ai, h, g1) \<Rightarrow>
             (let g2 = printf (''PING '' @ canon_or ai h @ '' ('' @ h @ ''): 56 data bytes'' @ nl) g1 in
              case choose_proto ''ping'' ai g2 of
                Inl x \<Rightarrow> leave x
              | Inr v6 \<Rightarrow>
                  (case calloc_block g2 of
                     Inl x \<Rightarrow> leave x
                   | Inr g3 \<Rightarrow> readloop v6 nt le sock now sres es buf (copy_proc g3 (p0\<lparr>salen := int (ai_addrlen ai)\<rparr>))))))"

section \<open>The packet that is sent\<close>

lemma load16_store16: "load16 le (store16 le w ! 0) (store16 le w ! 1) = w"
  by (auto simp: load16_def store16_def bit_simps intro!: bit_word_eqI)

lemma length_store16 [simp]: "length (store16 le w) = 2"
  by (simp add: store16_def)

lemma field16_store16:
  "n = length pre \<Longrightarrow> field16 le (pre @ store16 le w @ post) n = w"
  using load16_store16 [of le w] by (simp add: field16_def nth_append)

lemma put_mid: "length new = length old \<Longrightarrow> n = length pre \<Longrightarrow> put_bytes (pre @ old @ post) n new = pre @ new @ post"
  by (simp add: put_bytes_def)

lemma split_len:
  assumes "n \<le> length xs"
  obtains a b where "xs = a @ b" "length a = n"
  using assms that [of "take n xs" "drop n xs"] by simp

text \<open>The header and the data of the request, with the value of the checksum field.\<close>

definition request :: "bool \<Rightarrow> 8 word \<Rightarrow> 16 word \<Rightarrow> 16 word \<Rightarrow> 16 word \<Rightarrow> 8 word list \<Rightarrow> 8 word list" where
  "request le type c ident seq data = [type, 0] @ store16 le c @ store16 le ident @ store16 le seq @ data"

lemma length_request [simp]: "length (request le type c ident seq data) = 8 + length data"
  by (simp add: request_def)

lemma store16_0: "store16 le 0 = [0, 0]"
  by (simp add: store16_def)

lemma request_built:
  assumes "length buf = BUFSIZE" and "16 \<le> n" and "8 + n \<le> BUFSIZE"
  obtains rest where
    "put_bytes (put_bytes (put_bytes (put_bytes (put_bytes (put_bytes buf 0 [type, 0]) 4 (store16 le ident)) 6 (store16 le seq)) 8 (replicate n 0xa5))
       8 (tv_bytes le tv)) 2 [0, 0]
     = request le type 0 ident seq (tv_bytes le tv @ replicate (n - 16) 0xa5) @ rest"
proof -
  obtain h0 r0 where 0: "buf = h0 @ r0" "length h0 = 2" using assms by (rule_tac split_len [of 2 buf]) (auto simp: BUFSIZE_def)
  then obtain h1 r1 where 1: "r0 = h1 @ r1" "length h1 = 2" using assms by (rule_tac split_len [of 2 r0]) (auto simp: BUFSIZE_def)
  with 0 obtain h2 r2 where 2: "r1 = h2 @ r2" "length h2 = 2" using assms by (rule_tac split_len [of 2 r1]) (auto simp: BUFSIZE_def)
  with 0 1 obtain h3 r3 where 3: "r2 = h3 @ r3" "length h3 = 2" using assms by (rule_tac split_len [of 2 r2]) (auto simp: BUFSIZE_def)
  with 0 1 2 obtain d rest where 4: "r3 = d @ rest" "length d = n" using assms by (rule_tac split_len [of n r3]) auto
  let ?i = "store16 le ident" and ?q = "store16 le seq" and ?t = "tv_bytes le tv" and ?z = "replicate n (0xa5 :: 8 word)"
  have z: "?z = replicate 16 0xa5 @ replicate (n - 16) 0xa5" using assms(2) by (simp flip: replicate_add)
  have "put_bytes buf 0 [type, 0] = [type, 0] @ h1 @ h2 @ h3 @ d @ rest"
    using 0 1 2 3 4 put_mid [of "[type, 0]" h0 0 "[]" r0] by simp
  also have "put_bytes \<dots> 4 ?i = [type, 0] @ h1 @ ?i @ h3 @ d @ rest"
    using put_mid [of ?i h2 4 "[type, 0] @ h1" "h3 @ d @ rest"] 1 2 by simp
  also have "put_bytes \<dots> 6 ?q = [type, 0] @ h1 @ ?i @ ?q @ d @ rest"
    using put_mid [of ?q h3 6 "[type, 0] @ h1 @ ?i" "d @ rest"] 1 3 by simp
  also have "put_bytes \<dots> 8 ?z = [type, 0] @ h1 @ ?i @ ?q @ ?z @ rest"
    using put_mid [of ?z d 8 "[type, 0] @ h1 @ ?i @ ?q" rest] 1 4 by simp
  also have "put_bytes \<dots> 8 ?t = [type, 0] @ h1 @ ?i @ ?q @ ?t @ replicate (n - 16) 0xa5 @ rest"
    using put_mid [of ?t "replicate 16 0xa5" 8 "[type, 0] @ h1 @ ?i @ ?q" "replicate (n - 16) 0xa5 @ rest"] 1 z by simp
  also have "put_bytes \<dots> 2 [0, 0] = [type, 0] @ [0, 0] @ ?i @ ?q @ ?t @ replicate (n - 16) 0xa5 @ rest"
    using put_mid [of "[0, 0]" h1 2 "[type, 0]" "?i @ ?q @ ?t @ replicate (n - 16) 0xa5 @ rest"] 1 by simp
  finally show thesis using that [of rest] by (simp add: request_def store16_0)
qed

lemma in_cksum_take: "length xs = n \<Longrightarrow> in_cksum le (xs @ rest) (int n) = in_cksum le xs (int n)"
  by (simp add: in_cksum_def)

lemma request_checksum:
  assumes "length data < 100000"
  shows "\<exists>c. in_cksum le (request le type 0 ident seq data) (int (8 + length data)) = Inr c
    \<and> in_cksum le (request le type c ident seq data) (int (8 + length data)) = Inr 0"
proof -
  let ?post = "store16 le ident @ store16 le seq @ data"
  have l: "length ([type, 0] @ [0, 0] @ ?post) < 2 ^ 17" using assms by simp
  obtain c where c: "in_cksum le ([type, 0] @ [0, 0] @ ?post) (int (8 + length data)) = Inr c"
    "\<forall>a b. c = load16 le a b \<longrightarrow> in_cksum le ([type, 0] @ [a, b] @ ?post) (int (8 + length data)) = Inr 0"
    using in_cksum_receiver [OF l, of "int (8 + length data)" le] by auto
  obtain a b where ab: "store16 le c = [a, b]" by (cases le) (auto simp: store16_def)
  then have "c = load16 le a b" using load16_store16 [of le c] by simp
  with c ab show ?thesis by (auto simp: request_def store16_0)
qed

lemma send_v4_sends:
  assumes "length (sendbuf p) = BUFSIZE" and "16 \<le> datalen p" and fit: "8 + datalen p \<le> BUFSIZE"
  defines "req \<equiv> \<lambda>le c t. request le ICMP_ECHO c (of_int (pid p)) (of_int (nsent p)) (tv_bytes le t @ replicate (datalen p - 16) 0xa5)"
  shows "\<exists>c rest. send_v4 le (Inr t) sres p = send_packet (8 + datalen p) sres (p\<lparr>nsent := nsent p + 1, sendbuf := req le c t @ rest\<rparr>)
    \<and> take (8 + datalen p) (req le c t @ rest) = req le c t \<and> in_cksum le (req le c t) (int (8 + datalen p)) = Inr 0"
proof -
  have d: "datalen p < 100000" using fit by (simp add: BUFSIZE_def)
  let ?data = "tv_bytes le t @ replicate (datalen p - 16) (0xa5 :: 8 word)"
  let ?req = "\<lambda>c. request le ICMP_ECHO c (of_int (pid p)) (of_int (nsent p)) ?data"
  have l: "length ?data = datalen p" using assms(2) by simp
  obtain rest where b: "put_bytes (put_bytes (fill_request le ICMP_ECHO p) 8 (tv_bytes le t)) 2 [0, 0] = ?req 0 @ rest"
    using request_built [OF assms(1,2) fit, of ICMP_ECHO le "of_int (pid p)" "of_int (nsent p)" t]
    by (auto simp: fill_request_def Let_def)
  obtain c where c: "in_cksum le (?req 0) (int (8 + datalen p)) = Inr c" "in_cksum le (?req c) (int (8 + datalen p)) = Inr 0"
    using request_checksum [of ?data le ICMP_ECHO "of_int (pid p)" "of_int (nsent p)"] d l by auto
  have c0: "in_cksum le (?req 0 @ rest) (int (8 + datalen p)) = Inr c"
    using c(1) in_cksum_take [of "?req 0" "8 + datalen p" le rest] l by simp
  have r: "put_bytes (?req 0 @ rest) 2 (store16 le c) = ?req c @ rest"
    using put_mid [of "store16 le c" "store16 le 0" 2 "[ICMP_ECHO, 0]"] by (simp add: request_def)
  have "send_v4 le (Inr t) sres p = send_packet (8 + datalen p) sres (p\<lparr>nsent := nsent p + 1, sendbuf := ?req c @ rest\<rparr>)"
    using fit by (simp add: send_v4_def Let_def Gettimeofday_def or_die_def b c0 [simplified] r [simplified])
  moreover have "take (8 + datalen p) (?req c @ rest) = ?req c" using l by simp
  ultimately show ?thesis using c(2) unfolding req_def by blast
qed

lemma send_v4_request:
  assumes "send_v4 le (Inr t) sres p = (Returns, p1)" and "length (sendbuf p) = BUFSIZE" and "16 \<le> datalen p"
  shows "\<exists>c. packets p1 = packets p @ [request le ICMP_ECHO c (of_int (pid p)) (of_int (nsent p)) (tv_bytes le t @ replicate (datalen p - 16) 0xa5)]
    \<and> in_cksum le (last (packets p1)) (int (8 + datalen p)) = Inr 0 \<and> pid p1 = pid p"
proof -
  have "8 + datalen p \<le> BUFSIZE" using assms(1) by (auto simp: send_v4_def split: if_splits)
  from send_v4_sends [OF assms(2,3) this, of le t sres] assms(1) show ?thesis
    by (fastforce simp: send_packet_def Let_def Sendto_def err_sys_def split: sum.splits if_splits)
qed

text \<open>A request goes out when the clock works and the kernel takes all of it.\<close>

lemma send_v4_returns:
  assumes "length (sendbuf p) = BUFSIZE" and "16 \<le> datalen p" and "8 + datalen p \<le> BUFSIZE"
  obtains p1 where "send_v4 le (Inr t) (Inr (8 + datalen p)) p = (Returns, p1)" "sarecv p1 = sarecv p" "salen p1 = salen p"
    "length (last (packets p1)) = 8 + datalen p"
proof -
  from send_v4_sends [OF assms, of le t "Inr (8 + datalen p)"] obtain c rest where
    r: "send_v4 le (Inr t) (Inr (8 + datalen p)) p = send_packet (8 + datalen p) (Inr (8 + datalen p)) (p\<lparr>nsent := nsent p + 1,
      sendbuf := request le ICMP_ECHO c (of_int (pid p)) (of_int (nsent p)) (tv_bytes le t @ replicate (datalen p - 16) 0xa5) @ rest\<rparr>)"
    by blast
  show thesis
    by (rule that [of "snd (send_v4 le (Inr t) (Inr (8 + datalen p)) p)"])
      (use assms(2) in \<open>simp_all add: r send_packet_def Let_def Sendto_def\<close>)
qed

section \<open>Properties\<close>

text \<open>C16: The request that \<^verbatim>\<open>ping\<close> sends has a valid checksum, and when its reply comes back, behind an IP header of
  any length, with any checksum and whatever lies behind it in the buffer, \<^verbatim>\<open>ping\<close> prints the number of bytes,
  the host, the sequence number (modulo 65536) and the time between sending and receiving.\<close>

theorem ping_round_trip:
  assumes "send_v4 le (Inr t0) sres p = (Returns, p1)" and "length (sendbuf p) = BUFSIZE" and "16 \<le> datalen p"
    and "0 \<le> pid p" and "pid p < 65536" and "long_ok (tv_sec t0)" and "long_ok (tv_usec t0)"
    and "10 \<le> length hdr" and "ip_hlen (hdr ! 0) = length hdr" and "hdr ! 9 = IPPROTO_ICMP"
    and "reply = hdr @ [ICMP_ECHOREPLY, 0, c1, c2] @ drop 4 (last (packets p1))"
    and "Sock_ntop_host nt (sarecv p1) (salen p1) p1 = Inr host"
  shows "in_cksum le (last (packets p1)) (int (8 + datalen p)) = Inr 0
    \<and> proc_v4 nt le (reply @ stale) (int (length reply)) t1 p1
      = (Returns, printf (show_int (int (8 + datalen p)) @ '' bytes from '' @ host @ '': seq='' @ show_int (nsent p mod 65536)
          @ '', ttl='' @ show_int (uint (hdr ! 8)) @ '', rtt='' @ show_3f (of_int (usecs t1 - usecs t0) / 1000) @ '' ms'' @ nl) p1)"
proof -
  let ?data = "tv_bytes le t0 @ replicate (datalen p - 16) (0xa5 :: 8 word)"
  let ?i = "store16 le (of_int (pid p))" and ?q = "store16 le (of_int (nsent p))"
  from send_v4_request [OF assms(1-3)] obtain c where
    c: "packets p1 = packets p @ [request le ICMP_ECHO c (of_int (pid p)) (of_int (nsent p)) ?data]"
      "in_cksum le (last (packets p1)) (int (8 + datalen p)) = Inr 0" "pid p1 = pid p" by auto
  have d4: "drop 4 (last (packets p1)) = ?i @ ?q @ ?data"
    using c(1) by (simp add: request_def)
  let ?icmp = "[ICMP_ECHOREPLY, 0, c1, c2] @ ?i @ ?q @ ?data @ stale"
  have reply: "reply @ stale = hdr @ ?icmp" "length reply = length hdr + (8 + datalen p)"
    using assms(3,11) d4 by simp_all
  have h: "(hdr @ xs) ! 0 = hdr ! 0" "(hdr @ xs) ! 8 = hdr ! 8" "(hdr @ xs) ! 9 = hdr ! 9" for xs
    using assms(8) by (auto simp: nth_append)
  have f: "field16 le ?icmp 4 = of_int (pid p)" "field16 le ?icmp 6 = of_int (nsent p)"
    using field16_store16 [of 4 "[ICMP_ECHOREPLY, 0, c1, c2]" le "of_int (pid p)" "?q @ ?data @ stale"]
      field16_store16 [of 6 "[ICMP_ECHOREPLY, 0, c1, c2] @ ?i" le "of_int (nsent p)" "?data @ stale"] by simp_all
  have t: "tv_value le (drop 8 ?icmp) = t0"
    using tv_value_bytes [OF assms(6,7), of le "replicate (datalen p - 16) 0xa5 @ stale"] by simp
  have u: "uint (of_int (pid p) :: 16 word) = pid p" "uint (of_int (nsent p) :: 16 word) = nsent p mod 65536"
    using assms(4,5) by (simp_all add: uint_word_of_int)
  have "proc_v4 nt le (hdr @ ?icmp) (int (length reply)) t1 p1
      = (Returns, printf (show_int (int (8 + datalen p)) @ '' bytes from '' @ host @ '': seq='' @ show_int (nsent p mod 65536)
          @ '', ttl='' @ show_int (uint (hdr ! 8)) @ '', rtt='' @ show_3f (rtt_ms (tv_sub t1 t0)) @ '' ms'' @ nl) p1)"
    unfolding proc_v4_def h assms(9) append_eq_conv_conj [THEN iffD1, OF refl, THEN conjunct2] Let_def
    using assms(3,10,12) reply(2) f t u c(3) by simp
  with c(2) reply(1) show ?thesis by (simp add: rtt_ms_usecs tv_sub_usecs)
qed

definition ping_start :: ping where
  "ping_start = \<lparr>inp = [], out = [], err = [], daemon_proc = False, slog = [], errnum = EIO,
     sendbuf = replicate 1500 0, datalen = 56, nsent = 65539, pid = 4711, verbose = 0, sarecv = Known (Sin [10, 0, 0, 1] 0), salen = 16, packets = []\<rparr>"

theorem ping_round_trip_witness:
  "\<exists>p1. send_v4 True (Inr (Timeval 10 999500)) (Inr 64) ping_start = (Returns, p1)
   \<and> proc_v4 (\<lambda>_ _ _. Some ''gw'') True
     (([0x45, 0, 0, 84, 0, 0, 0, 0, 61, 1, 0, 0, 10, 0, 0, 1, 10, 0, 0, 2] @ [0, 0, 7, 7] @ drop 4 (last (packets p1))) @ [1, 2, 3])
     84 (Timeval 11 1000) p1
   = (Returns, printf (''64 bytes from gw: seq=3, ttl=61, rtt='' @ show_3f (3 / 2) @ '' ms'' @ nl) p1)"
proof -
  let ?hdr = "[0x45, 0, 0, 84, 0, 0, 0, 0, 61, 1, 0, 0, 10, 0, 0, 1, 10, 0, 0, 2] :: 8 word list"
  have "length (sendbuf ping_start) = BUFSIZE" "16 \<le> datalen ping_start" "8 + datalen ping_start \<le> BUFSIZE"
    by (simp_all add: ping_start_def BUFSIZE_def)
  from send_v4_returns [OF this, of True "Timeval 10 999500"] obtain p1 where
    x: "send_v4 True (Inr (Timeval 10 999500)) (Inr 64) ping_start = (Returns, p1)" and s: "sarecv p1 = Known (Sin [10, 0, 0, 1] 0)"
    and l: "length (last (packets p1)) = 64"
    by (auto simp: ping_start_def)
  have h: "Sock_ntop_host (\<lambda>_ _ _. Some ''gw'') (sarecv p1) (salen p1) p1 = Inr ''gw''"
    by (simp add: s Sock_ntop_host_def sock_ntop_host_def)
  have d: "show_int 64 = ''64''" "show_int 3 = ''3''" "show_int 61 = ''61''" by code_simp+
  have "proc_v4 (\<lambda>_ _ _. Some ''gw'') True ((?hdr @ [ICMP_ECHOREPLY, 0, 7, 7] @ drop 4 (last (packets p1))) @ [1, 2, 3])
      (int (length (?hdr @ [ICMP_ECHOREPLY, 0, 7, 7] @ drop 4 (last (packets p1))))) (Timeval 11 1000) p1
    = (Returns, printf (show_int (int (8 + datalen ping_start)) @ '' bytes from '' @ ''gw'' @ '': seq='' @ show_int (nsent ping_start mod 65536)
          @ '', ttl='' @ show_int (uint (?hdr ! 8)) @ '', rtt='' @ show_3f (of_int (usecs (Timeval 11 1000) - usecs (Timeval 10 999500)) / 1000) @ '' ms'' @ nl) p1)"
    by (rule ping_round_trip [THEN conjunct2, OF x _ _ _ _ _ _ _ _ _ refl h])
      (simp_all add: ping_start_def BUFSIZE_def long_ok_def ip_hlen_def IPPROTO_ICMP_def)
  with x l show ?thesis by (simp add: ICMP_ECHOREPLY_def ping_start_def usecs_def d)
qed

end
