(* ===== verification/Unp_Trace.thy ===== *)
theory Unp_Trace
  imports Unp_Ping
begin

unbundle bit_operations_syntax

text \<open>
  The program \<^verbatim>\<open>traceroute\<close> (\<^verbatim>\<open>SampleCode/unpv13e/traceroute\<close>): probes over UDP with a growing time to live,
  and the examination of the ICMP errors that come back.
\<close>

section \<open>trace.h\<close>

definition ICMP_TIMXCEED :: "8 word" where "ICMP_TIMXCEED = 11"
definition ICMP_TIMXCEED_INTRANS :: "8 word" where "ICMP_TIMXCEED_INTRANS = 0"
definition ICMP_UNREACH :: "8 word" where "ICMP_UNREACH = 3"
definition ICMP_UNREACH_PORT :: "8 word" where "ICMP_UNREACH_PORT = 3"
definition ICMP6_TIME_EXCEEDED :: "8 word" where "ICMP6_TIME_EXCEEDED = 3"
definition ICMP6_TIME_EXCEED_TRANSIT :: "8 word" where "ICMP6_TIME_EXCEED_TRANSIT = 0"
definition ICMP6_DST_UNREACH :: "8 word" where "ICMP6_DST_UNREACH = 1"
definition ICMP6_DST_UNREACH_NOPORT :: "8 word" where "ICMP6_DST_UNREACH_NOPORT = 4"
definition IPPROTO_UDP :: "8 word" where "IPPROTO_UDP = 17"

lemmas trace_types = ICMP_TIMXCEED_def ICMP_TIMXCEED_INTRANS_def ICMP_UNREACH_def ICMP_UNREACH_PORT_def
  ICMP6_TIME_EXCEEDED_def ICMP6_TIME_EXCEED_TRANSIT_def ICMP6_DST_UNREACH_def ICMP6_DST_UNREACH_NOPORT_def IPPROTO_UDP_def

definition IP_SIZE :: int where "IP_SIZE = 20"
definition IP6_SIZE :: nat where "IP6_SIZE = 40"

record trace = proc +
  gotalarm :: bool
  recvbuf :: "8 word list"
  from_addr :: sockaddr
  last_addr :: sockaddr
  addr_len :: int
  sport :: "16 word"
  dport :: "16 word"
  trace_verbose :: int
  probes_sent :: "(nat \<times> nat \<times> 16 word) list"

section \<open>The examination of a packet\<close>

text \<open>A \<^verbatim>\<open>continue\<close>, the value of \<^verbatim>\<open>ret\<close> at a \<^verbatim>\<open>break\<close>, a \<^verbatim>\<open>break\<close> without one, or the end of the loop's body with the
  type and the code for the verbose line.\<close>

datatype judged = Skip | Answer int | Unset | Show "8 word" "8 word"

text \<open>\<^verbatim>\<open>htons(dport + seq)\<close> keeps 16 bits of the sum.\<close>

definition our_ports :: "16 word \<Rightarrow> 16 word \<Rightarrow> nat \<Rightarrow> 8 word list \<Rightarrow> bool" where
  "our_ports sp dp seq udp \<longleftrightarrow> field16 False udp 0 = sp \<and> field16 False udp 2 = dp + of_nat seq"

definition quoted_v4 :: "16 word \<Rightarrow> 16 word \<Rightarrow> nat \<Rightarrow> 8 word list \<Rightarrow> int \<Rightarrow> judged \<Rightarrow> judged" where
  "quoted_v4 sp dp seq icmp icmplen hit =
     (if icmplen < 8 + IP_SIZE then Skip
      else
        (let hip = drop 8 icmp; hlen2 = ip_hlen (hip ! 0) in
         if icmplen < 8 + int hlen2 + 4 then Skip
         else if hip ! 9 = IPPROTO_UDP \<and> our_ports sp dp seq (drop hlen2 hip) then hit
         else Show (icmp ! 0) (icmp ! 1)))"

definition examine_v4 :: "16 word \<Rightarrow> 16 word \<Rightarrow> nat \<Rightarrow> 8 word list \<Rightarrow> int \<Rightarrow> judged" where
  "examine_v4 sp dp seq buf n =
     (let hlen1 = ip_hlen (buf ! 0); icmp = drop hlen1 buf; icmplen = n - int hlen1 in
      if icmplen < 8 then Skip
      else if icmp ! 0 = ICMP_TIMXCEED \<and> icmp ! 1 = ICMP_TIMXCEED_INTRANS then quoted_v4 sp dp seq icmp icmplen (Answer (- 2))
      else if icmp ! 0 = ICMP_UNREACH then
        quoted_v4 sp dp seq icmp icmplen (Answer (if icmp ! 1 = ICMP_UNREACH_PORT then - 1 else uint (icmp ! 1)))
      else Show (icmp ! 0) (icmp ! 1))"

text \<open>
  In \<^verbatim>\<open>recv_v6\<close> the \<^verbatim>\<open>break\<close> behind the first test is not part of it, and the line for other packets is not
  printed for an unreachable of another process.
\<close>

definition examine_v6 :: "16 word \<Rightarrow> 16 word \<Rightarrow> nat \<Rightarrow> 8 word list \<Rightarrow> int \<Rightarrow> judged" where
  "examine_v6 sp dp seq icmp n =
     (let hip = drop 8 icmp; ours = (hip ! 6 = IPPROTO_UDP \<and> our_ports sp dp seq (drop IP6_SIZE hip)) in
      if n < 8 then Skip
      else if icmp ! 0 = ICMP6_TIME_EXCEEDED \<and> icmp ! 1 = ICMP6_TIME_EXCEED_TRANSIT then
        (if n < 8 + int IP6_SIZE + 4 then Skip else if ours then Answer (- 2) else Unset)
      else if icmp ! 0 = ICMP6_DST_UNREACH then
        (if n < 8 + int IP6_SIZE + 4 then Skip
         else if ours then Answer (if icmp ! 1 = ICMP6_DST_UNREACH_NOPORT then - 1 else uint (icmp ! 1))
         else Skip)
      else Show (icmp ! 0) (icmp ! 1))"

section \<open>recv_v4.c and recv_v6.c\<close>

text \<open>
  One call of \<^verbatim>\<open>recvfrom\<close>: whether the alarm went off between the test of \<^verbatim>\<open>gotalarm\<close> and the call, and
  what the call meets: a packet, a signal (\<^verbatim>\<open>SIGALRM\<close> or another), or an error.  When no call is left, it
  waits for ever.
\<close>

datatype recv_outcome = Datagram "8 word list" sockaddr | Signalled bool | Recv_fails errno

type_synonym recv_call = "bool \<times> recv_outcome"

definition received :: "8 word list \<Rightarrow> sockaddr \<Rightarrow> trace \<Rightarrow> trace" where
  "received bytes src s = s\<lparr>recvbuf := put_bytes (recvbuf s) 0 (take BUFSIZE bytes), from_addr := src\<rparr>"

fun recv_packets ::
    "(8 word list \<Rightarrow> int \<Rightarrow> judged) \<Rightarrow> ntop_fun \<Rightarrow> recv_call list \<Rightarrow> trace \<Rightarrow> stop \<times> int \<times> trace" where
  "recv_packets examine nt [] s = (if gotalarm s then (Returns, - 3, s) else (Blocks, 0, s))"
| "recv_packets examine nt ((early, call) # cs) s =
     (if gotalarm s then (Returns, - 3, s)
      else
        (let s1 = s\<lparr>gotalarm := early\<rparr> in
         case call of
           Signalled alarm \<Rightarrow> recv_packets examine nt cs (s1\<lparr>gotalarm := early \<or> alarm, errnum := EINTR\<rparr>)
         | Recv_fails e \<Rightarrow>
             if e = EINTR then recv_packets examine nt cs (s1\<lparr>errnum := e\<rparr>)
             else (case err_sys ''recvfrom error'' (s1\<lparr>errnum := e\<rparr>) of (st, s2) \<Rightarrow> (st, 0, s2))
         | Datagram bytes src \<Rightarrow>
             (let s2 = received bytes src s1 in
              case examine (recvbuf s2) (int (length (take BUFSIZE bytes))) of
                Skip \<Rightarrow> recv_packets examine nt cs s2
              | Answer r \<Rightarrow> (Returns, r, s2)
              | Unset \<Rightarrow> (Undef Uninitialised, 0, s2)
              | Show type code \<Rightarrow>
                  if trace_verbose s2 = 0 then recv_packets examine nt cs s2
                  else
                    (case Sock_ntop_host nt (from_addr s2) (addr_len s2) s2 of
                       Inl (st, s3) \<Rightarrow> (st, 0, s3)
                     | Inr host \<Rightarrow>
                         recv_packets examine nt cs
                           (printf ('' (from '' @ host @ '': type = '' @ show_int (uint type) @ '', code = '' @ show_int (uint code) @ '')'' @ nl) s2)))))"

text \<open>
  The time of arrival is read for an answer, not after the alarm.  When \<open>ret\<close> was never assigned the model
  stops with the fault at once, where the program reads the clock before it returns the value.
\<close>

definition recv_probe ::
    "bool \<Rightarrow> ntop_fun \<Rightarrow> nat \<Rightarrow> recv_call list \<Rightarrow> errno + timeval \<Rightarrow> trace \<Rightarrow> stop \<times> int \<times> timeval option \<times> trace" where
  "recv_probe v6 nt seq cs now s =
     (case recv_packets ((if v6 then examine_v6 else examine_v4) (sport s) (dport s) seq) nt cs (s\<lparr>gotalarm := False\<rparr>) of
        (st, r, s1) \<Rightarrow>
          if st \<noteq> Returns \<or> r = - 3 then (st, r, None, s1)
          else (case Gettimeofday now s1 of Inl (st, s2) \<Rightarrow> (st, r, None, s2) | Inr (tv, s2) \<Rightarrow> (Returns, r, Some tv, s2)))"

definition recv_v4 :: "ntop_fun \<Rightarrow> nat \<Rightarrow> recv_call list \<Rightarrow> errno + timeval \<Rightarrow> trace \<Rightarrow> stop \<times> int \<times> timeval option \<times> trace" where
  "recv_v4 = recv_probe False"

definition recv_v6 :: "ntop_fun \<Rightarrow> nat \<Rightarrow> recv_call list \<Rightarrow> errno + timeval \<Rightarrow> trace \<Rightarrow> stop \<times> int \<times> timeval option \<times> trace" where
  "recv_v6 = recv_probe True"

section \<open>icmpcode_v4.c and icmpcode_v6.c\<close>

definition icmp_names_v4 :: "string list" where
  "icmp_names_v4 = [''network unreachable'', ''host unreachable'', ''protocol unreachable'', ''port unreachable'',
     ''fragmentation required but DF bit set'', ''source route failed'', ''destination network unknown'',
     ''destination host unknown'', ''source host isolated (obsolete)'',
     ''destination network administratively prohibited'', ''destination host administratively prohibited'',
     ''network unreachable for TOS'', ''host unreachable for TOS'',
     ''communication administratively prohibited by filtering'', ''host recedence violation'', ''precedence cutoff in effect'']"

definition icmpcode_v4 :: "int \<Rightarrow> string" where
  "icmpcode_v4 code = (if 0 \<le> code \<and> code \<le> 15 then icmp_names_v4 ! nat code else ''[unknown code '' @ show_int code @ '']'')"

definition icmp_names_v6 :: "string list" where
  "icmp_names_v6 = [''no route to host'', ''administratively prohibited'', ''not a neighbor'', ''address unreachable'', ''port unreachable'']"

definition icmpcode_v6 :: "int \<Rightarrow> string" where
  "icmpcode_v6 code = (if 0 \<le> code \<and> code \<le> 4 then icmp_names_v6 ! nat code else ''[unknown code '' @ show_int code @ '']'')"

section \<open>traceloop.c\<close>

text \<open>The answers of the system for the probe with a sequence number, and for a time to live.\<close>

record probe =
  p_sent :: "errno + timeval"
  p_sendto :: "errno + nat"
  p_calls :: "recv_call list"
  p_recvd :: "errno + timeval"

definition REC_SIZE :: nat where "REC_SIZE = 24"

definition show_host :: "reverse \<Rightarrow> ntop_fun \<Rightarrow> trace \<Rightarrow> (stop \<times> trace) + trace" where
  "show_host rv nt s =
     (if sock_cmp_addr (from_addr s) (last_addr s) = 0 then Inr s
      else
        (case Sock_ntop_host nt (from_addr s) (addr_len s) s of
           Inl x \<Rightarrow> Inl x
         | Inr addr \<Rightarrow>
             (case getnameinfo rv (case from_addr s of Known a \<Rightarrow> Some a | Other _ \<Rightarrow> None) 1025 0 0 of
                (rc, name, _) \<Rightarrow>
                  Inr (printf ('' '' @ (if rc = 0 then the name @ '' ('' @ addr @ '')'' else addr)) s\<lparr>last_addr := from_addr s\<rparr>))))"

text \<open>One probe, with whether the destination answered.\<close>

definition trace_probe :: "bool \<Rightarrow> reverse \<Rightarrow> ntop_fun \<Rightarrow> probe \<Rightarrow> nat \<Rightarrow> nat \<Rightarrow> trace \<Rightarrow> (stop \<times> trace) + bool \<times> trace" where
  "trace_probe v6 rv nt pb ttl seq s =
     (case Gettimeofday (p_sent pb) s of
        Inl x \<Rightarrow> Inl x
      | Inr (tv0, s1) \<Rightarrow>
          (case Sendto (replicate REC_SIZE nul) (p_sendto pb) (s1\<lparr>probes_sent := probes_sent s1 @ [(ttl, seq, dport s1 + of_nat seq)]\<rparr>) of
             Inl x \<Rightarrow> Inl x
           | Inr (_, s2) \<Rightarrow>
               (case (if v6 then recv_v6 else recv_v4) nt seq (p_calls pb) (p_recvd pb) s2 of
                  (st, code, tv, s3) \<Rightarrow>
                    if st \<noteq> Returns then Inl (st, s3)
                    else if code = - 3 then Inr (False, printf '' *'' s3)
                    else
                      (case show_host rv nt s3 of
                         Inl x \<Rightarrow> Inl x
                       | Inr s4 \<Rightarrow>
                           (let s5 = printf (''  '' @ show_3f (rtt_ms (tv_sub (the tv) tv0)) @ '' ms'') s4 in
                            Inr (code = - 1,
                              if 0 \<le> code then printf ('' (ICMP '' @ (if v6 then icmpcode_v6 else icmpcode_v4) code @ '')'') s5 else s5))))))"

text \<open>The probes of one time to live; \<open>k\<close> is how many are left.\<close>

fun trace_probes ::
    "bool \<Rightarrow> reverse \<Rightarrow> ntop_fun \<Rightarrow> (nat \<Rightarrow> probe) \<Rightarrow> nat \<Rightarrow> nat \<Rightarrow> nat \<Rightarrow> bool \<Rightarrow> trace \<Rightarrow> (stop \<times> trace) + nat \<times> bool \<times> trace" where
  "trace_probes v6 rv nt pb ttl 0 seq done s = Inr (seq, done, printf nl s)"
| "trace_probes v6 rv nt pb ttl (Suc k) seq done s =
     (case trace_probe v6 rv nt (pb (seq + 1)) ttl (seq + 1) s of
        Inl x \<Rightarrow> Inl x
      | Inr (d, s1) \<Rightarrow> trace_probes v6 rv nt pb ttl k (seq + 1) (done \<or> d) s1)"

text \<open>The loop over the time to live; \<open>k\<close> values are left.  \<^verbatim>\<open>bzero\<close> makes the last address one of no family.\<close>

fun trace_ttls ::
    "bool \<Rightarrow> reverse \<Rightarrow> ntop_fun \<Rightarrow> (nat \<Rightarrow> probe) \<Rightarrow> (nat \<Rightarrow> errno + unit) \<Rightarrow> nat \<Rightarrow> nat \<Rightarrow> nat \<Rightarrow> nat \<Rightarrow> trace \<Rightarrow> stop \<times> trace" where
  "trace_ttls v6 rv nt pb opt nprobes 0 ttl seq s = (Returns, s)"
| "trace_ttls v6 rv nt pb opt nprobes (Suc k) ttl seq s =
     (case Setsockopt (opt ttl) s of
        Inl x \<Rightarrow> x
      | Inr (_, s1) \<Rightarrow>
          (case trace_probes v6 rv nt pb ttl nprobes seq False
                  (printf ((if ttl < 10 then '' '' else []) @ show_int (int ttl) @ '' '') (s1\<lparr>last_addr := Other 0\<rparr>)) of
             Inl x \<Rightarrow> x
           | Inr (seq1, done, s2) \<Rightarrow> if done then (Returns, s2) else trace_ttls v6 rv nt pb opt nprobes k (ttl + 1) seq1 s2))"

definition traceloop ::
    "bool \<Rightarrow> reverse \<Rightarrow> ntop_fun \<Rightarrow> (nat \<Rightarrow> probe) \<Rightarrow> (nat \<Rightarrow> errno + unit) \<Rightarrow> errno + unit \<Rightarrow> errno + unit \<Rightarrow> errno + unit \<Rightarrow> 16 word
     \<Rightarrow> nat \<Rightarrow> nat \<Rightarrow> trace \<Rightarrow> stop \<times> trace" where
  "traceloop v6 rv nt pb opt raw udp bound mypid nprobes max_ttl s =
     (case or_die ''socket error'' raw s of
        Inl x \<Rightarrow> x
      | Inr (_, s1) \<Rightarrow>
          (case or_die ''socket error'' udp s1 of
             Inl x \<Rightarrow> x
           | Inr (_, s2) \<Rightarrow>
               (case Bind bound (s2\<lparr>sport := mypid OR 0x8000\<rparr>) of
                  Inl x \<Rightarrow> x
                | Inr (_, s3) \<Rightarrow> trace_ttls v6 rv nt pb opt nprobes max_ttl 1 0 (s3\<lparr>gotalarm := True\<rparr>))))"

section \<open>main.c\<close>

text \<open>The options one after the other, with the value of \<^verbatim>\<open>max_ttl\<close>; the first that is wrong ends the process.\<close>

fun trace_options :: "(char \<times> string) list \<Rightarrow> int \<Rightarrow> int \<Rightarrow> gai \<Rightarrow> (stop \<times> gai) + int \<times> int" where
  "trace_options [] max_ttl verb g = Inr (max_ttl, verb)"
| "trace_options ((c, arg) # opts) max_ttl verb g =
     (if c = CHR ''m'' then
        (if atoi arg \<le> 1 then Inl (err_quit ''invalid -m value'' g) else trace_options opts (atoi arg) verb g)
      else if c = CHR ''v'' then trace_options opts max_ttl (verb + 1) g
      else Inl (err_quit (''unrecognized option: '' @ [c]) g))"

definition main_traceroute ::
    "resolver \<Rightarrow> reverse \<Rightarrow> ntop_fun \<Rightarrow> (char \<times> string) list \<Rightarrow> string list \<Rightarrow> (nat \<Rightarrow> probe) \<Rightarrow> (nat \<Rightarrow> errno + unit)
     \<Rightarrow> errno + unit \<Rightarrow> errno + unit \<Rightarrow> errno + unit \<Rightarrow> 16 word \<Rightarrow> 8 word list \<Rightarrow> gai \<Rightarrow> stop \<times> trace" where
  "main_traceroute r rv nt opts args pb opt raw udp bound mypid buf g =
     (let s0 = \<lparr>inp = [], out = [], err = [], daemon_proc = False, slog = [], errnum = errnum g, gotalarm = False, recvbuf = buf,
            from_addr = Other 0, last_addr = Other 0, addr_len = 0, sport = 0, dport = 33434, trace_verbose = 0, probes_sent = []\<rparr>;
          leave = (\<lambda>x. (fst x, copy_proc (snd x) s0)) in
      case trace_options opts 30 0 g of
        Inl x \<Rightarrow> leave x
      | Inr (max_ttl, verb) \<Rightarrow>
          if length args \<noteq> 1 then leave (err_quit ''usage: traceroute [ -m <maxttl> -v ] <hostname>'' g)
          else
            (case first_address r nt (hd args) g of
               Inl x \<Rightarrow> leave x
             | Inr (ai, h, g1) \<Rightarrow>
                 (let g2 = printf (''traceroute to '' @ canon_or ai h @ '' ('' @ h @ ''): '' @ show_int max_ttl @ '' hops max, ''
                         @ show_int (int REC_SIZE) @ '' data bytes'' @ nl) g1 in
                  case choose_proto ''traceroute'' ai g2 of
                    Inl x \<Rightarrow> leave x
                  | Inr v6 \<Rightarrow>
                      (case calloc_block g2 of
                         Inl x \<Rightarrow> leave x
                       | Inr g3 \<Rightarrow>
                           (case calloc_block g3 of
                              Inl x \<Rightarrow> leave x
                            | Inr g4 \<Rightarrow>
                                (case calloc_block g4 of
                                   Inl x \<Rightarrow> leave x
                                 | Inr g5 \<Rightarrow>
                                     traceloop v6 rv nt pb opt raw udp bound mypid 3 (nat max_ttl)
                                       (copy_proc g5 (s0\<lparr>addr_len := int (ai_addrlen ai), trace_verbose := verb\<rparr>))))))))"

section \<open>Only the received bytes count\<close>

lemma nth_front: "i < length xs \<Longrightarrow> (xs @ ys) ! i = xs ! i"
  by (simp add: nth_append)

lemma ports_stale:
  assumes "4 \<le> length udp"
  shows "our_ports sp dp seq (udp @ x) = our_ports sp dp seq udp"
proof -
  have "(udp @ x) ! 0 = udp ! 0" "(udp @ x) ! (0 + 1) = udp ! (0 + 1)" "(udp @ x) ! 2 = udp ! 2" "(udp @ x) ! (2 + 1) = udp ! (2 + 1)"
    by (rule nth_front, insert assms, linarith)+
  then show ?thesis unfolding our_ports_def field16_def by simp
qed

lemma quoted_stale:
  "quoted_v4 sp dp seq (icmp @ x) (int (length icmp)) hit = quoted_v4 sp dp seq icmp (int (length icmp)) hit"
proof (cases "length icmp < 28")
  case True
  then show ?thesis by (simp add: quoted_v4_def IP_SIZE_def)
next
  case False
  let ?hip = "drop 8 icmp" and ?h = "ip_hlen (drop 8 icmp ! 0)"
  have d: "drop 8 (icmp @ x) = ?hip @ x" using False by simp
  have i: "(?hip @ x) ! 0 = ?hip ! 0" "(?hip @ x) ! 9 = ?hip ! 9" "(icmp @ x) ! 0 = icmp ! 0" "(icmp @ x) ! 1 = icmp ! 1"
    by (rule nth_front, insert False, (unfold length_drop)?, linarith)+
  have p: "our_ports sp dp seq (drop ?h (?hip @ x)) = our_ports sp dp seq (drop ?h ?hip)" if "\<not> int (length icmp) < 8 + int ?h + 4"
  proof -
    have l: "?h + 4 \<le> length ?hip" using that unfolding length_drop by linarith
    define h where "h = ?h"
    have "drop h (?hip @ x) = drop h ?hip @ x" "4 \<le> length (drop h ?hip)" using l unfolding h_def [symmetric] by simp_all
    then show ?thesis unfolding h_def [symmetric] by (simp only: ports_stale)
  qed
  show ?thesis
  proof (cases "int (length icmp) < 8 + int ?h + 4")
    case True
    show ?thesis unfolding quoted_v4_def d i Let_def if_P [OF True] ..
  next
    case False
    show ?thesis unfolding quoted_v4_def d i Let_def p [OF False] ..
  qed
qed

lemma examine_v4_stale:
  "examine_v4 sp dp seq (pkt @ x) (int (length pkt)) = examine_v4 sp dp seq pkt (int (length pkt))"
proof (cases "int (length pkt) - int (ip_hlen ((pkt @ x) ! 0)) < 8 \<and> int (length pkt) - int (ip_hlen (pkt ! 0)) < 8")
  case True
  then show ?thesis by (simp add: examine_v4_def)
next
  case False
  then have ne: "pkt \<noteq> []" by auto
  then have b: "(pkt @ x) ! 0 = pkt ! 0" by (cases pkt) auto
  let ?h = "ip_hlen (pkt ! 0)" and ?i = "drop (ip_hlen (pkt ! 0)) pkt"
  have l: "8 + ?h \<le> length pkt" using False b by simp
  have d: "drop ?h (pkt @ x) = ?i @ x" using l by simp
  have i: "(?i @ x) ! 0 = ?i ! 0" "(?i @ x) ! 1 = ?i ! 1" by (rule nth_front, insert l, unfold length_drop, linarith)+
  have n: "int (length pkt) - int ?h = int (length ?i)" using l by simp
  show ?thesis unfolding examine_v4_def b d Let_def n i quoted_stale ..
qed

lemma quoted_hit:
  "quoted_v4 sp dp seq icmp n (Answer r) = Answer r' \<Longrightarrow> our_ports sp dp seq (drop (ip_hlen (drop 8 icmp ! 0)) (drop 8 icmp))"
  by (simp add: quoted_v4_def Let_def split: if_splits)

text \<open>A packet answers one probe only.\<close>

lemma examine_v4_one:
  assumes "examine_v4 sp dp seq pkt n = Answer r" and "examine_v4 sp dp seq' pkt n = Answer r'"
  shows "(of_nat seq' :: 16 word) = of_nat seq"
proof -
  let ?icmp = "drop (ip_hlen (pkt ! 0)) pkt"
  let ?udp = "drop (ip_hlen (drop 8 ?icmp ! 0)) (drop 8 ?icmp)"
  have "our_ports sp dp seq ?udp" "our_ports sp dp seq' ?udp"
    using assms by (auto simp: examine_v4_def Let_def split: if_splits dest: quoted_hit)
  then show ?thesis by (simp add: our_ports_def)
qed

lemma recv_answers:
  assumes "recv_packets examine nt cs s = (Returns, r, s')" and "r \<noteq> - 3"
  shows "\<exists>early bytes src buf. (early, Datagram bytes src) \<in> set cs \<and> from_addr s' = src
    \<and> examine (put_bytes buf 0 (take BUFSIZE bytes)) (int (length (take BUFSIZE bytes))) = Answer r"
  using assms
proof (induction cs arbitrary: s)
  case Nil
  then show ?case by (simp split: if_splits)
next
  case (Cons c cs)
  obtain early call where c: "c = (early, call)" by (cases c)
  have g: "\<not> gotalarm s" using Cons.prems c by (auto split: if_splits)
  show ?case
  proof (cases "\<exists>s1. recv_packets examine nt cs s1 = (Returns, r, s')")
    case True
    with Cons.IH Cons.prems(2) show ?thesis by fastforce
  next
    case False
    then have no: "recv_packets examine nt cs s1 \<noteq> (Returns, r, s')" for s1 by blast
    let ?s = "s\<lparr>gotalarm := early\<rparr>"
    show ?thesis
    proof (cases call)
      case (Datagram bytes src)
      let ?s2 = "received bytes src ?s"
      have b: "recvbuf ?s2 = put_bytes (recvbuf s) 0 (take BUFSIZE bytes)" "from_addr ?s2 = src" by (simp_all add: received_def)
      show ?thesis
      proof (cases "examine (recvbuf ?s2) (int (length (take BUFSIZE bytes)))")
        case (Answer x)
        with Cons.prems(1) g c Datagram have "x = r" "s' = ?s2" by (simp_all add: Let_def)
        with Answer b c Datagram show ?thesis by auto
      next
        case (Show type code)
        with Cons.prems(1) g c Datagram no show ?thesis
          by (cases "trace_verbose ?s2 = 0"; cases "Sock_ntop_host nt (from_addr ?s2) (addr_len ?s2) ?s2")
            (auto simp: Let_def Sock_ntop_host_def err_sys_def split: option.splits)
      qed (use Cons.prems(1) g c Datagram no in \<open>simp_all add: Let_def\<close>)
    next
      case (Signalled al)
      with Cons.prems(1) g c no show ?thesis by (simp add: Let_def)
    next
      case (Recv_fails e)
      with Cons.prems(1) g c no show ?thesis by (cases "e = EINTR") (simp_all add: Let_def err_sys_def)
    qed
  qed
qed

lemma put_front: "put_bytes buf 0 xs = xs @ drop (length xs) buf"
  by (simp add: put_bytes_def)

section \<open>Properties\<close>

text \<open>C17: When \<^verbatim>\<open>recv_v4\<close> returns an answer, it comes from a packet that this call received, the sender is the
  one it shows, the bytes the packet has decide alone, not what an earlier packet left in the buffer, and
  the packet is no answer to a probe with another sequence number (modulo 65536).\<close>

theorem recv_v4_own_probe:
  assumes "recv_v4 nt seq cs now s = (Returns, r, Some tv, s')"
  shows "\<exists>early bytes src pkt. (early, Datagram bytes src) \<in> set cs \<and> from_addr s' = src \<and> pkt = take BUFSIZE bytes
    \<and> (\<forall>stale. examine_v4 (sport s) (dport s) seq (pkt @ stale) (int (length pkt)) = Answer r)
    \<and> (\<forall>seq' stale r'. examine_v4 (sport s) (dport s) seq' (pkt @ stale) (int (length pkt)) = Answer r'
        \<longrightarrow> (of_nat seq' :: 16 word) = of_nat seq)"
proof -
  obtain st r1 s1 where x: "recv_packets (examine_v4 (sport s) (dport s) seq) nt cs (s\<lparr>gotalarm := False\<rparr>) = (st, r1, s1)"
    by (rule prod_cases3)
  with assms have e: "st = Returns" "r1 = r" "r \<noteq> - 3" "from_addr s' = from_addr s1"
    by (auto simp: recv_v4_def recv_probe_def Gettimeofday_def or_die_def err_sys_def split: if_splits sum.splits)
  from recv_answers [OF x [unfolded e] e(3)] obtain early bytes src buf where
    d: "(early, Datagram bytes src) \<in> set cs" "from_addr s1 = src"
      "examine_v4 (sport s) (dport s) seq (put_bytes buf 0 (take BUFSIZE bytes)) (int (length (take BUFSIZE bytes))) = Answer r" by blast
  let ?p = "take BUFSIZE bytes"
  have a: "examine_v4 (sport s) (dport s) seq ?p (int (length ?p)) = Answer r"
    using d(3) unfolding put_front examine_v4_stale .
  show ?thesis
  proof (intro exI conjI allI impI)
    show "(of_nat seq' :: 16 word) = of_nat seq"
      if "examine_v4 (sport s) (dport s) seq' (?p @ stale) (int (length ?p)) = Answer r'" for seq' stale r'
      using examine_v4_one [OF a that [unfolded examine_v4_stale]] .
  qed (use d e a in \<open>simp_all only: examine_v4_stale\<close>)
qed

definition trace_start :: trace where
  "trace_start = \<lparr>inp = [], out = [], err = [], daemon_proc = False, slog = [], errnum = EIO, gotalarm = True,
     recvbuf = replicate 1500 0, from_addr = Other 0, last_addr = Other 0, addr_len = 16, sport = 0x9000, dport = 33434,
     trace_verbose = 0, probes_sent = []\<rparr>"

definition unreachable :: "8 word list" where
  "unreachable = [0x45, 0, 0, 56, 0, 0, 0, 0, 60, 1, 0, 0, 10, 0, 0, 9, 10, 0, 0, 2] @ [3, 3, 0, 0, 0, 0, 0, 0]
     @ [0x45, 0, 0, 52, 0, 0, 0, 0, 1, 17, 0, 0, 10, 0, 0, 2, 10, 0, 0, 9] @ [0x90, 0, 0x82, 0xba, 0, 32, 0, 0]"

theorem recv_v4_own_probe_witness:
  "\<exists>s'. recv_v4 (\<lambda>_ _ _. None) 32 [(False, Signalled False), (False, Datagram unreachable (Known (Sin [10, 0, 0, 9] 0)))] (Inr (Timeval 5 0)) trace_start
      = (Returns, - 1, Some (Timeval 5 0), s') \<and> from_addr s' = Known (Sin [10, 0, 0, 9] 0)"
proof -
  have l: "take BUFSIZE unreachable = unreachable" by (simp add: unreachable_def BUFSIZE_def)
  have n: "length unreachable = 56" by (simp add: unreachable_def)
  have p: "unat (0x45 :: 8 word) mod 16 = 5" by simp
  have a: "examine_v4 0x9000 33434 32 (unreachable @ x) 56 = Answer (- 1)" for x
    by (simp add: examine_v4_def quoted_v4_def unreachable_def ip_hlen_def p trace_types IP_SIZE_def our_ports_def field16_def load16_def)
  obtain s' where r: "recv_v4 (\<lambda>_ _ _. None) 32 [(False, Signalled False), (False, Datagram unreachable (Known (Sin [10, 0, 0, 9] 0)))] (Inr (Timeval 5 0)) trace_start
      = (Returns, - 1, Some (Timeval 5 0), s')"
    using a by (simp add: recv_v4_def recv_probe_def Let_def received_def l n put_front trace_start_def Gettimeofday_def or_die_def)
  from recv_v4_own_probe [OF r] r show ?thesis by auto
qed

text \<open>C37: \<^verbatim>\<open>recv_v6\<close> returns a value that was never assigned when a time exceeded message for the packet of another
  process arrives: the \<^verbatim>\<open>break\<close> behind the test of the ports is not part of it.\<close>

theorem recv_v6_unassigned:
  assumes "52 \<le> length bytes" and "bytes ! 0 = ICMP6_TIME_EXCEEDED" and "bytes ! 1 = ICMP6_TIME_EXCEED_TRANSIT"
    and "bytes ! 14 \<noteq> IPPROTO_UDP \<or> field16 False bytes 48 \<noteq> sport s \<or> field16 False bytes 50 \<noteq> dport s + of_nat seq"
  shows "fst (recv_v6 nt seq ((early, Datagram bytes src) # cs) now s) = Undef Uninitialised"
proof -
  let ?p = "take BUFSIZE bytes"
  have l: "52 \<le> length ?p" using assms(1) by (simp add: BUFSIZE_def)
  have at: "(?p @ x) ! i = bytes ! i" if "i < 52" for i x
    using that l nth_front [of i ?p x] by simp
  have d: "drop i (?p @ x) ! j = bytes ! (i + j)" if "i + j < 52" for i j x
  proof -
    have "i \<le> length (?p @ x)" using that l unfolding length_append by linarith
    with at [OF that] show ?thesis by (simp only: nth_drop)
  qed
  have "\<not> (drop 8 y ! 6 = IPPROTO_UDP \<and> our_ports (sport s) (dport s) seq (drop IP6_SIZE (drop 8 y)))"
    if y: "\<And>i j. i + j < 52 \<Longrightarrow> drop i y ! j = bytes ! (i + j)" for y
    using assms(4) y [of 8 6] y [of 48 0] y [of 48 1] y [of 48 2] y [of 48 3]
    by (auto simp: our_ports_def field16_def IP6_SIZE_def)
  from this [OF d] have "\<not> (drop 8 (?p @ x) ! 6 = IPPROTO_UDP \<and> our_ports (sport s) (dport s) seq (drop IP6_SIZE (drop 8 (?p @ x))))" for x .
  then have "examine_v6 (sport s) (dport s) seq (?p @ x) (int (length ?p)) = Unset" for x
    using assms(2,3) at [of 0 x] at [of 1 x] l unfolding examine_v6_def Let_def by (simp add: IP6_SIZE_def not_less)
  then show ?thesis
    by (simp add: recv_v6_def recv_probe_def Let_def received_def put_front)
qed

theorem recv_v6_unassigned_witness:
  "fst (recv_v6 (\<lambda>_ _ _. None) 7 [(False, Datagram ([3, 0] @ replicate 50 0) (Other 10))] (Inr (Timeval 5 0)) trace_start) = Undef Uninitialised"
  by (rule recv_v6_unassigned) (simp_all add: trace_types)

end
