(* ===== verification/Spec2Isabelle.thy ===== *)
theory Spec2Isabelle
  imports Netcalc_Poll_Server Netcalc_Client_V3 Netcalc_Combined Netcalc_Thread_Server Netcalc_Test
    Netcalc_Client_V4 Netcalc_System Srcp_Copy Sreg Testprog Netcalc_Variants
    Unp_Echo_Server Unp_Cksum Unp_Inet6 Unp_Nonblock Unp_Sigio Unp_Pool Unp_Rtt Unp_Mux_Select Unp_Mux_Poll Unp_Gni Unp_Tcp Unp_Gai_Type Unp_Trace
begin

text \<open>
  This library models the programs of a course on network programming and the parts of the library of
  Stevens, Fenner and Rudoff (\<^verbatim>\<open>SampleCode/unpv13e\<close>) that carry them.

  The programs.  \<^verbatim>\<open>SampleCode/netcalc\<close> is a calculator over the network: a client reads questions as
  \<^verbatim>\<open>2+3\<close>, sends them as messages that end with a semicolon, and shows the answers; there are two clients
  that wait for each answer, one that multiplexes with \<^verbatim>\<open>poll\<close>, one with two threads and one over UDP, and
  iterative, forking, multiplexing, threaded and combined servers.  \<^verbatim>\<open>Project/CS515_HW2_Var1.1\<close> copies
  files, \<^verbatim>\<open>SampleCode/simple_reg\<close> registers students, \<^verbatim>\<open>SampleCode/testprog\<close> holds small tests.  All are
  linked with the wrappers and the error functions of \<^verbatim>\<open>unpv13e/lib\<close>, where a failing call ends the
  process.

  The theories.

  \<^item> \<open>C_Base\<close>, \<open>Posix_IO\<close>, \<open>Posix_Net\<close>, \<open>Posix_Files\<close>: the C library and the system calls as far as
    the programs use them (arrays, \<^verbatim>\<open>sscanf\<close>, \<^verbatim>\<open>fgets\<close>, scripts of \<^verbatim>\<open>read\<close> and \<^verbatim>\<open>write\<close>, addresses, files).
    They model no code of the repository.
  \<^item> \<open>Unp_Error\<close>, \<open>Unp_Wrap\<close>, \<open>Unp_Wrap_More\<close>: \<^verbatim>\<open>lib/error.c\<close> and every wrapper of \<^verbatim>\<open>lib/wrap*.c\<close>.
  \<^item> \<open>Unp_Stream\<close>: \<^verbatim>\<open>readn\<close>, \<^verbatim>\<open>writen\<close>, \<^verbatim>\<open>readline\<close> with its buffer and the slow \<^verbatim>\<open>readline\<close> of
    \<^verbatim>\<open>test/readline1.c\<close>; the locale \<open>byte_source\<close> holds what both need.
  \<^item> \<open>Netcalc_App\<close>, \<open>Netcalc_Util\<close>: the messages of the calculator and the function that takes one out
    of a stream (locales \<open>msg_source\<close> and \<open>exact_source\<close>).
  \<^item> \<open>Netcalc_Server\<close> (versions 1 and 2), \<open>Netcalc_Fork_Server\<close> (3), \<open>Netcalc_Poll_Server\<close> (4),
    \<open>Netcalc_Thread_Server\<close> (5), \<open>Netcalc_Udp\<close> and \<open>Netcalc_Combined\<close> (6): the servers.
    \<open>Netcalc_Client\<close> (versions 1 and 2), \<open>Netcalc_Parse_Buf\<close> and \<open>Netcalc_Client_V3\<close> (3),
    \<open>Netcalc_Client_V4\<close> (4), \<open>Netcalc_Test\<close>: the clients.  \<open>Netcalc_Variants\<close>: the variants without the
    library.  \<open>Netcalc_System\<close> puts client and server together; the locale \<open>session_service\<close> is the
    contract of a server, interpreted on versions 2 and 3.
  \<^item> \<open>Srcp\<close>, \<open>Srcp_Copy\<close>, \<open>Sreg\<close>, \<open>Testprog\<close>: the other programs of the course.
  \<^item> \<open>Unp_Echo\<close>, \<open>Unp_Echo_Server\<close>, \<open>Unp_Select_Client\<close>, \<open>Unp_Nonblock\<close>: the echo service of
    \<^verbatim>\<open>lib\<close>, \<^verbatim>\<open>tcpcliserv\<close>, \<^verbatim>\<open>select\<close> and \<^verbatim>\<open>nonblock\<close>.
  \<^item> \<open>Unp_Ring\<close>, \<open>Unp_Sigio\<close>, \<open>Unp_Pool\<close>, \<open>Unp_Web\<close>: arrays used as rings, with the locale
    \<open>bounded_queue\<close>; the UDP server driven by signals (\<^verbatim>\<open>sigio\<close>) and the pool of threads (\<^verbatim>\<open>server\<close>),
    which interpret it; the service of the server designs.
  \<^item> \<open>Unp_Rtt\<close>: the request over UDP that is sent again with growing timeouts (\<^verbatim>\<open>rtt\<close>, \<^verbatim>\<open>lib/rtt.c\<close>);
    the alarm strikes while \<^verbatim>\<open>recvmsg\<close> waits or just after it has returned.
  \<^item> \<open>Unp_Cksum\<close>, \<open>Unp_Inet\<close>, \<open>Unp_Inet6\<close>: the Internet checksum and the text of addresses
    (\<^verbatim>\<open>libfree\<close>).
  \<^item> \<open>Unp_Mux\<close>, \<open>Unp_Mux_Select\<close>, \<open>Unp_Mux_Poll\<close>: the echo servers of one process that multiplex with
    \<^verbatim>\<open>select\<close> and with \<^verbatim>\<open>poll\<close> (\<^verbatim>\<open>tcpcliserv\<close>).  The locale \<open>echo_table\<close> holds what a table of clients
    promises; \<open>calm_table\<close> extends it by what holds while no call fails.
  \<^item> \<open>Unp_Gai\<close>, \<open>Unp_Gai_Type\<close>, \<open>Unp_Gni\<close>: \<^verbatim>\<open>getaddrinfo\<close> and \<^verbatim>\<open>getnameinfo\<close> of \<^verbatim>\<open>libgai\<close>.  The resolver
    and the service table are arguments, allocations succeed or fail by a script, and the blocks that
    are allocated are counted, so the lemmas say what is freed.
  \<^item> \<open>Unp_Addr\<close>, \<open>Unp_Tcp\<close>: the helpers of \<^verbatim>\<open>lib\<close> for socket addresses (\<^verbatim>\<open>sock_ntop\<close> and its kind) and
    those that walk the list of addresses (\<^verbatim>\<open>tcp_connect\<close>, \<^verbatim>\<open>tcp_listen\<close>, \<^verbatim>\<open>udp_client\<close>, ...); the
    locale \<open>attempts\<close> is what these walks share.
  \<^item> \<open>Unp_Time\<close>, \<open>Unp_Ping\<close>, \<open>Unp_Trace\<close>: times as an ordered type, \<^verbatim>\<open>ping\<close> and \<^verbatim>\<open>traceroute\<close> from their
    \<^verbatim>\<open>main\<close> on, packets as lists of bytes.

  How the programs are modelled.  The state of a process is a record that extends the one of standard
  input and output: what was printed, the error output, the system log, \<^verbatim>\<open>errno\<close>.  A function takes it
  and returns it changed, with a value of type \<open>stop\<close> that says how the function ended: it returned, it
  left the process with a code, it waits for input that never comes, or it has written behind an array.
  Such a write is always a fault of the model, so a theorem that a function returns also says that it
  stays within its arrays.  What a system call returns, and how the network cuts a stream, are scripts;
  a theorem quantifies over them, and a script that ends stands for a call that waits for ever.  Every
  loop whose end depends on such a script recurses over it, or over a measure of it, so no fuel is
  needed.  Threads, child processes and signal handlers are step relations, in which any runnable party
  takes the next step; the theorems on them are about every state that can be reached.

  What the lemmas show.  For the stream functions and the message reader: which prefix of a stream is
  taken, for every way it is cut, and what is left.  For each server: the replies to a session are those of
  the protocol, for each client, whatever the others do, with the invariant of its table, its
  counter or its queue.  For each client: what it sends and shows.  For the two together: the dialogue.
  For the conversions: the round trip.  Properties of kind error state what the code does where it
  does not do what it means to.

  Not modelled.  Of \<^verbatim>\<open>unpv13e\<close>, the programs that only call the library in sequence or print what it
  returns (\<^verbatim>\<open>intro\<close>, \<^verbatim>\<open>names\<close>, \<^verbatim>\<open>inetd\<close>, \<^verbatim>\<open>ssntp\<close>, \<^verbatim>\<open>sockopt\<close>, \<^verbatim>\<open>ioctl\<close>, \<^verbatim>\<open>debug\<close>, \<^verbatim>\<open>test\<close>), those whose
  behaviour is the kernel's (\<^verbatim>\<open>oob\<close>, \<^verbatim>\<open>sctp\<close>, \<^verbatim>\<open>mcast\<close>, \<^verbatim>\<open>bcast\<close>, \<^verbatim>\<open>unixdomain\<close>, \<^verbatim>\<open>streams\<close>), those for
  systems or libraries that are not here (\<^verbatim>\<open>key\<close>, \<^verbatim>\<open>route\<close>, \<^verbatim>\<open>libroute\<close>, \<^verbatim>\<open>udpcksum\<close>), the BSD \<^verbatim>\<open>ping\<close> kept for
  comparison, and variants of modelled programs with another call or another server design.  The
  scheduling of the processor is not modelled, nor are data races below the level of one statement but
  for the counters \<^verbatim>\<open>curClient\<close>, whose increment is a read and a write with whatever comes between them
  (threads in \<open>Netcalc_Thread_Server\<close>, the handler of \<^verbatim>\<open>SIGCHLD\<close> in \<open>Netcalc_Fork_Server\<close> and
  \<open>Netcalc_Combined\<close>).  \<^verbatim>\<open>poll\<close> reports of a descriptor what is there: readable, an error, both or nothing.
  Simplified: \<^verbatim>\<open>syslog\<close> writes the line of \<^verbatim>\<open>err_doit\<close> as it is, not as a format; \<^verbatim>\<open>atoi\<close> is exact, also for
  numbers that no \<^verbatim>\<open>int\<close> can hold; \<open>recv_probe\<close> faults on its unassigned value before it reads the clock.
\<close>

end
